(* ===== verification/Prelude.thy ===== *)
theory Prelude
  imports Main "HOL-Library.Word" "HOL-Library.Monad_Syntax"
begin

text \<open>
  Shared material of the development: the machine types of
  \<^verbatim>\<open>kernel/include/nt/ntdef.h\<close>, the status codes of
  \<^verbatim>\<open>kernel/include/nt/ntstatus.h\<close>, the page-geometry macros of
  \<^verbatim>\<open>kernel/include/ntos/mm.h\<close>, the collections of simplification rules
  the components declare into, and the generic facts on words, lists and options that the component
  proofs share.

  Conventions used throughout:
  \<^item> a \<^verbatim>\<open>UINT64\<close>/\<^verbatim>\<open>ULONG_PTR\<close>/\<^verbatim>\<open>SIZE_T\<close> is a \<open>64 word\<close>, so additions wrap as in C;
  \<^item> \<^verbatim>\<open>NULL\<close> is the word 0;
  \<^item> an operation that may not return normally (it reaches \<^verbatim>\<open>KeBugCheck\<close>, or follows a
    pointer to no live structure) has an \<open>option\<close> result, \<open>None\<close> standing for the halt;
  \<^item> \<^verbatim>\<open>KeLog\<close> and the port writes that only drive a display are not modelled.
\<close>

unbundle bit_operations_syntax

type_synonym u8 = "8 word"
type_synonym u16 = "16 word"
type_synonym u32 = "32 word"
type_synonym u64 = "64 word"
type_synonym ntstatus = "32 word"

named_theorems frame_simps \<open>what an operation leaves unchanged\<close>
named_theorems kernel_simps \<open>definitions to unfold when evaluating the model\<close>

section \<open>Status codes\<close>

text \<open>An \<^verbatim>\<open>NTSTATUS\<close> is a signed 32-bit value; \<^verbatim>\<open>NT_SUCCESS\<close> tests that it is not negative.\<close>

definition NT_SUCCESS :: "ntstatus \<Rightarrow> bool" where
  "NT_SUCCESS st = (0 \<le> sint st)"

abbreviation "STATUS_SUCCESS \<equiv> (0x00000000 :: ntstatus)"
abbreviation "STATUS_WAIT_0 \<equiv> (0x00000000 :: ntstatus)"
abbreviation "STATUS_TIMEOUT \<equiv> (0x00000102 :: ntstatus)"
abbreviation "STATUS_PENDING \<equiv> (0x00000103 :: ntstatus)"
abbreviation "STATUS_UNSUCCESSFUL \<equiv> (0xC0000001 :: ntstatus)"
abbreviation "STATUS_INVALID_INFO_CLASS \<equiv> (0xC0000003 :: ntstatus)"
abbreviation "STATUS_INFO_LENGTH_MISMATCH \<equiv> (0xC0000004 :: ntstatus)"
abbreviation "STATUS_ACCESS_VIOLATION \<equiv> (0xC0000005 :: ntstatus)"
abbreviation "STATUS_INVALID_HANDLE \<equiv> (0xC0000008 :: ntstatus)"
abbreviation "STATUS_INVALID_PARAMETER \<equiv> (0xC000000D :: ntstatus)"
abbreviation "STATUS_ACCESS_DENIED \<equiv> (0xC0000022 :: ntstatus)"
abbreviation "STATUS_NO_SUCH_DEVICE \<equiv> (0xC000000E :: ntstatus)"
abbreviation "STATUS_NO_MEMORY \<equiv> (0xC0000017 :: ntstatus)"
abbreviation "STATUS_BUFFER_TOO_SMALL \<equiv> (0xC0000023 :: ntstatus)"
abbreviation "STATUS_OBJECT_TYPE_MISMATCH \<equiv> (0xC0000024 :: ntstatus)"
abbreviation "STATUS_OBJECT_NAME_INVALID \<equiv> (0xC0000033 :: ntstatus)"
abbreviation "STATUS_OBJECT_NAME_NOT_FOUND \<equiv> (0xC0000034 :: ntstatus)"
abbreviation "STATUS_OBJECT_NAME_COLLISION \<equiv> (0xC0000035 :: ntstatus)"
abbreviation "STATUS_OBJECT_PATH_NOT_FOUND \<equiv> (0xC000003A :: ntstatus)"
abbreviation "STATUS_NOT_SUPPORTED \<equiv> (0xC00000BB :: ntstatus)"
abbreviation "STATUS_INSUFFICIENT_RESOURCES \<equiv> (0xC000009A :: ntstatus)"
abbreviation "STATUS_DEVICE_NOT_READY \<equiv> (0xC00000A3 :: ntstatus)"

section \<open>Page geometry\<close>

abbreviation "PAGE_SIZE \<equiv> (0x1000 :: u64)"
abbreviation "PAGE_MASK \<equiv> (0xFFF :: u64)"
abbreviation "LARGE_PAGE_SIZE \<equiv> (0x200000 :: u64)"
abbreviation "MM_INVALID_PHYS \<equiv> (0xFFFFFFFFFFFFFFFF :: u64)"
abbreviation "KERNEL_VIRT_BASE \<equiv> (0xFFFFFFFF80000000 :: u64)"
abbreviation "KERNEL_PHYS_BASE \<equiv> (0x100000 :: u64)"
abbreviation "MM_DIRECT_MAP_BASE \<equiv> (0xFFFF800000000000 :: u64)"
abbreviation "MM_KERNEL_HEAP_BASE \<equiv> (0xFFFFFFFFC0000000 :: u64)"
abbreviation "MM_USER_MAX \<equiv> (0x0000800000000000 :: u64)"

definition PAGE_ALIGN :: "u64 \<Rightarrow> u64" where
  "PAGE_ALIGN x = x AND NOT PAGE_MASK"

definition PAGE_ALIGN_UP :: "u64 \<Rightarrow> u64" where
  "PAGE_ALIGN_UP x = (x + PAGE_MASK) AND NOT PAGE_MASK"

definition BYTES_TO_PAGES :: "u64 \<Rightarrow> u64" where
  "BYTES_TO_PAGES x = drop_bit 12 (x + PAGE_MASK)"

text \<open>\<^verbatim>\<open>ALIGN_DOWN_BY\<close> and \<^verbatim>\<open>ALIGN_UP_BY\<close> of \<^verbatim>\<open>ntdef.h\<close>.\<close>

definition ALIGN_DOWN_BY :: "u64 \<Rightarrow> u64 \<Rightarrow> u64" where
  "ALIGN_DOWN_BY x a = x AND NOT (a - 1)"

definition ALIGN_UP_BY :: "u64 \<Rightarrow> u64 \<Rightarrow> u64" where
  "ALIGN_UP_BY x a = ALIGN_DOWN_BY (x + (a - 1)) a"

section \<open>Words\<close>

lemma word_Suc_less: "f < (l :: 'a::len word) \<Longrightarrow> unat (f + 1) = Suc (unat f)"
proof -
  assume "f < l"
  have "1 + f \<noteq> 0"
  proof
    assume "1 + f = 0"
    then have "f = - 1" by (simp add: eq_neg_iff_add_eq_0 add.commute)
    then have "l \<le> f" by simp
    with \<open>f < l\<close> show False by simp
  qed
  then show ?thesis by (simp add: unatSuc add.commute)
qed

lemma word_Suc_le: "f < (l :: 'a::len word) \<Longrightarrow> f + 1 \<le> l"
  by (simp add: inc_le)

lemma word_less_Suc_iff: "f < (l :: 'a::len word) \<Longrightarrow> g < f + 1 \<longleftrightarrow> g < f \<or> g = f"
  by (auto simp: word_less_nat_alt word_Suc_less less_Suc_eq word_unat_eq_iff)

lemma word_le_Suc_iff: "f < (l :: 'a::len word) \<Longrightarrow> f + 1 \<le> g \<longleftrightarrow> f < g"
  by (simp add: word_less_nat_alt word_le_nat_alt word_Suc_less Suc_le_eq)

text \<open>A counting loop over words: the distance to the bound shrinks.\<close>

lemma word_loop_measure [simp]:
  "f < (l :: 'a::len word) \<Longrightarrow> unat l - unat (f + 1) < unat l - unat f"
  by (auto simp: word_less_nat_alt word_Suc_less intro: diff_less_mono2)

lemma unat_of_nat_id: "n < 2 ^ LENGTH('a) \<Longrightarrow> unat (of_nat n :: 'a::len word) = n"
  by (simp add: unat_of_nat)

lemma unat_ucast_small:
  "unat w < 2 ^ LENGTH('b) \<Longrightarrow> unat (ucast (w :: 'a::len word) :: 'b::len word) = unat w"
  by (simp add: unsigned_ucast_eq take_bit_nat_eq_self)

lemma unat_ucast_up:
  "LENGTH('a) \<le> LENGTH('b) \<Longrightarrow> unat (ucast (w :: 'a::len word) :: 'b::len word) = unat w"
proof -
  assume "LENGTH('a) \<le> LENGTH('b)"
  then have "(2 :: nat) ^ LENGTH('a) \<le> 2 ^ LENGTH('b)" by simp
  moreover have "unat w < 2 ^ LENGTH('a)" by (rule unsigned_less)
  ultimately show ?thesis by (intro unat_ucast_small) linarith
qed

lemma unat_less_64: "unat (x :: u64) < 2 ^ 64"
  using unsigned_less [of x, where ?'a = nat] by simp

lemma card_words_below: "card {f. f < (t :: 'a::len word)} = unat t"
proof -
  have lt: "n < 2 ^ LENGTH('a)" if "n < unat t" for n
    using that unsigned_less [of t, where ?'a = nat] by (rule less_trans)
  have "{f. f < t} = of_nat ` {..< unat t}"
  proof (intro equalityI subsetI)
    fix f assume "f \<in> {f. f < t}"
    then have "f = of_nat (unat f)" and "unat f < unat t" by (auto simp: word_less_nat_alt)
    then show "f \<in> of_nat ` {..< unat t}" by blast
  next
    fix f assume "f \<in> (of_nat :: nat \<Rightarrow> 'a word) ` {..< unat t}"
    then show "f \<in> {f. f < t}" by (auto simp: word_less_nat_alt unat_of_nat_id lt)
  qed
  moreover have "inj_on (of_nat :: nat \<Rightarrow> 'a word) {..< unat t}"
    by (rule inj_onI) (metis lessThan_iff lt unat_of_nat_id)
  ultimately show ?thesis by (simp add: card_image)
qed

lemma PAGE_MASK_mask: "PAGE_MASK = mask 12"
  by (simp add: mask_eq_exp_minus_1)

section \<open>Bytes in memory\<close>

text \<open>The bytes \<open>bs\<close> lie at address \<open>a\<close>.\<close>

definition mem_holds :: "(u64 \<Rightarrow> u8) \<Rightarrow> u64 \<Rightarrow> u8 list \<Rightarrow> bool" where
  "mem_holds mem a bs \<longleftrightarrow> (\<forall>i < length bs. mem (a + of_nat i) = bs ! i)"

lemma mem_holds_Cons: "mem_holds mem a (b # bs) \<longleftrightarrow> mem a = b \<and> mem_holds mem (a + 1) bs"
  by (auto simp: mem_holds_def less_Suc_eq_0_disj nth_Cons' algebra_simps gr0_conv_Suc)

lemma mem_holds_Nil [simp]: "mem_holds mem a []"
  by (simp add: mem_holds_def)

lemma mem_holds_append:
  "mem_holds mem a (bs @ cs) \<longleftrightarrow> mem_holds mem a bs \<and> mem_holds mem (a + of_nat (length bs)) cs"
  by (induction bs arbitrary: a) (auto simp: mem_holds_Cons algebra_simps)

lemma holds_at_offset:
  assumes "length bs < 2 ^ 64" and "\<And>a. mem a = (let i = unat (a - b) in if i < length bs then bs ! i else 0)"
  shows "mem_holds mem b bs"
  using assms by (auto simp: mem_holds_def Let_def unat_of_nat)

section \<open>Transition systems\<close>

text \<open>A step relation with an invariant each step keeps; the invariant then holds after every sequence of
  steps. The components that are driven by their clients (frame allocator, pool, objects, scheduler)
  are instances.\<close>

locale transition_system =
  fixes step :: "'s \<Rightarrow> 's \<Rightarrow> bool" and inv :: "'s \<Rightarrow> bool"
  assumes step_inv: "step s t \<Longrightarrow> inv s \<Longrightarrow> inv t"
begin

lemma steps_inv: "step\<^sup>*\<^sup>* s t \<Longrightarrow> inv s \<Longrightarrow> inv t"
  by (induction rule: rtranclp_induct) (auto intro: step_inv)

end

end
