(* ===== verification/Mm_Pmm.thy ===== *)
theory Mm_Pmm
  imports Prelude
begin

text \<open>
  The physical memory manager, \<^verbatim>\<open>kernel/mm/pmm.c\<close>: a bitmap with one bit per 4 KiB frame.
  \<open>pmm_state\<close> is \<^verbatim>\<open>PMM_STATE\<close> with the bitmap's bytes beside it: \<open>bitmap s i\<close> is the byte at
  offset \<open>i\<close> from \<^verbatim>\<open>bitmap_phys\<close> (reads and writes past the bitmap reach the memory behind it, as
  in C). \<open>reserve_range\<close>, \<open>free_range\<close>, \<open>MmInitializePhysicalMemory\<close>, \<open>MmAllocatePage\<close>,
  \<open>MmAllocatePages\<close> and \<open>MmFreePages\<close> follow the functions of the same names; their \<^verbatim>\<open>for\<close> loops are
  recursive functions over the 64-bit loop counter.

  \<open>pmm_inv\<close> relates the counters to the bitmap. The lemmas show that every operation keeps it, what
  each operation does to the bitmap, and that the two searches are sound and complete. The
  locale \<open>frame_allocator\<close> is what the virtual memory manager and the pool rely on.
\<close>

section \<open>State\<close>

record pmm_state =
  bitmap_phys :: u64
  bitmap_bytes :: u64
  total_pages :: u64
  free_pages :: u64
  used_pages :: u64
  next_hint :: u64
  bitmap :: "u64 \<Rightarrow> u8"

text \<open>The firmware memory map of \<^verbatim>\<open>mm.h\<close>.\<close>

datatype MM_REGION_TYPE = MmRegionAvailable | MmRegionReserved | MmRegionAcpiReclaimable
  | MmRegionAcpiNvs | MmRegionBad

record MM_MEMORY_REGION =
  rbase :: u64
  rlength :: u64
  rtype :: MM_REGION_TYPE

record MM_MEMORY_MAP =
  regions :: "MM_MEMORY_REGION list"
  highest_address :: u64
  total_available :: u64

section \<open>Operations\<close>

definition bit_set :: "u64 \<Rightarrow> pmm_state \<Rightarrow> pmm_state" where
  "bit_set frame s = s\<lparr>bitmap := (bitmap s)
     (drop_bit 3 frame := bitmap s (drop_bit 3 frame) OR push_bit (unat (frame AND 7)) 1)\<rparr>"

definition bit_clear :: "u64 \<Rightarrow> pmm_state \<Rightarrow> pmm_state" where
  "bit_clear frame s = s\<lparr>bitmap := (bitmap s)
     (drop_bit 3 frame := bitmap s (drop_bit 3 frame) AND NOT (push_bit (unat (frame AND 7)) 1))\<rparr>"

definition bit_test :: "pmm_state \<Rightarrow> u64 \<Rightarrow> bool" where
  "bit_test s frame \<longleftrightarrow> drop_bit (unat (frame AND 7)) (bitmap s (drop_bit 3 frame)) AND 1 \<noteq> 0"

function reserve_loop :: "u64 \<Rightarrow> u64 \<Rightarrow> pmm_state \<Rightarrow> pmm_state" where
  "reserve_loop f lim s =
     (if f < lim \<and> f < total_pages s then
        reserve_loop (f + 1) lim
          (if \<not> bit_test s f then
             (bit_set f s)\<lparr>free_pages := (if free_pages s \<noteq> 0 then free_pages s - 1 else free_pages s),
                           used_pages := used_pages s + 1\<rparr>
           else s)
      else s)"
  by pat_completeness auto
termination
  by (relation "measure (\<lambda>(f, lim, s). unat lim - unat f)") auto

definition reserve_range :: "u64 \<Rightarrow> u64 \<Rightarrow> pmm_state \<Rightarrow> pmm_state" where
  "reserve_range base len s =
     reserve_loop (drop_bit 12 base) (drop_bit 12 (base + len + PAGE_MASK)) s"

function free_loop :: "u64 \<Rightarrow> u64 \<Rightarrow> pmm_state \<Rightarrow> pmm_state" where
  "free_loop f lim s =
     (if f < lim \<and> f < total_pages s then
        free_loop (f + 1) lim
          (if bit_test s f then
             (bit_clear f s)\<lparr>free_pages := free_pages s + 1,
                             used_pages := (if used_pages s \<noteq> 0 then used_pages s - 1 else used_pages s)\<rparr>
           else s)
      else s)"
  by pat_completeness auto
termination
  by (relation "measure (\<lambda>(f, lim, s). unat lim - unat f)") auto

definition free_range :: "u64 \<Rightarrow> u64 \<Rightarrow> pmm_state \<Rightarrow> pmm_state" where
  "free_range base len s =
     free_loop (drop_bit 12 (base + PAGE_MASK)) (drop_bit 12 (base + len)) s"

text \<open>\<open>kernel_end\<close> is the linker's \<^verbatim>\<open>__kernel_phys_end\<close>; \<open>mem\<close> the memory the bitmap is parked in.\<close>

definition MmInitializePhysicalMemory :: "u64 \<Rightarrow> (u64 \<Rightarrow> u8) \<Rightarrow> MM_MEMORY_MAP \<Rightarrow> pmm_state" where
  "MmInitializePhysicalMemory kernel_end mem m =
     (let total = drop_bit 12 (highest_address m);
          bytes = (total + 7) div 8;
          bphys = PAGE_ALIGN_UP kernel_end;
          bpages = BYTES_TO_PAGES bytes;
          s0 = \<lparr>bitmap_phys = bphys, bitmap_bytes = bytes, total_pages = total,
                free_pages = 0, used_pages = total, next_hint = 0,
                bitmap = (\<lambda>i. if i < bytes then 0xFF else mem i)\<rparr>;
          s1 = fold (\<lambda>r s. if rtype r = MmRegionAvailable then free_range (rbase r) (rlength r) s else s)
                 (regions m) s0;
          s2 = reserve_range 0 0x100000 s1;
          s3 = reserve_range KERNEL_PHYS_BASE (kernel_end - KERNEL_PHYS_BASE) s2;
          s4 = reserve_range bphys (push_bit 12 bpages) s3
      in s4\<lparr>next_hint := drop_bit 12 0x100000\<rparr>)"

function alloc_scan :: "u64 \<Rightarrow> pmm_state \<Rightarrow> u64 \<times> pmm_state" where
  "alloc_scan scan s =
     (if scan < total_pages s then
        (let f0 = next_hint s + scan;
             f = (if total_pages s \<le> f0 then f0 - total_pages s else f0)
         in if \<not> bit_test s f then
              (push_bit 12 f,
               (bit_set f s)\<lparr>free_pages := free_pages s - 1, used_pages := used_pages s + 1,
                             next_hint := f + 1\<rparr>)
            else alloc_scan (scan + 1) s)
      else (MM_INVALID_PHYS, s))"
  by pat_completeness auto
termination
  by (relation "measure (\<lambda>(scan, s). unat (total_pages s) - unat scan)") auto

definition MmAllocatePage :: "pmm_state \<Rightarrow> u64 \<times> pmm_state" where
  "MmAllocatePage s = alloc_scan 0 s"

function mark_loop :: "u64 \<Rightarrow> u64 \<Rightarrow> pmm_state \<Rightarrow> pmm_state" where
  "mark_loop k fin s = (if k < fin then mark_loop (k + 1) fin (bit_set k s) else s)"
  by pat_completeness auto
termination
  by (relation "measure (\<lambda>(k, fin, s). unat fin - unat k)") auto

function fit_scan :: "u64 \<Rightarrow> u64 \<Rightarrow> u64 \<Rightarrow> u64 \<Rightarrow> pmm_state \<Rightarrow> u64 \<times> pmm_state" where
  "fit_scan f run start count s =
     (if f < total_pages s then
        (if \<not> bit_test s f then
           (let start' = (if run = 0 then f else start);
                run' = run + 1
            in if run' = count then
                 (push_bit 12 start',
                  (mark_loop start' (start' + count) s)
                    \<lparr>free_pages := free_pages s - count, used_pages := used_pages s + count\<rparr>)
               else fit_scan (f + 1) run' start' count s)
         else fit_scan (f + 1) 0 start count s)
      else (MM_INVALID_PHYS, s))"
  by pat_completeness auto
termination
  by (relation "measure (\<lambda>(f, run, start, count, s). unat (total_pages s) - unat f)") auto

definition MmAllocatePages :: "u64 \<Rightarrow> pmm_state \<Rightarrow> u64 \<times> pmm_state" where
  "MmAllocatePages count s =
     (if count = 0 then (MM_INVALID_PHYS, s)
      else if count = 1 then MmAllocatePage s
      else fit_scan 0 0 0 count s)"

function release_loop :: "u64 \<Rightarrow> u64 \<Rightarrow> pmm_state \<Rightarrow> pmm_state" where
  "release_loop f lim s =
     (if f < lim \<and> f < total_pages s then
        release_loop (f + 1) lim
          (if bit_test s f then
             (bit_clear f s)\<lparr>free_pages := free_pages s + 1, used_pages := used_pages s - 1\<rparr>
           else s)
      else s)"
  by pat_completeness auto
termination
  by (relation "measure (\<lambda>(f, lim, s). unat lim - unat f)") auto

definition MmFreePages :: "u64 \<Rightarrow> u64 \<Rightarrow> pmm_state \<Rightarrow> pmm_state" where
  "MmFreePages phys count s =
     (let first = drop_bit 12 phys;
          s' = release_loop first (first + count) s
      in if first < next_hint s' then s'\<lparr>next_hint := first\<rparr> else s')"

definition MmTotalPages :: "pmm_state \<Rightarrow> u64" where
  "MmTotalPages s = total_pages s"

definition MmFreePageCount :: "pmm_state \<Rightarrow> u64" where
  "MmFreePageCount s = free_pages s"

declare reserve_loop.simps [simp del] free_loop.simps [simp del] alloc_scan.simps [simp del]
  mark_loop.simps [simp del] fit_scan.simps [simp del] release_loop.simps [simp del]

section \<open>The bitmap\<close>

lemma and7: "(f :: u64) AND 7 = take_bit 3 f"
  by (simp add: take_bit_eq_mask mask_eq_exp_minus_1)

lemma frame_eq_iff: "(f :: u64) = g \<longleftrightarrow> drop_bit 3 f = drop_bit 3 g \<and> f AND 7 = g AND 7"
  by (metis and7 bits_ident)

lemma bit_test_bit: "bit_test s f = bit (bitmap s (drop_bit 3 f)) (unat (f AND 7))"
  by (simp add: bit_test_def bit_iff_odd_drop_bit and_one_eq odd_iff_mod_2_eq_one)

lemma unat_and7: "unat ((f :: u64) AND 7) < 8"
proof -
  have "f AND 7 \<le> 7" by (rule word_and_le1)
  then show ?thesis by (simp add: word_le_nat_alt)
qed

lemma bit_test_set [simp]: "bit_test (bit_set f s) g \<longleftrightarrow> g = f \<or> bit_test s g"
  using unat_and7 [of g]
  by (auto simp: bit_test_bit bit_set_def frame_eq_iff [of g f] bit_simps word_unat_eq_iff [symmetric])

lemma bit_test_clear [simp]: "bit_test (bit_clear f s) g \<longleftrightarrow> g \<noteq> f \<and> bit_test s g"
  using unat_and7 [of g]
  by (auto simp: bit_test_bit bit_clear_def frame_eq_iff [of g f] bit_simps word_unat_eq_iff [symmetric])


lemma bit_test_counters [simp]:
  "bit_test (s\<lparr>free_pages := a\<rparr>) f = bit_test s f"
  "bit_test (s\<lparr>used_pages := a\<rparr>) f = bit_test s f"
  "bit_test (s\<lparr>next_hint := a\<rparr>) f = bit_test s f"
  by (simp_all add: bit_test_def)

lemma bit_set_fields [simp]:
  "total_pages (bit_set f s) = total_pages s" "free_pages (bit_set f s) = free_pages s"
  "used_pages (bit_set f s) = used_pages s" "next_hint (bit_set f s) = next_hint s"
  "bitmap_phys (bit_set f s) = bitmap_phys s" "bitmap_bytes (bit_set f s) = bitmap_bytes s"
  by (simp_all add: bit_set_def)

lemma bit_clear_fields [simp]:
  "total_pages (bit_clear f s) = total_pages s" "free_pages (bit_clear f s) = free_pages s"
  "used_pages (bit_clear f s) = used_pages s" "next_hint (bit_clear f s) = next_hint s"
  "bitmap_phys (bit_clear f s) = bitmap_phys s" "bitmap_bytes (bit_clear f s) = bitmap_bytes s"
  by (simp_all add: bit_clear_def)

definition free_frames :: "pmm_state \<Rightarrow> u64 set" where
  "free_frames s = {f. f < total_pages s \<and> \<not> bit_test s f}"

definition counts_ok :: "pmm_state \<Rightarrow> bool" where
  "counts_ok s \<longleftrightarrow> free_pages s = of_nat (card (free_frames s)) \<and>
     used_pages s = total_pages s - free_pages s"

definition pmm_inv :: "pmm_state \<Rightarrow> bool" where
  "pmm_inv s \<longleftrightarrow> counts_ok s \<and> next_hint s \<le> total_pages s \<and> total_pages s < 2 ^ 52"

lemma free_frames_hint [simp]: "free_frames (s\<lparr>next_hint := h\<rparr>) = free_frames s"
  by (simp add: free_frames_def)

lemma counts_ok_hint [simp]: "counts_ok (s\<lparr>next_hint := h\<rparr>) = counts_ok s"
  by (simp add: counts_ok_def)

lemma card_free_le: "card (free_frames s) \<le> unat (total_pages s)"
proof -
  have "card (free_frames s) \<le> card {f. f < total_pages s}"
    by (rule card_mono) (auto simp: free_frames_def)
  then show ?thesis by (simp add: card_words_below)
qed

lemma card_free_lt: "card (free_frames s) < 2 ^ 64"
  using card_free_le [of s] unat_less_64 [of "total_pages s"] by simp

lemma unat_free_pages: "counts_ok s \<Longrightarrow> unat (free_pages s) = card (free_frames s)"
  using card_free_lt [of s] by (simp add: counts_ok_def unat_of_nat_id)

lemma counts_ok_take:
  assumes "counts_ok s" and "f < total_pages s" and "\<not> bit_test s f"
    and t: "t = (bit_set f s)\<lparr>free_pages := free_pages s - 1, used_pages := used_pages s + 1\<rparr>"
  shows "counts_ok t" and "free_pages s \<noteq> 0" and "free_frames t = free_frames s - {f}"
proof -
  show fr: "free_frames t = free_frames s - {f}"
    by (auto simp: free_frames_def t)
  have mem: "f \<in> free_frames s" using assms by (simp add: free_frames_def)
  have fin: "finite (free_frames s)" by simp
  from mem fin have pos: "0 < card (free_frames s)" by (auto simp: card_gt_0_iff)
  then show "free_pages s \<noteq> 0"
    using unat_free_pages [OF assms(1)] by auto
  have "card (free_frames s) = Suc (card (free_frames s - {f}))"
    using card.remove [OF fin mem] .
  then show "counts_ok t"
    using assms(1) fr by (simp add: counts_ok_def t)
qed

lemma counts_ok_give:
  assumes "counts_ok s" and "f < total_pages s" and "bit_test s f"
    and t: "t = (bit_clear f s)\<lparr>free_pages := free_pages s + 1, used_pages := used_pages s - 1\<rparr>"
  shows "counts_ok t" and "used_pages s \<noteq> 0" and "free_frames t = insert f (free_frames s)"
proof -
  show fr: "free_frames t = insert f (free_frames s)"
    using assms by (auto simp: free_frames_def t)
  have mem: "f \<notin> free_frames s" using assms by (simp add: free_frames_def)
  have fin: "finite (free_frames s)" by simp
  show "counts_ok t"
    using assms(1) fr mem by (simp add: counts_ok_def t)
  have "insert f (free_frames s) \<subseteq> {g. g < total_pages s}"
    using assms by (auto simp: free_frames_def)
  then have "card (insert f (free_frames s)) \<le> unat (total_pages s)"
    using card_mono [of "{g. g < total_pages s}"] by (simp add: card_words_below)
  then have "card (free_frames s) < unat (total_pages s)" using mem by simp
  then have "free_pages s \<noteq> total_pages s"
    using unat_free_pages [OF assms(1)] by auto
  then show "used_pages s \<noteq> 0" using assms(1) by (simp add: counts_ok_def)
qed


subsection \<open>The range loops\<close>

lemma reserve_loop_spec:
  "total_pages (reserve_loop f l s) = total_pages s \<and>
   next_hint (reserve_loop f l s) = next_hint s \<and>
   bitmap_phys (reserve_loop f l s) = bitmap_phys s \<and>
   (\<forall>g. bit_test (reserve_loop f l s) g \<longleftrightarrow> bit_test s g \<or> f \<le> g \<and> g < l \<and> g < total_pages s) \<and>
   (counts_ok s \<longrightarrow> counts_ok (reserve_loop f l s))"
proof (induction f l s rule: reserve_loop.induct)
  case (1 f l s)
  show ?case
  proof (cases "f < l \<and> f < total_pages s")
    case True
    define t where "t = (if \<not> bit_test s f then
             (bit_set f s)\<lparr>free_pages := (if free_pages s \<noteq> 0 then free_pages s - 1 else free_pages s),
                           used_pages := used_pages s + 1\<rparr>
           else s)"
    have same: "total_pages t = total_pages s" "next_hint t = next_hint s" "bitmap_phys t = bitmap_phys s"
      by (simp_all add: t_def)
    have bits: "bit_test t g \<longleftrightarrow> g = f \<or> bit_test s g" for g by (auto simp: t_def)
    have cnt: "counts_ok s \<longrightarrow> counts_ok t"
      using counts_ok_take [of s f] True by (auto simp: t_def)
    have le: "f \<le> g \<longleftrightarrow> g = f \<or> f + 1 \<le> g" for g
      using word_le_Suc_iff [of f l g] True by (auto simp: order_le_less)
    have eq: "reserve_loop f l s = reserve_loop (f + 1) l t"
      using True by (subst reserve_loop.simps) (simp add: t_def)
    from "1.IH" [OF True, folded t_def] cnt True show ?thesis
      unfolding eq same by (simp add: bits le) blast
  next
    case False
    then have "reserve_loop f l s = s" by (subst reserve_loop.simps) auto
    with False show ?thesis by auto
  qed
qed

lemma free_loop_spec:
  "total_pages (free_loop f l s) = total_pages s \<and>
   next_hint (free_loop f l s) = next_hint s \<and>
   bitmap_phys (free_loop f l s) = bitmap_phys s \<and>
   (\<forall>g. bit_test (free_loop f l s) g \<longleftrightarrow> bit_test s g \<and> \<not> (f \<le> g \<and> g < l \<and> g < total_pages s)) \<and>
   (counts_ok s \<longrightarrow> counts_ok (free_loop f l s))"
proof (induction f l s rule: free_loop.induct)
  case (1 f l s)
  show ?case
  proof (cases "f < l \<and> f < total_pages s")
    case True
    define t where "t = (if bit_test s f then
             (bit_clear f s)\<lparr>free_pages := free_pages s + 1,
                             used_pages := (if used_pages s \<noteq> 0 then used_pages s - 1 else used_pages s)\<rparr>
           else s)"
    have same: "total_pages t = total_pages s" "next_hint t = next_hint s" "bitmap_phys t = bitmap_phys s"
      by (simp_all add: t_def)
    have bits: "bit_test t g \<longleftrightarrow> g \<noteq> f \<and> bit_test s g" for g by (auto simp: t_def)
    have cnt: "counts_ok s \<longrightarrow> counts_ok t"
      using counts_ok_give [of s f] True by (auto simp: t_def)
    have le: "f \<le> g \<longleftrightarrow> g = f \<or> f + 1 \<le> g" for g
      using word_le_Suc_iff [of f l g] True by (auto simp: order_le_less)
    have eq: "free_loop f l s = free_loop (f + 1) l t"
      using True by (subst free_loop.simps) (simp add: t_def)
    from "1.IH" [OF True, folded t_def] cnt True show ?thesis
      unfolding eq same by (simp add: bits le) blast
  next
    case False
    then have "free_loop f l s = s" by (subst free_loop.simps) auto
    with False show ?thesis by auto
  qed
qed

text \<open>With consistent counters the unguarded decrement of \<^verbatim>\<open>MmFreePages\<close> agrees with the
  guarded one of \<^verbatim>\<open>free_range\<close>.\<close>

lemma release_loop_eq_free_loop: "counts_ok s \<Longrightarrow> release_loop f l s = free_loop f l s"
proof (induction f l s rule: release_loop.induct)
  case (1 f l s)
  show ?case
  proof (cases "f < l \<and> f < total_pages s")
    case True
    let ?t = "if bit_test s f then
      (bit_clear f s)\<lparr>free_pages := free_pages s + 1, used_pages := used_pages s - 1\<rparr> else s"
    have cnt: "counts_ok ?t"
      using counts_ok_give [OF "1.prems"] True "1.prems" by auto
    have "release_loop f l s = release_loop (f + 1) l ?t"
      using True by (subst release_loop.simps) simp
    also have "\<dots> = free_loop (f + 1) l ?t" using "1.IH" [OF True cnt] .
    also have "\<dots> = free_loop f l s"
      using True counts_ok_give(2) [OF "1.prems" _ _ refl, of f]
      by (subst (2) free_loop.simps) auto
    finally show ?thesis .
  next
    case False
    then have "release_loop f l s = s" by (subst release_loop.simps) auto
    moreover from False have "free_loop f l s = s" by (subst free_loop.simps) auto
    ultimately show ?thesis by simp
  qed
qed

lemma mark_loop_spec:
  "total_pages (mark_loop k l s) = total_pages s \<and> next_hint (mark_loop k l s) = next_hint s \<and>
   bitmap_phys (mark_loop k l s) = bitmap_phys s \<and>
   (\<forall>g. bit_test (mark_loop k l s) g \<longleftrightarrow> bit_test s g \<or> (k \<le> g \<and> g < l))"
proof (induction k l s rule: mark_loop.induct)
  case (1 k l s)
  show ?case
  proof (cases "k < l")
    case True
    have le: "k \<le> g \<longleftrightarrow> g = k \<or> k + 1 \<le> g" for g
      using word_le_Suc_iff [OF True, of g] by (auto simp: order_le_less)
    have eq: "mark_loop k l s = mark_loop (k + 1) l (bit_set k s)"
      using True by (subst mark_loop.simps) simp
    show ?thesis unfolding eq using "1.IH" [OF True] by (auto simp: le True)
  next
    case False
    then have "mark_loop k l s = s" by (subst mark_loop.simps) auto
    with False show ?thesis by auto
  qed
qed


subsection \<open>Single-frame allocation\<close>

definition wrap_frame :: "pmm_state \<Rightarrow> u64 \<Rightarrow> u64" where
  "wrap_frame s j = (let f0 = next_hint s + j
     in if total_pages s \<le> f0 then f0 - total_pages s else f0)"

lemma wrap_frame_less:
  assumes "pmm_inv s" and "j < total_pages s"
  shows "wrap_frame s j < total_pages s"
proof -
  have "unat (next_hint s) \<le> unat (total_pages s)" "unat (total_pages s) < 2 ^ 52"
    using assms by (simp_all add: pmm_inv_def word_le_nat_alt word_less_nat_alt)
  moreover from assms(2) have "unat j < unat (total_pages s)" by (simp add: word_less_nat_alt)
  ultimately show ?thesis
    by (auto simp: wrap_frame_def Let_def word_le_nat_alt word_less_nat_alt unat_word_ariths unat_sub_if')
qed

lemma wrap_frame_surj:
  assumes "pmm_inv s" and "g < total_pages s"
  obtains j where "j < total_pages s" and "wrap_frame s j = g"
proof
  let ?j = "if next_hint s \<le> g then g - next_hint s else g + total_pages s - next_hint s"
  have b: "unat (next_hint s) \<le> unat (total_pages s)" "unat (total_pages s) < 2 ^ 52"
    "unat g < unat (total_pages s)"
    using assms by (simp_all add: pmm_inv_def word_le_nat_alt word_less_nat_alt)
  show "?j < total_pages s"
    using b by (auto simp: word_le_nat_alt word_less_nat_alt unat_word_ariths unat_sub_if')
  show "wrap_frame s ?j = g"
    using b by (auto simp: wrap_frame_def Let_def word_le_nat_alt word_less_nat_alt unat_word_ariths
        unat_sub_if' word_unat_eq_iff)
qed


lemma alloc_scan_cases:
  assumes "pmm_inv s"
  shows "(alloc_scan scan s = (MM_INVALID_PHYS, s) \<and>
           (\<forall>j. scan \<le> j \<and> j < total_pages s \<longrightarrow> bit_test s (wrap_frame s j))) \<or>
         (\<exists>f. f < total_pages s \<and> \<not> bit_test s f \<and>
           alloc_scan scan s = (push_bit 12 f,
             (bit_set f s)\<lparr>free_pages := free_pages s - 1, used_pages := used_pages s + 1, next_hint := f + 1\<rparr>))"
  using assms
proof (induction scan s rule: alloc_scan.induct)
  case (1 scan s)
  show ?case
  proof (cases "scan < total_pages s")
    case True
    let ?f = "wrap_frame s scan"
    have lt: "?f < total_pages s" using wrap_frame_less "1.prems" True .
    have le: "scan \<le> j \<longleftrightarrow> j = scan \<or> scan + 1 \<le> j" for j
      using word_le_Suc_iff [OF True, of j] by (auto simp: order_le_less)
    show ?thesis
    proof (cases "bit_test s ?f")
      case used: True
      then have "alloc_scan scan s = alloc_scan (scan + 1) s"
        using True by (subst alloc_scan.simps) (simp add: wrap_frame_def Let_def)
      moreover have "(alloc_scan (scan + 1) s = (MM_INVALID_PHYS, s) \<and>
          (\<forall>j. scan + 1 \<le> j \<and> j < total_pages s \<longrightarrow> bit_test s (wrap_frame s j))) \<or>
         (\<exists>f. f < total_pages s \<and> \<not> bit_test s f \<and>
           alloc_scan (scan + 1) s = (push_bit 12 f,
             (bit_set f s)\<lparr>free_pages := free_pages s - 1, used_pages := used_pages s + 1, next_hint := f + 1\<rparr>))"
        using "1.IH" [OF True refl refl] used "1.prems" by (simp add: wrap_frame_def Let_def)
      ultimately show ?thesis using used by (auto simp: le)
    next
      case False
      then have "alloc_scan scan s = (push_bit 12 ?f,
          (bit_set ?f s)\<lparr>free_pages := free_pages s - 1, used_pages := used_pages s + 1, next_hint := ?f + 1\<rparr>)"
        using True by (subst alloc_scan.simps) (simp add: wrap_frame_def Let_def)
      with lt False show ?thesis by blast
    qed
  next
    case False
    then have "alloc_scan scan s = (MM_INVALID_PHYS, s)" by (subst alloc_scan.simps) simp
    with False show ?thesis by (auto dest: order_le_less_trans)
  qed
qed

lemma frame_addr:
  assumes "f < (2 ^ 52 :: u64)"
  shows "drop_bit 12 (push_bit 12 f) = f" and "push_bit 12 f \<noteq> MM_INVALID_PHYS"
    and "push_bit 12 f AND PAGE_MASK = 0"
proof -
  have "unat f * 4096 < 2 ^ 64" using assms by (simp add: word_less_nat_alt)
  then have "unat (push_bit 12 f) = unat f * 4096"
    by (simp add: push_bit_eq_mult unat_word_ariths)
  then show "drop_bit 12 (push_bit 12 f) = f"
    by (simp add: word_unat_eq_iff drop_bit_eq_div unat_div)
  have z: "push_bit 12 f AND PAGE_MASK = 0"
    by (rule bit_eqI) (auto simp: bit_simps PAGE_MASK_mask)
  then show "push_bit 12 f AND PAGE_MASK = 0" .
  show "push_bit 12 f \<noteq> MM_INVALID_PHYS"
  proof
    assume "push_bit 12 f = MM_INVALID_PHYS"
    with z have "MM_INVALID_PHYS AND PAGE_MASK = 0" by simp
    then show False by simp
  qed
qed


lemma free_frame_lt: "pmm_inv s \<Longrightarrow> f \<in> free_frames s \<Longrightarrow> f < 2 ^ 52"
  by (auto simp: pmm_inv_def free_frames_def dest: less_trans)

lemma MmAllocatePage_cases:
  assumes "pmm_inv s"
  obtains (none) "MmAllocatePage s = (MM_INVALID_PHYS, s)" and "free_frames s = {}"
  | (some) f s' where "MmAllocatePage s = (push_bit 12 f, s')" and "f \<in> free_frames s"
      and "free_frames s' = free_frames s - {f}" and "\<And>g. bit_test s' g \<longleftrightarrow> g = f \<or> bit_test s g"
      and "pmm_inv s'" and "total_pages s' = total_pages s" and "bitmap_phys s' = bitmap_phys s"
      and "used_pages s' = used_pages s + 1"
proof (cases "\<exists>f. f < total_pages s \<and> \<not> bit_test s f \<and>
     alloc_scan 0 s = (push_bit 12 f,
       (bit_set f s)\<lparr>free_pages := free_pages s - 1, used_pages := used_pages s + 1, next_hint := f + 1\<rparr>)")
  case True
  then obtain f where f: "f < total_pages s" "\<not> bit_test s f"
    and eq: "alloc_scan 0 s = (push_bit 12 f,
       (bit_set f s)\<lparr>free_pages := free_pages s - 1, used_pages := used_pages s + 1, next_hint := f + 1\<rparr>)"
    by blast
  let ?t = "(bit_set f s)\<lparr>free_pages := free_pages s - 1, used_pages := used_pages s + 1\<rparr>"
  have "counts_ok ?t" and fr: "free_frames ?t = free_frames s - {f}"
    using counts_ok_take [OF _ f refl] assms by (simp_all add: pmm_inv_def)
  then have "pmm_inv (?t\<lparr>next_hint := f + 1\<rparr>)"
    using assms f by (simp add: pmm_inv_def word_Suc_le)
  moreover have "free_frames (?t\<lparr>next_hint := f + 1\<rparr>) = free_frames s - {f}"
    using fr by simp
  moreover have "f \<in> free_frames s" using f by (simp add: free_frames_def)
  ultimately show thesis
    using some [of f "?t\<lparr>next_hint := f + 1\<rparr>"] eq by (simp add: MmAllocatePage_def)
next
  case False
  with alloc_scan_cases [OF assms, of 0]
  have "alloc_scan 0 s = (MM_INVALID_PHYS, s)" and all: "\<And>j. j < total_pages s \<Longrightarrow> bit_test s (wrap_frame s j)"
    by auto
  moreover have "free_frames s = {}"
  proof (rule ccontr)
    assume "free_frames s \<noteq> {}"
    then obtain g where "g < total_pages s" "\<not> bit_test s g" by (auto simp: free_frames_def)
    with wrap_frame_surj [OF assms] all show False by metis
  qed
  ultimately show thesis using none by (simp add: MmAllocatePage_def)
qed

subsection \<open>Contiguous allocation\<close>

text \<open>\<open>window st n\<close>: the frames \<open>st, \<dots>, st + n - 1\<close>, without wrap-around.\<close>

definition window :: "u64 \<Rightarrow> u64 \<Rightarrow> u64 set" where
  "window st n = {g. unat st \<le> unat g \<and> unat g < unat st + unat n}"

lemma window_0 [simp]: "window st 0 = {}"
  by (simp add: window_def)

definition no_run :: "pmm_state \<Rightarrow> u64 \<Rightarrow> nat \<Rightarrow> bool" where
  "no_run s n lim \<longleftrightarrow> (\<forall>st. unat st + unat n \<le> lim \<longrightarrow> (\<exists>g \<in> window st n. bit_test s g))"

lemma fit_scan_cases:
  assumes "total_pages s < 2 ^ 52" and "f \<le> total_pages s" and "run \<le> f" and "run < n"
    and "run \<noteq> 0 \<Longrightarrow> start = f - run"
    and "\<And>g. g \<in> window (f - run) run \<Longrightarrow> \<not> bit_test s g"
    and "run \<noteq> f \<Longrightarrow> bit_test s (f - run - 1)"
    and "no_run s n (unat f)"
  shows "(fit_scan f run start n s = (MM_INVALID_PHYS, s) \<and> no_run s n (unat (total_pages s))) \<or>
         (\<exists>st. unat st + unat n \<le> unat (total_pages s) \<and> (\<forall>g \<in> window st n. \<not> bit_test s g) \<and>
            fit_scan f run start n s = (push_bit 12 st,
              (mark_loop st (st + n) s)\<lparr>free_pages := free_pages s - n, used_pages := used_pages s + n\<rparr>))"
  using assms
proof (induction f run start n s rule: fit_scan.induct)
  case (1 f run start n s)
  show ?case
  proof (cases "f < total_pages s")
    case True
    note prems = "1.prems"
    have nat: "unat f < unat (total_pages s)" "unat run \<le> unat f" "unat run < unat n"
      "unat (total_pages s) < 2 ^ 52" "unat (f + 1) = Suc (unat f)" "unat (run + 1) = Suc (unat run)"
      using True prems(1,3,4) word_Suc_less [OF True] word_Suc_less [OF prems(4)]
      by (simp_all add: word_less_nat_alt word_le_nat_alt)
    have fr: "unat (f - run) = unat f - unat run"
      using prems(3) by (simp add: unat_sub)
    show ?thesis
    proof (cases "bit_test s f")
      case used: True
      have "fit_scan f run start n s = fit_scan (f + 1) 0 start n s"
        using True used by (subst fit_scan.simps) simp
      moreover have "no_run s n (unat (f + 1))"
        unfolding no_run_def
      proof (intro allI impI)
        fix st :: u64 assume "unat st + unat n \<le> unat (f + 1)"
        then consider "unat st + unat n \<le> unat f" | "unat st + unat n = Suc (unat f)"
          using nat by linarith
        then show "\<exists>g\<in>window st n. bit_test s g"
        proof cases
          case 1
          with prems(8) show ?thesis by (simp add: no_run_def)
        next
          case 2
          with nat have "f \<in> window st n" by (simp add: window_def)
          with used show ?thesis by blast
        qed
      qed
      ultimately show ?thesis
        using "1.IH"(2) [OF True] used prems(1) True nat
        by (simp add: word_Suc_le word_less_nat_alt word_le_nat_alt)
    next
      case free: False
      have st': "(if run = 0 then f else start) = f - run" using prems(5) by simp
      have win: "\<not> bit_test s g" if "g \<in> window (f - run) (run + 1)" for g
      proof -
        from that have "g \<in> window (f - run) run \<or> unat g = unat f"
          using nat fr by (auto simp: window_def)
        then show ?thesis using prems(6) free by (auto simp: word_unat_eq_iff [symmetric])
      qed
      show ?thesis
      proof (cases "run + 1 = n")
        case full: True
        have "fit_scan f run start n s = (push_bit 12 (f - run),
            (mark_loop (f - run) (f - run + n) s)\<lparr>free_pages := free_pages s - n, used_pages := used_pages s + n\<rparr>)"
          using True free full st' by (subst fit_scan.simps) (simp add: Let_def)
        moreover have "unat (f - run) + unat n \<le> unat (total_pages s)"
          using nat fr full by auto
        ultimately show ?thesis using win full by blast
      next
        case more: False
        have eq: "fit_scan f run start n s = fit_scan (f + 1) (run + 1) (f - run) n s"
          using True free more st' by (subst fit_scan.simps) (simp add: Let_def)
        have lt: "Suc (unat run) < unat n"
          using nat more by (metis Suc_lessI word_unat_eq_iff)
        have nr: "no_run s n (unat (f + 1))"
          unfolding no_run_def
        proof (intro allI impI)
          fix st :: u64 assume "unat st + unat n \<le> unat (f + 1)"
          then consider "unat st + unat n \<le> unat f" | "unat st + unat n = Suc (unat f)"
            using nat by linarith
          then show "\<exists>g\<in>window st n. bit_test s g"
          proof cases
            case 1
            with prems(8) show ?thesis by (simp add: no_run_def)
          next
            case 2
            then have "run \<noteq> f" using lt by auto
            then have lt2: "unat run < unat f" using nat by (metis le_neq_implies_less word_unat_eq_iff)
            then have "unat (f - run - 1) = unat f - unat run - 1"
              using fr by (simp add: unat_sub_if')
            then have "f - run - 1 \<in> window st n" using 2 lt lt2 unfolding window_def by simp linarith
            with prems(7) \<open>run \<noteq> f\<close> show ?thesis by blast
          qed
        qed
        show ?thesis
          unfolding eq
        proof (rule "1.IH"(1) [OF True free refl refl, simplified st'])
          show "run + 1 \<noteq> n" by (rule more)
          show "total_pages s < 2 ^ 52" by (rule prems(1))
          show "f + 1 \<le> total_pages s" by (rule word_Suc_le [OF True])
          show "run + 1 \<le> f + 1" using nat by (simp add: word_le_nat_alt)
          show "run + 1 < n" using nat lt by (simp add: word_less_nat_alt)
          show "f - run = f + 1 - (run + 1)" by simp
          show "\<And>g. g \<in> window (f + 1 - (run + 1)) (run + 1) \<Longrightarrow> \<not> bit_test s g"
            using win by simp
          show "run + 1 \<noteq> f + 1 \<Longrightarrow> bit_test s (f + 1 - (run + 1) - 1)"
            using prems(7) by simp
          show "no_run s n (unat (f + 1))" by (rule nr)
        qed
      qed
    qed
  next
    case False
    with "1.prems"(2) have "f = total_pages s" by simp
    moreover from False have "fit_scan f run start n s = (MM_INVALID_PHYS, s)"
      by (subst fit_scan.simps) simp
    ultimately show ?thesis using "1.prems"(8) by simp
  qed
qed


lemma window_interval:
  assumes "unat st + unat n < 2 ^ 64"
  shows "window st n = {g. st \<le> g \<and> g < st + n}"
proof -
  have "unat (st + n) = unat st + unat n" using assms by (simp add: unat_word_ariths)
  then show ?thesis by (auto simp: window_def word_le_nat_alt word_less_nat_alt)
qed

lemma card_window:
  assumes "unat st + unat n < 2 ^ 64"
  shows "card (window st n) = unat n"
proof -
  have u: "unat (st + n) = unat st + unat n" using assms by (simp add: unat_word_ariths)
  then have "{g. g < st} \<subseteq> {g. g < st + n}" by (auto simp: word_less_nat_alt)
  moreover have "window st n = {g. g < st + n} - {g. g < st}"
    unfolding window_interval [OF assms] set_eq_iff by (simp add: linorder_not_less conj_commute)
  ultimately show ?thesis by (simp add: card_Diff_subset card_words_below u)
qed

lemma MmAllocatePages_cases:
  assumes inv: "pmm_inv s" and "n \<noteq> 0"
  obtains (none) "MmAllocatePages n s = (MM_INVALID_PHYS, s)" and "no_run s n (unat (total_pages s))"
  | (some) st s' where "MmAllocatePages n s = (push_bit 12 st, s')"
      and "unat st + unat n \<le> unat (total_pages s)" and "window st n \<subseteq> free_frames s"
      and "free_frames s' = free_frames s - window st n"
      and "\<And>g. bit_test s' g \<longleftrightarrow> g \<in> window st n \<or> bit_test s g"
      and "pmm_inv s'" and "total_pages s' = total_pages s"
proof (cases "n = 1")
  case True
  have w1: "window st 1 = {st}" for st by (auto simp: window_def word_unat_eq_iff)
  show thesis
  proof (rule MmAllocatePage_cases [OF inv])
    assume "MmAllocatePage s = (MM_INVALID_PHYS, s)" "free_frames s = {}"
    moreover from this(2) have "no_run s 1 (unat (total_pages s))"
      by (auto simp: no_run_def w1 free_frames_def word_less_nat_alt)
    ultimately show thesis using none True by (simp add: MmAllocatePages_def)
  next
    fix f s'
    assume "MmAllocatePage s = (push_bit 12 f, s')" and "f \<in> free_frames s"
      and "free_frames s' = free_frames s - {f}" and "\<And>g. bit_test s' g \<longleftrightarrow> g = f \<or> bit_test s g"
      and "pmm_inv s'" and "total_pages s' = total_pages s"
    moreover from \<open>f \<in> free_frames s\<close> have "Suc (unat f) \<le> unat (total_pages s)"
      by (simp add: free_frames_def word_less_nat_alt)
    ultimately show thesis using some [of f s'] True by (simp add: MmAllocatePages_def w1)
  qed
next
  case False
  have T: "total_pages s < 2 ^ 52" using inv by (simp add: pmm_inv_def)
  have "no_run s n 0" using \<open>n \<noteq> 0\<close> by (simp add: no_run_def word_unat_eq_iff)
  then have "(fit_scan 0 0 0 n s = (MM_INVALID_PHYS, s) \<and> no_run s n (unat (total_pages s))) \<or>
     (\<exists>st. unat st + unat n \<le> unat (total_pages s) \<and> (\<forall>g \<in> window st n. \<not> bit_test s g) \<and>
        fit_scan 0 0 0 n s = (push_bit 12 st,
          (mark_loop st (st + n) s)\<lparr>free_pages := free_pages s - n, used_pages := used_pages s + n\<rparr>))"
    using \<open>n \<noteq> 0\<close> T by (intro fit_scan_cases) (auto simp: word_gt_0)
  moreover have eq: "MmAllocatePages n s = fit_scan 0 0 0 n s"
    using False \<open>n \<noteq> 0\<close> by (simp add: MmAllocatePages_def)
  ultimately consider "MmAllocatePages n s = (MM_INVALID_PHYS, s)" "no_run s n (unat (total_pages s))"
    | st where "unat st + unat n \<le> unat (total_pages s)" "\<forall>g \<in> window st n. \<not> bit_test s g"
       "MmAllocatePages n s = (push_bit 12 st,
          (mark_loop st (st + n) s)\<lparr>free_pages := free_pages s - n, used_pages := used_pages s + n\<rparr>)"
    by auto
  then show thesis
  proof cases
    case 1
    then show thesis by (rule none)
  next
    case (2 st)
    let ?s = "(mark_loop st (st + n) s)\<lparr>free_pages := free_pages s - n, used_pages := used_pages s + n\<rparr>"
    have lt: "unat st + unat n < 2 ^ 64" using 2(1) unat_less_64 [of "total_pages s"] by linarith
    have sub: "window st n \<subseteq> free_frames s"
      using 2(1,2) by (auto simp: window_def free_frames_def word_less_nat_alt)
    have bits: "bit_test ?s g \<longleftrightarrow> g \<in> window st n \<or> bit_test s g" for g
      using mark_loop_spec [of st "st + n" s] window_interval [OF lt] by auto
    have fld: "total_pages ?s = total_pages s" "next_hint ?s = next_hint s"
      "total_pages (mark_loop st (st + n) s) = total_pages s"
      using mark_loop_spec [of st "st + n" s] by simp_all
    have fr: "free_frames ?s = free_frames s - window st n"
      unfolding free_frames_def fld by (auto simp only: bits)
    have le: "unat n \<le> card (free_frames s)"
      using card_mono [OF _ sub] by (simp add: card_window [OF lt])
    have "card (free_frames ?s) = card (free_frames s) - unat n"
      unfolding fr using sub by (simp add: card_Diff_subset card_window [OF lt])
    moreover have "(of_nat (card (free_frames s) - unat n) :: u64) = of_nat (card (free_frames s)) - n"
      using le by (simp add: of_nat_diff)
    ultimately have "counts_ok ?s"
      using inv by (simp add: counts_ok_def pmm_inv_def fld)
    then have "pmm_inv ?s" using inv by (simp add: pmm_inv_def fld)
    then show thesis using some [OF 2(3,1) sub fr bits] fld by simp
  qed
qed

subsection \<open>Freeing\<close>

lemma MmFreePages_spec:
  assumes "pmm_inv s"
  shows "pmm_inv (MmFreePages p n s)" and "total_pages (MmFreePages p n s) = total_pages s"
    and "bit_test (MmFreePages p n s) g \<longleftrightarrow>
      bit_test s g \<and> \<not> (drop_bit 12 p \<le> g \<and> g < drop_bit 12 p + n \<and> g < total_pages s)"
proof -
  let ?f = "drop_bit 12 p"
  have eq: "release_loop ?f (?f + n) s = free_loop ?f (?f + n) s"
    using assms by (intro release_loop_eq_free_loop) (simp add: pmm_inv_def)
  note spec = free_loop_spec [of ?f "?f + n" s]
  show "total_pages (MmFreePages p n s) = total_pages s"
    using spec by (simp add: MmFreePages_def Let_def eq)
  show "bit_test (MmFreePages p n s) g \<longleftrightarrow>
      bit_test s g \<and> \<not> (?f \<le> g \<and> g < ?f + n \<and> g < total_pages s)"
    using spec by (simp add: MmFreePages_def Let_def eq)
  show "pmm_inv (MmFreePages p n s)"
    using spec assms by (auto simp: MmFreePages_def Let_def eq pmm_inv_def)
qed

subsection \<open>Initialisation\<close>

text \<open>Byte-level reading of the two range operations, for ranges that do not wrap around.\<close>

lemma reserved_frame_iff:
  assumes "unat b + unat n + 4095 < 2 ^ 64"
  shows "drop_bit 12 b \<le> f \<and> f < drop_bit 12 (b + n + PAGE_MASK) \<longleftrightarrow>
    unat b < (unat f + 1) * 4096 \<and> unat f * 4096 < unat b + unat n"
proof -
  have "unat (b + n + PAGE_MASK) = unat b + unat n + 4095"
    using assms by (simp add: unat_word_ariths)
  then show ?thesis
    by (auto simp: word_le_nat_alt word_less_nat_alt drop_bit_eq_div unat_div)
qed

lemma freed_frame_iff:
  assumes "unat b + unat n + 4095 < 2 ^ 64"
  shows "drop_bit 12 (b + PAGE_MASK) \<le> f \<and> f < drop_bit 12 (b + n) \<longleftrightarrow>
    unat b \<le> unat f * 4096 \<and> (unat f + 1) * 4096 \<le> unat b + unat n"
proof -
  have "unat (b + PAGE_MASK) = unat b + 4095" "unat (b + n) = unat b + unat n"
    using assms by (simp_all add: unat_word_ariths)
  then show ?thesis
    by (auto simp: word_le_nat_alt word_less_nat_alt drop_bit_eq_div unat_div)
qed

definition frame_in_region :: "MM_MEMORY_REGION \<Rightarrow> u64 \<Rightarrow> bool" where
  "frame_in_region r f \<longleftrightarrow> rtype r = MmRegionAvailable \<and> unat (rbase r) \<le> unat f * 4096 \<and>
     (unat f + 1) * 4096 \<le> unat (rbase r) + unat (rlength r)"

definition region_fits :: "MM_MEMORY_REGION \<Rightarrow> bool" where
  "region_fits r \<longleftrightarrow> unat (rbase r) + unat (rlength r) + 4095 < 2 ^ 64"

lemma free_regions_spec:
  assumes "\<forall>r \<in> set rs. rtype r = MmRegionAvailable \<longrightarrow> region_fits r"
  defines "step \<equiv> \<lambda>r s. if rtype r = MmRegionAvailable then free_range (rbase r) (rlength r) s else s"
  shows "total_pages (fold step rs s) = total_pages s \<and> bitmap_phys (fold step rs s) = bitmap_phys s \<and>
    (\<forall>g. bit_test (fold step rs s) g \<longleftrightarrow>
       bit_test s g \<and> \<not> (g < total_pages s \<and> (\<exists>r \<in> set rs. frame_in_region r g))) \<and>
    (counts_ok s \<longrightarrow> counts_ok (fold step rs s))"
  using assms(1)
proof (induction rs arbitrary: s)
  case Nil
  then show ?case by simp
next
  case (Cons r rs)
  have one: "total_pages (step r s) = total_pages s \<and> bitmap_phys (step r s) = bitmap_phys s \<and>
    (\<forall>g. bit_test (step r s) g \<longleftrightarrow> bit_test s g \<and> \<not> (g < total_pages s \<and> frame_in_region r g)) \<and>
    (counts_ok s \<longrightarrow> counts_ok (step r s))"
  proof (cases "rtype r = MmRegionAvailable")
    case True
    then have "region_fits r" using Cons.prems by simp
    then show ?thesis
      using free_loop_spec [of "drop_bit 12 (rbase r + PAGE_MASK)" "drop_bit 12 (rbase r + rlength r)" s]
        freed_frame_iff [of "rbase r" "rlength r"] True
      by (auto simp: step_def free_range_def frame_in_region_def region_fits_def)
  next
    case False
    then show ?thesis by (simp add: step_def frame_in_region_def)
  qed
  have "\<forall>r \<in> set rs. rtype r = MmRegionAvailable \<longrightarrow> region_fits r" using Cons.prems by simp
  from Cons.IH [OF this, of "step r s"] one show ?case by auto
qed

lemma reserve_range_spec:
  assumes "unat b + unat n + 4095 < 2 ^ 64"
  shows "total_pages (reserve_range b n s) = total_pages s \<and>
   bitmap_phys (reserve_range b n s) = bitmap_phys s \<and>
   (\<forall>g. bit_test (reserve_range b n s) g \<longleftrightarrow> bit_test s g \<or>
      g < total_pages s \<and> unat b < (unat g + 1) * 4096 \<and> unat g * 4096 < unat b + unat n) \<and>
   (counts_ok s \<longrightarrow> counts_ok (reserve_range b n s))"
  using reserve_loop_spec [of "drop_bit 12 b" "drop_bit 12 (b + n + PAGE_MASK)" s]
    reserved_frame_iff [OF assms]
  by (auto simp: reserve_range_def)

lemma memset_counts:
  assumes "\<And>g. g < total_pages s \<Longrightarrow> bit_test s g" and "free_pages s = 0" and "used_pages s = total_pages s"
  shows "counts_ok s"
proof -
  have "free_frames s = {}" using assms(1) by (auto simp: free_frames_def)
  then show ?thesis using assms(2,3) by (simp add: counts_ok_def)
qed

lemma byte_all_ones: "bit (0xFF :: u8) n \<longleftrightarrow> n < 8"
proof -
  have "(0xFF :: u8) = mask 8" by (simp add: mask_eq_exp_minus_1)
  then show ?thesis by (simp only: bit_mask_iff) simp
qed

lemma bitmap_covers:
  assumes "f < t" and "t < (2 ^ 52 :: u64)"
  shows "drop_bit 3 f < (t + 7) div 8"
proof -
  have "unat (t + 7) = unat t + 7" using assms by (simp add: word_less_nat_alt unat_word_ariths)
  then show ?thesis using assms
    by (simp add: word_less_nat_alt drop_bit_eq_div unat_div)
qed

lemma highest_frames: "drop_bit 12 (x :: u64) < 2 ^ 52"
  using unat_less_64 [of x] by (simp add: word_less_nat_alt drop_bit_eq_div unat_div) 


text \<open>The frames the initialised allocator may hand out: whole frames of an available region that
  lie above the bitmap.\<close>

definition bitmap_end :: "u64 \<Rightarrow> MM_MEMORY_MAP \<Rightarrow> nat" where
  "bitmap_end kernel_end m = unat (PAGE_ALIGN_UP kernel_end) +
     4096 * unat (BYTES_TO_PAGES ((drop_bit 12 (highest_address m) + 7) div 8))"

definition boot_map_ok :: "u64 \<Rightarrow> MM_MEMORY_MAP \<Rightarrow> bool" where
  "boot_map_ok kernel_end m \<longleftrightarrow> 0x100000 \<le> highest_address m \<and>
     KERNEL_PHYS_BASE \<le> kernel_end \<and> kernel_end < 2 ^ 62 \<and>
     (\<forall>r \<in> set (regions m). rtype r = MmRegionAvailable \<longrightarrow> region_fits r)"

lemma page_align_up_bounds:
  assumes "unat x < 2 ^ 63"
  shows "unat x \<le> unat (PAGE_ALIGN_UP x)" and "unat (PAGE_ALIGN_UP x) < unat x + 4096"
    and "4096 dvd unat (PAGE_ALIGN_UP x)"
proof -
  have u: "unat (x + PAGE_MASK) = unat x + 4095" using assms by (simp add: unat_word_ariths)
  have "(x + PAGE_MASK) AND NOT (mask 12) = push_bit 12 (drop_bit 12 (x + PAGE_MASK))"
    by (rule bit_eqI) (auto simp: bit_simps)
  then have "PAGE_ALIGN_UP x = drop_bit 12 (x + PAGE_MASK) * 4096"
    by (simp add: PAGE_ALIGN_UP_def PAGE_MASK_mask push_bit_eq_mult)
  moreover have "(unat x + 4095) div 4096 * 4096 \<le> unat x + 4095" by simp
  ultimately have "unat (PAGE_ALIGN_UP x) = (unat x + 4095) div 4096 * 4096"
    using assms by (simp add: unat_word_ariths drop_bit_eq_div unat_div u)
  then show "unat x \<le> unat (PAGE_ALIGN_UP x)" and "unat (PAGE_ALIGN_UP x) < unat x + 4096"
    and "4096 dvd unat (PAGE_ALIGN_UP x)"
    by simp_all
qed

lemma bitmap_pages_bound:
  "unat (BYTES_TO_PAGES ((drop_bit 12 (x :: u64) + 7) div 8)) \<le> 2 ^ 40"
proof -
  have t: "unat (drop_bit 12 x) < 2 ^ 52" using highest_frames [of x] by (simp add: word_less_nat_alt)
  then have "unat ((drop_bit 12 x + 7) div 8) = (unat (drop_bit 12 x) + 7) div 8"
    by (simp add: unat_div unat_word_ariths)
  with t show ?thesis
    by (simp add: BYTES_TO_PAGES_def drop_bit_eq_div unat_div unat_word_ariths)
qed

lemma reserved_below:
  fixes ke bp x pages :: nat
  assumes "0x100000 \<le> ke" and "ke \<le> bp" and "bp < ke + 4096"
  shows "(x * 4096 < 0x100000 \<or> 0x100000 < (x + 1) * 4096 \<and> x * 4096 < ke \<or>
      bp < (x + 1) * 4096 \<and> x * 4096 < bp + 4096 * pages) \<longleftrightarrow> x * 4096 < bp + 4096 * pages"
proof -
  have "x * 4096 < bp + 4096 * pages" if "x * 4096 < ke" using that assms by linarith
  moreover have "bp < (x + 1) * 4096" if "\<not> x * 4096 < ke" using that assms by (simp add: add_mult_distrib)
  moreover have "0x100000 < (x + 1) * 4096" if "\<not> x * 4096 < 0x100000" using that by (simp add: add_mult_distrib)
  moreover have "x * 4096 < ke" if "x * 4096 < 0x100000" using that assms by linarith
  ultimately show ?thesis by blast
qed

lemma MmInitializePhysicalMemory_spec:
  fixes mem :: "u64 \<Rightarrow> u8"
  assumes ok: "boot_map_ok kernel_end m"
  defines "s \<equiv> MmInitializePhysicalMemory kernel_end mem m"
  shows "pmm_inv s" and "total_pages s = drop_bit 12 (highest_address m)"
    and "f \<in> free_frames s \<longleftrightarrow> f < drop_bit 12 (highest_address m) \<and>
      (\<exists>r \<in> set (regions m). frame_in_region r f) \<and> bitmap_end kernel_end m \<le> unat f * 4096"
proof -
  define total where "total = drop_bit 12 (highest_address m)"
  define bytes where "bytes = (total + 7) div 8"
  define bp where "bp = PAGE_ALIGN_UP kernel_end"
  define pages where "pages = BYTES_TO_PAGES bytes"
  define s0 where "s0 = \<lparr>bitmap_phys = bp, bitmap_bytes = bytes, total_pages = total,
     free_pages = 0, used_pages = total, next_hint = 0,
     bitmap = (\<lambda>i. if i < bytes then 0xFF else mem i)\<rparr>"
  define s1 where "s1 = fold (\<lambda>r s. if rtype r = MmRegionAvailable
     then free_range (rbase r) (rlength r) s else s) (regions m) s0"
  define s2 where "s2 = reserve_range 0 0x100000 s1"
  define s3 where "s3 = reserve_range KERNEL_PHYS_BASE (kernel_end - KERNEL_PHYS_BASE) s2"
  define s4 where "s4 = reserve_range bp (push_bit 12 pages) s3"
  have s: "s = s4\<lparr>next_hint := 0x100\<rparr>"
    by (simp add: s_def MmInitializePhysicalMemory_def Let_def s4_def s3_def s2_def s1_def s0_def
        bp_def pages_def bytes_def total_def drop_bit_eq_div)
  have T: "total < 2 ^ 52" unfolding total_def by (rule highest_frames)
  have init: "bit_test s0 g" if "g < total" for g
    using bitmap_covers [OF that T] unat_and7 [of g] byte_all_ones [of "unat (g AND 7)"]
    by (simp add: bit_test_bit s0_def bytes_def)
  have t0: "total_pages s0 = total" by (simp add: s0_def)
  have c0: "counts_ok s0"
    by (rule memset_counts) (simp_all add: init t0, simp_all add: s0_def)
  have ke: "0x100000 \<le> unat kernel_end" "unat kernel_end < 2 ^ 62"
    using ok by (simp_all add: boot_map_ok_def word_le_nat_alt word_less_nat_alt)
  have bp: "unat kernel_end \<le> unat bp" "unat bp < unat kernel_end + 4096"
    using page_align_up_bounds [of kernel_end] ke by (simp_all add: bp_def)
  have pg: "unat pages \<le> 2 ^ 40"
    unfolding pages_def bytes_def total_def by (rule bitmap_pages_bound)
  have pb: "unat (push_bit 12 pages) = 4096 * unat pages"
    using pg by (simp add: push_bit_eq_mult unat_word_ariths)
  have be: "bitmap_end kernel_end m = unat bp + 4096 * unat pages"
    by (simp add: bitmap_end_def bp_def pages_def bytes_def total_def)
  have kl: "unat (kernel_end - KERNEL_PHYS_BASE) = unat kernel_end - 0x100000"
    using ke by (simp add: unat_sub_if')
  have spec1: "total_pages s1 = total" "counts_ok s1"
    "\<And>g. bit_test s1 g \<longleftrightarrow> bit_test s0 g \<and> \<not> (g < total \<and> (\<exists>r \<in> set (regions m). frame_in_region r g))"
    using free_regions_spec [of "regions m" s0] ok c0 t0 by (simp_all add: s1_def boot_map_ok_def)
  have spec2: "total_pages s2 = total" "counts_ok s2"
    "\<And>g. bit_test s2 g \<longleftrightarrow> bit_test s1 g \<or> g < total \<and> unat g * 4096 < 0x100000"
    using reserve_range_spec [of 0 "0x100000" s1] spec1 by (simp_all add: s2_def)
  have spec3: "total_pages s3 = total" "counts_ok s3"
    "\<And>g. bit_test s3 g \<longleftrightarrow> bit_test s2 g \<or>
       g < total \<and> 0x100000 < (unat g + 1) * 4096 \<and> unat g * 4096 < unat kernel_end"
    using reserve_range_spec [of KERNEL_PHYS_BASE "kernel_end - KERNEL_PHYS_BASE" s2] spec2 ke
    by (simp_all add: s3_def kl)
  have spec4: "total_pages s4 = total" "counts_ok s4"
    "\<And>g. bit_test s4 g \<longleftrightarrow> bit_test s3 g \<or>
       g < total \<and> unat bp < (unat g + 1) * 4096 \<and> unat g * 4096 < unat bp + 4096 * unat pages"
    using reserve_range_spec [of bp "push_bit 12 pages" s3] spec3 ke bp pg
    by (simp_all add: s4_def pb)
  show tot: "total_pages s = drop_bit 12 (highest_address m)"
    by (simp add: s spec4 total_def)
  have "0x100 \<le> total"
    using ok by (simp add: total_def boot_map_ok_def word_le_nat_alt drop_bit_eq_div unat_div
        less_eq_div_iff_mult_less_eq)
  then show "pmm_inv s" using spec4 T by (simp add: pmm_inv_def s)
  show "f \<in> free_frames s \<longleftrightarrow> f < drop_bit 12 (highest_address m) \<and>
      (\<exists>r \<in> set (regions m). frame_in_region r f) \<and> bitmap_end kernel_end m \<le> unat f * 4096"
  proof (cases "f < total")
    case True
    note low = reserved_below [OF ke(1) bp, of "unat f" "unat pages"]
    from low show ?thesis
      using True init [OF True]
      by (auto simp: s free_frames_def spec4 spec3 spec2 spec1 be total_def not_less)
  next
    case False
    then show ?thesis by (simp add: free_frames_def s spec4 total_def)
  qed
qed


section \<open>The allocator as its clients see it\<close>

text \<open>A client of the allocator: \<open>L\<close> is the set of frames it currently owns. It allocates one frame or a
  run of frames, keeps what it is given, and frees only runs it owns.\<close>

inductive pmm_step :: "pmm_state \<times> u64 set \<Rightarrow> pmm_state \<times> u64 set \<Rightarrow> bool" where
  page: "MmAllocatePage s = (p, s') \<Longrightarrow> p \<noteq> MM_INVALID_PHYS \<Longrightarrow>
    pmm_step (s, L) (s', insert (drop_bit 12 p) L)"
| page_fail: "MmAllocatePage s = (MM_INVALID_PHYS, s') \<Longrightarrow> pmm_step (s, L) (s', L)"
| pages: "MmAllocatePages n s = (p, s') \<Longrightarrow> p \<noteq> MM_INVALID_PHYS \<Longrightarrow>
    pmm_step (s, L) (s', L \<union> window (drop_bit 12 p) n)"
| pages_fail: "MmAllocatePages n s = (MM_INVALID_PHYS, s') \<Longrightarrow> pmm_step (s, L) (s', L)"
| free: "window (drop_bit 12 p) n \<subseteq> L \<Longrightarrow>
    pmm_step (s, L) (MmFreePages p n s, L - window (drop_bit 12 p) n)"

text \<open>The owned and the free frames partition a fixed set \<open>F\<close>.\<close>

definition owned_ok :: "u64 set \<Rightarrow> pmm_state \<times> u64 set \<Rightarrow> bool" where
  "owned_ok F = (\<lambda>(s, L). pmm_inv s \<and> L \<inter> free_frames s = {} \<and> L \<union> free_frames s = F \<and>
     (\<forall>f \<in> L. f < total_pages s))"

lemma window_bound:
  assumes "window st n \<subseteq> {f. f < t}"
  shows "n = 0 \<or> unat st + unat n \<le> unat (t :: u64)"
proof (rule disjCI)
  assume over: "\<not> unat st + unat n \<le> unat t"
  show "n = 0"
  proof (rule ccontr)
    assume "n \<noteq> 0"
    then have pos: "0 < unat n" by (simp add: unat_gt_0)
    define g where "g = (if st < t then t else st)"
    have "g \<in> window st n"
      using over pos unat_less_64 [of t]
      by (auto simp: g_def window_def word_less_nat_alt)
    then have "g < t" using assms by auto
    then show False by (auto simp: g_def split: if_splits)
  qed
qed

lemma MmFreePages_window:
  assumes inv: "pmm_inv s" and sub: "window (drop_bit 12 p) n \<subseteq> {f. f < total_pages s}"
  shows "free_frames (MmFreePages p n s) = free_frames s \<union> window (drop_bit 12 p) n"
proof -
  have "unat (drop_bit 12 p) + unat n < 2 ^ 64"
    using window_bound [OF sub] unat_less_64 [of "total_pages s"] unat_less_64 [of "drop_bit 12 p"]
    by (elim disjE) (simp, linarith)
  note win = window_interval [OF this]
  show ?thesis
    unfolding free_frames_def MmFreePages_spec(2,3) [OF inv] using sub unfolding win by blast
qed

lemma MmAllocatePages_0: "MmAllocatePages 0 s = (MM_INVALID_PHYS, s)"
  by (simp add: MmAllocatePages_def)

lemma pmm_step_owned_ok:
  assumes "pmm_step x y" and "owned_ok F x"
  shows "owned_ok F y"
  using assms
proof (induction rule: pmm_step.induct)
  case (page s p s' L)
  then have inv: "pmm_inv s" by (simp add: owned_ok_def)
  from inv show ?case
  proof (cases rule: MmAllocatePage_cases)
    case none
    with page show ?thesis by simp
  next
    case (some f t)
    then show ?thesis
      using page frame_addr(1) [OF free_frame_lt [OF inv some(2)]]
      by (auto simp: owned_ok_def) (auto simp: free_frames_def)
  qed
next
  case (page_fail s s' L)
  then have inv: "pmm_inv s" by (simp add: owned_ok_def)
  from inv show ?case
    using page_fail frame_addr(2) [OF free_frame_lt [OF inv]]
    by (cases rule: MmAllocatePage_cases) auto
next
  case (pages n s p s' L)
  then have inv: "pmm_inv s" and n: "n \<noteq> 0" by (auto simp: owned_ok_def MmAllocatePages_0)
  then show ?case
  proof (cases rule: MmAllocatePages_cases)
    case none
    with pages show ?thesis by simp
  next
    case (some st t)
    have "st \<in> window st n" using n by (simp add: window_def unat_gt_0)
    then have "drop_bit 12 p = st"
      using some pages frame_addr(1) [OF free_frame_lt [OF inv]] by auto
    then show ?thesis
      using pages some by (auto simp: owned_ok_def) (auto simp: free_frames_def)
  qed
next
  case (pages_fail n s s' L)
  then have inv: "pmm_inv s" by (simp add: owned_ok_def)
  show ?case
  proof (cases "n = 0")
    case True
    with pages_fail show ?thesis by (simp add: MmAllocatePages_0)
  next
    case False
    with inv show ?thesis
    proof (cases rule: MmAllocatePages_cases)
      case none
      with pages_fail show ?thesis by simp
    next
      case (some st t)
      have "st \<in> window st n" using False by (simp add: window_def unat_gt_0)
      with some have "push_bit 12 st \<noteq> MM_INVALID_PHYS"
        using frame_addr(2) [OF free_frame_lt [OF inv]] by blast
      with some pages_fail show ?thesis by simp
    qed
  qed
next
  case (free p n L s)
  then have inv: "pmm_inv s" and sub: "window (drop_bit 12 p) n \<subseteq> {f. f < total_pages s}"
    by (auto simp: owned_ok_def)
  then show ?case
    using free MmFreePages_spec [OF inv, of p n] MmFreePages_window [OF inv sub]
    by (auto simp: owned_ok_def)
qed

interpretation pmm_clients: transition_system pmm_step "owned_ok F" for F
  by unfold_locales (rule pmm_step_owned_ok)


section \<open>The frame allocator's contract\<close>

text \<open>What the virtual memory manager and the pool rely on: a successful allocation hands out a page-aligned
  frame that was free and is the only one to leave the free set; a failed one changes nothing and
  means that no frame is free.\<close>

locale frame_allocator =
  fixes ok :: "'s \<Rightarrow> bool" and frames :: "'s \<Rightarrow> u64 set" and alloc :: "'s \<Rightarrow> u64 \<times> 's"
  assumes finite_frames: "finite (frames s)"
    and alloc_fail: "ok s \<Longrightarrow> alloc s = (MM_INVALID_PHYS, s') \<Longrightarrow> s' = s \<and> frames s = {}"
    and alloc_take: "ok s \<Longrightarrow> alloc s = (p, s') \<Longrightarrow> p \<noteq> MM_INVALID_PHYS \<Longrightarrow>
      ok s' \<and> p AND PAGE_MASK = 0 \<and> drop_bit 12 p \<in> frames s \<and> frames s' = frames s - {drop_bit 12 p}"
begin

lemma alloc_card:
  assumes "ok s" and "alloc s = (p, s')" and "p \<noteq> MM_INVALID_PHYS"
  shows "card (frames s) = Suc (card (frames s'))"
  using alloc_take [OF assms] card.remove [OF finite_frames, of "drop_bit 12 p" s] by simp

lemma alloc_ok: "ok s \<Longrightarrow> alloc s = (p, s') \<Longrightarrow> ok s'"
  using alloc_fail alloc_take by blast

lemma alloc_succeeds: "ok s \<Longrightarrow> frames s \<noteq> {} \<Longrightarrow> fst (alloc s) \<noteq> MM_INVALID_PHYS"
  using alloc_fail [of s "snd (alloc s)"] by (metis prod.collapse)

lemma alloc_twice_distinct:
  assumes "ok s" and "alloc s = (p, s')" and "p \<noteq> MM_INVALID_PHYS"
    and "alloc s' = (q, s'')" and "q \<noteq> MM_INVALID_PHYS"
  shows "p \<noteq> q"
  using alloc_take [OF assms(1-3)] alloc_take [OF alloc_ok [OF assms(1,2)] assms(4,5)] by auto

end

interpretation pmm_frames: frame_allocator pmm_inv free_frames MmAllocatePage
proof
  fix s s' :: pmm_state and p
  assume inv: "pmm_inv s"
  show "s' = s \<and> free_frames s = {}" if "MmAllocatePage s = (MM_INVALID_PHYS, s')"
    using inv that frame_addr(2) [OF free_frame_lt [OF inv]]
    by (cases rule: MmAllocatePage_cases) auto
  show "pmm_inv s' \<and> p AND PAGE_MASK = 0 \<and> drop_bit 12 p \<in> free_frames s \<and>
      free_frames s' = free_frames s - {drop_bit 12 p}"
    if "MmAllocatePage s = (p, s')" "p \<noteq> MM_INVALID_PHYS"
    using inv
  proof (cases rule: MmAllocatePage_cases)
    case none
    with that show ?thesis by simp
  next
    case (some f t)
    from frame_addr [OF free_frame_lt [OF inv some(2)]] some that show ?thesis by auto
  qed
qed simp

section \<open>Properties\<close>

text \<open>(C1) Boot-time safety of the frame allocator. For a firmware map whose available regions do not
  wrap around, \<^verbatim>\<open>MmInitializePhysicalMemory\<close> leaves free exactly the whole frames of available regions
  that lie at or above the end of the bitmap (so never the low megabyte, the kernel image or the bitmap
  itself), and its page counters are exact.\<close>

theorem MmInitializePhysicalMemory_safe:
  fixes mem :: "u64 \<Rightarrow> u8"
  assumes "boot_map_ok kernel_end m"
  defines "s \<equiv> MmInitializePhysicalMemory kernel_end mem m"
  shows "free_frames s = {f. f < drop_bit 12 (highest_address m) \<and>
      (\<exists>r \<in> set (regions m). frame_in_region r f) \<and> bitmap_end kernel_end m \<le> unat f * 4096} \<and>
    unat (MmFreePageCount s) = card (free_frames s) \<and>
    unat (used_pages s) + card (free_frames s) = unat (MmTotalPages s)"
proof -
  note spec = MmInitializePhysicalMemory_spec [OF assms(1), where mem = mem, folded s_def]
  have c: "counts_ok s" using spec(1) by (simp add: pmm_inv_def)
  have "free_pages s \<le> total_pages s"
    using card_free_le [of s] unat_free_pages [OF c] by (simp add: word_le_nat_alt)
  then have "unat (used_pages s) = unat (total_pages s) - card (free_frames s)"
    using c unat_free_pages [OF c] by (simp add: counts_ok_def unat_sub word_le_nat_alt)
  then show ?thesis
    using spec(3) unat_free_pages [OF c] card_free_le [of s]
    by (auto simp: MmFreePageCount_def MmTotalPages_def)
qed

definition demo_map :: MM_MEMORY_MAP where
  "demo_map = \<lparr>regions = [\<lparr>rbase = 0, rlength = 0x9F000, rtype = MmRegionAvailable\<rparr>,
      \<lparr>rbase = 0x9F000, rlength = 0x61000, rtype = MmRegionReserved\<rparr>,
      \<lparr>rbase = 0x100000, rlength = 0x300000, rtype = MmRegionAvailable\<rparr>],
    highest_address = 0x400000, total_available = 0x39F000\<rparr>"

lemma demo_map_ok: "boot_map_ok 0x180000 demo_map"
  by (simp add: boot_map_ok_def demo_map_def region_fits_def)

lemma demo_map_end: "bitmap_end 0x180000 demo_map = 0x181000"
  by (simp add: bitmap_end_def demo_map_def PAGE_ALIGN_UP_def BYTES_TO_PAGES_def drop_bit_eq_div)

theorem MmInitializePhysicalMemory_safe_witness:
  "0x181 \<in> free_frames (MmInitializePhysicalMemory 0x180000 (\<lambda>_. 0) demo_map) \<and>
   0x180 \<notin> free_frames (MmInitializePhysicalMemory 0x180000 (\<lambda>_. 0) demo_map)"
  unfolding MmInitializePhysicalMemory_safe [OF demo_map_ok, THEN conjunct1]
  by (simp add: demo_map_end) (simp add: demo_map_def frame_in_region_def drop_bit_eq_div)

text \<open>(C2) No frame is handed out twice. Whatever sequence of \<^verbatim>\<open>MmAllocatePage\<close>, \<^verbatim>\<open>MmAllocatePages\<close>
  and \<^verbatim>\<open>MmFreePages\<close> calls clients make after boot (freeing only what they own), the frames they own are
  disjoint from the free frames, together they are the frames that were free at boot, and
  \<^verbatim>\<open>MmFreePageCount\<close> accounts for every frame.\<close>

theorem pmm_ownership:
  assumes "boot_map_ok kernel_end m"
    and "pmm_step\<^sup>*\<^sup>* (MmInitializePhysicalMemory kernel_end mem m, {}) (s, L)"
  shows "L \<inter> free_frames s = {} \<and>
    L \<union> free_frames s = free_frames (MmInitializePhysicalMemory kernel_end mem m) \<and>
    unat (MmFreePageCount s) + card L = unat (MmFreePageCount (MmInitializePhysicalMemory kernel_end mem m))"
proof -
  let ?i = "MmInitializePhysicalMemory kernel_end mem m"
  have inv: "pmm_inv ?i" using MmInitializePhysicalMemory_spec(1) [OF assms(1)] .
  then have "owned_ok (free_frames ?i) (?i, {})" by (simp add: owned_ok_def)
  from pmm_clients.steps_inv [OF assms(2) this]
  have *: "pmm_inv s" "L \<inter> free_frames s = {}" "L \<union> free_frames s = free_frames ?i"
    by (auto simp: owned_ok_def)
  then have "card (free_frames ?i) = card L + card (free_frames s)"
    by (metis card_Un_disjoint finite_code)
  then show ?thesis
    using * inv unat_free_pages [of s] unat_free_pages [of ?i]
    by (simp add: MmFreePageCount_def pmm_inv_def)
qed

theorem pmm_ownership_witness:
  "\<exists>s f. pmm_step\<^sup>*\<^sup>* (MmInitializePhysicalMemory 0x180000 (\<lambda>_. 0) demo_map, {}) (s, {f}) \<and>
     f \<notin> free_frames s"
proof -
  let ?i = "MmInitializePhysicalMemory 0x180000 (\<lambda>_. 0) demo_map"
  have "0x181 \<in> free_frames ?i"
    unfolding MmInitializePhysicalMemory_spec(3) [OF demo_map_ok]
    by (simp add: demo_map_end) (simp add: demo_map_def frame_in_region_def drop_bit_eq_div)
  moreover have inv: "pmm_inv ?i" using MmInitializePhysicalMemory_spec(1) [OF demo_map_ok] .
  ultimately obtain f s where "MmAllocatePage ?i = (push_bit 12 f, s)" and f: "f \<in> free_frames ?i"
    using MmAllocatePage_cases [OF inv] by (metis empty_iff)
  then have "pmm_step (?i, {}) (s, {f})"
    using pmm_step.page [of ?i "push_bit 12 f" s "{}"] frame_addr [OF free_frame_lt [OF inv f]] by simp
  then have "pmm_step\<^sup>*\<^sup>* (?i, {}) (s, {f})" by blast
  with pmm_ownership [OF demo_map_ok this] show ?thesis by blast
qed

text \<open>(C3) \<^verbatim>\<open>MmAllocatePages\<close> is sound and complete: it fails, leaving the state alone, exactly when no run of
  \<open>n\<close> consecutive free frames exists; otherwise it returns the page-aligned address of a run of \<open>n\<close> frames
  that were all free, marks exactly those, and keeps the invariant.\<close>

theorem MmAllocatePages_correct:
  assumes "pmm_inv s" and "n \<noteq> 0" and "MmAllocatePages n s = (p, s')"
  shows "(p = MM_INVALID_PHYS \<longleftrightarrow> (\<nexists>st. window st n \<subseteq> free_frames s)) \<and>
    (p = MM_INVALID_PHYS \<longrightarrow> s' = s) \<and>
    (p \<noteq> MM_INVALID_PHYS \<longrightarrow> p AND PAGE_MASK = 0 \<and> window (drop_bit 12 p) n \<subseteq> free_frames s \<and>
       free_frames s' = free_frames s - window (drop_bit 12 p) n) \<and> pmm_inv s'"
proof -
  from assms(1,2) show ?thesis
  proof (cases rule: MmAllocatePages_cases)
    case none
    have "\<not> window st n \<subseteq> free_frames s" for st
    proof
      assume sub: "window st n \<subseteq> free_frames s"
      then have "unat st + unat n \<le> unat (total_pages s)"
        using window_bound [of st n "total_pages s"] assms(2) by (auto simp: free_frames_def)
      then obtain g where "g \<in> window st n" "bit_test s g" using none(2) by (auto simp: no_run_def)
      with sub show False by (auto simp: free_frames_def)
    qed
    with none assms show ?thesis by simp
  next
    case (some st t)
    have "st \<in> window st n" using assms(2) by (simp add: window_def unat_gt_0)
    then have "st < 2 ^ 52" using some(3) free_frame_lt [OF assms(1)] by blast
    from frame_addr [OF this] some assms(3) show ?thesis by auto
  qed
qed

text \<open>A 16-frame machine with every frame free.\<close>

definition demo_pmm :: pmm_state where
  "demo_pmm = \<lparr>bitmap_phys = 0, bitmap_bytes = 2, total_pages = 16, free_pages = 16, used_pages = 0,
     next_hint = 0, bitmap = (\<lambda>_. 0)\<rparr>"

lemma demo_pmm_inv: "pmm_inv demo_pmm"
proof -
  have "free_frames demo_pmm = {f. f < 16}" by (auto simp: free_frames_def demo_pmm_def bit_test_bit)
  then have "card (free_frames demo_pmm) = 16" using card_words_below [of "16 :: u64"] by simp
  then show ?thesis by (simp add: pmm_inv_def counts_ok_def) (simp add: demo_pmm_def)
qed

lemma demo_pmm_alloc: "fst (MmAllocatePages 3 demo_pmm) = 0"
  by (simp add: MmAllocatePages_def fit_scan.simps demo_pmm_def bit_test_bit)

theorem MmAllocatePages_correct_witness:
  "fst (MmAllocatePages 3 demo_pmm) = 0 \<and>
   free_frames (snd (MmAllocatePages 3 demo_pmm)) = free_frames demo_pmm - window 0 3"
  using MmAllocatePages_correct [OF demo_pmm_inv, of 3 0 "snd (MmAllocatePages 3 demo_pmm)"]
    demo_pmm_alloc by (simp add: prod_eq_iff)

lemma or_clear_or: "((x OR m) AND NOT m) OR m = x OR (m :: 'a::len word)"
  by (rule bit_eqI) (auto simp: bit_simps)

lemma bitmap_set_clear_set:
  "bitmap (bit_set f (bit_clear f ((bit_set f s)\<lparr>free_pages := a, used_pages := b, next_hint := c\<rparr>))) =
   bitmap ((bit_set f s)\<lparr>free_pages := a, used_pages := b, next_hint := c\<rparr>)"
proof -
  define m where "m = (push_bit (unat (f AND 7)) 1 :: u8)"
  show ?thesis
    unfolding bit_set_def bit_clear_def m_def [symmetric] by (simp add: or_clear_or del: or.assoc)
qed

text \<open>Round trip: freeing the frame \<^verbatim>\<open>MmAllocatePage\<close> just returned and allocating again returns
  the same frame and the same allocator state, because \<^verbatim>\<open>MmFreePages\<close> moves \<^verbatim>\<open>next_hint\<close> back.\<close>

theorem MmAllocatePage_free_roundtrip:
  assumes "pmm_inv s" and "MmAllocatePage s = (p, s')" and "p \<noteq> MM_INVALID_PHYS"
  shows "MmAllocatePage (MmFreePages p 1 s') = (p, s') \<and>
    free_frames (MmFreePages p 1 s') = free_frames s"
proof -
  from alloc_scan_cases [OF assms(1), of 0] assms(2,3) obtain f where
    f: "f < total_pages s" "\<not> bit_test s f" and p: "p = push_bit 12 f" and
    s': "s' = (bit_set f s)\<lparr>free_pages := free_pages s - 1, used_pages := used_pages s + 1,
      next_hint := f + 1\<rparr>"
    by (auto simp: MmAllocatePage_def)
  have lt: "f < 2 ^ 52" using f assms(1) by (auto simp: pmm_inv_def)
  have d: "drop_bit 12 p = f" using frame_addr(1) [OF lt] p by simp
  have less: "f < f + 1" using word_less_Suc_iff [OF f(1)] by simp
  have stop: "release_loop (f + 1) (f + 1) t = t" for t by (subst release_loop.simps) simp
  have fr: "MmFreePages p 1 s' = (bit_clear f s')\<lparr>free_pages := free_pages s, used_pages := used_pages s,
      next_hint := f\<rparr>"
    using f less
    by (simp add: MmFreePages_def d Let_def release_loop.simps [of f] s') (simp add: stop)
  have bm: "bitmap (bit_set f (bit_clear f s')) = bitmap s'"
    unfolding s' by (rule bitmap_set_clear_set)
  have "MmAllocatePage (MmFreePages p 1 s') = (p, s')"
  proof -
    let ?r = "MmFreePages p 1 s'"
    have r: "total_pages ?r = total_pages s" "next_hint ?r = f" "\<not> bit_test ?r f"
      "free_pages ?r = free_pages s" "used_pages ?r = used_pages s"
      unfolding fr by (simp_all add: s')
    have "alloc_scan 0 ?r = (p, (bit_set f ?r)
        \<lparr>free_pages := free_pages s - 1, used_pages := used_pages s + 1, next_hint := f + 1\<rparr>)"
      using f(1) r word_gt_0 [of "total_pages s"]
      by (subst alloc_scan.simps) (auto simp: Let_def p)
    moreover have "bitmap (bit_set f ?r) = bitmap s'"
      unfolding bm [symmetric] by (simp add: fr bit_set_def bit_clear_def)
    then have "(bit_set f ?r)\<lparr>free_pages := free_pages s - 1, used_pages := used_pages s + 1,
        next_hint := f + 1\<rparr> = s'"
      by (intro pmm_state.equality) (simp_all, simp_all only: fr, simp_all add: s')
    ultimately show ?thesis by (simp add: MmAllocatePage_def)
  qed
  moreover have "free_frames (MmFreePages p 1 s') = free_frames s"
    unfolding fr using f by (auto simp: free_frames_def s')
  ultimately show ?thesis by blast
qed

theorem MmAllocatePage_free_roundtrip_witness:
  "fst (MmAllocatePage demo_pmm) = 0 \<and>
   MmAllocatePage (MmFreePages 0 1 (snd (MmAllocatePage demo_pmm))) = MmAllocatePage demo_pmm"
proof -
  have "fst (MmAllocatePage demo_pmm) = 0"
    by (simp add: MmAllocatePage_def alloc_scan.simps demo_pmm_def bit_test_bit)
  then show ?thesis
    using MmAllocatePage_free_roundtrip [OF demo_pmm_inv, of 0 "snd (MmAllocatePage demo_pmm)"]
    by (simp add: prod_eq_iff)
qed

end
