(* ===== verification/Mm_Vmm.thy ===== *)
theory Mm_Vmm
  imports Mm_Pmm
begin

text \<open>
  The virtual memory manager, \<^verbatim>\<open>kernel/mm/vmm.c\<close>: four-level x86-64 page tables.
  \<open>vmm_state\<close> holds the frame allocator, \<^verbatim>\<open>g_kernel_pml4_phys\<close>, \<^verbatim>\<open>MmDirectMapBase\<close>, and two views of
  memory: \<open>ptm s t i\<close> is entry \<open>i\<close> of the page-table page at physical address \<open>t\<close> (what
  \<^verbatim>\<open>table_at(t)[i]\<close> reads; the index is a 9-bit word, so the mask of \<^verbatim>\<open>PML4_INDEX\<close> is the cast), and
  \<open>umem s va\<close> the byte at virtual address \<open>va\<close>. \<^verbatim>\<open>KeBugCheck\<close> and a loop that never ends are \<open>None\<close>.
  The TLB (\<^verbatim>\<open>invlpg\<close>, \<^verbatim>\<open>load_cr3\<close>) has no state in the model.

  \<open>vmm_inv\<close> says that the tables reachable from the root form a tree of in-use frames. The lemmas
  show that mapping and unmapping change the translation of exactly one page, that the probes
  accept exactly the mapped user ranges, and what the boot-time address space translates.
\<close>

section \<open>State\<close>

record vmm_state =
  pmm :: pmm_state
  ptm :: "u64 \<Rightarrow> 9 word \<Rightarrow> u64"
  g_kernel_pml4_phys :: u64
  MmDirectMapBase :: u64
  umem :: "u64 \<Rightarrow> u8"

abbreviation "PTE_PRESENT \<equiv> (0x001 :: u64)"
abbreviation "PTE_WRITE \<equiv> (0x002 :: u64)"
abbreviation "PTE_USER \<equiv> (0x004 :: u64)"
abbreviation "PTE_LARGE \<equiv> (0x080 :: u64)"
abbreviation "PTE_GLOBAL \<equiv> (0x100 :: u64)"
abbreviation "PTE_ADDR_MASK \<equiv> (0x000FFFFFFFFFF000 :: u64)"

definition PML4_INDEX :: "u64 \<Rightarrow> 9 word" where "PML4_INDEX va = ucast (drop_bit 39 va)"
definition PDPT_INDEX :: "u64 \<Rightarrow> 9 word" where "PDPT_INDEX va = ucast (drop_bit 30 va)"
definition PD_INDEX :: "u64 \<Rightarrow> 9 word" where "PD_INDEX va = ucast (drop_bit 21 va)"
definition PT_INDEX :: "u64 \<Rightarrow> 9 word" where "PT_INDEX va = ucast (drop_bit 12 va)"

definition present :: "u64 \<Rightarrow> bool" where "present e \<longleftrightarrow> e AND PTE_PRESENT \<noteq> 0"
definition large :: "u64 \<Rightarrow> bool" where "large e \<longleftrightarrow> e AND PTE_LARGE \<noteq> 0"

text \<open>\<^verbatim>\<open>table[i] = e\<close>\<close>

definition set_entry :: "u64 \<Rightarrow> 9 word \<Rightarrow> u64 \<Rightarrow> vmm_state \<Rightarrow> vmm_state" where
  "set_entry t i e s = s\<lparr>ptm := (ptm s)(t := (ptm s t)(i := e))\<rparr>"

section \<open>Operations\<close>

definition alloc_zeroed_table :: "vmm_state \<Rightarrow> (u64 \<times> vmm_state) option" where
  "alloc_zeroed_table s =
     (let (phys, p) = MmAllocatePage (pmm s)
      in if phys = MM_INVALID_PHYS then None
         else Some (phys, s\<lparr>pmm := p, ptm := (ptm s)(phys := (\<lambda>_. 0))\<rparr>))"

definition next_table :: "u64 \<Rightarrow> 9 word \<Rightarrow> vmm_state \<Rightarrow> (u64 \<times> vmm_state) option" where
  "next_table tab i s =
     (if \<not> present (ptm s tab i) then
        do {
          (t, s1) \<leftarrow> alloc_zeroed_table s;
          Some (t, set_entry tab i (t OR PTE_PRESENT OR PTE_WRITE OR PTE_USER) s1)
        }
      else
        (let s1 = set_entry tab i (ptm s tab i OR PTE_USER) s
         in Some (ptm s1 tab i AND PTE_ADDR_MASK, s1)))"

definition map_large :: "u64 \<Rightarrow> u64 \<Rightarrow> u64 \<Rightarrow> u64 \<Rightarrow> vmm_state \<Rightarrow> vmm_state option" where
  "map_large pml4_phys va pa flags s =
     do {
       (pdpt_phys, s1) \<leftarrow> next_table pml4_phys (PML4_INDEX va) s;
       (pd_phys, s2) \<leftarrow> next_table pdpt_phys (PDPT_INDEX va) s1;
       Some (set_entry pd_phys (PD_INDEX va)
               ((pa AND NOT (LARGE_PAGE_SIZE - 1)) OR flags OR PTE_LARGE) s2)
     }"

text \<open>The two \<^verbatim>\<open>for\<close> loops of \<^verbatim>\<open>MmInitializeVirtualMemory\<close>, with the virtual base they map at.\<close>

partial_function (option) map_loop :: "u64 \<Rightarrow> u64 \<Rightarrow> u64 \<Rightarrow> vmm_state \<Rightarrow> vmm_state option" where
  "map_loop base off lim s =
     (if off < lim then
        do {
          s1 \<leftarrow> map_large (g_kernel_pml4_phys s) (base + off) off
                  (PTE_PRESENT OR PTE_WRITE OR PTE_GLOBAL) s;
          map_loop base (off + LARGE_PAGE_SIZE) lim s1
        }
      else Some s)"

definition MmInitializeVirtualMemory :: "MM_MEMORY_MAP \<Rightarrow> vmm_state \<Rightarrow> vmm_state option" where
  "MmInitializeVirtualMemory m s =
     do {
       (root, s0) \<leftarrow> alloc_zeroed_table s;
       s1 \<leftarrow> map_loop KERNEL_VIRT_BASE 0 0x40000000 (s0\<lparr>g_kernel_pml4_phys := root\<rparr>);
       let top = (highest_address m + LARGE_PAGE_SIZE - 1) AND NOT (LARGE_PAGE_SIZE - 1);
       let top = (if top < 0x40000000 then 0x40000000 else top);
       s2 \<leftarrow> map_loop MM_DIRECT_MAP_BASE 0 top s1;
       Some (s2\<lparr>MmDirectMapBase := MM_DIRECT_MAP_BASE\<rparr>)
     }"

definition MmMapPage :: "u64 \<Rightarrow> u64 \<Rightarrow> u64 \<Rightarrow> vmm_state \<Rightarrow> (bool \<times> vmm_state) option" where
  "MmMapPage virt phys flags s =
     do {
       (pdpt_phys, s1) \<leftarrow> next_table (g_kernel_pml4_phys s) (PML4_INDEX virt) s;
       (pd_phys, s2) \<leftarrow> next_table pdpt_phys (PDPT_INDEX virt) s1;
       if large (ptm s2 pd_phys (PD_INDEX virt)) then Some (False, s2)
       else do {
         (pt_phys, s3) \<leftarrow> next_table pd_phys (PD_INDEX virt) s2;
         Some (True, set_entry pt_phys (PT_INDEX virt)
                       ((phys AND PTE_ADDR_MASK) OR flags OR PTE_PRESENT) s3)
       }
     }"

definition MmUnmapPage :: "u64 \<Rightarrow> vmm_state \<Rightarrow> bool \<times> vmm_state" where
  "MmUnmapPage virt s =
     (let pml4e = ptm s (g_kernel_pml4_phys s) (PML4_INDEX virt)
      in if \<not> present pml4e then (False, s)
      else let pdpte = ptm s (pml4e AND PTE_ADDR_MASK) (PDPT_INDEX virt)
      in if \<not> present pdpte then (False, s)
      else let pde = ptm s (pdpte AND PTE_ADDR_MASK) (PD_INDEX virt)
      in if \<not> present pde \<or> large pde then (False, s)
      else (True, set_entry (pde AND PTE_ADDR_MASK) (PT_INDEX virt) 0 s))"

definition MmGetPhysicalAddress :: "vmm_state \<Rightarrow> u64 \<Rightarrow> u64" where
  "MmGetPhysicalAddress s virt =
     (let pml4e = ptm s (g_kernel_pml4_phys s) (PML4_INDEX virt)
      in if \<not> present pml4e then MM_INVALID_PHYS
      else let pdpte = ptm s (pml4e AND PTE_ADDR_MASK) (PDPT_INDEX virt)
      in if \<not> present pdpte then MM_INVALID_PHYS
      else let pde = ptm s (pdpte AND PTE_ADDR_MASK) (PD_INDEX virt)
      in if \<not> present pde then MM_INVALID_PHYS
      else if large pde then
        (pde AND NOT (LARGE_PAGE_SIZE - 1)) OR (virt AND (LARGE_PAGE_SIZE - 1))
      else let pte = ptm s (pde AND PTE_ADDR_MASK) (PT_INDEX virt)
      in if \<not> present pte then MM_INVALID_PHYS
      else (pte AND PTE_ADDR_MASK) OR (virt AND PAGE_MASK))"

subsection \<open>User-pointer validation\<close>

definition MmIsUserAddress :: "u64 \<Rightarrow> bool" where
  "MmIsUserAddress va \<longleftrightarrow> va < MM_USER_MAX"

partial_function (option) probe_loop :: "vmm_state \<Rightarrow> u64 \<Rightarrow> u64 \<Rightarrow> bool option" where
  "probe_loop s p lim =
     (if p < lim then
        if MmGetPhysicalAddress s p = MM_INVALID_PHYS then Some False
        else probe_loop s (p + PAGE_SIZE) lim
      else Some True)"

definition MmProbeForRead :: "vmm_state \<Rightarrow> u64 \<Rightarrow> u64 \<Rightarrow> bool option" where
  "MmProbeForRead s va len =
     (if len = 0 then Some True
      else if va + len < va then Some False
      else if \<not> MmIsUserAddress va \<or> \<not> MmIsUserAddress (va + len - 1) then Some False
      else probe_loop s (PAGE_ALIGN va) (va + len))"

definition MmProbeForWrite :: "vmm_state \<Rightarrow> u64 \<Rightarrow> u64 \<Rightarrow> bool option" where
  "MmProbeForWrite s va len = MmProbeForRead s va len"

text \<open>Little-endian reads of virtual memory.\<close>

definition read16 :: "vmm_state \<Rightarrow> u64 \<Rightarrow> u16" where
  "read16 s a = ucast (umem s a) OR push_bit 8 (ucast (umem s (a + 1)))"

definition read64 :: "vmm_state \<Rightarrow> u64 \<Rightarrow> u64" where
  "read64 s a = foldr (\<lambda>i w. ucast (umem s (a + of_nat i)) OR push_bit 8 w) [0..<8] 0"

text \<open>\<open>MmCaptureUnicodeName\<close> returns its result and the bytes it wrote to \<^verbatim>\<open>out[0], out[1], \<dots>\<close>; the loop
  over the characters is a \<open>map\<close> over its index.\<close>

definition capture_char :: "u16 \<Rightarrow> u8" where
  "capture_char c = (if c \<noteq> 0 \<and> c < 0x80 then ucast c else 0x3F)"

definition MmCaptureUnicodeName :: "vmm_state \<Rightarrow> u64 \<Rightarrow> u64 \<Rightarrow> (bool \<times> u8 list) option" where
  "MmCaptureUnicodeName s ustr_va out_size =
     (if out_size = 0 then Some (False, [0])
      else do {
        ok \<leftarrow> MmProbeForRead s ustr_va 16;
        if \<not> ok then Some (False, [0])
        else
          (let length = read16 s ustr_va;
               buffer = read64 s (ustr_va + 8);
               chars0 = (ucast (length div 2) :: u32);
               chars = (if out_size \<le> ucast chars0 then ucast out_size - 1 else chars0)
           in do {
             ok2 \<leftarrow> (if chars = 0 then Some True else MmProbeForRead s buffer (ucast chars * 2));
             if \<not> ok2 then Some (False, [0])
             else Some (True, map (\<lambda>i. capture_char (read16 s (buffer + 2 * of_nat i))) [0..<unat chars] @ [0])
           })
      })"

partial_function (option) protect_loop :: "u64 \<Rightarrow> u64 \<Rightarrow> u64 \<Rightarrow> vmm_state \<Rightarrow> vmm_state option" where
  "protect_loop p lim flags s =
     (if p < lim then
        (let pa = MmGetPhysicalAddress s p
         in if pa \<noteq> MM_INVALID_PHYS then
              do {
                (_, s1) \<leftarrow> MmMapPage p (pa AND NOT PAGE_MASK) flags s;
                protect_loop (p + PAGE_SIZE) lim flags s1
              }
            else protect_loop (p + PAGE_SIZE) lim flags s)
      else Some s)"

definition MmProtectRange :: "u64 \<Rightarrow> u64 \<Rightarrow> bool \<Rightarrow> vmm_state \<Rightarrow> vmm_state option" where
  "MmProtectRange va len writable s =
     protect_loop (PAGE_ALIGN va) (PAGE_ALIGN_UP (va + len))
       (PTE_USER OR (if writable then PTE_WRITE else 0)) s"

section \<open>The translation as a walk\<close>

definition addr :: "u64 \<Rightarrow> u64" where "addr e = e AND PTE_ADDR_MASK"

text \<open>Depth 0 is the PML4, depth 3 a page table.\<close>

definition idx :: "nat \<Rightarrow> u64 \<Rightarrow> 9 word" where
  "idx d va = (if d = 0 then PML4_INDEX va else if d = 1 then PDPT_INDEX va
               else if d = 2 then PD_INDEX va else PT_INDEX va)"

definition link :: "nat \<Rightarrow> u64 \<Rightarrow> bool" where
  "link d e \<longleftrightarrow> d < 3 \<and> present e \<and> \<not> (d = 2 \<and> large e)"

fun reach :: "(u64 \<Rightarrow> 9 word \<Rightarrow> u64) \<Rightarrow> u64 \<Rightarrow> nat \<Rightarrow> u64 \<Rightarrow> u64 option" where
  "reach m root 0 va = Some root"
| "reach m root (Suc d) va =
     (case reach m root d va of None \<Rightarrow> None
      | Some t \<Rightarrow> if link d (m t (idx d va)) then Some (addr (m t (idx d va))) else None)"

text \<open>The translation, read off the walk: a large leaf at depth 2, or a leaf at depth 3.\<close>

definition translate :: "(u64 \<Rightarrow> 9 word \<Rightarrow> u64) \<Rightarrow> u64 \<Rightarrow> u64 \<Rightarrow> u64" where
  "translate m root va =
     (case reach m root 3 va of
        Some t \<Rightarrow> (let e = m t (PT_INDEX va) in
          if present e then addr e OR (va AND PAGE_MASK) else MM_INVALID_PHYS)
      | None \<Rightarrow> (case reach m root 2 va of
          Some t \<Rightarrow> (let e = m t (PD_INDEX va) in
            if present e \<and> large e
            then (e AND NOT (LARGE_PAGE_SIZE - 1)) OR (va AND (LARGE_PAGE_SIZE - 1))
            else MM_INVALID_PHYS)
        | None \<Rightarrow> MM_INVALID_PHYS))"

definition large_mapped :: "(u64 \<Rightarrow> 9 word \<Rightarrow> u64) \<Rightarrow> u64 \<Rightarrow> u64 \<Rightarrow> bool" where
  "large_mapped m root va \<longleftrightarrow> (\<exists>t. reach m root 2 va = Some t \<and> large (m t (PD_INDEX va)))"

lemma translate_cong:
  assumes "reach m' root 3 va = reach m root 3 va" "reach m' root 2 va = reach m root 2 va"
    and "\<And>u. reach m root 3 va = Some u \<Longrightarrow> m' u (PT_INDEX va) = m u (PT_INDEX va)"
    and "\<And>u. reach m root 2 va = Some u \<Longrightarrow> m' u (PD_INDEX va) = m u (PD_INDEX va)"
  shows "translate m' root va = translate m root va"
  using assms unfolding translate_def by (simp split: option.splits)

lemma MmGetPhysicalAddress_translate:
  "MmGetPhysicalAddress s va = translate (ptm s) (g_kernel_pml4_phys s) va"
  by (simp add: MmGetPhysicalAddress_def translate_def Let_def link_def addr_def idx_def numeral_3_eq_3
      numeral_2_eq_2)



section \<open>Entries\<close>

lemma present_bit: "present e \<longleftrightarrow> bit e 0"
  by (simp add: present_def and_one_eq odd_iff_mod_2_eq_one bit_0)

lemma bit_PTE:
  "bit PTE_PRESENT n \<longleftrightarrow> n = 0" "bit PTE_WRITE n \<longleftrightarrow> n = 1" "bit PTE_USER n \<longleftrightarrow> n = 2"
  "bit PTE_LARGE n \<longleftrightarrow> n = 7"
proof -
  have "PTE_PRESENT = push_bit 0 1" "PTE_WRITE = push_bit 1 1" "PTE_USER = push_bit 2 1"
    "PTE_LARGE = push_bit 7 1" by simp_all
  then show "bit PTE_PRESENT n \<longleftrightarrow> n = 0" "bit PTE_WRITE n \<longleftrightarrow> n = 1" "bit PTE_USER n \<longleftrightarrow> n = 2"
    "bit PTE_LARGE n \<longleftrightarrow> n = 7"
    by (simp_all only: bit_push_bit_iff bit_1_iff) auto
qed

lemma large_bit: "large e \<longleftrightarrow> bit e 7"
  unfolding large_def bit_eq_iff [of "e AND PTE_LARGE"] bit_and_iff bit_PTE by auto

lemma PTE_ADDR_MASK_eq: "PTE_ADDR_MASK = push_bit 12 (mask 40)"
  by (simp add: mask_eq_exp_minus_1 push_bit_eq_mult)

lemma bit_addr: "bit (addr e) n \<longleftrightarrow> 12 \<le> n \<and> n < 52 \<and> bit e n"
  unfolding addr_def PTE_ADDR_MASK_eq by (auto simp: bit_simps)

lemma user_bit [simp]:
  "present (e OR PTE_USER) = present e" "large (e OR PTE_USER) = large e" "addr (e OR PTE_USER) = addr e"
  by (auto simp: present_bit large_bit bit_or_iff bit_PTE bit_addr intro!: bit_eqI
      simp del: bit_numeral_word_iff)

lemma new_entry:
  assumes "addr t = t"
  shows "present (t OR PTE_PRESENT OR PTE_WRITE OR PTE_USER)"
    and "\<not> large (t OR PTE_PRESENT OR PTE_WRITE OR PTE_USER)"
    and "addr (t OR PTE_PRESENT OR PTE_WRITE OR PTE_USER) = t"
proof -
  have b: "bit t n \<longleftrightarrow> 12 \<le> n \<and> n < 52 \<and> bit t n" for n
    using bit_addr [of t n] assms by simp
  show "present (t OR PTE_PRESENT OR PTE_WRITE OR PTE_USER)"
    by (simp only: present_bit bit_or_iff bit_PTE) simp
  show "\<not> large (t OR PTE_PRESENT OR PTE_WRITE OR PTE_USER)"
    using b [of 7] by (simp only: large_bit bit_or_iff bit_PTE) simp
  show "addr (t OR PTE_PRESENT OR PTE_WRITE OR PTE_USER) = t"
  proof (rule bit_eqI)
    fix n
    show "bit (addr (t OR PTE_PRESENT OR PTE_WRITE OR PTE_USER)) n \<longleftrightarrow> bit t n"
      using b [of n] unfolding bit_addr bit_or_iff bit_PTE by auto
  qed
qed

lemma zero_entry [simp]: "\<not> present 0" "\<not> link d 0"
  by (simp_all add: present_def link_def)

lemma addr_frame:
  assumes "f < 2 ^ 40"
  shows "addr (push_bit 12 f) = push_bit 12 f"
proof -
  have "unat f < 2 ^ 40" using assms by (simp add: word_less_nat_alt)
  then have "take_bit 40 f = f"
    by (simp add: word_unat_eq_iff unsigned_take_bit_eq take_bit_nat_eq_self)
  then have "bit f (n - 12) \<Longrightarrow> n - 12 < 40" for n by (metis bit_take_bit_iff)
  then have "bit f (n - 12) \<Longrightarrow> n < 52" for n by force
  then show ?thesis by (auto intro!: bit_eqI simp: bit_addr bit_simps)
qed

section \<open>The page-table tree\<close>

text \<open>\<open>D\<close> gives the depth of every table of the tree.\<close>

definition tree_ok :: "(u64 \<Rightarrow> 9 word \<Rightarrow> u64) \<Rightarrow> u64 \<Rightarrow> (u64 \<rightharpoonup> nat) \<Rightarrow> bool" where
  "tree_ok m root D \<longleftrightarrow> D root = Some 0 \<and>
     (\<forall>t d i. D t = Some d \<longrightarrow> link d (m t i) \<longrightarrow> D (addr (m t i)) = Some (Suc d)) \<and>
     (\<forall>t d i t' d' i'. D t = Some d \<longrightarrow> link d (m t i) \<longrightarrow> D t' = Some d' \<longrightarrow> link d' (m t' i') \<longrightarrow>
        addr (m t i) = addr (m t' i') \<longrightarrow> t = t' \<and> i = i')"

definition frames_ok :: "pmm_state \<Rightarrow> (u64 \<rightharpoonup> nat) \<Rightarrow> bool" where
  "frames_ok p D \<longleftrightarrow> pmm_inv p \<and> total_pages p \<le> 2 ^ 40 \<and>
     (\<forall>t \<in> dom D. addr t = t \<and> bit_test p (drop_bit 12 t))"

definition vmm_ok :: "vmm_state \<Rightarrow> (u64 \<rightharpoonup> nat) \<Rightarrow> bool" where
  "vmm_ok s D \<longleftrightarrow> tree_ok (ptm s) (g_kernel_pml4_phys s) D \<and> frames_ok (pmm s) D"

definition vmm_inv :: "vmm_state \<Rightarrow> bool" where
  "vmm_inv s \<longleftrightarrow> (\<exists>D. vmm_ok s D)"

lemma tree_ok_D:
  assumes "tree_ok m root D"
  shows "D root = Some 0"
    and "D t = Some d \<Longrightarrow> link d (m t i) \<Longrightarrow> D (addr (m t i)) = Some (Suc d)"
    and "D t = Some d \<Longrightarrow> link d (m t i) \<Longrightarrow> D t' = Some d' \<Longrightarrow> link d' (m t' i') \<Longrightarrow>
      addr (m t i) = addr (m t' i') \<Longrightarrow> t = t' \<and> i = i'"
  using assms unfolding tree_ok_def by blast+

lemma reach_depth:
  "tree_ok m root D \<Longrightarrow> reach m root d va = Some t \<Longrightarrow> D t = Some d"
proof (induction d arbitrary: t)
  case 0
  then show ?case by (simp add: tree_ok_D)
next
  case (Suc d)
  then show ?case by (auto split: option.splits if_splits intro: tree_ok_D(2))
qed

text \<open>Two addresses that reach the same table agree on every index above it.\<close>

lemma reach_inj:
  assumes ok: "tree_ok m root D"
  shows "reach m root d va = Some t \<Longrightarrow> reach m root d va' = Some t \<Longrightarrow> e < d \<Longrightarrow> idx e va = idx e va'"
proof (induction d arbitrary: t)
  case 0
  then show ?case by simp
next
  case (Suc d)
  from Suc.prems obtain u where u: "reach m root d va = Some u" "link d (m u (idx d va))"
    "addr (m u (idx d va)) = t" by (auto split: option.splits if_splits)
  from Suc.prems obtain u' where u': "reach m root d va' = Some u'" "link d (m u' (idx d va'))"
    "addr (m u' (idx d va')) = t" by (auto split: option.splits if_splits)
  from tree_ok_D(3) [OF ok reach_depth [OF ok u(1)] u(2) reach_depth [OF ok u'(1)] u'(2)] u u'
  have "u = u'" "idx d va = idx d va'" by simp_all
  with Suc.IH [of u] u u' Suc.prems(3) show ?case by (auto simp: less_Suc_eq)
qed

subsection \<open>Setting the user bit\<close>

lemma reach_same_links:
  assumes "\<And>t i. present (m' t i) = present (m t i) \<and> large (m' t i) = large (m t i) \<and> addr (m' t i) = addr (m t i)"
  shows "reach m' root d va = reach m root d va"
  by (induction d) (use assms in \<open>auto simp: link_def split: option.splits\<close>)

lemma tree_ok_same_links:
  assumes "tree_ok m root D"
    and "\<And>t i. present (m' t i) = present (m t i) \<and> large (m' t i) = large (m t i) \<and> addr (m' t i) = addr (m t i)"
  shows "tree_ok m' root D"
  using assms(1) by (simp add: tree_ok_def link_def assms(2)) blast

lemma large_frame_user:
  "(e OR PTE_USER) AND NOT (LARGE_PAGE_SIZE - 1) = e AND NOT (LARGE_PAGE_SIZE - 1)"
proof -
  have "LARGE_PAGE_SIZE - 1 = mask 21" by (simp add: mask_eq_exp_minus_1)
  then show ?thesis
    by (simp only:) (rule bit_eqI, auto simp: bit_and_iff bit_or_iff bit_not_iff bit_mask_iff bit_PTE
      simp del: bit_numeral_word_iff)
qed

lemma set_user_translate:
  fixes m :: "u64 \<Rightarrow> 9 word \<Rightarrow> u64" and t i
  defines "m' \<equiv> m(t := (m t)(i := m t i OR PTE_USER))"
  shows "translate m' root va = translate m root va" and "reach m' root d va = reach m root d va"
proof -
  have e: "m' u j = m u j \<or> m' u j = m u j OR PTE_USER" for u j by (simp add: m'_def)
  have same: "present (m' u j) = present (m u j) \<and> large (m' u j) = large (m u j) \<and>
      addr (m' u j) = addr (m u j)" for u j
    using e [of u j] by auto
  show r: "reach m' root d va = reach m root d va" for d
    using same by (rule reach_same_links)
  have "m' u j AND NOT (LARGE_PAGE_SIZE - 1) = m u j AND NOT (LARGE_PAGE_SIZE - 1)" for u j
    using e [of u j] large_frame_user by metis
  then show "translate m' root va = translate m root va"
    unfolding translate_def r Let_def by (simp add: same split: option.splits)
qed


subsection \<open>Adding a table\<close>

text \<open>\<open>add_table\<close>: an absent entry of a table of depth \<open>d\<close> is pointed at a fresh zeroed table.\<close>

definition add_table :: "u64 \<Rightarrow> 9 word \<Rightarrow> u64 \<Rightarrow> (u64 \<Rightarrow> 9 word \<Rightarrow> u64) \<Rightarrow> (u64 \<Rightarrow> 9 word \<Rightarrow> u64)" where
  "add_table tab i t m = (let m1 = m(t := (\<lambda>_. 0))
     in m1(tab := (m1 tab)(i := t OR PTE_PRESENT OR PTE_WRITE OR PTE_USER)))"

lemma add_table_entries:
  assumes "t \<noteq> tab"
  shows "add_table tab i t m u j = (if u = t then 0
    else if u = tab \<and> j = i then t OR PTE_PRESENT OR PTE_WRITE OR PTE_USER else m u j)"
  using assms by (auto simp: add_table_def Let_def)

lemma add_table_link:
  assumes "addr t = t" and "t \<noteq> tab" and "d < 3"
  shows "link d (add_table tab i t m tab i)" and "addr (add_table tab i t m tab i) = t"
  using new_entry [OF assms(1)] assms by (simp_all add: add_table_entries link_def)

lemma reach_add_table:
  assumes ok: "tree_ok m root D" and tab: "D tab = Some d" "d < 3" "\<not> present (m tab i)"
    and t: "D t = None" "addr t = t"
  shows "reach (add_table tab i t m) root k va =
    (if k = Suc d \<and> reach m root d va = Some tab \<and> idx d va = i then Some t else reach m root k va)"
proof (induction k)
  case 0
  then show ?case by simp
next
  case (Suc k)
  have ne: "t \<noteq> tab" using t tab by auto
  let ?m = "add_table tab i t m"
  show ?case
  proof (cases "k = Suc d \<and> reach m root d va = Some tab \<and> idx d va = i")
    case True
    then have "reach m root k va = None" using tab by (simp add: link_def)
    then show ?thesis using Suc.IH True ne by (simp add: add_table_entries)
  next
    case False
    then have same: "reach ?m root k va = reach m root k va" using Suc.IH by auto
    show ?thesis
    proof (cases "reach m root k va")
      case None
      then show ?thesis using same by auto
    next
      case (Some u)
      then have u: "D u = Some k" using reach_depth [OF ok] by simp
      then have "u \<noteq> t" using t by auto
      show ?thesis
      proof (cases "u = tab \<and> idx k va = i")
        case True
        then have "k = d" using u tab by simp
        with True Some same show ?thesis
          using tab add_table_link [OF t(2) ne tab(2), of i m] by simp
      next
        case False
        then have "?m u (idx k va) = m u (idx k va)"
          using \<open>u \<noteq> t\<close> ne by (auto simp: add_table_entries)
        with False Some same show ?thesis using u tab by auto
      qed
    qed
  qed
qed

lemma translate_add_table:
  assumes ok: "tree_ok m root D" and tab: "D tab = Some d" "d < 3" "\<not> present (m tab i)"
    and t: "D t = None" "addr t = t"
  shows "translate (add_table tab i t m) root va = translate m root va"
proof -
  let ?m = "add_table tab i t m"
  have ne: "t \<noteq> tab" using t tab by auto
  note r = reach_add_table [OF assms, where va = va]
  have fresh: "u \<noteq> t" if "reach m root k va = Some u" for k u
    using reach_depth [OF ok that] t by auto
  have same: "?m u (idx k va) = m u (idx k va)"
    if "reach m root k va = Some u" and "\<not> (k = d \<and> u = tab \<and> idx d va = i)" for k u
    using that fresh [OF that(1)] reach_depth [OF ok that(1)] tab ne by (auto simp: add_table_entries)
  have zero: "?m t j = 0" for j using ne by (simp add: add_table_entries)
  have none: "reach m root (Suc d) va = None" if "reach m root d va = Some tab" "idx d va = i"
    using that tab by (simp add: link_def)
  consider (two) "d = 2" "reach m root 2 va = Some tab" "PD_INDEX va = i"
    | (one) "d = 1" "reach m root 1 va = Some tab" "idx 1 va = i"
    | (other) "reach ?m root 3 va = reach m root 3 va" "reach ?m root 2 va = reach m root 2 va"
      "\<not> (d = 2 \<and> reach m root 2 va = Some tab \<and> PD_INDEX va = i)"
    using r [of 2] r [of 3] by (auto simp: numeral_2_eq_2 numeral_3_eq_3 idx_def split: if_splits)
  then show ?thesis
  proof cases
    case two
    then have "reach ?m root 3 va = Some t" "reach m root 3 va = None"
      using r [of 3] none by (simp_all add: idx_def)
    then show ?thesis using two tab by (simp add: translate_def zero)
  next
    case one
    then have "reach ?m root 2 va = Some t" "reach m root 2 va = None" "reach ?m root 3 va = None"
      "reach m root 3 va = None"
      using r [of 2] r [of 3] none
      by (simp_all add: numeral_3_eq_3 numeral_2_eq_2)
    then show ?thesis by (simp add: translate_def zero)
  next
    case other
    have "?m u (PT_INDEX va) = m u (PT_INDEX va)" if "reach m root 3 va = Some u" for u
      using same [OF that] tab by (simp add: idx_def)
    moreover have "?m u (PD_INDEX va) = m u (PD_INDEX va)" if "reach m root 2 va = Some u" for u
      using same [OF that] other(3) that by (simp add: idx_def)
    ultimately show ?thesis by (rule translate_cong [OF other(1,2)])
  qed
qed

lemma large_mapped_add_table:
  assumes ok: "tree_ok m root D" and tab: "D tab = Some d" "d < 3" "\<not> present (m tab i)"
    and t: "D t = None" "addr t = t" and nl: "\<not> (d = 2 \<and> large (m tab i))"
  shows "large_mapped (add_table tab i t m) root va = large_mapped m root va"
proof -
  have ne: "t \<noteq> tab" using t tab by auto
  note r = reach_add_table [OF ok tab t, of 2 va]
  show ?thesis
  proof (cases "2 = Suc d \<and> reach m root d va = Some tab \<and> idx d va = i")
    case True
    then have none: "reach m root 2 va = None" using tab(3) by (auto simp: link_def numeral_2_eq_2)
    have "reach (add_table tab i t m) root 2 va = Some t" using r unfolding if_P [OF True] .
    then show ?thesis
      unfolding large_mapped_def none by (simp add: add_table_entries [OF ne] large_def)
  next
    case False
    then have "reach (add_table tab i t m) root 2 va = reach m root 2 va" using r by (simp only: if_False)
    moreover have "large (add_table tab i t m u (PD_INDEX va)) = large (m u (PD_INDEX va))"
      if "reach m root 2 va = Some u" for u
      using reach_depth [OF ok that] t tab ne nl new_entry(2) [OF t(2)]
      by (auto simp: add_table_entries)
    ultimately show ?thesis by (auto simp: large_mapped_def)
  qed
qed

lemma tree_ok_add_table:
  assumes ok: "tree_ok m root D" and tab: "D tab = Some d" "d < 3" "\<not> present (m tab i)"
    and t: "D t = None" "addr t = t"
  shows "tree_ok (add_table tab i t m) root (D(t \<mapsto> Suc d))"
proof -
  let ?m = "add_table tab i t m" and ?D = "D(t \<mapsto> Suc d)"
  have ne: "t \<noteq> tab" using t tab by auto
  have links: "u \<noteq> t \<and> D u = Some k \<and>
      (u = tab \<and> j = i \<and> k = d \<and> addr (?m u j) = t \<or>
       link k (m u j) \<and> ?m u j = m u j \<and> D (addr (m u j)) = Some (Suc k))"
    if "?D u = Some k" "link k (?m u j)" for u j k
    using that ne tab tree_ok_D(2) [OF ok, of u k j] add_table_link(2) [OF t(2) ne tab(2)]
    by (auto simp: add_table_entries split: if_splits)
  have "?D root = Some 0" using tree_ok_D(1) [OF ok] t by auto
  moreover have "?D (addr (?m u j)) = Some (Suc k)" if "?D u = Some k" "link k (?m u j)" for u j k
    using links [OF that] t by auto
  moreover have "u = u' \<and> j = j'"
    if "?D u = Some k" "link k (?m u j)" "?D u' = Some k'" "link k' (?m u' j')"
      "addr (?m u j) = addr (?m u' j')" for u j k u' j' k'
    using links [OF that(1,2)] links [OF that(3,4)] that(5) t tree_ok_D(3) [OF ok, of u k j u' k' j']
    by auto
  ultimately show ?thesis unfolding tree_ok_def by blast
qed

subsection \<open>\<open>alloc_zeroed_table\<close> and \<open>next_table\<close>\<close>

lemma alloc_zeroed_table_spec:
  assumes "frames_ok (pmm s) D"
  shows "alloc_zeroed_table s = None \<longleftrightarrow> free_frames (pmm s) = {}"
    and "alloc_zeroed_table s = Some (t, s') \<Longrightarrow> D t = None \<and> addr t = t \<and>
      frames_ok (pmm s') (D(t \<mapsto> d)) \<and> ptm s' = (ptm s)(t := (\<lambda>_. 0)) \<and>
      s' = s\<lparr>pmm := pmm s', ptm := ptm s'\<rparr> \<and> total_pages (pmm s') = total_pages (pmm s) \<and>
      (\<forall>g. bit_test (pmm s) g \<longrightarrow> bit_test (pmm s') g) \<and>
      card (free_frames (pmm s)) = Suc (card (free_frames (pmm s')))"
proof -
  have inv: "pmm_inv (pmm s)" using assms by (simp add: frames_ok_def)
  from inv show "alloc_zeroed_table s = None \<longleftrightarrow> free_frames (pmm s) = {}"
  proof (cases rule: MmAllocatePage_cases)
    case none
    then show ?thesis by (simp add: alloc_zeroed_table_def)
  next
    case (some f p)
    then show ?thesis
      using frame_addr(2) [OF free_frame_lt [OF inv some(2)]] by (auto simp: alloc_zeroed_table_def)
  qed
  assume al: "alloc_zeroed_table s = Some (t, s')"
  from inv show "D t = None \<and> addr t = t \<and>
      frames_ok (pmm s') (D(t \<mapsto> d)) \<and> ptm s' = (ptm s)(t := (\<lambda>_. 0)) \<and>
      s' = s\<lparr>pmm := pmm s', ptm := ptm s'\<rparr> \<and> total_pages (pmm s') = total_pages (pmm s) \<and>
      (\<forall>g. bit_test (pmm s) g \<longrightarrow> bit_test (pmm s') g) \<and>
      card (free_frames (pmm s)) = Suc (card (free_frames (pmm s')))"
  proof (cases rule: MmAllocatePage_cases)
    case none
    then show ?thesis using al by (simp add: alloc_zeroed_table_def)
  next
    case (some f p)
    have t: "t = push_bit 12 f" and s': "s' = s\<lparr>pmm := p, ptm := (ptm s)(t := (\<lambda>_. 0))\<rparr>"
      using al some(1) by (auto simp: alloc_zeroed_table_def split: if_splits)
    have f: "f < total_pages (pmm s)" "\<not> bit_test (pmm s) f"
      using some(2) by (auto simp: free_frames_def)
    have "f < 2 ^ 40" using f(1) assms by (auto simp: frames_ok_def)
    then have a: "addr t = t" using addr_frame t by simp
    have dr: "drop_bit 12 t = f" using frame_addr(1) [OF free_frame_lt [OF inv some(2)]] t by simp
    have "D t = None" using assms f(2) dr by (auto simp: frames_ok_def)
    moreover have "card (free_frames (pmm s)) = Suc (card (free_frames p))"
      unfolding some(3) using card.remove [OF _ some(2)] by simp
    moreover have "frames_ok p (D(t \<mapsto> d))"
      using assms a some(5,6) by (simp add: frames_ok_def some(4) dr)
    ultimately show ?thesis
      using a s' some(4,6) by simp
  qed
qed

lemma next_table_cases:
  assumes ok: "vmm_ok s D" and tab: "D tab = Some d" "d < 3" "\<not> (d = 2 \<and> large (ptm s tab i))"
  obtains (none) "next_table tab i s = None" "free_frames (pmm s) = {}" "\<not> present (ptm s tab i)"
  | (some) t s' D' where "next_table tab i s = Some (t, s')" "vmm_ok s' D'" "D \<subseteq>\<^sub>m D'" "D' t = Some (Suc d)"
      "link d (ptm s' tab i)" "addr (ptm s' tab i) = t"
      "\<And>va. translate (ptm s') (g_kernel_pml4_phys s) va = translate (ptm s) (g_kernel_pml4_phys s) va"
      "\<And>k va u. reach (ptm s) (g_kernel_pml4_phys s) k va = Some u \<Longrightarrow>
         reach (ptm s') (g_kernel_pml4_phys s) k va = Some u"
      "s' = s\<lparr>pmm := pmm s', ptm := ptm s'\<rparr>"
      "card (free_frames (pmm s)) \<le> Suc (card (free_frames (pmm s')))"
      "card (free_frames (pmm s')) \<le> card (free_frames (pmm s))"
      "\<And>va. large_mapped (ptm s') (g_kernel_pml4_phys s) va = large_mapped (ptm s) (g_kernel_pml4_phys s) va"
      "total_pages (pmm s') = total_pages (pmm s)"
      "\<And>k va. k \<noteq> Suc d \<Longrightarrow> reach (ptm s') (g_kernel_pml4_phys s) k va = reach (ptm s) (g_kernel_pml4_phys s) k va"
proof (cases "present (ptm s tab i)")
  case True
  let ?root = "g_kernel_pml4_phys s"
  let ?s = "set_entry tab i (ptm s tab i OR PTE_USER) s"
  have m: "ptm ?s = (ptm s)(tab := (ptm s tab)(i := ptm s tab i OR PTE_USER))"
    by (simp add: set_entry_def)
  have nt: "next_table tab i s = Some (addr (ptm s tab i), ?s)"
    using True by (simp add: next_table_def Let_def m addr_def [symmetric])
  have same: "present (ptm ?s u j) = present (ptm s u j) \<and> large (ptm ?s u j) = large (ptm s u j) \<and>
      addr (ptm ?s u j) = addr (ptm s u j)" for u j
    by (simp add: m)
  have lk: "link d (ptm s tab i)" using True tab by (simp add: link_def)
  have tr: "tree_ok (ptm s) ?root D" using ok by (simp add: vmm_ok_def)
  have "tree_ok (ptm ?s) ?root D"
    by (rule tree_ok_same_links [OF tr same])
  moreover have "g_kernel_pml4_phys ?s = ?root" "pmm ?s = pmm s" by (simp_all add: set_entry_def)
  ultimately have ok': "vmm_ok ?s D" using ok by (simp add: vmm_ok_def)
  show thesis
  proof (rule some [OF nt ok'])
    show "D \<subseteq>\<^sub>m D" by simp
    show "D (addr (ptm s tab i)) = Some (Suc d)" using tree_ok_D(2) [OF tr tab(1) lk] .
    show "link d (ptm ?s tab i)" using lk by (simp add: link_def same)
    show "translate (ptm ?s) ?root va = translate (ptm s) ?root va" for va
      unfolding m by (rule set_user_translate)
    show "reach (ptm ?s) ?root k va = Some u" if "reach (ptm s) ?root k va = Some u" for k va u
      using that set_user_translate(2) [of "ptm s" tab i] m by simp
    show "reach (ptm ?s) ?root k va = reach (ptm s) ?root k va" for k va
      using same by (rule reach_same_links)
    show "large_mapped (ptm ?s) ?root va = large_mapped (ptm s) ?root va" for va
      unfolding large_mapped_def reach_same_links [OF same] by (simp add: same)
  qed (simp_all add: same, simp_all add: set_entry_def)
next
  case False
  let ?root = "g_kernel_pml4_phys s"
  have fr: "frames_ok (pmm s) D" and tr: "tree_ok (ptm s) ?root D" using ok by (simp_all add: vmm_ok_def)
  show thesis
  proof (cases "alloc_zeroed_table s")
    case None
    then show thesis
      using none False alloc_zeroed_table_spec(1) [OF fr] by (simp add: next_table_def)
  next
    case (Some r)
    obtain t s1 where "r = (t, s1)" by (cases r)
    with Some have al: "alloc_zeroed_table s = Some (t, s1)" by simp
    note sp = alloc_zeroed_table_spec(2) [OF fr al, where d = "Suc d"]
    from sp have D: "D t = None" and a: "addr t = t" by simp_all
    have m1: "ptm s1 = (ptm s)(t := (\<lambda>_. 0))" and s1: "s1 = s\<lparr>pmm := pmm s1, ptm := ptm s1\<rparr>"
      using sp by blast+
    have ne: "t \<noteq> tab" using D tab by auto
    let ?s = "set_entry tab i (t OR PTE_PRESENT OR PTE_WRITE OR PTE_USER) s1"
    have nt: "next_table tab i s = Some (t, ?s)"
      using False al by (simp add: next_table_def)
    have m: "ptm ?s = add_table tab i t (ptm s)"
      using m1 by (simp add: set_entry_def add_table_def Let_def)
    have root: "g_kernel_pml4_phys ?s = ?root" by (subst s1) (simp add: set_entry_def)
    have p: "pmm ?s = pmm s1" by (simp add: set_entry_def)
    have "vmm_ok ?s (D(t \<mapsto> Suc d))"
      unfolding vmm_ok_def m root p
      using tree_ok_add_table [OF tr tab(1,2) False D a] sp by blast
    then show thesis
    proof (rule some [OF nt])
      show "D \<subseteq>\<^sub>m D(t \<mapsto> Suc d)" using D by (auto simp: map_le_def)
      show "link d (ptm ?s tab i)" "addr (ptm ?s tab i) = t"
        unfolding m by (rule add_table_link [OF a ne tab(2)])+
      show "translate (ptm ?s) ?root va = translate (ptm s) ?root va" for va
        unfolding m by (rule translate_add_table [OF tr tab(1,2) False D a])
      show "reach (ptm ?s) ?root k va = Some u" if "reach (ptm s) ?root k va = Some u" for k va u
      proof -
        have "\<not> (k = Suc d \<and> reach (ptm s) ?root d va = Some tab \<and> idx d va = i)"
          using that False tab by (auto simp: link_def)
        then show ?thesis
          unfolding m reach_add_table [OF tr tab(1,2) False D a] using that by auto
      qed
      show "?s = s\<lparr>pmm := pmm ?s, ptm := ptm ?s\<rparr>" by (subst (1) s1) (simp add: set_entry_def)
      show "k \<noteq> Suc d \<Longrightarrow> reach (ptm ?s) ?root k va = reach (ptm s) ?root k va" for k va
        unfolding m reach_add_table [OF tr tab(1,2) False D a] by simp
      show "large_mapped (ptm ?s) ?root va = large_mapped (ptm s) ?root va" for va
        unfolding m by (rule large_mapped_add_table [OF tr tab(1,2) False D a tab(3)])
    qed (use sp p in simp_all)
  qed
qed


subsection \<open>Writing a leaf\<close>

lemma leaf_write:
  fixes m :: "u64 \<Rightarrow> 9 word \<Rightarrow> u64" and e :: u64 and t :: u64 and i :: "9 word"
  assumes ok: "tree_ok m root D" and t: "D t = Some d" "\<not> link d (m t i)" "\<not> link d e"
  defines "m' \<equiv> m(t := (m t)(i := e))"
  shows "reach m' root k va = reach m root k va" and "tree_ok m' root D"
proof -
  have same: "link k (m' u j) = link k (m u j) \<and> (link k (m u j) \<longrightarrow> m' u j = m u j)"
    if "D u = Some k" for u j k
    using that t by (auto simp: m'_def)
  show "reach m' root k va = reach m root k va"
  proof (induction k)
    case (Suc k)
    show ?case
    proof (cases "reach m root k va")
      case None
      then show ?thesis using Suc by simp
    next
      case (Some u)
      then show ?thesis using Suc same [OF reach_depth [OF ok Some]] by simp
    qed
  qed simp
  have "link k (m' u j) \<Longrightarrow> D u = Some k \<Longrightarrow> link k (m u j) \<and> m' u j = m u j" for u j k
    using same by blast
  then show "tree_ok m' root D"
    using ok unfolding tree_ok_def by (metis (no_types))
qed

lemma translate_small_leaf:
  assumes ok: "tree_ok m root D" and t: "D t = Some 3"
  shows "translate (m(t := (m t)(i := e))) root va =
    (if reach m root 3 va = Some t \<and> PT_INDEX va = i
     then (if present e then addr e OR (va AND PAGE_MASK) else MM_INVALID_PHYS)
     else translate m root va)"
proof -
  let ?m = "m(t := (m t)(i := e))"
  have r: "reach ?m root k va = reach m root k va" for k
    by (rule leaf_write(1) [OF ok t]) (simp_all add: link_def)
  have "?m u (PD_INDEX va) = m u (PD_INDEX va)" if "reach m root 2 va = Some u" for u
    using reach_depth [OF ok that] t by auto
  then show ?thesis
    unfolding translate_def r by (auto simp: Let_def split: option.splits)
qed

lemma translate_large_leaf:
  assumes ok: "tree_ok m root D" and t: "D t = Some 2" "\<not> link 2 (m t i)" and e: "present e" "large e"
  shows "translate (m(t := (m t)(i := e))) root va =
    (if reach m root 2 va = Some t \<and> PD_INDEX va = i
     then (e AND NOT (LARGE_PAGE_SIZE - 1)) OR (va AND (LARGE_PAGE_SIZE - 1))
     else translate m root va)"
proof -
  let ?m = "m(t := (m t)(i := e))"
  have r: "reach ?m root k va = reach m root k va" for k
    by (rule leaf_write(1) [OF ok t]) (simp add: link_def e)
  have 1: "?m u (PT_INDEX va) = m u (PT_INDEX va)" if "reach m root 3 va = Some u" for u
    using reach_depth [OF ok that] t by auto
  have 2: "reach m root 3 va = None" if "reach m root 2 va = Some t" "PD_INDEX va = i"
    using that t(2) by (simp add: numeral_3_eq_3 numeral_2_eq_2 idx_def)
  show ?thesis
  proof (cases "reach m root 2 va = Some t \<and> PD_INDEX va = i")
    case True
    then show ?thesis unfolding translate_def r using 2 e by simp
  next
    case False
    then have "?m u (PD_INDEX va) = m u (PD_INDEX va)" if "reach m root 2 va = Some u" for u
      using that by auto
    then have "translate ?m root va = translate m root va" by (intro translate_cong [OF r r 1])
    then show ?thesis using False by (simp only: if_False)
  qed
qed

subsection \<open>Pages\<close>

text \<open>The page number the hardware uses: bits 12 to 47 of the address; likewise for 2 MiB pages.\<close>

definition page_of :: "u64 \<Rightarrow> u64" where "page_of va = take_bit 36 (drop_bit 12 va)"
definition large_page_of :: "u64 \<Rightarrow> u64" where "large_page_of va = take_bit 27 (drop_bit 21 va)"

lemma index_field_eq:
  "(ucast (drop_bit k va) :: 9 word) = ucast (drop_bit k va') \<longleftrightarrow> (\<forall>n < 9. bit va (k + n) = bit va' (k + n))"
  for va va' :: u64
  unfolding bit_eq_iff [of "ucast (drop_bit k va)"] by (auto simp: bit_simps)

lemma index_bits:
  assumes "d < 4"
  shows "idx d va = idx d va' \<longleftrightarrow>
    (\<forall>n < 9. bit va (12 + 9 * (3 - d) + n) = bit va' (12 + 9 * (3 - d) + n))"
proof -
  consider "d = 0" | "d = 1" | "d = 2" | "d = 3" using assms by linarith
  then show ?thesis
    by cases (simp_all add: idx_def PML4_INDEX_def PDPT_INDEX_def PD_INDEX_def PT_INDEX_def index_field_eq)
qed

lemma bits_of_groups:
  fixes P :: "nat \<Rightarrow> bool"
  shows "(\<forall>n < 9 * g. P n) \<longleftrightarrow> (\<forall>k < g. \<forall>n < 9. P (9 * k + n))"
proof
  assume *: "\<forall>k < g. \<forall>n < 9. P (9 * k + n)"
  show "\<forall>n < 9 * g. P n"
  proof (intro allI impI)
    fix n assume "n < 9 * g"
    then have "n div 9 < g" by (simp add: less_mult_imp_div_less mult.commute)
    then show "P n" using * [rule_format, of "n div 9" "n mod 9"] by simp
  qed
next
  assume "\<forall>n < 9 * g. P n"
  moreover have "9 * k + n < 9 * g" if "k < g" "n < 9" for k n using that by linarith
  ultimately show "\<forall>k < g. \<forall>n < 9. P (9 * k + n)" by blast
qed

lemma field_eq:
  assumes "j \<le> 64"
  shows "take_bit j (drop_bit k va) = take_bit j (drop_bit k (va' :: u64)) \<longleftrightarrow>
    (\<forall>n < j. bit va (k + n) = bit va' (k + n))"
proof -
  have "n < 64" if "n < j" for n using that assms by simp
  then show ?thesis unfolding bit_eq_iff [of "take_bit j (drop_bit k va)"] by (simp add: bit_simps) blast
qed

lemma all_below:
  fixes P :: "nat \<Rightarrow> bool"
  shows "(\<forall>d < 3. P d) \<longleftrightarrow> P 0 \<and> P 1 \<and> P 2" "(\<forall>d < 4. P d) \<longleftrightarrow> P 0 \<and> P 1 \<and> P 2 \<and> P 3"
  by (auto simp: eval_nat_numeral All_less_Suc)

lemma page_of_iff: "page_of va = page_of va' \<longleftrightarrow> (\<forall>d < 4. idx d va = idx d va')"
proof -
  have "page_of va = page_of va' \<longleftrightarrow> (\<forall>n < 9 * 4. bit va (12 + n) = bit va' (12 + n))"
    using field_eq [of 36 12 va va'] by (simp add: page_of_def)
  also have "\<dots> \<longleftrightarrow> (\<forall>k < 4. \<forall>n < 9. bit va (12 + 9 * k + n) = bit va' (12 + 9 * k + n))"
    unfolding bits_of_groups by (simp add: add.assoc)
  also have "\<dots> \<longleftrightarrow> (\<forall>d < 4. idx (3 - d) va = idx (3 - d) va')"
    by (simp add: index_bits)
  also have "\<dots> \<longleftrightarrow> (\<forall>d < 4. idx d va = idx d va')"
    by (auto simp: all_below)
  finally show ?thesis .
qed

lemma large_page_of_iff: "large_page_of va = large_page_of va' \<longleftrightarrow> (\<forall>d < 3. idx d va = idx d va')"
proof -
  have "large_page_of va = large_page_of va' \<longleftrightarrow> (\<forall>n < 9 * 3. bit va (21 + n) = bit va' (21 + n))"
    using field_eq [of 27 21 va va'] by (simp add: large_page_of_def)
  also have "\<dots> \<longleftrightarrow> (\<forall>k < 3. \<forall>n < 9. bit va (21 + 9 * k + n) = bit va' (21 + 9 * k + n))"
    unfolding bits_of_groups by (simp add: add.assoc)
  also have "\<dots> \<longleftrightarrow> (\<forall>d < 3. idx (2 - d) va = idx (2 - d) va')"
    by (auto simp: index_bits all_below)
  also have "\<dots> \<longleftrightarrow> (\<forall>d < 3. idx d va = idx d va')"
    by (auto simp: all_below)
  finally show ?thesis .
qed

section \<open>Mapping and unmapping\<close>

text \<open>The two \<open>next_table\<close> calls that \<^verbatim>\<open>MmMapPage\<close> and \<^verbatim>\<open>map_large\<close> share.\<close>

definition directory :: "u64 \<Rightarrow> vmm_state \<Rightarrow> (u64 \<times> vmm_state) option" where
  "directory va s =
     do {
       (pdpt_phys, s1) \<leftarrow> next_table (g_kernel_pml4_phys s) (PML4_INDEX va) s;
       next_table pdpt_phys (PDPT_INDEX va) s1
     }"

lemma MmMapPage_directory:
  "MmMapPage virt phys flags s = do {
       (pd_phys, s2) \<leftarrow> directory virt s;
       if large (ptm s2 pd_phys (PD_INDEX virt)) then Some (False, s2)
       else do {
         (pt_phys, s3) \<leftarrow> next_table pd_phys (PD_INDEX virt) s2;
         Some (True, set_entry pt_phys (PT_INDEX virt)
                       ((phys AND PTE_ADDR_MASK) OR flags OR PTE_PRESENT) s3)
       }
     }"
  by (simp add: MmMapPage_def directory_def bind_assoc case_prod_unfold)

lemma map_large_directory:
  "map_large (g_kernel_pml4_phys s) va pa flags s = do {
       (pd_phys, s2) \<leftarrow> directory va s;
       Some (set_entry pd_phys (PD_INDEX va)
               ((pa AND NOT (LARGE_PAGE_SIZE - 1)) OR flags OR PTE_LARGE) s2)
     }"
  by (simp add: map_large_def directory_def bind_assoc case_prod_unfold)

lemma reach_extend:
  assumes "reach m root d va = Some t" and "link d (m t (idx d va))"
  shows "reach m root (Suc d) va = Some (addr (m t (idx d va)))"
  using assms by simp

lemma directory_cases:
  assumes ok: "vmm_ok s D"
  obtains (none) "directory va s = None" "card (free_frames (pmm s)) < 2"
      "reach (ptm s) (g_kernel_pml4_phys s) 2 va = None"
  | (some) t s' D' where "directory va s = Some (t, s')" "vmm_ok s' D'" "D \<subseteq>\<^sub>m D'" "D' t = Some 2"
      "reach (ptm s') (g_kernel_pml4_phys s) 2 va = Some t"
      "\<And>va. translate (ptm s') (g_kernel_pml4_phys s) va = translate (ptm s) (g_kernel_pml4_phys s) va"
      "s' = s\<lparr>pmm := pmm s', ptm := ptm s'\<rparr>"
      "card (free_frames (pmm s)) \<le> 2 + card (free_frames (pmm s'))"
      "card (free_frames (pmm s')) \<le> card (free_frames (pmm s))"
      "\<And>va. large_mapped (ptm s') (g_kernel_pml4_phys s) va = large_mapped (ptm s) (g_kernel_pml4_phys s) va"
      "total_pages (pmm s') = total_pages (pmm s)"
      "\<And>va. reach (ptm s') (g_kernel_pml4_phys s) 3 va = reach (ptm s) (g_kernel_pml4_phys s) 3 va"
proof -
  let ?r = "g_kernel_pml4_phys s"
  have root: "D ?r = Some 0" using ok tree_ok_D(1) unfolding vmm_ok_def by blast
  show thesis
  proof (rule next_table_cases [OF ok root, of "PML4_INDEX va"], goal_cases)
    case 3
    then have "reach (ptm s) ?r 2 va = None" by (simp add: numeral_2_eq_2 link_def idx_def)
    with 3 show thesis using none by (simp add: directory_def)
  next
    case (4 t1 s1 D1)
    note a = 4
    have r1: "g_kernel_pml4_phys s1 = ?r" by (subst a(9)) simp
    have r0: "reach (ptm s1) ?r 1 va = Some t1"
      using reach_extend [of "ptm s1" ?r 0 va ?r] a(5,6) by (simp add: idx_def)
    from a(4) have d1: "D1 t1 = Some 1" by simp
    show thesis
    proof (rule next_table_cases [OF a(2) d1, of "PDPT_INDEX va"], goal_cases)
      case 3
      then have "card (free_frames (pmm s)) < 2" using a(10) by simp
      moreover have "reach (ptm s1) ?r 2 va = None"
        using 3(3) r0 by (simp add: numeral_2_eq_2 link_def idx_def)
      then have "reach (ptm s) ?r 2 va = None" using a(8) [of 2 va] by (cases "reach (ptm s) ?r 2 va") auto
      ultimately show thesis using 3 a(1) none by (simp add: directory_def)
    next
      case (4 t2 s2 D2)
      note b = 4 [unfolded r1]
      show thesis
      proof (rule some [of t2 s2 D2])
        show "directory va s = Some (t2, s2)" using a(1) b(1) by (simp add: directory_def)
        show "D \<subseteq>\<^sub>m D2" using a(3) b(3) by (rule map_le_trans)
        show "D2 t2 = Some 2" using b(4) by simp
        show "reach (ptm s2) ?r 2 va = Some t2"
          using reach_extend [of "ptm s2" ?r 1 va t1] b(5,6) b(8) [OF r0] by (simp add: idx_def numeral_2_eq_2)
        show "s2 = s\<lparr>pmm := pmm s2, ptm := ptm s2\<rparr>" by (subst b(9), subst a(9)) simp
        show "card (free_frames (pmm s)) \<le> 2 + card (free_frames (pmm s2))" using a(10) b(10) by simp
        show "card (free_frames (pmm s2)) \<le> card (free_frames (pmm s))" using a(11) b(11) by simp
      qed (simp_all add: a(7,12,13) b(2,7,12,13), simp add: b(14) a(14))
    qed simp_all
  qed simp_all
qed

lemma leaf_entry:
  assumes "flags AND PTE_ADDR_MASK = 0"
  shows "present ((phys AND PTE_ADDR_MASK) OR flags OR PTE_PRESENT)"
    and "addr ((phys AND PTE_ADDR_MASK) OR flags OR PTE_PRESENT) = phys AND PTE_ADDR_MASK"
proof -
  show "present ((phys AND PTE_ADDR_MASK) OR flags OR PTE_PRESENT)"
    unfolding present_bit bit_or_iff bit_PTE by simp
  have f: "\<not> bit (addr flags) n" for n using assms by (simp add: addr_def)
  have p: "phys AND PTE_ADDR_MASK = addr phys" by (simp add: addr_def)
  show "addr ((phys AND PTE_ADDR_MASK) OR flags OR PTE_PRESENT) = phys AND PTE_ADDR_MASK"
    unfolding p
  proof (rule bit_eqI)
    fix n
    show "bit (addr (addr phys OR flags OR PTE_PRESENT)) n = bit (addr phys) n"
      using f [of n] unfolding bit_addr bit_or_iff bit_PTE by auto
  qed
qed

lemma set_entry_fields [simp]:
  "pmm (set_entry t i e s) = pmm s" "g_kernel_pml4_phys (set_entry t i e s) = g_kernel_pml4_phys s"
  "ptm (set_entry t i e s) = (ptm s)(t := (ptm s t)(i := e))"
  "MmDirectMapBase (set_entry t i e s) = MmDirectMapBase s" "umem (set_entry t i e s) = umem s"
  by (simp_all add: set_entry_def)

lemma vmm_ok_leaf:
  assumes "vmm_ok s D" "D t = Some d" "\<not> link d (ptm s t i)" "\<not> link d e"
  shows "vmm_ok (set_entry t i e s) D"
  using assms leaf_write(2) [of "ptm s" "g_kernel_pml4_phys s" D t d i e] by (simp add: vmm_ok_def)

lemma reach_page:
  assumes "tree_ok m root D" and "reach m root 3 va = Some t"
  shows "reach m root 3 va' = Some t \<and> PT_INDEX va' = PT_INDEX va \<longleftrightarrow> page_of va' = page_of va"
proof
  assume "reach m root 3 va' = Some t \<and> PT_INDEX va' = PT_INDEX va"
  then show "page_of va' = page_of va"
    using reach_inj [OF assms(1) _ assms(2), of va' 0] reach_inj [OF assms(1) _ assms(2), of va' 1]
      reach_inj [OF assms(1) _ assms(2), of va' 2]
    by (simp add: page_of_iff all_below idx_def)
next
  assume "page_of va' = page_of va"
  then have "\<forall>d < 4. idx d va' = idx d va" by (simp add: page_of_iff)
  moreover from this have "k \<le> 3 \<Longrightarrow> reach m root k va' = reach m root k va" for k
  proof (induction k)
    case (Suc k)
    then have "idx k va' = idx k va" "reach m root k va' = reach m root k va" by simp_all
    then show ?case by (simp only: reach.simps)
  qed simp
  ultimately show "reach m root 3 va' = Some t \<and> PT_INDEX va' = PT_INDEX va"
    using assms(2) by (auto simp: all_below idx_def)
qed

lemma MmMapPage_spec:
  assumes ok: "vmm_ok s D" and fl: "flags AND PTE_ADDR_MASK = 0"
  obtains (none) "MmMapPage va pa flags s = None" "card (free_frames (pmm s)) < 3"
      "MmGetPhysicalAddress s va = MM_INVALID_PHYS"
  | (some) b s' D' where "MmMapPage va pa flags s = Some (b, s')" "vmm_ok s' D'" "D \<subseteq>\<^sub>m D'"
      "b \<longleftrightarrow> \<not> large_mapped (ptm s) (g_kernel_pml4_phys s) va"
      "s' = s\<lparr>pmm := pmm s', ptm := ptm s'\<rparr>"
      "\<And>va'. MmGetPhysicalAddress s' va' = (if b \<and> page_of va' = page_of va
         then (pa AND PTE_ADDR_MASK) OR (va' AND PAGE_MASK) else MmGetPhysicalAddress s va')"
      "card (free_frames (pmm s)) \<le> 3 + card (free_frames (pmm s'))"
      "card (free_frames (pmm s')) \<le> card (free_frames (pmm s))"
      "total_pages (pmm s') = total_pages (pmm s)"
      "\<And>va'. large_mapped (ptm s') (g_kernel_pml4_phys s') va' = large_mapped (ptm s) (g_kernel_pml4_phys s) va'"
proof -
  let ?r = "g_kernel_pml4_phys s"
  show thesis
  proof (rule directory_cases [OF ok, of va], goal_cases)
    case 1
    then have "MmGetPhysicalAddress s va = MM_INVALID_PHYS"
      by (simp add: MmGetPhysicalAddress_translate translate_def numeral_3_eq_3 numeral_2_eq_2)
    with 1 show thesis using none by (simp add: MmMapPage_directory)
  next
    case (2 t s2 D2)
    note a = 2
    have r2: "g_kernel_pml4_phys s2 = ?r" by (subst a(7)) simp
    have lg: "large (ptm s2 t (PD_INDEX va)) \<longleftrightarrow> large_mapped (ptm s) ?r va"
      using a(5) a(10) [of va] by (simp add: large_mapped_def)
    show thesis
    proof (cases "large (ptm s2 t (PD_INDEX va))")
      case True
      then have "MmMapPage va pa flags s = Some (False, s2)" using a(1) by (simp add: MmMapPage_directory)
      then show thesis
      proof (rule some [OF _ a(2) a(3) _ a(7)])
        show "False \<longleftrightarrow> \<not> large_mapped (ptm s) ?r va" using True lg by simp
      qed (use a(8,9,11) in \<open>simp_all add: MmGetPhysicalAddress_translate r2 a(6,10)\<close>)
    next
      case False
      show thesis
      proof (rule next_table_cases [OF a(2) a(4), of "PD_INDEX va"], goal_cases)
        case 3
        then have "MmMapPage va pa flags s = None" "card (free_frames (pmm s)) < 3"
          using a(1) a(8) False by (simp_all add: MmMapPage_directory)
        moreover have "reach (ptm s2) ?r 3 va = None"
          using a(5) 3(3) by (simp add: numeral_3_eq_3 numeral_2_eq_2 link_def idx_def)
        then have "MmGetPhysicalAddress s va = MM_INVALID_PHYS"
          unfolding MmGetPhysicalAddress_translate a(6) [symmetric]
          using a(5) 3(3) by (simp add: translate_def)
        ultimately show thesis by (rule none)
      next
        case (4 u s3 D3)
        note b = 4 [unfolded r2]
        let ?e = "(pa AND PTE_ADDR_MASK) OR flags OR PTE_PRESENT"
        let ?s = "set_entry u (PT_INDEX va) ?e s3"
        have r3: "g_kernel_pml4_phys s3 = ?r" by (subst b(9)) (simp add: r2)
        have ru: "reach (ptm s3) ?r 3 va = Some u"
          using reach_extend [of "ptm s3" ?r 2 va t] b(5,6) b(8) [OF a(5)]
          by (simp add: idx_def numeral_3_eq_3 numeral_2_eq_2)
        have du: "D3 u = Some 3" using b(4) by simp
        have tr: "tree_ok (ptm s3) ?r D3" using b(2) r3 by (simp add: vmm_ok_def)
        have eq: "MmMapPage va pa flags s = Some (True, ?s)"
          using a(1) b(1) False by (simp add: MmMapPage_directory)
        have ok': "vmm_ok ?s D3" by (rule vmm_ok_leaf [OF b(2) du]) (simp_all add: link_def)
        have tl: "MmGetPhysicalAddress ?s va' = (if True \<and> page_of va' = page_of va
           then (pa AND PTE_ADDR_MASK) OR (va' AND PAGE_MASK) else MmGetPhysicalAddress s va')" for va'
          using leaf_entry [OF fl, of pa] reach_page [OF tr ru, of va']
          by (simp add: MmGetPhysicalAddress_translate r3 translate_small_leaf [OF tr du] b(7) a(6))
        show thesis
        proof (rule some [OF eq ok' _ _ _ tl])
          show "D \<subseteq>\<^sub>m D3" using a(3) b(3) by (rule map_le_trans)
          show "True \<longleftrightarrow> \<not> large_mapped (ptm s) ?r va" using False lg by simp
          have "s3 = s\<lparr>pmm := pmm s3, ptm := ptm s3\<rparr>" by (subst b(9), subst a(7)) simp
          then obtain p m where "s3 = s\<lparr>pmm := p, ptm := m\<rparr>" by blast
          then show "?s = s\<lparr>pmm := pmm ?s, ptm := ptm ?s\<rparr>" by (simp add: set_entry_def)
          show "card (free_frames (pmm s)) \<le> 3 + card (free_frames (pmm ?s))" using a(8) b(10) by simp
          show "card (free_frames (pmm ?s)) \<le> card (free_frames (pmm s))" using a(9) b(11) by simp
          show "total_pages (pmm ?s) = total_pages (pmm s)" using a(11) b(13) by simp
          have r: "reach (ptm ?s) ?r 2 va' = reach (ptm s3) ?r 2 va'" for va'
            unfolding set_entry_fields by (rule leaf_write(1) [OF tr du]) (simp_all add: link_def)
          have "ptm ?s w j = ptm s3 w j" if "reach (ptm s3) ?r 2 va' = Some w" for va' w j
            using reach_depth [OF tr that] du by auto
          then have "large_mapped (ptm ?s) ?r va' = large_mapped (ptm s3) ?r va'" for va'
            unfolding large_mapped_def r by metis
          then show "large_mapped (ptm ?s) (g_kernel_pml4_phys ?s) va' = large_mapped (ptm s) ?r va'" for va'
            by (simp add: r3 b(12) a(10) del: set_entry_fields(3))
        qed
      qed (use False in simp_all)
    qed
  qed
qed

lemma MmUnmapPage_reach:
  "MmUnmapPage va s = (case reach (ptm s) (g_kernel_pml4_phys s) 3 va of
     None \<Rightarrow> (False, s) | Some t \<Rightarrow> (True, set_entry t (PT_INDEX va) 0 s))"
  by (auto simp: MmUnmapPage_def Let_def link_def addr_def idx_def numeral_3_eq_3)

lemma MmUnmapPage_spec:
  assumes ok: "vmm_ok s D" and un: "MmUnmapPage va s = (b, s')"
  shows "vmm_ok s' D" and "b \<longleftrightarrow> reach (ptm s) (g_kernel_pml4_phys s) 3 va \<noteq> None"
    and "MmGetPhysicalAddress s' va' = (if b \<and> page_of va' = page_of va then MM_INVALID_PHYS
      else MmGetPhysicalAddress s va')"
proof -
  have tr: "tree_ok (ptm s) (g_kernel_pml4_phys s) D" using ok by (simp add: vmm_ok_def)
  have "vmm_ok s' D \<and> (b \<longleftrightarrow> reach (ptm s) (g_kernel_pml4_phys s) 3 va \<noteq> None) \<and>
    MmGetPhysicalAddress s' va' = (if b \<and> page_of va' = page_of va then MM_INVALID_PHYS
      else MmGetPhysicalAddress s va')"
  proof (cases "reach (ptm s) (g_kernel_pml4_phys s) 3 va")
    case None
    then show ?thesis using un ok by (simp add: MmUnmapPage_reach)
  next
    case (Some t)
    have d: "D t = Some 3" by (rule reach_depth [OF tr Some])
    have s': "s' = set_entry t (PT_INDEX va) 0 s" "b" using un Some by (simp_all add: MmUnmapPage_reach)
    have "vmm_ok s' D" unfolding s' by (rule vmm_ok_leaf [OF ok d]) (simp_all add: link_def)
    then show ?thesis
      using Some s' reach_page [OF tr Some, of va']
      by (simp add: MmGetPhysicalAddress_translate translate_small_leaf [OF tr d])
  qed
  then show "vmm_ok s' D" and "b \<longleftrightarrow> reach (ptm s) (g_kernel_pml4_phys s) 3 va \<noteq> None"
    and "MmGetPhysicalAddress s' va' = (if b \<and> page_of va' = page_of va then MM_INVALID_PHYS
      else MmGetPhysicalAddress s va')"
    by blast+
qed

section \<open>The boot-time address space\<close>

definition no_small :: "vmm_state \<Rightarrow> bool" where
  "no_small s \<longleftrightarrow> (\<forall>va. reach (ptm s) (g_kernel_pml4_phys s) 3 va = None)"

lemma large_page_reach:
  assumes "tree_ok m root D" and "reach m root 2 va = Some t"
  shows "reach m root 2 va' = Some t \<and> PD_INDEX va' = PD_INDEX va \<longleftrightarrow> large_page_of va' = large_page_of va"
proof
  assume "reach m root 2 va' = Some t \<and> PD_INDEX va' = PD_INDEX va"
  then show "large_page_of va' = large_page_of va"
    using reach_inj [OF assms(1) _ assms(2), of va' 0] reach_inj [OF assms(1) _ assms(2), of va' 1]
    by (simp add: large_page_of_iff all_below idx_def)
next
  assume "large_page_of va' = large_page_of va"
  then have "\<forall>d < 3. idx d va' = idx d va" by (simp add: large_page_of_iff)
  moreover from this have "k \<le> 2 \<Longrightarrow> reach m root k va' = reach m root k va" for k
  proof (induction k)
    case (Suc k)
    then have "idx k va' = idx k va" "reach m root k va' = reach m root k va" by simp_all
    then show ?case by (simp only: reach.simps)
  qed simp
  ultimately show "reach m root 2 va' = Some t \<and> PD_INDEX va' = PD_INDEX va"
    using assms(2) by (auto simp: all_below idx_def)
qed

abbreviation "BOOT_FLAGS \<equiv> PTE_PRESENT OR PTE_WRITE OR PTE_GLOBAL"

lemma large_mask: "NOT (LARGE_PAGE_SIZE - 1) = NOT (mask 21)"
  by (simp add: mask_eq_exp_minus_1)

lemma boot_leaf:
  fixes pa :: u64
  defines "e \<equiv> (pa AND NOT (LARGE_PAGE_SIZE - 1)) OR BOOT_FLAGS OR PTE_LARGE"
  shows "present e" and "large e" and "e AND NOT (LARGE_PAGE_SIZE - 1) = pa AND NOT (LARGE_PAGE_SIZE - 1)"
proof -
  show "present e" unfolding e_def present_bit bit_or_iff bit_PTE by simp
  show "large e" unfolding e_def large_bit bit_or_iff bit_PTE by simp
  have "(BOOT_FLAGS OR PTE_LARGE) AND NOT (LARGE_PAGE_SIZE - 1) = 0" by simp
  then show "e AND NOT (LARGE_PAGE_SIZE - 1) = pa AND NOT (LARGE_PAGE_SIZE - 1)"
    unfolding e_def bit.conj_disj_distrib2 [of "pa AND NOT (LARGE_PAGE_SIZE - 1)"] or.assoc
    by (simp only: and.assoc and.idem or.right_neutral)
qed

lemma map_large_spec:
  assumes ok: "vmm_ok s D" and ns: "no_small s"
  obtains (none) "map_large (g_kernel_pml4_phys s) va pa BOOT_FLAGS s = None" "card (free_frames (pmm s)) < 2"
  | (some) s' D' where "map_large (g_kernel_pml4_phys s) va pa BOOT_FLAGS s = Some s'" "vmm_ok s' D'" "no_small s'"
      "s' = s\<lparr>pmm := pmm s', ptm := ptm s'\<rparr>"
      "\<And>va'. MmGetPhysicalAddress s' va' = (if large_page_of va' = large_page_of va
         then (pa AND NOT (LARGE_PAGE_SIZE - 1)) OR (va' AND (LARGE_PAGE_SIZE - 1))
         else MmGetPhysicalAddress s va')"
      "card (free_frames (pmm s)) \<le> 2 + card (free_frames (pmm s'))"
      "total_pages (pmm s') = total_pages (pmm s)"
      "\<And>va'. large_mapped (ptm s') (g_kernel_pml4_phys s) va' \<longleftrightarrow>
         large_page_of va' = large_page_of va \<or> large_mapped (ptm s) (g_kernel_pml4_phys s) va'"
proof -
  let ?r = "g_kernel_pml4_phys s"
  show thesis
  proof (rule directory_cases [OF ok, of va], goal_cases)
    case 1
    then show thesis using none by (simp add: map_large_directory)
  next
    case (2 t s2 D2)
    note a = 2
    let ?e = "(pa AND NOT (LARGE_PAGE_SIZE - 1)) OR BOOT_FLAGS OR PTE_LARGE"
    let ?s = "set_entry t (PD_INDEX va) ?e s2"
    have r2: "g_kernel_pml4_phys s2 = ?r" by (subst a(7)) simp
    have tr: "tree_ok (ptm s2) ?r D2" using a(2) r2 by (simp add: vmm_ok_def)
    have nl: "\<not> link 2 (ptm s2 t (PD_INDEX va))"
    proof
      assume "link 2 (ptm s2 t (PD_INDEX va))"
      then have "reach (ptm s2) ?r (Suc 2) va = Some (addr (ptm s2 t (idx 2 va)))"
        by (intro reach_extend [OF a(5)]) (simp add: idx_def)
      then show False using a(12) [of va] ns by (simp add: no_small_def)
    qed
    have ne: "\<not> link 2 ?e" using boot_leaf [of pa] unfolding link_def by blast
    have eq: "map_large ?r va pa BOOT_FLAGS s = Some ?s" using a(1) by (simp only: map_large_directory) simp
    show thesis
    proof (rule some [OF eq])
      show "vmm_ok ?s D2" by (rule vmm_ok_leaf [OF a(2) a(4) nl ne])
      show "no_small ?s"
        using leaf_write(1) [OF tr a(4) nl ne] a(12) ns unfolding no_small_def set_entry_fields r2 by metis
      obtain p m where "s2 = s\<lparr>pmm := p, ptm := m\<rparr>" using a(7) by blast
      then show "?s = s\<lparr>pmm := pmm ?s, ptm := ptm ?s\<rparr>" by (simp add: set_entry_def)
      show "MmGetPhysicalAddress ?s va' = (if large_page_of va' = large_page_of va
         then (pa AND NOT (LARGE_PAGE_SIZE - 1)) OR (va' AND (LARGE_PAGE_SIZE - 1))
         else MmGetPhysicalAddress s va')" for va'
        unfolding MmGetPhysicalAddress_translate set_entry_fields r2
          translate_large_leaf [OF tr a(4) nl boot_leaf(1,2)] large_page_reach [OF tr a(5)] boot_leaf(3) a(6) ..
      show "large_mapped (ptm ?s) ?r va' \<longleftrightarrow> large_page_of va' = large_page_of va \<or>
          large_mapped (ptm s) ?r va'" for va'
      proof -
        have "large_mapped (ptm ?s) ?r va' \<longleftrightarrow>
          reach (ptm s2) ?r 2 va' = Some t \<and> PD_INDEX va' = PD_INDEX va \<or> large_mapped (ptm s2) ?r va'"
          unfolding large_mapped_def set_entry_fields leaf_write(1) [OF tr a(4) nl ne]
          using boot_leaf(2) [of pa] by auto
        then show ?thesis by (simp only: large_page_reach [OF tr a(5)] a(10))
      qed
    qed (use a(8,11) in simp_all)
  qed
qed


text \<open>\<open>slot base va\<close>: which 2 MiB page above \<open>base\<close> the address \<open>va\<close> lies in, modulo the 48-bit
  address space.\<close>

definition slot :: "u64 \<Rightarrow> u64 \<Rightarrow> nat" where
  "slot base va = nat ((int (unat va div 2 ^ 21) - int (unat base div 2 ^ 21)) mod 2 ^ 27)"

lemma unat_large_page_of: "unat (large_page_of va) = unat va div 2 ^ 21 mod 2 ^ 27"
  by (simp add: large_page_of_def unsigned_take_bit_eq take_bit_eq_mod drop_bit_eq_div unat_div unat_mod)

lemma mod_shift_iff:
  fixes a b k m :: nat
  assumes "k < m"
  shows "a mod m = (b + k) mod m \<longleftrightarrow> nat ((int a - int b) mod int m) = k"
proof -
  have "a mod m = (b + k) mod m \<longleftrightarrow> int a mod int m = int (b + k) mod int m"
    by (simp only: zmod_int [symmetric] of_nat_eq_iff)
  also have "\<dots> \<longleftrightarrow> (int a - int b) mod int m = int k mod int m"
    by (simp add: mod_eq_dvd_iff algebra_simps)
  also have "\<dots> \<longleftrightarrow> nat ((int a - int b) mod int m) = k"
    using assms by auto
  finally show ?thesis .
qed

lemma slot_iff:
  assumes "unat base + k * 2 ^ 21 < 2 ^ 64" and "k < 2 ^ 27"
  shows "large_page_of va = large_page_of (base + of_nat (k * 2 ^ 21)) \<longleftrightarrow> slot base va = k"
proof -
  have u: "unat (base + of_nat (k * 2 ^ 21)) = unat base + k * 2 ^ 21"
    using assms by (simp add: unat_word_ariths unat_of_nat)
  have d: "(unat base + k * 2 ^ 21) div 2 ^ 21 = unat base div 2 ^ 21 + k" by simp
  have "large_page_of va = large_page_of (base + of_nat (k * 2 ^ 21)) \<longleftrightarrow>
      unat va div 2 ^ 21 mod 2 ^ 27 = (unat base div 2 ^ 21 + k) mod 2 ^ 27"
    unfolding word_unat_eq_iff unat_large_page_of u d ..
  also have "\<dots> \<longleftrightarrow> slot base va = k"
    using mod_shift_iff [of k "2 ^ 27"] assms(2) by (simp only: slot_def of_nat_power of_nat_numeral)
  finally show ?thesis .
qed

lemma large_addr:
  assumes "k * 2 ^ 21 < (2 :: nat) ^ 64"
  shows "(of_nat (k * 2 ^ 21) AND NOT (LARGE_PAGE_SIZE - 1)) = (of_nat (k * 2 ^ 21) :: u64)"
proof -
  have "(of_nat (k * 2 ^ 21) :: u64) = push_bit 21 (of_nat k)" by (simp add: push_bit_eq_mult)
  then show ?thesis unfolding large_mask by (simp only:) (rule bit_eqI, auto simp: bit_simps)
qed

lemma map_loop_step:
  "k < n \<Longrightarrow> n * 2 ^ 21 < (2 :: nat) ^ 64 \<Longrightarrow>
   map_loop base (of_nat (k * 2 ^ 21)) (of_nat (n * 2 ^ 21)) s =
     do { s1 \<leftarrow> map_large (g_kernel_pml4_phys s) (base + of_nat (k * 2 ^ 21)) (of_nat (k * 2 ^ 21)) BOOT_FLAGS s;
          map_loop base (of_nat (Suc k * 2 ^ 21)) (of_nat (n * 2 ^ 21)) s1 }"
proof -
  assume kn: "k < n" and n: "n * 2 ^ 21 < (2 :: nat) ^ 64"
  then have "k * 2 ^ 21 < n * 2 ^ 21" by simp
  with n have "(of_nat (k * 2 ^ 21) :: u64) < of_nat (n * 2 ^ 21)"
    by (simp add: word_less_nat_alt unat_of_nat del: of_nat_mult)
  moreover have "(of_nat (k * 2 ^ 21) :: u64) + LARGE_PAGE_SIZE = of_nat (Suc k * 2 ^ 21)" by simp
  ultimately show ?thesis by (subst map_loop.simps) (simp only: if_True)
qed

lemma map_loop_done: "map_loop base x x s = Some s"
  by (subst map_loop.simps) simp

lemma map_loop_spec:
  assumes "vmm_ok s D" and "no_small s" and "k \<le> n" and "unat base + n * 2 ^ 21 \<le> 2 ^ 64"
    and "n \<le> 2 ^ 27" and "2 * (n - k) \<le> card (free_frames (pmm s))"
  shows "\<exists>s' D'. map_loop base (of_nat (k * 2 ^ 21)) (of_nat (n * 2 ^ 21)) s = Some s' \<and> vmm_ok s' D' \<and>
    no_small s' \<and> s' = s\<lparr>pmm := pmm s', ptm := ptm s'\<rparr> \<and>
    card (free_frames (pmm s)) \<le> 2 * (n - k) + card (free_frames (pmm s')) \<and>
    total_pages (pmm s') = total_pages (pmm s) \<and>
    (\<forall>va. MmGetPhysicalAddress s' va = (if k \<le> slot base va \<and> slot base va < n
       then of_nat (slot base va * 2 ^ 21) OR (va AND (LARGE_PAGE_SIZE - 1)) else MmGetPhysicalAddress s va)) \<and>
    (\<forall>va. large_mapped (ptm s') (g_kernel_pml4_phys s') va \<longleftrightarrow> k \<le> slot base va \<and> slot base va < n \<or>
       large_mapped (ptm s) (g_kernel_pml4_phys s) va)"
  using assms
proof (induction "n - k" arbitrary: k s D)
  case 0
  then have "k = n" by simp
  have "s = s\<lparr>pmm := pmm s, ptm := ptm s\<rparr>" by simp
  with 0 \<open>k = n\<close> show ?case
    by (intro exI [of _ s] exI [of _ D]) (auto simp: map_loop_done simp del: of_nat_mult)
next
  case (Suc x)
  then have kn: "k < n" by simp
  have k27: "k < 2 ^ 27" using kn Suc.prems by simp
  have le: "k * 2 ^ 21 < n * 2 ^ 21" using kn by simp
  have b: "unat base + k * 2 ^ 21 < 2 ^ 64" using le Suc.prems(4) by linarith
  have n64: "n * 2 ^ 21 < 2 ^ 64" using Suc.prems(5) by simp
  let ?off = "of_nat (k * 2 ^ 21) :: u64"
  from Suc.prems(1,2) show ?case
  proof (cases rule: map_large_spec [where va = "base + ?off" and pa = ?off])
    case none
    then show ?thesis using Suc.prems(6) kn by simp
  next
    case (some s1 D1)
    have "\<exists>s' D'. map_loop base (of_nat (Suc k * 2 ^ 21)) (of_nat (n * 2 ^ 21)) s1 = Some s' \<and> vmm_ok s' D' \<and>
      no_small s' \<and> s' = s1\<lparr>pmm := pmm s', ptm := ptm s'\<rparr> \<and>
      card (free_frames (pmm s1)) \<le> 2 * (n - Suc k) + card (free_frames (pmm s')) \<and>
      total_pages (pmm s') = total_pages (pmm s1) \<and>
      (\<forall>va. MmGetPhysicalAddress s' va = (if Suc k \<le> slot base va \<and> slot base va < n
       then of_nat (slot base va * 2 ^ 21) OR (va AND (LARGE_PAGE_SIZE - 1)) else MmGetPhysicalAddress s1 va)) \<and>
      (\<forall>va. large_mapped (ptm s') (g_kernel_pml4_phys s') va \<longleftrightarrow> Suc k \<le> slot base va \<and> slot base va < n \<or>
       large_mapped (ptm s1) (g_kernel_pml4_phys s1) va)"
      by (rule Suc.hyps(1)) (use Suc.hyps(2) Suc.prems some kn in simp_all)
    then obtain s' D' where IH: "map_loop base (of_nat (Suc k * 2 ^ 21)) (of_nat (n * 2 ^ 21)) s1 = Some s'"
      "vmm_ok s' D'" "no_small s'" "s' = s1\<lparr>pmm := pmm s', ptm := ptm s'\<rparr>"
      "card (free_frames (pmm s1)) \<le> 2 * (n - Suc k) + card (free_frames (pmm s'))"
      "total_pages (pmm s') = total_pages (pmm s1)"
      "\<And>va. MmGetPhysicalAddress s' va = (if Suc k \<le> slot base va \<and> slot base va < n
       then of_nat (slot base va * 2 ^ 21) OR (va AND (LARGE_PAGE_SIZE - 1)) else MmGetPhysicalAddress s1 va)"
      "\<And>va. large_mapped (ptm s') (g_kernel_pml4_phys s') va \<longleftrightarrow> Suc k \<le> slot base va \<and> slot base va < n \<or>
       large_mapped (ptm s1) (g_kernel_pml4_phys s1) va"
      by blast
    have step: "MmGetPhysicalAddress s1 va = (if slot base va = k
         then ?off OR (va AND (LARGE_PAGE_SIZE - 1)) else MmGetPhysicalAddress s va)" for va
      unfolding some(5) slot_iff [OF b k27] large_addr [OF less_trans [OF le n64]] ..
    show ?thesis
    proof (intro exI [of _ s'] exI [of _ D'] conjI allI)
      show "map_loop base ?off (of_nat (n * 2 ^ 21)) s = Some s'"
        unfolding map_loop_step [OF kn n64] using some(1) IH(1) by simp
      show "s' = s\<lparr>pmm := pmm s', ptm := ptm s'\<rparr>" by (subst IH(4), subst some(4)) simp
      show "card (free_frames (pmm s)) \<le> 2 * (n - k) + card (free_frames (pmm s'))"
        using IH(5) some(6) kn by simp
      show "total_pages (pmm s') = total_pages (pmm s)" using IH(6) some(7) by simp
      show "MmGetPhysicalAddress s' va = (if k \<le> slot base va \<and> slot base va < n
       then of_nat (slot base va * 2 ^ 21) OR (va AND (LARGE_PAGE_SIZE - 1)) else MmGetPhysicalAddress s va)" for va
        unfolding IH(7) step using kn by (auto simp: Suc_le_eq simp del: of_nat_mult)
      have r1: "g_kernel_pml4_phys s1 = g_kernel_pml4_phys s" by (subst some(4)) simp
      show "large_mapped (ptm s') (g_kernel_pml4_phys s') va \<longleftrightarrow> k \<le> slot base va \<and> slot base va < n \<or>
       large_mapped (ptm s) (g_kernel_pml4_phys s) va" for va
        unfolding IH(8) r1 some(8) slot_iff [OF b k27] using kn by auto
    qed (rule IH(2,3))+
  qed
qed

definition boot_top :: "MM_MEMORY_MAP \<Rightarrow> u64" where
  "boot_top m = (let top = (highest_address m + LARGE_PAGE_SIZE - 1) AND NOT (LARGE_PAGE_SIZE - 1)
     in if top < 0x40000000 then 0x40000000 else top)"

definition boot_slots :: "MM_MEMORY_MAP \<Rightarrow> nat" where
  "boot_slots m = unat (boot_top m) div 2 ^ 21"

lemma boot_top_slots:
  assumes "highest_address m \<le> 2 ^ 46"
  shows "boot_top m = of_nat (boot_slots m * 2 ^ 21)" and "boot_slots m \<le> 2 ^ 25"
    and "512 \<le> boot_slots m" and "unat (highest_address m) \<le> boot_slots m * 2 ^ 21"
    and "unat (boot_top m) = boot_slots m * 2 ^ 21"
proof -
  let ?h = "highest_address m + LARGE_PAGE_SIZE - 1"
  have h: "unat (highest_address m) \<le> 2 ^ 46" using assms by (simp add: word_le_nat_alt)
  have "?h = highest_address m + 0x1FFFFF" by simp
  then have u: "unat ?h = unat (highest_address m) + 0x1FFFFF"
    using h by (simp add: unat_word_ariths)
  have "?h AND NOT (mask 21) = push_bit 21 (drop_bit 21 ?h)" by (rule bit_eqI) (auto simp: bit_simps)
  then have "?h AND NOT (LARGE_PAGE_SIZE - 1) = of_nat (unat ?h div 2 ^ 21 * 2 ^ 21)"
    unfolding large_mask by (simp add: push_bit_eq_mult drop_bit_eq_div word_unat_eq_iff unat_word_ariths unat_div
        unat_of_nat mod_mult_left_eq)
  moreover define q where "q = unat ?h div 2 ^ 21"
  ultimately have al: "?h AND NOT (LARGE_PAGE_SIZE - 1) = of_nat (q * 2 ^ 21)" by simp
  have q: "q \<le> 2 ^ 25" "unat (highest_address m) \<le> q * 2 ^ 21" unfolding q_def u using h by simp_all
  have uq: "unat (of_nat (q * 2097152) :: u64) = q * 2097152" using q by (simp add: unat_of_nat del: of_nat_mult)
  have top: "boot_top m = of_nat ((max 512 q) * 2 ^ 21)"
    unfolding boot_top_def Let_def al
    by (auto simp: word_less_nat_alt uq max_def simp del: of_nat_mult)
  have um: "unat (of_nat ((max 512 q) * 2 ^ 21) :: u64) = (max 512 q) * 2 ^ 21"
    using q by (simp add: unat_of_nat del: of_nat_mult)
  have s: "boot_slots m = max 512 q" unfolding boot_slots_def top um by simp
  show "boot_top m = of_nat (boot_slots m * 2 ^ 21)" using top s by simp
  show "boot_slots m \<le> 2 ^ 25" "512 \<le> boot_slots m" using s q by simp_all
  show "unat (highest_address m) \<le> boot_slots m * 2 ^ 21" using s q(2) by (simp add: max_def)
  show "unat (boot_top m) = boot_slots m * 2 ^ 21" unfolding top um s ..
qed

text \<open>Slots of the three areas, in numbers.\<close>

lemma slot_of_base:
  assumes "unat base mod 2 ^ 21 = 0" and "unat base + unat x < 2 ^ 64" and "unat x < 2 ^ 48"
  shows "slot base (base + x) = unat x div 2 ^ 21"
    and "(base + x) AND (LARGE_PAGE_SIZE - 1) = x AND (LARGE_PAGE_SIZE - 1)"
proof -
  have u: "unat (base + x) = unat base + unat x" using assms by (simp add: unat_word_ariths)
  from assms(1) obtain b where b: "unat base = b * 2 ^ 21" by (metis mult.commute mod_eq_0_iff_dvd dvdE)
  have "unat (base + x) div 2 ^ 21 = b + unat x div 2 ^ 21" unfolding u b by simp
  moreover have "unat x div 2 ^ 21 < 2 ^ 27" using assms(3) by simp
  ultimately show "slot base (base + x) = unat x div 2 ^ 21" unfolding slot_def b by simp
  have m: "LARGE_PAGE_SIZE - 1 = mask 21" by (simp add: mask_eq_exp_minus_1)
  show "(base + x) AND (LARGE_PAGE_SIZE - 1) = x AND (LARGE_PAGE_SIZE - 1)"
    unfolding m take_bit_eq_mask [symmetric] word_unat_eq_iff unsigned_take_bit_eq take_bit_eq_mod unat_mod u b by simp
qed

lemma large_join:
  "of_nat (unat x div 2 ^ 21 * 2 ^ 21) OR (x AND (LARGE_PAGE_SIZE - 1)) = (x :: u64)"
proof -
  have m: "LARGE_PAGE_SIZE - 1 = mask 21" by (simp add: mask_eq_exp_minus_1)
  have "unat x div 2 ^ 21 * 2 ^ 21 \<le> unat x" by simp
  then have "unat x div 2 ^ 21 * 2 ^ 21 < 2 ^ 64" using unat_less_64 [of x] by linarith
  then have "(of_nat (unat x div 2 ^ 21 * 2 ^ 21) :: u64) = push_bit 21 (drop_bit 21 x)"
    unfolding word_unat_eq_iff
    by (simp add: unat_of_nat push_bit_eq_mult drop_bit_eq_div unat_word_ariths unat_div del: of_nat_mult)
  then show ?thesis
    unfolding m by (simp only:) (rule bit_eqI, auto simp: bit_simps)
qed

lemma root_only:
  assumes "m root = (\<lambda>_. 0)"
  shows "tree_ok m root [root \<mapsto> 0]" and "reach m root (Suc k) va = None" and "translate m root va = MM_INVALID_PHYS"
proof -
  have one: "reach m root (Suc 0) va = None" using assms by simp
  then show n: "reach m root (Suc k) va = None" for k by (induction k) simp_all
  show "tree_ok m root [root \<mapsto> 0]" using assms by (auto simp: tree_ok_def split: if_splits)
  show "translate m root va = MM_INVALID_PHYS"
    using n [of 1] n [of 2] by (simp add: translate_def numeral_3_eq_3 numeral_2_eq_2)
qed


lemma MmInitializeVirtualMemory_spec:
  assumes inv: "pmm_inv (pmm s)" and tp: "total_pages (pmm s) \<le> 2 ^ 40"
    and hi: "highest_address m \<le> 2 ^ 46" and mem: "1025 + 2 * boot_slots m \<le> card (free_frames (pmm s))"
  shows "\<exists>s' D. MmInitializeVirtualMemory m s = Some s' \<and> vmm_ok s' D \<and>
    MmDirectMapBase s' = MM_DIRECT_MAP_BASE \<and> total_pages (pmm s') = total_pages (pmm s) \<and>
    (\<forall>va. MmGetPhysicalAddress s' va =
       (if slot MM_DIRECT_MAP_BASE va < boot_slots m
        then of_nat (slot MM_DIRECT_MAP_BASE va * 2 ^ 21) OR (va AND (LARGE_PAGE_SIZE - 1))
        else if slot KERNEL_VIRT_BASE va < 512
        then of_nat (slot KERNEL_VIRT_BASE va * 2 ^ 21) OR (va AND (LARGE_PAGE_SIZE - 1))
        else MM_INVALID_PHYS)) \<and>
    (\<forall>va. large_mapped (ptm s') (g_kernel_pml4_phys s') va \<longleftrightarrow>
       slot MM_DIRECT_MAP_BASE va < boot_slots m \<or> slot KERNEL_VIRT_BASE va < 512)"
proof -
  note top = boot_top_slots [OF hi]
  have f0: "frames_ok (pmm s) Map.empty" using inv tp by (simp add: frames_ok_def)
  have "alloc_zeroed_table s \<noteq> None" using alloc_zeroed_table_spec(1) [OF f0] mem by auto
  then obtain root s0 where al: "alloc_zeroed_table s = Some (root, s0)" by auto
  note sp = alloc_zeroed_table_spec(2) [OF f0 al, of 0]
  define s1 where "s1 = s0\<lparr>g_kernel_pml4_phys := root\<rparr>"
  have z: "ptm s1 (g_kernel_pml4_phys s1) = (\<lambda>_. 0)" using sp by (simp add: s1_def)
  note ro = root_only [where m = "ptm s1" and root = "g_kernel_pml4_phys s1", OF z]
  have ok1: "vmm_ok s1 [root \<mapsto> 0]"
    using ro(1) sp by (simp add: vmm_ok_def s1_def)
  have ns1: "no_small s1" using ro(2) [of 2] by (simp add: no_small_def)
  have c1: "card (free_frames (pmm s)) = Suc (card (free_frames (pmm s1)))"
    "total_pages (pmm s1) = total_pages (pmm s)" using sp by (simp_all add: s1_def)
  have lm1: "\<not> large_mapped (ptm s1) (g_kernel_pml4_phys s1) va" for va
    using ro(2) [of 1] by (simp add: large_mapped_def numeral_2_eq_2)
  have "\<exists>s2 D2. map_loop KERNEL_VIRT_BASE (of_nat (0 * 2 ^ 21)) (of_nat (512 * 2 ^ 21)) s1 = Some s2 \<and> vmm_ok s2 D2 \<and>
    no_small s2 \<and> s2 = s1\<lparr>pmm := pmm s2, ptm := ptm s2\<rparr> \<and>
    card (free_frames (pmm s1)) \<le> 2 * (512 - 0) + card (free_frames (pmm s2)) \<and>
    total_pages (pmm s2) = total_pages (pmm s1) \<and>
    (\<forall>va. MmGetPhysicalAddress s2 va = (if 0 \<le> slot KERNEL_VIRT_BASE va \<and> slot KERNEL_VIRT_BASE va < 512
       then of_nat (slot KERNEL_VIRT_BASE va * 2 ^ 21) OR (va AND (LARGE_PAGE_SIZE - 1)) else MmGetPhysicalAddress s1 va)) \<and>
    (\<forall>va. large_mapped (ptm s2) (g_kernel_pml4_phys s2) va \<longleftrightarrow> 0 \<le> slot KERNEL_VIRT_BASE va \<and>
       slot KERNEL_VIRT_BASE va < 512 \<or> large_mapped (ptm s1) (g_kernel_pml4_phys s1) va)"
    by (rule map_loop_spec [OF ok1 ns1]) (use mem c1 in simp_all)
  then obtain s2 D2 where s2: "map_loop KERNEL_VIRT_BASE 0 0x40000000 s1 = Some s2" "vmm_ok s2 D2" "no_small s2"
    "s2 = s1\<lparr>pmm := pmm s2, ptm := ptm s2\<rparr>" "card (free_frames (pmm s1)) \<le> 1024 + card (free_frames (pmm s2))"
    "total_pages (pmm s2) = total_pages (pmm s1)"
    "\<And>va. MmGetPhysicalAddress s2 va = (if slot KERNEL_VIRT_BASE va < 512
       then of_nat (slot KERNEL_VIRT_BASE va * 2 ^ 21) OR (va AND (LARGE_PAGE_SIZE - 1)) else MmGetPhysicalAddress s1 va)"
    "\<And>va. large_mapped (ptm s2) (g_kernel_pml4_phys s2) va \<longleftrightarrow>
       slot KERNEL_VIRT_BASE va < 512 \<or> large_mapped (ptm s1) (g_kernel_pml4_phys s1) va"
    by (auto simp del: of_nat_mult)
  have "\<exists>s3 D3. map_loop MM_DIRECT_MAP_BASE (of_nat (0 * 2 ^ 21)) (of_nat (boot_slots m * 2 ^ 21)) s2 = Some s3 \<and>
    vmm_ok s3 D3 \<and> no_small s3 \<and> s3 = s2\<lparr>pmm := pmm s3, ptm := ptm s3\<rparr> \<and>
    card (free_frames (pmm s2)) \<le> 2 * (boot_slots m - 0) + card (free_frames (pmm s3)) \<and>
    total_pages (pmm s3) = total_pages (pmm s2) \<and>
    (\<forall>va. MmGetPhysicalAddress s3 va = (if 0 \<le> slot MM_DIRECT_MAP_BASE va \<and> slot MM_DIRECT_MAP_BASE va < boot_slots m
       then of_nat (slot MM_DIRECT_MAP_BASE va * 2 ^ 21) OR (va AND (LARGE_PAGE_SIZE - 1)) else MmGetPhysicalAddress s2 va)) \<and>
    (\<forall>va. large_mapped (ptm s3) (g_kernel_pml4_phys s3) va \<longleftrightarrow> 0 \<le> slot MM_DIRECT_MAP_BASE va \<and>
       slot MM_DIRECT_MAP_BASE va < boot_slots m \<or> large_mapped (ptm s2) (g_kernel_pml4_phys s2) va)"
    by (rule map_loop_spec [OF s2(2,3)]) (use mem c1 s2(5) top(2) in simp_all)
  then obtain s3 D3 where s3: "map_loop MM_DIRECT_MAP_BASE 0 (boot_top m) s2 = Some s3" "vmm_ok s3 D3"
    "s3 = s2\<lparr>pmm := pmm s3, ptm := ptm s3\<rparr>" "total_pages (pmm s3) = total_pages (pmm s2)"
    "\<And>va. MmGetPhysicalAddress s3 va = (if slot MM_DIRECT_MAP_BASE va < boot_slots m
       then of_nat (slot MM_DIRECT_MAP_BASE va * 2 ^ 21) OR (va AND (LARGE_PAGE_SIZE - 1)) else MmGetPhysicalAddress s2 va)"
    "\<And>va. large_mapped (ptm s3) (g_kernel_pml4_phys s3) va \<longleftrightarrow>
       slot MM_DIRECT_MAP_BASE va < boot_slots m \<or> large_mapped (ptm s2) (g_kernel_pml4_phys s2) va"
    unfolding top(1) by (auto simp del: of_nat_mult)
  let ?s = "s3\<lparr>MmDirectMapBase := MM_DIRECT_MAP_BASE\<rparr>"
  have "MmInitializeVirtualMemory m s = Some ?s"
    unfolding MmInitializeVirtualMemory_def Let_def boot_top_def [unfolded Let_def, symmetric]
    using al s2(1) s3(1) by (simp add: s1_def)
  moreover have "vmm_ok ?s D3" using s3(2) by (simp add: vmm_ok_def)
  moreover have "MmGetPhysicalAddress ?s va = MmGetPhysicalAddress s3 va" for va
    by (simp add: MmGetPhysicalAddress_translate)
  moreover have "MmGetPhysicalAddress s1 va = MM_INVALID_PHYS" for va
    using ro(3) by (simp add: MmGetPhysicalAddress_translate)
  ultimately show ?thesis
    by (intro exI [of _ ?s] exI [of _ D3]) (simp add: s3(4-6) s2(6-8) c1 lm1)
qed

section \<open>Probes and protection\<close>

text \<open>The user half holds no 2 MiB pages; true after boot and kept by \<^verbatim>\<open>MmMapPage\<close>.\<close>

definition user_small :: "vmm_state \<Rightarrow> bool" where
  "user_small s \<longleftrightarrow> (\<forall>va. va < MM_USER_MAX \<longrightarrow> \<not> large_mapped (ptm s) (g_kernel_pml4_phys s) va)"

lemma page_of_unat: "unat (page_of va) = unat va div 4096 mod 2 ^ 36"
  by (simp add: page_of_def unsigned_take_bit_eq take_bit_eq_mod drop_bit_eq_div unat_div unat_mod)

lemma same_page_reach:
  assumes "page_of va' = page_of va"
  shows "k \<le> 3 \<Longrightarrow> reach m root k va' = reach m root k va" and "PT_INDEX va' = PT_INDEX va"
    and "PD_INDEX va' = PD_INDEX va"
proof -
  have i: "\<forall>d < 4. idx d va' = idx d va" using assms by (simp add: page_of_iff)
  then show "PT_INDEX va' = PT_INDEX va" "PD_INDEX va' = PD_INDEX va" by (auto simp: all_below idx_def)
  show "k \<le> 3 \<Longrightarrow> reach m root k va' = reach m root k va"
  proof (induction k)
    case (Suc k)
    then have "idx k va' = idx k va" "reach m root k va' = reach m root k va" using i by simp_all
    then show ?case by (simp only: reach.simps)
  qed simp
qed

lemma small_addr_valid: "addr e OR (va AND PAGE_MASK) \<noteq> MM_INVALID_PHYS"
proof
  assume "addr e OR (va AND PAGE_MASK) = MM_INVALID_PHYS"
  moreover have "MM_INVALID_PHYS = - 1" by simp
  ultimately have "bit (addr e OR (va AND PAGE_MASK)) 63" by (simp only: bit_minus_1_iff) simp
  then show False unfolding bit_or_iff bit_and_iff bit_addr PAGE_MASK_mask bit_mask_iff by simp
qed

lemma same_page_mapped:
  assumes "page_of va' = page_of va" and "\<not> large_mapped m root va"
  shows "translate m root va' = MM_INVALID_PHYS \<longleftrightarrow> translate m root va = MM_INVALID_PHYS"
  using assms(2) small_addr_valid same_page_reach [OF assms(1)]
  by (auto simp: translate_def Let_def large_mapped_def split: option.splits)

text \<open>The loop of \<^verbatim>\<open>MmProbeForRead\<close> visits the page bases below the limit.\<close>

lemma probe_loop_spec:
  "unat lim \<le> 2 ^ 63 \<Longrightarrow> k * 4096 \<le> (2 :: nat) ^ 63 \<Longrightarrow>
   probe_loop s (of_nat (k * 4096)) lim =
     Some (\<forall>j. k \<le> j \<and> j * 4096 < unat lim \<longrightarrow> MmGetPhysicalAddress s (of_nat (j * 4096)) \<noteq> MM_INVALID_PHYS)"
proof (induction "unat lim - k * 4096" arbitrary: k rule: less_induct)
  case less
  have u: "unat (of_nat (k * 4096) :: u64) = k * 4096" using less.prems by (simp add: unat_of_nat del: of_nat_mult)
  have nx: "(of_nat (k * 4096) :: u64) + PAGE_SIZE = of_nat (Suc k * 4096)" by simp
  show ?case
  proof (cases "k * 4096 < unat lim")
    case False
    then have "probe_loop s (of_nat (k * 4096)) lim = Some True"
      by (subst probe_loop.simps) (simp add: word_less_nat_alt u del: of_nat_mult)
    moreover have "\<not> j * 4096 < unat lim" if "k \<le> j" for j
      using False mult_le_mono1 [OF that, of 4096] by linarith
    ultimately show ?thesis by auto
  next
    case True
    then have step: "probe_loop s (of_nat (k * 4096)) lim =
       (if MmGetPhysicalAddress s (of_nat (k * 4096)) = MM_INVALID_PHYS then Some False
        else probe_loop s (of_nat (Suc k * 4096)) lim)"
      by (subst probe_loop.simps) (simp add: word_less_nat_alt u nx del: of_nat_mult)
    have IH: "probe_loop s (of_nat (Suc k * 4096)) lim =
     Some (\<forall>j. Suc k \<le> j \<and> j * 4096 < unat lim \<longrightarrow> MmGetPhysicalAddress s (of_nat (j * 4096)) \<noteq> MM_INVALID_PHYS)"
    proof (cases "Suc k * 4096 \<le> 2 ^ 63")
      case ok: True
      show ?thesis by (rule less.hyps) (use True less.prems ok in auto)
    next
      case False
      then have "k * 4096 > 2 ^ 63 - 4096" by simp
      moreover have "(2 :: nat) ^ 63 = 2251799813685248 * 4096" by simp
      ultimately have "k \<ge> 2251799813685248" by linarith
      then have "k * 4096 \<ge> 2 ^ 63" by simp
      then show ?thesis using True less.prems by simp
    qed
    have split: "k \<le> j \<longleftrightarrow> j = k \<or> Suc k \<le> j" for j by auto
    show ?thesis
      unfolding step IH split using True by (simp add: conj_disj_distribR imp_disjL all_conj_distrib del: of_nat_mult)
  qed
qed

lemma PAGE_ALIGN_unat: "PAGE_ALIGN x = of_nat (unat x div 4096 * 4096)"
proof -
  have "PAGE_ALIGN x = push_bit 12 (drop_bit 12 x)"
    unfolding PAGE_ALIGN_def PAGE_MASK_mask by (rule bit_eqI) (auto simp: bit_simps)
  moreover have "unat x div 4096 * 4096 < 2 ^ 64"
    using unat_less_64 [of x] div_times_less_eq_dividend [of "unat x" 4096] by linarith
  ultimately show ?thesis
    by (simp add: word_unat_eq_iff unat_of_nat push_bit_eq_mult drop_bit_eq_div unat_word_ariths unat_div
        del: of_nat_mult)
qed

lemma MmProbeForRead_total: "\<exists>b. MmProbeForRead s va len = Some b"
proof (cases "len = 0 \<or> va + len < va \<or> \<not> MmIsUserAddress va \<or> \<not> MmIsUserAddress (va + len - 1)")
  case True
  then show ?thesis by (auto simp: MmProbeForRead_def)
next
  case False
  then have v: "unat va < 2 ^ 47" by (simp add: MmIsUserAddress_def word_less_nat_alt)
  have "va + len - 1 < MM_USER_MAX" using False by (simp add: MmIsUserAddress_def)
  then have "va + len \<le> MM_USER_MAX" by (metis add_diff_cancel_right' diff_add_cancel word_Suc_le)
  then have l: "unat (va + len) \<le> 2 ^ 63" by (simp add: word_le_nat_alt)
  have "unat va div 4096 * 4096 \<le> 2 ^ 63"
    by (rule order_trans [OF div_times_less_eq_dividend]) (use v in simp)
  from probe_loop_spec [OF l this, of s] False show ?thesis
    by (simp add: MmProbeForRead_def PAGE_ALIGN_unat del: of_nat_mult)
qed


lemma user_range_iff:
  assumes "len \<noteq> 0"
  shows "\<not> va + len < va \<and> MmIsUserAddress va \<and> MmIsUserAddress (va + len - 1) \<longleftrightarrow>
    unat va + unat len \<le> 2 ^ 47"
proof -
  have l: "0 < unat len" using assms by (simp add: unat_gt_0)
  show ?thesis
  proof (cases "unat va + unat len < 2 ^ 64")
    case True
    then have u: "unat (va + len) = unat va + unat len" by (simp add: unat_word_ariths)
    then have "unat (va + len - 1) = unat va + unat len - 1" using l by (simp add: unat_sub word_le_nat_alt)
    then show ?thesis using u l by (auto simp: MmIsUserAddress_def word_less_nat_alt)
  next
    case False
    then have "unat (va + len) = unat va + unat len - 2 ^ 64"
      using unat_less_64 [of va] unat_less_64 [of len] by (simp add: unat_word_ariths mod_if)
    then have "va + len < va"
      using unat_less_64 [of len] False unat_less_64 [of va] by (simp add: word_less_nat_alt)
    then show ?thesis using False by simp
  qed
qed

text \<open>Every page base the probe visits stands for the bytes of the range on that page.\<close>

lemma pages_cover_bytes:
  fixes P :: "u64 \<Rightarrow> bool" and va len :: u64
  assumes P: "\<And>a b. page_of a = page_of b \<Longrightarrow> unat b < 2 ^ 47 \<Longrightarrow> P a = P b"
    and b: "unat va + unat len \<le> 2 ^ 47" and l: "len \<noteq> 0"
  shows "(\<forall>j. unat va div 4096 \<le> j \<and> j * 4096 < unat va + unat len \<longrightarrow> P (of_nat (j * 4096))) \<longleftrightarrow>
    (\<forall>a. unat va \<le> unat a \<and> unat a < unat va + unat len \<longrightarrow> P a)"
proof -
  have pg: "page_of (of_nat (j * 4096)) = page_of a" if "unat a div 4096 = j" "unat a < 2 ^ 47" for j a
  proof -
    have "j * 4096 \<le> unat a" unfolding that(1) [symmetric] by (rule div_times_less_eq_dividend)
    then have "j * 4096 < 2 ^ 47" using that(2) by linarith
    then have "unat (of_nat (j * 4096) :: u64) = j * 4096" by (simp add: unat_of_nat del: of_nat_mult)
    then show ?thesis using that(1) by (simp add: word_unat_eq_iff page_of_unat del: of_nat_mult)
  qed
  show ?thesis
  proof (intro iffI allI impI)
    fix a :: u64 assume *: "\<forall>j. unat va div 4096 \<le> j \<and> j * 4096 < unat va + unat len \<longrightarrow> P (of_nat (j * 4096))"
      and a: "unat va \<le> unat a \<and> unat a < unat va + unat len"
    let ?j = "unat a div 4096"
    have a47: "unat a < 2 ^ 47" using a b by linarith
    have "?j * 4096 < unat va + unat len"
      using a div_times_less_eq_dividend [of "unat a" 4096] by linarith
    then have "P (of_nat (?j * 4096))" using * a by (simp add: div_le_mono del: of_nat_mult)
    then show "P a" using P [OF pg [OF refl a47] a47] by simp
  next
    fix j assume *: "\<forall>a :: u64. unat va \<le> unat a \<and> unat a < unat va + unat len \<longrightarrow> P a"
      and j: "unat va div 4096 \<le> j \<and> j * 4096 < unat va + unat len"
    let ?a = "if unat va \<le> j * 4096 then of_nat (j * 4096) else va"
    have u: "unat (of_nat (j * 4096) :: u64) = j * 4096" using j b by (simp add: unat_of_nat del: of_nat_mult)
    have l': "0 < unat len" using l by (simp add: unat_gt_0)
    have in_range: "unat va \<le> unat ?a \<and> unat ?a < unat va + unat len"
      using j u l' by (auto simp del: of_nat_mult)
    have j2: "unat ?a div 4096 = j"
    proof (cases "unat va \<le> j * 4096")
      case True
      then show ?thesis by (simp only: if_True u)
    next
      case False
      then have "j \<le> unat va div 4096" by (simp add: less_eq_div_iff_mult_less_eq)
      with j False show ?thesis by simp
    qed
    have a47: "unat ?a < 2 ^ 47" using in_range b by linarith
    show "P (of_nat (j * 4096))" using P [OF pg [OF j2 a47] a47] * in_range by blast
  qed
qed

lemma MmProbeForRead_iff:
  assumes us: "user_small s"
  shows "MmProbeForRead s va len = Some (len = 0 \<or> unat va + unat len \<le> 2 ^ 47 \<and>
    (\<forall>a. unat va \<le> unat a \<and> unat a < unat va + unat len \<longrightarrow> MmGetPhysicalAddress s a \<noteq> MM_INVALID_PHYS))"
proof (cases "len = 0 \<or> \<not> unat va + unat len \<le> 2 ^ 47")
  case True
  then show ?thesis using user_range_iff [of len va] by (auto simp: MmProbeForRead_def)
next
  case False
  then have b: "unat va + unat len \<le> 2 ^ 47" and l: "len \<noteq> 0" by auto
  then have u: "unat (va + len) = unat va + unat len" by (simp add: unat_word_ariths)
  have "unat (va + len) \<le> 2 ^ 63" using u b by simp
  moreover have "unat va div 4096 * 4096 \<le> 2 ^ 63"
    by (rule order_trans [OF div_times_less_eq_dividend]) (use b in simp)
  ultimately have "MmProbeForRead s va len = Some (\<forall>j. unat va div 4096 \<le> j \<and> j * 4096 < unat va + unat len \<longrightarrow>
      MmGetPhysicalAddress s (of_nat (j * 4096)) \<noteq> MM_INVALID_PHYS)"
    using user_range_iff [OF l, of va] b l
    by (simp add: MmProbeForRead_def PAGE_ALIGN_unat probe_loop_spec u del: of_nat_mult)
  moreover have "MmGetPhysicalAddress s x \<noteq> MM_INVALID_PHYS \<longleftrightarrow> MmGetPhysicalAddress s y \<noteq> MM_INVALID_PHYS"
    if "page_of x = page_of y" "unat y < 2 ^ 47" for x y
    using same_page_mapped [OF that(1)] us that(2)
    by (simp add: MmGetPhysicalAddress_translate user_small_def word_less_nat_alt)
  from pages_cover_bytes [where P = "\<lambda>x. MmGetPhysicalAddress s x \<noteq> MM_INVALID_PHYS", OF this b l]
  have "(\<forall>j. unat va div 4096 \<le> j \<and> j * 4096 < unat va + unat len \<longrightarrow>
      MmGetPhysicalAddress s (of_nat (j * 4096)) \<noteq> MM_INVALID_PHYS) \<longleftrightarrow>
    (\<forall>a. unat va \<le> unat a \<and> unat a < unat va + unat len \<longrightarrow> MmGetPhysicalAddress s a \<noteq> MM_INVALID_PHYS)" .
  ultimately show ?thesis using b l by (simp only: simp_thms)
qed

lemma small_remap:
  assumes "page_of a = page_of p" and "\<not> large_mapped m root p" and "translate m root p \<noteq> MM_INVALID_PHYS"
    and al: "p AND PAGE_MASK = 0"
  shows "((translate m root p AND NOT PAGE_MASK) AND PTE_ADDR_MASK) OR (a AND PAGE_MASK) = translate m root a"
proof -
  from assms(2,3) obtain t where t: "reach m root 3 p = Some t" and pr: "present (m t (PT_INDEX p))"
    by (auto simp: translate_def large_mapped_def Let_def split: option.splits if_splits)
  let ?e = "m t (PT_INDEX p)"
  have "reach m root 3 a = Some t" using same_page_reach(1) [OF assms(1), of 3 m root] t by simp
  then have a: "translate m root a = addr ?e OR (a AND PAGE_MASK)"
    using same_page_reach(2) [OF assms(1)] pr by (simp add: translate_def)
  have "translate m root p = addr ?e" using t pr al by (simp add: translate_def)
  moreover have "(addr ?e AND NOT PAGE_MASK) AND PTE_ADDR_MASK = addr ?e"
  proof (rule bit_eqI)
    fix n
    have "(addr ?e AND NOT PAGE_MASK) AND PTE_ADDR_MASK = addr (addr ?e AND NOT (mask 12))"
      by (simp add: addr_def PAGE_MASK_mask)
    then show "bit ((addr ?e AND NOT PAGE_MASK) AND PTE_ADDR_MASK) n = bit (addr ?e) n"
      by (simp only: bit_addr bit_and_iff bit_not_iff bit_mask_iff) auto
  qed
  ultimately show ?thesis using a by simp
qed

lemma protect_loop_spec:
  assumes "vmm_ok s D" and "flags AND PTE_ADDR_MASK = 0" and "k \<le> n" and "n * 4096 < 2 ^ 64"
  shows "\<exists>s' D'. protect_loop (of_nat (k * 4096)) (of_nat (n * 4096)) flags s = Some s' \<and> vmm_ok s' D' \<and>
    (\<forall>a. MmGetPhysicalAddress s' a = MmGetPhysicalAddress s a)"
  using assms
proof (induction "n - k" arbitrary: k s D)
  case 0
  then have "k = n" by simp
  then have "protect_loop (of_nat (k * 4096)) (of_nat (n * 4096)) flags s = Some s"
    by (subst protect_loop.simps) simp
  with 0 show ?case by blast
next
  case (Suc x)
  then have kn: "k < n" by simp
  then have le: "k * 4096 < n * 4096" by simp
  let ?p = "of_nat (k * 4096) :: u64"
  have lt: "?p < of_nat (n * 4096)"
    using le Suc.prems(4) by (simp add: word_less_nat_alt unat_of_nat del: of_nat_mult)
  have nx: "?p + PAGE_SIZE = of_nat (Suc k * 4096)" by simp
  have IH: "vmm_ok t E \<Longrightarrow> \<exists>s' D'. protect_loop (of_nat (Suc k * 4096)) (of_nat (n * 4096)) flags t = Some s' \<and>
      vmm_ok s' D' \<and> (\<forall>a. MmGetPhysicalAddress s' a = MmGetPhysicalAddress t a)" for t E
    by (rule Suc.hyps(1)) (use Suc.hyps(2) Suc.prems kn in simp_all)
  have al: "?p AND PAGE_MASK = 0"
  proof -
    have "?p = push_bit 12 (of_nat k)" by (simp add: push_bit_eq_mult)
    then show ?thesis unfolding PAGE_MASK_mask by (simp only:) (rule bit_eqI, auto simp: bit_simps)
  qed
  show ?case
  proof (cases "MmGetPhysicalAddress s ?p = MM_INVALID_PHYS")
    case True
    then have "protect_loop ?p (of_nat (n * 4096)) flags s = protect_loop (of_nat (Suc k * 4096)) (of_nat (n * 4096)) flags s"
      using lt nx by (subst protect_loop.simps) (simp add: Let_def del: of_nat_mult mult_Suc)
    then show ?thesis using IH [OF Suc.prems(1)] by (simp del: of_nat_mult mult_Suc)
  next
    case False
    let ?f = "MmGetPhysicalAddress s ?p AND NOT PAGE_MASK"
    from Suc.prems(1,2) show ?thesis
    proof (cases rule: MmMapPage_spec [where va = ?p and pa = ?f])
      case none
      then show ?thesis using False by simp
    next
      case (some b t E)
      have same: "MmGetPhysicalAddress t a = MmGetPhysicalAddress s a" for a
        using some(4,6) False al small_remap [of a ?p "ptm s" "g_kernel_pml4_phys s"]
        by (auto simp: MmGetPhysicalAddress_translate simp del: of_nat_mult)
      have "protect_loop ?p (of_nat (n * 4096)) flags s = protect_loop (of_nat (Suc k * 4096)) (of_nat (n * 4096)) flags t"
        using lt nx False some(1) by (subst protect_loop.simps) (simp add: Let_def del: of_nat_mult mult_Suc)
      then show ?thesis using IH [OF some(2)] same by (simp del: of_nat_mult mult_Suc)
    qed
  qed
qed

lemma PAGE_ALIGN_UP_unat:
  assumes "unat x + 4095 < 2 ^ 64"
  shows "PAGE_ALIGN_UP x = of_nat ((unat x + 4095) div 4096 * 4096)"
proof -
  have "unat (x + PAGE_MASK) = unat x + 4095" using assms by (simp add: unat_word_ariths)
  then show ?thesis using PAGE_ALIGN_unat [of "x + PAGE_MASK"] by (simp add: PAGE_ALIGN_UP_def PAGE_ALIGN_def)
qed

lemma capture_char_range: "capture_char c \<noteq> 0" "capture_char c < 0x80"
proof -
  have "ucast c \<noteq> (0 :: u8) \<and> (ucast c :: u8) < 0x80" if "c \<noteq> 0" "c < 0x80"
  proof -
    have c: "unat c < 128" using that(2) by (simp add: word_less_nat_alt)
    then have "unat (ucast c :: u8) = unat c" by (simp add: unat_ucast_small)
    moreover have "unat c \<noteq> 0" using that(1) by (simp add: unat_eq_0)
    ultimately show ?thesis using c by (auto simp: word_less_nat_alt unat_eq_0 [symmetric])
  qed
  then show "capture_char c \<noteq> 0" "capture_char c < 0x80" by (auto simp: capture_char_def)
qed

lemma capture_count:
  fixes n :: u64 and c :: u32
  assumes "n \<noteq> 0"
  shows "unat (if n \<le> ucast c then ucast n - 1 else c) < unat n"
proof (cases "n \<le> ucast c")
  case True
  then have le: "unat n \<le> unat c" by (simp add: word_le_nat_alt unat_ucast_up)
  then have "unat (ucast n :: u32) = unat n" using unsigned_less [of c, where ?'a = nat] by (simp add: unat_ucast_small)
  moreover have "0 < unat n" using assms by (simp add: unat_gt_0)
  ultimately have "unat (ucast n - 1 :: u32) = unat n - 1" by (simp add: unat_sub word_le_nat_alt)
  then show ?thesis using True \<open>0 < unat n\<close> by simp
next
  case False
  then show ?thesis by (simp add: word_le_nat_alt unat_ucast_up)
qed

section \<open>Properties\<close>

text \<open>A small machine: 16 frames, the root table in frame 0, nothing mapped.\<close>

definition demo_vmm :: vmm_state where
  "demo_vmm = \<lparr>pmm = snd (MmAllocatePage demo_pmm), ptm = (\<lambda>_ _. 0), g_kernel_pml4_phys = 0,
     MmDirectMapBase = 0, umem = (\<lambda>_. 0x41)\<rparr>"

lemma demo_vmm_frames:
  "pmm_inv (pmm demo_vmm)" "bit_test (pmm demo_vmm) 0" "total_pages (pmm demo_vmm) = 16"
  "card (free_frames (pmm demo_vmm)) = 15"
proof -
  have e: "pmm demo_vmm = (bit_set 0 demo_pmm)\<lparr>free_pages := 15, used_pages := 1, next_hint := 1\<rparr>"
    by (simp add: demo_vmm_def MmAllocatePage_def alloc_scan.simps demo_pmm_def bit_test_bit)
  show "bit_test (pmm demo_vmm) 0" "total_pages (pmm demo_vmm) = 16" by (simp_all add: e) (simp add: demo_pmm_def)
  from demo_pmm_inv show inv: "pmm_inv (pmm demo_vmm)"
    by (cases rule: MmAllocatePage_cases) (simp_all add: demo_vmm_def demo_pmm_inv)
  have "unat (free_pages (pmm demo_vmm)) = 15" by (simp add: e)
  then show "card (free_frames (pmm demo_vmm)) = 15"
    using unat_free_pages [of "pmm demo_vmm"] inv by (simp add: pmm_inv_def)
qed

lemma demo_vmm_ok: "vmm_ok demo_vmm [0 \<mapsto> 0]"
proof -
  have "ptm demo_vmm (g_kernel_pml4_phys demo_vmm) = (\<lambda>_. 0)" by (simp add: demo_vmm_def)
  from root_only(1) [where m = "ptm demo_vmm" and root = "g_kernel_pml4_phys demo_vmm", OF this]
  have "tree_ok (ptm demo_vmm) (g_kernel_pml4_phys demo_vmm) [0 \<mapsto> 0]" by (simp add: demo_vmm_def)
  then show ?thesis using demo_vmm_frames by (simp add: vmm_ok_def frames_ok_def addr_def)
qed

lemma demo_vmm_inv: "vmm_inv demo_vmm"
  using demo_vmm_ok by (auto simp: vmm_inv_def)

lemma demo_vmm_small: "\<not> large_mapped (ptm demo_vmm) (g_kernel_pml4_phys demo_vmm) va"
proof -
  have "reach (ptm demo_vmm) (g_kernel_pml4_phys demo_vmm) 2 va = None"
    by (simp add: demo_vmm_def numeral_2_eq_2)
  then show ?thesis by (simp add: large_mapped_def)
qed

text \<open>(C4) Mapping a page. With three free frames for page tables \<^verbatim>\<open>MmMapPage\<close> returns; it refuses exactly
  when a 2 MiB page covers the address; otherwise every address of the page translates to the given
  frame and no other address changes its translation, whatever tables had to be created.\<close>

theorem MmMapPage_correct:
  assumes "vmm_inv s" and "flags AND PTE_ADDR_MASK = 0" and "3 \<le> unat (MmFreePageCount (pmm s))"
  shows "\<exists>b s'. MmMapPage va pa flags s = Some (b, s') \<and> vmm_inv s' \<and>
    (b \<longleftrightarrow> \<not> large_mapped (ptm s) (g_kernel_pml4_phys s) va) \<and>
    (\<forall>va'. MmGetPhysicalAddress s' va' = (if b \<and> page_of va' = page_of va
       then (pa AND PTE_ADDR_MASK) OR (va' AND PAGE_MASK) else MmGetPhysicalAddress s va'))"
proof -
  from assms(1) obtain D where ok: "vmm_ok s D" by (auto simp: vmm_inv_def)
  then have "3 \<le> card (free_frames (pmm s))"
    using assms(3) unat_free_pages [of "pmm s"]
    by (simp add: vmm_ok_def frames_ok_def pmm_inv_def MmFreePageCount_def)
  from ok assms(2) show ?thesis
  proof (cases rule: MmMapPage_spec [where va = va and pa = pa])
    case none
    then show ?thesis using \<open>3 \<le> card (free_frames (pmm s))\<close> by simp
  next
    case (some b s' D')
    then show ?thesis by (intro exI [of _ b] exI [of _ s']) (auto simp: vmm_inv_def)
  qed
qed

theorem MmMapPage_correct_witness:
  "\<exists>s'. MmMapPage 0x400000 0x7000 PTE_WRITE demo_vmm = Some (True, s') \<and>
     MmGetPhysicalAddress s' 0x400123 = 0x7123"
proof -
  have "3 \<le> unat (MmFreePageCount (pmm demo_vmm))"
    using demo_vmm_frames unat_free_pages [of "pmm demo_vmm"] by (simp add: pmm_inv_def MmFreePageCount_def)
  from MmMapPage_correct [OF demo_vmm_inv _ this, of PTE_WRITE "0x400000" "0x7000"]
  show ?thesis using demo_vmm_small [of "0x400000"] by (auto simp: page_of_def)
qed

text \<open>Unmapping. \<^verbatim>\<open>MmUnmapPage\<close> keeps the tables well formed; when it succeeds exactly the addresses of
  that page lose their translation; undoing a fresh \<^verbatim>\<open>MmMapPage\<close> always succeeds and gives back every
  translation there was before.\<close>

theorem MmUnmapPage_undoes_map:
  assumes "vmm_inv s" and "flags AND PTE_ADDR_MASK = 0" and "MmMapPage va pa flags s = Some (True, s1)"
    and "MmUnmapPage va s1 = (b, s2)"
  shows "vmm_inv s2 \<and> b \<and>
    (\<forall>va'. MmGetPhysicalAddress s2 va' = (if page_of va' = page_of va then MM_INVALID_PHYS
       else MmGetPhysicalAddress s va'))"
proof -
  from assms(1) obtain D where ok: "vmm_ok s D" by (auto simp: vmm_inv_def)
  from ok assms(2) show ?thesis
  proof (cases rule: MmMapPage_spec [where va = va and pa = pa])
    case none
    then show ?thesis using assms(3) by simp
  next
    case (some b' s' D')
    then have [simp]: "s' = s1" "b'" using assms(3) by simp_all
    have ok1: "vmm_ok s1 D'" using some(2) by simp
    have nl: "\<not> large_mapped (ptm s1) (g_kernel_pml4_phys s1) va" using some(4,10) by simp
    have v: "MmGetPhysicalAddress s1 va \<noteq> MM_INVALID_PHYS"
      using some(6) [of va] small_addr_valid [of pa va] by (simp add: addr_def)
    then have "reach (ptm s1) (g_kernel_pml4_phys s1) 3 va \<noteq> None"
      using nl by (auto simp: MmGetPhysicalAddress_translate translate_def large_mapped_def Let_def
          split: option.splits)
    then have b: "b" using MmUnmapPage_spec(2) [OF ok1 assms(4)] by simp
    then show ?thesis
      using MmUnmapPage_spec(1,3) [OF ok1 assms(4)] some(6) by (auto simp: vmm_inv_def)
  qed
qed

theorem MmUnmapPage_undoes_map_witness:
  "\<exists>s1. MmMapPage 0x400000 0x7000 PTE_WRITE demo_vmm = Some (True, s1) \<and>
     fst (MmUnmapPage 0x400000 s1) \<and>
     MmGetPhysicalAddress (snd (MmUnmapPage 0x400000 s1)) 0x400123 = MM_INVALID_PHYS"
proof -
  have fl: "PTE_WRITE AND PTE_ADDR_MASK = 0" by simp
  from demo_vmm_ok fl show ?thesis
  proof (cases rule: MmMapPage_spec [where va = "0x400000" and pa = "0x7000"])
    case none
    then show ?thesis using demo_vmm_frames(4) by simp
  next
    case (some b s1 D')
    then have m: "MmMapPage 0x400000 0x7000 PTE_WRITE demo_vmm = Some (True, s1)"
      using demo_vmm_small by simp
    from MmUnmapPage_undoes_map [OF demo_vmm_inv fl m, of "fst (MmUnmapPage 0x400000 s1)" "snd (MmUnmapPage 0x400000 s1)"]
    have "fst (MmUnmapPage 0x400000 s1)"
      "MmGetPhysicalAddress (snd (MmUnmapPage 0x400000 s1)) 0x400123 = MM_INVALID_PHYS"
      by (simp_all add: page_of_def)
    with m show ?thesis by blast
  qed
qed

lemma slot_eqI:
  assumes "int (unat va div 2 ^ 21) - int (unat base div 2 ^ 21) = 2 ^ 27 * q + r" and "0 \<le> r" and "r < 2 ^ 27"
  shows "slot base va = nat r"
  unfolding slot_def int_mod_pos_eq [OF assms] ..

lemma boot_slots_outside:
  assumes "va < MM_USER_MAX \<or> MM_KERNEL_HEAP_BASE \<le> va"
  shows "2 ^ 25 \<le> slot MM_DIRECT_MAP_BASE va \<and> 512 \<le> slot KERNEL_VIRT_BASE va"
proof -
  define x where "x = unat va div 2 ^ 21"
  have d: "unat MM_DIRECT_MAP_BASE div 2 ^ 21 = 8796025913344" "unat KERNEL_VIRT_BASE div 2 ^ 21 = 8796093021184"
    by simp_all
  from assms show ?thesis
  proof
    assume "va < MM_USER_MAX"
    then have x: "x < 2 ^ 26" by (simp add: x_def word_less_nat_alt)
    have "slot MM_DIRECT_MAP_BASE va = nat (int x + 2 ^ 26)" "slot KERNEL_VIRT_BASE va = nat (int x + 1024)"
      by (rule slot_eqI [where q = "- 65536"]; use x in \<open>simp add: d x_def [symmetric, simplified]\<close>)+
    then show ?thesis by auto
  next
    assume va: "MM_KERNEL_HEAP_BASE \<le> va"
    have "8796093021696 \<le> x" "x < 8796093022208"
      using va unat_less_64 [of va] by (simp_all add: x_def word_le_nat_alt less_eq_div_iff_mult_less_eq)
    then have x: "8796093021696 \<le> x" "x < 8796093022208" .
    have "slot MM_DIRECT_MAP_BASE va = nat (int x - 8796025913344)"
      "slot KERNEL_VIRT_BASE va = nat (int x - 8796093021184)"
      by (rule slot_eqI [where q = 0]; use x in \<open>simp add: d x_def [symmetric, simplified]\<close>)+
    then show ?thesis using x by (auto simp: le_nat_iff)
  qed
qed

lemma boot_address_space:
  assumes "pmm_inv (pmm s)" and "total_pages (pmm s) \<le> 2 ^ 40" and "highest_address m \<le> 2 ^ 46"
    and "1025 + 2 * boot_slots m \<le> unat (MmFreePageCount (pmm s))"
  shows "\<exists>s'. MmInitializeVirtualMemory m s = Some s' \<and> vmm_inv s' \<and> user_small s' \<and>
    MmDirectMapBase s' = MM_DIRECT_MAP_BASE \<and>
    (\<forall>pa. pa < boot_top m \<longrightarrow> MmGetPhysicalAddress s' (MM_DIRECT_MAP_BASE + pa) = pa) \<and>
    (\<forall>off < 0x40000000. MmGetPhysicalAddress s' (KERNEL_VIRT_BASE + off) = off) \<and>
    (\<forall>va. va < MM_USER_MAX \<or> MM_KERNEL_HEAP_BASE \<le> va \<longrightarrow> MmGetPhysicalAddress s' va = MM_INVALID_PHYS)"
proof -
  note top = boot_top_slots [OF assms(3)]
  have "1025 + 2 * boot_slots m \<le> card (free_frames (pmm s))"
    using assms(1,4) unat_free_pages [of "pmm s"] by (simp add: pmm_inv_def MmFreePageCount_def)
  from MmInitializeVirtualMemory_spec [OF assms(1-3) this] obtain s' D where
    s': "MmInitializeVirtualMemory m s = Some s'" "vmm_ok s' D" "MmDirectMapBase s' = MM_DIRECT_MAP_BASE" and
    tr: "\<And>va. MmGetPhysicalAddress s' va =
       (if slot MM_DIRECT_MAP_BASE va < boot_slots m
        then of_nat (slot MM_DIRECT_MAP_BASE va * 2 ^ 21) OR (va AND (LARGE_PAGE_SIZE - 1))
        else if slot KERNEL_VIRT_BASE va < 512
        then of_nat (slot KERNEL_VIRT_BASE va * 2 ^ 21) OR (va AND (LARGE_PAGE_SIZE - 1))
        else MM_INVALID_PHYS)" and
    lm: "\<And>va. large_mapped (ptm s') (g_kernel_pml4_phys s') va \<longleftrightarrow>
       slot MM_DIRECT_MAP_BASE va < boot_slots m \<or> slot KERNEL_VIRT_BASE va < 512"
    by blast
  have out: "\<not> slot MM_DIRECT_MAP_BASE va < boot_slots m \<and> \<not> slot KERNEL_VIRT_BASE va < 512"
    if va: "va < MM_USER_MAX \<or> MM_KERNEL_HEAP_BASE \<le> va" for va
  proof -
    have "2 ^ 25 \<le> slot MM_DIRECT_MAP_BASE va \<and> 512 \<le> slot KERNEL_VIRT_BASE va"
      using boot_slots_outside [OF va] .
    then show ?thesis using top(2) by linarith
  qed
  have "MmGetPhysicalAddress s' (MM_DIRECT_MAP_BASE + pa) = pa" if "pa < boot_top m" for pa
  proof -
    have lt: "unat pa < boot_slots m * 2 ^ 21" using that top(5) by (simp add: word_less_nat_alt)
    then have "unat pa < 2 ^ 46" using top(2) by simp
    with slot_of_base [of MM_DIRECT_MAP_BASE pa] large_join [of pa] lt show ?thesis
      unfolding tr by (simp add: less_mult_imp_div_less del: of_nat_mult)
  qed
  moreover have "MmGetPhysicalAddress s' (KERNEL_VIRT_BASE + off) = off" if "off < 0x40000000" for off
  proof -
    have lt: "unat off < 0x40000000" using that by (simp add: word_less_nat_alt)
    have "2 ^ 25 \<le> slot MM_DIRECT_MAP_BASE (KERNEL_VIRT_BASE + off)"
      using lt by (simp add: slot_def unat_word_ariths)
    then have "\<not> slot MM_DIRECT_MAP_BASE (KERNEL_VIRT_BASE + off) < boot_slots m" using top(2) by linarith
    with slot_of_base [of KERNEL_VIRT_BASE off] large_join [of off] lt show ?thesis
      unfolding tr by (simp add: less_mult_imp_div_less del: of_nat_mult)
  qed
  moreover have "user_small s'" unfolding user_small_def lm using out by blast
  ultimately show ?thesis
    using s' out tr by (intro exI [of _ s']) (auto simp: vmm_inv_def)
qed

text \<open>(C5) The address space \<^verbatim>\<open>MmInitializeVirtualMemory\<close> builds. With enough free frames for the tables it
  returns, and then the direct map translates every physical address below the (rounded) top of RAM to
  itself, the kernel window maps its first GiB to physical 0, the user half and the pool's arena are
  unmapped (the identity map is gone), and \<^verbatim>\<open>MmDirectMapBase\<close> names the direct map.\<close>

theorem MmInitializeVirtualMemory_correct:
  assumes "pmm_inv (pmm s)" and "total_pages (pmm s) \<le> 2 ^ 40" and "highest_address m \<le> 2 ^ 46"
    and "1025 + 2 * boot_slots m \<le> unat (MmFreePageCount (pmm s))"
  shows "\<exists>s'. MmInitializeVirtualMemory m s = Some s' \<and> vmm_inv s' \<and> user_small s' \<and>
    MmDirectMapBase s' = MM_DIRECT_MAP_BASE \<and>
    (\<forall>pa. pa < boot_top m \<longrightarrow> MmGetPhysicalAddress s' (MM_DIRECT_MAP_BASE + pa) = pa) \<and>
    (\<forall>off < 0x40000000. MmGetPhysicalAddress s' (KERNEL_VIRT_BASE + off) = off) \<and>
    (\<forall>va. va < MM_USER_MAX \<or> MM_KERNEL_HEAP_BASE \<le> va \<longrightarrow> MmGetPhysicalAddress s' va = MM_INVALID_PHYS)"
  using assms by (rule boot_address_space)

text \<open>A machine with 64 MiB above the first megabyte.\<close>

definition demo_map64 :: MM_MEMORY_MAP where
  "demo_map64 = \<lparr>regions = [\<lparr>rbase = 0x100000, rlength = 0x4000000, rtype = MmRegionAvailable\<rparr>],
    highest_address = 0x4100000, total_available = 0x4000000\<rparr>"

definition demo_boot :: vmm_state where
  "demo_boot = \<lparr>pmm = MmInitializePhysicalMemory 0x180000 (\<lambda>_. 0) demo_map64, ptm = (\<lambda>_ _. 0),
     g_kernel_pml4_phys = 0, MmDirectMapBase = 0, umem = (\<lambda>_. 0)\<rparr>"

lemma demo_boot_memory:
  "pmm_inv (pmm demo_boot)" "total_pages (pmm demo_boot) \<le> 2 ^ 40" "highest_address demo_map64 \<le> 2 ^ 46"
  "1025 + 2 * boot_slots demo_map64 \<le> unat (MmFreePageCount (pmm demo_boot))"
proof -
  have ok: "boot_map_ok 0x180000 demo_map64" by (simp add: boot_map_ok_def demo_map64_def region_fits_def)
  note sp = MmInitializePhysicalMemory_spec [OF ok, where mem = "\<lambda>_. 0"]
  have p: "pmm demo_boot = MmInitializePhysicalMemory 0x180000 (\<lambda>_. 0) demo_map64" by (simp add: demo_boot_def)
  show inv: "pmm_inv (pmm demo_boot)" unfolding p by (rule sp)
  show "total_pages (pmm demo_boot) \<le> 2 ^ 40" unfolding p sp(2) by (simp add: demo_map64_def drop_bit_eq_div)
  show "highest_address demo_map64 \<le> 2 ^ 46" by (simp add: demo_map64_def)
  have e: "bitmap_end 0x180000 demo_map64 = 0x181000"
    by (simp add: bitmap_end_def demo_map64_def PAGE_ALIGN_UP_def BYTES_TO_PAGES_def drop_bit_eq_div)
  have "{f. f < 0x4100} - {f. f < 0x200} \<subseteq> free_frames (pmm demo_boot)"
    unfolding p
  proof
    fix f :: u64 assume "f \<in> {f. f < 0x4100} - {f. f < 0x200}"
    then have "unat f < 0x4100" "0x200 \<le> unat f" by (auto simp: word_less_nat_alt)
    then show "f \<in> free_frames (MmInitializePhysicalMemory 0x180000 (\<lambda>_. 0) demo_map64)"
      unfolding sp(3) e by (simp add: demo_map64_def frame_in_region_def drop_bit_eq_div word_less_nat_alt)
  qed
  from card_mono [OF _ this] have "card ({f :: u64. f < 0x4100} - {f. f < 0x200}) \<le> card (free_frames (pmm demo_boot))"
    by simp
  moreover have "card ({f :: u64. f < 0x4100} - {f. f < 0x200}) = 0x4100 - 0x200"
    by (subst card_Diff_subset) (auto simp: card_words_below elim: less_trans)
  ultimately have "0x3F00 \<le> card (free_frames (pmm demo_boot))" by simp
  then have "0x3F00 \<le> unat (MmFreePageCount (pmm demo_boot))"
    using inv unat_free_pages [of "pmm demo_boot"] by (simp add: pmm_inv_def MmFreePageCount_def)
  moreover have "boot_slots demo_map64 = 512"
    by (simp add: boot_slots_def boot_top_def demo_map64_def Let_def)
  ultimately show "1025 + 2 * boot_slots demo_map64 \<le> unat (MmFreePageCount (pmm demo_boot))" by simp
qed

theorem MmInitializeVirtualMemory_correct_witness:
  "\<exists>s'. MmInitializeVirtualMemory demo_map64 demo_boot = Some s' \<and>
     MmGetPhysicalAddress s' 0xFFFFFFFF80100000 = 0x100000 \<and>
     MmGetPhysicalAddress s' 0xFFFF800000123456 = 0x123456 \<and>
     MmGetPhysicalAddress s' 0x100000 = MM_INVALID_PHYS"
proof -
  from MmInitializeVirtualMemory_correct [OF demo_boot_memory] obtain s' where
    s': "MmInitializeVirtualMemory demo_map64 demo_boot = Some s'" and
    d: "\<And>pa. pa < boot_top demo_map64 \<Longrightarrow> MmGetPhysicalAddress s' (MM_DIRECT_MAP_BASE + pa) = pa" and
    k: "\<And>off. off < 0x40000000 \<Longrightarrow> MmGetPhysicalAddress s' (KERNEL_VIRT_BASE + off) = off" and
    u: "\<And>va. va < MM_USER_MAX \<Longrightarrow> MmGetPhysicalAddress s' va = MM_INVALID_PHYS"
    by blast
  have "boot_top demo_map64 = 0x40000000" by (simp add: boot_top_def demo_map64_def Let_def)
  then show ?thesis using s' d [of "0x123456"] k [of "0x100000"] u [of "0x100000"] by simp
qed

text \<open>(C6) \<^verbatim>\<open>MmProbeForRead\<close> is exact. While the user half has no 2 MiB pages, the probe terminates on every
  range and answers TRUE exactly when the range is empty or every byte of it lies below the end of user
  space, without wrap-around, and is mapped.\<close>

theorem MmProbeForRead_exact:
  assumes "user_small s"
  shows "MmProbeForRead s va len = Some (len = 0 \<or> unat va + unat len \<le> unat MM_USER_MAX \<and>
    (\<forall>a. unat va \<le> unat a \<and> unat a < unat va + unat len \<longrightarrow> MmGetPhysicalAddress s a \<noteq> MM_INVALID_PHYS))"
  using MmProbeForRead_iff [OF assms, of va len] by simp

lemma demo_vmm_user_small: "user_small demo_vmm"
  by (simp add: user_small_def demo_vmm_small)

theorem MmProbeForRead_exact_witness:
  "MmProbeForRead demo_vmm 0x1000 16 = Some False \<and> MmProbeForRead demo_vmm 0xFFFFFFFFFFFFFFF8 16 = Some False"
proof -
  have "MmGetPhysicalAddress demo_vmm 0x1000 = MM_INVALID_PHYS"
    by (simp add: MmGetPhysicalAddress_def demo_vmm_def)
  then show ?thesis
    unfolding MmProbeForRead_exact [OF demo_vmm_user_small] by (auto intro!: exI [of _ "0x1000"])
qed

text \<open>(C7) \<^verbatim>\<open>MmCaptureUnicodeName\<close> stays inside its buffers. For a non-empty output buffer it always returns;
  what it writes fits, is NUL-terminated and otherwise printable 7-bit text without embedded NULs; and it
  reports success only after every byte of the descriptor and of the text it copied was user memory that
  is mapped.\<close>

theorem MmCaptureUnicodeName_safe:
  assumes "user_small s" and "n \<noteq> 0"
  shows "\<exists>ok out. MmCaptureUnicodeName s u n = Some (ok, out) \<and> out \<noteq> [] \<and> length out \<le> unat n \<and>
    last out = 0 \<and> (\<forall>c \<in> set (butlast out). c \<noteq> 0 \<and> c < 0x80) \<and>
    (ok \<longrightarrow> (\<forall>a. unat u \<le> unat a \<and> unat a < unat u + 16 \<or>
        unat (read64 s (u + 8)) \<le> unat a \<and> unat a < unat (read64 s (u + 8)) + 2 * (length out - 1) \<longrightarrow>
        a < MM_USER_MAX \<and> MmGetPhysicalAddress s a \<noteq> MM_INVALID_PHYS))"
proof -
  define chars :: u32 where "chars = (if n \<le> ucast (ucast (read16 s u div 2) :: u32)
    then ucast n - 1 else ucast (read16 s u div 2))"
  define buf where "buf = read64 s (u + 8)"
  define len where "len = (ucast chars * 2 :: u64)"
  have ch: "unat chars < unat n" unfolding chars_def by (rule capture_count [OF assms(2)])
  have n1: "1 \<le> unat n" using ch by simp
  have len: "unat len = 2 * unat chars"
    using unsigned_less [of chars, where ?'a = nat] by (simp add: len_def unat_word_ariths unat_ucast_up)
  obtain b1 where p1: "MmProbeForRead s u 16 = Some b1" using MmProbeForRead_total by blast
  obtain b2 where p2: "MmProbeForRead s buf len = Some b2" using MmProbeForRead_total by blast
  have in1: "a < MM_USER_MAX \<and> MmGetPhysicalAddress s a \<noteq> MM_INVALID_PHYS"
    if "b1" "unat u \<le> unat a" "unat a < unat u + 16" for a
    using that p1 MmProbeForRead_iff [OF assms(1), of u 16] by (auto simp: word_less_nat_alt)
  have in2: "a < MM_USER_MAX \<and> MmGetPhysicalAddress s a \<noteq> MM_INVALID_PHYS"
    if "chars \<noteq> 0 \<longrightarrow> b2" "unat buf \<le> unat a" "unat a < unat buf + 2 * unat chars" for a
  proof -
    have "chars \<noteq> 0" using that(2,3) by auto
    then have "b2" "len \<noteq> 0" using that(1) len by (auto simp: unat_eq_0 [symmetric])
    then show ?thesis
      using that(2,3) p2 MmProbeForRead_iff [OF assms(1), of buf len] by (auto simp: word_less_nat_alt len)
  qed
  define chs where "chs = map (\<lambda>i. capture_char (read16 s (buf + 2 * of_nat i))) [0..<unat chars]"
  have eq: "MmCaptureUnicodeName s u n =
    Some (if b1 \<and> (chars \<noteq> 0 \<longrightarrow> b2) then (True, chs @ [0]) else (False, [0]))"
    using assms(2) p1 p2
    by (auto simp: MmCaptureUnicodeName_def Let_def chars_def [symmetric] buf_def [symmetric] len_def [symmetric] chs_def)
  have chs: "length chs = unat chars" "\<forall>c \<in> set chs. c \<noteq> 0 \<and> c < 0x80"
    using capture_char_range by (auto simp: chs_def)
  show ?thesis
  proof (cases "b1 \<and> (chars \<noteq> 0 \<longrightarrow> b2)")
    case True
    then show ?thesis
      using chs ch in1 in2 by (intro exI [of _ True] exI [of _ "chs @ [0]"]) (auto simp: eq buf_def)
  next
    case False
    then show ?thesis using n1 by (intro exI [of _ False] exI [of _ "[0]"]) (auto simp: eq)
  qed
qed

theorem MmCaptureUnicodeName_safe_witness:
  "\<exists>ok out. MmCaptureUnicodeName demo_vmm 0x1000 8 = Some (ok, out) \<and> length out \<le> 8 \<and> last out = 0"
  using MmCaptureUnicodeName_safe [OF demo_vmm_user_small, of 8 "0x1000"] by auto

text \<open>\<^verbatim>\<open>MmProtectRange\<close> never changes which frame backs an address. For a range that does not wrap
  around it always returns (it needs no new page table, so it cannot run out of memory), and every address
  translates as before.\<close>

theorem MmProtectRange_same_frames:
  assumes "vmm_inv s" and "unat va + unat len + 4095 < 2 ^ 64"
  shows "\<exists>s'. MmProtectRange va len writable s = Some s' \<and> vmm_inv s' \<and>
    (\<forall>a. MmGetPhysicalAddress s' a = MmGetPhysicalAddress s a)"
proof -
  from assms(1) obtain D where ok: "vmm_ok s D" by (auto simp: vmm_inv_def)
  have u: "unat (va + len) = unat va + unat len" using assms(2) by (simp add: unat_word_ariths)
  define n where "n = (unat va + unat len + 4095) div 4096"
  have "unat va div 4096 \<le> n" unfolding n_def by (rule div_le_mono) simp
  moreover have "n * 4096 \<le> unat va + unat len + 4095" unfolding n_def by (rule div_times_less_eq_dividend)
  then have "n * 4096 < 2 ^ 64" using assms(2) by linarith
  moreover have "(PTE_USER OR (if writable then PTE_WRITE else 0)) AND PTE_ADDR_MASK = 0" by simp
  ultimately obtain s' D' where "protect_loop (of_nat (unat va div 4096 * 4096)) (of_nat (n * 4096))
      (PTE_USER OR (if writable then PTE_WRITE else 0)) s = Some s'" "vmm_ok s' D'"
    "\<forall>a. MmGetPhysicalAddress s' a = MmGetPhysicalAddress s a"
    using protect_loop_spec [OF ok, of "PTE_USER OR (if writable then PTE_WRITE else 0)" "unat va div 4096" n] by blast
  moreover have "PAGE_ALIGN_UP (va + len) = of_nat (n * 4096)"
    using PAGE_ALIGN_UP_unat [of "va + len"] assms(2) u by (simp add: n_def)
  ultimately show ?thesis
    by (intro exI [of _ s']) (auto simp: MmProtectRange_def PAGE_ALIGN_unat vmm_inv_def simp del: of_nat_mult)
qed

theorem MmProtectRange_same_frames_witness:
  "\<exists>s'. MmProtectRange 0x400010 0x2000 False demo_vmm = Some s' \<and>
     MmGetPhysicalAddress s' 0x400010 = MmGetPhysicalAddress demo_vmm 0x400010"
  using MmProtectRange_same_frames [OF demo_vmm_inv, of "0x400010" "0x2000" False] by auto

end
