(* ===== verification/Ex_Pool.thy ===== *)
theory Ex_Pool
  imports Mm_Vmm
begin

text \<open>
  The kernel pool, \<^verbatim>\<open>kernel/ex/pool.c\<close>: a first-fit heap over an arena at \<^verbatim>\<open>MM_KERNEL_HEAP_BASE\<close> that grows by
  mapping frames at its end. \<open>pool_state\<close> holds the memory manager, the globals of the file, the
  block headers (\<open>nodes s a\<close> is the \<^verbatim>\<open>POOL_NODE\<close> at address \<open>a\<close>) and the payload bytes. Headers and
  payloads are separate stores: a payload write that runs over a header is outside the model, one that
  runs into the guard bytes is inside it. The list walks are partial functions, \<open>None\<close> standing for a walk
  that never ends and for \<^verbatim>\<open>KeBugCheck\<close>.

  \<open>pool_inv s bs\<close> says that the headers are the doubly linked list of the blocks \<open>bs\<close>, which tile the arena.
  The lemmas show that every operation keeps it and refines the corresponding operation on block lists; the
  locale \<open>pool_contract\<close> is what the object manager and the other clients rely on.
\<close>

section \<open>State\<close>

datatype POOL_TYPE = NonPagedPool | PagedPool

record POOL_NODE =
  n_prev :: u64
  n_next :: u64
  n_size :: u64
  n_requested :: u64
  n_free :: bool
  n_tag :: u32
  n_magic :: u32

abbreviation "POOL_HDR \<equiv> (48 :: u64)"
abbreviation "POOL_ALIGN \<equiv> (16 :: u64)"
abbreviation "POOL_MIN_PAYLOAD \<equiv> (16 :: u64)"
abbreviation "POOL_GROW_CHUNK \<equiv> (0x10000 :: u64)"
abbreviation "POOL_MAGIC \<equiv> (0x4C4F4F50 :: u32)"
abbreviation "POOL_GUARD \<equiv> (16 :: u64)"
abbreviation "POOL_GUARD_BYTE \<equiv> (0xAB :: u8)"
abbreviation "POOL_VALIDATE_EVERY \<equiv> (64 :: u32)"

record pool_state =
  mm :: vmm_state
  nodes :: "u64 \<Rightarrow> POOL_NODE"
  payload :: "u64 \<Rightarrow> u8"
  g_head :: u64
  g_tail :: u64
  g_heap_end :: u64
  g_bytes_in_use :: u64
  g_pool_broken :: bool
  calls :: u32

text \<open>\<^verbatim>\<open>n->field = \<dots>\<close>: an update of the header at address \<open>a\<close>.\<close>

definition upd_node :: "u64 \<Rightarrow> (POOL_NODE \<Rightarrow> POOL_NODE) \<Rightarrow> pool_state \<Rightarrow> pool_state" where
  "upd_node a f s = s\<lparr>nodes := (nodes s)(a := f (nodes s a))\<rparr>"

section \<open>Operations\<close>

definition payload_to_node :: "u64 \<Rightarrow> u64" where
  "payload_to_node p = p - POOL_HDR"

function arm_loop :: "u64 \<Rightarrow> u64 \<Rightarrow> u64 \<Rightarrow> (u64 \<Rightarrow> u8) \<Rightarrow> (u64 \<Rightarrow> u8)" where
  "arm_loop p i lim m = (if i < lim then arm_loop p (i + 1) lim (m(p + i := POOL_GUARD_BYTE)) else m)"
  by pat_completeness auto
termination
  by (relation "measure (\<lambda>(p, i, lim, m). unat lim - unat i)") auto

definition pool_arm_guard :: "u64 \<Rightarrow> pool_state \<Rightarrow> pool_state" where
  "pool_arm_guard n s =
     s\<lparr>payload := arm_loop (n + POOL_HDR) (n_requested (nodes s n)) (n_size (nodes s n)) (payload s)\<rparr>"

function guard_loop :: "u64 \<Rightarrow> u64 \<Rightarrow> u64 \<Rightarrow> (u64 \<Rightarrow> u8) \<Rightarrow> bool" where
  "guard_loop p i lim m =
     (if i < lim then (if m (p + i) \<noteq> POOL_GUARD_BYTE then False else guard_loop p (i + 1) lim m) else True)"
  by pat_completeness auto
termination
  by (relation "measure (\<lambda>(p, i, lim, m). unat lim - unat i)") auto

definition pool_guard_intact :: "u64 \<Rightarrow> pool_state \<Rightarrow> bool" where
  "pool_guard_intact n s =
     guard_loop (n + POOL_HDR) (n_requested (nodes s n)) (n_size (nodes s n)) (payload s)"

declare arm_loop.simps [simp del] guard_loop.simps [simp del]

text \<open>The walk of \<^verbatim>\<open>pool_validate\<close>: \<open>Some True\<close> when it reports corruption.\<close>

partial_function (option) validate_loop :: "pool_state \<Rightarrow> u64 \<Rightarrow> u64 \<Rightarrow> u64 \<Rightarrow> bool option" where
  "validate_loop s prev ad n =
     (if n = 0 then Some (ad \<noteq> g_heap_end s)
      else
        (let h = nodes s n in
         if n \<noteq> ad then Some True
         else if n_magic h \<noteq> POOL_MAGIC then Some True
         else if n_prev h \<noteq> prev then Some True
         else if n_size h = 0 \<or> g_heap_end s < n + POOL_HDR + n_size h then Some True
         else if \<not> n_free h \<and> n_size h < n_requested h then Some True
         else if \<not> n_free h \<and> \<not> pool_guard_intact n s then Some True
         else validate_loop s n (n + POOL_HDR + n_size h) (n_next h)))"

definition pool_validate :: "pool_state \<Rightarrow> pool_state option" where
  "pool_validate s =
     (if g_pool_broken s then Some s
      else do {
        bad \<leftarrow> validate_loop s 0 MM_KERNEL_HEAP_BASE (g_head s);
        Some (if bad then s\<lparr>g_pool_broken := True\<rparr> else s)
      })"

text \<open>The commit loop of \<^verbatim>\<open>pool_grow\<close>.\<close>

partial_function (option) commit_loop :: "u64 \<Rightarrow> u64 \<Rightarrow> u64 \<Rightarrow> vmm_state \<Rightarrow> (bool \<times> vmm_state) option" where
  "commit_loop start off want v =
     (if off < want then
        (let (pa, p) = MmAllocatePage (pmm v); v1 = v\<lparr>pmm := p\<rparr>
         in if pa = MM_INVALID_PHYS then Some (False, v1)
            else do {
              (ok, v2) \<leftarrow> MmMapPage (start + off) pa PTE_WRITE v1;
              if \<not> ok then Some (False, v2)
              else commit_loop start (off + PAGE_SIZE) want v2
            })
      else Some (True, v))"

definition pool_grow :: "u64 \<Rightarrow> pool_state \<Rightarrow> (bool \<times> pool_state) option" where
  "pool_grow need s =
     (let want = ALIGN_UP_BY (need + POOL_HDR) POOL_GROW_CHUNK; start = g_heap_end s
      in do {
        (ok, v) \<leftarrow> commit_loop start 0 want (mm s);
        let s1 = s\<lparr>mm := v\<rparr>;
        if \<not> ok then Some (False, s1)
        else
          (let s2 = s1\<lparr>g_heap_end := g_heap_end s1 + want\<rparr>
           in if g_tail s2 \<noteq> 0 \<and> n_free (nodes s2 (g_tail s2)) then
                Some (True, upd_node (g_tail s2) (\<lambda>h. h\<lparr>n_size := n_size h + want\<rparr>) s2)
              else
                (let s3 = s2\<lparr>nodes := (nodes s2)(start :=
                       \<lparr>n_prev = g_tail s2, n_next = 0, n_size = want - POOL_HDR, n_requested = 0,
                        n_free = True, n_tag = 0, n_magic = POOL_MAGIC\<rparr>)\<rparr>;
                     s4 = (if g_tail s3 \<noteq> 0 then upd_node (g_tail s3) (\<lambda>h. h\<lparr>n_next := start\<rparr>) s3
                           else s3\<lparr>g_head := start\<rparr>)
                 in Some (True, s4\<lparr>g_tail := start\<rparr>)))
      })"

definition ExInitializePool :: "pool_state \<Rightarrow> pool_state option" where
  "ExInitializePool s =
     do {
       (ok, s1) \<leftarrow> pool_grow (POOL_GROW_CHUNK - POOL_HDR)
          (s\<lparr>g_head := 0, g_tail := 0, g_heap_end := MM_KERNEL_HEAP_BASE, g_bytes_in_use := 0\<rparr>);
       if \<not> ok then None else Some s1
     }"

definition pool_split :: "u64 \<Rightarrow> u64 \<Rightarrow> pool_state \<Rightarrow> pool_state" where
  "pool_split node need s =
     (if n_size (nodes s node) < need + POOL_HDR + POOL_MIN_PAYLOAD then s
      else
        (let rest = node + POOL_HDR + need;
             s1 = s\<lparr>nodes := (nodes s)(rest :=
                    \<lparr>n_prev = node, n_next = n_next (nodes s node),
                     n_size = n_size (nodes s node) - need - POOL_HDR, n_requested = 0,
                     n_free = True, n_tag = 0, n_magic = POOL_MAGIC\<rparr>)\<rparr>;
             nx = n_next (nodes s1 rest);
             s2 = (if nx \<noteq> 0 then upd_node nx (\<lambda>h. h\<lparr>n_prev := rest\<rparr>) s1 else s1\<lparr>g_tail := rest\<rparr>)
         in upd_node node (\<lambda>h. h\<lparr>n_next := rest, n_size := need\<rparr>) s2))"

partial_function (option) find_fit :: "pool_state \<Rightarrow> u64 \<Rightarrow> u64 \<Rightarrow> u64 option" where
  "find_fit s need n =
     (if n = 0 then Some 0
      else if n_free (nodes s n) \<and> need \<le> n_size (nodes s n) then Some n
      else find_fit s need (n_next (nodes s n)))"

text \<open>What \<^verbatim>\<open>ExAllocatePoolWithTag\<close> does with the block it found.\<close>

definition pool_claim :: "u64 \<Rightarrow> u64 \<Rightarrow> u64 \<Rightarrow> u32 \<Rightarrow> pool_state \<Rightarrow> pool_state" where
  "pool_claim n need sz tag s =
     (let s1 = pool_split n need s;
          s2 = upd_node n (\<lambda>h. h\<lparr>n_free := False, n_tag := tag, n_requested := sz\<rparr>) s1;
          s3 = pool_arm_guard n s2
      in s3\<lparr>g_bytes_in_use := g_bytes_in_use s3 + n_size (nodes s3 n)\<rparr>)"

text \<open>The \<^verbatim>\<open>attempt\<close> loop; the first argument counts the attempts left.\<close>

primrec alloc_attempts :: "nat \<Rightarrow> u64 \<Rightarrow> u64 \<Rightarrow> u32 \<Rightarrow> pool_state \<Rightarrow> (u64 \<times> pool_state) option" where
  "alloc_attempts 0 need sz tag s = Some (0, s)"
| "alloc_attempts (Suc k) need sz tag s =
     do {
       n \<leftarrow> find_fit s need (g_head s);
       if n \<noteq> 0 then Some (n + POOL_HDR, pool_claim n need sz tag s)
       else do {
         (ok, s1) \<leftarrow> pool_grow need s;
         if ok then alloc_attempts k need sz tag s1 else Some (0, s1)
       }
     }"

definition ExAllocatePoolWithTag :: "POOL_TYPE \<Rightarrow> u64 \<Rightarrow> u32 \<Rightarrow> pool_state \<Rightarrow> (u64 \<times> pool_state) option" where
  "ExAllocatePoolWithTag type sz tag s =
     (if sz = 0 then Some (0, s)
      else
        (let s1 = s\<lparr>calls := calls s + 1\<rparr>
         in do {
           s2 \<leftarrow> (if calls s1 mod POOL_VALIDATE_EVERY = 0 then pool_validate s1 else Some s1);
           alloc_attempts 2 (ALIGN_UP_BY sz POOL_ALIGN + POOL_GUARD) sz tag s2
         }))"

definition ExAllocatePool :: "POOL_TYPE \<Rightarrow> u64 \<Rightarrow> pool_state \<Rightarrow> (u64 \<times> pool_state) option" where
  "ExAllocatePool type sz s = ExAllocatePoolWithTag type sz 0 s"

text \<open>The two coalescing steps of \<^verbatim>\<open>ExFreePool\<close>.\<close>

definition coalesce_next :: "u64 \<Rightarrow> pool_state \<Rightarrow> pool_state" where
  "coalesce_next node s =
     (let next = n_next (nodes s node)
      in if next \<noteq> 0 \<and> n_free (nodes s next) then
           (let nn = n_next (nodes s next);
                s1 = upd_node node (\<lambda>h. h\<lparr>n_size := n_size h + (POOL_HDR + n_size (nodes s next)), n_next := nn\<rparr>) s
            in if nn \<noteq> 0 then upd_node nn (\<lambda>h. h\<lparr>n_prev := node\<rparr>) s1 else s1\<lparr>g_tail := node\<rparr>)
         else s)"

definition coalesce_prev :: "u64 \<Rightarrow> pool_state \<Rightarrow> pool_state" where
  "coalesce_prev node s =
     (let prev = n_prev (nodes s node)
      in if prev \<noteq> 0 \<and> n_free (nodes s prev) then
           (let nn = n_next (nodes s node);
                s1 = upd_node prev (\<lambda>h. h\<lparr>n_size := n_size h + (POOL_HDR + n_size (nodes s node)), n_next := nn\<rparr>) s
            in if nn \<noteq> 0 then upd_node nn (\<lambda>h. h\<lparr>n_prev := prev\<rparr>) s1 else s1\<lparr>g_tail := prev\<rparr>)
         else s)"

definition ExFreePool :: "u64 \<Rightarrow> pool_state \<Rightarrow> pool_state option" where
  "ExFreePool p s =
     (if p = 0 then Some s
      else
        (let node = payload_to_node p;
             s1 = (if n_magic (nodes s node) \<noteq> POOL_MAGIC \<and> \<not> g_pool_broken s
                   then s\<lparr>g_pool_broken := True\<rparr> else s)
         in if n_free (nodes s1 node) then None
            else
              (let s2 = (if \<not> g_pool_broken s1 \<and> \<not> pool_guard_intact node s1
                         then s1\<lparr>g_pool_broken := True\<rparr> else s1);
                   s3 = upd_node node (\<lambda>h. h\<lparr>n_free := True, n_tag := 0, n_requested := 0\<rparr>) s2;
                   s4 = s3\<lparr>g_bytes_in_use := g_bytes_in_use s3 - n_size (nodes s3 node)\<rparr>
               in Some (coalesce_prev node (coalesce_next node s4)))))"

definition ExPoolBytesInUse :: "pool_state \<Rightarrow> u64" where
  "ExPoolBytesInUse s = g_bytes_in_use s"

section \<open>Block lists\<close>

record block =
  bsize :: nat
  breq :: nat
  bfree :: bool
  btag :: u32

text \<open>\<open>A k\<close> is the address \<open>k\<close> bytes into the arena.\<close>

definition A :: "nat \<Rightarrow> u64" where
  "A k = MM_KERNEL_HEAP_BASE + of_nat k"

lemma unat_A: "k < 2 ^ 30 \<Longrightarrow> unat (A k) = 0xFFFFFFFFC0000000 + k"
  by (simp add: A_def unat_word_ariths unat_of_nat)

lemma A_inj: "j < 2 ^ 30 \<Longrightarrow> k < 2 ^ 30 \<Longrightarrow> A j = A k \<longleftrightarrow> j = k"
  by (auto simp: word_unat_eq_iff unat_A)

lemma A_nonzero: "k < 2 ^ 30 \<Longrightarrow> A k \<noteq> 0"
proof
  assume "k < 2 ^ 30" "A k = 0"
  then have "unat (A k) = 0" by simp
  with unat_A [OF \<open>k < 2 ^ 30\<close>] show False by simp
qed

lemma A_add: "A j + of_nat k = A (j + k)"
  by (simp add: A_def)

lemma A_hdr: "A j + POOL_HDR = A (j + 48)"
  using A_add [of j 48] by simp

lemma A_0: "A 0 = MM_KERNEL_HEAP_BASE"
  by (simp add: A_def)

fun extent :: "block list \<Rightarrow> nat" where
  "extent [] = 0"
| "extent (b # bs) = 48 + bsize b + extent bs"

lemma extent_append [simp]: "extent (xs @ ys) = extent xs + extent ys"
  by (induction xs) auto

definition matches :: "POOL_NODE \<Rightarrow> block \<Rightarrow> bool" where
  "matches h b \<longleftrightarrow> n_size h = of_nat (bsize b) \<and> n_free h = bfree b \<and> n_magic h = POOL_MAGIC \<and>
     (\<not> bfree b \<longrightarrow> n_requested h = of_nat (breq b) \<and> n_tag h = btag b)"

text \<open>\<open>seg N p j bs nx\<close>: the headers of the blocks \<open>bs\<close> lie end to end from arena offset \<open>j\<close>, doubly linked,
  with \<open>p\<close> before the first and \<open>nx\<close> after the last.\<close>

fun seg :: "(u64 \<Rightarrow> POOL_NODE) \<Rightarrow> u64 \<Rightarrow> nat \<Rightarrow> block list \<Rightarrow> u64 \<Rightarrow> bool" where
  "seg N p j [] nx = True"
| "seg N p j (b # bs) nx \<longleftrightarrow> matches (N (A j)) b \<and> n_prev (N (A j)) = p \<and>
     n_next (N (A j)) = (if bs = [] then nx else A (j + 48 + bsize b)) \<and>
     seg N (A j) (j + 48 + bsize b) bs nx"

definition last_ptr :: "u64 \<Rightarrow> nat \<Rightarrow> block list \<Rightarrow> u64" where
  "last_ptr p j xs = (if xs = [] then p else A (j + extent (butlast xs)))"

definition hd_ptr :: "nat \<Rightarrow> block list \<Rightarrow> u64 \<Rightarrow> u64" where
  "hd_ptr j xs nx = (if xs = [] then nx else A j)"

lemma last_ptr_simps [simp]:
  "last_ptr p j [] = p" "last_ptr p j (xs @ [b]) = A (j + extent xs)" "last_ptr p j [b] = A j"
  by (simp_all add: last_ptr_def)

lemma last_ptr_Cons: "last_ptr p j (b # bs) = last_ptr (A j) (j + 48 + bsize b) bs"
  by (simp add: last_ptr_def add.assoc)

lemma last_ptr_append: "ys \<noteq> [] \<Longrightarrow> last_ptr p j (xs @ ys) = last_ptr q (j + extent xs) ys"
  by (simp add: last_ptr_def butlast_append add.assoc)

lemma hd_ptr_simps [simp]: "hd_ptr j [] nx = nx" "hd_ptr j (b # bs) nx = A j"
  by (simp_all add: hd_ptr_def)

lemma seg_append:
  "seg N p j (xs @ ys) nx \<longleftrightarrow>
   seg N p j xs (hd_ptr (j + extent xs) ys nx) \<and> seg N (last_ptr p j xs) (j + extent xs) ys nx"
proof (induction xs arbitrary: p j)
  case (Cons b xs)
  then show ?case by (auto simp: last_ptr_Cons [of p] hd_ptr_def add.assoc)
qed simp

fun starts :: "nat \<Rightarrow> block list \<Rightarrow> nat set" where
  "starts j [] = {}"
| "starts j (b # bs) = insert j (starts (j + 48 + bsize b) bs)"

lemma starts_bounds: "k \<in> starts j xs \<Longrightarrow> j \<le> k \<and> k + 48 \<le> j + extent xs"
  by (induction xs arbitrary: j) force+

lemma starts_append [simp]: "starts j (xs @ ys) = starts j xs \<union> starts (j + extent xs) ys"
  by (induction xs arbitrary: j) (auto simp: add.assoc)

lemma seg_cong: "(\<And>k. k \<in> starts j xs \<Longrightarrow> N' (A k) = N (A k)) \<Longrightarrow> seg N' p j xs nx = seg N p j xs nx"
  by (induction xs arbitrary: p j) auto

lemma seg_set_prev:
  assumes "seg N p j ys nx" and "j + extent ys < 2 ^ 30"
    and "\<And>k. k \<in> starts j ys \<Longrightarrow> N' (A k) = (if k = j then (N (A k))\<lparr>n_prev := q\<rparr> else N (A k))"
  shows "seg N' q j ys nx"
proof (cases ys)
  case (Cons b bs)
  have "N' (A k) = N (A k)" if "k \<in> starts (j + 48 + bsize b) bs" for k
    using assms(3) [of k] that starts_bounds [OF that] Cons by auto
  then have "seg N' (A j) (j + 48 + bsize b) bs nx = seg N (A j) (j + 48 + bsize b) bs nx"
    by (rule seg_cong)
  then show ?thesis using assms Cons by (auto simp: matches_def)
qed simp

text \<open>Replacing a stretch of blocks by another of the same extent.\<close>

lemma seg_splice:
  assumes seg: "seg N p j (xs @ ms @ ys) nx" and ne: "ms \<noteq> []" "cs \<noteq> []" and len: "extent cs = extent ms"
    and fits: "j + extent (xs @ ms @ ys) < 2 ^ 30"
    and left: "\<And>k. k \<in> starts j xs \<Longrightarrow> N' (A k) = N (A k)"
    and mid: "seg N' (last_ptr p j xs) (j + extent xs) cs (hd_ptr (j + extent xs + extent ms) ys nx)"
    and right: "\<And>k. k \<in> starts (j + extent xs + extent ms) ys \<Longrightarrow>
      N' (A k) = (if k = j + extent xs + extent ms
        then (N (A k))\<lparr>n_prev := last_ptr (last_ptr p j xs) (j + extent xs) cs\<rparr> else N (A k))"
  shows "seg N' p j (xs @ cs @ ys) nx"
proof -
  have h: "hd_ptr k (zs @ ys) nx = A k" if "zs \<noteq> []" for k zs using that by (simp add: hd_ptr_def)
  from seg have 1: "seg N p j xs (A (j + extent xs))"
    and 3: "seg N (last_ptr (last_ptr p j xs) (j + extent xs) ms) (j + extent xs + extent ms) ys nx"
    by (simp_all add: seg_append h ne)
  have "seg N' p j xs (A (j + extent xs))" using 1 seg_cong [of j xs N' N] left by blast
  moreover have "seg N' (last_ptr (last_ptr p j xs) (j + extent xs) cs) (j + extent xs + extent ms) ys nx"
    by (rule seg_set_prev [OF 3]) (use fits right in auto)
  ultimately show ?thesis using mid by (simp add: seg_append h ne len)
qed

lemma seg_node:
  assumes "seg N p j (xs @ b # ys) nx"
  shows "matches (N (A (j + extent xs))) b" "n_prev (N (A (j + extent xs))) = last_ptr p j xs"
    "n_next (N (A (j + extent xs))) = hd_ptr (j + extent xs + 48 + bsize b) ys nx"
  using assms by (auto simp: seg_append hd_ptr_def)


section \<open>The invariant\<close>

definition pool_list :: "pool_state \<Rightarrow> block list \<Rightarrow> bool" where
  "pool_list s bs \<longleftrightarrow> seg (nodes s) 0 0 bs 0 \<and> g_head s = hd_ptr 0 bs 0 \<and> g_tail s = last_ptr 0 0 bs \<and>
     g_heap_end s = A (extent bs) \<and> extent bs < 2 ^ 30"

definition block_ok :: "block \<Rightarrow> bool" where
  "block_ok b \<longleftrightarrow> 16 dvd bsize b \<and> 0 < bsize b \<and> (\<not> bfree b \<longrightarrow> 0 < breq b \<and> breq b + 16 \<le> bsize b)"

fun no_adj :: "block list \<Rightarrow> bool" where
  "no_adj (a # b # bs) \<longleftrightarrow> \<not> (bfree a \<and> bfree b) \<and> no_adj (b # bs)"
| "no_adj _ = True"

fun guards :: "(u64 \<Rightarrow> u8) \<Rightarrow> nat \<Rightarrow> block list \<Rightarrow> bool" where
  "guards m j [] = True"
| "guards m j (b # bs) \<longleftrightarrow>
     (\<not> bfree b \<longrightarrow> (\<forall>i. breq b \<le> i \<and> i < bsize b \<longrightarrow> m (A (j + 48 + i)) = POOL_GUARD_BYTE)) \<and>
     guards m (j + 48 + bsize b) bs"

definition used_bytes :: "block list \<Rightarrow> nat" where
  "used_bytes bs = sum_list (map bsize (filter (\<lambda>b. \<not> bfree b) bs))"

text \<open>The arena is mapped page by page, each page has cost a frame, and the machine has less than 1 GiB.\<close>

definition arena_ok :: "vmm_state \<Rightarrow> nat \<Rightarrow> bool" where
  "arena_ok v e \<longleftrightarrow> vmm_inv v \<and> 4096 * unat (total_pages (pmm v)) < 2 ^ 30 \<and> 4096 dvd e \<and>
     e + 4096 * card (free_frames (pmm v)) \<le> 4096 * unat (total_pages (pmm v)) \<and>
     (\<forall>k < e. MmGetPhysicalAddress v (A k) \<noteq> MM_INVALID_PHYS) \<and>
     (\<forall>k < 2 ^ 30. \<not> large_mapped (ptm v) (g_kernel_pml4_phys v) (A k))"

definition pool_inv :: "pool_state \<Rightarrow> block list \<Rightarrow> bool" where
  "pool_inv s bs \<longleftrightarrow> pool_list s bs \<and> (\<forall>b \<in> set bs. block_ok b) \<and> no_adj bs \<and> guards (payload s) 0 bs \<and>
     g_bytes_in_use s = of_nat (used_bytes bs) \<and> arena_ok (mm s) (extent bs) \<and> \<not> g_pool_broken s"

lemma guards_append: "guards m j (xs @ ys) \<longleftrightarrow> guards m j xs \<and> guards m (j + extent xs) ys"
  by (induction xs arbitrary: j) (auto simp: add.assoc)

lemma guards_cong:
  "(\<And>k. j \<le> k \<Longrightarrow> k < j + extent xs \<Longrightarrow> m' (A k) = m (A k)) \<Longrightarrow> guards m j xs \<Longrightarrow> guards m' j xs"
  by (induction xs arbitrary: j) auto

lemma no_adj_Cons: "no_adj (b # bs) \<longleftrightarrow> no_adj bs \<and> (bs \<noteq> [] \<longrightarrow> \<not> (bfree b \<and> bfree (hd bs)))"
  by (cases bs) auto

lemma no_adj_append:
  "no_adj (xs @ ys) \<longleftrightarrow> no_adj xs \<and> no_adj ys \<and> (xs \<noteq> [] \<and> ys \<noteq> [] \<longrightarrow> \<not> (bfree (last xs) \<and> bfree (hd ys)))"
  by (induction xs) (auto simp: no_adj_Cons)

lemma used_bytes_simps [simp]:
  "used_bytes [] = 0" "used_bytes (b # bs) = (if bfree b then 0 else bsize b) + used_bytes bs"
  "used_bytes (xs @ ys) = used_bytes xs + used_bytes ys"
  by (auto simp: used_bytes_def)

lemma used_bytes_le: "used_bytes bs \<le> extent bs"
  by (induction bs) auto

subsection \<open>Guard bytes\<close>

lemma arm_loop_spec: "arm_loop p i l m a = (if \<exists>k. i \<le> k \<and> k < l \<and> a = p + k then POOL_GUARD_BYTE else m a)"
proof (induction p i l m rule: arm_loop.induct)
  case (1 p i l m)
  show ?case
  proof (cases "i < l")
    case True
    have le: "i \<le> k \<longleftrightarrow> k = i \<or> i + 1 \<le> k" for k
      using word_le_Suc_iff [OF True, of k] by (auto simp: order_le_less)
    define m' where "m' = m(p + i := POOL_GUARD_BYTE)"
    have m': "m' b = (if b = p + i then POOL_GUARD_BYTE else m b)" for b by (simp add: m'_def)
    have eq: "arm_loop p i l m = arm_loop p (i + 1) l m'"
      using True unfolding m'_def by (subst arm_loop.simps) (simp only: if_True)
    have IH: "arm_loop p (i + 1) l m' a = (if \<exists>k. i + 1 \<le> k \<and> k < l \<and> a = p + k then POOL_GUARD_BYTE else m' a)"
      using "1.IH" [OF True] unfolding m'_def .
    show ?thesis unfolding eq IH le m' using True by auto
  next
    case False
    then show ?thesis by (subst arm_loop.simps) auto
  qed
qed

lemma guard_loop_spec: "guard_loop p i l m \<longleftrightarrow> (\<forall>k. i \<le> k \<and> k < l \<longrightarrow> m (p + k) = POOL_GUARD_BYTE)"
proof (induction p i l m rule: guard_loop.induct)
  case (1 p i l m)
  show ?case
  proof (cases "i < l")
    case True
    have le: "i \<le> k \<longleftrightarrow> k = i \<or> i + 1 \<le> k" for k
      using word_le_Suc_iff [OF True, of k] by (auto simp: order_le_less)
    show ?thesis
      using True "1.IH" [OF True] by (subst guard_loop.simps) (auto simp: le)
  next
    case False
    then show ?thesis by (subst guard_loop.simps) auto
  qed
qed

lemma word_range_iff:
  assumes "r < 2 ^ 30" "z < 2 ^ 30"
  shows "(\<exists>k. of_nat r \<le> k \<and> k < of_nat z \<and> a = A j + (k :: u64)) \<longleftrightarrow> (\<exists>i. r \<le> i \<and> i < z \<and> a = A (j + i))"
proof
  assume "\<exists>k. of_nat r \<le> k \<and> k < of_nat z \<and> a = A j + (k :: u64)"
  then obtain k :: u64 where k: "of_nat r \<le> k" "k < of_nat z" "a = A j + k" by blast
  then have "r \<le> unat k" "unat k < z"
    using assms by (simp_all add: word_le_nat_alt word_less_nat_alt unat_of_nat)
  moreover have "a = A (j + unat k)" using k(3) A_add [of j "unat k"] by simp
  ultimately show "\<exists>i. r \<le> i \<and> i < z \<and> a = A (j + i)" by blast
next
  assume "\<exists>i. r \<le> i \<and> i < z \<and> a = A (j + i)"
  then obtain i where i: "r \<le> i" "i < z" "a = A (j + i)" by blast
  then have "(of_nat r :: u64) \<le> of_nat i \<and> (of_nat i :: u64) < of_nat z"
    using assms by (simp add: word_le_nat_alt word_less_nat_alt unat_of_nat)
  then show "\<exists>k. of_nat r \<le> k \<and> k < of_nat z \<and> a = A j + (k :: u64)"
    using i(3) A_add [of j i] by (intro exI [of _ "of_nat i"]) simp
qed

lemma pool_guard_intact_iff:
  assumes "matches (nodes s (A j)) b" "\<not> bfree b" "breq b < 2 ^ 30" "bsize b < 2 ^ 30"
  shows "pool_guard_intact (A j) s \<longleftrightarrow>
    (\<forall>i. breq b \<le> i \<and> i < bsize b \<longrightarrow> payload s (A (j + 48 + i)) = POOL_GUARD_BYTE)"
proof -
  have "pool_guard_intact (A j) s \<longleftrightarrow>
      (\<forall>a. (\<exists>k. of_nat (breq b) \<le> k \<and> k < of_nat (bsize b) \<and> a = A (j + 48) + (k :: u64)) \<longrightarrow> payload s a = POOL_GUARD_BYTE)"
    using assms(1,2) by (auto simp: pool_guard_intact_def guard_loop_spec matches_def A_hdr)
  then show ?thesis unfolding word_range_iff [OF assms(3,4)] by auto
qed

subsection \<open>Searching and validating\<close>

lemma matches_size:
  assumes "matches h b" "bsize b < 2 ^ 30"
  shows "unat (n_size h) = bsize b"
  using assms by (simp add: matches_def unat_of_nat)

definition fits :: "u64 \<Rightarrow> block \<Rightarrow> bool" where
  "fits need b \<longleftrightarrow> bfree b \<and> unat need \<le> bsize b"

lemma find_fit_spec:
  assumes "seg (nodes s) p j bs 0" "j + extent bs < 2 ^ 30"
  shows "(\<exists>xs b ys. bs = xs @ b # ys \<and> fits need b \<and> find_fit s need (hd_ptr j bs 0) = Some (A (j + extent xs))) \<or>
    (\<forall>b \<in> set bs. \<not> fits need b) \<and> find_fit s need (hd_ptr j bs 0) = Some 0"
  using assms
proof (induction bs arbitrary: p j)
  case Nil
  then show ?case by (simp add: find_fit.simps)
next
  case (Cons b bs)
  have j: "j < 2 ^ 30" and sz: "bsize b < 2 ^ 30" using Cons.prems(2) by auto
  have fit: "n_free (nodes s (A j)) \<and> need \<le> n_size (nodes s (A j)) \<longleftrightarrow> fits need b"
    using Cons.prems(1) matches_size [of "nodes s (A j)" b, OF _ sz]
    by (auto simp: fits_def matches_def word_le_nat_alt)
  show ?case
  proof (cases "fits need b")
    case True
    then have "find_fit s need (hd_ptr j (b # bs) 0) = Some (A (j + extent []))"
      using fit A_nonzero [OF j] by (simp add: find_fit.simps)
    with True show ?thesis by blast
  next
    case False
    have nx: "n_next (nodes s (A j)) = hd_ptr (j + 48 + bsize b) bs 0"
      using Cons.prems(1) by (auto simp: hd_ptr_def)
    have step: "find_fit s need (hd_ptr j (b # bs) 0) = find_fit s need (hd_ptr (j + 48 + bsize b) bs 0)"
      using False fit A_nonzero [OF j] nx by (subst find_fit.simps) auto
    have "seg (nodes s) (A j) (j + 48 + bsize b) bs 0" "j + 48 + bsize b + extent bs < 2 ^ 30"
      using Cons.prems by auto
    from Cons.IH [OF this] show ?thesis
    proof
      assume "\<exists>xs c ys. bs = xs @ c # ys \<and> fits need c \<and>
        find_fit s need (hd_ptr (j + 48 + bsize b) bs 0) = Some (A (j + 48 + bsize b + extent xs))"
      then obtain xs c ys where "b # bs = (b # xs) @ c # ys" "fits need c"
        "find_fit s need (hd_ptr j (b # bs) 0) = Some (A (j + extent (b # xs)))"
        using step by (auto simp: add.assoc)
      then show ?thesis by blast
    qed (use step False in auto)
  qed
qed

lemma validate_loop_spec:
  assumes "seg (nodes s) p j bs 0" "j + extent bs < 2 ^ 30" "g_heap_end s = A (j + extent bs)"
    "\<forall>b \<in> set bs. block_ok b" "guards (payload s) j bs"
  shows "validate_loop s p (A j) (hd_ptr j bs 0) = Some False"
  using assms
proof (induction bs arbitrary: p j)
  case Nil
  then show ?case by (simp add: validate_loop.simps)
next
  case (Cons b bs)
  let ?h = "nodes s (A j)" and ?j = "j + 48 + bsize b"
  have j: "j < 2 ^ 30" and sz: "bsize b < 2 ^ 30" using Cons.prems(2) by auto
  have m: "matches ?h b" "n_prev ?h = p" using Cons.prems(1) by auto
  have nx: "n_next ?h = hd_ptr ?j bs 0" using Cons.prems(1) by (auto simp: hd_ptr_def)
  have "A j + POOL_HDR + n_size ?h = A ?j"
    using m A_add [of "j + 48" "bsize b"] by (simp add: matches_def A_hdr)
  moreover have "A ?j \<le> g_heap_end s"
    using Cons.prems(2,3) by (simp add: word_le_nat_alt unat_A)
  moreover have "n_size ?h \<noteq> 0"
    using matches_size [OF m(1) sz] Cons.prems(4) by (auto simp: block_ok_def)
  moreover have "bfree b \<or> n_requested ?h \<le> n_size ?h \<and> pool_guard_intact (A j) s"
  proof (cases "bfree b")
    case False
    then have r: "breq b + 16 \<le> bsize b" using Cons.prems(4) by (simp add: block_ok_def)
    then have "breq b < 2 ^ 30" using sz by simp
    then show ?thesis
      using pool_guard_intact_iff [OF m(1) False _ sz] m(1) False Cons.prems(5) r sz
      by (auto simp: matches_def word_le_nat_alt unat_of_nat)
  qed simp
  ultimately have "validate_loop s p (A j) (hd_ptr j (b # bs) 0) = validate_loop s (A j) (A ?j) (hd_ptr ?j bs 0)"
    using m nx A_nonzero [OF j] by (subst validate_loop.simps) (auto simp: matches_def Let_def)
  also have "\<dots> = Some False"
    by (rule Cons.IH) (use Cons.prems in \<open>auto simp: add.assoc\<close>)
  finally show ?case .
qed

lemma pool_validate_ok: "pool_inv s bs \<Longrightarrow> pool_validate s = Some s"
  using validate_loop_spec [of s 0 0 bs]
  by (simp add: pool_validate_def pool_inv_def pool_list_def A_0)

section \<open>The operations on the list\<close>

lemma pool_list_splice:
  assumes pl: "pool_list s (xs @ ms @ ys)" and ne: "ms \<noteq> []" "cs \<noteq> []" and len: "extent cs = extent ms"
    and left: "\<And>k. k \<in> starts 0 xs \<Longrightarrow> nodes s' (A k) = nodes s (A k)"
    and mid: "seg (nodes s') (last_ptr 0 0 xs) (extent xs) cs (hd_ptr (extent xs + extent ms) ys 0)"
    and right: "\<And>k. k \<in> starts (extent xs + extent ms) ys \<Longrightarrow> nodes s' (A k) = (if k = extent xs + extent ms
        then (nodes s (A k))\<lparr>n_prev := last_ptr 0 (extent xs) cs\<rparr> else nodes s (A k))"
    and glob: "g_head s' = g_head s" "g_heap_end s' = g_heap_end s"
      "g_tail s' = (if ys = [] then last_ptr 0 (extent xs) cs else g_tail s)"
  shows "pool_list s' (xs @ cs @ ys)"
proof -
  have lp: "last_ptr p j cs = last_ptr q j cs" for p q j using ne by (simp add: last_ptr_def)
  have "seg (nodes s') 0 0 (xs @ cs @ ys) 0"
    by (rule seg_splice [where ms = ms]) (use assms lp [of "last_ptr 0 0 xs" _ 0] in \<open>auto simp: pool_list_def\<close>)
  moreover have "hd_ptr 0 (xs @ cs @ ys) 0 = hd_ptr 0 (xs @ ms @ ys) 0" using ne by (simp add: hd_ptr_def)
  moreover have "last_ptr 0 0 (xs @ cs @ ys) = (if ys = [] then last_ptr 0 (extent xs) cs else last_ptr 0 0 (xs @ ms @ ys))"
    using ne len last_ptr_append [of ys 0 0 "xs @ cs" 0] last_ptr_append [of ys 0 0 "xs @ ms" 0]
      last_ptr_append [of cs 0 0 xs 0] by auto
  ultimately show ?thesis using pl glob len by (auto simp: pool_list_def)
qed

lemma upd_node_fields [simp]:
  "nodes (upd_node a f s) = (nodes s)(a := f (nodes s a))" "g_head (upd_node a f s) = g_head s"
  "g_tail (upd_node a f s) = g_tail s" "g_heap_end (upd_node a f s) = g_heap_end s"
  "payload (upd_node a f s) = payload s" "g_bytes_in_use (upd_node a f s) = g_bytes_in_use s"
  "g_pool_broken (upd_node a f s) = g_pool_broken s" "mm (upd_node a f s) = mm s" "calls (upd_node a f s) = calls s"
  by (simp_all add: upd_node_def)

lemma hd_ptr_nonzero: "j < 2 ^ 30 \<Longrightarrow> hd_ptr j ys 0 \<noteq> 0 \<longleftrightarrow> ys \<noteq> []"
  by (simp add: hd_ptr_def A_nonzero)

lemma starts_hd: "k \<in> starts j ys \<Longrightarrow> ys \<noteq> []"
  by (cases ys) auto

lemma of_nat_sub: "n \<le> m \<Longrightarrow> (of_nat m :: u64) - of_nat n = of_nat (m - n)"
  by (simp add: of_nat_diff)

text \<open>The block a split leaves behind, and its remainder.\<close>

definition split_block :: "nat \<Rightarrow> block \<Rightarrow> block list" where
  "split_block need b =
     (if bsize b < need + 64 then [b]
      else [b\<lparr>bsize := need\<rparr>, \<lparr>bsize = bsize b - need - 48, breq = 0, bfree = True, btag = 0\<rparr>])"

lemma extent_split [simp]: "extent (split_block need b) = 48 + bsize b"
  by (simp add: split_block_def)

lemma split_block_ne [simp]: "split_block need b \<noteq> []"
  by (simp add: split_block_def)

lemma pool_split_list:
  assumes pl: "pool_list s (xs @ b # ys)" and need: "unat need \<le> bsize b"
  shows "pool_list (pool_split (A (extent xs)) need s) (xs @ split_block (unat need) b @ ys)"
proof -
  let ?j = "extent xs" and ?e = "extent xs + (48 + bsize b)" and ?n = "unat need"
  have seg: "seg (nodes s) 0 0 (xs @ b # ys) 0" and bound: "?e + extent ys < 2 ^ 30"
    using pl by (simp_all add: pool_list_def)
  have sz: "bsize b < 2 ^ 30" using bound by simp
  note at = seg_node [OF seg, simplified]
  have us: "unat (n_size (nodes s (A ?j))) = bsize b" using matches_size [OF at(1) sz] .
  have un: "unat (need + POOL_HDR + POOL_MIN_PAYLOAD) = ?n + 64"
    using need sz by (simp add: unat_word_ariths)
  have cond: "n_size (nodes s (A ?j)) < need + POOL_HDR + POOL_MIN_PAYLOAD \<longleftrightarrow> bsize b < ?n + 64"
    unfolding word_less_nat_alt us un ..
  show ?thesis
  proof (cases "bsize b < ?n + 64")
    case True
    then show ?thesis using pl cond by (simp add: pool_split_def split_block_def)
  next
    case False
    let ?r = "?j + 48 + ?n"
    have rest: "A ?j + POOL_HDR + need = A ?r"
      using A_add [of "?j + 48" ?n] by (simp add: A_hdr)
    have nx: "n_next (nodes s (A ?j)) = hd_ptr ?e ys 0" using at(3) by (simp add: add.assoc)
    have e30: "?e < 2 ^ 30" "?r < 2 ^ 30" "?j < 2 ^ 30" "?r < ?e" using bound False by simp_all
    have ne: "A ?j \<noteq> A ?r" "A ?e \<noteq> A ?r" "A ?e \<noteq> A ?j" using e30 by (simp_all add: A_inj)
    let ?s = "pool_split (A ?j) need s"
    have nodes: "nodes ?s a = (if a = A ?j then (nodes s (A ?j))\<lparr>n_next := A ?r, n_size := need\<rparr>
        else if ys \<noteq> [] \<and> a = A ?e then (nodes s (A ?e))\<lparr>n_prev := A ?r\<rparr>
        else if a = A ?r then \<lparr>n_prev = A ?j, n_next = hd_ptr ?e ys 0,
           n_size = n_size (nodes s (A ?j)) - need - POOL_HDR, n_requested = 0, n_free = True, n_tag = 0, n_magic = POOL_MAGIC\<rparr>
        else nodes s a)" for a
      using False cond ne hd_ptr_nonzero [OF e30(1), of ys]
      by (auto simp: pool_split_def Let_def rest nx hd_ptr_def upd_node_def)
    have glob: "g_head ?s = g_head s" "g_heap_end ?s = g_heap_end s"
      "g_tail ?s = (if ys = [] then A ?r else g_tail s)"
      using False cond hd_ptr_nonzero [OF e30(1), of ys]
      by (auto simp: pool_split_def Let_def rest nx)
    let ?cs = "split_block ?n b"
    have cs: "?cs = [b\<lparr>bsize := ?n\<rparr>, \<lparr>bsize = bsize b - ?n - 48, breq = 0, bfree = True, btag = 0\<rparr>]"
      using False by (simp add: split_block_def)
    have last: "last_ptr p ?j ?cs = A ?r" for p by (simp add: cs last_ptr_def add.assoc)
    have sub: "n_size (nodes s (A ?j)) - need - POOL_HDR = of_nat (bsize b - ?n - 48)"
      using at(1) need False of_nat_sub [of ?n "bsize b"] of_nat_sub [of 48 "bsize b - ?n"]
      by (simp add: matches_def)
    have "pool_list ?s (xs @ ?cs @ ys)"
    proof (rule pool_list_splice [where ms = "[b]"])
      show "pool_list s (xs @ [b] @ ys)" using pl by simp
      show "nodes ?s (A k) = nodes s (A k)" if "k \<in> starts 0 xs" for k
        using starts_bounds [OF that] e30 by (simp add: nodes A_inj)
      show "seg (nodes ?s) (last_ptr 0 0 xs) ?j ?cs (hd_ptr (?j + extent [b]) ys 0)"
        using at(1,2) ne sub by (simp add: cs nodes matches_def add.assoc)
      show "nodes ?s (A k) = (if k = ?j + extent [b]
          then (nodes s (A k))\<lparr>n_prev := last_ptr 0 ?j ?cs\<rparr> else nodes s (A k))"
        if "k \<in> starts (?j + extent [b]) ys" for k
        using starts_bounds [OF that] starts_hd [OF that] e30 bound by (auto simp: nodes A_inj last)
    qed (simp_all add: glob last)
    then show ?thesis .
  qed
qed

lemma pool_split_fields [simp]:
  "payload (pool_split n need s) = payload s" "g_bytes_in_use (pool_split n need s) = g_bytes_in_use s"
  "g_pool_broken (pool_split n need s) = g_pool_broken s" "mm (pool_split n need s) = mm s"
  "g_head (pool_split n need s) = g_head s" "g_heap_end (pool_split n need s) = g_heap_end s"
  by (simp_all add: pool_split_def Let_def)

text \<open>Rewriting the fields of one header in place.\<close>

lemma pool_list_update:
  assumes pl: "pool_list s (xs @ b # ys)" and f: "matches (f (nodes s (A (extent xs)))) c" "bsize c = bsize b"
    "\<And>h. n_prev (f h) = n_prev h" "\<And>h. n_next (f h) = n_next h"
  shows "pool_list (upd_node (A (extent xs)) f s) (xs @ c # ys)"
proof -
  let ?j = "extent xs" and ?s = "upd_node (A (extent xs)) f s"
  have seg: "seg (nodes s) 0 0 (xs @ b # ys) 0" and bound: "?j + (48 + bsize b) + extent ys < 2 ^ 30"
    using pl by (simp_all add: pool_list_def)
  note at = seg_node [OF seg, simplified]
  have 2: "seg (nodes s) (A ?j) (?j + (48 + bsize b)) ys 0"
    using seg by (simp add: seg_append last_ptr_def add.assoc)
  have *: "pool_list ?s (xs @ [c] @ ys)"
  proof (rule pool_list_splice [where ms = "[b]"])
    show "nodes ?s (A k) = nodes s (A k)" if "k \<in> starts 0 xs" for k
      using starts_bounds [OF that] bound by (simp add: A_inj)
    show "seg (nodes ?s) (last_ptr 0 0 xs) ?j [c] (hd_ptr (?j + extent [b]) ys 0)"
      using at f by (simp add: add.assoc)
    show "nodes ?s (A k) = (if k = ?j + extent [b]
        then (nodes s (A k))\<lparr>n_prev := last_ptr 0 ?j [c]\<rparr> else nodes s (A k))"
      if "k \<in> starts (?j + extent [b]) ys" for k
      using starts_bounds [OF that] starts_hd [OF that] 2 bound by (cases ys) (auto simp: A_inj add.assoc)
  qed (use pl f in \<open>simp_all add: pool_list_def last_ptr_def\<close>)
  then show ?thesis by simp
qed

lemma pool_list_node:
  assumes "pool_list s (xs @ b # ys)"
  shows "matches (nodes s (A (extent xs))) b" "n_prev (nodes s (A (extent xs))) = last_ptr 0 0 xs"
    "n_next (nodes s (A (extent xs))) = hd_ptr (extent xs + 48 + bsize b) ys 0"
  using seg_node [of "nodes s" 0 0 xs b ys 0] assms by (simp_all add: pool_list_def)

text \<open>Both coalescing steps absorb a block into its lower neighbour.\<close>

definition absorb :: "u64 \<Rightarrow> u64 \<Rightarrow> pool_state \<Rightarrow> pool_state" where
  "absorb lo hi s =
     (let nn = n_next (nodes s hi);
          s1 = upd_node lo (\<lambda>h. h\<lparr>n_size := n_size h + (POOL_HDR + n_size (nodes s hi)), n_next := nn\<rparr>) s
      in if nn \<noteq> 0 then upd_node nn (\<lambda>h. h\<lparr>n_prev := lo\<rparr>) s1 else s1\<lparr>g_tail := lo\<rparr>)"

lemma coalesce_absorb:
  "coalesce_next n s = (let m = n_next (nodes s n) in if m \<noteq> 0 \<and> n_free (nodes s m) then absorb n m s else s)"
  "coalesce_prev n s = (let m = n_prev (nodes s n) in if m \<noteq> 0 \<and> n_free (nodes s m) then absorb m n s else s)"
  by (simp_all add: coalesce_next_def coalesce_prev_def absorb_def Let_def)

lemma absorb_fields [simp]:
  "payload (absorb lo hi s) = payload s" "g_bytes_in_use (absorb lo hi s) = g_bytes_in_use s"
  "g_pool_broken (absorb lo hi s) = g_pool_broken s" "mm (absorb lo hi s) = mm s" "calls (absorb lo hi s) = calls s"
  "g_head (absorb lo hi s) = g_head s" "g_heap_end (absorb lo hi s) = g_heap_end s"
  by (simp_all add: absorb_def Let_def)

definition join :: "block \<Rightarrow> block \<Rightarrow> block" where
  "join a b = a\<lparr>bsize := bsize a + 48 + bsize b\<rparr>"

lemma absorb_list:
  assumes pl: "pool_list s (xs @ a # b # ys)"
  shows "pool_list (absorb (A (extent xs)) (A (extent xs + 48 + bsize a)) s) (xs @ join a b # ys)"
proof -
  let ?j = "extent xs" and ?k = "extent xs + 48 + bsize a" and ?e = "extent xs + extent [a, b]"
  let ?s = "absorb (A ?j) (A ?k) s"
  have seg: "seg (nodes s) 0 0 (xs @ a # b # ys) 0" and bound: "?e + extent ys < 2 ^ 30"
    using pl by (simp_all add: pool_list_def)
  note at = seg_node [OF seg, simplified]
  have "seg (nodes s) 0 0 ((xs @ [a]) @ b # ys) 0" using seg by simp
  note bt = seg_node [OF this, simplified add.assoc, simplified]
  have nn: "n_next (nodes s (A ?k)) = hd_ptr ?e ys 0" using bt(3) by (simp add: ac_simps)
  have sz: "n_size (nodes s (A ?k)) = of_nat (bsize b)" using bt(1) by (simp add: matches_def add.assoc)
  have e30: "?e < 2 ^ 30" "?j < 2 ^ 30" "?k < 2 ^ 30" using bound by simp_all
  have ne: "A ?e \<noteq> A ?j" using e30 by (simp add: A_inj)
  have nodes: "nodes ?s x = (if x = A ?j then (nodes s (A ?j))
        \<lparr>n_size := n_size (nodes s (A ?j)) + (POOL_HDR + of_nat (bsize b)), n_next := hd_ptr ?e ys 0\<rparr>
      else if ys \<noteq> [] \<and> x = A ?e then (nodes s (A ?e))\<lparr>n_prev := A ?j\<rparr> else nodes s x)" for x
    using ne hd_ptr_nonzero [OF e30(1), of ys]
    by (auto simp: absorb_def Let_def nn sz hd_ptr_def upd_node_def)
  have tl: "g_tail ?s = (if ys = [] then A ?j else g_tail s)"
    using hd_ptr_nonzero [OF e30(1), of ys] by (auto simp: absorb_def Let_def nn)
  have "pool_list ?s (xs @ [join a b] @ ys)"
  proof (rule pool_list_splice [where ms = "[a, b]"])
    show "nodes ?s (A i) = nodes s (A i)" if "i \<in> starts 0 xs" for i
      using starts_bounds [OF that] e30 by (simp add: nodes A_inj)
    show "seg (nodes ?s) (last_ptr 0 0 xs) ?j [join a b] (hd_ptr (?j + extent [a, b]) ys 0)"
      using at unfolding seg.simps nodes by (simp add: matches_def join_def ac_simps)
    show "nodes ?s (A i) = (if i = ?j + extent [a, b]
        then (nodes s (A i))\<lparr>n_prev := last_ptr 0 ?j [join a b]\<rparr> else nodes s (A i))"
      if "i \<in> starts (?j + extent [a, b]) ys" for i
      using starts_bounds [OF that] starts_hd [OF that] e30 bound by (auto simp: nodes A_inj)
  qed (use pl tl in \<open>simp_all add: join_def\<close>)
  then show ?thesis by simp
qed

subsection \<open>Allocation\<close>

lemma align16: "unat sz \<le> 2 ^ 62 \<Longrightarrow> unat (ALIGN_UP_BY sz POOL_ALIGN) = (unat sz + 15) div 16 * 16"
proof -
  assume le: "unat sz \<le> 2 ^ 62"
  have u: "unat (sz + 15) = unat sz + 15" using le by (simp add: unat_word_ariths)
  have "(15 :: u64) = mask 4" by (simp add: mask_eq_exp_minus_1)
  then have "ALIGN_UP_BY sz POOL_ALIGN = (sz + 15) AND NOT (mask 4)"
    by (simp add: ALIGN_UP_BY_def ALIGN_DOWN_BY_def)
  also have "\<dots> = push_bit 4 (drop_bit 4 (sz + 15))" by (rule bit_eqI) (auto simp: bit_simps)
  finally have "ALIGN_UP_BY sz POOL_ALIGN = drop_bit 4 (sz + 15) * 16" by (simp add: push_bit_eq_mult)
  moreover have "(unat sz + 15) div 16 * 16 \<le> unat sz + 15" by simp
  ultimately show ?thesis using le by (simp add: unat_word_ariths drop_bit_eq_div unat_div u)
qed

definition need_of :: "u64 \<Rightarrow> nat" where
  "need_of sz = (unat sz + 15) div 16 * 16 + 16"

lemma need_of:
  assumes "unat sz \<le> 2 ^ 62"
  shows "unat (ALIGN_UP_BY sz POOL_ALIGN + POOL_GUARD) = need_of sz"
    and "unat sz + 16 \<le> need_of sz" and "16 dvd need_of sz" and "need_of sz \<le> unat sz + 31"
proof -
  show le: "need_of sz \<le> unat sz + 31" by (simp add: need_of_def)
  show "unat (ALIGN_UP_BY sz POOL_ALIGN + POOL_GUARD) = need_of sz"
    using align16 [OF assms] le assms by (simp add: unat_word_ariths need_of_def)
  show "16 dvd need_of sz" by (simp add: need_of_def)
  have "unat sz \<le> (unat sz + 15) div 16 * 16" by linarith
  then show "unat sz + 16 \<le> need_of sz" by (simp add: need_of_def)
qed

definition claim_blocks :: "nat \<Rightarrow> nat \<Rightarrow> u32 \<Rightarrow> block \<Rightarrow> block list" where
  "claim_blocks need sz tag b = (let cs = split_block need b
     in (hd cs)\<lparr>breq := sz, bfree := False, btag := tag\<rparr> # tl cs)"

lemma pool_claim_inv:
  assumes inv: "pool_inv s (xs @ b # ys)" and fit: "fits need b" and sz: "unat sz \<le> 2 ^ 62" "sz \<noteq> 0"
    and need: "need = ALIGN_UP_BY sz POOL_ALIGN + POOL_GUARD"
  shows "pool_inv (pool_claim (A (extent xs)) need sz tag s) (xs @ claim_blocks (need_of sz) (unat sz) tag b @ ys)"
proof -
  let ?j = "extent xs" and ?n = "need_of sz"
  note n = need_of [OF sz(1)]
  have un: "unat need = ?n" using n(1) need by simp
  have b: "bfree b" "?n \<le> bsize b" using fit un by (simp_all add: fits_def)
  have ok: "\<forall>c \<in> set xs \<union> {b} \<union> set ys. block_ok c" and na: "no_adj (xs @ b # ys)"
    and gd: "guards (payload s) 0 (xs @ b # ys)" and pl: "pool_list s (xs @ b # ys)"
    using inv by (auto simp: pool_inv_def)
  have bound: "?j + 48 + bsize b + extent ys < 2 ^ 30" using pl by (simp add: pool_list_def)
  define b0 r where "b0 = hd (split_block ?n b)" and "r = tl (split_block ?n b)"
  have sb: "split_block ?n b = b0 # r" by (simp add: b0_def r_def)
  define c where "c = b0\<lparr>breq := unat sz, bfree := False, btag := tag\<rparr>"
  have cb: "claim_blocks ?n (unat sz) tag b = c # r" by (simp add: claim_blocks_def c_def b0_def r_def Let_def)
  have bs0: "?n \<le> bsize b0" "bsize b0 \<le> bsize b" "bsize c = bsize b0" "breq c = unat sz" "\<not> bfree c" "bfree b0"
    using b by (auto simp: b0_def c_def split_block_def)
  have ext: "48 + bsize c + extent r = 48 + bsize b" using extent_split [of ?n b] sb bs0(3) by simp
  have dv: "16 dvd bsize b" using ok by (simp add: block_ok_def)
  have okc: "block_ok c" "\<forall>d \<in> set r. block_ok d \<and> bfree d"
    using bs0 n dv sz(2) b
    by (auto simp: block_ok_def b0_def r_def split_block_def unat_gt_0 dvd_diff_nat split: if_splits)
  define s1 where "s1 = pool_split (A ?j) need s"
  define s2 where "s2 = upd_node (A ?j) (\<lambda>h. h\<lparr>n_free := False, n_tag := tag, n_requested := sz\<rparr>) s1"
  have pl1: "pool_list s1 (xs @ b0 # (r @ ys))"
    using pool_split_list [OF pl, of need] b un sb by (simp add: s1_def)
  then have m1: "matches (nodes s1 (A ?j)) b0" by (rule pool_list_node)
  have pl2: "pool_list s2 (xs @ c # (r @ ys))"
    unfolding s2_def by (rule pool_list_update [OF pl1]) (use m1 bs0 in \<open>auto simp: matches_def c_def\<close>)
  then have m2: "matches (nodes s2 (A ?j)) c" by (rule pool_list_node)
  let ?s = "pool_claim (A ?j) need sz tag s"
  have fields: "nodes ?s = nodes s2" "g_head ?s = g_head s2" "g_tail ?s = g_tail s2" "g_heap_end ?s = g_heap_end s2"
    "mm ?s = mm s" "g_pool_broken ?s = g_pool_broken s"
    "g_bytes_in_use ?s = g_bytes_in_use s + of_nat (bsize c)"
    using m2 by (simp_all add: pool_claim_def Let_def pool_arm_guard_def s1_def [symmetric] s2_def [symmetric] matches_def)
      (simp_all add: s2_def s1_def)
  have b30: "breq c < 2 ^ 30" "bsize c < 2 ^ 30" using bs0 n(2) bound by simp_all
  have ps: "payload s2 = payload s" by (simp add: s2_def s1_def)
  have "payload ?s = arm_loop (A (?j + 48)) (of_nat (breq c)) (of_nat (bsize c)) (payload s2)"
  proof -
    have "payload ?s = payload (pool_arm_guard (A ?j) s2)" by (simp add: pool_claim_def Let_def s2_def s1_def)
    then show ?thesis using m2 bs0(5) by (simp add: pool_arm_guard_def matches_def A_hdr)
  qed
  then have "payload ?s a = (if \<exists>k. of_nat (breq c) \<le> k \<and> k < of_nat (bsize c) \<and> a = A (?j + 48) + (k :: u64)
      then POOL_GUARD_BYTE else payload s a)" for a
    by (simp only: arm_loop_spec ps)
  then have pay: "payload ?s a = (if \<exists>i. breq c \<le> i \<and> i < bsize c \<and> a = A (?j + 48 + i)
      then POOL_GUARD_BYTE else payload s a)" for a
    unfolding word_range_iff [OF b30] .
  have out: "payload ?s (A k) = payload s (A k)" if "k < ?j \<or> ?j + 48 + bsize c \<le> k" "k < 2 ^ 30" for k
    using that bound ext by (auto simp: pay A_inj)
  have gx: "guards (payload s) 0 xs" "guards (payload s) (?j + 48 + bsize c + extent r) ys"
    using gd ext by (auto simp: guards_append add.assoc)
  have "guards (payload ?s) 0 xs" by (rule guards_cong [OF _ gx(1)]) (use out bound in auto)
  moreover have "guards (payload ?s) (?j + 48 + bsize c + extent r) ys"
    by (rule guards_cong [OF _ gx(2)]) (use out bound ext in auto)
  moreover have "guards m k r" for m k using okc(2) by (induction r arbitrary: k) auto
  ultimately have "guards (payload ?s) 0 (xs @ c # r @ ys)"
    using pay by (auto simp: guards_append add.assoc)
  moreover have "no_adj (xs @ c # r @ ys)"
    using na b(1) bs0 by (auto simp: no_adj_append no_adj_Cons r_def split_block_def split: if_splits)
  moreover have "pool_list ?s (xs @ c # r @ ys)" using pl2 fields by (simp add: pool_list_def)
  moreover have "g_bytes_in_use ?s = of_nat (used_bytes (xs @ c # r @ ys))"
  proof -
    have "used_bytes r = 0" using okc(2) by (induction r) auto
    then show ?thesis using inv b(1) bs0(5) fields by (simp add: pool_inv_def)
  qed
  moreover have ex: "extent (xs @ c # r @ ys) = extent (xs @ b # ys)" using ext by simp
  have "arena_ok (mm ?s) (extent (xs @ c # r @ ys))" unfolding ex fields using inv by (simp add: pool_inv_def)
  ultimately show ?thesis
    using inv okc fields(6) ok unfolding cb pool_inv_def
    by (auto simp del: extent_append extent.simps used_bytes_simps)
qed

subsection \<open>Live blocks\<close>

text \<open>The payload addresses in use, with the size their owner asked for.\<close>

fun live_from :: "nat \<Rightarrow> block list \<Rightarrow> (u64 \<rightharpoonup> nat)" where
  "live_from j [] = Map.empty"
| "live_from j (b # bs) = (if bfree b then live_from (j + 48 + bsize b) bs
     else (live_from (j + 48 + bsize b) bs)(A (j + 48) \<mapsto> breq b))"

lemma live_append: "live_from j (xs @ ys) = live_from (j + extent xs) ys ++ live_from j xs"
  by (induction xs arbitrary: j) (auto simp: add.assoc)

lemma live_free: "\<forall>b \<in> set bs. bfree b \<Longrightarrow> live_from j bs = Map.empty"
  by (induction bs arbitrary: j) auto

lemma live_split:
  assumes "live_from j bs a = Some r"
  obtains xs b ys where "bs = xs @ b # ys" "\<not> bfree b" "breq b = r" "a = A (j + extent xs + 48)"
  using assms
proof (induction bs arbitrary: j thesis)
  case (Cons b bs)
  show ?case
  proof (cases "\<not> bfree b \<and> a = A (j + 48)")
    case True
    then show ?thesis using Cons.prems(1) [of "[]" b bs] Cons.prems(2) by simp
  next
    case False
    then have "live_from (j + 48 + bsize b) bs a = Some r" using Cons.prems(2) by (auto split: if_splits)
    then obtain xs c ys where "bs = xs @ c # ys" "\<not> bfree c" "breq c = r" "a = A (j + 48 + bsize b + extent xs + 48)"
      using Cons.IH [of "j + 48 + bsize b"] by metis
    then show ?thesis using Cons.prems(1) [of "b # xs" c ys] by (simp add: add.assoc)
  qed
qed simp

lemma live_None:
  assumes "k < j + 48 \<or> j + extent bs < k" "k < 2 ^ 30" "j + extent bs < 2 ^ 30"
  shows "live_from j bs (A k) = None"
proof (rule ccontr)
  assume "live_from j bs (A k) \<noteq> None"
  then obtain r where "live_from j bs (A k) = Some r" by auto
  then obtain xs b ys where "bs = xs @ b # ys" and eq: "A k = A (j + extent xs + 48)"
    by (rule live_split)
  then have "extent xs + 48 + bsize b \<le> extent bs" by simp
  with assms eq show False by (auto simp: A_inj)
qed

lemma live_replace:
  assumes len: "extent cs = extent ms" and bound: "extent (xs @ ms @ ys) < 2 ^ 30" and pos: "48 < extent ms"
    and mid: "live_from (extent xs) cs = (live_from (extent xs) ms)(A (extent xs + 48) := v)"
  shows "live_from 0 (xs @ cs @ ys) = (live_from 0 (xs @ ms @ ys))(A (extent xs + 48) := v)"
proof -
  let ?k = "extent xs + 48"
  have n1: "live_from 0 xs (A ?k) = None" by (rule live_None) (use bound pos in auto)
  have n2: "live_from (extent xs + extent ms) ys (A ?k) = None"
    by (rule live_None) (use bound pos in auto)
  show ?thesis
    using n1 n2 by (intro ext) (simp add: live_append len mid map_add_def split: option.splits)
qed

subsection \<open>Growing\<close>

lemma page_of_A:
  assumes "4096 dvd e" "e \<le> k" "k < e + 4096" "e + 4096 \<le> 2 ^ 30"
  shows "page_of (A k) = page_of (A e)"
proof -
  from assms(1) obtain q where e: "e = 4096 * q" by (auto elim: dvdE)
  then have "k div 4096 = q" using assms(2,3) by (simp add: div_nat_eqI)
  then have "(0xFFFFFFFFC0000000 + k) div 4096 = (0xFFFFFFFFC0000000 + e) div 4096"
    using e by (simp add: div_add1_eq [of "0xFFFFFFFFC0000000" k] div_add1_eq [of "0xFFFFFFFFC0000000" e])
  then show ?thesis
    using assms by (simp add: word_unat_eq_iff page_of_unat unat_A)
qed

lemma arena_less: "arena_ok v e \<Longrightarrow> e < 2 ^ 30"
  unfolding arena_ok_def by linarith

lemma arena_weaken: "arena_ok v e' \<Longrightarrow> e \<le> e' \<Longrightarrow> 4096 dvd e \<Longrightarrow> arena_ok v e"
  by (auto simp: arena_ok_def)

text \<open>Growing the arena maps kernel pages only: the translation of user addresses stays.\<close>

definition user_kept :: "vmm_state \<Rightarrow> vmm_state \<Rightarrow> bool" where
  "user_kept v v' \<longleftrightarrow> (\<forall>va. va < MM_USER_MAX \<longrightarrow> MmGetPhysicalAddress v' va = MmGetPhysicalAddress v va) \<and>
     (\<forall>va. large_mapped (ptm v') (g_kernel_pml4_phys v') va = large_mapped (ptm v) (g_kernel_pml4_phys v) va)"

lemma user_kept_refl [simp]: "user_kept v v"
  by (simp add: user_kept_def)

lemma user_kept_trans: "user_kept v v1 \<Longrightarrow> user_kept v1 v2 \<Longrightarrow> user_kept v v2"
  by (simp add: user_kept_def)

lemma user_page_of_A:
  assumes "va < MM_USER_MAX" "e < 2 ^ 30"
  shows "page_of va \<noteq> page_of (A e)"
proof
  assume "page_of va = page_of (A e)"
  then have eq: "unat va div 4096 mod 2 ^ 36 = (0xFFFFFFFFC0000000 + e) div 4096 mod 2 ^ 36"
    using assms(2) by (simp add: word_unat_eq_iff page_of_unat unat_A)
  define f where "f = e div 4096"
  have f: "f < 2 ^ 18" using assms(2) by (simp add: f_def)
  have "(0xFFFFFFFFC0000000 + e) div 4096 = 0xFFFFC0000 + f + 2 ^ 36 * 65535" by (simp add: f_def)
  then have "(0xFFFFFFFFC0000000 + e) div 4096 mod 2 ^ 36 = (0xFFFFC0000 + f) mod 2 ^ 36" by (simp only: mod_mult_self2)
  also have "\<dots> = 0xFFFFC0000 + f" by (rule mod_less) (use f in simp)
  finally have r: "(0xFFFFFFFFC0000000 + e) div 4096 mod 2 ^ 36 = 0xFFFFC0000 + f" .
  have l: "unat va div 4096 < 2 ^ 35" using assms(1) by (simp add: word_less_nat_alt)
  then have "unat va div 4096 mod 2 ^ 36 = unat va div 4096" by (intro mod_less) simp
  then show False using eq l unfolding r by simp
qed

lemma arena_step:
  assumes ar: "arena_ok v e" and al: "MmAllocatePage (pmm v) = (pa, p)"
  shows "pa = MM_INVALID_PHYS \<and> v\<lparr>pmm := p\<rparr> = v \<and> free_frames (pmm v) = {} \<or>
    pa \<noteq> MM_INVALID_PHYS \<and>
    (MmMapPage (A e) pa PTE_WRITE (v\<lparr>pmm := p\<rparr>) = None \<and> card (free_frames (pmm v)) < 4 \<or>
     (\<exists>v'. MmMapPage (A e) pa PTE_WRITE (v\<lparr>pmm := p\<rparr>) = Some (True, v') \<and> arena_ok v' (e + 4096) \<and>
        card (free_frames (pmm v)) \<le> 4 + card (free_frames (pmm v')) \<and> user_kept v v'))"
proof -
  from ar obtain D where ok: "vmm_ok v D" by (auto simp: arena_ok_def vmm_inv_def)
  then have inv: "pmm_inv (pmm v)" by (simp add: vmm_ok_def frames_ok_def)
  from inv show ?thesis
  proof (cases rule: MmAllocatePage_cases)
    case none
    then show ?thesis using al by simp
  next
    case (some f p')
    have p: "p' = p" "pa = push_bit 12 f" using al some(1) by simp_all
    have pa: "pa \<noteq> MM_INVALID_PHYS" using frame_addr(2) [OF free_frame_lt [OF inv some(2)]] p by simp
    let ?v = "v\<lparr>pmm := p\<rparr>"
    have ok': "vmm_ok ?v D"
      using ok some(4-6) p by (auto simp: vmm_ok_def frames_ok_def)
    have c: "card (free_frames (pmm v)) = Suc (card (free_frames p))"
      using pmm_frames.alloc_card [OF inv al pa] .
    have fl: "PTE_WRITE AND PTE_ADDR_MASK = 0" by simp
    from ok' fl show ?thesis
    proof (cases rule: MmMapPage_spec [where va = "A e" and pa = pa])
      case none
      then show ?thesis using pa c by simp
    next
      case m: (some b v' D')
      have "\<not> large_mapped (ptm v) (g_kernel_pml4_phys v) (A e)"
        using ar arena_less [OF ar] by (simp add: arena_ok_def)
      then have b: "b" using m(4) by simp
      have tot: "total_pages (pmm v') = total_pages (pmm v)" using m(9) some(6) p by simp
      have lt: "e + 4096 \<le> 2 ^ 30"
        using ar c unfolding arena_ok_def by linarith
      have tr: "MmGetPhysicalAddress v' (A k) \<noteq> MM_INVALID_PHYS" if "k < e + 4096" for k
      proof (cases "page_of (A k) = page_of (A e)")
        case True
        then show ?thesis using m(6) [of "A k"] b small_addr_valid [of pa "A k"] by (simp add: addr_def)
      next
        case False
        then have "k < e" using page_of_A [OF _ _ that lt] ar that by (auto simp: arena_ok_def not_le [symmetric])
        then have "MmGetPhysicalAddress v (A k) \<noteq> MM_INVALID_PHYS" using ar by (simp add: arena_ok_def)
        then show ?thesis using m(6) [of "A k"] False by (simp add: MmGetPhysicalAddress_translate)
      qed
      have "arena_ok v' (e + 4096)"
        unfolding arena_ok_def
      proof (intro conjI)
        show "vmm_inv v'" using m(2) by (auto simp: vmm_inv_def)
        show "e + 4096 + 4096 * card (free_frames (pmm v')) \<le> 4096 * unat (total_pages (pmm v'))"
          using ar m(8) c unfolding arena_ok_def tot by simp
        show "\<forall>k < 2 ^ 30. \<not> large_mapped (ptm v') (g_kernel_pml4_phys v') (A k)"
          using ar m(10) by (simp add: arena_ok_def)
      qed (use ar tr tot in \<open>simp_all add: arena_ok_def\<close>)
      moreover have "user_kept v v'"
      proof -
        have "page_of va \<noteq> page_of (A e)" if "va < MM_USER_MAX" for va by (rule user_page_of_A [OF that arena_less [OF ar]])
        then show ?thesis using m(6,10) by (simp add: user_kept_def MmGetPhysicalAddress_translate)
      qed
      ultimately show ?thesis using pa m(1) b m(7) c by auto
    qed
  qed
qed

lemma commit_loop_spec:
  assumes "arena_ok v (e + k * 4096)" "k \<le> n" "n * 4096 < 2 ^ 64" "4096 dvd e"
  shows "commit_loop (A e) (of_nat (k * 4096)) (of_nat (n * 4096)) v = None \<and>
      card (free_frames (pmm v)) < 4 * (n - k) \<or>
    (\<exists>v'. commit_loop (A e) (of_nat (k * 4096)) (of_nat (n * 4096)) v = Some (True, v') \<and> arena_ok v' (e + n * 4096) \<and> user_kept v v') \<or>
    (\<exists>v'. commit_loop (A e) (of_nat (k * 4096)) (of_nat (n * 4096)) v = Some (False, v') \<and> arena_ok v' e \<and>
      free_frames (pmm v') = {} \<and> card (free_frames (pmm v)) < 4 * (n - k))"
  using assms
proof (induction "n - k" arbitrary: k v)
  case 0
  then have "k = n" by simp
  with 0 show ?case by (subst (1 2 3) commit_loop.simps) simp
next
  case (Suc x)
  then have kn: "k < n" by simp
  then have "k * 4096 < n * 4096" by simp
  then have lt: "(of_nat (k * 4096) :: u64) < of_nat (n * 4096)"
    using Suc.prems(3) by (simp add: word_less_nat_alt unat_of_nat del: of_nat_mult)
  obtain pa p where al: "MmAllocatePage (pmm v) = (pa, p)" by fastforce
  have ad: "A e + of_nat (k * 4096) = A (e + k * 4096)" by (rule A_add)
  have nx: "(of_nat (k * 4096) :: u64) + PAGE_SIZE = of_nat (Suc k * 4096)" by simp
  have step: "commit_loop (A e) (of_nat (k * 4096)) (of_nat (n * 4096)) v =
     (if pa = MM_INVALID_PHYS then Some (False, v\<lparr>pmm := p\<rparr>)
      else do { (ok, v2) \<leftarrow> MmMapPage (A (e + k * 4096)) pa PTE_WRITE (v\<lparr>pmm := p\<rparr>);
                if \<not> ok then Some (False, v2)
                else commit_loop (A e) (of_nat (Suc k * 4096)) (of_nat (n * 4096)) v2 })"
    using lt al by (subst commit_loop.simps) (simp only: if_True Let_def prod.case ad nx)
  from arena_step [OF Suc.prems(1) al] show ?case
  proof (elim disjE conjE exE)
    assume "pa = MM_INVALID_PHYS" "v\<lparr>pmm := p\<rparr> = v" "free_frames (pmm v) = {}"
    then show ?thesis unfolding step using arena_weaken [OF Suc.prems(1)] Suc.prems(4) kn by simp
  next
    assume "pa \<noteq> MM_INVALID_PHYS" "MmMapPage (A (e + k * 4096)) pa PTE_WRITE (v\<lparr>pmm := p\<rparr>) = None"
      "card (free_frames (pmm v)) < 4"
    then show ?thesis unfolding step using kn by simp
  next
    fix v' assume pa: "pa \<noteq> MM_INVALID_PHYS"
      and m: "MmMapPage (A (e + k * 4096)) pa PTE_WRITE (v\<lparr>pmm := p\<rparr>) = Some (True, v')"
      and ar: "arena_ok v' (e + k * 4096 + 4096)"
      and c: "card (free_frames (pmm v)) \<le> 4 + card (free_frames (pmm v'))" and uk: "user_kept v v'"
    have eq: "commit_loop (A e) (of_nat (k * 4096)) (of_nat (n * 4096)) v =
        commit_loop (A e) (of_nat (Suc k * 4096)) (of_nat (n * 4096)) v'"
      unfolding step using pa m by simp
    have "commit_loop (A e) (of_nat (Suc k * 4096)) (of_nat (n * 4096)) v' = None \<and>
        card (free_frames (pmm v')) < 4 * (n - Suc k) \<or>
      (\<exists>v''. commit_loop (A e) (of_nat (Suc k * 4096)) (of_nat (n * 4096)) v' = Some (True, v'') \<and> arena_ok v'' (e + n * 4096) \<and> user_kept v' v'') \<or>
      (\<exists>v''. commit_loop (A e) (of_nat (Suc k * 4096)) (of_nat (n * 4096)) v' = Some (False, v'') \<and> arena_ok v'' e \<and>
        free_frames (pmm v'') = {} \<and> card (free_frames (pmm v')) < 4 * (n - Suc k))"
      by (rule Suc.hyps(1)) (use Suc.hyps(2) Suc.prems ar kn in \<open>simp_all add: ac_simps\<close>)
    then show ?thesis unfolding eq using c kn user_kept_trans [OF uk] by (elim disjE exE conjE) auto
  qed
qed

definition fresh_block :: "nat \<Rightarrow> block" where
  "fresh_block n = \<lparr>bsize = n, breq = 0, bfree = True, btag = 0\<rparr>"

text \<open>The list after the arena has grown by \<open>w\<close> bytes.\<close>

definition grow_list :: "nat \<Rightarrow> block list \<Rightarrow> block list" where
  "grow_list w bs = (if bs \<noteq> [] \<and> bfree (last bs)
     then butlast bs @ [(last bs)\<lparr>bsize := bsize (last bs) + w\<rparr>] else bs @ [fresh_block (w - 48)])"

lemma grow_list_facts:
  assumes "48 < w" "16 dvd w" "\<forall>b \<in> set bs. block_ok b" "no_adj bs"
  shows "extent (grow_list w bs) = extent bs + w" "\<forall>b \<in> set (grow_list w bs). block_ok b"
    "no_adj (grow_list w bs)" "used_bytes (grow_list w bs) = used_bytes bs"
    "live_from 0 (grow_list w bs) = live_from 0 bs"
    "guards m 0 bs \<Longrightarrow> guards m 0 (grow_list w bs)"
    "\<exists>b \<in> set (grow_list w bs). bfree b \<and> w - 48 \<le> bsize b"
proof -
  have d: "16 dvd w - 48" using assms(2) by (simp add: dvd_diff_nat)
  have "extent (grow_list w bs) = extent bs + w \<and> (\<forall>b \<in> set (grow_list w bs). block_ok b) \<and>
    no_adj (grow_list w bs) \<and> used_bytes (grow_list w bs) = used_bytes bs \<and>
    live_from 0 (grow_list w bs) = live_from 0 bs \<and> (guards m 0 bs \<longrightarrow> guards m 0 (grow_list w bs)) \<and>
    (\<exists>b \<in> set (grow_list w bs). bfree b \<and> w - 48 \<le> bsize b)"
  proof (cases "bs \<noteq> [] \<and> bfree (last bs)")
    case True
    then obtain xs b where bs: "bs = xs @ [b]" "bfree b" by (metis append_butlast_last_id)
    then show ?thesis
      using assms by (auto simp: grow_list_def block_ok_def no_adj_append live_append guards_append)
  next
    case False
    then show ?thesis
      using assms d by (auto simp: grow_list_def fresh_block_def block_ok_def no_adj_append live_append guards_append)
  qed
  then show "extent (grow_list w bs) = extent bs + w" "\<forall>b \<in> set (grow_list w bs). block_ok b"
    "no_adj (grow_list w bs)" "used_bytes (grow_list w bs) = used_bytes bs"
    "live_from 0 (grow_list w bs) = live_from 0 bs"
    "guards m 0 bs \<Longrightarrow> guards m 0 (grow_list w bs)"
    "\<exists>b \<in> set (grow_list w bs). bfree b \<and> w - 48 \<le> bsize b"
    by blast+
qed

lemma align64k:
  assumes "unat x \<le> 2 ^ 62"
  shows "ALIGN_UP_BY x POOL_GROW_CHUNK = of_nat ((unat x + 65535) div 65536 * 65536)"
proof -
  have u: "unat (x + 0xFFFF) = unat x + 65535" using assms by (simp add: unat_word_ariths)
  have "(0xFFFF :: u64) = mask 16" by (simp add: mask_eq_exp_minus_1)
  then have "ALIGN_UP_BY x POOL_GROW_CHUNK = (x + 0xFFFF) AND NOT (mask 16)"
    by (simp add: ALIGN_UP_BY_def ALIGN_DOWN_BY_def)
  also have "\<dots> = push_bit 16 (drop_bit 16 (x + 0xFFFF))" by (rule bit_eqI) (auto simp: bit_simps)
  finally have e: "ALIGN_UP_BY x POOL_GROW_CHUNK = drop_bit 16 (x + 0xFFFF) * 65536" by (simp add: push_bit_eq_mult)
  have "(unat x + 65535) div 65536 * 65536 < 2 ^ 64"
    by (rule order.strict_trans1 [OF div_times_less_eq_dividend]) (use assms in simp)
  then show ?thesis
    unfolding e word_unat_eq_iff
    by (simp add: unat_word_ariths drop_bit_eq_div unat_div u unat_of_nat del: of_nat_mult)
qed

definition grow_bytes :: "nat \<Rightarrow> nat" where
  "grow_bytes need = (need + 48 + 65535) div 65536 * 65536"

lemma grow_bytes: "need + 48 \<le> grow_bytes need" "16 dvd grow_bytes need" "48 < grow_bytes need"
  "4096 dvd grow_bytes need" "grow_bytes need \<le> need + 65583"
proof -
  show a: "need + 48 \<le> grow_bytes need" unfolding grow_bytes_def by linarith
  show "4096 dvd grow_bytes need" "16 dvd grow_bytes need" unfolding grow_bytes_def by (simp_all add: dvd_mult)
  show "grow_bytes need \<le> need + 65583" unfolding grow_bytes_def by linarith
  have "65536 dvd grow_bytes need" unfolding grow_bytes_def by simp
  moreover have "grow_bytes need \<noteq> 0" using a by simp
  ultimately have "65536 \<le> grow_bytes need" by (auto dest: dvd_imp_le)
  then show "48 < grow_bytes need" by simp
qed

lemma grow_want:
  assumes "unat need < 2 ^ 62 - 48"
  shows "ALIGN_UP_BY (need + POOL_HDR) POOL_GROW_CHUNK = of_nat (grow_bytes (unat need))"
proof -
  have u: "unat (need + POOL_HDR) = unat need + 48" using assms by (simp add: unat_word_ariths)
  show ?thesis using align64k [of "need + POOL_HDR"] assms unfolding u grow_bytes_def by simp
qed

text \<open>The list surgery of \<^verbatim>\<open>pool_grow\<close>.\<close>

lemma extend_tail_list:
  assumes pl: "pool_list s (xs @ [b])" and bound: "extent (xs @ [b]) + w < 2 ^ 30" and b: "bfree b"
  shows "pool_list (upd_node (A (extent xs)) (\<lambda>h. h\<lparr>n_size := n_size h + of_nat w\<rparr>)
     (s\<lparr>g_heap_end := g_heap_end s + of_nat w\<rparr>)) (xs @ [b\<lparr>bsize := bsize b + w\<rparr>])"
proof -
  let ?j = "extent xs"
  have seg: "seg (nodes s) 0 0 xs (A ?j)" "matches (nodes s (A ?j)) b" "n_prev (nodes s (A ?j)) = last_ptr 0 0 xs"
    "n_next (nodes s (A ?j)) = 0" using pl by (simp_all add: pool_list_def seg_append)
  let ?N = "(nodes s)(A ?j := (nodes s (A ?j))\<lparr>n_size := n_size (nodes s (A ?j)) + of_nat w\<rparr>)"
  have "?N (A k) = nodes s (A k)" if "k \<in> starts 0 xs" for k
    using starts_bounds [OF that] bound by (simp add: A_inj)
  then have "seg ?N 0 0 xs (A ?j)" using seg(1) seg_cong [of 0 xs ?N "nodes s"] by blast
  moreover have "A (extent (xs @ [b])) + of_nat w = A (extent (xs @ [b\<lparr>bsize := bsize b + w\<rparr>]))"
    unfolding A_add by (simp add: add.assoc)
  ultimately show ?thesis
    using pl seg bound b by (simp add: pool_list_def seg_append matches_def hd_ptr_def last_ptr_def)
qed

lemma append_list:
  assumes pl: "pool_list s bs" and bound: "extent bs + w < 2 ^ 30" and w: "48 < w"
  defines "s2 \<equiv> s\<lparr>g_heap_end := g_heap_end s + of_nat w,
    nodes := (nodes s)(A (extent bs) := \<lparr>n_prev = g_tail s, n_next = 0, n_size = of_nat w - POOL_HDR,
      n_requested = 0, n_free = True, n_tag = 0, n_magic = POOL_MAGIC\<rparr>)\<rparr>"
  shows "pool_list ((if g_tail s \<noteq> 0 then upd_node (g_tail s) (\<lambda>h. h\<lparr>n_next := A (extent bs)\<rparr>) s2
      else s2\<lparr>g_head := A (extent bs)\<rparr>)\<lparr>g_tail := A (extent bs)\<rparr>) (bs @ [fresh_block (w - 48)])"
proof -
  let ?e = "extent bs"
  have sub: "of_nat w - POOL_HDR = (of_nat (w - 48) :: u64)" using of_nat_sub [of 48 w] w by simp
  have he: "A ?e + of_nat w = A (?e + w)" by (rule A_add)
  show ?thesis
  proof (cases bs rule: rev_cases)
    case Nil
    then show ?thesis
      using pl bound sub he w by (simp add: pool_list_def s2_def matches_def fresh_block_def A_nonzero)
  next
    case (snoc xs b)
    let ?j = "extent xs"
    have seg: "seg (nodes s) 0 0 xs (A ?j)" "matches (nodes s (A ?j)) b" "n_prev (nodes s (A ?j)) = last_ptr 0 0 xs"
      "g_tail s = A ?j" using pl snoc by (simp_all add: pool_list_def seg_append)
    have b30: "?j < 2 ^ 30" "?e < 2 ^ 30" "?j < ?e" using bound snoc by simp_all
    have ne: "A ?j \<noteq> A ?e" "A ?j \<noteq> 0" using b30 by (simp_all add: A_inj A_nonzero)
    let ?N = "(nodes s2)(A ?j := (nodes s2 (A ?j))\<lparr>n_next := A ?e\<rparr>)"
    have "?N (A k) = nodes s (A k)" if "k \<in> starts 0 xs" for k
      using starts_bounds [OF that] b30 by (simp add: A_inj s2_def)
    then have "seg ?N 0 0 xs (A ?j)" using seg(1) seg_cong [of 0 xs ?N "nodes s"] by blast
    then have "seg ?N 0 0 (bs @ [fresh_block (w - 48)]) 0"
      using seg ne sub unfolding snoc append_assoc
      by (simp add: seg_append matches_def s2_def snoc fresh_block_def add.assoc [symmetric])
    moreover have "g_head s = A 0" using pl snoc by (simp add: pool_list_def hd_ptr_def)
    ultimately show ?thesis
      using pl seg(4) ne he bound w by (simp add: pool_list_def s2_def hd_ptr_def fresh_block_def)
  qed
qed


lemma pool_grow_spec:
  assumes inv: "pool_inv s bs" and need: "unat need < 2 ^ 62 - 48"
  defines "w \<equiv> grow_bytes (unat need)"
  shows "pool_grow need s = None \<and> card (free_frames (pmm (mm s))) < 4 * (w div 4096) \<or>
    (\<exists>s'. pool_grow need s = Some (False, s') \<and> pool_inv s' bs \<and> free_frames (pmm (mm s')) = {} \<and>
       card (free_frames (pmm (mm s))) < 4 * (w div 4096)) \<or>
    (\<exists>s'. pool_grow need s = Some (True, s') \<and> pool_inv s' (grow_list w bs) \<and> user_kept (mm s) (mm s'))"
proof -
  let ?e = "extent bs"
  have pl: "pool_list s bs" and ar: "arena_ok (mm s) ?e" using inv by (simp_all add: pool_inv_def)
  note gb = grow_bytes [of "unat need", folded w_def]
  obtain n where n: "w = n * 4096" using gb(4) by (metis dvd_def mult.commute)
  have n64: "n * 4096 < 2 ^ 64" using gb(5) need n by simp
  have want: "ALIGN_UP_BY (need + POOL_HDR) POOL_GROW_CHUNK = of_nat (n * 4096)"
    using grow_want [OF need] n w_def by simp
  have st: "g_heap_end s = A ?e" using pl by (simp add: pool_list_def)
  have grow: "pool_grow need s = do { (ok, v) \<leftarrow> commit_loop (A ?e) 0 (of_nat (n * 4096)) (mm s);
      if \<not> ok then Some (False, s\<lparr>mm := v\<rparr>)
      else Some (True, if g_tail s \<noteq> 0 \<and> n_free (nodes s (g_tail s))
        then upd_node (g_tail s) (\<lambda>h. h\<lparr>n_size := n_size h + of_nat (n * 4096)\<rparr>)
           (s\<lparr>mm := v, g_heap_end := A ?e + of_nat (n * 4096)\<rparr>)
        else (if g_tail s \<noteq> 0 then upd_node (g_tail s) (\<lambda>h. h\<lparr>n_next := A ?e\<rparr>)
            (s\<lparr>mm := v, g_heap_end := A ?e + of_nat (n * 4096),
               nodes := (nodes s)(A ?e := \<lparr>n_prev = g_tail s, n_next = 0, n_size = of_nat (n * 4096) - POOL_HDR,
                 n_requested = 0, n_free = True, n_tag = 0, n_magic = POOL_MAGIC\<rparr>)\<rparr>)
           else (s\<lparr>mm := v, g_heap_end := A ?e + of_nat (n * 4096),
               nodes := (nodes s)(A ?e := \<lparr>n_prev = g_tail s, n_next = 0, n_size = of_nat (n * 4096) - POOL_HDR,
                 n_requested = 0, n_free = True, n_tag = 0, n_magic = POOL_MAGIC\<rparr>)\<rparr>)\<lparr>g_head := A ?e\<rparr>)
           \<lparr>g_tail := A ?e\<rparr>) }"
    unfolding pool_grow_def Let_def want st by (auto intro!: Option.bind_cong simp: st simp del: of_nat_mult)
  have z: "(of_nat (0 * 4096) :: u64) = 0" by simp
  note cl = commit_loop_spec [of "mm s" ?e 0 n, unfolded z]
  have "commit_loop (A ?e) 0 (of_nat (n * 4096)) (mm s) = None \<and>
      card (free_frames (pmm (mm s))) < 4 * n \<or>
    (\<exists>v'. commit_loop (A ?e) 0 (of_nat (n * 4096)) (mm s) = Some (True, v') \<and> arena_ok v' (?e + n * 4096) \<and> user_kept (mm s) v') \<or>
    (\<exists>v'. commit_loop (A ?e) 0 (of_nat (n * 4096)) (mm s) = Some (False, v') \<and> arena_ok v' ?e \<and>
      free_frames (pmm v') = {} \<and> card (free_frames (pmm (mm s))) < 4 * n)"
    using cl ar n64 by (simp add: arena_ok_def del: of_nat_mult)
  then show ?thesis
  proof (elim disjE exE conjE)
    assume "commit_loop (A ?e) 0 (of_nat (n * 4096)) (mm s) = None" "card (free_frames (pmm (mm s))) < 4 * n"
    then show ?thesis unfolding grow n by simp
  next
    fix v assume "commit_loop (A ?e) 0 (of_nat (n * 4096)) (mm s) = Some (False, v)" "arena_ok v ?e"
      "free_frames (pmm v) = {}" "card (free_frames (pmm (mm s))) < 4 * n"
    moreover have "pool_inv (s\<lparr>mm := v\<rparr>) bs" if "arena_ok v ?e"
      using inv that by (simp add: pool_inv_def pool_list_def)
    ultimately show ?thesis unfolding grow n by simp
  next
    fix v assume c: "commit_loop (A ?e) 0 (of_nat (n * 4096)) (mm s) = Some (True, v)"
      and av: "arena_ok v (?e + n * 4096)" and uk: "user_kept (mm s) v"
    define s1 where "s1 = s\<lparr>mm := v\<rparr>"
    have pl1: "pool_list s1 bs" using pl by (simp add: s1_def pool_list_def)
    have bound: "?e + w < 2 ^ 30" using arena_less [OF av] n by simp
    have ok: "\<forall>b \<in> set bs. block_ok b" "no_adj bs" using inv by (auto simp: pool_inv_def)
    note gl = grow_list_facts [OF gb(3) gb(2) ok]
    have fin: "pool_inv s' (grow_list w bs)"
      if "pool_list s' (grow_list w bs)" "mm s' = v" "payload s' = payload s" "g_bytes_in_use s' = g_bytes_in_use s"
        "g_pool_broken s' = g_pool_broken s" for s'
      using that gl inv av n by (simp add: pool_inv_def)
    show ?thesis
    proof (cases "bs \<noteq> [] \<and> bfree (last bs)")
      case True
      then obtain xs b where bs: "bs = xs @ [b]" "bfree b" by (metis append_butlast_last_id)
      have tail: "g_tail s = A (extent xs)" "n_free (nodes s (A (extent xs)))"
        using pl bs pool_list_node(1) [of s xs b "[]"] by (simp_all add: pool_list_def matches_def)
      have nz: "A (extent xs) \<noteq> 0" using bound bs by (intro A_nonzero) simp
      let ?s = "upd_node (A (extent xs)) (\<lambda>h. h\<lparr>n_size := n_size h + of_nat w\<rparr>) (s1\<lparr>g_heap_end := g_heap_end s1 + of_nat w\<rparr>)"
      have "pool_list ?s (grow_list w bs)"
        using extend_tail_list [of s1 xs b w] pl1 bound bs by (simp add: grow_list_def)
      then have "pool_inv ?s (grow_list w bs)" by (rule fin) (simp_all add: s1_def)
      moreover have "user_kept (mm s) (mm ?s)" using uk by (simp add: s1_def)
      moreover have "pool_grow need s = Some (True, ?s)"
        unfolding grow using c tail nz st n by (simp add: s1_def del: of_nat_mult)
      ultimately show ?thesis by blast
    next
      case False
      have nf: "\<not> (g_tail s \<noteq> 0 \<and> n_free (nodes s (g_tail s)))"
      proof (cases bs rule: rev_cases)
        case Nil
        then show ?thesis using pl by (simp add: pool_list_def)
      next
        case (snoc xs b)
        then show ?thesis
          using pl False pool_list_node(1) [of s xs b "[]"] by (simp add: pool_list_def matches_def)
      qed
      define s2 where "s2 = s1\<lparr>g_heap_end := g_heap_end s1 + of_nat w,
        nodes := (nodes s1)(A ?e := \<lparr>n_prev = g_tail s1, n_next = 0, n_size = of_nat w - POOL_HDR,
          n_requested = 0, n_free = True, n_tag = 0, n_magic = POOL_MAGIC\<rparr>)\<rparr>"
      let ?s = "(if g_tail s1 \<noteq> 0 then upd_node (g_tail s1) (\<lambda>h. h\<lparr>n_next := A ?e\<rparr>) s2
          else s2\<lparr>g_head := A ?e\<rparr>)\<lparr>g_tail := A ?e\<rparr>"
      have "pool_list ?s (grow_list w bs)"
        using append_list [OF pl1 bound gb(3)] False unfolding s2_def by (auto simp: grow_list_def)
      then have "pool_inv ?s (grow_list w bs)" by (rule fin) (simp_all add: s1_def s2_def)
      moreover have "user_kept (mm s) (mm ?s)" using uk by (simp add: s1_def s2_def)
      moreover have "pool_grow need s = Some (True, ?s)"
        unfolding grow if_not_P [OF nf] using c st n by (simp add: s1_def s2_def del: of_nat_mult)
      ultimately show ?thesis by blast
    qed
  qed
qed

subsection \<open>\<open>ExAllocatePoolWithTag\<close>\<close>

lemma live_claim:
  assumes "bfree b"
  shows "live_from j (claim_blocks n r tag b) = (live_from j [b])(A (j + 48) \<mapsto> r)"
  using assms by (auto simp: claim_blocks_def split_block_def Let_def)

lemma extent_claim: "extent (claim_blocks n r tag b) = extent [b]"
  using extent_split [of n b] by (cases "split_block n b") (auto simp: claim_blocks_def)

lemma find_fit_pool:
  assumes "pool_inv s bs"
  shows "(\<exists>xs b ys. bs = xs @ b # ys \<and> fits need b \<and> find_fit s need (g_head s) = Some (A (extent xs))) \<or>
    (\<forall>b \<in> set bs. \<not> fits need b) \<and> find_fit s need (g_head s) = Some 0"
  using find_fit_spec [of s 0 0 bs need] assms by (auto simp: pool_inv_def pool_list_def)

lemma claim_result:
  assumes inv: "pool_inv s (xs @ b # ys)" and fit: "fits need b" and sz: "unat sz \<le> 2 ^ 61" "sz \<noteq> 0"
    and need: "need = ALIGN_UP_BY sz POOL_ALIGN + POOL_GUARD"
  shows "\<exists>s' bs'. pool_claim (A (extent xs)) need sz tag s = s' \<and> pool_inv s' bs' \<and> A (extent xs) \<noteq> 0 \<and>
    A (extent xs) + POOL_HDR \<noteq> 0 \<and> live_from 0 (xs @ b # ys) (A (extent xs) + POOL_HDR) = None \<and>
    live_from 0 bs' = (live_from 0 (xs @ b # ys))(A (extent xs) + POOL_HDR \<mapsto> unat sz)"
proof -
  have bound: "extent (xs @ [b] @ ys) < 2 ^ 30" and bs: "0 < bsize b"
    using inv by (auto simp: pool_inv_def pool_list_def block_ok_def)
  have bf: "bfree b" using fit by (simp add: fits_def)
  have "unat sz \<le> 2 ^ 62" using sz(1) by simp
  from pool_claim_inv [OF inv fit this sz(2) need, of tag]
  have "pool_inv (pool_claim (A (extent xs)) need sz tag s) (xs @ claim_blocks (need_of sz) (unat sz) tag b @ ys)" .
  moreover have "live_from 0 (xs @ claim_blocks (need_of sz) (unat sz) tag b @ ys) =
      (live_from 0 (xs @ [b] @ ys))(A (extent xs + 48) \<mapsto> unat sz)"
    by (rule live_replace) (use extent_claim bound bs live_claim [OF bf] in auto)
  moreover have "live_from 0 (xs @ [b] @ ys) (A (extent xs + 48)) = None"
  proof -
    have "live_from 0 xs (A (extent xs + 48)) = None" by (rule live_None) (use bound bs in auto)
    moreover have "live_from (extent xs + (48 + bsize b)) ys (A (extent xs + 48)) = None"
      by (rule live_None) (use bound bs in auto)
    ultimately show ?thesis using bf by (simp add: live_append map_add_def add.assoc)
  qed
  moreover have "A (extent xs) \<noteq> 0" "A (extent xs + 48) \<noteq> 0" using bound bs by (simp_all add: A_nonzero)
  ultimately show ?thesis by (auto simp: A_hdr)
qed

lemma ExAllocatePoolWithTag_spec:
  assumes inv: "pool_inv s bs" and sz: "unat sz \<le> 2 ^ 61" "sz \<noteq> 0"
  defines "few \<equiv> card (free_frames (pmm (mm s))) < 4 * (grow_bytes (need_of sz) div 4096)"
  obtains (halt) "ExAllocatePoolWithTag ty sz tag s = None" "few" "\<forall>b \<in> set bs. \<not> (bfree b \<and> need_of sz \<le> bsize b)"
  | (null) s' where "ExAllocatePoolWithTag ty sz tag s = Some (0, s')" "few" "pool_inv s' bs"
      "free_frames (pmm (mm s')) = {}" "\<forall>b \<in> set bs. \<not> (bfree b \<and> need_of sz \<le> bsize b)"
  | (some) p s' bs' where "ExAllocatePoolWithTag ty sz tag s = Some (p, s')" "p \<noteq> 0" "pool_inv s' bs'"
      "live_from 0 bs p = None" "live_from 0 bs' = (live_from 0 bs)(p \<mapsto> unat sz)"
proof -
  define need where "need = ALIGN_UP_BY sz POOL_ALIGN + POOL_GUARD"
  have sz62: "unat sz \<le> 2 ^ 62" using sz(1) by simp
  note nd = need_of [OF sz62, folded need_def]
  have n62: "unat need < 2 ^ 62 - 48" using nd(1,4) sz(1) by simp
  define s2 where "s2 = s\<lparr>calls := calls s + 1\<rparr>"
  have inv2: "pool_inv s2 bs" using inv by (simp add: s2_def pool_inv_def pool_list_def)
  have mm2: "mm s2 = mm s" by (simp add: s2_def)
  have ex: "ExAllocatePoolWithTag ty sz tag s = alloc_attempts 2 need sz tag s2"
    using sz(2) pool_validate_ok [OF inv2]
    by (simp add: ExAllocatePoolWithTag_def Let_def s2_def [symmetric] need_def)
  have two: "alloc_attempts 2 need sz tag s2 = alloc_attempts (Suc (Suc 0)) need sz tag s2"
    by (simp add: numeral_2_eq_2)
  from find_fit_pool [OF inv2, of need] show thesis
  proof (elim disjE exE conjE)
    fix xs b ys assume bs: "bs = xs @ b # ys" and fit: "fits need b"
      and ff: "find_fit s2 need (g_head s2) = Some (A (extent xs))"
    obtain s' bs' where r: "pool_claim (A (extent xs)) need sz tag s2 = s'" "pool_inv s' bs'" "A (extent xs) \<noteq> 0"
      "A (extent xs) + POOL_HDR \<noteq> 0" "live_from 0 bs (A (extent xs) + POOL_HDR) = None"
      "live_from 0 bs' = (live_from 0 bs)(A (extent xs) + POOL_HDR \<mapsto> unat sz)"
      using claim_result [OF inv2 [unfolded bs] fit sz need_def] unfolding bs by blast
    then have "ExAllocatePoolWithTag ty sz tag s = Some (A (extent xs) + POOL_HDR, s')"
      unfolding ex two using ff by simp
    with r show thesis by (intro some)
  next
    assume none: "\<forall>b \<in> set bs. \<not> fits need b" and nofit: "find_fit s2 need (g_head s2) = Some 0"
    have no: "\<forall>b \<in> set bs. \<not> (bfree b \<and> need_of sz \<le> bsize b)" using none nd(1) by (auto simp: fits_def)
    have few: "few = (card (free_frames (pmm (mm s2))) < 4 * (grow_bytes (unat need) div 4096))"
      by (simp add: few_def mm2 nd(1))
    from pool_grow_spec [OF inv2 n62] show thesis
    proof (elim disjE exE conjE)
      assume "pool_grow need s2 = None" "card (free_frames (pmm (mm s2))) < 4 * (grow_bytes (unat need) div 4096)"
      then show thesis using nofit few no by (intro halt) (simp_all add: ex two)
    next
      fix s' assume "pool_grow need s2 = Some (False, s')" "pool_inv s' bs" "free_frames (pmm (mm s')) = {}"
        "card (free_frames (pmm (mm s2))) < 4 * (grow_bytes (unat need) div 4096)"
      then show thesis using nofit few no by (intro null) (simp_all add: ex two)
    next
      fix s3 assume g: "pool_grow need s2 = Some (True, s3)" and inv3: "pool_inv s3 (grow_list (grow_bytes (unat need)) bs)"
      let ?bs = "grow_list (grow_bytes (unat need)) bs"
      have ok: "\<forall>b \<in> set bs. block_ok b" "no_adj bs" using inv by (auto simp: pool_inv_def)
      note gl = grow_list_facts [OF grow_bytes(3) [of "unat need"] grow_bytes(2) ok]
      have "\<exists>b \<in> set ?bs. fits need b"
        using gl(7) grow_bytes(1) [of "unat need"] by (auto simp: fits_def)
      with find_fit_pool [OF inv3, of need] obtain xs b ys where bs: "?bs = xs @ b # ys" and fit: "fits need b"
        and ff: "find_fit s3 need (g_head s3) = Some (A (extent xs))" by blast
      obtain s' bs' where r: "pool_claim (A (extent xs)) need sz tag s3 = s'" "pool_inv s' bs'" "A (extent xs) \<noteq> 0"
        "A (extent xs) + POOL_HDR \<noteq> 0" "live_from 0 ?bs (A (extent xs) + POOL_HDR) = None"
        "live_from 0 bs' = (live_from 0 ?bs)(A (extent xs) + POOL_HDR \<mapsto> unat sz)"
        using claim_result [OF inv3 [unfolded bs] fit sz need_def] unfolding bs by blast
      have "ExAllocatePoolWithTag ty sz tag s = Some (A (extent xs) + POOL_HDR, s')"
        unfolding ex two using nofit g ff r(1,3) by simp
      with r gl(5) show thesis by (intro some) simp_all
    qed
  qed
qed

subsection \<open>\<open>ExFreePool\<close>\<close>

definition absorb_next :: "block \<Rightarrow> block list \<Rightarrow> block list" where
  "absorb_next b ys = (if ys \<noteq> [] \<and> bfree (hd ys) then join b (hd ys) # tl ys else b # ys)"

definition absorb_prev :: "block list \<Rightarrow> block \<Rightarrow> block list \<Rightarrow> block list" where
  "absorb_prev xs b zs =
     (if xs \<noteq> [] \<and> bfree (last xs) then butlast xs @ join (last xs) b # zs else xs @ b # zs)"

lemma coalesce_next_list:
  assumes pl: "pool_list s (xs @ b # ys)"
  shows "pool_list (coalesce_next (A (extent xs)) s) (xs @ absorb_next b ys)"
proof (cases ys)
  case Nil
  then show ?thesis using pl pool_list_node(3) [OF pl] by (simp add: coalesce_absorb absorb_next_def)
next
  case (Cons y zs)
  have nx: "n_next (nodes s (A (extent xs))) = A (extent xs + 48 + bsize b)"
    using pool_list_node(3) [OF pl] Cons by simp
  have "pool_list s ((xs @ [b]) @ y # zs)" using pl Cons by simp
  from pool_list_node(1) [OF this] have "n_free (nodes s (A (extent xs + 48 + bsize b))) = bfree y"
    by (simp add: matches_def add.assoc)
  moreover have "A (extent xs + 48 + bsize b) \<noteq> 0" using pl Cons by (intro A_nonzero) (simp add: pool_list_def)
  ultimately show ?thesis
    using pl Cons nx absorb_list [of s xs b y zs] by (simp add: coalesce_absorb absorb_next_def Let_def)
qed

lemma coalesce_prev_list:
  assumes pl: "pool_list s (xs @ b # zs)"
  shows "pool_list (coalesce_prev (A (extent xs)) s) (absorb_prev xs b zs)"
proof (cases xs rule: rev_cases)
  case Nil
  then show ?thesis using pl pool_list_node(2) [OF pl] by (simp add: coalesce_absorb absorb_prev_def)
next
  case (snoc ws w)
  have pv: "n_prev (nodes s (A (extent xs))) = A (extent ws)" using pool_list_node(2) [OF pl] snoc by simp
  have pw: "pool_list s (ws @ w # b # zs)" using pl snoc by simp
  from pool_list_node(1) [OF pw] have "n_free (nodes s (A (extent ws))) = bfree w" by (simp add: matches_def)
  moreover have "A (extent ws) \<noteq> 0" using pw by (intro A_nonzero) (simp add: pool_list_def)
  ultimately show ?thesis
    using pl snoc pv absorb_list [OF pw] by (simp add: coalesce_absorb absorb_prev_def Let_def add.assoc)
qed

lemma coalesce_fields [simp]:
  "payload (coalesce_next n s) = payload s" "g_bytes_in_use (coalesce_next n s) = g_bytes_in_use s"
  "g_pool_broken (coalesce_next n s) = g_pool_broken s" "mm (coalesce_next n s) = mm s"
  "payload (coalesce_prev n s) = payload s" "g_bytes_in_use (coalesce_prev n s) = g_bytes_in_use s"
  "g_pool_broken (coalesce_prev n s) = g_pool_broken s" "mm (coalesce_prev n s) = mm s"
  by (simp_all add: coalesce_absorb Let_def)

definition freed :: "block \<Rightarrow> block" where
  "freed b = b\<lparr>breq := 0, bfree := True, btag := 0\<rparr>"

definition free_list :: "block list \<Rightarrow> block \<Rightarrow> block list \<Rightarrow> block list" where
  "free_list xs b ys = (let ns = absorb_next (freed b) ys in absorb_prev xs (hd ns) (tl ns))"

lemma block_ok_join: "block_ok a \<Longrightarrow> block_ok b \<Longrightarrow> bfree a \<Longrightarrow> block_ok (join a b)"
  by (auto simp: block_ok_def join_def)

lemma block_ok_freed: "block_ok b \<Longrightarrow> block_ok (freed b)"
  by (simp add: block_ok_def freed_def)

lemma absorb_next_facts:
  assumes "\<forall>c \<in> set (b # ys). block_ok c" "no_adj ys" "bfree b"
  shows "extent (absorb_next b ys) = extent (b # ys)" "\<forall>c \<in> set (absorb_next b ys). block_ok c"
    "used_bytes (absorb_next b ys) = used_bytes ys" "live_from j (absorb_next b ys) = live_from (j + extent [b]) ys"
    "guards m (j + extent [b]) ys \<Longrightarrow> guards m j (absorb_next b ys)"
    "no_adj (absorb_next b ys)" "bfree (hd (absorb_next b ys))" "absorb_next b ys \<noteq> []"
  using assms
  by (cases ys; auto simp: absorb_next_def join_def block_ok_def no_adj_Cons ac_simps)+

lemma absorb_prev_facts:
  assumes "\<forall>c \<in> set (xs @ b # zs). block_ok c" "no_adj xs" "no_adj (b # zs)" "bfree b"
  shows "extent (absorb_prev xs b zs) = extent (xs @ b # zs)" "\<forall>c \<in> set (absorb_prev xs b zs). block_ok c"
    "used_bytes (absorb_prev xs b zs) = used_bytes (xs @ b # zs)" "live_from j (absorb_prev xs b zs) = live_from j (xs @ b # zs)"
    "guards m j (xs @ b # zs) \<Longrightarrow> guards m j (absorb_prev xs b zs)" "no_adj (absorb_prev xs b zs)"
  using assms
  by (cases xs rule: rev_cases;
      auto simp: absorb_prev_def join_def block_ok_def no_adj_append no_adj_Cons live_append guards_append ac_simps)+


lemma ExFreePool_spec:
  assumes inv: "pool_inv s (xs @ b # ys)" and used: "\<not> bfree b"
  shows "\<exists>s'. ExFreePool (A (extent xs + 48)) s = Some s' \<and> pool_inv s' (free_list xs b ys) \<and>
    g_bytes_in_use s' = g_bytes_in_use s - of_nat (bsize b) \<and>
    live_from 0 (free_list xs b ys) = (live_from 0 (xs @ b # ys))(A (extent xs + 48) := None)"
proof -
  let ?j = "extent xs" and ?b = "freed b"
  define ns where "ns = absorb_next ?b ys"
  have pl: "pool_list s (xs @ b # ys)" and ok: "\<forall>c \<in> set (xs @ b # ys). block_ok c" and na: "no_adj (xs @ b # ys)"
    and gd: "guards (payload s) 0 (xs @ b # ys)" and nb: "\<not> g_pool_broken s"
    and ub: "g_bytes_in_use s = of_nat (used_bytes (xs @ b # ys))" and ar: "arena_ok (mm s) (extent (xs @ b # ys))"
    using inv by (simp_all add: pool_inv_def)
  have bound: "?j + 48 + bsize b + extent ys < 2 ^ 30" and bpos: "0 < bsize b" and br: "breq b \<le> bsize b"
    using pl ok used by (auto simp: pool_list_def block_ok_def)
  have m: "matches (nodes s (A ?j)) b" using pool_list_node(1) [OF pl] .
  have sz: "n_size (nodes s (A ?j)) = of_nat (bsize b)" using m by (simp add: matches_def)
  have gi: "pool_guard_intact (A ?j) s"
    using pool_guard_intact_iff [OF m used] br bound gd used by (simp add: guards_append)
  have pn: "payload_to_node (A (?j + 48)) = A ?j" unfolding A_hdr [of ?j, symmetric] by (simp add: payload_to_node_def)
  have nz: "A (?j + 48) \<noteq> 0" using bound by (simp add: A_nonzero)
  define s3 where "s3 = upd_node (A ?j) (\<lambda>h. h\<lparr>n_free := True, n_tag := 0, n_requested := 0\<rparr>) s"
  define s4 where "s4 = s3\<lparr>g_bytes_in_use := g_bytes_in_use s - of_nat (bsize b)\<rparr>"
  define s' where "s' = coalesce_prev (A ?j) (coalesce_next (A ?j) s4)"
  have fr: "ExFreePool (A (?j + 48)) s = Some s'"
    using nz m used gi nb sz
    by (simp add: ExFreePool_def Let_def pn matches_def s'_def s4_def s3_def)
  have okb: "\<forall>c \<in> set (?b # ys). block_ok c" "bfree ?b" using ok block_ok_freed by (auto simp: freed_def)
  have nay: "no_adj ys" "no_adj xs" using na by (simp_all add: no_adj_append no_adj_Cons)
  note n = absorb_next_facts [OF okb(1) nay(1) okb(2), folded ns_def]
  obtain c zs where cz: "ns = c # zs" using n(8) by (cases ns) auto
  have okc: "\<forall>d \<in> set (xs @ c # zs). block_ok d" "no_adj (c # zs)" "bfree c"
    using ok n(2,6,7) cz by auto
  note p = absorb_prev_facts [OF okc(1) nay(2) okc(2,3)]
  have fl: "free_list xs b ys = absorb_prev xs c zs" using cz by (simp add: free_list_def ns_def Let_def)
  have eb: "extent [?b] = 48 + bsize b" by (simp add: freed_def)
  have "pool_list s3 (xs @ ?b # ys)"
    unfolding s3_def by (rule pool_list_update [OF pl]) (use m in \<open>auto simp: matches_def freed_def\<close>)
  then have "pool_list s4 (xs @ ?b # ys)" by (simp add: s4_def pool_list_def)
  then have "pool_list (coalesce_next (A ?j) s4) (xs @ c # zs)"
    using coalesce_next_list [of s4 xs ?b ys] cz by (simp add: ns_def)
  then have "pool_list s' (free_list xs b ys)" unfolding s'_def fl by (rule coalesce_prev_list)
  moreover have gb: "g_bytes_in_use s' = g_bytes_in_use s - of_nat (bsize b)" by (simp add: s'_def s4_def)
  moreover have "g_bytes_in_use s' = of_nat (used_bytes (free_list xs b ys))"
    using ub gb p(3) n(3) cz used okc(3) unfolding fl by simp
  moreover have ex: "extent (free_list xs b ys) = extent (xs @ b # ys)"
    using p(1) n(1) cz eb unfolding fl by simp
  moreover have "guards (payload s') 0 (free_list xs b ys)"
  proof -
    have "payload s' = payload s" by (simp add: s'_def s4_def s3_def)
    moreover have "guards (payload s) ?j (c # zs)"
      using n(5) [of "payload s" ?j] gd eb cz by (simp add: guards_append add.assoc)
    ultimately show ?thesis unfolding fl using p(5) [of "payload s" 0] gd by (simp add: guards_append)
  qed
  moreover have "mm s' = mm s" "\<not> g_pool_broken s'" using nb by (simp_all add: s'_def s4_def s3_def)
  moreover have "live_from 0 (free_list xs b ys) = (live_from 0 (xs @ b # ys))(A (?j + 48) := None)"
  proof -
    have "live_from 0 (free_list xs b ys) = live_from 0 (xs @ [?b] @ ys)"
      unfolding fl p(4) using n(4) [of ?j] cz okb(2) by (simp add: live_append add.assoc freed_def)
    also have "\<dots> = (live_from 0 (xs @ [b] @ ys))(A (?j + 48) := None)"
      by (rule live_replace) (use bound bpos used in \<open>auto simp: freed_def\<close>)
    finally show ?thesis by simp
  qed
  ultimately show ?thesis
    using p(2,6) ar fr unfolding pool_inv_def fl [symmetric] by (auto simp only: ex)
qed

subsection \<open>\<open>ExInitializePool\<close>\<close>

lemma ExInitializePool_spec:
  assumes ar: "arena_ok (mm s) 0" and nb: "\<not> g_pool_broken s"
  shows "ExInitializePool s = None \<and> card (free_frames (pmm (mm s))) < 64 \<or>
    (\<exists>s'. ExInitializePool s = Some s' \<and> pool_inv s' [fresh_block 65488] \<and> user_kept (mm s) (mm s'))"
proof -
  define s0 where "s0 = s\<lparr>g_head := 0, g_tail := 0, g_heap_end := MM_KERNEL_HEAP_BASE, g_bytes_in_use := 0\<rparr>"
  have "pool_inv s0 []" using assms by (simp add: pool_inv_def pool_list_def s0_def A_0)
  moreover have u: "unat (POOL_GROW_CHUNK - POOL_HDR) = 65488" by simp
  moreover have w: "grow_bytes 65488 = 65536" by (simp add: grow_bytes_def)
  moreover have "grow_list 65536 [] = [fresh_block 65488]" by (simp add: grow_list_def)
  moreover have "mm s0 = mm s" by (simp add: s0_def)
  ultimately show ?thesis
    using pool_grow_spec [of s0 "[]" "POOL_GROW_CHUNK - POOL_HDR"]
    by (auto simp: ExInitializePool_def s0_def [symmetric])
qed

section \<open>The pool's contract\<close>

definition pool_rel :: "pool_state \<Rightarrow> (u64 \<rightharpoonup> nat) \<Rightarrow> bool" where
  "pool_rel s L \<longleftrightarrow> (\<exists>bs. pool_inv s bs \<and> L = live_from 0 bs)"

lemma live_block:
  assumes inv: "pool_inv s bs" and l: "live_from 0 bs p = Some r"
  obtains xs b ys where "bs = xs @ b # ys" "\<not> bfree b" "breq b = r" "p = A (extent xs + 48)"
    "extent xs + 48 + r + 16 \<le> extent bs" "0 < r" "unat p = 0xFFFFFFFFC0000000 + (extent xs + 48)"
    "r + 16 \<le> bsize b" "16 dvd extent xs"
proof -
  from live_split [OF l] obtain xs b ys where bs: "bs = xs @ b # ys" and b: "\<not> bfree b" "breq b = r"
    and p: "p = A (extent xs + 48)" by (metis add_0)
  have ok: "block_ok b" "extent bs < 2 ^ 30" "\<forall>c \<in> set xs. block_ok c" using inv bs by (auto simp: pool_inv_def pool_list_def)
  have "16 dvd extent xs" using ok(3) by (induction xs) (auto simp: block_ok_def)
  with that [OF bs b p] ok(1,2) b bs p show thesis by (auto simp: block_ok_def unat_A)
qed

lemma prefix_extent:
  "xs @ b # ys = vs @ c # ws \<Longrightarrow> length xs < length vs \<Longrightarrow> extent xs + 48 + bsize b \<le> extent vs"
proof (induction xs arbitrary: vs)
  case Nil
  then show ?case by (cases vs) auto
next
  case (Cons x xs)
  then show ?case by (cases vs) auto
qed

lemma live_disjoint:
  assumes inv: "pool_inv s bs" and p: "live_from 0 bs p = Some r" and q: "live_from 0 bs q = Some t" and "p \<noteq> q"
  shows "unat p + r \<le> unat q \<or> unat q + t \<le> unat p"
proof -
  from live_block [OF inv p] obtain xs b ys where 1: "bs = xs @ b # ys" "p = A (extent xs + 48)"
    "unat p = 0xFFFFFFFFC0000000 + (extent xs + 48)" "r + 16 \<le> bsize b" by metis
  from live_block [OF inv q] obtain vs c ws where 2: "bs = vs @ c # ws" "q = A (extent vs + 48)"
    "unat q = 0xFFFFFFFFC0000000 + (extent vs + 48)" "t + 16 \<le> bsize c" by metis
  consider "length xs < length vs" | "length vs < length xs" | "length xs = length vs" by linarith
  then show ?thesis
  proof cases
    case 1
    then show ?thesis
      using prefix_extent [of xs b ys vs c ws] \<open>bs = xs @ b # ys\<close> \<open>bs = vs @ c # ws\<close> \<open>unat p = _\<close> \<open>unat q = _\<close>
        \<open>r + 16 \<le> bsize b\<close> by simp
  next
    case 2
    then show ?thesis
      using prefix_extent [of vs c ws xs b ys] \<open>bs = xs @ b # ys\<close> \<open>bs = vs @ c # ws\<close> \<open>unat p = _\<close> \<open>unat q = _\<close>
        \<open>t + 16 \<le> bsize c\<close> by simp
  next
    case 3
    then show ?thesis using 1 2 \<open>p \<noteq> q\<close> by simp
  qed
qed

text \<open>What the pool promises its clients, over the map \<open>L\<close> from the live payload addresses to their sizes.\<close>

locale pool_contract =
  fixes rel :: "'s \<Rightarrow> (u64 \<rightharpoonup> nat) \<Rightarrow> bool" and alloc :: "u64 \<Rightarrow> u32 \<Rightarrow> 's \<Rightarrow> (u64 \<times> 's) option"
    and release :: "u64 \<Rightarrow> 's \<Rightarrow> 's option" and limit :: nat
  assumes alloc_null: "rel s L \<Longrightarrow> unat n \<le> limit \<Longrightarrow> alloc n tag s = Some (0, s') \<Longrightarrow> rel s' L"
    and alloc_some: "rel s L \<Longrightarrow> unat n \<le> limit \<Longrightarrow> alloc n tag s = Some (p, s') \<Longrightarrow> p \<noteq> 0 \<Longrightarrow>
      L p = None \<and> rel s' (L(p \<mapsto> unat n))"
    and release_live: "rel s L \<Longrightarrow> L p = Some r \<Longrightarrow> \<exists>s'. release p s = Some s' \<and> rel s' (L(p := None))"
    and live_apart: "rel s L \<Longrightarrow> L p = Some r \<Longrightarrow> L q = Some t \<Longrightarrow> p \<noteq> q \<Longrightarrow>
      unat p + r \<le> unat q \<or> unat q + t \<le> unat p"
    and live_nonzero: "rel s L \<Longrightarrow> L p = Some r \<Longrightarrow> p \<noteq> 0"
begin

text \<open>A client that keeps one structure per live block (its store's keys are live addresses) may use a new
  address as a new key, and the new block does not overlap the old ones.\<close>

lemma alloc_new_key:
  assumes "rel s L" "unat n \<le> limit" "alloc n tag s = Some (p, s')" "p \<noteq> 0" "dom S \<subseteq> dom L"
  shows "S p = None" and "dom (S(p \<mapsto> x)) \<subseteq> dom (L(p \<mapsto> unat n))" and "rel s' (L(p \<mapsto> unat n))"
  using alloc_some [OF assms(1-4)] assms(5) by auto

lemma alloc_apart:
  assumes "rel s L" "unat n \<le> limit" "alloc n tag s = Some (p, s')" "p \<noteq> 0" "L q = Some t"
  shows "unat p + unat n \<le> unat q \<or> unat q + t \<le> unat p"
proof -
  have "L p = None" "rel s' (L(p \<mapsto> unat n))" using alloc_some [OF assms(1-4)] by auto
  then show ?thesis using live_apart [of s' "L(p \<mapsto> unat n)" p "unat n" q t] assms(5) by (cases "p = q") auto
qed

lemma alloc_release:
  assumes "rel s L" "unat n \<le> limit" "alloc n tag s = Some (p, s')" "p \<noteq> 0"
  shows "\<exists>s''. release p s' = Some s'' \<and> rel s'' L"
proof -
  have n: "L p = None" and r: "rel s' (L(p \<mapsto> unat n))" using alloc_some [OF assms] by auto
  from release_live [OF r, of p "unat n"] obtain s'' where "release p s' = Some s''" "rel s'' ((L(p \<mapsto> unat n))(p := None))"
    by auto
  moreover have "(L(p \<mapsto> unat n))(p := None) = L" using n by auto
  ultimately show ?thesis by auto
qed

lemma release_key:
  assumes "rel s L" "dom S \<subseteq> dom L" "S p = Some x"
  shows "\<exists>s'. release p s = Some s' \<and> rel s' (L(p := None)) \<and> dom (S(p := None)) \<subseteq> dom (L(p := None))"
proof -
  from assms(2,3) obtain r where "L p = Some r" by auto
  from release_live [OF assms(1) this] assms(2) show ?thesis by auto
qed

end

interpretation pool: pool_contract pool_rel "ExAllocatePoolWithTag NonPagedPool" ExFreePool "2 ^ 61"
proof
  fix s s' :: pool_state and L n tag p q r t
  assume rel: "pool_rel s L"
  then obtain bs where inv: "pool_inv s bs" and L: "L = live_from 0 bs" by (auto simp: pool_rel_def)
  show "pool_rel s' L" if "unat n \<le> 2 ^ 61" "ExAllocatePoolWithTag NonPagedPool n tag s = Some (0, s')"
  proof (cases "n = 0")
    case True
    then show ?thesis using that rel by (simp add: ExAllocatePoolWithTag_def)
  next
    case False
    from inv that(1) False show ?thesis
    proof (cases rule: ExAllocatePoolWithTag_spec [where ty = NonPagedPool and tag = tag])
      case (null s1)
      then show ?thesis using that L by (auto simp: pool_rel_def)
    qed (use that in auto)
  qed
  show "L p = None \<and> pool_rel s' (L(p \<mapsto> unat n))"
    if "unat n \<le> 2 ^ 61" "ExAllocatePoolWithTag NonPagedPool n tag s = Some (p, s')" "p \<noteq> 0"
  proof -
    have "n \<noteq> 0" using that by (auto simp: ExAllocatePoolWithTag_def)
    with inv that(1) show ?thesis
    proof (cases rule: ExAllocatePoolWithTag_spec [where ty = NonPagedPool and tag = tag])
      case (some p' s1 bs')
      then show ?thesis using that L by (auto simp: pool_rel_def)
    qed (use that in auto)
  qed
  show "\<exists>s'. ExFreePool p s = Some s' \<and> pool_rel s' (L(p := None))" if "L p = Some r"
  proof -
    from live_block [OF inv that [unfolded L]] obtain xs b ys where
      "bs = xs @ b # ys" "\<not> bfree b" "p = A (extent xs + 48)" by metis
    moreover from this ExFreePool_spec [of s xs b ys] inv obtain s' where
      "ExFreePool p s = Some s'" "pool_inv s' (free_list xs b ys)" "live_from 0 (free_list xs b ys) = L(p := None)"
      using L by auto
    ultimately show ?thesis unfolding pool_rel_def by metis
  qed
  show "unat p + r \<le> unat q \<or> unat q + t \<le> unat p" if "L p = Some r" "L q = Some t" "p \<noteq> q"
    using live_disjoint [OF inv] that L by blast
  show "p \<noteq> 0" if "L p = Some r"
  proof -
    from live_block [OF inv that [unfolded L]] have "unat p \<noteq> 0" by (metis add_is_0 zero_neq_numeral)
    then show ?thesis by auto
  qed
qed

section \<open>Clients of the pool\<close>

inductive pool_step :: "pool_state \<times> (u64 \<rightharpoonup> nat) \<Rightarrow> pool_state \<times> (u64 \<rightharpoonup> nat) \<Rightarrow> bool" where
  get: "ExAllocatePoolWithTag NonPagedPool n tag s = Some (p, s') \<Longrightarrow> p \<noteq> 0 \<Longrightarrow> unat n \<le> 2 ^ 61 \<Longrightarrow>
    pool_step (s, L) (s', L(p \<mapsto> unat n))"
| fail: "ExAllocatePoolWithTag NonPagedPool n tag s = Some (0, s') \<Longrightarrow> unat n \<le> 2 ^ 61 \<Longrightarrow> pool_step (s, L) (s', L)"
| put: "L p = Some r \<Longrightarrow> ExFreePool p s = Some s' \<Longrightarrow> pool_step (s, L) (s', L(p := None))"

lemma pool_step_rel: "pool_step x y \<Longrightarrow> (case x of (s, L) \<Rightarrow> pool_rel s L) \<Longrightarrow> (case y of (s, L) \<Rightarrow> pool_rel s L)"
proof (induction rule: pool_step.induct)
  case (get n tag s p s' L)
  then show ?case using pool.alloc_some by auto
next
  case (fail n tag s s' L)
  then show ?case using pool.alloc_null by auto
next
  case (put L p r s s')
  then show ?case using pool.release_live [of s L p r] by auto
qed

interpretation pool_clients: transition_system pool_step "\<lambda>(s, L). pool_rel s L"
  by unfold_locales (rule pool_step_rel)

section \<open>Properties\<close>

lemma arena_of_rel:
  assumes "pool_inv s bs" "live_from 0 bs p = Some r" "i < r"
  shows "MmGetPhysicalAddress (mm s) (p + of_nat i) \<noteq> MM_INVALID_PHYS"
proof -
  from live_block [OF assms(1,2)] obtain xs where "p = A (extent xs + 48)" "extent xs + 48 + r + 16 \<le> extent bs"
    by metis
  then show ?thesis using assms(1,3) A_add [of "extent xs + 48" i] by (simp add: pool_inv_def arena_ok_def)
qed

lemma live_aligned:
  assumes "pool_inv s bs" "live_from 0 bs p = Some r"
  shows "16 dvd unat p" "0 < r"
proof -
  from live_block [OF assms] obtain xs where u: "unat p = 0xFFFFFFFFC0000000 + (extent xs + 48)"
    and d: "16 dvd extent xs" and r: "0 < r" by metis
  have "16 dvd (0xFFFFFFFFC0000000 :: nat)" "16 dvd (48 :: nat)" by simp_all
  then show "16 dvd unat p" unfolding u using d by (intro dvd_add)
  show "0 < r" by (rule r)
qed

text \<open>What an allocation charges to \<^verbatim>\<open>g_bytes_in_use\<close>.\<close>

lemma pool_grow_bytes:
  assumes "pool_grow need s = Some (ok, s')"
  shows "g_bytes_in_use s' = g_bytes_in_use s"
  using assms by (auto simp: pool_grow_def Let_def upd_node_def split: bind_splits prod.splits if_splits)

lemma pool_claim_bytes:
  "g_bytes_in_use (pool_claim n need sz tag s) =
     g_bytes_in_use s + n_size (nodes (pool_claim n need sz tag s) n)"
  by (simp add: pool_claim_def Let_def pool_arm_guard_def)

lemma alloc_attempts_bytes:
  "alloc_attempts k need sz tag s = Some (p, s') \<Longrightarrow> p \<noteq> 0 \<Longrightarrow>
   g_bytes_in_use s' = g_bytes_in_use s + n_size (nodes s' (payload_to_node p))"
proof (induction k arbitrary: s)
  case (Suc k)
  then show ?case
    by (auto simp: payload_to_node_def pool_claim_bytes dest: pool_grow_bytes split: bind_splits prod.splits if_splits)
qed simp

lemma pool_validate_bytes: "pool_validate s = Some s' \<Longrightarrow> g_bytes_in_use s' = g_bytes_in_use s"
  by (auto simp: pool_validate_def split: bind_splits if_splits)

lemma alloc_bytes:
  assumes "ExAllocatePoolWithTag ty sz tag s = Some (p, s')" "p \<noteq> 0"
  shows "g_bytes_in_use s' = g_bytes_in_use s + n_size (nodes s' (payload_to_node p))"
  using assms alloc_attempts_bytes pool_validate_bytes
  by (fastforce simp: ExAllocatePoolWithTag_def Let_def split: bind_splits if_splits)


text \<open>(C8) \<^verbatim>\<open>ExAllocatePoolWithTag\<close>. For a request of at most 2^61 bytes on a well-formed pool the call returns NULL
  or halts only when too few frames are left to grow the arena, and NULL leaves the live blocks as they were;
  otherwise the new block is 16-byte aligned, was not live, lies in mapped memory and overlaps no live
  block.\<close>

theorem ExAllocatePoolWithTag_correct:
  assumes "pool_rel s L" and "n \<noteq> 0" and "unat n \<le> 2 ^ 61"
  shows "case ExAllocatePoolWithTag NonPagedPool n tag s of
      None \<Rightarrow> unat (MmFreePageCount (pmm (mm s))) < 4 * (grow_bytes (need_of n) div 4096)
    | Some (p, s') \<Rightarrow>
        if p = 0 then pool_rel s' L \<and> unat (MmFreePageCount (pmm (mm s))) < 4 * (grow_bytes (need_of n) div 4096)
        else pool_rel s' (L(p \<mapsto> unat n)) \<and> L p = None \<and> 16 dvd unat p \<and>
          (\<forall>i < unat n. MmGetPhysicalAddress (mm s') (p + of_nat i) \<noteq> MM_INVALID_PHYS) \<and>
          (\<forall>q r. L q = Some r \<longrightarrow> unat p + unat n \<le> unat q \<or> unat q + r \<le> unat p)"
proof -
  from assms(1) obtain bs where inv: "pool_inv s bs" and L: "L = live_from 0 bs" by (auto simp: pool_rel_def)
  have "counts_ok (pmm (mm s))"
    using inv by (auto simp: pool_inv_def arena_ok_def vmm_inv_def vmm_ok_def frames_ok_def pmm_inv_def)
  then have fc: "unat (MmFreePageCount (pmm (mm s))) = card (free_frames (pmm (mm s)))"
    by (simp add: MmFreePageCount_def unat_free_pages)
  from inv assms(3,2) show ?thesis
  proof (cases rule: ExAllocatePoolWithTag_spec [where ty = NonPagedPool and tag = tag])
    case halt
    then show ?thesis by (simp add: fc)
  next
    case (null s')
    then show ?thesis using L by (auto simp: fc pool_rel_def)
  next
    case (some p s' bs')
    have l: "live_from 0 bs' p = Some (unat n)" using some(5) by simp
    have "pool_rel s' (L(p \<mapsto> unat n))" using some(3,5) L by (auto simp: pool_rel_def)
    moreover have "\<forall>q r. L q = Some r \<longrightarrow> unat p + unat n \<le> unat q \<or> unat q + r \<le> unat p"
      using pool.alloc_apart [OF assms(1,3) some(1,2)] by blast
    ultimately show ?thesis
      using some L live_aligned(1) [OF some(3) l] arena_of_rel [OF some(3) l] by simp
  qed
qed

text \<open>A machine of 256 frames for the witnesses, with the root table in frame 0.\<close>

definition big_pmm :: pmm_state where
  "big_pmm = \<lparr>bitmap_phys = 0, bitmap_bytes = 32, total_pages = 256, free_pages = 256, used_pages = 0,
     next_hint = 0, bitmap = (\<lambda>_. 0)\<rparr>"

definition demo_pool :: pool_state where
  "demo_pool = \<lparr>mm = \<lparr>pmm = snd (MmAllocatePage big_pmm), ptm = (\<lambda>_ _. 0), g_kernel_pml4_phys = 0,
       MmDirectMapBase = 0, umem = (\<lambda>_. 0)\<rparr>,
     nodes = (\<lambda>_. \<lparr>n_prev = 0, n_next = 0, n_size = 0, n_requested = 0, n_free = False, n_tag = 0, n_magic = 0\<rparr>),
     payload = (\<lambda>_. 0), g_head = 0, g_tail = 0, g_heap_end = 0, g_bytes_in_use = 0, g_pool_broken = False, calls = 0\<rparr>"

lemma demo_pool_frames:
  "pmm_inv (pmm (mm demo_pool))" "bit_test (pmm (mm demo_pool)) 0" "total_pages (pmm (mm demo_pool)) = 256"
  "card (free_frames (pmm (mm demo_pool))) = 255"
proof -
  have "free_frames big_pmm = {f. f < 256}" by (auto simp: free_frames_def big_pmm_def bit_test_bit)
  then have "card (free_frames big_pmm) = 256" using card_words_below [of "256 :: u64"] by simp
  then have inv0: "pmm_inv big_pmm" by (simp add: pmm_inv_def counts_ok_def) (simp add: big_pmm_def)
  have e: "pmm (mm demo_pool) = (bit_set 0 big_pmm)\<lparr>free_pages := 255, used_pages := 1, next_hint := 1\<rparr>"
    by (simp add: demo_pool_def MmAllocatePage_def alloc_scan.simps big_pmm_def bit_test_bit)
  show "bit_test (pmm (mm demo_pool)) 0" "total_pages (pmm (mm demo_pool)) = 256" by (simp_all add: e) (simp add: big_pmm_def)
  show inv: "pmm_inv (pmm (mm demo_pool))"
    using pmm_frames.alloc_ok [OF inv0, of "fst (MmAllocatePage big_pmm)" "snd (MmAllocatePage big_pmm)"]
    by (simp add: demo_pool_def)
  have "unat (free_pages (pmm (mm demo_pool))) = 255" by (simp add: e)
  then show "card (free_frames (pmm (mm demo_pool))) = 255"
    using unat_free_pages [of "pmm (mm demo_pool)"] inv by (simp add: pmm_inv_def)
qed

lemma demo_pool_arena: "arena_ok (mm demo_pool) 0"
proof -
  let ?v = "mm demo_pool"
  have z: "ptm ?v (g_kernel_pml4_phys ?v) = (\<lambda>_. 0)" by (simp add: demo_pool_def)
  note ro = root_only [where m = "ptm ?v" and root = "g_kernel_pml4_phys ?v", OF z]
  have "vmm_ok ?v [0 \<mapsto> 0]"
    using ro(1) demo_pool_frames by (simp add: vmm_ok_def frames_ok_def addr_def) (simp add: demo_pool_def)
  moreover have "\<not> large_mapped (ptm ?v) (g_kernel_pml4_phys ?v) va" for va
    using ro(2) [of 1 va] by (simp add: large_mapped_def numeral_2_eq_2)
  ultimately show ?thesis using demo_pool_frames by (auto simp: arena_ok_def vmm_inv_def)
qed

lemma demo_pool_init:
  obtains s where "ExInitializePool demo_pool = Some s" "pool_inv s [fresh_block 65488]" "pool_rel s Map.empty"
proof -
  have "\<not> g_pool_broken demo_pool" by (simp add: demo_pool_def)
  then obtain s where "ExInitializePool demo_pool = Some s" "pool_inv s [fresh_block 65488]"
    using ExInitializePool_spec [OF demo_pool_arena] demo_pool_frames(4) by auto
  moreover from this(2) have "pool_rel s Map.empty" unfolding pool_rel_def
    by (intro exI [of _ "[fresh_block 65488]"]) (simp add: fresh_block_def)
  ultimately show thesis using that by blast
qed

text \<open>A block the size of the first free one is found without growing the arena.\<close>

lemma demo_pool_alloc:
  assumes "pool_inv s [fresh_block 65488]"
  obtains p s' where "ExAllocatePoolWithTag NonPagedPool 100 7 s = Some (p, s')" "p \<noteq> 0"
proof -
  have "unat (100 :: u64) \<le> 2 ^ 61" "(100 :: u64) \<noteq> 0" by simp_all
  from assms this show thesis
  proof (cases rule: ExAllocatePoolWithTag_spec [where ty = NonPagedPool and tag = 7])
    case (some p s' bs')
    then show thesis using that by blast
  next
    case halt
    then show thesis by (simp add: fresh_block_def need_of_def)
  next
    case (null s')
    then show thesis by (simp add: fresh_block_def need_of_def)
  qed
qed

theorem ExAllocatePoolWithTag_correct_witness:
  "\<exists>s p s'. ExInitializePool demo_pool = Some s \<and> ExAllocatePoolWithTag NonPagedPool 100 7 s = Some (p, s') \<and>
     p \<noteq> 0 \<and> 16 dvd unat p"
proof -
  obtain s where s: "ExInitializePool demo_pool = Some s" "pool_inv s [fresh_block 65488]" "pool_rel s Map.empty"
    by (rule demo_pool_init)
  obtain p s' where p: "ExAllocatePoolWithTag NonPagedPool 100 7 s = Some (p, s')" "p \<noteq> 0"
    by (rule demo_pool_alloc [OF s(2)])
  with ExAllocatePoolWithTag_correct [OF s(3), of 100 7] s(1) show ?thesis by auto
qed

text \<open>(C9) Round trip through the pool. Freeing a block that was just allocated always succeeds, and gives back the
  live blocks and the value of \<^verbatim>\<open>ExPoolBytesInUse\<close> there were before the allocation.\<close>

theorem ExFreePool_roundtrip:
  assumes "pool_rel s L" and "unat n \<le> 2 ^ 61"
    and "ExAllocatePoolWithTag NonPagedPool n tag s = Some (p, s1)" and "p \<noteq> 0"
  shows "\<exists>s2. ExFreePool p s1 = Some s2 \<and> pool_rel s2 L \<and> ExPoolBytesInUse s2 = ExPoolBytesInUse s"
proof -
  have L1: "L p = None" "pool_rel s1 (L(p \<mapsto> unat n))" using pool.alloc_some [OF assms] by auto
  then obtain bs where inv: "pool_inv s1 bs" and L: "L(p \<mapsto> unat n) = live_from 0 bs" by (auto simp: pool_rel_def)
  then have "live_from 0 bs p = Some (unat n)" by (metis fun_upd_same)
  from live_block [OF inv this] obtain xs b ys where bs: "bs = xs @ b # ys" "\<not> bfree b" and p: "p = A (extent xs + 48)"
    by metis
  from ExFreePool_spec [OF inv [unfolded bs] bs(2)] obtain s2 where
    s2: "ExFreePool p s1 = Some s2" "g_bytes_in_use s2 = g_bytes_in_use s1 - of_nat (bsize b)"
    using p by auto
  have "pool_list s1 (xs @ b # ys)" using inv bs by (simp add: pool_inv_def)
  then have "n_size (nodes s1 (payload_to_node p)) = of_nat (bsize b)"
    using pool_list_node(1) [of s1 xs b ys] A_hdr [of "extent xs", symmetric] p
    by (simp add: matches_def payload_to_node_def)
  then have "g_bytes_in_use s1 = g_bytes_in_use s + of_nat (bsize b)"
    using alloc_bytes [OF assms(3,4)] by simp
  moreover have "pool_rel s2 L" using pool.alloc_release [OF assms] s2(1) by auto
  ultimately show ?thesis using s2 by (auto simp: ExPoolBytesInUse_def)
qed

theorem ExFreePool_roundtrip_witness:
  "\<exists>s p s1 s2. ExInitializePool demo_pool = Some s \<and> ExAllocatePoolWithTag NonPagedPool 100 7 s = Some (p, s1) \<and>
     ExFreePool p s1 = Some s2 \<and> ExPoolBytesInUse s2 = ExPoolBytesInUse s"
proof -
  obtain s where s: "ExInitializePool demo_pool = Some s" "pool_inv s [fresh_block 65488]" "pool_rel s Map.empty"
    by (rule demo_pool_init)
  obtain p s' where p: "ExAllocatePoolWithTag NonPagedPool 100 7 s = Some (p, s')" "p \<noteq> 0"
    by (rule demo_pool_alloc [OF s(2)])
  with ExFreePool_roundtrip [OF s(3) _ p] s(1) show ?thesis by auto
qed

lemma absorb_keeps_free: "n_free (nodes (absorb lo hi s) a) = n_free (nodes s a)"
  by (auto simp: absorb_def Let_def)

lemma coalesce_keeps_free:
  "n_free (nodes (coalesce_prev n s) a) = n_free (nodes s a)" "n_free (nodes (coalesce_next n s) a) = n_free (nodes s a)"
  by (simp_all add: coalesce_absorb Let_def absorb_keeps_free)

fun free_all :: "u64 list \<Rightarrow> pool_state \<Rightarrow> pool_state option" where
  "free_all [] s = Some s"
| "free_all (p # ps) s = do { s' \<leftarrow> ExFreePool p s; free_all ps s' }"

lemma free_marks:
  assumes "ExFreePool p s = Some s'"
  shows "p \<noteq> 0 \<Longrightarrow> n_free (nodes s' (payload_to_node p))" "n_free (nodes s a) \<Longrightarrow> n_free (nodes s' a)"
  using assms unfolding ExFreePool_def Let_def
  by (simp_all add: coalesce_keeps_free split: if_split_asm) (auto simp: coalesce_keeps_free)

lemma free_all_keeps: "free_all ps s = Some s' \<Longrightarrow> n_free (nodes s a) \<Longrightarrow> n_free (nodes s' a)"
proof (induction ps arbitrary: s)
  case (Cons p ps)
  from Cons.prems(1) obtain s1 where "ExFreePool p s = Some s1" "free_all ps s1 = Some s'" by (auto split: bind_splits)
  then show ?case using Cons.IH [of s1] free_marks(2) [of p s s1 a] Cons.prems(2) by simp
qed simp

text \<open>(C10) A double free halts the machine as long as no allocation lies in between: whatever the state of the pool, if a block could
  be freed, then after any further frees of other blocks, none included, freeing it again reaches \<^verbatim>\<open>KeBugCheck\<close>, also when one of
  the frees merged the block into a neighbour. Once an allocation has reused the address nothing tells the second free
  from a first one, and this is not claimed to be caught.\<close>

theorem ExFreePool_double_free:
  assumes "ExFreePool p s = Some s1" and "p \<noteq> 0" and "free_all ps s1 = Some s2"
  shows "ExFreePool p s2 = None"
  using free_all_keeps [OF assms(3) free_marks(1) [OF assms(1,2)]] assms(2) by (simp add: ExFreePool_def Let_def)

theorem ExFreePool_double_free_witness:
  "\<exists>s p s1 s2. ExInitializePool demo_pool = Some s \<and> ExAllocatePoolWithTag NonPagedPool 100 7 s = Some (p, s1) \<and>
     ExFreePool p s1 = Some s2 \<and> ExFreePool p s2 = None"
proof -
  obtain s where s: "ExInitializePool demo_pool = Some s" "pool_inv s [fresh_block 65488]" "pool_rel s Map.empty"
    by (rule demo_pool_init)
  obtain p s' where p: "ExAllocatePoolWithTag NonPagedPool 100 7 s = Some (p, s')" "p \<noteq> 0"
    by (rule demo_pool_alloc [OF s(2)])
  have "unat (100 :: u64) \<le> 2 ^ 61" by simp
  from pool.alloc_release [OF s(3) this p] obtain s2 where f: "ExFreePool p s' = Some s2" by blast
  have "free_all [] s2 = Some s2" by simp
  from s(1) p f ExFreePool_double_free [OF f p(2) this] show ?thesis by blast
qed

text \<open>(C11) Safety of the pool. After \<^verbatim>\<open>ExInitializePool\<close> on a machine with less than 1 GiB, whatever allocations and
  frees the kernel performs, live blocks stay 16-byte aligned, mapped and pairwise disjoint, and
  \<^verbatim>\<open>pool_validate\<close> never reports corruption.\<close>

theorem pool_safety:
  assumes "arena_ok (mm s0) 0" and "\<not> g_pool_broken s0" and "ExInitializePool s0 = Some s1"
    and "pool_step\<^sup>*\<^sup>* (s1, Map.empty) (s, L)"
  shows "(\<forall>p r. L p = Some r \<longrightarrow> 16 dvd unat p \<and> 0 < r \<and>
        (\<forall>i < r. MmGetPhysicalAddress (mm s) (p + of_nat i) \<noteq> MM_INVALID_PHYS)) \<and>
    (\<forall>p r q t. L p = Some r \<and> L q = Some t \<and> p \<noteq> q \<longrightarrow> unat p + r \<le> unat q \<or> unat q + t \<le> unat p) \<and>
    pool_validate s = Some s"
proof -
  have "pool_inv s1 [fresh_block 65488]" using ExInitializePool_spec [OF assms(1,2)] assms(3) by auto
  then have "pool_rel s1 Map.empty" unfolding pool_rel_def
    by (intro exI [of _ "[fresh_block 65488]"]) (simp add: fresh_block_def)
  then have "pool_rel s L" using pool_clients.steps_inv [OF assms(4)] by simp
  then obtain bs where inv: "pool_inv s bs" and L: "L = live_from 0 bs" by (auto simp: pool_rel_def)
  then show ?thesis
    using live_aligned [OF inv] arena_of_rel [OF inv] live_disjoint [OF inv] pool_validate_ok [OF inv]
    unfolding L by blast
qed

theorem pool_safety_witness:
  "\<exists>s1 p s. ExInitializePool demo_pool = Some s1 \<and> pool_step\<^sup>*\<^sup>* (s1, Map.empty) (s, [p \<mapsto> 100]) \<and>
     16 dvd unat p \<and> pool_validate s = Some s"
proof -
  obtain s where s: "ExInitializePool demo_pool = Some s" "pool_inv s [fresh_block 65488]" "pool_rel s Map.empty"
    by (rule demo_pool_init)
  obtain p s' where p: "ExAllocatePoolWithTag NonPagedPool 100 7 s = Some (p, s')" "p \<noteq> 0"
    by (rule demo_pool_alloc [OF s(2)])
  have "pool_step\<^sup>*\<^sup>* (s, Map.empty) (s', [p \<mapsto> 100])" using pool_step.get [OF p, of Map.empty] by auto
  moreover have "\<not> g_pool_broken demo_pool" by (simp add: demo_pool_def)
  ultimately show ?thesis
    using s(1) pool_safety [OF demo_pool_arena _ s(1), of s' "[p \<mapsto> 100]"]
    by (intro exI [of _ s] exI [of _ p] exI [of _ s']) simp
qed


lemma align_wraps:
  assumes "unat sz > 2 ^ 64 - 16"
  shows "ALIGN_UP_BY sz POOL_ALIGN = 0"
proof -
  have "unat (sz + 15) = unat sz + 15 - 2 ^ 64"
    using assms unat_less_64 [of sz] by (simp add: unat_word_ariths mod_if)
  then have "unat (sz + 15) < 16" using assms unat_less_64 [of sz] by linarith
  then have "drop_bit 4 (sz + 15) = 0" by (simp add: word_unat_eq_iff drop_bit_eq_div unat_div)
  moreover have "(15 :: u64) = mask 4" by (simp add: mask_eq_exp_minus_1)
  moreover have "(sz + 15) AND NOT (mask 4) = push_bit 4 (drop_bit 4 (sz + 15))" by (rule bit_eqI) (auto simp: bit_simps)
  ultimately show ?thesis by (simp add: ALIGN_UP_BY_def ALIGN_DOWN_BY_def)
qed

text \<open>The size computation of \<^verbatim>\<open>ExAllocatePoolWithTag\<close> wraps around: a request within 15 bytes of 2^64 is rounded
  to zero plus the guard, so on a pool with a free block the caller gets a non-NULL block of less than
  1 GiB for it.\<close>

theorem ExAllocatePoolWithTag_size_wraps:
  assumes inv: "pool_inv s bs" and sz: "unat sz > 2 ^ 64 - 16" and free: "\<exists>b \<in> set bs. bfree b"
  shows "\<exists>p s'. ExAllocatePoolWithTag NonPagedPool sz tag s = Some (p, s') \<and> p \<noteq> 0 \<and>
    unat (n_size (nodes s' (payload_to_node p))) < 2 ^ 30"
proof -
  define s2 where "s2 = s\<lparr>calls := calls s + 1\<rparr>"
  have inv2: "pool_inv s2 bs" using inv by (simp add: s2_def pool_inv_def pool_list_def)
  have nz: "sz \<noteq> 0" using sz by auto
  have ex: "ExAllocatePoolWithTag NonPagedPool sz tag s = alloc_attempts (Suc (Suc 0)) 16 sz tag s2"
    using nz pool_validate_ok [OF inv2] align_wraps [OF sz]
    by (simp add: ExAllocatePoolWithTag_def Let_def s2_def [symmetric] numeral_2_eq_2)
  from free obtain b where "b \<in> set bs" "fits 16 b"
    using inv by (auto simp: pool_inv_def block_ok_def fits_def dest!: dvd_imp_le)
  with find_fit_pool [OF inv2, of 16] obtain xs b ys where bs: "bs = xs @ b # ys" and fit: "fits 16 b"
    and ff: "find_fit s2 16 (g_head s2) = Some (A (extent xs))" by blast
  let ?j = "extent xs" and ?c = "pool_claim (A (extent xs)) 16 sz tag s2"
  have pl: "pool_list s2 (xs @ b # ys)" using inv2 bs by (simp add: pool_inv_def)
  have j: "A ?j \<noteq> 0" "A (?j + 48) \<noteq> 0" and b30: "bsize b < 2 ^ 30"
    using pl by (auto simp: pool_list_def A_nonzero)
  have "pool_list (pool_split (A ?j) 16 s2) (xs @ hd (split_block 16 b) # (tl (split_block 16 b) @ ys))"
    using pool_split_list [OF pl, of 16] fit
    by (cases "split_block 16 b") (auto simp: fits_def)
  from pool_list_node(1) [OF this] have "unat (n_size (nodes (pool_split (A ?j) 16 s2) (A ?j))) < 2 ^ 30"
    using matches_size [of _ "hd (split_block 16 b)"] b30 by (auto simp: split_block_def split: if_splits)
  moreover have "n_size (nodes ?c (A ?j)) = n_size (nodes (pool_split (A ?j) 16 s2) (A ?j))"
    by (simp add: pool_claim_def Let_def pool_arm_guard_def)
  moreover have "alloc_attempts (Suc (Suc 0)) 16 sz tag s2 = Some (A ?j + POOL_HDR, ?c)"
    using ff j by simp
  ultimately show ?thesis unfolding ex using j by (simp add: payload_to_node_def A_hdr [symmetric])
qed

theorem ExAllocatePoolWithTag_size_wraps_witness:
  "\<exists>s p s'. ExInitializePool demo_pool = Some s \<and>
     ExAllocatePoolWithTag NonPagedPool 0xFFFFFFFFFFFFFFFF 0 s = Some (p, s') \<and> p \<noteq> 0"
proof -
  obtain s where s: "ExInitializePool demo_pool = Some s" "pool_inv s [fresh_block 65488]" "pool_rel s Map.empty"
    by (rule demo_pool_init)
  have "\<exists>b \<in> set [fresh_block 65488]. bfree b" by (simp add: fresh_block_def)
  from ExAllocatePoolWithTag_size_wraps [OF s(2) _ this, of "0xFFFFFFFFFFFFFFFF" 0] s(1) show ?thesis by auto
qed

section \<open>Room\<close>

text \<open>Allocations that fit into the free block at the end of the arena succeed.\<close>

definition pool_room :: "pool_state \<Rightarrow> (u64 \<rightharpoonup> nat) \<Rightarrow> nat \<Rightarrow> bool" where
  "pool_room s L k \<longleftrightarrow> (\<exists>bs. pool_inv s bs \<and> L = live_from 0 bs \<and> bs \<noteq> [] \<and> bfree (last bs) \<and> k \<le> bsize (last bs))"

lemma pool_room_rel: "pool_room s L k \<Longrightarrow> pool_rel s L"
  by (auto simp: pool_room_def pool_rel_def)

lemma pool_room_alloc:
  assumes room: "pool_room s L k" and sz: "sz \<noteq> 0" "need_of sz + 64 \<le> k"
  shows "\<exists>p s'. ExAllocatePoolWithTag NonPagedPool sz tag s = Some (p, s') \<and> p \<noteq> 0 \<and> L p = None \<and>
    pool_room s' (L(p \<mapsto> unat sz)) (k - need_of sz - 48) \<and> mm s' = mm s"
proof -
  from room obtain bs where inv: "pool_inv s bs" and L: "L = live_from 0 bs" and bs: "bs \<noteq> []" "bfree (last bs)" "k \<le> bsize (last bs)"
    by (auto simp: pool_room_def)
  have ext: "extent bs < 2 ^ 30" using inv by (simp add: pool_inv_def pool_list_def)
  have "bsize (last bs) \<le> extent bs" using bs(1) by (induction bs) auto
  then have "need_of sz < 2 ^ 30" using sz(2) bs(3) ext by linarith
  then have u: "unat sz \<le> 2 ^ 61" by (simp add: need_of_def)
  then have u2: "unat sz \<le> 2 ^ 62" by simp
  define need where "need = ALIGN_UP_BY sz POOL_ALIGN + POOL_GUARD"
  have nd: "unat need = need_of sz" using need_of(1) [OF u2] by (simp add: need_def)
  define s2 where "s2 = s\<lparr>calls := calls s + 1\<rparr>"
  have inv2: "pool_inv s2 bs" using inv by (simp add: s2_def pool_inv_def pool_list_def)
  have ex: "ExAllocatePoolWithTag NonPagedPool sz tag s = alloc_attempts (Suc (Suc 0)) need sz tag s2"
    using sz(1) pool_validate_ok [OF inv2]
    by (simp add: ExAllocatePoolWithTag_def Let_def s2_def [symmetric] need_def numeral_2_eq_2)
  have "fits need (last bs)" using bs sz(2) nd by (simp add: fits_def)
  then have "\<not> (\<forall>b \<in> set bs. \<not> fits need b)" using bs(1) by auto
  with find_fit_pool [OF inv2, of need] obtain xs b ys where b: "bs = xs @ b # ys" and fit: "fits need b"
    and ff: "find_fit s2 need (g_head s2) = Some (A (extent xs))" by blast
  define s' where "s' = pool_claim (A (extent xs)) need sz tag s2"
  define bs' where "bs' = xs @ claim_blocks (need_of sz) (unat sz) tag b @ ys"
  have inv': "pool_inv s' bs'" using pool_claim_inv [OF inv2 [unfolded b] fit u2 sz(1) need_def] by (simp add: s'_def bs'_def)
  have r: "A (extent xs) \<noteq> 0" "A (extent xs) + POOL_HDR \<noteq> 0" "L (A (extent xs) + POOL_HDR) = None"
    using claim_result [OF inv2 [unfolded b] fit u sz(1) need_def, of tag] unfolding L b by auto
  have e: "ExAllocatePoolWithTag NonPagedPool sz tag s = Some (A (extent xs) + POOL_HDR, s')"
    unfolding ex using ff r by (simp add: s'_def)
  have "live_from 0 bs' = L(A (extent xs) + POOL_HDR \<mapsto> unat sz)"
  proof -
    have "bfree b" "0 < bsize b" using fit inv b by (auto simp: fits_def pool_inv_def block_ok_def)
    then have "live_from 0 bs' = (live_from 0 (xs @ [b] @ ys))(A (extent xs + 48) \<mapsto> unat sz)"
      unfolding bs'_def by (intro live_replace) (use extent_claim ext b live_claim in auto)
    then show ?thesis by (simp add: L b A_hdr)
  qed
  moreover have "bs' \<noteq> [] \<and> bfree (last bs') \<and> k - need_of sz - 48 \<le> bsize (last bs')"
  proof (cases ys rule: rev_cases)
    case Nil
    then have lb: "bsize b = bsize (last bs)" "bfree b" using b fit by (auto simp: fits_def)
    then have "need_of sz + 64 \<le> bsize b" using bs(3) sz(2) by simp
    then obtain c d where "claim_blocks (need_of sz) (unat sz) tag b = [c, d]" "bfree d" "bsize d = bsize b - need_of sz - 48"
      using lb(2) by (auto simp: claim_blocks_def split_block_def Let_def)
    then show ?thesis using Nil lb bs(3) by (simp add: bs'_def)
  next
    case (snoc ys' y)
    then show ?thesis using b bs by (auto simp: bs'_def)
  qed
  ultimately have "pool_room s' (L(A (extent xs) + POOL_HDR \<mapsto> unat sz)) (k - need_of sz - 48)"
    using inv' unfolding pool_room_def by metis
  moreover have "mm s' = mm s" by (simp add: s'_def s2_def pool_claim_def Let_def pool_arm_guard_def)
  ultimately show ?thesis using e r by blast
qed

text \<open>The headers in memory determine the live blocks.\<close>

lemma of_nat_small_eq: "(of_nat m :: u64) = of_nat n \<Longrightarrow> m < 2 ^ 30 \<Longrightarrow> n < 2 ^ 30 \<Longrightarrow> m = n"
proof -
  assume e: "(of_nat m :: u64) = of_nat n" and m: "m < 2 ^ 30" and n: "n < 2 ^ 30"
  have "unat (of_nat m :: u64) = m" using m by (intro unat_of_nat_id) simp
  moreover have "unat (of_nat n :: u64) = n" using n by (intro unat_of_nat_id) simp
  ultimately show ?thesis by (metis e)
qed

lemma seg_live_unique:
  assumes "seg N p j bs 0" "seg N q j cs 0" "j + extent bs < 2 ^ 30" "j + extent cs < 2 ^ 30" "bs = [] \<longleftrightarrow> cs = []"
    "\<forall>b \<in> set bs. block_ok b" "\<forall>c \<in> set cs. block_ok c"
  shows "live_from j bs = live_from j cs"
  using assms
proof (induction bs arbitrary: cs j p q)
  case (Cons b bs)
  then obtain c cs' where cs: "cs = c # cs'" by (cases cs) auto
  have m: "matches (N (A j)) b" "matches (N (A j)) c" using Cons.prems cs by auto
  have le: "j + 48 + bsize b + extent bs < 2 ^ 30" "j + 48 + bsize c + extent cs' < 2 ^ 30" using Cons.prems(3,4) cs by simp_all
  have "(of_nat (bsize b) :: u64) = of_nat (bsize c)" using m by (simp add: matches_def)
  then have sz: "bsize c = bsize b" using of_nat_small_eq [of "bsize b" "bsize c"] le by linarith
  have fr: "bfree c = bfree b" using m by (simp add: matches_def)
  have rq: "breq c = breq b" if "\<not> bfree b"
  proof -
    have "breq b + 16 \<le> bsize b" "breq c + 16 \<le> bsize c" using that fr Cons.prems(6,7) cs by (auto simp: block_ok_def)
    moreover have "(of_nat (breq b) :: u64) = of_nat (breq c)" using that fr m by (simp add: matches_def)
    ultimately show ?thesis using of_nat_small_eq [of "breq b" "breq c"] le by linarith
  qed
  have "A (j + 48 + bsize b) \<noteq> 0" using le by (intro A_nonzero) simp
  then have e: "bs = [] \<longleftrightarrow> cs' = []" using Cons.prems(1,2) cs sz by (auto split: if_splits)
  have "live_from (j + 48 + bsize b) bs = live_from (j + 48 + bsize b) cs'"
    by (rule Cons.IH [of "A j" _ "A j"]) (use Cons.prems cs sz e le in auto)
  then show ?case using cs sz fr rq by (cases "bfree b") (simp_all add: fun_eq_iff)
qed simp

lemma pool_rel_unique:
  assumes "pool_rel s L" "pool_rel s K"
  shows "L = K"
proof -
  obtain bs cs where i: "pool_inv s bs" "L = live_from 0 bs" "pool_inv s cs" "K = live_from 0 cs"
    using assms by (auto simp: pool_rel_def)
  have "A 0 \<noteq> 0" by (rule A_nonzero) simp
  then have "bs = [] \<longleftrightarrow> cs = []" using i(1,3) by (auto simp: pool_inv_def pool_list_def hd_ptr_def split: if_splits)
  then show ?thesis using seg_live_unique [of "nodes s" 0 0 bs 0 cs] i by (simp add: pool_inv_def pool_list_def)
qed

section \<open>A machine with a user page\<close>

text \<open>For witnesses of services that write to user memory: the page at \<^verbatim>\<open>0x400000\<close> is mapped.\<close>

definition user_page :: "vmm_state \<Rightarrow> bool" where
  "user_page v \<longleftrightarrow> user_small v \<and> (\<forall>a. 0x400000 \<le> unat a \<and> unat a < 0x401000 \<longrightarrow> MmGetPhysicalAddress v a \<noteq> MM_INVALID_PHYS)"

lemma user_page_probe:
  "user_page v \<Longrightarrow> 0x400000 \<le> unat va \<Longrightarrow> unat va + unat len \<le> 0x401000 \<Longrightarrow> MmProbeForWrite v va len = Some True"
  unfolding MmProbeForWrite_def user_page_def by (auto simp: MmProbeForRead_iff)

lemma user_page_kept: "user_kept v v' \<Longrightarrow> user_page v \<Longrightarrow> user_page v'"
  by (simp add: user_kept_def user_page_def user_small_def word_less_nat_alt)

lemma demo_user_pool:
  obtains p where "pool_inv p [fresh_block 65488]" "user_page (mm p)"
proof -
  let ?v = "mm demo_pool"
  have z: "ptm ?v (g_kernel_pml4_phys ?v) = (\<lambda>_. 0)" by (simp add: demo_pool_def)
  note ro = root_only [where m = "ptm ?v" and root = "g_kernel_pml4_phys ?v", OF z]
  have nl: "\<not> large_mapped (ptm ?v) (g_kernel_pml4_phys ?v) va" for va using ro(2) [of 1 va] by (simp add: large_mapped_def numeral_2_eq_2)
  obtain D where ok: "vmm_ok ?v D" using demo_pool_arena by (auto simp: arena_ok_def vmm_inv_def)
  have fl: "(PTE_WRITE :: u64) AND PTE_ADDR_MASK = 0" by simp
  from ok fl obtain v where ar: "arena_ok v 0" and c: "64 \<le> card (free_frames (pmm v))" and up: "user_page v"
  proof (cases rule: MmMapPage_spec [where va = "0x400000" and pa = "0x7000"])
    case none
    then show thesis using demo_pool_frames(4) by simp
  next
    case m: (some b v D')
    have "b" using m(4) nl by simp
    have "arena_ok v 0" unfolding arena_ok_def
      using m(2,8,9,10) demo_pool_frames nl by (auto simp: vmm_inv_def)
    moreover have "64 \<le> card (free_frames (pmm v))" using m(7) demo_pool_frames(4) by simp
    moreover have "user_page v" unfolding user_page_def
    proof (intro conjI allI impI)
      show "user_small v" using m(10) nl by (simp add: user_small_def)
      fix a :: u64 assume a: "0x400000 \<le> unat a \<and> unat a < 0x401000"
      then have "unat a div 4096 = 0x400" by (intro div_nat_eqI) auto
      then have "page_of a = page_of 0x400000" by (simp add: word_unat_eq_iff page_of_unat)
      then show "MmGetPhysicalAddress v a \<noteq> MM_INVALID_PHYS" using m(6) [of a] \<open>b\<close> small_addr_valid [of "0x7000" a] by (simp add: addr_def)
    qed
    ultimately show thesis by (rule that)
  qed
  have "arena_ok (mm (demo_pool\<lparr>mm := v\<rparr>)) 0" "\<not> g_pool_broken (demo_pool\<lparr>mm := v\<rparr>)" using ar by (simp_all add: demo_pool_def)
  from ExInitializePool_spec [OF this] c obtain p where "pool_inv p [fresh_block 65488]" "user_kept v (mm p)" by auto
  then show thesis using that user_page_kept up by blast
qed

end
