(* ===== verification/Mm_Multiboot.thy ===== *)
theory Mm_Multiboot
  imports Ex_Pool
begin

text \<open>
  The Multiboot2 parser \<^verbatim>\<open>kernel/mm/multiboot.c\<close> and the bring-up sequence of \<^verbatim>\<open>kernel/mm/mm_init.c\<close>.
  The boot information block is read from physical memory, \<open>mem\<close>, byte by byte (little endian). The output
  \<open>MM_MEMORY_MAP\<close> has its regions as a list, whose length is the \<^verbatim>\<open>count\<close> of the code. The walk over the tags is a
  partial function: a tag whose size rounds to 0 never ends it.

  The specification is an encoder of the Multiboot2 format, \<open>mb_block\<close>: the parser returns the regions and the
  framebuffer of every block the encoder produces. The last section composes the parser with the two
  initialisation routines.
\<close>

section \<open>Memory reads\<close>

definition ld32 :: "(u64 \<Rightarrow> u8) \<Rightarrow> u64 \<Rightarrow> u32" where
  "ld32 mem a = ucast (mem a) OR push_bit 8 (ucast (mem (a + 1))) OR push_bit 16 (ucast (mem (a + 2)))
     OR push_bit 24 (ucast (mem (a + 3)))"

definition ld64 :: "(u64 \<Rightarrow> u8) \<Rightarrow> u64 \<Rightarrow> u64" where
  "ld64 mem a = ucast (ld32 mem a) OR push_bit 32 (ucast (ld32 mem (a + 4)))"

section \<open>The parser\<close>

definition MmRegionTypeName :: "MM_REGION_TYPE \<Rightarrow> string" where
  "MmRegionTypeName t = (case t of MmRegionAvailable \<Rightarrow> ''available'' | MmRegionReserved \<Rightarrow> ''reserved''
     | MmRegionAcpiReclaimable \<Rightarrow> ''ACPI-reclaim'' | MmRegionAcpiNvs \<Rightarrow> ''ACPI-NVS'' | MmRegionBad \<Rightarrow> ''bad'')"

definition translate_type :: "u32 \<Rightarrow> MM_REGION_TYPE" where
  "translate_type t = (if t = 1 then MmRegionAvailable else if t = 3 then MmRegionAcpiReclaimable
     else if t = 4 then MmRegionAcpiNvs else if t = 5 then MmRegionBad else MmRegionReserved)"

abbreviation "MM_MAX_REGIONS \<equiv> (64 :: nat)"

record GFX_FRAMEBUFFER =
  PhysAddr :: u64
  Pitch :: u32
  Width :: u32
  Height :: u32
  Bpp :: u8
  RedShift :: u8
  GreenShift :: u8
  BlueShift :: u8
  Present :: bool

definition read_framebuffer :: "(u64 \<Rightarrow> u8) \<Rightarrow> u64 \<Rightarrow> GFX_FRAMEBUFFER" where
  "read_framebuffer mem fb =
     (let rgb = (mem (fb + 29) = 1)
      in \<lparr>PhysAddr = ld64 mem (fb + 8), Pitch = ld32 mem (fb + 16), Width = ld32 mem (fb + 20),
          Height = ld32 mem (fb + 24), Bpp = mem (fb + 28),
          RedShift = (if rgb then mem (fb + 32) else 16),
          GreenShift = (if rgb then mem (fb + 34) else 8),
          BlueShift = (if rgb then mem (fb + 36) else 0), Present = True\<rparr>)"

definition add_region :: "MM_MEMORY_REGION \<Rightarrow> MM_MEMORY_MAP \<Rightarrow> MM_MEMORY_MAP" where
  "add_region r out =
     (let out1 = out\<lparr>regions := regions out @ [r]\<rparr>
      in if rtype r = MmRegionAvailable then
           (let region_end = rbase r + rlength r
            in out1\<lparr>total_available := total_available out1 + rlength r,
                    highest_address := (if highest_address out1 < region_end then region_end
                                        else highest_address out1)\<rparr>)
         else out1)"

definition read_entry :: "(u64 \<Rightarrow> u8) \<Rightarrow> u64 \<Rightarrow> MM_MEMORY_REGION" where
  "read_entry mem e = \<lparr>rbase = ld64 mem e, rlength = ld64 mem (e + 8),
     rtype = translate_type (ld32 mem (e + 16))\<rparr>"

function mmap_loop :: "(u64 \<Rightarrow> u8) \<Rightarrow> u32 \<Rightarrow> u64 \<Rightarrow> u64 \<Rightarrow> MM_MEMORY_MAP \<Rightarrow> MM_MEMORY_MAP" where
  "mmap_loop mem entry_size entries_end e out =
     (if e + ucast entry_size \<le> entries_end \<and> length (regions out) < MM_MAX_REGIONS then
        mmap_loop mem entry_size entries_end (e + ucast entry_size) (add_region (read_entry mem e) out)
      else out)"
  by pat_completeness auto
termination
  by (relation "measure (\<lambda>(mem, es, lim, e, out). MM_MAX_REGIONS - length (regions out))")
     (auto simp: add_region_def Let_def)

declare mmap_loop.simps [simp del]

text \<open>\<^verbatim>\<open>(tag->size + 7) & ~7ULL\<close>: the sum is computed in 32 bits.\<close>

definition tag_advance :: "u32 \<Rightarrow> u64" where
  "tag_advance sz = ucast (sz + 7) AND NOT 7"

partial_function (option) tag_loop ::
    "(u64 \<Rightarrow> u8) \<Rightarrow> u64 \<Rightarrow> u64 \<Rightarrow> MM_MEMORY_MAP \<Rightarrow> GFX_FRAMEBUFFER \<Rightarrow> (MM_MEMORY_MAP \<times> GFX_FRAMEBUFFER) option" where
  "tag_loop mem fin cursor out fb =
     (if cursor + 8 \<le> fin then
        (let ty = ld32 mem cursor; sz = ld32 mem (cursor + 4)
         in if ty = 0 then Some (out, fb)
            else
              tag_loop mem fin (cursor + tag_advance sz)
                (if ty = 6 then mmap_loop mem (ld32 mem (cursor + 8)) (cursor + ucast sz) (cursor + 16) out
                 else out)
                (if ty = 8 then read_framebuffer mem cursor else fb))
      else Some (out, fb))"

definition MmParseMultibootMemoryMap ::
    "(u64 \<Rightarrow> u8) \<Rightarrow> u64 \<Rightarrow> GFX_FRAMEBUFFER \<Rightarrow> (bool \<times> MM_MEMORY_MAP \<times> GFX_FRAMEBUFFER) option" where
  "MmParseMultibootMemoryMap mem mb_info_phys fb =
     (let out = \<lparr>regions = [], highest_address = 0, total_available = 0\<rparr>
      in if mb_info_phys = 0 then Some (False, out, fb)
         else do {
           (out, fb) \<leftarrow> tag_loop mem (mb_info_phys + ucast (ld32 mem mb_info_phys)) (mb_info_phys + 8) out fb;
           Some (regions out \<noteq> [], out, fb)
         })"

text \<open>\<^verbatim>\<open>MmInitialize\<close>: \<open>kernel_end\<close> is the linker's \<^verbatim>\<open>__kernel_phys_end\<close>, \<open>park\<close> the memory the frame bitmap is parked in,
  the failure of the parser the bug check.\<close>

definition MmInitialize ::
    "u64 \<Rightarrow> (u64 \<Rightarrow> u8) \<Rightarrow> (u64 \<Rightarrow> u8) \<Rightarrow> u64 \<Rightarrow> GFX_FRAMEBUFFER \<Rightarrow> vmm_state
      \<Rightarrow> (MM_MEMORY_MAP \<times> GFX_FRAMEBUFFER \<times> vmm_state) option" where
  "MmInitialize kernel_end park mem mb_info_phys fb s =
     do {
       (ok, m, fb) \<leftarrow> MmParseMultibootMemoryMap mem mb_info_phys fb;
       if \<not> ok then None
       else do {
         s \<leftarrow> MmInitializeVirtualMemory m (s\<lparr>pmm := MmInitializePhysicalMemory kernel_end park m\<rparr>);
         Some (m, fb, s)
       }
     }"

section \<open>The Multiboot2 format\<close>

definition le32 :: "u32 \<Rightarrow> u8 list" where
  "le32 w = [ucast w, ucast (drop_bit 8 w), ucast (drop_bit 16 w), ucast (drop_bit 24 w)]"

definition le64 :: "u64 \<Rightarrow> u8 list" where
  "le64 w = le32 (ucast w) @ le32 (ucast (drop_bit 32 w))"

datatype mb_tag = MbMmap "(u64 \<times> u64 \<times> u32) list"
  | MbFramebuffer u64 u32 u32 u32 u8 u8 u8 u8 u8
  | MbOther u32 "u8 list"

definition enc_entry :: "u64 \<times> u64 \<times> u32 \<Rightarrow> u8 list" where
  "enc_entry e = (case e of (base, len, ty) \<Rightarrow> le64 base @ le64 len @ le32 ty @ le32 0)"

fun tag_type :: "mb_tag \<Rightarrow> u32" where
  "tag_type (MbMmap es) = 6"
| "tag_type (MbFramebuffer _ _ _ _ _ _ _ _ _) = 8"
| "tag_type (MbOther ty _) = ty"

fun tag_body :: "mb_tag \<Rightarrow> u8 list" where
  "tag_body (MbMmap es) = le32 24 @ le32 0 @ concat (map enc_entry es)"
| "tag_body (MbFramebuffer base pitch w h bpp ty r g b) =
     le64 base @ le32 pitch @ le32 w @ le32 h @ [bpp, ty, 0, 0, r, 8, g, 8, b, 8]"
| "tag_body (MbOther ty bs) = bs"

definition enc_tag :: "mb_tag \<Rightarrow> u8 list" where
  "enc_tag t = le32 (tag_type t) @ le32 (of_nat (8 + length (tag_body t))) @ tag_body t
     @ replicate ((8 - length (tag_body t) mod 8) mod 8) 0"

text \<open>A block: its total size, the reserved word, the tags and the end tag.\<close>

definition enc_tags :: "mb_tag list \<Rightarrow> u8 list" where
  "enc_tags ts = concat (map enc_tag ts) @ le32 0 @ le32 8"

definition mb_block :: "mb_tag list \<Rightarrow> u8 list" where
  "mb_block ts = le32 (of_nat (8 + length (enc_tags ts))) @ le32 0 @ enc_tags ts"

text \<open>Tags of other types carry none of the three types the parser interprets, and the block fits the format's 32-bit
  sizes.\<close>

fun tag_plain :: "mb_tag \<Rightarrow> bool" where
  "tag_plain (MbOther ty bs) \<longleftrightarrow> ty \<noteq> 0 \<and> ty \<noteq> 6 \<and> ty \<noteq> 8"
| "tag_plain _ \<longleftrightarrow> True"

definition entry_region :: "u64 \<times> u64 \<times> u32 \<Rightarrow> MM_MEMORY_REGION" where
  "entry_region e = (case e of (base, len, ty) \<Rightarrow> \<lparr>rbase = base, rlength = len, rtype = translate_type ty\<rparr>)"

fun tag_regions :: "mb_tag \<Rightarrow> MM_MEMORY_REGION list" where
  "tag_regions (MbMmap es) = map entry_region es"
| "tag_regions _ = []"

fun tag_fb :: "mb_tag \<Rightarrow> GFX_FRAMEBUFFER \<Rightarrow> GFX_FRAMEBUFFER" where
  "tag_fb (MbFramebuffer base pitch w h bpp ty r g b) fb =
     \<lparr>PhysAddr = base, Pitch = pitch, Width = w, Height = h, Bpp = bpp,
      RedShift = (if ty = 1 then r else 16), GreenShift = (if ty = 1 then g else 8),
      BlueShift = (if ty = 1 then b else 0), Present = True\<rparr>"
| "tag_fb _ fb = fb"

section \<open>Reading what was encoded\<close>

lemma length_le [simp]: "length (le32 w) = 4" "length (le64 v) = 8"
  by (simp_all add: le32_def le64_def)

lemma ld32_le32: "mem_holds mem a (le32 w) \<Longrightarrow> ld32 mem a = w"
proof -
  assume "mem_holds mem a (le32 w)"
  then have bytes: "mem a = ucast w" "mem (a + 1) = ucast (drop_bit 8 w)" "mem (a + 2) = ucast (drop_bit 16 w)"
    "mem (a + 3) = ucast (drop_bit 24 w)"
    by (auto simp: le32_def mem_holds_Cons add.assoc)
  show ?thesis
    unfolding ld32_def
  proof (intro bit_eqI)
    fix n
    assume "possible_bit TYPE(u32) n"
    then have "n < 32" by simp
    then consider "n < 8" | "8 \<le> n \<and> n < 16" | "16 \<le> n \<and> n < 24" | "24 \<le> n \<and> n < 32" by fastforce
    then show "bit (ucast (mem a) OR push_bit 8 (ucast (mem (a + 1))) OR push_bit 16 (ucast (mem (a + 2)))
        OR push_bit 24 (ucast (mem (a + 3))) :: u32) n = bit w n"
      by cases (auto simp: bit_simps bytes)
  qed
qed

lemma ld64_le64: "mem_holds mem a (le64 w) \<Longrightarrow> ld64 mem a = w"
proof -
  assume "mem_holds mem a (le64 w)"
  then have "ld32 mem a = ucast w" "ld32 mem (a + 4) = ucast (drop_bit 32 w)"
    by (auto simp: le64_def mem_holds_append intro: ld32_le32)
  then show ?thesis
    unfolding ld64_def by (intro bit_eqI) (auto simp: bit_simps)
qed

lemma length_enc_entry [simp]: "length (enc_entry e) = 24"
  by (simp add: enc_entry_def split: prod.split)

lemma length_enc_entries [simp]: "length (concat (map enc_entry es)) = 24 * length es"
  by (induction es) simp_all

lemma read_entry_enc: "mem_holds mem a (enc_entry e) \<Longrightarrow> read_entry mem a = entry_region e"
  by (auto simp: enc_entry_def mem_holds_append read_entry_def entry_region_def add.assoc
      intro: ld64_le64 dest: ld32_le32 split: prod.splits)

text \<open>The regions the table can still take.\<close>

definition add_regions :: "MM_MEMORY_REGION list \<Rightarrow> MM_MEMORY_MAP \<Rightarrow> MM_MEMORY_MAP" where
  "add_regions rs out = fold add_region (take (MM_MAX_REGIONS - length (regions out)) rs) out"

lemma regions_add_region [simp]: "regions (add_region r out) = regions out @ [r]"
  by (simp add: add_region_def Let_def)

lemma mmap_loop_enc:
  assumes "mem_holds mem e (concat (map enc_entry es))" and "unat e + 24 * length es + 24 < 2 ^ 64"
  shows "mmap_loop mem 24 (e + of_nat (24 * length es)) e out = add_regions (map entry_region es) out"
  using assms
proof (induction es arbitrary: e out)
  case Nil
  have "unat (e + 24) = unat e + 24" using Nil(2) by (simp add: unat_word_ariths)
  then have "\<not> e + 24 \<le> e" by (simp add: word_le_nat_alt)
  then show ?case by (simp add: mmap_loop.simps add_regions_def)
next
  case (Cons x xs)
  have u: "unat (e + 24) = unat e + 24" using Cons(3) by (simp add: unat_word_ariths)
  have "unat (e + of_nat (24 * length (x # xs))) = unat e + 24 * length (x # xs)"
    using Cons(3) by (simp add: unat_word_ariths unat_of_nat del: of_nat_mult mult_Suc of_nat_Suc of_nat_add)
  then have le: "e + 24 \<le> e + of_nat (24 * length (x # xs))" using u by (simp add: word_le_nat_alt)
  have lim: "e + of_nat (24 * length (x # xs)) = (e + 24) + of_nat (24 * length xs)" by simp
  have r: "read_entry mem e = entry_region x" and h: "mem_holds mem (e + 24) (concat (map enc_entry xs))"
    using Cons(2) by (auto simp: mem_holds_append intro: read_entry_enc)
  note ih = Cons(1) [OF h, of "add_region (entry_region x) out"]
  show ?case
  proof (cases "length (regions out) < MM_MAX_REGIONS")
    case True
    then obtain k where k: "MM_MAX_REGIONS - length (regions out) = Suc k"
      by (metis Suc_diff_Suc)
    then have k': "MM_MAX_REGIONS - Suc (length (regions out)) = k" by simp
    show ?thesis
      using True le lim r ih Cons(3) u k k'
      by (subst mmap_loop.simps) (simp add: add_regions_def add.assoc)
  next
    case False
    then show ?thesis by (subst mmap_loop.simps) (simp add: add_regions_def)
  qed
qed

lemma read_framebuffer_enc:
  assumes "mem_holds mem a (enc_tag (MbFramebuffer base pitch w h bpp ty r g b))"
  shows "read_framebuffer mem a = tag_fb (MbFramebuffer base pitch w h bpp ty r g b) fb"
  using assms
  by (auto simp: enc_tag_def mem_holds_append mem_holds_Cons read_framebuffer_def Let_def add.assoc
      intro!: ld32_le32 ld64_le64)

lemma tag_advance_unat:
  assumes "unat sz + 7 < 2 ^ 32"
  shows "unat (tag_advance sz) = (unat sz + 7) div 8 * 8"
proof -
  define x :: u64 where "x = ucast (sz + 7)"
  have x: "unat x = unat sz + 7"
    using assms by (simp add: x_def unat_ucast_up unat_word_ariths)
  have "x AND NOT (mask 3) = push_bit 3 (drop_bit 3 x)"
    by (rule bit_eqI) (auto simp: bit_simps)
  then have "tag_advance sz = drop_bit 3 x * 8"
    by (simp add: tag_advance_def x_def mask_eq_exp_minus_1 push_bit_eq_mult)
  then show ?thesis using assms x
    by (simp add: unat_word_ariths drop_bit_eq_div unat_div)
qed

lemma pad_length: "(8 + n + (8 - n mod 8) mod 8 :: nat) = (8 + n + 7) div 8 * 8"
proof -
  define q r where "q = n div 8" and "r = n mod 8"
  then have n: "n = 8 * q + r" and r: "r < 8" by simp_all
  have m: "n mod 8 = r" by (simp add: r_def)
  have d: "(8 + (8 * q + r) + 7) div 8 = q + (if r = 0 then 1 else 2)" using r by (simp, presburger)
  show ?thesis using r unfolding m unfolding n d by (cases "r = 0") auto
qed

lemma length_enc_tag: "length (enc_tag t) = (8 + length (tag_body t) + 7) div 8 * 8"
  using pad_length [of "length (tag_body t)"] by (simp add: enc_tag_def)

lemma enc_tag_le: "8 + length (tag_body t) \<le> length (enc_tag t)"
  by (simp add: enc_tag_def)

section \<open>The tag walk\<close>

definition apply_tag :: "mb_tag \<Rightarrow> MM_MEMORY_MAP \<times> GFX_FRAMEBUFFER \<Rightarrow> MM_MEMORY_MAP \<times> GFX_FRAMEBUFFER" where
  "apply_tag t = (\<lambda>(out, fb). (add_regions (tag_regions t) out, tag_fb t fb))"

lemma enc_tag_header:
  assumes "mem_holds mem a (enc_tag t)"
  shows "ld32 mem a = tag_type t" and "ld32 mem (a + 4) = of_nat (8 + length (tag_body t))"
    and "mem_holds mem (a + 8) (tag_body t)"
  using assms by (auto simp: enc_tag_def mem_holds_append add.assoc intro: ld32_le32)

lemma tag_mmap:
  assumes "mem_holds mem a (enc_tag t)" and "unat a + length (enc_tag t) + 24 < 2 ^ 64"
    and "length (enc_tag t) < 2 ^ 32" and "tag_plain t"
  shows "(if tag_type t = 6 then
      mmap_loop mem (ld32 mem (a + 8)) (a + ucast (ld32 mem (a + 4))) (a + 16) out else out) =
    add_regions (tag_regions t) out"
proof (cases t)
  case (MbMmap es)
  note hd = enc_tag_header [OF assms(1)]
  have es: "ld32 mem (a + 8) = 24" and h: "mem_holds mem (a + 16) (concat (map enc_entry es))"
    using hd(3) by (auto simp: MbMmap mem_holds_append add.assoc intro: ld32_le32)
  have l: "16 + 24 * length es \<le> length (enc_tag t)" using enc_tag_le [of t] by (simp add: MbMmap)
  then have u: "unat (ld32 mem (a + 4)) = 16 + 24 * length es"
    using assms(3) hd(2) by (simp add: MbMmap unat_of_nat del: of_nat_add of_nat_mult)
  then have "ucast (ld32 mem (a + 4)) = (of_nat (16 + 24 * length es) :: u64)"
    by (metis of_nat_unat)
  then have lim: "a + ucast (ld32 mem (a + 4)) = (a + 16) + of_nat (24 * length es)" by (simp add: add.assoc)
  have "unat (a + 16) = unat a + 16" using assms(2) l by (simp add: unat_word_ariths)
  with mmap_loop_enc [OF h, of out] assms(2) l lim es show ?thesis by (simp add: MbMmap add.assoc)
qed (use assms(4) in \<open>auto simp: add_regions_def\<close>)

lemma tag_framebuffer:
  assumes "mem_holds mem a (enc_tag t)" and "tag_plain t"
  shows "(if tag_type t = 8 then read_framebuffer mem a else fb) = tag_fb t fb"
proof (cases t)
  case (MbFramebuffer x1 x2 x3 x4 x5 x6 x7 x8 x9)
  then show ?thesis using assms(1) by (simp add: read_framebuffer_enc [where fb = fb])
qed (use assms(2) in auto)

lemma tag_loop_enc:
  assumes "mem_holds mem a (enc_tags ts)" and "unat a + length (enc_tags ts) + 24 < 2 ^ 64"
    and "length (enc_tags ts) < 2 ^ 32" and "list_all tag_plain ts"
    and "fin = a + of_nat (length (enc_tags ts))"
  shows "tag_loop mem fin a out fb = Some (fold apply_tag ts (out, fb))"
  using assms
proof (induction ts arbitrary: a out fb)
  case Nil
  then have "ld32 mem a = 0" by (auto simp: enc_tags_def mem_holds_append intro: ld32_le32)
  then show ?case by (subst tag_loop.simps) simp
next
  case (Cons t ts)
  have e: "enc_tags (t # ts) = enc_tag t @ enc_tags ts" by (simp add: enc_tags_def)
  have h: "mem_holds mem a (enc_tag t)" "mem_holds mem (a + of_nat (length (enc_tag t))) (enc_tags ts)"
    using Cons(2) by (simp_all add: e mem_holds_append)
  have l8: "8 \<le> length (enc_tags ts)" by (simp add: enc_tags_def)
  note hd = enc_tag_header [OF h(1)]
  have lt: "8 + length (tag_body t) + 7 < 2 ^ 32"
    using Cons(4) l8 length_enc_tag [of t] by (simp add: e)
  then have sz: "unat (ld32 mem (a + 4)) = 8 + length (tag_body t)"
    using hd(2) by (simp add: unat_of_nat del: of_nat_add)
  have "unat (tag_advance (ld32 mem (a + 4))) = length (enc_tag t)"
    using tag_advance_unat [of "ld32 mem (a + 4)"] sz lt length_enc_tag [of t] by simp
  then have adv: "tag_advance (ld32 mem (a + 4)) = of_nat (length (enc_tag t))"
    by (metis of_nat_unat ucast_id)
  have len: "length (enc_tags (t # ts)) = length (enc_tag t) + length (enc_tags ts)" by (simp add: e)
  have le8: "8 \<le> length (enc_tag t)" using enc_tag_le [of t] by simp
  have ufin: "unat fin = unat a + length (enc_tags (t # ts))"
    using Cons(3,6) by (simp add: unat_word_ariths unat_of_nat)
  have "unat (a + 8) = unat a + 8" using Cons(3) len le8 by (simp add: unat_word_ariths)
  then have go: "a + 8 \<le> fin" using ufin len le8 by (simp add: word_le_nat_alt)
  have ua: "unat (a + of_nat (length (enc_tag t))) = unat a + length (enc_tag t)"
    using Cons(3) len by (simp add: unat_word_ariths unat_of_nat)
  have ty: "tag_type t \<noteq> 0" using Cons(5) by (cases t) auto
  have fin': "fin = a + of_nat (length (enc_tag t)) + of_nat (length (enc_tags ts))"
    using Cons(6) len by (simp add: add.assoc)
  note ih = Cons(1) [OF h(2), of "add_regions (tag_regions t) out" "tag_fb t fb"]
  have m: "(if tag_type t = 6 then
      mmap_loop mem (ld32 mem (a + 8)) (a + ucast (ld32 mem (a + 4))) (a + 16) out else out) =
    add_regions (tag_regions t) out"
    using tag_mmap [OF h(1)] Cons(3-5) len by simp
  have f: "(if tag_type t = 8 then read_framebuffer mem a else fb) = tag_fb t fb"
    using tag_framebuffer [OF h(1)] Cons(5) by simp
  have ap: "apply_tag t (out, fb) = (add_regions (tag_regions t) out, tag_fb t fb)"
    by (simp add: apply_tag_def)
  show ?case
    by (subst tag_loop.simps)
       (use go hd(1) ty m f adv ih ua len fin' ap Cons(3-5) in \<open>simp add: Let_def\<close>)
qed


text \<open>Several region tables behave as one.\<close>

lemma length_add_regions:
  "length (regions out) \<le> 64 \<Longrightarrow> regions (add_regions rs out) = take 64 (regions out @ rs)"
proof -
  have "regions (fold add_region xs out) = regions out @ xs" for xs
    by (induction xs arbitrary: out) simp_all
  then show "length (regions out) \<le> 64 \<Longrightarrow> ?thesis" by (simp add: add_regions_def)
qed

lemma add_regions_append:
  assumes "length (regions out) \<le> 64"
  shows "add_regions ss (add_regions rs out) = add_regions (rs @ ss) out"
proof -
  have l: "length (regions (add_regions rs out)) = min 64 (length (regions out) + length rs)"
    using length_add_regions [OF assms, of rs] by simp
  show ?thesis
  proof (cases "length rs \<le> 64 - length (regions out)")
    case True
    then show ?thesis using l assms by (simp add: add_regions_def)
  next
    case False
    then show ?thesis using l assms by (simp add: add_regions_def)
  qed
qed

lemma fold_apply_tag:
  assumes "length (regions out) \<le> 64"
  shows "fold apply_tag ts (out, fb) = (add_regions (concat (map tag_regions ts)) out, fold tag_fb ts fb)"
  using assms
proof (induction ts arbitrary: out fb)
  case (Cons t ts)
  have "length (regions (add_regions (tag_regions t) out)) \<le> 64"
    using length_add_regions [OF Cons(2)] by simp
  with Cons show ?case by (simp add: apply_tag_def add_regions_append)
qed (simp add: add_regions_def)

definition empty_map :: MM_MEMORY_MAP where
  "empty_map = \<lparr>regions = [], highest_address = 0, total_available = 0\<rparr>"

lemma parse_block:
  assumes "mem_holds mem a (mb_block ts)" and "unat a + length (mb_block ts) + 24 < 2 ^ 64"
    and "length (mb_block ts) < 2 ^ 32" and "list_all tag_plain ts" and "a \<noteq> 0"
  shows "MmParseMultibootMemoryMap mem a fb =
    (let m = add_regions (concat (map tag_regions ts)) empty_map
     in Some (concat (map tag_regions ts) \<noteq> [], m, fold tag_fb ts fb))"
proof -
  let ?n = "8 + length (enc_tags ts)"
  have h: "ld32 mem a = of_nat ?n" "mem_holds mem (a + 8) (enc_tags ts)"
    using assms(1) by (auto simp: mb_block_def mem_holds_append add.assoc intro: ld32_le32)
  have n: "length (mb_block ts) = ?n" by (simp add: mb_block_def)
  have "unat (ld32 mem a) = ?n" using h(1) n assms(3) by (simp add: unat_of_nat del: of_nat_add)
  then have "ucast (ld32 mem a) = (of_nat ?n :: u64)" by (metis of_nat_unat)
  then have fin: "a + ucast (ld32 mem a) = (a + 8) + of_nat (length (enc_tags ts))" by (simp add: add.assoc)
  have "unat (a + 8) = unat a + 8" using assms(2) n by (simp add: unat_word_ariths)
  then have "tag_loop mem (a + ucast (ld32 mem a)) (a + 8) empty_map fb = Some (fold apply_tag ts (empty_map, fb))"
    using assms n by (intro tag_loop_enc h(2) fin) simp_all
  also have "fold apply_tag ts (empty_map, fb) =
      (add_regions (concat (map tag_regions ts)) empty_map, fold tag_fb ts fb)"
    by (rule fold_apply_tag) (simp add: empty_map_def)
  finally have t: "tag_loop mem (a + ucast (ld32 mem a)) (a + 8) empty_map fb =
      Some (add_regions (concat (map tag_regions ts)) empty_map, fold tag_fb ts fb)" .
  have "regions (add_regions rs empty_map) = [] \<longleftrightarrow> rs = []" for rs
    by (subst length_add_regions) (auto simp: empty_map_def)
  then show ?thesis
    using assms(5) t by (simp add: MmParseMultibootMemoryMap_def empty_map_def Let_def del: concat_eq_Nil_conv)
qed

text \<open>What the parsed map records of its regions.\<close>

definition available :: "MM_MEMORY_REGION list \<Rightarrow> MM_MEMORY_REGION list" where
  "available rs = filter (\<lambda>r. rtype r = MmRegionAvailable) rs"

lemma fold_add_region:
  "fold add_region rs m = \<lparr>regions = regions m @ rs,
     highest_address = fold (\<lambda>r h. max h (rbase r + rlength r)) (available rs) (highest_address m),
     total_available = total_available m + sum_list (map rlength (available rs))\<rparr>"
  by (induction rs arbitrary: m) (auto simp: available_def add_region_def Let_def max_def add.assoc)

lemma fold_max_region:
  fixes h :: u64
  defines "f \<equiv> \<lambda>rs h. fold (\<lambda>r h. max h (rbase r + rlength r)) rs h"
  shows "h \<le> f rs h" and "r \<in> set rs \<Longrightarrow> rbase r + rlength r \<le> f rs h"
    and "f rs h = h \<or> (\<exists>r \<in> set rs. f rs h = rbase r + rlength r)"
proof -
  show ge: "h \<le> f rs h" for rs h
    unfolding f_def by (induction rs arbitrary: h) (auto intro: order_trans [OF max.cobounded1])
  show "r \<in> set rs \<Longrightarrow> rbase r + rlength r \<le> f rs h"
  proof (induction rs arbitrary: h)
    case (Cons x xs)
    have "max h (rbase x + rlength x) \<le> f xs (max h (rbase x + rlength x))" by (rule ge)
    with Cons show ?case by (auto simp: f_def)
  qed simp
  show "f rs h = h \<or> (\<exists>r \<in> set rs. f rs h = rbase r + rlength r)"
  proof (induction rs arbitrary: h)
    case (Cons x xs)
    then have "f xs (max h (rbase x + rlength x)) = max h (rbase x + rlength x) \<or>
        (\<exists>r \<in> set xs. f xs (max h (rbase x + rlength x)) = rbase r + rlength r)" .
    then show ?case by (auto simp: f_def max_def)
  qed (simp add: f_def)
qed


text \<open>The map the parser builds from a list of regions.\<close>

definition boot_map :: "MM_MEMORY_REGION list \<Rightarrow> MM_MEMORY_MAP" where
  "boot_map rs = \<lparr>regions = rs,
     highest_address = fold (\<lambda>r h. max h (rbase r + rlength r)) (available rs) 0,
     total_available = sum_list (map rlength (available rs))\<rparr>"

lemma MmParse_map:
  assumes "mem_holds mem a (mb_block ts)" and "unat a + length (mb_block ts) + 24 < 2 ^ 64"
    and "length (mb_block ts) < 2 ^ 32" and "list_all tag_plain ts" and "a \<noteq> 0"
  defines "rs \<equiv> concat (map tag_regions ts)"
  shows "MmParseMultibootMemoryMap mem a fb = Some (rs \<noteq> [], boot_map (take MM_MAX_REGIONS rs), fold tag_fb ts fb)"
proof -
  have "add_regions rs empty_map = boot_map (take 64 rs)"
    by (simp add: add_regions_def empty_map_def boot_map_def fold_add_region)
  then show ?thesis
    using parse_block [OF assms(1-5), of fb] by (simp add: rs_def Let_def del: concat_eq_Nil_conv)
qed

section \<open>Properties\<close>

text \<open>(C12) The parser decodes the Multiboot2 format. On a block that encodes the tags \<open>ts\<close> it returns, and
  reports success exactly when some memory-map tag has an entry; its regions are the entries of all memory-map
  tags in order, the first 64 of them; \<^verbatim>\<open>total_available\<close> and \<^verbatim>\<open>highest_address\<close> are the sum of the lengths and the
  maximum of the ends of the available ones; and the framebuffer is the one of the last framebuffer tag.\<close>

theorem MmParseMultibootMemoryMap_correct:
  assumes "mem_holds mem a (mb_block ts)" and "unat a + length (mb_block ts) + 24 < 2 ^ 64"
    and "length (mb_block ts) < 2 ^ 32" and "list_all tag_plain ts" and "a \<noteq> 0"
  defines "rs \<equiv> concat (map tag_regions ts)"
  shows "\<exists>m. MmParseMultibootMemoryMap mem a fb = Some (rs \<noteq> [], m, fold tag_fb ts fb) \<and>
    regions m = take MM_MAX_REGIONS rs \<and>
    total_available m = sum_list (map rlength (available (regions m))) \<and>
    (\<forall>r \<in> set (available (regions m)). rbase r + rlength r \<le> highest_address m) \<and>
    (highest_address m = 0 \<or> (\<exists>r \<in> set (available (regions m)). highest_address m = rbase r + rlength r))"
proof -
  have "MmParseMultibootMemoryMap mem a fb = Some (rs \<noteq> [], boot_map (take 64 rs), fold tag_fb ts fb)"
    using MmParse_map [OF assms(1-5), of fb] by (simp add: rs_def del: concat_eq_Nil_conv)
  then show ?thesis
    using fold_max_region(2,3) [where h = 0 and rs = "available (take 64 rs)"] by (auto simp: boot_map_def)
qed

text \<open>A boot block with a command-line tag, a framebuffer and a memory map.\<close>

definition demo_tags :: "mb_tag list" where
  "demo_tags = [MbOther 1 [0x71, 0], MbFramebuffer 0xFD000000 4096 1024 768 32 1 16 8 0,
     MbMmap [(0x100000, 0x4000000, 1), (0xFEC00000, 0x1000, 2)]]"

definition demo_block :: "u64 \<Rightarrow> u8" where
  "demo_block a = (let i = unat (a - 0x9000) in if i < length (mb_block demo_tags) then mb_block demo_tags ! i else 0)"

lemma demo_block_length: "length (mb_block demo_tags) = 136"
  by (simp add: mb_block_def enc_tags_def demo_tags_def length_enc_tag)

lemma demo_block_holds: "mem_holds demo_block 0x9000 (mb_block demo_tags)"
  by (rule holds_at_offset) (simp_all add: demo_block_length demo_block_def)

definition demo_fb :: GFX_FRAMEBUFFER where
  "demo_fb = \<lparr>PhysAddr = 0, Pitch = 0, Width = 0, Height = 0, Bpp = 0, RedShift = 0, GreenShift = 0,
     BlueShift = 0, Present = False\<rparr>"

theorem MmParseMultibootMemoryMap_correct_witness:
  "\<exists>m fb. MmParseMultibootMemoryMap demo_block 0x9000 demo_fb = Some (True, m, fb) \<and>
     map rbase (regions m) = [0x100000, 0xFEC00000] \<and> total_available m = 0x4000000 \<and> Width fb = 1024"
  using MmParseMultibootMemoryMap_correct [OF demo_block_holds, of demo_fb]
  by (auto simp: demo_block_length, auto simp: demo_tags_def entry_region_def available_def translate_type_def)

text \<open>(C13) The tag walk has no protection against a tag whose size rounds to 0: such a tag (it is not the end tag, and its
  size is 0, or above \<^verbatim>\<open>0xFFFFFFF8\<close>, where the 32-bit rounding wraps) at the start of the list makes the parser loop
  for ever.\<close>

theorem MmParseMultibootMemoryMap_hangs:
  assumes "a \<noteq> 0" and "a + 8 + 8 \<le> a + ucast (ld32 mem a)" and "ld32 mem (a + 8) \<noteq> 0"
    and "ld32 mem (a + 12) = 0 \<or> 0xFFFFFFF8 < ld32 mem (a + 12)"
  shows "MmParseMultibootMemoryMap mem a fb = None"
proof -
  let ?fin = "a + ucast (ld32 mem a)" and ?c = "a + 8"
  have adv: "tag_advance (ld32 mem (?c + 4)) = 0"
  proof -
    have "unat (ld32 mem (a + 12) + 7) < 8"
    proof (cases "ld32 mem (a + 12) = 0")
      case False
      then have "0xFFFFFFF8 < unat (ld32 mem (a + 12))" using assms(4) by (simp add: word_less_nat_alt)
      moreover have "unat (ld32 mem (a + 12)) < 2 ^ 32"
        using unsigned_less [of "ld32 mem (a + 12)", where ?'a = nat] by simp
      moreover have "(n + 7) mod 2 ^ 32 = n + 7 - 2 ^ 32" if "0xFFFFFFF8 < n" "n < 2 ^ 32" for n :: nat
        using that by (simp add: mod_if)
      ultimately show ?thesis by (simp add: unat_word_ariths)
    qed simp
    then have x: "unat (ucast (ld32 mem (a + 12) + 7) :: u64) < 8" by (simp add: unat_ucast_up)
    have "(ucast (ld32 mem (a + 12) + 7) :: u64) AND NOT (mask 3) =
        push_bit 3 (drop_bit 3 (ucast (ld32 mem (a + 12) + 7)))"
      by (rule bit_eqI) (auto simp: bit_simps)
    moreover have "drop_bit 3 (ucast (ld32 mem (a + 12) + 7) :: u64) = 0"
      using x by (simp add: drop_bit_eq_div word_unat_eq_iff unat_div)
    ultimately show ?thesis by (simp add: tag_advance_def mask_eq_exp_minus_1 add.assoc)
  qed
  have "\<not> (m = mem \<and> fin = ?fin \<and> c = ?c)" if "tag_loop m fin c out fb = Some y" for m fin c out fb y
    using that
  proof (rule tag_loop.raw_induct [where P = "\<lambda>m fin c out fb y. \<not> (m = mem \<and> fin = ?fin \<and> c = ?c)", rotated])
    fix loop :: "(u64 \<Rightarrow> u8) \<Rightarrow> u64 \<Rightarrow> u64 \<Rightarrow> MM_MEMORY_MAP \<Rightarrow> GFX_FRAMEBUFFER \<Rightarrow> (MM_MEMORY_MAP \<times> GFX_FRAMEBUFFER) option"
      and m fin c out fb y
    assume ih: "\<And>m fin c out fb y. loop m fin c out fb = Some y \<Longrightarrow> \<not> (m = mem \<and> fin = ?fin \<and> c = ?c)"
      and body: "(if c + 8 \<le> fin then
        (let ty = ld32 m c; sz = ld32 m (c + 4)
         in if ty = 0 then Some (out, fb)
            else loop m fin (c + tag_advance sz)
                (if ty = 6 then mmap_loop m (ld32 m (c + 8)) (c + ucast sz) (c + 16) out else out)
                (if ty = 8 then read_framebuffer m c else fb))
      else Some (out, fb)) = Some y"
    show "\<not> (m = mem \<and> fin = ?fin \<and> c = ?c)"
    proof
      assume "m = mem \<and> fin = ?fin \<and> c = ?c"
      with body assms(2,3) adv have "\<exists>out' fb'. loop mem ?fin ?c out' fb' = Some y"
        by (auto simp: Let_def split: if_splits)
      with ih show False by blast
    qed
  qed
  then have "tag_loop mem ?fin ?c out fb = None" for out fb
    by (metis not_Some_eq)
  then show ?thesis using assms(1) by (simp add: MmParseMultibootMemoryMap_def Let_def)
qed

theorem MmParseMultibootMemoryMap_hangs_witness:
  "MmParseMultibootMemoryMap (\<lambda>a. if a = 0x9000 then 0x40 else if a = 0x9008 then 1 else 0) 0x9000 demo_fb = None"
  by (rule MmParseMultibootMemoryMap_hangs) (simp_all add: ld32_def)


text \<open>(C14) Bring-up of the memory manager. When the boot block at \<open>a\<close> encodes the tags \<open>ts\<close>, the regions it lists
  (at most 64) fit below 64 TiB without wrapping, the highest available one reaches past 1 MiB, and the frame
  allocator finds enough frames for the page tables, \<^verbatim>\<open>MmInitialize\<close> returns: the page tables are
  consistent, every available physical address is reachable through the direct map, the kernel window
  is mapped, and the user half and the pool arena are empty.\<close>

theorem MmInitialize_correct:
  fixes s :: vmm_state
  assumes "mem_holds mem a (mb_block ts)" and "unat a + length (mb_block ts) + 24 < 2 ^ 64"
    and "length (mb_block ts) < 2 ^ 32" and "list_all tag_plain ts" and "a \<noteq> 0"
    and rs: "rs = concat (map tag_regions ts)" and "length rs \<le> MM_MAX_REGIONS"
    and fits: "\<forall>r \<in> set (available rs). unat (rbase r) + unat (rlength r) \<le> 2 ^ 46"
    and top: "\<exists>r \<in> set (available rs). 0x100000 \<le> rbase r + rlength r"
    and ke: "KERNEL_PHYS_BASE \<le> kernel_end" "kernel_end < 2 ^ 62"
    and frames: "1025 + 2 * boot_slots (boot_map rs) \<le>
      unat (MmFreePageCount (MmInitializePhysicalMemory kernel_end park (boot_map rs)))"
  shows "\<exists>s'. MmInitialize kernel_end park mem a fb s = Some (boot_map rs, fold tag_fb ts fb, s') \<and>
    vmm_inv s' \<and> user_small s' \<and>
    (\<forall>r \<in> set (available rs). \<forall>pa. rbase r \<le> pa \<and> pa < rbase r + rlength r \<longrightarrow>
       MmGetPhysicalAddress s' (MmDirectMapBase s' + pa) = pa) \<and>
    (\<forall>off < 0x40000000. MmGetPhysicalAddress s' (KERNEL_VIRT_BASE + off) = off) \<and>
    (\<forall>va. va < MM_USER_MAX \<or> MM_KERNEL_HEAP_BASE \<le> va \<longrightarrow> MmGetPhysicalAddress s' va = MM_INVALID_PHYS)"
proof -
  let ?m = "boot_map rs"
  have m: "MmParseMultibootMemoryMap mem a fb = Some (rs \<noteq> [], ?m, fold tag_fb ts fb)"
    "regions ?m = rs" "\<And>r. r \<in> set (available rs) \<Longrightarrow> rbase r + rlength r \<le> highest_address ?m"
    "highest_address ?m = 0 \<or> (\<exists>r \<in> set (available rs). highest_address ?m = rbase r + rlength r)"
    using MmParse_map [OF assms(1-5), of fb] assms(7) fold_max_region(2,3) [where h = 0 and rs = "available rs"]
    unfolding rs by (auto simp: boot_map_def simp del: concat_eq_Nil_conv)
  have hi: "highest_address ?m \<le> 2 ^ 46"
    using m(4) fits by (auto simp: word_le_nat_alt unat_word_ariths)
  have "region_fits r" if "r \<in> set rs" "rtype r = MmRegionAvailable" for r
    using fits that by (fastforce simp: available_def region_fits_def)
  then have bm: "boot_map_ok kernel_end ?m"
    using top m(2,3) ke by (fastforce simp: boot_map_ok_def intro: order_trans)
  note sp = MmInitializePhysicalMemory_spec [OF bm, where mem = park]
  let ?s = "s\<lparr>pmm := MmInitializePhysicalMemory kernel_end park ?m\<rparr>"
  have "total_pages (pmm ?s) \<le> 2 ^ 40"
    using hi sp(2) by (simp add: word_le_nat_alt drop_bit_eq_div unat_div)
  from boot_address_space [OF _ this hi] frames sp(1) obtain s' where
    s': "MmInitializeVirtualMemory ?m ?s = Some s'" "vmm_inv s' \<and> user_small s'" "MmDirectMapBase s' = MM_DIRECT_MAP_BASE"
    "\<And>pa. pa < boot_top ?m \<Longrightarrow> MmGetPhysicalAddress s' (MM_DIRECT_MAP_BASE + pa) = pa"
    "\<forall>off < 0x40000000. MmGetPhysicalAddress s' (KERNEL_VIRT_BASE + off) = off"
    "\<forall>va. va < MM_USER_MAX \<or> MM_KERNEL_HEAP_BASE \<le> va \<longrightarrow> MmGetPhysicalAddress s' va = MM_INVALID_PHYS"
    by auto
  have hb: "highest_address ?m \<le> boot_top ?m"
    using boot_top_slots(4,5) [OF hi] by (simp add: word_le_nat_alt)
  have "MmGetPhysicalAddress s' (MmDirectMapBase s' + pa) = pa"
    if "r \<in> set (available rs)" "pa < rbase r + rlength r" for r pa
    using s'(3,4) less_le_trans [OF that(2) order_trans [OF m(3) [OF that(1)] hb]] by simp
  then show ?thesis using m(1) s' top by (auto simp: MmInitialize_def available_def)
qed


definition demo_tags64 :: "mb_tag list" where
  "demo_tags64 = [MbMmap [(0x100000, 0x4000000, 1)]]"

definition demo_block64 :: "u64 \<Rightarrow> u8" where
  "demo_block64 a =
     (let i = unat (a - 0x9000) in if i < length (mb_block demo_tags64) then mb_block demo_tags64 ! i else 0)"

theorem MmInitialize_correct_witness:
  "\<exists>m s'. MmInitialize 0x180000 (\<lambda>_. 0) demo_block64 0x9000 demo_fb demo_vmm = Some (m, demo_fb, s') \<and>
     MmGetPhysicalAddress s' (MmDirectMapBase s' + 0x234567) = 0x234567"
proof -
  have l: "length (mb_block demo_tags64) = 56"
    by (simp add: mb_block_def enc_tags_def demo_tags64_def length_enc_tag)
  have h: "mem_holds demo_block64 0x9000 (mb_block demo_tags64)"
    by (rule holds_at_offset) (simp_all add: l demo_block64_def)
  let ?rs = "concat (map tag_regions demo_tags64)"
  have rs: "?rs = [\<lparr>rbase = 0x100000, rlength = 0x4000000, rtype = MmRegionAvailable\<rparr>]"
    by (simp add: demo_tags64_def entry_region_def translate_type_def)
  have m: "boot_map ?rs = demo_map64" by (simp add: rs boot_map_def demo_map64_def available_def max_def)
  have fr: "1025 + 2 * boot_slots (boot_map ?rs) \<le>
      unat (MmFreePageCount (MmInitializePhysicalMemory 0x180000 (\<lambda>_. 0) (boot_map ?rs)))"
    using demo_boot_memory(4) unfolding m by (simp add: demo_boot_def)
  have fb: "fold tag_fb demo_tags64 demo_fb = demo_fb" by (simp add: demo_tags64_def)
  have "\<exists>s'. MmInitialize 0x180000 (\<lambda>_. 0) demo_block64 0x9000 demo_fb demo_vmm =
      Some (boot_map ?rs, fold tag_fb demo_tags64 demo_fb, s') \<and> vmm_inv s' \<and> user_small s' \<and>
    (\<forall>r \<in> set (available ?rs). \<forall>pa. rbase r \<le> pa \<and> pa < rbase r + rlength r \<longrightarrow>
       MmGetPhysicalAddress s' (MmDirectMapBase s' + pa) = pa) \<and>
    (\<forall>off < 0x40000000. MmGetPhysicalAddress s' (KERNEL_VIRT_BASE + off) = off) \<and>
    (\<forall>va. va < MM_USER_MAX \<or> MM_KERNEL_HEAP_BASE \<le> va \<longrightarrow> MmGetPhysicalAddress s' va = MM_INVALID_PHYS)"
    by (rule MmInitialize_correct [OF h _ _ _ _ refl _ _ _ _ _ fr])
       (simp_all only: l rs, simp_all add: demo_tags64_def available_def)
  then show ?thesis unfolding fb rs by (auto simp: available_def)
qed

end
