(* ===== verification/Rtl_List.thy ===== *)
theory Rtl_List
  imports Prelude
begin

text \<open>
  The intrusive doubly linked lists of \<^verbatim>\<open>kernel/include/ntos/rtl.h\<close>. A \<^verbatim>\<open>LIST_ENTRY\<close> is named by its address;
  \<open>links\<close> is the store of all of them. The operations follow the pointer assignments of the code in their order.

  \<open>rings l R\<close> says that the store holds one circular list per head in the domain of \<open>R\<close>, no entry being on two lists.
  Every operation refines the list operation it stands for (append, cons, removal of the entry wherever it is) on
  one of the lists and leaves the others alone. The locale \<open>entry_lists\<close> states this contract; the
  components above describe their intrusive lists by the lists of their entries, with the operations of the
  contract's right-hand sides.
\<close>

section \<open>Operations\<close>

record links =
  Flink :: "u64 \<Rightarrow> u64"
  Blink :: "u64 \<Rightarrow> u64"

definition set_Flink :: "u64 \<Rightarrow> u64 \<Rightarrow> links \<Rightarrow> links" where
  "set_Flink a v l = l\<lparr>Flink := (Flink l)(a := v)\<rparr>"

definition set_Blink :: "u64 \<Rightarrow> u64 \<Rightarrow> links \<Rightarrow> links" where
  "set_Blink a v l = l\<lparr>Blink := (Blink l)(a := v)\<rparr>"

definition InitializeListHead :: "u64 \<Rightarrow> links \<Rightarrow> links" where
  "InitializeListHead head l = set_Flink head head (set_Blink head head l)"

definition IsListEmpty :: "u64 \<Rightarrow> links \<Rightarrow> bool" where
  "IsListEmpty head l \<longleftrightarrow> Flink l head = head"

definition InsertHeadList :: "u64 \<Rightarrow> u64 \<Rightarrow> links \<Rightarrow> links" where
  "InsertHeadList head entry l =
     (let first = Flink l head;
          l1 = set_Flink entry first l;
          l2 = set_Blink entry head l1;
          l3 = set_Blink first entry l2
      in set_Flink head entry l3)"

definition InsertTailList :: "u64 \<Rightarrow> u64 \<Rightarrow> links \<Rightarrow> links" where
  "InsertTailList head entry l =
     (let final = Blink l head;
          l1 = set_Flink entry head l;
          l2 = set_Blink entry final l1;
          l3 = set_Flink final entry l2
      in set_Blink head entry l3)"

definition RemoveEntryList :: "u64 \<Rightarrow> links \<Rightarrow> bool \<times> links" where
  "RemoveEntryList entry l =
     (let flink = Flink l entry; blink = Blink l entry;
          l1 = set_Flink blink flink l;
          l2 = set_Blink flink blink l1
      in (flink = blink, l2))"

definition RemoveHeadList :: "u64 \<Rightarrow> links \<Rightarrow> u64 \<times> links" where
  "RemoveHeadList head l = (let entry = Flink l head in (entry, snd (RemoveEntryList entry l)))"

lemma links_sel [simp]:
  "Flink (set_Flink a v l) = (Flink l)(a := v)" "Blink (set_Flink a v l) = Blink l"
  "Blink (set_Blink a v l) = (Blink l)(a := v)" "Flink (set_Blink a v l) = Flink l"
  by (simp_all add: set_Flink_def set_Blink_def)

section \<open>Circular lists\<close>

fun lseg :: "links \<Rightarrow> u64 \<Rightarrow> u64 list \<Rightarrow> u64 \<Rightarrow> bool" where
  "lseg l a [] b \<longleftrightarrow> Flink l a = b \<and> Blink l b = a"
| "lseg l a (x # xs) b \<longleftrightarrow> Flink l a = x \<and> Blink l x = a \<and> lseg l x xs b"

definition ring :: "links \<Rightarrow> u64 \<Rightarrow> u64 list \<Rightarrow> bool" where
  "ring l h xs \<longleftrightarrow> distinct (h # xs) \<and> lseg l h xs h"

lemma lseg_append: "lseg l a (xs @ y # ys) b \<longleftrightarrow> lseg l a xs y \<and> lseg l y ys b"
  by (induction xs arbitrary: a) auto

lemma lseg_ends:
  assumes "lseg l a xs b"
  shows "Flink l a = hd (xs @ [b])" and "Blink l b = last (a # xs)"
  using assms by (induction xs arbitrary: a) auto

lemma lseg_frame:
  assumes "lseg l a xs b" and "\<And>x. x \<in> set (a # xs) \<Longrightarrow> Flink l' x = Flink l x"
    and "\<And>x. x \<in> set (xs @ [b]) \<Longrightarrow> Blink l' x = Blink l x"
  shows "lseg l' a xs b"
  using assms by (induction xs arbitrary: a) auto

lemma ring_frame:
  assumes "ring l h xs" and "\<And>x. x \<in> set (h # xs) \<Longrightarrow> Flink l' x = Flink l x \<and> Blink l' x = Blink l x"
  shows "ring l' h xs"
  using assms by (auto simp: ring_def intro: lseg_frame)

lemma ring_empty: "ring l h xs \<Longrightarrow> IsListEmpty h l \<longleftrightarrow> xs = []"
  using lseg_ends(1) [of l h xs h] by (cases xs) (auto simp: ring_def IsListEmpty_def)

lemma ring_init: "ring (InitializeListHead h l) h []"
  by (simp add: ring_def InitializeListHead_def)

lemma ring_insert_tail:
  assumes "ring l h xs" and "e \<notin> set (h # xs)"
  shows "ring (InsertTailList h e l) h (xs @ [e])"
proof (cases xs rule: rev_cases)
  case Nil
  then show ?thesis using assms by (auto simp: ring_def InsertTailList_def Let_def)
next
  case (snoc ys y)
  have s: "lseg l h ys y" "lseg l y [] h" and d: "distinct (h # ys @ [y])"
    using assms(1) snoc by (auto simp: ring_def lseg_append)
  let ?l = "InsertTailList h e l"
  have b: "Blink l h = y" using s(2) by simp
  have "lseg ?l h ys y"
    by (rule lseg_frame [OF s(1)]) (use assms(2) d snoc b in \<open>auto simp: InsertTailList_def Let_def\<close>)
  moreover have "lseg ?l y [e] h"
    using assms(2) d snoc b by (auto simp: InsertTailList_def Let_def)
  ultimately show ?thesis using assms snoc d by (auto simp: ring_def lseg_append)
qed

lemma ring_insert_head:
  assumes "ring l h xs" and "e \<notin> set (h # xs)"
  shows "ring (InsertHeadList h e l) h (e # xs)"
proof (cases xs)
  case Nil
  then show ?thesis using assms by (auto simp: ring_def InsertHeadList_def Let_def)
next
  case (Cons y ys)
  have s: "Flink l h = y" "lseg l y ys h" and d: "distinct (h # y # ys)"
    using assms(1) Cons by (auto simp: ring_def)
  let ?l = "InsertHeadList h e l"
  have "lseg ?l y ys h"
    by (rule lseg_frame [OF s(2)]) (use assms(2) d Cons s(1) in \<open>auto simp: InsertHeadList_def Let_def\<close>)
  then show ?thesis
    using assms(2) d Cons s(1) by (auto simp: ring_def InsertHeadList_def Let_def)
qed

lemma ring_remove:
  assumes "ring l h (ys @ e # zs)"
  shows "ring (snd (RemoveEntryList e l)) h (ys @ zs)" and "fst (RemoveEntryList e l) \<longleftrightarrow> ys @ zs = []"
proof -
  have s: "lseg l h ys e" "lseg l e zs h" and d: "distinct (h # ys @ e # zs)"
    using assms by (auto simp: ring_def lseg_append)
  define p where "p = last (h # ys)"
  define n where "n = hd (zs @ [h])"
  have pn: "Blink l e = p" "Flink l e = n" using lseg_ends s by (auto simp: p_def n_def)
  let ?l = "snd (RemoveEntryList e l)"
  have l': "Flink ?l = (Flink l)(p := n)" "Blink ?l = (Blink l)(n := p)"
    using pn by (auto simp: RemoveEntryList_def Let_def)
  have nd: "n \<in> set (zs @ [h])" by (cases zs) (auto simp: n_def)
  show "ring ?l h (ys @ zs)"
  proof (cases ys rule: rev_cases)
    case Nil
    have p: "p = h" using Nil by (simp add: p_def)
    show ?thesis
    proof (cases zs)
      case Nil
      then show ?thesis using \<open>ys = []\<close> p d l' by (simp add: ring_def n_def)
    next
      case (Cons z zs')
      then have n: "n = z" "lseg l z zs' h" using s(2) by (auto simp: n_def)
      have "lseg ?l z zs' h"
        by (rule lseg_frame [OF n(2)]) (use d Cons p n l' in auto)
      then show ?thesis using d \<open>ys = []\<close> Cons p n l' by (simp add: ring_def)
    qed
  next
    case (snoc ys' y)
    have p: "p = y" and sy: "lseg l h ys' y" using s(1) snoc by (auto simp: p_def lseg_append)
    have a: "lseg ?l h ys' y"
      by (rule lseg_frame [OF sy]) (use d snoc p l' nd in auto)
    show ?thesis
    proof (cases zs)
      case Nil
      then show ?thesis using a d snoc p l' by (simp add: ring_def lseg_append n_def)
    next
      case (Cons z zs')
      then have n: "n = z" "lseg l z zs' h" using s(2) by (auto simp: n_def)
      have "lseg ?l z zs' h"
        by (rule lseg_frame [OF n(2)]) (use d Cons snoc p n l' in auto)
      then show ?thesis using a d snoc Cons p n l' by (simp add: ring_def lseg_append)
    qed
  qed
  have "n = p \<longleftrightarrow> ys @ zs = []"
  proof (cases zs)
    case Nil
    then show ?thesis using d by (cases ys rule: rev_cases) (auto simp: p_def n_def)
  next
    case (Cons z zs')
    then show ?thesis using d by (cases ys rule: rev_cases) (auto simp: p_def n_def)
  qed
  then show "fst (RemoveEntryList e l) \<longleftrightarrow> ys @ zs = []"
    using pn by (simp add: RemoveEntryList_def Let_def)
qed

section \<open>Several lists in one store\<close>

definition rings :: "links \<Rightarrow> (u64 \<rightharpoonup> u64 list) \<Rightarrow> bool" where
  "rings l R \<longleftrightarrow> (\<forall>h xs. R h = Some xs \<longrightarrow> ring l h xs) \<and>
     (\<forall>h k xs ys. R h = Some xs \<longrightarrow> R k = Some ys \<longrightarrow> h \<noteq> k \<longrightarrow> set (h # xs) \<inter> set (k # ys) = {})"

text \<open>The entries and heads that are in use.\<close>

definition on_rings :: "(u64 \<rightharpoonup> u64 list) \<Rightarrow> u64 \<Rightarrow> bool" where
  "on_rings R e \<longleftrightarrow> (\<exists>h xs. R h = Some xs \<and> e \<in> set (h # xs))"

lemma rings_update:
  assumes R: "rings l R" and r: "ring l' h ys"
    and same: "\<And>x. x \<notin> set (h # xs) \<Longrightarrow> x \<noteq> e \<Longrightarrow> Flink l' x = Flink l x \<and> Blink l' x = Blink l x"
    and old: "R h = Some xs \<or> R h = None \<and> xs = [] \<and> h = e \<and> \<not> on_rings R h"
    and new: "set ys \<subseteq> insert e (set xs)" "e \<in> set xs \<or> \<not> on_rings R e"
  shows "rings l' (R(h \<mapsto> ys))"
proof -
  have apart: "set (h # xs) \<inter> set (k # zs) = {} \<and> e \<notin> set (k # zs)" if "R k = Some zs" "k \<noteq> h" for k zs
    using R old new that by (fastforce simp: rings_def on_rings_def)
  have "ring l' k zs" if "R k = Some zs" "k \<noteq> h" for k zs
  proof (rule ring_frame)
    show "ring l k zs" using R that by (auto simp: rings_def)
    show "Flink l' x = Flink l x \<and> Blink l' x = Blink l x" if "x \<in> set (k # zs)" for x
      using that apart [OF \<open>R k = Some zs\<close> \<open>k \<noteq> h\<close>] by (intro same) auto
  qed
  moreover have "set (h # ys) \<inter> set (k # zs) = {}" if "R k = Some zs" "k \<noteq> h" for k zs
    using apart [OF that] new(1) by auto
  ultimately show ?thesis using R r by (simp add: rings_def) blast
qed

locale entry_lists =
  fixes lists :: "'l \<Rightarrow> (u64 \<rightharpoonup> u64 list) \<Rightarrow> bool"
    and init :: "u64 \<Rightarrow> 'l \<Rightarrow> 'l" and empty :: "u64 \<Rightarrow> 'l \<Rightarrow> bool"
    and append :: "u64 \<Rightarrow> u64 \<Rightarrow> 'l \<Rightarrow> 'l" and push :: "u64 \<Rightarrow> u64 \<Rightarrow> 'l \<Rightarrow> 'l"
    and remove :: "u64 \<Rightarrow> 'l \<Rightarrow> bool \<times> 'l" and pop :: "u64 \<Rightarrow> 'l \<Rightarrow> u64 \<times> 'l"
  assumes init_list: "lists l R \<Longrightarrow> \<not> on_rings R h \<Longrightarrow> lists (init h l) (R(h \<mapsto> []))"
    and empty_iff: "lists l R \<Longrightarrow> R h = Some xs \<Longrightarrow> empty h l \<longleftrightarrow> xs = []"
    and append_list: "lists l R \<Longrightarrow> R h = Some xs \<Longrightarrow> \<not> on_rings R e \<Longrightarrow> lists (append h e l) (R(h \<mapsto> xs @ [e]))"
    and push_list: "lists l R \<Longrightarrow> R h = Some xs \<Longrightarrow> \<not> on_rings R e \<Longrightarrow> lists (push h e l) (R(h \<mapsto> e # xs))"
    and remove_list: "lists l R \<Longrightarrow> R h = Some xs \<Longrightarrow> e \<in> set xs \<Longrightarrow>
      lists (snd (remove e l)) (R(h \<mapsto> remove1 e xs)) \<and> (fst (remove e l) \<longleftrightarrow> remove1 e xs = [])"
    and pop_list: "lists l R \<Longrightarrow> R h = Some (x # xs) \<Longrightarrow> fst (pop h l) = x \<and> lists (snd (pop h l)) (R(h \<mapsto> xs))"
begin

text \<open>A FIFO queue: entries leave in the order they were appended.\<close>

lemma append_pop:
  assumes "lists l R" "R h = Some []" "\<not> on_rings R e"
  shows "fst (pop h (append h e l)) = e" and "lists (snd (pop h (append h e l))) (R(h \<mapsto> []))"
  using pop_list [OF append_list [OF assms], of h e "[]"] by auto

lemma remove_append:
  assumes "lists l R" "R h = Some xs" "\<not> on_rings R e"
  shows "lists (snd (remove e (append h e l))) R"
proof -
  have "e \<notin> set xs" using assms(2,3) by (auto simp: on_rings_def)
  then have "remove1 e (xs @ [e]) = xs" by (simp add: remove1_append)
  moreover have "R(h \<mapsto> xs) = R" using assms(2) by auto
  ultimately show ?thesis using remove_list [OF append_list [OF assms], of h "xs @ [e]" e] by simp
qed

end

interpretation le: entry_lists rings InitializeListHead IsListEmpty InsertTailList InsertHeadList
  RemoveEntryList RemoveHeadList
proof
  fix l R h xs e x
  assume R: "rings l R"
  show "rings (InitializeListHead h l) (R(h \<mapsto> []))" if "\<not> on_rings R h"
  proof -
    have "R h = None" using that by (cases "R h") (auto simp: on_rings_def)
    then show ?thesis
      using that by (intro rings_update [where xs = "[]" and e = h, OF R ring_init])
        (auto simp: InitializeListHead_def)
  qed
  show "IsListEmpty h l \<longleftrightarrow> xs = []" if "R h = Some xs"
    using R that ring_empty [of l h xs] by (auto simp: rings_def)
  show "rings (InsertTailList h e l) (R(h \<mapsto> xs @ [e]))" if h: "R h = Some xs" and e: "\<not> on_rings R e"
  proof -
    have r: "ring l h xs" using R h by (auto simp: rings_def)
    have "Blink l h \<in> set (h # xs)" using r lseg_ends(2) [of l h xs h] by (auto simp: ring_def)
    moreover have "e \<notin> set (h # xs)" using h e by (auto simp: on_rings_def)
    ultimately show ?thesis
      by (intro rings_update [where xs = xs and e = e, OF R ring_insert_tail [OF r]])
         (use h e in \<open>auto simp: InsertTailList_def Let_def\<close>)
  qed
  show "rings (InsertHeadList h e l) (R(h \<mapsto> e # xs))" if h: "R h = Some xs" and e: "\<not> on_rings R e"
  proof -
    have r: "ring l h xs" using R h by (auto simp: rings_def)
    have "Flink l h \<in> set (h # xs)" using r lseg_ends(1) [of l h xs h] by (cases xs) (auto simp: ring_def)
    moreover have "e \<notin> set (h # xs)" using h e by (auto simp: on_rings_def)
    ultimately show ?thesis
      by (intro rings_update [where xs = xs and e = e, OF R ring_insert_head [OF r]])
         (use h e in \<open>auto simp: InsertHeadList_def Let_def\<close>)
  qed
  have rem: "rings (snd (RemoveEntryList e l)) (R(h \<mapsto> remove1 e xs)) \<and>
      (fst (RemoveEntryList e l) \<longleftrightarrow> remove1 e xs = [])" if h: "R h = Some xs" and e: "e \<in> set xs" for h xs e
  proof -
    from e obtain ys zs where xs: "xs = ys @ e # zs" "e \<notin> set ys" by (meson split_list_first)
    have r: "ring l h (ys @ e # zs)" using R h xs by (auto simp: rings_def)
    then have "lseg l h ys e" "lseg l e zs h" by (auto simp: ring_def lseg_append)
    from lseg_ends(2) [OF this(1)] lseg_ends(1) [OF this(2)]
    have m: "Blink l e \<in> set (h # xs)" "Flink l e \<in> set (h # xs)" using xs by (cases zs; auto)+
    have "remove1 e xs = ys @ zs" using xs by (simp add: remove1_append)
    moreover have "rings (snd (RemoveEntryList e l)) (R(h \<mapsto> ys @ zs))"
      by (rule rings_update [where xs = xs and e = e, OF R ring_remove(1) [OF r]])
         (use h e xs m in \<open>auto simp: RemoveEntryList_def Let_def\<close>)
    ultimately show ?thesis using ring_remove(2) [OF r] by simp
  qed
  show "rings (snd (RemoveEntryList e l)) (R(h \<mapsto> remove1 e xs)) \<and>
      (fst (RemoveEntryList e l) \<longleftrightarrow> remove1 e xs = [])" if "R h = Some xs" "e \<in> set xs"
    using that by (rule rem)
  show "fst (RemoveHeadList h l) = x \<and> rings (snd (RemoveHeadList h l)) (R(h \<mapsto> xs))" if h: "R h = Some (x # xs)"
  proof -
    have "ring l h (x # xs)" using R h by (auto simp: rings_def)
    then have "Flink l h = x" by (simp add: ring_def)
    then show ?thesis using rem [OF h, of x] by (simp add: RemoveHeadList_def Let_def)
  qed
qed

section \<open>Properties\<close>

text \<open>(C15) The intrusive lists implement lists. In a store that holds several disjoint circular lists, \<^verbatim>\<open>InsertTailList\<close>
  appends a free entry to its list, \<^verbatim>\<open>RemoveHeadList\<close> takes the first entry off, and \<^verbatim>\<open>RemoveEntryList\<close>, which
  is not told the list, removes the entry from the list it is on and reports whether that list became
  empty; all other lists keep their entries.\<close>

theorem list_entry_refinement:
  assumes "rings l R" and "R h = Some xs"
  shows "(IsListEmpty h l \<longleftrightarrow> xs = []) \<and>
    (\<not> on_rings R e \<longrightarrow> rings (InsertTailList h e l) (R(h \<mapsto> xs @ [e])) \<and>
       rings (InsertHeadList h e l) (R(h \<mapsto> e # xs))) \<and>
    (e \<in> set xs \<longrightarrow> rings (snd (RemoveEntryList e l)) (R(h \<mapsto> remove1 e xs)) \<and>
       (fst (RemoveEntryList e l) \<longleftrightarrow> remove1 e xs = [])) \<and>
    (xs \<noteq> [] \<longrightarrow> fst (RemoveHeadList h l) = hd xs \<and> rings (snd (RemoveHeadList h l)) (R(h \<mapsto> tl xs)))"
  using le.empty_iff [OF assms] le.append_list [OF assms] le.push_list [OF assms] le.remove_list [OF assms]
    le.pop_list [OF assms(1), of h "hd xs" "tl xs"] assms(2)
  by (cases xs) auto

theorem list_entry_refinement_witness:
  "let l = InsertTailList 0x10 0x30 (InsertTailList 0x10 0x20
       (InitializeListHead 0x10 \<lparr>Flink = (\<lambda>_. 0), Blink = (\<lambda>_. 0)\<rparr>))
   in rings l [0x10 \<mapsto> [0x20, 0x30]] \<and> rings (snd (RemoveEntryList 0x20 l)) [0x10 \<mapsto> [0x30]]"
proof -
  let ?l = "InsertTailList 0x10 0x30 (InsertTailList 0x10 0x20
       (InitializeListHead 0x10 \<lparr>Flink = (\<lambda>_. 0), Blink = (\<lambda>_. 0)\<rparr>))"
  have r: "rings ?l [0x10 \<mapsto> [0x20, 0x30]]"
    by (simp add: rings_def ring_def InsertTailList_def InitializeListHead_def Let_def)
  from list_entry_refinement [OF this, of "0x10" "[0x20, 0x30]" "0x20"] r show ?thesis by simp
qed

end
