(* ===== verification/Rtl_Memory.thy ===== *)
theory Rtl_Memory
  imports Prelude
begin

text \<open>
  The memory and string primitives \<^verbatim>\<open>kernel/rtl/memory.c\<close> and \<^verbatim>\<open>kernel/rtl/string.c\<close>, over a flat byte memory
  \<open>m\<close>. The \<^verbatim>\<open>while (n--)\<close> loops count a 64-bit word down to 0; the string loops are partial functions, since they end
  only at a NUL byte. The results of the comparisons are the C \<^verbatim>\<open>int\<close> differences of two bytes.
\<close>

section \<open>Memory\<close>

lemma word_pred_measure [simp]: "(n :: 'a::len word) \<noteq> 0 \<Longrightarrow> unat (n - 1) < unat n"
  by (metis measure_unat)

function memcpy_loop :: "u64 \<Rightarrow> u64 \<Rightarrow> u64 \<Rightarrow> (u64 \<Rightarrow> u8) \<Rightarrow> (u64 \<Rightarrow> u8)" where
  "memcpy_loop d s n m = (if n = 0 then m else memcpy_loop (d + 1) (s + 1) (n - 1) (m(d := m s)))"
  by pat_completeness auto
termination
  by (relation "measure (\<lambda>(d, s, n, m). unat n)") auto

definition memcpy :: "u64 \<Rightarrow> u64 \<Rightarrow> u64 \<Rightarrow> (u64 \<Rightarrow> u8) \<Rightarrow> (u64 \<Rightarrow> u8)" where
  "memcpy dst src n m = memcpy_loop dst src n m"

function memmove_back :: "u64 \<Rightarrow> u64 \<Rightarrow> u64 \<Rightarrow> (u64 \<Rightarrow> u8) \<Rightarrow> (u64 \<Rightarrow> u8)" where
  "memmove_back d s n m =
     (if n = 0 then m else memmove_back (d - 1) (s - 1) (n - 1) (m(d - 1 := m (s - 1))))"
  by pat_completeness auto
termination
  by (relation "measure (\<lambda>(d, s, n, m). unat n)") auto

definition memmove :: "u64 \<Rightarrow> u64 \<Rightarrow> u64 \<Rightarrow> (u64 \<Rightarrow> u8) \<Rightarrow> (u64 \<Rightarrow> u8)" where
  "memmove dst src n m =
     (if dst = src \<or> n = 0 then m
      else if dst < src then memcpy_loop dst src n m
      else memmove_back (dst + n) (src + n) n m)"

function memset_loop :: "u64 \<Rightarrow> u8 \<Rightarrow> u64 \<Rightarrow> (u64 \<Rightarrow> u8) \<Rightarrow> (u64 \<Rightarrow> u8)" where
  "memset_loop d v n m = (if n = 0 then m else memset_loop (d + 1) v (n - 1) (m(d := v)))"
  by pat_completeness auto
termination
  by (relation "measure (\<lambda>(d, v, n, m). unat n)") auto

definition memset :: "u64 \<Rightarrow> u32 \<Rightarrow> u64 \<Rightarrow> (u64 \<Rightarrow> u8) \<Rightarrow> (u64 \<Rightarrow> u8)" where
  "memset dst val n m = memset_loop dst (ucast val) n m"

function memcmp :: "u64 \<Rightarrow> u64 \<Rightarrow> u64 \<Rightarrow> (u64 \<Rightarrow> u8) \<Rightarrow> int" where
  "memcmp a b n m =
     (if n = 0 then 0
      else if m a \<noteq> m b then uint (m a) - uint (m b)
      else memcmp (a + 1) (b + 1) (n - 1) m)"
  by pat_completeness auto
termination
  by (relation "measure (\<lambda>(a, b, n, m). unat n)") auto

declare memcpy_loop.simps [simp del] memmove_back.simps [simp del] memset_loop.simps [simp del] memcmp.simps [simp del]

section \<open>Strings\<close>

partial_function (option) strlen_loop :: "(u64 \<Rightarrow> u8) \<Rightarrow> u64 \<Rightarrow> u64 option" where
  "strlen_loop m p = (if m p \<noteq> 0 then strlen_loop m (p + 1) else Some p)"

definition strlen :: "u64 \<Rightarrow> (u64 \<Rightarrow> u8) \<Rightarrow> u64 option" where
  "strlen s m = map_option (\<lambda>p. p - s) (strlen_loop m s)"

partial_function (option) strcmp :: "u64 \<Rightarrow> u64 \<Rightarrow> (u64 \<Rightarrow> u8) \<Rightarrow> int option" where
  "strcmp a b m =
     (if m a \<noteq> 0 \<and> m a = m b then strcmp (a + 1) (b + 1) m else Some (uint (m a) - uint (m b)))"

function strncmp :: "u64 \<Rightarrow> u64 \<Rightarrow> u64 \<Rightarrow> (u64 \<Rightarrow> u8) \<Rightarrow> int" where
  "strncmp a b n m =
     (if n \<noteq> 0 \<and> m a \<noteq> 0 \<and> m a = m b then strncmp (a + 1) (b + 1) (n - 1) m
      else if n = 0 then 0
      else uint (m a) - uint (m b))"
  by pat_completeness auto
termination
  by (relation "measure (\<lambda>(a, b, n, m). unat n)") auto

declare strncmp.simps [simp del]

partial_function (option) strcpy_loop :: "u64 \<Rightarrow> u64 \<Rightarrow> (u64 \<Rightarrow> u8) \<Rightarrow> (u64 \<Rightarrow> u8) option" where
  "strcpy_loop d s m =
     (let m1 = m(d := m s) in if m s \<noteq> 0 then strcpy_loop (d + 1) (s + 1) m1 else Some m1)"

definition strcpy :: "u64 \<Rightarrow> u64 \<Rightarrow> (u64 \<Rightarrow> u8) \<Rightarrow> (u64 \<Rightarrow> u8) option" where
  "strcpy dst src m = strcpy_loop dst src m"

section \<open>Copies\<close>

text \<open>The value after all \<open>n\<close> bytes at \<open>s\<close> were copied to \<open>d\<close> at once.\<close>

definition copied :: "u64 \<Rightarrow> u64 \<Rightarrow> u64 \<Rightarrow> (u64 \<Rightarrow> u8) \<Rightarrow> (u64 \<Rightarrow> u8)" where
  "copied d s n m = (\<lambda>a. if a - d < n then m (s + (a - d)) else m a)"

lemma unat_pred: "(n :: 'a::len word) \<noteq> 0 \<Longrightarrow> unat (n - 1) = unat n - 1"
  by (simp add: unat_minus_one)

lemma below_split:
  fixes a d n :: u64
  assumes "n \<noteq> 0"
  shows "a - d < n \<longleftrightarrow> a = d \<or> a \<noteq> d \<and> a - (d + 1) < n - 1"
proof (cases "a = d")
  case True
  then show ?thesis using assms by (simp add: word_gt_0)
next
  case False
  then have "a - d \<noteq> 0" by simp
  moreover have "a - (d + 1) = (a - d) - 1" by simp
  ultimately have "unat (a - (d + 1)) = unat (a - d) - 1" using unat_pred by metis
  moreover have "unat (a - d) \<noteq> 0" using \<open>a - d \<noteq> 0\<close> by (simp add: unat_eq_zero)
  moreover have "unat (n - 1) = unat n - 1" "unat n \<noteq> 0" using assms by (simp_all add: unat_pred unat_eq_zero)
  ultimately show ?thesis using False by (auto simp: word_less_nat_alt)
qed

lemma below_split_last:
  fixes x n :: u64
  assumes "n \<noteq> 0"
  shows "x < n \<longleftrightarrow> x = n - 1 \<or> x < n - 1"
proof -
  have "unat (n - 1) = unat n - 1" "unat n \<noteq> 0" using assms by (simp_all add: unat_pred unat_eq_zero)
  then have "unat x < unat n \<longleftrightarrow> unat x = unat (n - 1) \<or> unat x < unat (n - 1)" by linarith
  then show ?thesis by (simp add: word_less_nat_alt word_unat_eq_iff)
qed

text \<open>A forward copy is right unless the destination starts inside the source's tail, a backward one unless the source
  starts inside the destination's tail.\<close>

lemma memcpy_loop_copied:
  "d - s = 0 \<or> n \<le> d - s \<Longrightarrow> memcpy_loop d s n m = copied d s n m"
proof (induction d s n m rule: memcpy_loop.induct)
  case (1 d s n m)
  show ?case
  proof (cases "n = 0")
    case True
    then show ?thesis by (simp add: memcpy_loop.simps copied_def)
  next
    case False
    have "(d + 1) - (s + 1) = d - s" by simp
    moreover have "n - 1 \<le> n" using False by (simp add: word_le_nat_alt unat_pred)
    ultimately have "memcpy_loop (d + 1) (s + 1) (n - 1) (m(d := m s)) = copied (d + 1) (s + 1) (n - 1) (m(d := m s))"
      using 1 False by (metis order_trans)
    moreover have "copied (d + 1) (s + 1) (n - 1) (m(d := m s)) a = copied d s n m a" for a
    proof (cases "a - (d + 1) < n - 1 \<and> a \<noteq> d")
      case True
      have e: "s + 1 + (a - (d + 1)) = s + (a - d)" by simp
      have "s + (a - d) \<noteq> d \<or> m d = m s"
      proof (rule disjCI)
        assume "m d \<noteq> m s"
        then have "n \<le> d - s" using 1(2) by auto
        moreover have "a - d < n" using True False below_split by metis
        ultimately have "a - d < d - s" by simp
        then show "s + (a - d) \<noteq> d" by (metis add_diff_cancel_left' less_irrefl)
      qed
      then have "(m(d := m s)) (s + (a - d)) = m (s + (a - d))" by (metis fun_upd_apply)
      moreover have "a - d < n" using True below_split [OF False, of a d] by simp
      ultimately show ?thesis using True unfolding copied_def e by simp
    next
      case f: False
      show ?thesis
      proof (cases "a = d")
        case True
        have "s + 1 + (d - (d + 1)) = s" by simp
        then show ?thesis using True False below_split [OF False, of a d] by (auto simp: copied_def)
      next
        case a: False
        then show ?thesis using f below_split [OF False, of a d] by (auto simp: copied_def)
      qed
    qed
    ultimately show ?thesis using False by (subst memcpy_loop.simps) auto
  qed
qed


lemma memmove_back_copied:
  "s - d = 0 \<or> n \<le> s - d \<Longrightarrow> memmove_back (d + n) (s + n) n m = copied d s n m"
proof (induction "d + n" "s + n" n m rule: memmove_back.induct)
  case (1 n m)
  show ?case
  proof (cases "n = 0")
    case True
    then show ?thesis by (simp add: memmove_back.simps copied_def)
  next
    case False
    have "n - 1 \<le> n" using False by (simp add: word_le_nat_alt unat_pred)
    then have pre: "s - d = 0 \<or> n - 1 \<le> s - d" using 1(2) by (metis order_trans)
    have "d + n - 1 = d + (n - 1)" "s + n - 1 = s + (n - 1)" by simp_all
    then have ih: "memmove_back (d + n - 1) (s + n - 1) (n - 1) (m(d + n - 1 := m (s + n - 1))) =
        copied d s (n - 1) (m(d + n - 1 := m (s + n - 1)))"
      using 1(1) [OF False _ _ pre] by metis
    have "copied d s (n - 1) (m(d + n - 1 := m (s + n - 1))) a = copied d s n m a" for a
    proof (cases "a - d = n - 1")
      case True
      then have "a = d + n - 1" by (metis add_diff_cancel_left' add_diff_eq diff_add_cancel)
      then show ?thesis using True below_split_last [OF False, of "a - d"] by (auto simp: copied_def add_diff_eq)
    next
      case a: False
      then have ne: "a \<noteq> d + n - 1" by auto
      have "s + (a - d) \<noteq> d + n - 1 \<or> m (d + n - 1) = m (s + n - 1)" if "a - d < n - 1"
      proof (rule disjCI)
        assume "m (d + n - 1) \<noteq> m (s + n - 1)"
        then have "n \<le> s - d" using 1(2) by auto
        show "s + (a - d) \<noteq> d + n - 1"
        proof
          assume "s + (a - d) = d + n - 1"
          then have e: "(s - d) + (a - d) = n - 1" by (simp add: algebra_simps)
          have "n - 1 - (a - d) \<le> n - 1" using that by (simp add: word_le_nat_alt unat_sub word_less_nat_alt)
          moreover have "n - 1 - (a - d) = s - d" using e by (metis add_diff_cancel_right')
          moreover have "n - 1 < n" using False by (simp add: word_less_nat_alt)
          ultimately show False using \<open>n \<le> s - d\<close> by simp
        qed
      qed
      then have "(m(d + n - 1 := m (s + n - 1))) (s + (a - d)) = m (s + (a - d))" if "a - d < n - 1"
        using that by (metis fun_upd_apply)
      then show ?thesis using a ne below_split_last [OF False, of "a - d"] by (simp add: copied_def)
    qed
    with ih show ?thesis using False by (subst memmove_back.simps) auto
  qed
qed

lemma wrap_diff:
  fixes a b n :: u64
  assumes "a < b" and "unat b + unat n \<le> 2 ^ 64"
  shows "n \<le> a - b"
proof -
  have "unat (a - b) = 2 ^ 64 + unat a - unat b"
    using assms(1) by (simp add: unat_sub_if_size word_less_nat_alt word_size)
  then show ?thesis using assms by (simp add: word_le_nat_alt word_less_nat_alt)
qed

lemma memset_loop_spec: "memset_loop d v n m = (\<lambda>a. if a - d < n then v else m a)"
proof (induction d v n m rule: memset_loop.induct)
  case (1 d v n m)
  show ?case
  proof (cases "n = 0")
    case False
    show ?thesis
    proof
      fix a
      have "memset_loop d v n m a = memset_loop (d + 1) v (n - 1) (m(d := v)) a"
        using False by (subst memset_loop.simps) simp
      also have "\<dots> = (if a - (d + 1) < n - 1 then v else (m(d := v)) a)"
        using fun_cong [OF 1 [OF False]] .
      also have "\<dots> = (if a - d < n then v else m a)" using below_split [OF False, of a d] by simp
      finally show "memset_loop d v n m a = (if a - d < n then v else m a)" .
    qed
  qed (simp add: memset_loop.simps)
qed

section \<open>Comparisons\<close>

lemma memcmp_holds:
  assumes "mem_holds m a xs" and "mem_holds m b ys" and "length xs = length ys" and "length xs < 2 ^ 64"
  shows "memcmp a b (of_nat (length xs)) m = 0 \<longleftrightarrow> xs = ys"
  using assms
proof (induction xs ys arbitrary: a b rule: list_induct2')
  case (4 x xs y ys)
  have n: "of_nat (length (x # xs)) \<noteq> (0 :: u64)" "of_nat (length (x # xs)) - 1 = (of_nat (length xs) :: u64)"
    using unat_of_nat_id [of "length (x # xs)", where ?'a = 64] 4(5) by (auto simp: unat_eq_zero [symmetric] simp del: of_nat_Suc) simp
  have "uint x - uint y \<noteq> 0" if "x \<noteq> y" using that by (simp add: word_uint_eq_iff)
  then show ?case
    using 4 n by (subst memcmp.simps) (auto simp: mem_holds_Cons simp del: of_nat_Suc)
qed (auto simp: memcmp.simps)

text \<open>The C string \<open>xs\<close> lies at \<open>a\<close>.\<close>

definition cstr_at :: "(u64 \<Rightarrow> u8) \<Rightarrow> u64 \<Rightarrow> u8 list \<Rightarrow> bool" where
  "cstr_at m a xs \<longleftrightarrow> 0 \<notin> set xs \<and> mem_holds m a (xs @ [0])"

lemma cstr_at_simps:
  "cstr_at m a [] \<longleftrightarrow> m a = 0" "cstr_at m a (x # xs) \<longleftrightarrow> x \<noteq> 0 \<and> m a = x \<and> cstr_at m (a + 1) xs"
  by (auto simp: cstr_at_def mem_holds_Cons)

lemma strlen_loop_spec: "cstr_at m a xs \<Longrightarrow> strlen_loop m a = Some (a + of_nat (length xs))"
  by (induction xs arbitrary: a) (auto simp: cstr_at_simps strlen_loop.simps add.assoc)

text \<open>Lexicographic comparison of two byte strings.\<close>

fun cmp_spec :: "u8 list \<Rightarrow> u8 list \<Rightarrow> int" where
  "cmp_spec [] [] = 0"
| "cmp_spec [] (y # ys) = - uint y"
| "cmp_spec (x # xs) [] = uint x"
| "cmp_spec (x # xs) (y # ys) = (if x = y then cmp_spec xs ys else uint x - uint y)"

lemma strcmp_spec: "cstr_at m a xs \<Longrightarrow> cstr_at m b ys \<Longrightarrow> strcmp a b m = Some (cmp_spec xs ys)"
  by (induction xs ys arbitrary: a b rule: cmp_spec.induct) (subst strcmp.simps; auto simp: cstr_at_simps)+

lemma cmp_spec_zero: "0 \<notin> set xs \<Longrightarrow> 0 \<notin> set ys \<Longrightarrow> cmp_spec xs ys = 0 \<longleftrightarrow> xs = ys"
  by (induction xs ys rule: cmp_spec.induct) (auto simp: uint_0_iff word_uint_eq_iff [symmetric])

lemma strncmp_spec:
  "cstr_at m a xs \<Longrightarrow> cstr_at m b ys \<Longrightarrow> strncmp a b n m = cmp_spec (take (unat n) xs) (take (unat n) ys)"
proof (induction a b n m arbitrary: xs ys rule: strncmp.induct)
  case (1 a b n m)
  show ?case
  proof (cases "n = 0")
    case False
    then have k: "unat n = Suc (unat (n - 1))" by (simp add: unat_pred unat_eq_zero Suc_pred' word_gt_0 unat_gt_0)
    note ih = 1(1) [OF _ ] and str = 1(2,3)
    show ?thesis
    proof (cases xs)
      case Nil
      then show ?thesis using False str k by (subst strncmp.simps) (cases ys; simp add: cstr_at_simps)
    next
      case (Cons x xs')
      then show ?thesis using False str k 1(1) [of xs' "tl ys"]
        by (subst strncmp.simps) (cases ys; simp add: cstr_at_simps)
    qed
  qed (simp add: strncmp.simps)
qed


text \<open>A copy between ranges that do not overlap, in terms of the bytes.\<close>

lemma copied_holds:
  assumes "mem_holds m s xs" and "length xs < 2 ^ 64"
  shows "mem_holds (copied d s (of_nat (length xs)) m) d xs"
proof -
  have "(of_nat i :: u64) < of_nat (length xs)" if "i < length xs" for i
    using that assms(2) by (simp add: word_less_nat_alt unat_of_nat)
  then show ?thesis using assms(1) by (simp add: mem_holds_def copied_def)
qed

section \<open>Properties\<close>

text \<open>(C16) \<^verbatim>\<open>memmove\<close> copies overlapping ranges as if through a temporary. When neither range runs past the top of the
  address space, the bytes of the destination are those the source had before the call, whatever the overlap,
  and nothing else changes; \<^verbatim>\<open>memcpy\<close> does the same unless the destination begins inside the source.\<close>

theorem memmove_correct:
  assumes "unat dst + unat n \<le> 2 ^ 64" and "unat src + unat n \<le> 2 ^ 64"
  shows "memmove dst src n m = copied dst src n m \<and>
    (dst \<le> src \<or> src + n \<le> dst \<and> unat src + unat n < 2 ^ 64 \<longrightarrow> memcpy dst src n m = memmove dst src n m)"
proof -
  have fwd: "memcpy_loop dst src n m = copied dst src n m" if "dst < src"
    using wrap_diff [OF that assms(2)] by (intro memcpy_loop_copied) simp
  have "memmove_back (dst + n) (src + n) n m = copied dst src n m" if "src < dst"
    using wrap_diff [OF that assms(1)] by (intro memmove_back_copied) simp
  then have mv: "memmove dst src n m = copied dst src n m"
    using fwd by (auto simp: memmove_def copied_def fun_eq_iff)
  have "memcpy_loop dst src n m = copied dst src n m" if "dst = src" using that by (intro memcpy_loop_copied) simp
  moreover have "memcpy_loop dst src n m = copied dst src n m"
    if "src + n \<le> dst" "unat src + unat n < 2 ^ 64"
  proof -
    have "unat src + unat n \<le> unat dst" using that by (simp add: word_le_nat_alt unat_word_ariths)
    then have "src \<le> dst" "n \<le> dst - src" by (simp_all add: word_le_nat_alt unat_sub)
    then show ?thesis by (intro memcpy_loop_copied) simp
  qed
  ultimately have "dst \<le> src \<or> src + n \<le> dst \<and> unat src + unat n < 2 ^ 64 \<longrightarrow>
      memcpy_loop dst src n m = copied dst src n m"
    using fwd by (metis order_le_less)
  then show ?thesis using mv by (simp add: memcpy_def)
qed

theorem memmove_correct_witness:
  "memmove 0x1001 0x1000 2 (\<lambda>a. ucast a) 0x1002 = 1 \<and> memcpy 0x1001 0x1000 2 (\<lambda>a. ucast a) 0x1002 = 0"
  using memmove_correct [of "0x1001" 2 "0x1000" "\<lambda>a. ucast a"]
  by (simp add: copied_def memcpy_def memcpy_loop.simps)

text \<open>The string routines. On two NUL-terminated strings \<^verbatim>\<open>strlen\<close> and \<^verbatim>\<open>strcmp\<close> end; \<^verbatim>\<open>strlen\<close> is the length,
  \<^verbatim>\<open>strcmp\<close> is the lexicographic comparison and 0 exactly for equal strings, \<^verbatim>\<open>strncmp\<close> compares the first \<open>n\<close>
  bytes, and \<^verbatim>\<open>memcmp\<close> of two ranges of a length is 0 exactly when they hold the same bytes.\<close>

theorem string_routines_correct:
  assumes "cstr_at m a xs" and "cstr_at m b ys" and "length xs < 2 ^ 64"
  shows "strlen a m = Some (of_nat (length xs)) \<and>
    strcmp a b m = Some (cmp_spec xs ys) \<and> (strcmp a b m = Some 0 \<longleftrightarrow> xs = ys) \<and>
    strncmp a b n m = cmp_spec (take (unat n) xs) (take (unat n) ys) \<and>
    (length xs = length ys \<longrightarrow> (memcmp a b (of_nat (length xs)) m = 0 \<longleftrightarrow> xs = ys))"
proof -
  have z: "0 \<notin> set xs" "0 \<notin> set ys" using assms by (auto simp: cstr_at_def)
  have h: "mem_holds m a xs" "mem_holds m b ys" using assms by (auto simp: cstr_at_def mem_holds_append)
  show ?thesis
    using strlen_loop_spec [OF assms(1)] strcmp_spec [OF assms(1,2)] strncmp_spec [OF assms(1,2), of n]
      cmp_spec_zero [OF z] memcmp_holds [OF h _ assms(3)]
    by (auto simp: strlen_def)
qed

theorem string_routines_correct_witness:
  "strlen 0 (\<lambda>a. if a < 3 then 0x61 else 0) = Some 3 \<and> strcmp 0 1 (\<lambda>a. if a < 3 then 0x61 else 0) = Some 97"
proof -
  have "cstr_at (\<lambda>a. if a < 3 then 0x61 else 0) 0 [0x61, 0x61, 0x61]"
    "cstr_at (\<lambda>a. if a < 3 then 0x61 else 0) 1 [0x61, 0x61]" by (simp_all add: cstr_at_simps)
  from string_routines_correct [OF this] show ?thesis by simp
qed

end
