(* ===== verification/Ob_Object.thy ===== *)
theory Ob_Object
  imports Ex_Pool Rtl_List
begin

text \<open>
  The object manager, \<^verbatim>\<open>kernel/ob/ob_core.c\<close>, \<^verbatim>\<open>ob_handle.c\<close> and \<^verbatim>\<open>ob_namespace.c\<close>. An object is named by the
  address of its body, 48 bytes past its \<^verbatim>\<open>OBJECT_HEADER\<close>; headers, types, directory bodies and file bodies are
  stores keyed by address, and the blocks themselves come from the pool. A directory's body is the list of the
  headers it contains (the \<^verbatim>\<open>NamespaceEntry\<close> chain, see \<open>Rtl_List\<close>). The reference counts are 32-bit words.
  A type's \<^verbatim>\<open>DeleteProcedure\<close> is one of the delete routines of the kernel; \<^verbatim>\<open>IopFileDelete\<close>
  of \<^verbatim>\<open>kernel/io/file.c\<close> is the only one that changes state. Out-parameters are results, so the tests for a NULL
  out-pointer have no counterpart. The state is an extensible record: the components above add their fields to it.

  \<open>ob_inv\<close> says that every count is the number of references there are: open handles, the namespace's link and
  the references \<open>held\<close> by kernel code. The lemmas show that every operation keeps it; it follows that an
  object is freed exactly when its last reference goes, never before.
\<close>

section \<open>State\<close>

type_synonym cstring = "u8 list"

datatype OB_DELETE_METHOD = NoDelete | ObpDirectoryDelete | CmpKeyDelete | IopFileDelete | DemoEventDelete

record OBJECT_TYPE =
  ot_Name :: cstring
  TotalObjects :: u32
  TotalHandles :: u32
  DeleteProcedure :: OB_DELETE_METHOD

record OBJECT_HEADER =
  PointerCount :: u32
  HandleCount :: u32
  oh_Type :: u64
  oh_Name :: "cstring option"
  ParentDirectory :: u64

record HANDLE_ENTRY =
  he_Object :: u64
  GrantedAccess :: u32

datatype FILE_KIND = FileKindDisk | FileKindConsole

record FILE_OBJECT =
  Kind :: FILE_KIND
  fo_Data :: u64
  fo_Size :: u64
  Position :: u64
  FatWriteDate :: u16
  FatWriteTime :: u16

record ob_state =
  pool :: pool_state
  types :: "u64 \<Rightarrow> OBJECT_TYPE"
  g_type_list :: "u64 list"
  headers :: "u64 \<Rightarrow> OBJECT_HEADER"
  g_handles :: "u32 \<Rightarrow> HANDLE_ENTRY"
  directories :: "u64 \<Rightarrow> u64 list"
  files :: "u64 \<Rightarrow> FILE_OBJECT"
  ObpDirectoryType :: u64
  ObRootDirectory :: u64
  reported :: bool

abbreviation "OB_HDR \<equiv> (48 :: u64)"
abbreviation "OB_MAX_HANDLES \<equiv> (4096 :: u32)"
abbreviation "GENERIC_ALL \<equiv> (0x10000000 :: u32)"
abbreviation "BACKSLASH \<equiv> (0x5C :: u8)"

definition cstr :: "string \<Rightarrow> cstring" where
  "cstr xs = map of_char xs"

definition ObHeaderFromObject :: "u64 \<Rightarrow> u64" where
  "ObHeaderFromObject obj = obj - OB_HDR"

definition ObObjectFromHeader :: "u64 \<Rightarrow> u64" where
  "ObObjectFromHeader h = h + OB_HDR"

lemma header_object [simp]:
  "ObHeaderFromObject (ObObjectFromHeader h) = h" "ObObjectFromHeader (ObHeaderFromObject ob) = ob"
  by (simp_all add: ObHeaderFromObject_def ObObjectFromHeader_def)

lemma ObObjectFromHeader_eq [simp]: "ObObjectFromHeader h = ObObjectFromHeader k \<longleftrightarrow> h = k"
  by (simp add: ObObjectFromHeader_def)

definition upd_header :: "u64 \<Rightarrow> (OBJECT_HEADER \<Rightarrow> OBJECT_HEADER) \<Rightarrow> 'z ob_state_scheme \<Rightarrow> 'z ob_state_scheme" where
  "upd_header h f s = s\<lparr>headers := (headers s)(h := f (headers s h))\<rparr>"

definition upd_type :: "u64 \<Rightarrow> (OBJECT_TYPE \<Rightarrow> OBJECT_TYPE) \<Rightarrow> 'z ob_state_scheme \<Rightarrow> 'z ob_state_scheme" where
  "upd_type t f s = s\<lparr>types := (types s)(t := f (types s t))\<rparr>"

section \<open>Types, objects and references\<close>

definition ObCreateObjectType :: "cstring \<Rightarrow> OB_DELETE_METHOD \<Rightarrow> 'z ob_state_scheme \<Rightarrow> (u64 \<times> 'z ob_state_scheme) option" where
  "ObCreateObjectType name del s =
     do {
       (type, p) \<leftarrow> ExAllocatePoolWithTag NonPagedPool 48 0x65707954 (pool s);
       let s1 = s\<lparr>pool := p\<rparr>;
       if type = 0 then Some (0, s1)
       else Some (type, s1\<lparr>types := (types s1)(type :=
              \<lparr>ot_Name = name, TotalObjects = 0, TotalHandles = 0, DeleteProcedure = del\<rparr>),
            g_type_list := g_type_list s1 @ [type]\<rparr>)
     }"

definition zero_file :: FILE_OBJECT where
  "zero_file = \<lparr>Kind = FileKindDisk, fo_Data = 0, fo_Size = 0, Position = 0, FatWriteDate = 0, FatWriteTime = 0\<rparr>"

text \<open>\<^verbatim>\<open>memset(header, 0, total)\<close> also clears the body; of the bodies kept in this state that is the file's.\<close>

definition ObCreateObject :: "u64 \<Rightarrow> u64 \<Rightarrow> 'z ob_state_scheme \<Rightarrow> (ntstatus \<times> u64 \<times> 'z ob_state_scheme) option" where
  "ObCreateObject type body_size s =
     (if type = 0 then Some (STATUS_INVALID_PARAMETER, 0, s)
      else do {
        (header, p) \<leftarrow> ExAllocatePoolWithTag NonPagedPool (OB_HDR + body_size) 0x6A624F (pool s);
        let s1 = s\<lparr>pool := p\<rparr>;
        if header = 0 then Some (STATUS_NO_MEMORY, 0, s1)
        else
          (let s2 = s1\<lparr>headers := (headers s1)(header :=
                 \<lparr>PointerCount = 1, HandleCount = 0, oh_Type = type, oh_Name = None, ParentDirectory = 0\<rparr>),
                 files := (files s1)(ObObjectFromHeader header := zero_file)\<rparr>;
               s3 = upd_type type (\<lambda>t. t\<lparr>TotalObjects := TotalObjects t + 1\<rparr>) s2
           in Some (STATUS_SUCCESS, ObObjectFromHeader header, s3))
      })"

definition ObReferenceObject :: "u64 \<Rightarrow> 'z ob_state_scheme \<Rightarrow> 'z ob_state_scheme" where
  "ObReferenceObject obj s = upd_header (ObHeaderFromObject obj) (\<lambda>h. h\<lparr>PointerCount := PointerCount h + 1\<rparr>) s"

definition IopFileDelete_proc :: "u64 \<Rightarrow> 'z ob_state_scheme \<Rightarrow> 'z ob_state_scheme option" where
  "IopFileDelete_proc obj s =
     (if fo_Data (files s obj) \<noteq> 0 then do {
        p \<leftarrow> ExFreePool (fo_Data (files s obj)) (pool s);
        Some (s\<lparr>pool := p\<rparr>)
      } else Some s)"

text \<open>The call through \<^verbatim>\<open>type->DeleteProcedure\<close>. \<^verbatim>\<open>ObpDirectoryDelete\<close> and \<^verbatim>\<open>DemoEventDelete\<close> only log, \<^verbatim>\<open>CmpKeyDelete\<close> is
  empty.\<close>

definition call_delete :: "OB_DELETE_METHOD \<Rightarrow> u64 \<Rightarrow> 'z ob_state_scheme \<Rightarrow> 'z ob_state_scheme option" where
  "call_delete del obj s = (case del of IopFileDelete \<Rightarrow> IopFileDelete_proc obj s | _ \<Rightarrow> Some s)"

definition ObpDeleteObject :: "u64 \<Rightarrow> 'z ob_state_scheme \<Rightarrow> 'z ob_state_scheme option" where
  "ObpDeleteObject header s =
     (let type = oh_Type (headers s header);
          d = ParentDirectory (headers s header);
          s1 = (if d \<noteq> 0 then
                  upd_header header (\<lambda>h. h\<lparr>ParentDirectory := 0\<rparr>)
                    (s\<lparr>directories := (directories s)(d := remove1 header (directories s d))\<rparr>)
                else s)
      in do {
        s2 \<leftarrow> call_delete (DeleteProcedure (types s1 type)) (ObObjectFromHeader header) s1;
        let s3 = upd_type type (\<lambda>t. t\<lparr>TotalObjects := (if TotalObjects t \<noteq> 0 then TotalObjects t - 1 else TotalObjects t)\<rparr>) s2;
        p \<leftarrow> ExFreePool header (pool s3);
        Some (s3\<lparr>pool := p\<rparr>)
      })"

definition ObDereferenceObject :: "u64 \<Rightarrow> 'z ob_state_scheme \<Rightarrow> 'z ob_state_scheme option" where
  "ObDereferenceObject obj s =
     (let header = ObHeaderFromObject obj;
          s1 = upd_header header (\<lambda>h. h\<lparr>PointerCount := PointerCount h - 1\<rparr>) s;
          remaining = PointerCount (headers s1 header)
      in if sint remaining < 0 then None
         else if remaining = 0 then ObpDeleteObject header s1
         else Some s1)"

definition ObGetReferenceCount :: "'z ob_state_scheme \<Rightarrow> u64 \<Rightarrow> u32" where
  "ObGetReferenceCount s obj = PointerCount (headers s (ObHeaderFromObject obj))"

section \<open>Handles\<close>

definition index_to_handle :: "u32 \<Rightarrow> u64" where
  "index_to_handle index = ucast ((index + 1) * 4)"

definition handle_to_index :: "u64 \<Rightarrow> u32 option" where
  "handle_to_index handle =
     (if handle = 0 \<or> handle AND 3 \<noteq> 0 then None
      else (let index = handle div 4 - 1
            in if 4096 \<le> index then None else Some (ucast index)))"

definition ObInitializeHandleTable :: "'z ob_state_scheme \<Rightarrow> 'z ob_state_scheme" where
  "ObInitializeHandleTable s = s\<lparr>g_handles := (\<lambda>_. \<lparr>he_Object = 0, GrantedAccess = 0\<rparr>)\<rparr>"

function slot_scan :: "u32 \<Rightarrow> (u32 \<Rightarrow> HANDLE_ENTRY) \<Rightarrow> u32 option" where
  "slot_scan i tab =
     (if i < OB_MAX_HANDLES then (if he_Object (tab i) = 0 then Some i else slot_scan (i + 1) tab) else None)"
  by pat_completeness auto
termination
  by (relation "measure (\<lambda>(i, tab). unat OB_MAX_HANDLES - unat i)") (auto dest: word_loop_measure)

declare slot_scan.simps [simp del]

text \<open>The census that is logged the first time the table is full only reads the state.\<close>

definition ObCreateHandle :: "u64 \<Rightarrow> u32 \<Rightarrow> 'z ob_state_scheme \<Rightarrow> ntstatus \<times> u64 \<times> 'z ob_state_scheme" where
  "ObCreateHandle obj access s =
     (if obj = 0 then (STATUS_INVALID_PARAMETER, 0, s)
      else case slot_scan 0 (g_handles s) of
        Some i \<Rightarrow>
          (let header = ObHeaderFromObject obj;
               s1 = s\<lparr>g_handles := (g_handles s)(i := \<lparr>he_Object = obj, GrantedAccess = access\<rparr>)\<rparr>;
               s2 = ObReferenceObject obj s1;
               s3 = upd_header header (\<lambda>h. h\<lparr>HandleCount := HandleCount h + 1\<rparr>) s2;
               s4 = upd_type (oh_Type (headers s3 header)) (\<lambda>t. t\<lparr>TotalHandles := TotalHandles t + 1\<rparr>) s3
           in (STATUS_SUCCESS, index_to_handle i, s4))
      | None \<Rightarrow> (STATUS_INSUFFICIENT_RESOURCES, 0, s\<lparr>reported := True\<rparr>))"

definition ObReferenceObjectByHandle ::
    "u64 \<Rightarrow> u32 \<Rightarrow> u64 \<Rightarrow> 'z ob_state_scheme \<Rightarrow> ntstatus \<times> u64 \<times> 'z ob_state_scheme" where
  "ObReferenceObjectByHandle handle desired type s =
     (case handle_to_index handle of
        None \<Rightarrow> (STATUS_INVALID_HANDLE, 0, s)
      | Some index \<Rightarrow>
          (let entry = g_handles s index
           in if he_Object entry = 0 then (STATUS_INVALID_HANDLE, 0, s)
              else
                (let header = headers s (ObHeaderFromObject (he_Object entry));
                     granted = (if GrantedAccess entry AND GENERIC_ALL \<noteq> 0 then 0xFFFFFFFF else GrantedAccess entry)
                 in if type \<noteq> 0 \<and> oh_Type header \<noteq> type then (STATUS_OBJECT_TYPE_MISMATCH, 0, s)
                    else if desired \<noteq> 0 \<and> granted AND desired \<noteq> desired then (STATUS_ACCESS_DENIED, 0, s)
                    else (STATUS_SUCCESS, he_Object entry, ObReferenceObject (he_Object entry) s))))"

definition ObCloseHandle :: "u64 \<Rightarrow> 'z ob_state_scheme \<Rightarrow> (ntstatus \<times> 'z ob_state_scheme) option" where
  "ObCloseHandle handle s =
     (case handle_to_index handle of
        None \<Rightarrow> Some (STATUS_INVALID_HANDLE, s)
      | Some index \<Rightarrow>
          (let obj = he_Object (g_handles s index)
           in if obj = 0 then Some (STATUS_INVALID_HANDLE, s)
              else
                (let header = ObHeaderFromObject obj;
                     s1 = s\<lparr>g_handles := (g_handles s)(index := \<lparr>he_Object = 0, GrantedAccess = 0\<rparr>)\<rparr>;
                     s2 = upd_header header (\<lambda>h. h\<lparr>HandleCount := HandleCount h - 1\<rparr>) s1;
                     s3 = upd_type (oh_Type (headers s2 header))
                            (\<lambda>t. t\<lparr>TotalHandles := (if TotalHandles t \<noteq> 0 then TotalHandles t - 1 else TotalHandles t)\<rparr>) s2
                 in do {
                   s4 \<leftarrow> ObDereferenceObject obj s3;
                   Some (STATUS_SUCCESS, s4)
                 })))"

section \<open>The namespace\<close>

fun find_entry :: "(u64 \<Rightarrow> OBJECT_HEADER) \<Rightarrow> u64 list \<Rightarrow> cstring \<Rightarrow> u64 option" where
  "find_entry hs [] leaf = None"
| "find_entry hs (e # es) leaf = (if oh_Name (hs e) = Some leaf then Some e else find_entry hs es leaf)"

definition ObpFindInDirectory :: "'z ob_state_scheme \<Rightarrow> u64 \<Rightarrow> cstring \<Rightarrow> u64 option" where
  "ObpFindInDirectory s dir leaf = find_entry (headers s) (directories s dir) leaf"

text \<open>A name is a value, so that the \<^verbatim>\<open>NULL\<close> check on it has no counterpart; the code keeps the pointer and relies on the caller not to
  change the string it points to.\<close>

definition ObInsertObjectByName :: "u64 \<Rightarrow> cstring \<Rightarrow> u64 \<Rightarrow> 'z ob_state_scheme \<Rightarrow> ntstatus \<times> 'z ob_state_scheme" where
  "ObInsertObjectByName dir name obj s =
     (if dir = 0 \<or> obj = 0 then (STATUS_INVALID_PARAMETER, s)
      else if ObpFindInDirectory s dir name \<noteq> None then (STATUS_OBJECT_NAME_COLLISION, s)
      else
        (let h = ObHeaderFromObject obj;
             s1 = upd_header h (\<lambda>x. x\<lparr>oh_Name := Some name, ParentDirectory := dir\<rparr>) s;
             s2 = s1\<lparr>directories := (directories s1)(dir := directories s1 dir @ [h])\<rparr>
         in (STATUS_SUCCESS, ObReferenceObject obj s2)))"

definition ObCreateDirectory :: "u64 \<Rightarrow> cstring \<Rightarrow> 'z ob_state_scheme \<Rightarrow> (ntstatus \<times> u64 \<times> 'z ob_state_scheme) option" where
  "ObCreateDirectory parent name s =
     do {
       (status, obj, s1) \<leftarrow> ObCreateObject (ObpDirectoryType s) 16 s;
       if \<not> NT_SUCCESS status then Some (status, 0, s1)
       else
         (let s2 = s1\<lparr>directories := (directories s1)(obj := [])\<rparr>
          in if parent \<noteq> 0 then
               (let (status, s3) = ObInsertObjectByName parent name obj s2
                in if \<not> NT_SUCCESS status then do {
                     s4 \<leftarrow> ObDereferenceObject obj s3;
                     Some (status, 0, s4)
                   } else Some (STATUS_SUCCESS, obj, s3))
             else Some (STATUS_SUCCESS, obj, s2))
     }"

text \<open>The segment loop of \<^verbatim>\<open>ObLookupObjectByName\<close> on the rest \<open>p\<close> of the path: the header it ends at or the error.\<close>

function lookup_loop :: "'z ob_state_scheme \<Rightarrow> u64 \<Rightarrow> cstring \<Rightarrow> ntstatus + u64" where
  "lookup_loop s dir p =
     (let leaf = takeWhile (\<lambda>c. c \<noteq> BACKSLASH) p; rest = dropWhile (\<lambda>c. c \<noteq> BACKSLASH) p
      in if leaf = [] then Inl STATUS_OBJECT_NAME_INVALID
         else case ObpFindInDirectory s dir leaf of
           None \<Rightarrow> Inl (if rest \<noteq> [] then STATUS_OBJECT_PATH_NOT_FOUND else STATUS_OBJECT_NAME_NOT_FOUND)
         | Some h \<Rightarrow>
             if rest = [] then Inr h
             else if oh_Type (headers s h) \<noteq> ObpDirectoryType s then Inl STATUS_OBJECT_PATH_NOT_FOUND
             else lookup_loop s (ObObjectFromHeader h) (tl rest))"
  by pat_completeness auto
termination
proof (relation "measure (\<lambda>(s, dir, p). length p)")
  fix s :: "'z ob_state_scheme" and dir p x xa h
  assume "x = takeWhile (\<lambda>c. c \<noteq> BACKSLASH) p" "xa = dropWhile (\<lambda>c. c \<noteq> BACKSLASH) p" "x \<noteq> []" "xa \<noteq> []"
  then have "length (tl xa) < length p"
    by (metis length_dropWhile_le length_tl diff_less le_less_trans length_greater_0_conv less_numeral_extra(1) diff_le_self le_neq_implies_less order_less_le_trans)
  then show "((s, ObObjectFromHeader h, tl xa), s, dir, p) \<in> measure (\<lambda>(s, dir, p). length p)" by simp
qed simp

declare lookup_loop.simps [simp del]

definition ObLookupObjectByName :: "cstring \<Rightarrow> 'z ob_state_scheme \<Rightarrow> ntstatus \<times> u64 \<times> 'z ob_state_scheme" where
  "ObLookupObjectByName path s =
     (if path = [] \<or> hd path \<noteq> BACKSLASH then (STATUS_OBJECT_NAME_INVALID, 0, s)
      else if tl path = [] then
        (STATUS_SUCCESS, ObRootDirectory s, ObReferenceObject (ObRootDirectory s) s)
      else case lookup_loop s (ObRootDirectory s) (tl path) of
        Inl st \<Rightarrow> (st, 0, s)
      | Inr h \<Rightarrow> (STATUS_SUCCESS, ObObjectFromHeader h, ObReferenceObject (ObObjectFromHeader h) s))"

definition ObpInitializeNamespace :: "'z ob_state_scheme \<Rightarrow> 'z ob_state_scheme option" where
  "ObpInitializeNamespace s =
     do {
       (type, s1) \<leftarrow> ObCreateObjectType (cstr ''Directory'') ObpDirectoryDelete s;
       let s2 = s1\<lparr>ObpDirectoryType := type\<rparr>;
       (status, root, s3) \<leftarrow> ObCreateObject type 16 s2;
       if \<not> NT_SUCCESS status then None
       else
         (let s4 = s3\<lparr>directories := (directories s3)(root := [])\<rparr>;
              s5 = upd_header (ObHeaderFromObject root) (\<lambda>h. h\<lparr>oh_Name := Some [BACKSLASH]\<rparr>) s4
          in Some (s5\<lparr>ObRootDirectory := root\<rparr>))
     }"

definition ObInitialize :: "'z ob_state_scheme \<Rightarrow> 'z ob_state_scheme option" where
  "ObInitialize s =
     do {
       s1 \<leftarrow> ObpInitializeNamespace (s\<lparr>g_type_list := []\<rparr>);
       Some (ObInitializeHandleTable s1)
     }"

section \<open>The reference-count invariant\<close>

lemma upd_simps [simp]:
  "headers (upd_header h f s) = (headers s)(h := f (headers s h))" "pool (upd_header h f s) = pool s"
  "types (upd_header h f s) = types s" "g_type_list (upd_header h f s) = g_type_list s"
  "g_handles (upd_header h f s) = g_handles s" "directories (upd_header h f s) = directories s"
  "files (upd_header h f s) = files s" "ObpDirectoryType (upd_header h f s) = ObpDirectoryType s"
  "ObRootDirectory (upd_header h f s) = ObRootDirectory s" "ob_state.more (upd_header h f s) = ob_state.more s"
  "types (upd_type t g s) = (types s)(t := g (types s t))" "pool (upd_type t g s) = pool s"
  "headers (upd_type t g s) = headers s" "g_type_list (upd_type t g s) = g_type_list s"
  "g_handles (upd_type t g s) = g_handles s" "directories (upd_type t g s) = directories s"
  "files (upd_type t g s) = files s" "ObpDirectoryType (upd_type t g s) = ObpDirectoryType s"
  "ObRootDirectory (upd_type t g s) = ObRootDirectory s" "ob_state.more (upd_type t g s) = ob_state.more s"
  by (simp_all add: upd_header_def upd_type_def)

definition handles_of :: "'z ob_state_scheme \<Rightarrow> u64 \<Rightarrow> u32 set" where
  "handles_of s ob = {i. i < OB_MAX_HANDLES \<and> he_Object (g_handles s i) = ob}"

definition linked :: "'z ob_state_scheme \<Rightarrow> u64 \<Rightarrow> bool" where
  "linked s h \<longleftrightarrow> ParentDirectory (headers s h) \<noteq> 0"

text \<open>The references to an object: its handles, its link in the namespace, and those kernel code holds.\<close>

definition nrefs :: "'z ob_state_scheme \<Rightarrow> (u64 \<Rightarrow> nat) \<Rightarrow> u64 \<Rightarrow> nat" where
  "nrefs s held ob = card (handles_of s ob) + of_bool (linked s (ObHeaderFromObject ob)) + held ob"

definition header_ok :: "'z ob_state_scheme \<Rightarrow> (u64 \<Rightarrow> nat) \<Rightarrow> u64 \<Rightarrow> bool" where
  "header_ok s held h \<longleftrightarrow>
     0 < nrefs s held (ObObjectFromHeader h) \<and> nrefs s held (ObObjectFromHeader h) < 2 ^ 31 \<and>
     PointerCount (headers s h) = of_nat (nrefs s held (ObObjectFromHeader h)) \<and>
     HandleCount (headers s h) = of_nat (card (handles_of s (ObObjectFromHeader h)))"

definition names_ok :: "'z ob_state_scheme \<Rightarrow> u64 set \<Rightarrow> bool" where
  "names_ok s B \<longleftrightarrow>
     (\<forall>d h. h \<in> set (directories s d) \<longleftrightarrow> d \<noteq> 0 \<and> h \<in> B \<and> ParentDirectory (headers s h) = d) \<and>
     (\<forall>d. distinct (directories s d)) \<and>
     (\<forall>d. directories s d \<noteq> [] \<longrightarrow> ObHeaderFromObject d \<in> B) \<and>
     (\<forall>d. inj_on (\<lambda>h. oh_Name (headers s h)) (set (directories s d))) \<and>
     (\<forall>d. \<forall>h \<in> set (directories s d). oh_Name (headers s h) \<noteq> None)"

text \<open>The cached contents a file object owns.\<close>

definition file_data :: "'z ob_state_scheme \<Rightarrow> u64 \<Rightarrow> u64" where
  "file_data s h = (if DeleteProcedure (types s (oh_Type (headers s h))) = IopFileDelete
     then fo_Data (files s (ObObjectFromHeader h)) else 0)"

definition blocks_ok :: "'z ob_state_scheme \<Rightarrow> (u64 \<rightharpoonup> nat) \<Rightarrow> u64 set \<Rightarrow> bool" where
  "blocks_ok s L B \<longleftrightarrow>
     (\<forall>h \<in> B. \<exists>n \<ge> 48. L h = Some n) \<and>
     set (g_type_list s) \<subseteq> dom L \<and> B \<inter> set (g_type_list s) = {} \<and>
     (\<forall>h \<in> B. oh_Type (headers s h) \<in> set (g_type_list s)) \<and>
     (\<forall>h \<in> B. file_data s h \<noteq> 0 \<longrightarrow> file_data s h \<in> dom L - B - set (g_type_list s)) \<and>
     (\<forall>h \<in> B. \<forall>k \<in> B. file_data s h = file_data s k \<longrightarrow> file_data s h \<noteq> 0 \<longrightarrow> h = k)"

text \<open>The blocks of the object manager.\<close>

definition ob_own :: "'z ob_state_scheme \<Rightarrow> u64 set \<Rightarrow> u64 set" where
  "ob_own s B = B \<union> set (g_type_list s) \<union> file_data s ` B"

definition ob_inv :: "'z ob_state_scheme \<Rightarrow> (u64 \<rightharpoonup> nat) \<Rightarrow> u64 set \<Rightarrow> (u64 \<Rightarrow> nat) \<Rightarrow> bool" where
  "ob_inv s L B held \<longleftrightarrow> pool_rel (pool s) L \<and> blocks_ok s L B \<and> names_ok s B \<and>
     (\<forall>h \<in> B. header_ok s held h) \<and>
     (\<forall>i < OB_MAX_HANDLES. he_Object (g_handles s i) \<noteq> 0 \<longrightarrow> ObHeaderFromObject (he_Object (g_handles s i)) \<in> B) \<and>
     (\<forall>ob. 0 < held ob \<longrightarrow> ObHeaderFromObject ob \<in> B)"

lemma ob_own_cong:
  assumes "headers s' = headers s" "g_type_list s' = g_type_list s" "types s' = types s" "files s' = files s"
  shows "ob_own s' B = ob_own s B"
  using assms by (simp add: ob_own_def file_data_def)

lemma ob_own_dom: "ob_inv s L B held \<Longrightarrow> x \<in> ob_own s B \<Longrightarrow> x \<noteq> 0 \<Longrightarrow> x \<in> dom L"
  by (auto simp: ob_own_def ob_inv_def blocks_ok_def)

lemma pool_live_fits:
  assumes "pool_rel s L" and "L p = Some r"
  shows "unat p + r < 2 ^ 64"
proof -
  from assms obtain bs where inv: "pool_inv s bs" and l: "live_from 0 bs p = Some r" by (auto simp: pool_rel_def)
  from live_block [OF inv l] obtain xs where "unat p = 0xFFFFFFFFC0000000 + (extent xs + 48)"
    "extent xs + 48 + r + 16 \<le> extent bs" by metis
  moreover have "extent bs < 2 ^ 30" using inv by (simp add: pool_inv_def pool_list_def)
  ultimately show ?thesis by simp
qed

lemma object_nonzero:
  assumes "pool_rel (pool s) L" "blocks_ok s L B" "h \<in> B"
  shows "ObObjectFromHeader h \<noteq> 0"
proof
  assume z: "ObObjectFromHeader h = 0"
  obtain n where n: "48 \<le> n" "L h = Some n" using assms by (auto simp: blocks_ok_def)
  have "h = - 48" using z by (simp add: ObObjectFromHeader_def eq_neg_iff_add_eq_0)
  then have "unat h = 2 ^ 64 - 48" by simp
  with pool_live_fits [OF assms(1) n(2)] n(1) show False by simp
qed

lemma finite_handles [simp]: "finite (handles_of s ob)"
  by (rule finite_subset [of _ UNIV]) auto

lemma card_handles: "card (handles_of s ob) \<le> 4096"
proof -
  have "handles_of s ob \<subseteq> {i. i < OB_MAX_HANDLES}" by (auto simp: handles_of_def)
  then have "card (handles_of s ob) \<le> card {i :: u32. i < OB_MAX_HANDLES}" by (intro card_mono) auto
  then show ?thesis by (simp add: card_words_below)
qed

text \<open>The invariant depends on the state only through the fields it names.\<close>

lemma ob_inv_cong:
  assumes "pool s' = pool s" "headers s' = headers s" "g_handles s' = g_handles s" "directories s' = directories s"
    "files s' = files s" "g_type_list s' = g_type_list s" "\<And>t. DeleteProcedure (types s' t) = DeleteProcedure (types s t)"
  shows "ob_inv s' L B held \<longleftrightarrow> ob_inv s L B held"
  by (simp add: ob_inv_def blocks_ok_def names_ok_def header_ok_def nrefs_def handles_of_def linked_def file_data_def assms)

lemma of_nat_pred: "0 < n \<Longrightarrow> of_nat n - 1 = (of_nat (n - 1) :: 'a::ring_1)"
  by (cases n) simp_all

text \<open>Steps that only touch counts and the handle table.\<close>

definition same_shape :: "'z ob_state_scheme \<Rightarrow> 'z ob_state_scheme \<Rightarrow> bool" where
  "same_shape s s' \<longleftrightarrow> pool s' = pool s \<and> directories s' = directories s \<and> files s' = files s \<and>
     g_type_list s' = g_type_list s \<and> (\<forall>t. DeleteProcedure (types s' t) = DeleteProcedure (types s t)) \<and>
     (\<forall>k. oh_Type (headers s' k) = oh_Type (headers s k) \<and> oh_Name (headers s' k) = oh_Name (headers s k) \<and>
        ParentDirectory (headers s' k) = ParentDirectory (headers s k))"

lemma same_shape_simps:
  assumes "same_shape s s'"
  shows "linked s' k = linked s k" "file_data s' k = file_data s k" "blocks_ok s' L B = blocks_ok s L B"
    "names_ok s' B = names_ok s B" "pool s' = pool s"
proof -
  show "linked s' k = linked s k" "pool s' = pool s" using assms by (simp_all add: same_shape_def linked_def)
  have f: "file_data s' k = file_data s k" for k using assms by (simp add: same_shape_def file_data_def)
  then show "file_data s' k = file_data s k" .
  show "blocks_ok s' L B = blocks_ok s L B" "names_ok s' B = names_ok s B"
    using assms by (simp_all add: same_shape_def blocks_ok_def names_ok_def f)
qed

lemma ob_inv_shape:
  assumes "same_shape s s'" and "ob_inv s L B held" and "\<And>h. h \<in> B \<Longrightarrow> header_ok s' held' h"
    and "\<And>i. i < OB_MAX_HANDLES \<Longrightarrow> he_Object (g_handles s' i) \<noteq> 0 \<Longrightarrow> ObHeaderFromObject (he_Object (g_handles s' i)) \<in> B"
    and "\<And>ob. 0 < held' ob \<Longrightarrow> ObHeaderFromObject ob \<in> B"
  shows "ob_inv s' L B held'"
  using assms by (simp add: ob_inv_def same_shape_simps)

lemma nrefs_bound: "nrefs s held ob \<le> 4097 + held ob"
  using card_handles [of s ob] by (simp add: nrefs_def of_bool_def)

lemma ob_reference:
  assumes inv: "ob_inv s L B held" and h: "ObHeaderFromObject ob \<in> B" and b: "held ob < 2 ^ 30"
  shows "ob_inv (ObReferenceObject ob s) L B (held(ob := Suc (held ob)))"
proof (rule ob_inv_shape [OF _ inv])
  let ?s = "ObReferenceObject ob s" and ?held = "held(ob := Suc (held ob))"
  show sh: "same_shape s ?s" by (simp add: ObReferenceObject_def same_shape_def)
  have ho: "handles_of ?s x = handles_of s x" for x by (simp add: ObReferenceObject_def handles_of_def)
  have n: "nrefs ?s ?held x = nrefs s held x + of_bool (x = ob)" for x
    by (simp add: nrefs_def ho same_shape_simps [OF sh])
  have "nrefs s held ob < 2 ^ 30 + 4098" using b nrefs_bound [of s held ob] by simp
  then show "header_ok ?s ?held k" if "k \<in> B" for k
    using inv that unfolding header_ok_def n ho
    by (cases "k = ObHeaderFromObject ob") (auto simp: ob_inv_def header_ok_def ObReferenceObject_def)
qed (use inv h in \<open>auto simp: ob_inv_def ObReferenceObject_def split: if_splits\<close>)

lemma slot_scan_spec:
  "slot_scan i tab = Some j \<Longrightarrow> i \<le> j \<and> j < OB_MAX_HANDLES \<and> he_Object (tab j) = 0"
  "slot_scan i tab = None \<Longrightarrow> i \<le> j \<Longrightarrow> j < OB_MAX_HANDLES \<Longrightarrow> he_Object (tab j) \<noteq> 0"
proof -
  show "slot_scan i tab = Some j \<Longrightarrow> i \<le> j \<and> j < OB_MAX_HANDLES \<and> he_Object (tab j) = 0"
  proof (induction i tab rule: slot_scan.induct)
    case (1 i tab)
    show ?case
    proof (cases "i < OB_MAX_HANDLES \<and> he_Object (tab i) \<noteq> 0")
      case True
      then have "slot_scan (i + 1) tab = Some j" using 1(2) by (simp add: slot_scan.simps [of i])
      with 1(1) True have "i + 1 \<le> j \<and> j < OB_MAX_HANDLES \<and> he_Object (tab j) = 0" by simp
      then show ?thesis using True word_le_Suc_iff [of i OB_MAX_HANDLES j] by (auto intro: less_imp_le)
    next
      case False
      then show ?thesis using 1(2) by (auto simp: slot_scan.simps [of i] split: if_splits)
    qed
  qed
  show "slot_scan i tab = None \<Longrightarrow> i \<le> j \<Longrightarrow> j < OB_MAX_HANDLES \<Longrightarrow> he_Object (tab j) \<noteq> 0"
  proof (induction i tab rule: slot_scan.induct)
    case (1 i tab)
    then have i: "i < OB_MAX_HANDLES" by (meson order_le_less_trans)
    then have "he_Object (tab i) \<noteq> 0" "slot_scan (i + 1) tab = None"
      using 1(2) by (auto simp: slot_scan.simps [of i] split: if_splits)
    then show ?case
      using 1 i word_le_Suc_iff [OF i, of j] by (cases "i = j") auto
  qed
qed

lemma handles_add:
  assumes "i < OB_MAX_HANDLES" "he_Object (g_handles s i) = 0" "ob \<noteq> 0" "g_handles s' = (g_handles s)(i := e)" "he_Object e = ob"
  shows "card (handles_of s' ob) = Suc (card (handles_of s ob))" "x \<noteq> ob \<Longrightarrow> x \<noteq> 0 \<Longrightarrow> handles_of s' x = handles_of s x"
proof -
  have "handles_of s' ob = insert i (handles_of s ob)" "i \<notin> handles_of s ob" using assms by (auto simp: handles_of_def)
  then show "card (handles_of s' ob) = Suc (card (handles_of s ob))" by simp
  show "x \<noteq> ob \<Longrightarrow> x \<noteq> 0 \<Longrightarrow> handles_of s' x = handles_of s x" using assms by (auto simp: handles_of_def)
qed

lemma ob_live_nonzero: "ob_inv s L B held \<Longrightarrow> h \<in> B \<Longrightarrow> ObObjectFromHeader h \<noteq> 0"
  using object_nonzero by (auto simp: ob_inv_def)

lemma ob_create_handle:
  assumes inv: "ob_inv s L B held" and h: "ObHeaderFromObject ob \<in> B" and b: "held ob < 2 ^ 30"
    and c: "ObCreateHandle ob access s = (st, hnd, s')"
  shows "ob_inv s' L B held"
    and "st = STATUS_SUCCESS \<and> (\<exists>i. i < OB_MAX_HANDLES \<and> he_Object (g_handles s i) = 0 \<and> hnd = index_to_handle i \<and>
        g_handles s' = (g_handles s)(i := \<lparr>he_Object = ob, GrantedAccess = access\<rparr>)) \<or>
      st = STATUS_INSUFFICIENT_RESOURCES \<and> (\<forall>i < OB_MAX_HANDLES. he_Object (g_handles s i) \<noteq> 0)"
proof -
  have nz: "ob \<noteq> 0" using ob_live_nonzero [OF inv h] by simp
  have *: "ob_inv s' L B held \<and> (st = STATUS_SUCCESS \<and> (\<exists>i. i < OB_MAX_HANDLES \<and> he_Object (g_handles s i) = 0 \<and>
        hnd = index_to_handle i \<and> g_handles s' = (g_handles s)(i := \<lparr>he_Object = ob, GrantedAccess = access\<rparr>)) \<or>
      st = STATUS_INSUFFICIENT_RESOURCES \<and> (\<forall>i < OB_MAX_HANDLES. he_Object (g_handles s i) \<noteq> 0))"
  proof (cases "slot_scan 0 (g_handles s)")
    case None
    then have "s' = s\<lparr>reported := True\<rparr>" "st = STATUS_INSUFFICIENT_RESOURCES"
      using c nz by (simp_all add: ObCreateHandle_def)
    then show ?thesis using slot_scan_spec(2) [OF None] inv ob_inv_cong [of s' s] by simp
  next
    case (Some i)
    note i = slot_scan_spec(1) [OF Some]
    have s': "g_handles s' = (g_handles s)(i := \<lparr>he_Object = ob, GrantedAccess = access\<rparr>)"
      "headers s' = (headers s)(ObHeaderFromObject ob := (headers s (ObHeaderFromObject ob))\<lparr>
         PointerCount := PointerCount (headers s (ObHeaderFromObject ob)) + 1,
         HandleCount := HandleCount (headers s (ObHeaderFromObject ob)) + 1\<rparr>)"
      "st = STATUS_SUCCESS" "hnd = index_to_handle i" and sh: "same_shape s s'"
      using c Some nz by (auto simp: ObCreateHandle_def ObReferenceObject_def Let_def same_shape_def)
    note ho = handles_add [OF _ _ nz s'(1)]
    have "ob_inv s' L B held"
    proof (rule ob_inv_shape [OF sh inv])
      fix k assume k: "k \<in> B"
      have kz: "ObObjectFromHeader k \<noteq> 0" using ob_live_nonzero [OF inv k] .
      have ok: "header_ok s held k" using inv k by (simp add: ob_inv_def)
      show "header_ok s' held k"
      proof (cases "ObObjectFromHeader k = ob")
        case True
        then have "nrefs s' held ob = Suc (nrefs s held ob)" using ho i by (simp add: nrefs_def same_shape_simps [OF sh])
        then show ?thesis
          using ok True ho i nrefs_bound [of s held ob] b by (auto simp: header_ok_def s')
      next
        case False
        then have "k \<noteq> ObHeaderFromObject ob" by auto
        then show ?thesis
          using ok False ho i kz by (simp add: header_ok_def nrefs_def same_shape_simps [OF sh] s')
      qed
    qed (use inv h s' in \<open>auto simp: ob_inv_def split: if_splits\<close>)
    then show ?thesis using i s' by auto
  qed
  then show "ob_inv s' L B held" by blast
  show "st = STATUS_SUCCESS \<and> (\<exists>i. i < OB_MAX_HANDLES \<and> he_Object (g_handles s i) = 0 \<and> hnd = index_to_handle i \<and>
        g_handles s' = (g_handles s)(i := \<lparr>he_Object = ob, GrantedAccess = access\<rparr>)) \<or>
      st = STATUS_INSUFFICIENT_RESOURCES \<and> (\<forall>i < OB_MAX_HANDLES. he_Object (g_handles s i) \<noteq> 0)"
    using * by blast
qed

lemma header_ok_cong:
  "headers s' = headers s \<Longrightarrow> g_handles s' = g_handles s \<Longrightarrow> header_ok s' held h = header_ok s held h"
  by (simp add: header_ok_def nrefs_def handles_of_def linked_def)

lemma inv_pool [simp]:
  "blocks_ok (s\<lparr>pool := p\<rparr>) L B = blocks_ok s L B" "names_ok (s\<lparr>pool := p\<rparr>) B = names_ok s B"
  "header_ok (s\<lparr>pool := p\<rparr>) held h = header_ok s held h"
  by (simp_all add: blocks_ok_def names_ok_def file_data_def header_ok_cong [of "s\<lparr>pool := p\<rparr>" s])

lemma pool_release_dom:
  assumes "pool_rel p L" and "a \<in> dom L"
  shows "\<exists>p'. ExFreePool a p = Some p' \<and> pool_rel p' (L(a := None))"
  using assms pool.release_live by blast

text \<open>The delete procedure returns the contents of a file to the pool and changes nothing else.\<close>

lemma call_delete_spec:
  assumes rel: "pool_rel (pool s) L" and h: "h \<in> B" and bl: "blocks_ok s L B"
  shows "\<exists>p' L'. call_delete (DeleteProcedure (types s (oh_Type (headers s h)))) (ObObjectFromHeader h) s =
      Some (s\<lparr>pool := p'\<rparr>) \<and> pool_rel p' L' \<and> L' = (if file_data s h = 0 then L else L(file_data s h := None))"
proof (cases "file_data s h = 0")
  case True
  then have "call_delete (DeleteProcedure (types s (oh_Type (headers s h)))) (ObObjectFromHeader h) s = Some s"
    by (auto simp: call_delete_def IopFileDelete_proc_def file_data_def split: OB_DELETE_METHOD.splits if_splits)
  moreover have "s = s\<lparr>pool := pool s\<rparr>" by simp
  ultimately show ?thesis using rel True by metis
next
  case False
  then have d: "DeleteProcedure (types s (oh_Type (headers s h))) = IopFileDelete"
    "fo_Data (files s (ObObjectFromHeader h)) = file_data s h"
    by (auto simp: file_data_def split: if_splits)
  have "file_data s h \<in> dom L" using bl h False by (auto simp: blocks_ok_def)
  from pool_release_dom [OF rel this] d False show ?thesis by (auto simp: call_delete_def IopFileDelete_proc_def)
qed

lemma blocks_delete:
  assumes bl: "blocks_ok s L B" and h: "h \<in> B"
    and L': "L' = (if file_data s h = 0 then L else L(file_data s h := None))"
    and same: "\<And>k. k \<noteq> h \<Longrightarrow> headers s' k = headers s k" "files s' = files s" "g_type_list s' = g_type_list s"
      "\<And>t. DeleteProcedure (types s' t) = DeleteProcedure (types s t)"
  shows "blocks_ok s' (L'(h := None)) (B - {h})" and "h \<in> dom L'"
proof -
  have f: "file_data s' k = file_data s k" if "k \<noteq> h" for k using that same by (simp add: file_data_def)
  have hd: "file_data s h \<noteq> 0 \<Longrightarrow> file_data s h \<in> dom L - B - set (g_type_list s)" using bl h by (auto simp: blocks_ok_def)
  have keep: "L' x = L x" if "x \<in> B \<or> x \<in> set (g_type_list s)" for x
    using that hd L' by (auto split: if_splits)
  show "h \<in> dom L'" using keep h bl by (force simp: blocks_ok_def)
  have "file_data s k \<in> dom (L'(h := None)) - (B - {h}) - set (g_type_list s)"
    if "k \<in> B" "k \<noteq> h" "file_data s k \<noteq> 0" for k
  proof -
    have "file_data s k \<in> dom L - B - set (g_type_list s)" using bl that by (auto simp: blocks_ok_def)
    moreover have "file_data s k \<noteq> file_data s h" using bl that h unfolding blocks_ok_def by metis
    ultimately show ?thesis using h L' by (auto split: if_splits)
  qed
  moreover have "\<exists>n \<ge> 48. (L'(h := None)) k = Some n" if "k \<in> B - {h}" for k
    using bl that keep [of k] by (auto simp: blocks_ok_def)
  moreover have "x \<in> dom (L'(h := None))" if "x \<in> set (g_type_list s)" for x
  proof -
    have "x \<in> dom L" "x \<noteq> h" using bl that h by (auto simp: blocks_ok_def)
    then show ?thesis using keep [of x] that by auto
  qed
  moreover have "oh_Type (headers s k) \<in> set (g_type_list s)" if "k \<in> B" for k
    using bl that by (simp add: blocks_ok_def)
  moreover have "B \<inter> set (g_type_list s) = {}" using bl by (simp add: blocks_ok_def)
  moreover have "h' = k" if "h' \<in> B" "k \<in> B" "file_data s h' = file_data s k" "file_data s h' \<noteq> 0" for h' k
    using bl that unfolding blocks_ok_def by metis
  ultimately show "blocks_ok s' (L'(h := None)) (B - {h})"
    unfolding blocks_ok_def same(3) by (simp add: f same) blast
qed

lemma ObHeaderFromObject_eq [simp]: "ObHeaderFromObject x = ObHeaderFromObject y \<longleftrightarrow> x = y"
  by (simp add: ObHeaderFromObject_def)

lemma names_delete:
  assumes "names_ok s B" and "ParentDirectory (headers s h) = 0" and "directories s (ObObjectFromHeader h) = []"
    and "headers s' = headers s" and "directories s' = directories s"
  shows "names_ok s' (B - {h})"
proof -
  have "ObHeaderFromObject d \<noteq> h" if "directories s d \<noteq> []" for d
    using assms(3) that by (metis header_object(2))
  then show ?thesis using assms by (auto simp: names_ok_def)
qed

lemma sint_word_small: "n < 2 ^ 31 \<Longrightarrow> sint (of_nat n :: u32) = int n"
  by (simp add: signed_of_nat signed_take_bit_int_eq_self)

lemma ob_dereference:
  assumes inv: "ob_inv s L B held" and held: "0 < held ob" and dir: "nrefs s held ob = 1 \<Longrightarrow> directories s ob = []"
  obtains s' L' B' where "ObDereferenceObject ob s = Some s'" "ob_inv s' L' B' (held(ob := held ob - 1))"
    "B' = (if nrefs s held ob = 1 then B - {ObHeaderFromObject ob} else B)" "ob_state.more s' = ob_state.more s"
    "g_handles s' = g_handles s" "\<And>k. k \<noteq> ObHeaderFromObject ob \<Longrightarrow> headers s' k = headers s k" "dom L' \<subseteq> dom L"
    "ObRootDirectory s' = ObRootDirectory s" "ObpDirectoryType s' = ObpDirectoryType s"
    "directories s' = directories s" "g_type_list s' = g_type_list s" "files s' = files s"
    "\<And>t. DeleteProcedure (types s' t) = DeleteProcedure (types s t)"
    "\<And>k. oh_Type (headers s' k) = oh_Type (headers s k)" "\<And>x. x \<notin> ob_own s B \<Longrightarrow> L' x = L x"
proof -
  define h where "h = ObHeaderFromObject ob"
  have ob: "ObObjectFromHeader h = ob" by (simp add: h_def)
  have hB: "h \<in> B" using inv held by (simp add: ob_inv_def h_def)
  have ok: "header_ok s held h" using inv hB by (simp add: ob_inv_def)
  define n where "n = nrefs s held ob"
  have n: "0 < n" "n < 2 ^ 31" "PointerCount (headers s h) = of_nat n" using ok by (auto simp: header_ok_def ob n_def)
  define s1 where "s1 = upd_header h (\<lambda>x. x\<lparr>PointerCount := PointerCount x - 1\<rparr>) s"
  have pc: "PointerCount (headers s1 h) = of_nat (n - 1)" 
    unfolding of_nat_pred [OF n(1), symmetric] n(3) [symmetric] by (simp add: s1_def)
  have un: "unat (of_nat (n - 1) :: u32) = n - 1" using n by (intro unat_of_nat_id) simp
  have si: "sint (of_nat (n - 1) :: u32) = int (n - 1)"
    using n by (intro sint_word_small) simp
  have z: "of_nat (n - 1) = (0 :: u32) \<longleftrightarrow> n = 1" using n(1) unfolding unat_eq_zero [symmetric] un by auto
  have sh: "same_shape s s1" by (simp add: s1_def same_shape_def)
  have ho: "handles_of s1 x = handles_of s x" for x by (simp add: s1_def handles_of_def)
  let ?held = "held(ob := held ob - 1)"
  have other: "header_ok s1 ?held k" if "k \<in> B" "k \<noteq> h" for k
  proof -
    have "ObObjectFromHeader k \<noteq> ob" using that ob by (metis ObObjectFromHeader_eq)
    moreover have "header_ok s held k" using inv that by (simp add: ob_inv_def)
    ultimately show ?thesis using that by (simp add: header_ok_def nrefs_def ho same_shape_simps [OF sh]) (simp add: s1_def)
  qed
  have hl: "ObHeaderFromObject (he_Object (g_handles s1 i)) \<in> B" if "i < OB_MAX_HANDLES" "he_Object (g_handles s1 i) \<noteq> 0" for i
    using inv that by (simp add: ob_inv_def s1_def)
  have deref: "ObDereferenceObject ob s = (if n = 1 then ObpDeleteObject h s1 else Some s1)"
    unfolding ObDereferenceObject_def Let_def h_def [symmetric] s1_def [symmetric] pc si z by simp
  show ?thesis
  proof (cases "n = 1")
    case False
    have "nrefs s1 ?held ob = n - 1" using held by (simp add: nrefs_def ho same_shape_simps [OF sh] n_def)
    then have "header_ok s1 ?held h" using ok n False pc by (simp add: header_ok_def ob ho) (simp add: s1_def)
    then have hk: "header_ok s1 ?held k" if "k \<in> B" for k using other [OF that] by (cases "k = h") auto
    have "ob_inv s1 L B ?held"
    proof (rule ob_inv_shape [OF sh inv hk hl])
      fix x assume "0 < ?held x"
      then have "0 < held x" by (simp split: if_splits)
      then show "ObHeaderFromObject x \<in> B" using inv by (simp add: ob_inv_def)
    qed
    then show ?thesis using False deref by (intro that [of s1 L B]) (simp_all add: s1_def n_def [symmetric] h_def [symmetric])
  next
    case True
    have e: "card (handles_of s ob) + of_bool (linked s h) + held ob = 1"
      using True by (simp add: n_def nrefs_def h_def [symmetric])
    have "card (handles_of s ob) = 0" using e held by linarith
    then have none: "handles_of s ob = {}" "\<not> linked s h" "held ob = 1"
      using e held by (auto simp: of_bool_def split: if_splits)
    have p0: "ParentDirectory (headers s1 h) = 0" using none(2) by (simp add: linked_def s1_def)
    have rel: "pool_rel (pool s1) L" and bl: "blocks_ok s1 L B" using inv by (simp_all add: ob_inv_def same_shape_simps [OF sh])
    from call_delete_spec [OF rel hB bl] obtain p' L' where
      del: "call_delete (DeleteProcedure (types s1 (oh_Type (headers s1 h)))) (ObObjectFromHeader h) s1 = Some (s1\<lparr>pool := p'\<rparr>)"
      and rel': "pool_rel p' L'" and L': "L' = (if file_data s1 h = 0 then L else L(file_data s1 h := None))" by blast
    note bd = blocks_delete [OF bl hB L']
    have hd: "h \<in> dom L'" by (rule bd(2) [of s1]) simp_all
    from pool_release_dom [OF rel' hd] obtain p'' where
      p'': "ExFreePool h p' = Some p''" "pool_rel p'' (L'(h := None))" by blast
    define s' where "s' = (upd_type (oh_Type (headers s1 h))
        (\<lambda>t. t\<lparr>TotalObjects := (if TotalObjects t \<noteq> 0 then TotalObjects t - 1 else TotalObjects t)\<rparr>) (s1\<lparr>pool := p'\<rparr>))\<lparr>pool := p''\<rparr>"
    have d: "ObpDeleteObject h s1 = Some s'"
      using p0 del p''(1) by (simp add: ObpDeleteObject_def s'_def)
    have s': "headers s' = headers s1" "g_handles s' = g_handles s" "directories s' = directories s" "files s' = files s"
      "g_type_list s' = g_type_list s" "pool s' = p''" "ob_state.more s' = ob_state.more s"
      "ObRootDirectory s' = ObRootDirectory s" "ObpDirectoryType s' = ObpDirectoryType s"
      "DeleteProcedure (types s' t) = DeleteProcedure (types s t)" for t
      by (simp_all add: s'_def s1_def)
    have "blocks_ok s' (L'(h := None)) (B - {h})" by (rule bd(1)) (simp_all add: s' s1_def)
    moreover have "names_ok s' (B - {h})"
    proof (rule names_delete [of s1])
      show "names_ok s1 B" using inv by (simp add: ob_inv_def same_shape_simps [OF sh])
      show "directories s1 (ObObjectFromHeader h) = []" using dir True n_def by (simp add: ob s1_def)
    qed (use p0 in \<open>simp_all add: s' s1_def\<close>)
    moreover have "header_ok s' ?held k" if "k \<in> B - {h}" for k
      using other [of k] that header_ok_cong [of s' s1 ?held k] s'(1,2) by (simp add: s1_def)
    moreover have "ObHeaderFromObject (he_Object (g_handles s' i)) \<in> B - {h}"
      if "i < OB_MAX_HANDLES" "he_Object (g_handles s' i) \<noteq> 0" for i
    proof -
      have "he_Object (g_handles s i) \<noteq> ob" using none(1) that(1) by (auto simp: handles_of_def)
      then show ?thesis using hl [of i] that by (simp add: s' s1_def h_def)
    qed
    moreover have "ObHeaderFromObject x \<in> B - {h}" if "0 < ?held x" for x
      using that none(3) inv by (auto simp: ob_inv_def h_def split: if_splits)
    ultimately have "ob_inv s' (L'(h := None)) (B - {h}) ?held" using p'' by (simp add: ob_inv_def s')
    moreover have "dom (L'(h := None)) \<subseteq> dom L" using L' by (auto split: if_splits)
    moreover have "file_data s1 h = file_data s h" by (simp add: file_data_def s1_def)
    then have "(L'(h := None)) x = L x" if "x \<notin> ob_own s B" for x using that hB L' by (auto simp: ob_own_def)
    ultimately show ?thesis
      using True d deref by (intro that [of s' "L'(h := None)" "B - {h}"]) (auto simp: s' s1_def n_def [symmetric] h_def [symmetric])
  qed
qed


lemma blocks_okD:
  assumes "blocks_ok s L B"
  shows "h \<in> B \<Longrightarrow> \<exists>n \<ge> 48. L h = Some n" "t \<in> set (g_type_list s) \<Longrightarrow> t \<in> dom L \<and> t \<notin> B"
    "h \<in> B \<Longrightarrow> oh_Type (headers s h) \<in> set (g_type_list s)"
    "h \<in> B \<Longrightarrow> file_data s h \<noteq> 0 \<Longrightarrow> file_data s h \<in> dom L - B - set (g_type_list s)"
    "h \<in> B \<Longrightarrow> k \<in> B \<Longrightarrow> file_data s h = file_data s k \<Longrightarrow> file_data s h \<noteq> 0 \<Longrightarrow> h = k"
  using assms unfolding blocks_ok_def by (blast, blast, blast, blast, metis)

lemma blocks_okI:
  assumes "\<And>h. h \<in> B \<Longrightarrow> \<exists>n \<ge> 48. L h = Some n" "\<And>t. t \<in> set (g_type_list s) \<Longrightarrow> t \<in> dom L \<and> t \<notin> B"
    "\<And>h. h \<in> B \<Longrightarrow> oh_Type (headers s h) \<in> set (g_type_list s)"
    "\<And>h. h \<in> B \<Longrightarrow> file_data s h \<noteq> 0 \<Longrightarrow> file_data s h \<in> dom L - B - set (g_type_list s)"
    "\<And>h k. h \<in> B \<Longrightarrow> k \<in> B \<Longrightarrow> file_data s h = file_data s k \<Longrightarrow> file_data s h \<noteq> 0 \<Longrightarrow> h = k"
  shows "blocks_ok s L B"
  unfolding blocks_ok_def using assms by blast

lemma blocks_insert:
  assumes bl: "blocks_ok s L B" and h: "h \<notin> B" "L h = None" and n: "48 \<le> n"
    and ty: "oh_Type (headers s' h) \<in> set (g_type_list s)" and f0: "file_data s' h = 0"
    and f: "\<And>k. k \<noteq> h \<Longrightarrow> file_data s' k = file_data s k" and g: "g_type_list s' = g_type_list s"
    and hd: "\<And>k. k \<noteq> h \<Longrightarrow> headers s' k = headers s k"
  shows "blocks_ok s' (L(h \<mapsto> n)) (insert h B)"
proof (rule blocks_okI)
  fix k assume k: "k \<in> insert h B"
  show "\<exists>m \<ge> 48. (L(h \<mapsto> n)) k = Some m" using blocks_okD(1) [OF bl, of k] k n by auto
  show "oh_Type (headers s' k) \<in> set (g_type_list s')"
    using blocks_okD(3) [OF bl, of k] k ty g hd [of k] by (cases "k = h") auto
  assume z: "file_data s' k \<noteq> 0"
  then have "k \<noteq> h" using f0 by auto
  then show "file_data s' k \<in> dom (L(h \<mapsto> n)) - insert h B - set (g_type_list s')"
    using blocks_okD(4) [OF bl, of k] k z f [of k] g h by auto
  fix j assume "j \<in> insert h B" "file_data s' k = file_data s' j"
  then show "k = j" using blocks_okD(5) [OF bl, of k j] k z f [of k] f [of j] f0 by (cases "k = h"; cases "j = h") auto
next
  fix t assume "t \<in> set (g_type_list s')"
  then show "t \<in> dom (L(h \<mapsto> n)) \<and> t \<notin> insert h B" using blocks_okD(2) [OF bl, of t] g h by auto
qed

lemma names_okD:
  assumes "names_ok s B"
  shows "h \<in> set (directories s d) \<longleftrightarrow> d \<noteq> 0 \<and> h \<in> B \<and> ParentDirectory (headers s h) = d" "distinct (directories s d)"
    "directories s d \<noteq> [] \<Longrightarrow> ObHeaderFromObject d \<in> B" "inj_on (\<lambda>h. oh_Name (headers s h)) (set (directories s d))"
    "h \<in> set (directories s d) \<Longrightarrow> oh_Name (headers s h) \<noteq> None"
  using assms unfolding names_ok_def by blast+

lemma names_okI:
  assumes "\<And>h d. h \<in> set (directories s d) \<longleftrightarrow> d \<noteq> 0 \<and> h \<in> B \<and> ParentDirectory (headers s h) = d" "\<And>d. distinct (directories s d)"
    "\<And>d. directories s d \<noteq> [] \<Longrightarrow> ObHeaderFromObject d \<in> B" "\<And>d. inj_on (\<lambda>h. oh_Name (headers s h)) (set (directories s d))"
    "\<And>h d. h \<in> set (directories s d) \<Longrightarrow> oh_Name (headers s h) \<noteq> None"
  shows "names_ok s B"
  unfolding names_ok_def using assms by blast

lemma names_insert:
  assumes nm: "names_ok s B" and h: "h \<notin> B" and hd: "\<And>k. k \<noteq> h \<Longrightarrow> headers s' k = headers s k"
    and d: "directories s' = directories s" and p: "ParentDirectory (headers s' h) = 0"
  shows "names_ok s' (insert h B)"
proof (rule names_okI)
  fix k d'
  have out: "h \<notin> set (directories s d')" using names_okD(1) [OF nm, of h d'] h by simp
  have same: "headers s' x = headers s x" if "x \<in> set (directories s d')" for x using out that hd [of x] by (cases "x = h") auto
  show "k \<in> set (directories s' d') \<longleftrightarrow> d' \<noteq> 0 \<and> k \<in> insert h B \<and> ParentDirectory (headers s' k) = d'"
    using names_okD(1) [OF nm, of k d'] out p hd [of k] h by (cases "k = h") (auto simp: d)
  show "distinct (directories s' d')" using names_okD(2) [OF nm] by (simp add: d)
  show "ObHeaderFromObject d' \<in> insert h B" if "directories s' d' \<noteq> []" using that names_okD(3) [OF nm, of d'] by (simp add: d)
  show "inj_on (\<lambda>h. oh_Name (headers s' h)) (set (directories s' d'))"
    using names_okD(4) [OF nm, of d'] same by (simp add: d inj_on_def)
  show "oh_Name (headers s' k) \<noteq> None" if "k \<in> set (directories s' d')"
    using that names_okD(5) [OF nm, of k d'] same [of k] by (simp add: d)
qed

lemma ob_create:
  assumes inv: "ob_inv s L B held" and ty: "type \<in> set (g_type_list s)" and sz: "unat sz \<le> 2 ^ 60"
    and c: "ObCreateObject type sz s = Some (st, ob, s')"
  obtains (success) "st = STATUS_SUCCESS" "ObHeaderFromObject ob \<notin> B" "L (ObHeaderFromObject ob) = None" "held ob = 0"
      "ob_inv s' (L(ObHeaderFromObject ob \<mapsto> 48 + unat sz)) (insert (ObHeaderFromObject ob) B) (held(ob := 1))"
      "directories s ob = []" "directories s' = directories s" "ob_state.more s' = ob_state.more s"
      "g_handles s' = g_handles s" "\<And>k. k \<noteq> ObHeaderFromObject ob \<Longrightarrow> headers s' k = headers s k"
      "headers s' (ObHeaderFromObject ob) = \<lparr>PointerCount = 1, HandleCount = 0, oh_Type = type, oh_Name = None, ParentDirectory = 0\<rparr>"
      "files s' = (files s)(ob := zero_file)" "g_type_list s' = g_type_list s"
      "ObRootDirectory s' = ObRootDirectory s" "ObpDirectoryType s' = ObpDirectoryType s"
      "\<And>t. DeleteProcedure (types s' t) = DeleteProcedure (types s t)"
    | (failure) "st = STATUS_NO_MEMORY" "ob_inv s' L B held" "ob_state.more s' = ob_state.more s" "g_handles s' = g_handles s"
      "headers s' = headers s" "directories s' = directories s" "files s' = files s" "types s' = types s"
      "g_type_list s' = g_type_list s" "ObRootDirectory s' = ObRootDirectory s" "ObpDirectoryType s' = ObpDirectoryType s"
proof -
  have rel: "pool_rel (pool s) L" and bl: "blocks_ok s L B" and nm: "names_ok s B" using inv by (simp_all add: ob_inv_def)
  have t0: "type \<noteq> 0" using ty bl pool.live_nonzero [OF rel, of type] by (auto simp: blocks_ok_def)
  have tot: "unat (OB_HDR + sz) = 48 + unat sz" using sz by (simp add: unat_word_ariths)
  then have lim: "unat (OB_HDR + sz) \<le> 2 ^ 61" using sz by simp
  from c t0 obtain h p where a: "ExAllocatePoolWithTag NonPagedPool (OB_HDR + sz) 0x6A624F (pool s) = Some (h, p)"
    by (auto simp: ObCreateObject_def split: bind_splits)
  show ?thesis
  proof (cases "h = 0")
    case True
    then have s': "s' = s\<lparr>pool := p\<rparr>" "st = STATUS_NO_MEMORY" using c a t0 by (auto simp: ObCreateObject_def)
    have "pool_rel p L" using pool.alloc_null [OF rel lim a [unfolded True]] .
    then have "ob_inv s' L B held"
      using inv s' by (simp add: ob_inv_def)
    then show ?thesis using s' by (intro failure) simp_all
  next
    case False
    have n: "L h = None" and rel': "pool_rel p (L(h \<mapsto> 48 + unat sz))" using pool.alloc_some [OF rel lim a False] tot by simp_all
    have ob: "ob = ObObjectFromHeader h" "st = STATUS_SUCCESS" and s': "pool s' = p"
      "headers s' = (headers s)(h := \<lparr>PointerCount = 1, HandleCount = 0, oh_Type = type, oh_Name = None, ParentDirectory = 0\<rparr>)"
      "files s' = (files s)(ob := zero_file)" "g_handles s' = g_handles s" "directories s' = directories s"
      "g_type_list s' = g_type_list s" "ob_state.more s' = ob_state.more s" "ObRootDirectory s' = ObRootDirectory s"
      "ObpDirectoryType s' = ObpDirectoryType s" "DeleteProcedure (types s' t) = DeleteProcedure (types s t)" for t
      using c a t0 False by (auto simp: ObCreateObject_def Let_def)
    have hB: "h \<notin> B" "h \<notin> set (g_type_list s)" using bl n by (auto simp: blocks_ok_def)
    have hob: "ObHeaderFromObject ob = h" by (simp add: ob)
    have held0: "held ob = 0" using inv hB hob by (auto simp: ob_inv_def)
    have dir0: "directories s ob = []" using nm hB hob by (auto simp: names_ok_def)
    have "pool_rel (pool s') (L(h \<mapsto> 48 + unat sz))" using rel' s' by simp
    then have z: "ob \<noteq> 0"
    proof -
      have "unat h + (48 + unat sz) < 2 ^ 64" using pool_live_fits [OF rel', of h] by simp
      then have "unat ob = unat h + 48" by (simp add: ob ObObjectFromHeader_def unat_word_ariths)
      then show ?thesis by auto
    qed
    have h0: "handles_of s' ob = {}" using inv hB hob z by (auto simp: handles_of_def ob_inv_def s')
    have ho: "handles_of s' x = handles_of s x" for x by (simp add: handles_of_def s')
    have f: "file_data s' h = 0" "k \<noteq> h \<Longrightarrow> file_data s' k = file_data s k" for k
      by (auto simp: file_data_def s' ob zero_file_def)
    have "blocks_ok s' (L(h \<mapsto> 48 + unat sz)) (insert h B)"
      by (rule blocks_insert [OF bl hB(1) n, of "48 + unat sz"]) (use ty in \<open>auto simp: s' f\<close>)
    moreover have "names_ok s' (insert h B)" by (rule names_insert [OF nm hB(1)]) (simp_all add: s')
    moreover have "header_ok s' (held(ob := 1)) k" if "k \<in> insert h B" for k
    proof (cases "k = h")
      case True
      then show ?thesis using h0 by (simp add: header_ok_def nrefs_def ob(1) [symmetric] linked_def hob s')
    next
      case False
      then have "ObObjectFromHeader k \<noteq> ob" by (simp add: ob)
      then show ?thesis using inv that False by (simp add: ob_inv_def header_ok_def nrefs_def ho linked_def s')
    qed
    ultimately have "ob_inv s' (L(h \<mapsto> 48 + unat sz)) (insert h B) (held(ob := 1))"
      using inv rel' hob by (auto simp: ob_inv_def s' split: if_splits)
    then show ?thesis using ob hB n held0 dir0 hob s' by (intro success) simp_all
  qed
qed

section \<open>Handles\<close>

lemma unat_handle: "i < OB_MAX_HANDLES \<Longrightarrow> unat (index_to_handle i) = (unat i + 1) * 4"
proof -
  assume "i < OB_MAX_HANDLES"
  then have "unat i < 4096" by (simp add: word_less_nat_alt)
  moreover then have "unat ((i + 1) * 4) = (unat i + 1) * 4" by (simp add: unat_word_ariths)
  ultimately show ?thesis by (simp add: index_to_handle_def unat_ucast_up)
qed

lemma and_3_mod: "(x :: u64) AND 3 = x mod 4"
  using take_bit_eq_mask [of 2 x] by (simp add: mask_eq_exp_minus_1 take_bit_eq_mod)

lemma handle_to_index_iff: "handle_to_index h = Some i \<longleftrightarrow> i < OB_MAX_HANDLES \<and> h = index_to_handle i"
proof
  assume r: "handle_to_index h = Some i"
  then have h: "h \<noteq> 0" "h mod 4 = 0" "h div 4 - 1 < 4096" "i = ucast (h div 4 - 1)"
    by (auto simp: handle_to_index_def Let_def and_3_mod split: if_splits)
  have m: "unat h mod 4 = 0" using h(2) by (simp add: word_unat_eq_iff unat_mod)
  have "unat h \<noteq> 0" using h(1) by (simp add: unat_eq_zero)
  then have "unat h div 4 \<noteq> 0" using m by auto
  then have "h div 4 \<noteq> 0" by (simp add: word_unat_eq_iff unat_div)
  then have u: "unat (h div 4 - 1) = unat h div 4 - 1" by (simp add: unat_minus_one unat_div)
  have lt: "unat h div 4 - 1 < 4096" using h(3) u by (simp add: word_less_nat_alt)
  then have ui: "unat i = unat h div 4 - 1" using h(4) u by (simp add: unat_ucast_small)
  then have il: "i < OB_MAX_HANDLES" using lt by (simp add: word_less_nat_alt)
  have "unat (index_to_handle i) = unat h"
    using unat_handle [OF il] ui m \<open>unat h div 4 \<noteq> 0\<close> by (simp add: algebra_simps) presburger
  then show "i < OB_MAX_HANDLES \<and> h = index_to_handle i" using il by (simp add: word_unat_eq_iff)
next
  assume a: "i < OB_MAX_HANDLES \<and> h = index_to_handle i"
  then have u: "unat h = (unat i + 1) * 4" and il: "unat i < 4096" using unat_handle by (auto simp: word_less_nat_alt)
  have "h \<noteq> 0" using u by auto
  moreover have "h mod 4 = 0" using u by (simp add: word_unat_eq_iff unat_mod)
  moreover have d: "unat (h div 4) = unat i + 1" using u by (simp add: unat_div)
  moreover have d1: "unat (h div 4 - 1) = unat i" using d by (subst unat_minus_one) auto
  moreover have "ucast (h div 4 - 1) = i" using d1 il by (simp add: word_unat_eq_iff unat_ucast_small)
  ultimately show "handle_to_index h = Some i"
    using il by (simp add: handle_to_index_def Let_def and_3_mod word_le_nat_alt)
qed

text \<open>The object a handle stands for, 0 for a value that is no open handle.\<close>

definition handle_object :: "'z ob_state_scheme \<Rightarrow> u64 \<Rightarrow> u64" where
  "handle_object s h = (case handle_to_index h of None \<Rightarrow> 0 | Some i \<Rightarrow> he_Object (g_handles s i))"

lemma handle_object_live:
  assumes "ob_inv s L B held" "handle_object s h \<noteq> 0"
  shows "ObHeaderFromObject (handle_object s h) \<in> B"
proof (cases "handle_to_index h")
  case (Some i)
  then have "i < OB_MAX_HANDLES" "handle_object s h = he_Object (g_handles s i)"
    using handle_to_index_iff [of h i] by (simp_all add: handle_object_def)
  then show ?thesis using assms by (auto simp: ob_inv_def)
qed (use assms in \<open>simp add: handle_object_def\<close>)

lemma handle_object_update:
  assumes "i < OB_MAX_HANDLES" "g_handles s' = (g_handles s)(i := e)"
  shows "handle_object s' = (handle_object s)(index_to_handle i := he_Object e)"
proof
  fix h
  show "handle_object s' h = ((handle_object s)(index_to_handle i := he_Object e)) h"
  proof (cases "handle_to_index h")
    case None
    then have "h \<noteq> index_to_handle i" using handle_to_index_iff [of h i] assms(1) by auto
    then show ?thesis using None by (simp add: handle_object_def)
  next
    case (Some j)
    then have j: "h = index_to_handle j" using handle_to_index_iff by blast
    have "h = index_to_handle i \<longleftrightarrow> j = i"
      using Some handle_to_index_iff [of h i] assms(1) j by auto
    then show ?thesis using Some assms(2) by (simp add: handle_object_def)
  qed
qed

lemma handle_nonzero: "i < OB_MAX_HANDLES \<Longrightarrow> index_to_handle i \<noteq> 0"
  using unat_handle [of i] by auto

lemma ob_reference_by_handle:
  assumes inv: "ob_inv s L B held" and b: "held (handle_object s hnd) < 2 ^ 30"
    and c: "ObReferenceObjectByHandle hnd desired ty s = (st, ob, s')"
  shows "st = STATUS_SUCCESS \<and> ob = handle_object s hnd \<and> ob \<noteq> 0 \<and> s' = ObReferenceObject ob s \<and>
      ob_inv s' L B (held(ob := Suc (held ob))) \<and> (ty \<noteq> 0 \<longrightarrow> oh_Type (headers s (ObHeaderFromObject ob)) = ty) \<or>
    st \<in> {STATUS_INVALID_HANDLE, STATUS_OBJECT_TYPE_MISMATCH, STATUS_ACCESS_DENIED} \<and> s' = s \<and> ob = 0"
proof (cases "handle_object s hnd = 0")
  case True
  then show ?thesis using c
    by (auto simp: ObReferenceObjectByHandle_def handle_object_def split: option.splits)
next
  case False
  then obtain i where i: "handle_to_index hnd = Some i" "he_Object (g_handles s i) = handle_object s hnd"
    by (auto simp: handle_object_def split: option.splits)
  have "ob_inv (ObReferenceObject (handle_object s hnd) s) L B
      (held(handle_object s hnd := Suc (held (handle_object s hnd))))"
    using ob_reference [OF inv handle_object_live [OF inv False] b] .
  then show ?thesis using c False i
    by (auto simp: ObReferenceObjectByHandle_def Let_def split: if_splits)
qed

lemma handles_remove:
  assumes "i < OB_MAX_HANDLES" "he_Object (g_handles s i) = ob" "ob \<noteq> 0"
    "g_handles s' = (g_handles s)(i := \<lparr>he_Object = 0, GrantedAccess = 0\<rparr>)"
  shows "Suc (card (handles_of s' ob)) = card (handles_of s ob)" "x \<noteq> ob \<Longrightarrow> x \<noteq> 0 \<Longrightarrow> handles_of s' x = handles_of s x"
proof -
  have "handles_of s' ob = handles_of s ob - {i}" "i \<in> handles_of s ob" using assms by (auto simp: handles_of_def)
  then show "Suc (card (handles_of s' ob)) = card (handles_of s ob)" by (metis card_Suc_Diff1 finite_handles)
  show "x \<noteq> ob \<Longrightarrow> x \<noteq> 0 \<Longrightarrow> handles_of s' x = handles_of s x" using assms by (auto simp: handles_of_def)
qed

text \<open>Closing moves the handle's reference to the closing code, which then drops it.\<close>

lemma close_transfer:
  assumes inv: "ob_inv s L B held" and b: "held ob < 2 ^ 30" and i: "i < OB_MAX_HANDLES" "he_Object (g_handles s i) = ob" "ob \<noteq> 0"
    and s': "g_handles s' = (g_handles s)(i := \<lparr>he_Object = 0, GrantedAccess = 0\<rparr>)"
      "headers s' = (headers s)(ObHeaderFromObject ob := (headers s (ObHeaderFromObject ob))\<lparr>
         HandleCount := HandleCount (headers s (ObHeaderFromObject ob)) - 1\<rparr>)"
    and sh: "same_shape s s'"
  shows "ob_inv s' L B (held(ob := Suc (held ob)))" and "nrefs s' (held(ob := Suc (held ob))) ob = nrefs s held ob"
proof -
  note ho = handles_remove [OF i s'(1)]
  show n: "nrefs s' (held(ob := Suc (held ob))) ob = nrefs s held ob"
    using ho(1) by (simp add: nrefs_def same_shape_simps [OF sh])
  have hB: "ObHeaderFromObject ob \<in> B" using inv i by (auto simp: ob_inv_def)
  show "ob_inv s' L B (held(ob := Suc (held ob)))"
  proof (rule ob_inv_shape [OF sh inv])
    fix k assume k: "k \<in> B"
    have ok: "header_ok s held k" using inv k by (simp add: ob_inv_def)
    show "header_ok s' (held(ob := Suc (held ob))) k"
    proof (cases "ObObjectFromHeader k = ob")
      case True
      then have hk: "HandleCount (headers s (ObHeaderFromObject ob)) = of_nat (card (handles_of s ob))"
        using ok by (auto simp: header_ok_def)
      have "of_nat (card (handles_of s ob)) - 1 = (of_nat (card (handles_of s' ob)) :: u32)"
        using ho(1) by (simp flip: ho(1))
      then show ?thesis using ok True n hk by (auto simp: header_ok_def s')
    next
      case False
      then have "k \<noteq> ObHeaderFromObject ob" by auto
      then show ?thesis using ok False ho(2) ob_live_nonzero [OF inv k]
        by (simp add: header_ok_def nrefs_def same_shape_simps [OF sh] s')
    qed
  qed (use inv hB s' in \<open>auto simp: ob_inv_def split: if_splits\<close>)
qed

lemma ob_close:
  assumes inv: "ob_inv s L B held" and b: "held ob < 2 ^ 30" and ob: "ob = handle_object s hnd" "ob \<noteq> 0"
    and dir: "nrefs s held ob = 1 \<Longrightarrow> directories s ob = []"
  obtains s' L' B' where "ObCloseHandle hnd s = Some (STATUS_SUCCESS, s')" "ob_inv s' L' B' held"
    "B' = (if nrefs s held ob = 1 then B - {ObHeaderFromObject ob} else B)" "ob_state.more s' = ob_state.more s"
    "handle_object s' = (handle_object s)(hnd := 0)" "dom L' \<subseteq> dom L"
    "\<And>k. oh_Type (headers s' k) = oh_Type (headers s k)" "directories s' = directories s"
    "g_type_list s' = g_type_list s" "ObRootDirectory s' = ObRootDirectory s" "ObpDirectoryType s' = ObpDirectoryType s"
    "files s' = files s" "\<And>t. DeleteProcedure (types s' t) = DeleteProcedure (types s t)" "\<And>x. x \<notin> ob_own s B \<Longrightarrow> L' x = L x"
proof -
  from ob obtain i where i: "handle_to_index hnd = Some i" "he_Object (g_handles s i) = ob"
    by (auto simp: handle_object_def split: option.splits)
  then have il: "i < OB_MAX_HANDLES" "hnd = index_to_handle i" by (auto simp: handle_to_index_iff)
  define h where "h = ObHeaderFromObject ob"
  define s3 where "s3 = upd_type (oh_Type (headers s h))
      (\<lambda>t. t\<lparr>TotalHandles := (if TotalHandles t \<noteq> 0 then TotalHandles t - 1 else TotalHandles t)\<rparr>)
      (upd_header h (\<lambda>h. h\<lparr>HandleCount := HandleCount h - 1\<rparr>)
        (s\<lparr>g_handles := (g_handles s)(i := \<lparr>he_Object = 0, GrantedAccess = 0\<rparr>)\<rparr>))"
  have s3: "g_handles s3 = (g_handles s)(i := \<lparr>he_Object = 0, GrantedAccess = 0\<rparr>)"
    "headers s3 = (headers s)(ObHeaderFromObject ob := (headers s (ObHeaderFromObject ob))\<lparr>
         HandleCount := HandleCount (headers s (ObHeaderFromObject ob)) - 1\<rparr>)"
    and sh: "same_shape s s3"
    by (simp_all add: s3_def h_def same_shape_def)
  have c: "ObCloseHandle hnd s = map_option (\<lambda>s4. (STATUS_SUCCESS, s4)) (ObDereferenceObject ob s3)"
    using i ob(2) by (simp add: ObCloseHandle_def Let_def s3_def h_def map_option_bind comp_def flip: bind_map_option)
      (cases "ObDereferenceObject ob s3"; simp add: s3_def h_def)
  note tr = close_transfer [OF inv b il(1) i(2) ob(2) s3 sh]
  have dirs: "directories s3 ob = directories s ob" by (simp add: s3_def)
  obtain s' L' B' where d: "ObDereferenceObject ob s3 = Some s'"
    "ob_inv s' L' B' ((held(ob := Suc (held ob)))(ob := (held(ob := Suc (held ob))) ob - 1))"
    "B' = (if nrefs s3 (held(ob := Suc (held ob))) ob = 1 then B - {ObHeaderFromObject ob} else B)"
    "ob_state.more s' = ob_state.more s3" "g_handles s' = g_handles s3"
    "\<And>k. k \<noteq> ObHeaderFromObject ob \<Longrightarrow> headers s' k = headers s3 k" "dom L' \<subseteq> dom L"
    "ObRootDirectory s' = ObRootDirectory s3" "ObpDirectoryType s' = ObpDirectoryType s3"
    "directories s' = directories s3" "g_type_list s' = g_type_list s3" "files s' = files s3"
    "\<And>t. DeleteProcedure (types s' t) = DeleteProcedure (types s3 t)"
    "\<And>k. oh_Type (headers s' k) = oh_Type (headers s3 k)" "\<And>x. x \<notin> ob_own s3 B \<Longrightarrow> L' x = L x"
    by (rule ob_dereference [OF tr(1), of ob]) (use dir dirs tr(2) in auto)
  have "handle_object s' = handle_object s3" using d(5) by (intro ext) (simp add: handle_object_def split: option.split)
  then have ho: "handle_object s' = (handle_object s)(hnd := 0)"
    using handle_object_update [OF il(1) s3(1)] il(2) by simp
  have "held(ob := Suc (held ob), ob := (held(ob := Suc (held ob))) ob - 1) = held" by auto
  moreover have "ob_own s3 B = ob_own s B" by (auto simp: ob_own_def file_data_def s3_def)
  ultimately show ?thesis
    using d c ho tr(2) by (intro that [of s' L' B']) (auto simp: s3_def)
qed

section \<open>The namespace\<close>

lemma find_entry_spec:
  "find_entry hs es nm = Some e \<Longrightarrow> e \<in> set es \<and> oh_Name (hs e) = Some nm"
  "find_entry hs es nm = None \<longleftrightarrow> (\<forall>e \<in> set es. oh_Name (hs e) \<noteq> Some nm)"
  by (induction es) (auto split: if_splits)

lemma ob_insert:
  assumes inv: "ob_inv s L B held" and d: "ObHeaderFromObject dir \<in> B" and o: "ObHeaderFromObject ob \<in> B"
    and un: "\<not> linked s (ObHeaderFromObject ob)" and b: "held ob < 2 ^ 30"
    and c: "ObInsertObjectByName dir name ob s = (st, s')"
  shows "ob_inv s' L B held \<and>
    (st = STATUS_SUCCESS \<and> ObpFindInDirectory s dir name = None \<and>
       headers s' = (headers s)(ObHeaderFromObject ob := (headers s (ObHeaderFromObject ob))\<lparr>oh_Name := Some name,
         ParentDirectory := dir, PointerCount := PointerCount (headers s (ObHeaderFromObject ob)) + 1\<rparr>) \<and>
       directories s' = (directories s)(dir := directories s dir @ [ObHeaderFromObject ob]) \<or>
     st = STATUS_OBJECT_NAME_COLLISION \<and> s' = s \<and> ObpFindInDirectory s dir name \<noteq> None)"
proof -
  have nz: "dir \<noteq> 0" "ob \<noteq> 0" using ob_live_nonzero [OF inv d] ob_live_nonzero [OF inv o] by auto
  define h where "h = ObHeaderFromObject ob"
  have ho: "ObObjectFromHeader h = ob" by (simp add: h_def)
  show ?thesis
  proof (cases "ObpFindInDirectory s dir name")
    case (Some e)
    then show ?thesis using c nz inv by (auto simp: ObInsertObjectByName_def)
  next
    case None
    have s': "headers s' = (headers s)(h := (headers s h)\<lparr>oh_Name := Some name,
         ParentDirectory := dir, PointerCount := PointerCount (headers s h) + 1\<rparr>)"
      "directories s' = (directories s)(dir := directories s dir @ [h])" "pool s' = pool s" "g_handles s' = g_handles s"
      "files s' = files s" "g_type_list s' = g_type_list s" "types s' = types s" "st = STATUS_SUCCESS"
      using c None nz by (auto simp: ObInsertObjectByName_def ObReferenceObject_def Let_def h_def)
    have nm: "names_ok s B" using inv by (simp add: ob_inv_def)
    have out: "h \<notin> set (directories s d')" for d' using names_okD(1) [OF nm, of h d'] un by (auto simp: linked_def h_def)
    have fresh: "oh_Name (headers s e) \<noteq> Some name" if "e \<in> set (directories s dir)" for e
      using None that find_entry_spec(2) [of "headers s" "directories s dir" name] by (auto simp: ObpFindInDirectory_def)
    have "names_ok s' B"
    proof (rule names_okI)
      fix k d'
      have same: "headers s' x = headers s x" if "x \<in> set (directories s d')" for x using out that by (auto simp: s')
      show "k \<in> set (directories s' d') \<longleftrightarrow> d' \<noteq> 0 \<and> k \<in> B \<and> ParentDirectory (headers s' k) = d'"
        using names_okD(1) [OF nm, of k d'] out [of d'] nz o un by (auto simp: s' h_def [symmetric] linked_def)
      show "distinct (directories s' d')" using names_okD(2) [OF nm] out [of dir] by (simp add: s')
      show "ObHeaderFromObject d' \<in> B" if "directories s' d' \<noteq> []"
        using that names_okD(3) [OF nm, of d'] d by (auto simp: s' split: if_splits)
      show "inj_on (\<lambda>h. oh_Name (headers s' h)) (set (directories s' d'))"
      proof (cases "d' = dir")
        case True
        have "inj_on (\<lambda>h. oh_Name (headers s' h)) (set (directories s dir))"
          using names_okD(4) [OF nm, of dir] same True by (simp add: inj_on_def)
        moreover have "oh_Name (headers s' h) \<notin> (\<lambda>h. oh_Name (headers s' h)) ` set (directories s dir)"
          using fresh same True by (auto simp: s') (metis fresh)
        moreover have "set (directories s' d') = insert h (set (directories s dir))" using True by (simp add: s')
        ultimately show ?thesis using out [of dir] by (simp only: inj_on_insert) simp
      next
        case False
        then show ?thesis using names_okD(4) [OF nm, of d'] same by (simp add: s' inj_on_def)
      qed
      show "oh_Name (headers s' k) \<noteq> None" if "k \<in> set (directories s' d')"
        using that names_okD(5) [OF nm, of k d'] same [of k] by (auto simp: s' split: if_splits)
    qed
    moreover have "blocks_ok s' L B"
    proof -
      have "file_data s' k = file_data s k" for k by (simp add: file_data_def s')
      then show ?thesis using inv by (simp add: ob_inv_def blocks_ok_def s')
    qed
    moreover have "header_ok s' held k" if k: "k \<in> B" for k
    proof (cases "k = h")
      case True
      have "nrefs s' held ob = Suc (nrefs s held ob)"
        using un nz by (simp add: nrefs_def handles_of_def linked_def s' h_def)
      moreover have "header_ok s held h" using inv k True by (simp add: ob_inv_def)
      ultimately show ?thesis using True ho nrefs_bound [of s held ob] b
        by (auto simp: header_ok_def s' handles_of_def)
    next
      case False
      then show ?thesis using inv k by (simp add: ob_inv_def header_ok_def nrefs_def handles_of_def linked_def s')
    qed
    ultimately show ?thesis using inv None s' by (simp add: ob_inv_def h_def)
  qed
qed

lemma find_live:
  assumes "names_ok s B" "ObpFindInDirectory s d nm = Some h"
  shows "h \<in> B" "h \<in> set (directories s d)" "oh_Name (headers s h) = Some nm"
  using assms find_entry_spec(1) [of "headers s" "directories s d" nm h] names_okD(1) [of s B h d]
  by (auto simp: ObpFindInDirectory_def)

lemma lookup_loop_live: "lookup_loop s d p = Inr h \<Longrightarrow> names_ok s B \<Longrightarrow> h \<in> B"
proof (induction s d p rule: lookup_loop.induct)
  case (1 s d p)
  show ?case
    using 1(2) find_live(1) [OF 1(3), of d] 1(1) [OF refl refl _ _ _ _ _ 1(3)]
    by (subst (asm) lookup_loop.simps) (auto simp: Let_def split: if_splits option.splits)
qed

lemma ob_lookup:
  assumes inv: "ob_inv s L B held" and r: "ObHeaderFromObject (ObRootDirectory s) \<in> B" and b: "held ob < 2 ^ 30"
    and c: "ObLookupObjectByName path s = (st, ob, s')"
  shows "st = STATUS_SUCCESS \<and> ObHeaderFromObject ob \<in> B \<and> s' = ObReferenceObject ob s \<and>
      ob_inv s' L B (held(ob := Suc (held ob))) \<or>
    st \<in> {STATUS_OBJECT_NAME_INVALID, STATUS_OBJECT_PATH_NOT_FOUND, STATUS_OBJECT_NAME_NOT_FOUND} \<and> s' = s \<and> ob = 0"
proof -
  have nm: "names_ok s B" using inv by (simp add: ob_inv_def)
  have err: "lookup_loop s d p = Inl e \<Longrightarrow>
      e \<in> {STATUS_OBJECT_NAME_INVALID, STATUS_OBJECT_PATH_NOT_FOUND, STATUS_OBJECT_NAME_NOT_FOUND}" for d p e
    by (induction s d p rule: lookup_loop.induct)
       (subst (asm) (2) lookup_loop.simps, auto simp: Let_def split: if_splits option.splits)
  show ?thesis
  proof (cases "path = [] \<or> hd path \<noteq> BACKSLASH")
    case True
    then show ?thesis using c by (auto simp: ObLookupObjectByName_def)
  next
    case False
    show ?thesis
    proof (cases "tl path = []")
      case True
      then have "ob = ObRootDirectory s" using c False by (simp add: ObLookupObjectByName_def)
      then show ?thesis using True c False ob_reference [OF inv r] b r by (auto simp: ObLookupObjectByName_def)
    next
      case nt: False
      show ?thesis
      proof (cases "lookup_loop s (ObRootDirectory s) (tl path)")
        case (Inl e)
        then show ?thesis using c False nt err [OF Inl] by (auto simp: ObLookupObjectByName_def)
      next
        case (Inr h)
        then have "h \<in> B" using lookup_loop_live nm by blast
        then show ?thesis using c False nt Inr ob_reference [OF inv, of "ObObjectFromHeader h"] b
          by (auto simp: ObLookupObjectByName_def)
      qed
    qed
  qed
qed

section \<open>Initialisation and directories\<close>

lemma names_ok_cong:
  "headers s' = headers s \<Longrightarrow> directories s' = directories s \<Longrightarrow> names_ok s' B = names_ok s B"
  by (simp only: names_ok_def)

lemma ob_inv_pool:
  assumes inv: "ob_inv s L B held" and rel: "pool_rel p L'" and same: "\<And>x. x \<in> ob_own s B \<Longrightarrow> L' x = L x"
  shows "ob_inv (s\<lparr>pool := p\<rparr>) L' B held"
proof -
  have bl: "blocks_ok s L B" using inv by (simp add: ob_inv_def)
  have fd: "file_data (s\<lparr>pool := p\<rparr>) = file_data s" by (simp add: file_data_def fun_eq_iff)
  have e: "L' x = L x" if "x \<in> B \<or> x \<in> set (g_type_list s) \<or> x \<in> file_data s ` B" for x using that same by (auto simp: ob_own_def)
  have "blocks_ok (s\<lparr>pool := p\<rparr>) L' B"
    unfolding blocks_ok_def fd
  proof (intro conjI ballI impI)
    fix h assume h: "h \<in> B"
    then show "\<exists>n \<ge> 48. L' h = Some n" using bl e by (auto simp: blocks_ok_def)
    show "oh_Type (headers (s\<lparr>pool := p\<rparr>) h) \<in> set (g_type_list (s\<lparr>pool := p\<rparr>))" using bl h by (simp add: blocks_ok_def)
    assume "file_data s h \<noteq> 0"
    then have "file_data s h \<in> dom L - B - set (g_type_list s)" using bl h by (simp add: blocks_ok_def)
    moreover have "L' (file_data s h) = L (file_data s h)" using h by (intro e) auto
    ultimately show "file_data s h \<in> dom L' - B - set (g_type_list (s\<lparr>pool := p\<rparr>))" by (auto simp: dom_def)
  next
    show "set (g_type_list (s\<lparr>pool := p\<rparr>)) \<subseteq> dom L'"
    proof
      fix x assume "x \<in> set (g_type_list (s\<lparr>pool := p\<rparr>))"
      then have "x \<in> dom L" "L' x = L x" using bl e by (auto simp: blocks_ok_def)
      then show "x \<in> dom L'" by (simp add: dom_def)
    qed
    show "B \<inter> set (g_type_list (s\<lparr>pool := p\<rparr>)) = {}" using bl by (simp add: blocks_ok_def)
  next
    fix h k assume "h \<in> B" "k \<in> B" "file_data s h = file_data s k" "file_data s h \<noteq> 0"
    then show "h = k" using bl unfolding blocks_ok_def by blast
  qed
  then show ?thesis
    using inv rel names_ok_cong [of "s\<lparr>pool := p\<rparr>" s B] header_ok_cong [of "s\<lparr>pool := p\<rparr>" s held] by (simp add: ob_inv_def)
qed

lemma ob_create_type:
  assumes inv: "ob_inv s L B held" and c: "ObCreateObjectType name del s = Some (t, s')"
  obtains (success) "t \<noteq> 0" "ob_inv s' (L(t \<mapsto> 48)) B held" "g_type_list s' = g_type_list s @ [t]"
      "DeleteProcedure (types s' t) = del" "headers s' = headers s" "g_handles s' = g_handles s"
      "directories s' = directories s" "ob_state.more s' = ob_state.more s" "files s' = files s" "L t = None"
    | (failure) "t = 0" "ob_inv s' L B held" "g_type_list s' = g_type_list s" "headers s' = headers s" "g_handles s' = g_handles s"
      "directories s' = directories s" "ob_state.more s' = ob_state.more s"
proof -
  have rel: "pool_rel (pool s) L" and bl: "blocks_ok s L B" using inv by (simp_all add: ob_inv_def)
  from c obtain p where a: "ExAllocatePoolWithTag NonPagedPool 48 0x65707954 (pool s) = Some (t, p)"
    by (auto simp: ObCreateObjectType_def Let_def split: bind_splits if_splits)
  show ?thesis
  proof (cases "t = 0")
    case True
    then have s': "s' = s\<lparr>pool := p\<rparr>" using c a by (simp add: ObCreateObjectType_def)
    have "pool_rel p L" using pool.alloc_null [OF rel _ a [unfolded True]] by simp
    then show ?thesis using inv s' True by (intro failure) (simp_all add: ob_inv_def)
  next
    case False
    have n: "L t = None" and rel': "pool_rel p (L(t \<mapsto> 48))" using pool.alloc_some [OF rel _ a False] by simp_all
    have s': "pool s' = p" "headers s' = headers s" "g_handles s' = g_handles s" "directories s' = directories s"
      "files s' = files s" "g_type_list s' = g_type_list s @ [t]" "ob_state.more s' = ob_state.more s"
      "types s' = (types s)(t := \<lparr>ot_Name = name, TotalObjects = 0, TotalHandles = 0, DeleteProcedure = del\<rparr>)"
      using c a False by (auto simp: ObCreateObjectType_def)
    have tB: "t \<notin> B" "t \<notin> set (g_type_list s)"
      using n blocks_okD(1) [OF bl, of t] blocks_okD(2) [OF bl, of t] by auto
    have f: "file_data s' k = file_data s k" if "k \<in> B" for k
      using blocks_okD(3) [OF bl that] tB by (auto simp: file_data_def s')
    have "blocks_ok s' (L(t \<mapsto> 48)) B"
    proof (rule blocks_okI)
      fix k assume k: "k \<in> B"
      show "\<exists>m \<ge> 48. (L(t \<mapsto> 48)) k = Some m" using blocks_okD(1) [OF bl k] k tB by auto
      show "oh_Type (headers s' k) \<in> set (g_type_list s')" using blocks_okD(3) [OF bl k] by (simp add: s')
      show "file_data s' k \<in> dom (L(t \<mapsto> 48)) - B - set (g_type_list s')" if "file_data s' k \<noteq> 0"
        using that blocks_okD(4) [OF bl k] n by (auto simp: f k s')
      show "k = j" if "j \<in> B" "file_data s' k = file_data s' j" "file_data s' k \<noteq> 0" for j
        using that blocks_okD(5) [OF bl k that(1)] by (simp add: f k)
    next
      fix u assume "u \<in> set (g_type_list s')"
      then show "u \<in> dom (L(t \<mapsto> 48)) \<and> u \<notin> B" using blocks_okD(2) [OF bl, of u] tB by (auto simp: s')
    qed
    moreover have "names_ok s' B" using inv names_ok_cong [of s' s B] by (simp add: ob_inv_def s')
    ultimately have "ob_inv s' (L(t \<mapsto> 48)) B held"
      using inv rel' header_ok_cong [of s' s held] by (simp add: ob_inv_def s')
    then show ?thesis using False n s' by (intro success) simp_all
  qed
qed

text \<open>The object manager's state before \<^verbatim>\<open>ObInitialize\<close>: no objects.\<close>

definition ob_boot :: "'z ob_state_scheme \<Rightarrow> bool" where
  "ob_boot s \<longleftrightarrow> directories s = (\<lambda>_. []) \<and> g_handles s = (\<lambda>_. \<lparr>he_Object = 0, GrantedAccess = 0\<rparr>)"

lemma ob_inv_boot: "pool_rel (pool s) L \<Longrightarrow> ob_boot s \<Longrightarrow> ob_inv (s\<lparr>g_type_list := []\<rparr>) L {} (\<lambda>_. 0)"
  by (simp add: ob_inv_def blocks_ok_def names_ok_def ob_boot_def)

lemma NT_SUCCESS_simps [simp]:
  "NT_SUCCESS STATUS_SUCCESS" "\<not> NT_SUCCESS STATUS_NO_MEMORY" "\<not> NT_SUCCESS STATUS_INVALID_PARAMETER"
  "\<not> NT_SUCCESS STATUS_INVALID_HANDLE" "\<not> NT_SUCCESS STATUS_OBJECT_TYPE_MISMATCH" "\<not> NT_SUCCESS STATUS_ACCESS_DENIED"
  "\<not> NT_SUCCESS STATUS_INSUFFICIENT_RESOURCES" "\<not> NT_SUCCESS STATUS_OBJECT_NAME_COLLISION"
  "\<not> NT_SUCCESS STATUS_OBJECT_NAME_INVALID" "\<not> NT_SUCCESS STATUS_OBJECT_PATH_NOT_FOUND"
  "\<not> NT_SUCCESS STATUS_OBJECT_NAME_NOT_FOUND" "\<not> NT_SUCCESS STATUS_ACCESS_VIOLATION"
  by (simp_all add: NT_SUCCESS_def)

lemma ob_inv_name:
  assumes inv: "ob_inv s L B held" and u: "\<not> linked s h" "h \<in> B"
  shows "ob_inv (upd_header h (\<lambda>x. x\<lparr>oh_Name := nm\<rparr>) s) L B held"
proof -
  let ?s = "upd_header h (\<lambda>x. x\<lparr>oh_Name := nm\<rparr>) s"
  have nm: "names_ok s B" using inv by (simp add: ob_inv_def)
  have out: "h \<notin> set (directories s d)" for d using names_okD(1) [OF nm, of h d] u by (auto simp: linked_def)
  have same: "headers ?s k = headers s k" if "k \<in> set (directories s d)" for k d using out [of d] that by auto
  have "names_ok ?s B"
  proof (rule names_okI)
    fix k d
    show "k \<in> set (directories ?s d) \<longleftrightarrow> d \<noteq> 0 \<and> k \<in> B \<and> ParentDirectory (headers ?s k) = d"
      using names_okD(1) [OF nm, of k d] by simp
    show "distinct (directories ?s d)" using names_okD(2) [OF nm] by simp
    show "ObHeaderFromObject d \<in> B" if "directories ?s d \<noteq> []" using that names_okD(3) [OF nm] by simp
    show "inj_on (\<lambda>h. oh_Name (headers ?s h)) (set (directories ?s d))"
      using names_okD(4) [OF nm, of d] same unfolding inj_on_def by (simp del: upd_simps(1))
    show "oh_Name (headers ?s k) \<noteq> None" if "k \<in> set (directories ?s d)"
      using that names_okD(5) [OF nm, of k d] same [of k d] by (simp del: upd_simps(1)) 
  qed
  moreover have "blocks_ok ?s L B"
  proof -
    have "file_data ?s k = file_data s k" for k by (simp add: file_data_def)
    then show ?thesis using inv by (simp add: ob_inv_def blocks_ok_def)
  qed
  moreover have "header_ok ?s held k" if "k \<in> B" for k
  proof -
    have "handles_of ?s x = handles_of s x" "linked ?s y = linked s y" for x y by (simp_all add: handles_of_def linked_def)
    then have "header_ok ?s held k = header_ok s held k" by (simp add: header_ok_def nrefs_def)
    then show ?thesis using inv that by (simp add: ob_inv_def)
  qed
  ultimately show ?thesis using inv by (simp add: ob_inv_def)
qed

lemma ob_initialize:
  assumes rel: "pool_rel (pool s) L" and boot: "ob_boot s" and c: "ObInitialize s = Some s'"
  shows "\<exists>L' B. ob_inv s' L' B ((\<lambda>_. 0)(ObRootDirectory s' := 1)) \<and> ObHeaderFromObject (ObRootDirectory s') \<in> B \<and>
    ObpDirectoryType s' \<in> set (g_type_list s') \<and> ob_state.more s' = ob_state.more s \<and>
    oh_Type (headers s' (ObHeaderFromObject (ObRootDirectory s'))) = ObpDirectoryType s' \<and> (\<forall>h. handle_object s' h = 0)"
proof -
  let ?s0 = "s\<lparr>g_type_list := []\<rparr>"
  from c obtain t s1 st root s3 where t: "ObCreateObjectType (cstr ''Directory'') ObpDirectoryDelete ?s0 = Some (t, s1)"
    and r: "ObCreateObject t 16 (s1\<lparr>ObpDirectoryType := t\<rparr>) = Some (st, root, s3)" and st: "NT_SUCCESS st"
    and s': "s' = ObInitializeHandleTable ((upd_header (ObHeaderFromObject root) (\<lambda>h. h\<lparr>oh_Name := Some [BACKSLASH]\<rparr>)
        (s3\<lparr>directories := (directories s3)(root := [])\<rparr>))\<lparr>ObRootDirectory := root\<rparr>)"
    by (auto simp: ObInitialize_def ObpInitializeNamespace_def Let_def split: bind_splits if_splits prod.splits)
  from ob_inv_boot [OF rel boot] t show ?thesis
  proof (cases rule: ob_create_type)
    case failure
    then show ?thesis using r st by (auto simp: ObCreateObject_def)
  next
    case success
    let ?s2 = "s1\<lparr>ObpDirectoryType := t\<rparr>"
    have inv2: "ob_inv ?s2 (L(t \<mapsto> 48)) {} (\<lambda>_. 0)" using success(2) ob_inv_cong [of ?s2 s1] by simp
    have ty: "t \<in> set (g_type_list ?s2)" using success(3) by simp
    have sz: "unat (16 :: u64) \<le> 2 ^ 60" by simp
    from inv2 ty sz r show ?thesis
    proof (cases rule: ob_create)
      case sc: success
      let ?h = "ObHeaderFromObject root"
      have "(directories s3)(root := []) = directories s3" using sc(6,7) by (simp add: fun_upd_idem)
      then have "s3\<lparr>directories := (directories s3)(root := [])\<rparr> = s3" by simp
      then have i3: "ob_inv (s3\<lparr>directories := (directories s3)(root := [])\<rparr>) ((L(t \<mapsto> 48))(?h \<mapsto> 48 + unat (16 :: u64))) {?h} ((\<lambda>_. 0)(root := 1))"
        using sc(5) by simp
      have "\<not> linked (s3\<lparr>directories := (directories s3)(root := [])\<rparr>) ?h" using sc(11) by (simp add: linked_def)
      from ob_inv_name [OF i3 this, of "Some [BACKSLASH]"]
      have i4: "ob_inv (upd_header ?h (\<lambda>h. h\<lparr>oh_Name := Some [BACKSLASH]\<rparr>) (s3\<lparr>directories := (directories s3)(root := [])\<rparr>))
          ((L(t \<mapsto> 48))(?h \<mapsto> 48 + unat (16 :: u64))) {?h} ((\<lambda>_. 0)(root := 1))" by simp
      have g: "g_handles s3 = (\<lambda>_. \<lparr>he_Object = 0, GrantedAccess = 0\<rparr>)"
        using sc(9) success(6) boot by (simp add: ob_boot_def)
      have "ob_inv s' ((L(t \<mapsto> 48))(?h \<mapsto> 48 + unat (16 :: u64))) {?h} ((\<lambda>_. 0)(root := 1))"
        using i4 ob_inv_cong [of s' "upd_header ?h (\<lambda>h. h\<lparr>oh_Name := Some [BACKSLASH]\<rparr>)
          (s3\<lparr>directories := (directories s3)(root := [])\<rparr>)"] by (simp add: s' ObInitializeHandleTable_def g)
      moreover have "ObRootDirectory s' = root" "ObpDirectoryType s' = t" "g_type_list s' = [t]"
        "ob_state.more s' = ob_state.more s" "oh_Type (headers s' ?h) = t" "handle_object s' x = 0" for x
        using sc success by (simp_all add: s' ObInitializeHandleTable_def handle_object_def split: option.split)
      ultimately show ?thesis by auto
    next
      case failure
      then show ?thesis using st by simp
    qed
  qed
qed


section \<open>The contract with the other components\<close>

text \<open>What the registry, the file system and the process manager rely on: \<open>rel s held\<close> is the invariant, \<open>held\<close> the
  references the client has taken and not yet dropped.\<close>

locale object_manager =
  fixes rel :: "'s \<Rightarrow> (u64 \<Rightarrow> nat) \<Rightarrow> bool" and known :: "'s \<Rightarrow> u64 set" and kids :: "'s \<Rightarrow> u64 \<Rightarrow> u64 list"
    and kind :: "'s \<Rightarrow> u64 \<Rightarrow> u64" and obj :: "'s \<Rightarrow> u64 \<Rightarrow> u64"
    and create :: "u64 \<Rightarrow> u64 \<Rightarrow> 's \<Rightarrow> (ntstatus \<times> u64 \<times> 's) option"
    and open_handle :: "u64 \<Rightarrow> u32 \<Rightarrow> 's \<Rightarrow> ntstatus \<times> u64 \<times> 's"
    and by_handle :: "u64 \<Rightarrow> u32 \<Rightarrow> u64 \<Rightarrow> 's \<Rightarrow> ntstatus \<times> u64 \<times> 's"
    and drop_ref :: "u64 \<Rightarrow> 's \<Rightarrow> 's option"
  assumes create_law: "rel s held \<Longrightarrow> ty \<in> known s \<Longrightarrow> unat n \<le> 2 ^ 60 \<Longrightarrow> create ty n s = Some (st, ob, s') \<Longrightarrow>
      known s' = known s \<and> obj s' = obj s \<and>
      (st = STATUS_SUCCESS \<and> held ob = 0 \<and> rel s' (held(ob := 1)) \<and> kids s' ob = [] \<and> kind s' ob = ty \<or>
       st = STATUS_NO_MEMORY \<and> rel s' held)"
    and open_law: "rel s held \<Longrightarrow> 0 < held ob \<Longrightarrow> held ob < 2 ^ 30 \<Longrightarrow> open_handle ob acc s = (st, h, s') \<Longrightarrow>
      rel s' held \<and> known s' = known s \<and> kids s' = kids s \<and> kind s' = kind s \<and>
      (st = STATUS_SUCCESS \<and> h \<noteq> 0 \<and> obj s h = 0 \<and> ob \<noteq> 0 \<and> obj s' = (obj s)(h := ob) \<or>
       st = STATUS_INSUFFICIENT_RESOURCES \<and> obj s' = obj s)"
    and by_handle_law: "rel s held \<Longrightarrow> held (obj s h) < 2 ^ 30 \<Longrightarrow> by_handle h acc ty s = (st, ob, s') \<Longrightarrow>
      known s' = known s \<and> kids s' = kids s \<and> kind s' = kind s \<and> obj s' = obj s \<and>
      (st = STATUS_SUCCESS \<and> ob = obj s h \<and> ob \<noteq> 0 \<and> rel s' (held(ob := Suc (held ob))) \<and> (ty \<noteq> 0 \<longrightarrow> kind s ob = ty) \<or>
       \<not> NT_SUCCESS st \<and> s' = s)"
    and drop_law: "rel s held \<Longrightarrow> 0 < held ob \<Longrightarrow> (held ob = 1 \<Longrightarrow> kids s ob = []) \<Longrightarrow>
      \<exists>s'. drop_ref ob s = Some s' \<and> rel s' (held(ob := held ob - 1)) \<and> known s' = known s \<and> obj s' = obj s \<and> kind s' = kind s"
begin

text \<open>The idiom of every \<^verbatim>\<open>NtCreate\<close> service: create the object, open a handle to it, drop the creator's reference. The
  client's references are as before, and on success the new handle stands for the new object.\<close>

lemma publish:
  assumes r: "rel s held" and ty: "ty \<in> known s" and n: "unat n \<le> 2 ^ 60"
    and c: "create ty n s = Some (STATUS_SUCCESS, ob, s1)"
    and same: "\<And>held. rel s2 held = rel s1 held" "known s2 = known s1" "kids s2 = kids s1" "kind s2 = kind s1" "obj s2 = obj s1"
    and op: "open_handle ob acc s2 = (st, h, s3)"
  shows "\<exists>s4. drop_ref ob s3 = Some s4 \<and> rel s4 held \<and> known s4 = known s \<and>
    (st = STATUS_SUCCESS \<and> h \<noteq> 0 \<and> obj s h = 0 \<and> ob \<noteq> 0 \<and> obj s4 = (obj s)(h := ob) \<and> kind s4 ob = ty \<or>
     st = STATUS_INSUFFICIENT_RESOURCES \<and> obj s4 = obj s)"
proof -
  have c1: "known s1 = known s" "obj s1 = obj s" "held ob = 0" "rel s1 (held(ob := 1))" "kids s1 ob = []" "kind s1 ob = ty"
    using create_law [OF r ty n c] by auto
  then have r2: "rel s2 (held(ob := 1))" using same by simp
  have o: "rel s3 (held(ob := 1))" "known s3 = known s" "kids s3 = kids s1" "kind s3 = kind s1"
    "st = STATUS_SUCCESS \<and> h \<noteq> 0 \<and> obj s h = 0 \<and> ob \<noteq> 0 \<and> obj s3 = (obj s)(h := ob) \<or>
     st = STATUS_INSUFFICIENT_RESOURCES \<and> obj s3 = obj s"
    using open_law [OF r2 _ _ op] same c1 by auto
  have "(held(ob := 1))(ob := (held(ob := 1)) ob - 1) = held" using c1(3) by auto
  then show ?thesis using drop_law [OF o(1), of ob] o c1 by auto
qed

text \<open>The idiom of every other service: look a handle up, use the object, drop the reference.\<close>

lemma borrow:
  assumes r: "rel s held" and b: "held (obj s h) < 2 ^ 30"
    and bh: "by_handle h acc ty s = (STATUS_SUCCESS, ob, s1)"
    and same: "\<And>held. rel s2 held = rel s1 held" "known s2 = known s1" "kids s2 = kids s1" "kind s2 = kind s1" "obj s2 = obj s1"
    and keep: "0 < held ob \<or> kids s ob = []"
  shows "\<exists>s3. drop_ref ob s2 = Some s3 \<and> rel s3 held \<and> known s3 = known s \<and> obj s3 = obj s \<and> kind s3 = kind s \<and>
    ob = obj s h \<and> ob \<noteq> 0 \<and> (ty \<noteq> 0 \<longrightarrow> kind s ob = ty)"
proof -
  have l: "known s1 = known s" "kids s1 = kids s" "kind s1 = kind s" "obj s1 = obj s"
    "ob = obj s h \<and> ob \<noteq> 0 \<and> rel s1 (held(ob := Suc (held ob))) \<and> (ty \<noteq> 0 \<longrightarrow> kind s ob = ty)"
    using by_handle_law [OF r b bh] by auto
  have "(held(ob := Suc (held ob)))(ob := (held(ob := Suc (held ob))) ob - 1) = held" by auto
  then show ?thesis using drop_law [of s2 "held(ob := Suc (held ob))" ob] same l keep by auto
qed

end

definition ob_rel :: "'z ob_state_scheme \<Rightarrow> (u64 \<Rightarrow> nat) \<Rightarrow> bool" where
  "ob_rel s held \<longleftrightarrow> (\<exists>L B. ob_inv s L B held)"

definition object_type :: "'z ob_state_scheme \<Rightarrow> u64 \<Rightarrow> u64" where
  "object_type s ob = oh_Type (headers s (ObHeaderFromObject ob))"

lemma ob_rel_cong:
  assumes "pool s' = pool s" "headers s' = headers s" "g_handles s' = g_handles s" "directories s' = directories s"
    "files s' = files s" "g_type_list s' = g_type_list s" "types s' = types s"
  shows "ob_rel s' held \<longleftrightarrow> ob_rel s held"
  using ob_inv_cong [of s' s] assms by (simp add: ob_rel_def)

lemma handle_object_cong: "g_handles s' = g_handles s \<Longrightarrow> handle_object s' = handle_object s"
  by (intro ext) (simp add: handle_object_def split: option.split)

interpretation om: object_manager ob_rel "\<lambda>s. set (g_type_list s)" directories object_type handle_object
  ObCreateObject ObCreateHandle ObReferenceObjectByHandle ObDereferenceObject
proof
  fix s :: "'z ob_state_scheme" and held ty n st ob s' acc h
  assume "ob_rel s held"
  then obtain L B where inv: "ob_inv s L B held" by (auto simp: ob_rel_def)
  show "set (g_type_list s') = set (g_type_list s) \<and> handle_object s' = handle_object s \<and>
      (st = STATUS_SUCCESS \<and> held ob = 0 \<and> ob_rel s' (held(ob := 1)) \<and> directories s' ob = [] \<and> object_type s' ob = ty \<or>
       st = STATUS_NO_MEMORY \<and> ob_rel s' held)"
    if ty: "ty \<in> set (g_type_list s)" and n: "unat n \<le> 2 ^ 60" and c: "ObCreateObject ty n s = Some (st, ob, s')"
    using inv ty n c
  proof (cases rule: ob_create)
    case success
    then show ?thesis using handle_object_cong [of s' s] by (auto simp: ob_rel_def object_type_def)
  next
    case failure
    then show ?thesis using handle_object_cong [of s' s] by (auto simp: ob_rel_def)
  qed
  show "ob_rel s' held \<and> set (g_type_list s') = set (g_type_list s) \<and> directories s' = directories s \<and>
      object_type s' = object_type s \<and>
      (st = STATUS_SUCCESS \<and> h \<noteq> 0 \<and> handle_object s h = 0 \<and> ob \<noteq> 0 \<and> handle_object s' = (handle_object s)(h := ob) \<or>
       st = STATUS_INSUFFICIENT_RESOURCES \<and> handle_object s' = handle_object s)"
    if held: "0 < held ob" "held ob < 2 ^ 30" and c: "ObCreateHandle ob acc s = (st, h, s')"
  proof -
    have hB: "ObHeaderFromObject ob \<in> B" using inv held by (simp add: ob_inv_def)
    have nz: "ob \<noteq> 0" using ob_live_nonzero [OF inv hB] by simp
    note ch = ob_create_handle [OF inv hB held(2) c]
    have same: "g_type_list s' = g_type_list s" "directories s' = directories s" "object_type s' = object_type s"
      using c nz by (auto simp: ObCreateHandle_def ObReferenceObject_def Let_def object_type_def fun_eq_iff split: option.splits)
    have full: "handle_object s' = handle_object s" if "st = STATUS_INSUFFICIENT_RESOURCES"
      using c nz that by (auto simp: ObCreateHandle_def Let_def intro!: handle_object_cong split: option.splits)
    from ch(2) show ?thesis
    proof
      assume "st = STATUS_SUCCESS \<and> (\<exists>i. i < OB_MAX_HANDLES \<and> he_Object (g_handles s i) = 0 \<and> h = index_to_handle i \<and>
        g_handles s' = (g_handles s)(i := \<lparr>he_Object = ob, GrantedAccess = acc\<rparr>))"
      then obtain i where i: "st = STATUS_SUCCESS" "i < OB_MAX_HANDLES" "he_Object (g_handles s i) = 0" "h = index_to_handle i"
        "g_handles s' = (g_handles s)(i := \<lparr>he_Object = ob, GrantedAccess = acc\<rparr>)" by blast
      have "handle_object s h = 0" using i handle_to_index_iff [of h i] by (simp add: handle_object_def)
      then show ?thesis using ch(1) same nz i handle_nonzero handle_object_update [OF i(2,5)] by (auto simp: ob_rel_def)
    qed (use ch(1) same full in \<open>auto simp: ob_rel_def\<close>)
  qed
  show "set (g_type_list s') = set (g_type_list s) \<and> directories s' = directories s \<and> object_type s' = object_type s \<and>
      handle_object s' = handle_object s \<and>
      (st = STATUS_SUCCESS \<and> ob = handle_object s h \<and> ob \<noteq> 0 \<and> ob_rel s' (held(ob := Suc (held ob))) \<and>
         (ty \<noteq> 0 \<longrightarrow> object_type s ob = ty) \<or> \<not> NT_SUCCESS st \<and> s' = s)"
    if b: "held (handle_object s h) < 2 ^ 30" and c: "ObReferenceObjectByHandle h acc ty s = (st, ob, s')"
  proof -
    have same: "g_type_list (ObReferenceObject ob s) = g_type_list s" "directories (ObReferenceObject ob s) = directories s"
      "object_type (ObReferenceObject ob s) = object_type s" "handle_object (ObReferenceObject ob s) = handle_object s"
      by (auto simp: ObReferenceObject_def object_type_def fun_eq_iff intro!: handle_object_cong [THEN fun_cong])
    from ob_reference_by_handle [OF inv b c] same show ?thesis by (auto simp: ob_rel_def object_type_def)
  qed
  show "\<exists>s'. ObDereferenceObject ob s = Some s' \<and> ob_rel s' (held(ob := held ob - 1)) \<and>
      set (g_type_list s') = set (g_type_list s) \<and> handle_object s' = handle_object s \<and> object_type s' = object_type s"
    if held: "0 < held ob" and d: "held ob = 1 \<Longrightarrow> directories s ob = []"
  proof -
    have "held ob = 1" if "nrefs s held ob = 1" using that held by (simp add: nrefs_def)
    then have dir: "nrefs s held ob = 1 \<Longrightarrow> directories s ob = []" using d by blast
    show ?thesis
      by (rule ob_dereference [OF inv held dir]) (auto simp: ob_rel_def object_type_def intro: handle_object_cong)
  qed
qed


section \<open>Clients of the object manager\<close>

text \<open>What kernel code may do: create types, objects and directories, use references it holds, open and close handles, look handles and
  paths up, and put objects it holds into directories it holds. The guards are the discipline the code relies on and does
  not check: it keeps its reference to the root directory, an object is inserted into the namespace at most once, no
  number of references held reaches 2^30, and the last reference to a directory is not dropped while it has
  entries (the code only logs a warning there).\<close>

inductive ob_step :: "'z ob_state_scheme \<times> (u64 \<Rightarrow> nat) \<Rightarrow> 'z ob_state_scheme \<times> (u64 \<Rightarrow> nat) \<Rightarrow> bool" where
  new_type: "ObCreateObjectType name del s = Some (t, s') \<Longrightarrow> ob_step (s, held) (s', held)"
| new_object: "ty \<in> set (g_type_list s) \<Longrightarrow> unat n \<le> 2 ^ 60 \<Longrightarrow> ObCreateObject ty n s = Some (st, ob, s') \<Longrightarrow>
    ob_step (s, held) (s', if NT_SUCCESS st then held(ob := 1) else held)"
| reference: "0 < held ob \<Longrightarrow> held ob < 2 ^ 30 \<Longrightarrow> ob_step (s, held) (ObReferenceObject ob s, held(ob := Suc (held ob)))"
| dereference: "0 < held ob \<Longrightarrow> (ObGetReferenceCount s ob = 1 \<longrightarrow> directories s ob = []) \<Longrightarrow>
    ObDereferenceObject ob s = Some s' \<Longrightarrow> ob_step (s, held) (s', held(ob := held ob - 1))"
| open_handle: "0 < held ob \<Longrightarrow> held ob < 2 ^ 30 \<Longrightarrow> ObCreateHandle ob acc s = (st, h, s') \<Longrightarrow> ob_step (s, held) (s', held)"
| by_handle: "held (handle_object s h) < 2 ^ 30 \<Longrightarrow> ObReferenceObjectByHandle h acc ty s = (st, ob, s') \<Longrightarrow>
    ob_step (s, held) (s', if NT_SUCCESS st then held(ob := Suc (held ob)) else held)"
| close: "held (handle_object s h) < 2 ^ 30 \<Longrightarrow>
    (ObGetReferenceCount s (handle_object s h) = 1 \<longrightarrow> directories s (handle_object s h) = []) \<Longrightarrow>
    ObCloseHandle h s = Some (st, s') \<Longrightarrow> ob_step (s, held) (s', held)"
| insert: "0 < held dir \<Longrightarrow> 0 < held ob \<Longrightarrow> held ob < 2 ^ 30 \<Longrightarrow> \<not> linked s (ObHeaderFromObject ob) \<Longrightarrow>
    ObInsertObjectByName dir name ob s = (st, s') \<Longrightarrow> ob_step (s, held) (s', held)"
| lookup: "0 < held (ObRootDirectory s) \<Longrightarrow> held ob < 2 ^ 30 \<Longrightarrow> ObLookupObjectByName path s = (st, ob, s') \<Longrightarrow>
    ob_step (s, held) (s', if NT_SUCCESS st then held(ob := Suc (held ob)) else held)"
| new_directory: "parent = 0 \<or> 0 < held parent \<Longrightarrow> ObCreateDirectory parent name s = Some (st, ob, s') \<Longrightarrow>
    ob_step (s, held) (s', if NT_SUCCESS st then held(ob := 1) else held)"

text \<open>The directory type stays known.\<close>

definition ob_sys :: "'z ob_state_scheme \<times> (u64 \<Rightarrow> nat) \<Rightarrow> bool" where
  "ob_sys x \<longleftrightarrow> ob_rel (fst x) (snd x) \<and> ObpDirectoryType (fst x) \<in> set (g_type_list (fst x))"

definition types_kept :: "'z ob_state_scheme \<Rightarrow> 'z ob_state_scheme \<Rightarrow> bool" where
  "types_kept s s' \<longleftrightarrow> ObpDirectoryType s' = ObpDirectoryType s \<and> set (g_type_list s) \<subseteq> set (g_type_list s')"

lemma types_kept_simps [simp]: "types_kept s s" "types_kept s (ObReferenceObject ob s)"
  by (simp_all add: types_kept_def ObReferenceObject_def)

lemma delete_types_kept:
  assumes "ObDereferenceObject ob s = Some s'"
  shows "types_kept s s'"
proof -
  have "types_kept s s2" if "call_delete del x s = Some s2" for del x and s s2 :: "'a ob_state_scheme"
    using that by (auto simp: call_delete_def IopFileDelete_proc_def types_kept_def Let_def split: OB_DELETE_METHOD.splits bind_splits if_splits)
  then show ?thesis using assms
    by (fastforce simp: ObDereferenceObject_def ObpDeleteObject_def types_kept_def Let_def split: bind_splits if_splits)
qed

lemma create_types_kept: "ObCreateObject ty n s = Some (st, ob, s') \<Longrightarrow> types_kept s s'"
  by (auto simp: ObCreateObject_def types_kept_def Let_def split: bind_splits if_splits)

lemma insert_types_kept: "ObInsertObjectByName dir name ob s = (st, s') \<Longrightarrow> types_kept s s'"
  by (auto simp: ObInsertObjectByName_def types_kept_def ObReferenceObject_def Let_def split: if_splits)

lemma types_kept_trans: "types_kept s s1 \<Longrightarrow> types_kept s1 s2 \<Longrightarrow> types_kept s s2"
  by (auto simp: types_kept_def)

lemma ob_step_types: "ob_step x y \<Longrightarrow> types_kept (fst x) (fst y)"
proof (induction rule: ob_step.induct)
  case (new_type name del s t s' held)
  then show ?case by (auto simp: ObCreateObjectType_def types_kept_def Let_def split: bind_splits if_splits)
next
  case (open_handle held ob acc s st h s')
  then show ?case by (auto simp: ObCreateHandle_def types_kept_def ObReferenceObject_def Let_def split: option.splits if_splits)
next
  case (close held s h st s')
  then show ?case unfolding ObCloseHandle_def Let_def
    by (fastforce simp: types_kept_def dest: delete_types_kept split: option.splits if_splits bind_splits)
next
  case (by_handle held s h acc ty st ob s')
  then show ?case by (auto simp: ObReferenceObjectByHandle_def Let_def split: option.splits if_splits)
next
  case (lookup held s ob path st s')
  then show ?case by (auto simp: ObLookupObjectByName_def split: if_splits sum.splits)
next
  case (new_directory parent held name s st ob s')
  from new_directory(2) obtain st1 o1 s1 where c: "ObCreateObject (ObpDirectoryType s) 16 s = Some (st1, o1, s1)"
    by (auto simp: ObCreateDirectory_def split: bind_splits)
  let ?s2 = "s1\<lparr>directories := (directories s1)(o1 := [])\<rparr>"
  obtain st2 s3 where i: "ObInsertObjectByName parent name o1 ?s2 = (st2, s3)" by (cases "ObInsertObjectByName parent name o1 ?s2")
  have k: "types_kept s s1" "types_kept s ?s2" "types_kept s s3"
    using create_types_kept [OF c] insert_types_kept [OF i] by (auto simp: types_kept_def)
  show ?case using new_directory(2) c i k types_kept_trans [OF k(3) delete_types_kept]
    by (auto simp: ObCreateDirectory_def Let_def split: bind_splits if_splits)
qed (auto simp: create_types_kept insert_types_kept delete_types_kept)

lemma refcount_one:
  assumes "ob_inv s L B held" "ObHeaderFromObject ob \<in> B"
  shows "unat (ObGetReferenceCount s ob) = nrefs s held ob" "ObGetReferenceCount s ob = 1 \<longleftrightarrow> nrefs s held ob = 1"
proof -
  have ok: "header_ok s held (ObHeaderFromObject ob)" using assms by (simp add: ob_inv_def)
  then show u: "unat (ObGetReferenceCount s ob) = nrefs s held ob"
    by (auto simp: header_ok_def ObGetReferenceCount_def intro: unat_of_nat_id)
  show "ObGetReferenceCount s ob = 1 \<longleftrightarrow> nrefs s held ob = 1" unfolding u [symmetric] by (metis unat_1 word_unat_eq_iff)
qed

lemma ob_create_directory:
  assumes inv: "ob_inv s L B held" and ty: "ObpDirectoryType s \<in> set (g_type_list s)"
    and pa: "parent = 0 \<or> ObHeaderFromObject parent \<in> B" and c: "ObCreateDirectory parent name s = Some (st, ob, s')"
  shows "ob_rel s' (if NT_SUCCESS st then held(ob := 1) else held)"
proof -
  from c obtain st1 o1 s1 where cr: "ObCreateObject (ObpDirectoryType s) 16 s = Some (st1, o1, s1)"
    by (auto simp: ObCreateDirectory_def split: bind_splits)
  have sz: "unat (16 :: u64) \<le> 2 ^ 60" by simp
  from inv ty sz cr show ?thesis
  proof (cases rule: ob_create)
    case failure
    then show ?thesis using c cr by (auto simp: ObCreateDirectory_def ob_rel_def)
  next
    case success
    let ?h = "ObHeaderFromObject o1" and ?B = "insert (ObHeaderFromObject o1) B"
    have s2: "s1\<lparr>directories := (directories s1)(o1 := [])\<rparr> = s1" using success(6,7) by (simp add: fun_upd_idem)
    show ?thesis
    proof (cases "parent = 0")
      case True
      then show ?thesis using c cr success(1,5) s2 by (auto simp: ObCreateDirectory_def ob_rel_def Let_def)
    next
      case False
      obtain st2 s3 where i: "ObInsertObjectByName parent name o1 s1 = (st2, s3)" by (cases "ObInsertObjectByName parent name o1 s1")
      have un: "\<not> linked s1 ?h" using success(11) by (simp add: linked_def)
      have pB: "ObHeaderFromObject parent \<in> ?B" using pa False by simp
      have bd: "(held(o1 := 1)) o1 < 2 ^ 30" by simp
      note ins = ob_insert [OF success(5) pB insertI1 un bd i]
      show ?thesis
      proof (cases "st2 = STATUS_SUCCESS")
        case True
        have "ob_rel s3 (held(o1 := 1))" using ins unfolding ob_rel_def by blast
        then show ?thesis using True c cr success(1) s2 i False by (auto simp: ObCreateDirectory_def Let_def)
      next
        case nsuc: False
        then have col: "st2 = STATUS_OBJECT_NAME_COLLISION" "s3 = s1" using ins by auto
        have r1: "ob_rel s1 (held(o1 := 1))" "directories s1 o1 = []" using success(5-7) by (auto simp: ob_rel_def)
        from om.drop_law [OF r1(1), of o1] r1(2) obtain s4 where d: "ObDereferenceObject o1 s1 = Some s4" "ob_rel s4 ((held(o1 := 1))(o1 := 0))"
          by auto
        have "(held(o1 := 1))(o1 := 0) = held" using success(4) by auto
        then show ?thesis using c cr success(1) s2 i col d False by (auto simp: ObCreateDirectory_def Let_def)
      qed
    qed
  qed
qed

lemma ob_step_rel: "ob_step x y \<Longrightarrow> case x of (s, held) \<Rightarrow> ob_rel s held \<Longrightarrow> (case x of (s, held) \<Rightarrow> ObpDirectoryType s \<in> set (g_type_list s)) \<Longrightarrow>
    case y of (s, held) \<Rightarrow> ob_rel s held"
proof (induction rule: ob_step.induct)
  case (new_type name del s t s' held)
  then obtain L B where inv: "ob_inv s L B held" by (auto simp: ob_rel_def)
  from inv new_type(1) show ?case by (cases rule: ob_create_type) (auto simp: ob_rel_def)
next
  case (new_object ty s n st ob s' held)
  then have "ob_rel s held" by simp
  from om.create_law [OF this new_object(1-3)] show ?case by auto
next
  case (reference held ob s)
  then obtain L B where inv: "ob_inv s L B held" by (auto simp: ob_rel_def)
  then have "ObHeaderFromObject ob \<in> B" using reference(1) by (simp add: ob_inv_def)
  from ob_reference [OF inv this reference(2)] show ?case by (auto simp: ob_rel_def)
next
  case (dereference held ob s s')
  then obtain L B where inv: "ob_inv s L B held" by (auto simp: ob_rel_def)
  then have "ObHeaderFromObject ob \<in> B" using dereference(1) by (simp add: ob_inv_def)
  then have "nrefs s held ob = 1 \<Longrightarrow> directories s ob = []" using dereference(2) refcount_one(2) [OF inv] by blast
  from ob_dereference [OF inv dereference(1) this] dereference(3) show ?case by (auto simp: ob_rel_def) metis
next
  case (open_handle held ob acc s st h s')
  then show ?case using om.open_law [of s held ob acc st h s'] by auto
next
  case (by_handle held s h acc ty st ob s')
  then show ?case using om.by_handle_law [of s held h acc ty st ob s'] by auto
next
  case (close held s h st s')
  then obtain L B where inv: "ob_inv s L B held" by (auto simp: ob_rel_def)
  show ?case
  proof (cases "handle_object s h = 0")
    case True
    then have "s' = s" using close(3) by (auto simp: ObCloseHandle_def handle_object_def split: option.splits)
    then show ?thesis using close by simp
  next
    case False
    have "ObHeaderFromObject (handle_object s h) \<in> B" using handle_object_live [OF inv False] .
    then have d: "nrefs s held (handle_object s h) = 1 \<Longrightarrow> directories s (handle_object s h) = []"
      using close(2) refcount_one(2) [OF inv] by blast
    from ob_close [OF inv close(1) refl False d] close(3) show ?thesis by (auto simp: ob_rel_def) metis
  qed
next
  case (insert held dir ob s name st s')
  then obtain L B where inv: "ob_inv s L B held" by (auto simp: ob_rel_def)
  then have "ObHeaderFromObject dir \<in> B" "ObHeaderFromObject ob \<in> B" using insert(1,2) by (simp_all add: ob_inv_def)
  from ob_insert [OF inv this insert(4,3,5)] show ?case by (auto simp: ob_rel_def)
next
  case (lookup held s ob path st s')
  then obtain L B where inv: "ob_inv s L B held" by (auto simp: ob_rel_def)
  then have "ObHeaderFromObject (ObRootDirectory s) \<in> B" using lookup(1) by (simp add: ob_inv_def)
  from ob_lookup [OF inv this lookup(2,3)] inv show ?case by (auto simp: ob_rel_def NT_SUCCESS_def)
next
  case (new_directory parent held name s st ob s')
  then obtain L B where inv: "ob_inv s L B held" by (auto simp: ob_rel_def)
  then have "parent = 0 \<or> ObHeaderFromObject parent \<in> B" using new_directory(1) by (auto simp: ob_inv_def)
  then show ?case using ob_create_directory [OF inv _ _ new_directory(2)] new_directory(4) by simp
qed

lemma ob_step_inv: "ob_step x y \<Longrightarrow> ob_sys x \<Longrightarrow> ob_sys y"
  using ob_step_rel [of x y] ob_step_types [of x y] by (cases x; cases y) (auto simp: ob_sys_def types_kept_def)

interpretation ob_clients: transition_system ob_step ob_sys
  by unfold_locales (rule ob_step_inv)


section \<open>Properties\<close>

text \<open>(C17) References are counted exactly. After \<^verbatim>\<open>ObInitialize\<close> and any sequence of client steps, every object that an open
  handle stands for, that is in a directory, or that kernel code holds a reference to is a live pool block, and its
  \<^verbatim>\<open>PointerCount\<close> is the number of its open handles, plus one if it is in the namespace, plus the references
  held; in particular it is never freed while a reference exists. The steps are all operations of the object manager:
  creating types, objects and directories, taking and dropping references, opening, resolving and closing handles, inserting
  into a directory and looking a path up. They are guarded by what the code relies on without checking it: the root directory
  stays referenced, an object is inserted at most once, fewer than 2^30 references are held to an object, and the last
  reference to a directory that still has entries is not dropped.\<close>

theorem ob_references_counted:
  assumes "pool_rel (pool s0) L0" and "ob_boot s0" and "ObInitialize s0 = Some s1"
    and "ob_step\<^sup>*\<^sup>* (s1, (\<lambda>_. 0)(ObRootDirectory s1 := 1)) (s, held)"
  shows "\<exists>L. pool_rel (pool s) L \<and>
    (\<forall>ob. (0 < held ob \<or> ob \<noteq> 0 \<and> (\<exists>h. handle_object s h = ob) \<or> (\<exists>d. ObHeaderFromObject ob \<in> set (directories s d))) \<longrightarrow>
       ObHeaderFromObject ob \<in> dom L \<and>
       unat (ObGetReferenceCount s ob) = card (handles_of s ob) + of_bool (linked s (ObHeaderFromObject ob)) + held ob)"
proof -
  from ob_initialize [OF assms(1-3)] have "ob_sys (s1, (\<lambda>_. 0)(ObRootDirectory s1 := 1))" by (auto simp: ob_rel_def ob_sys_def)
  with ob_clients.steps_inv [OF assms(4)] obtain L B where inv: "ob_inv s L B held" by (auto simp: ob_rel_def ob_sys_def)
  then have nm: "names_ok s B" by (simp add: ob_inv_def)
  have "ObHeaderFromObject ob \<in> B"
    if "0 < held ob \<or> ob \<noteq> 0 \<and> (\<exists>h. handle_object s h = ob) \<or> (\<exists>d. ObHeaderFromObject ob \<in> set (directories s d))" for ob
    using that inv handle_object_live [OF inv] names_okD(1) [OF nm] by (auto simp: ob_inv_def)
  moreover have "ObHeaderFromObject ob \<in> dom L" if "ObHeaderFromObject ob \<in> B" for ob
    using blocks_okD(1) [of s L B, OF _ that] inv by (auto simp: ob_inv_def)
  moreover have "pool_rel (pool s) L" using inv by (simp add: ob_inv_def)
  ultimately show ?thesis using refcount_one(1) [OF inv] unfolding nrefs_def by (intro exI [of _ L]) blast
qed

text \<open>Dropping a reference. In a state where the counts are right, \<^verbatim>\<open>ObDereferenceObject\<close> on a held
  reference never reaches the underflow bug check; it frees the object's block exactly when that was the last reference
  (an object in the namespace is therefore never freed, the defensive unlinking in \<^verbatim>\<open>ObpDeleteObject\<close> does not
  run), and the counts stay right.\<close>

theorem ObDereferenceObject_correct:
  assumes "ob_inv s L B held" and "0 < held ob" and "directories s ob = []"
  shows "\<exists>s' L' B'. ObDereferenceObject ob s = Some s' \<and> ob_inv s' L' B' (held(ob := held ob - 1)) \<and>
    (ObHeaderFromObject ob \<in> B' \<longleftrightarrow> ObGetReferenceCount s ob \<noteq> 1) \<and> B - {ObHeaderFromObject ob} \<subseteq> B' \<and> dom L' \<subseteq> dom L \<and>
    (ObGetReferenceCount s ob = 1 \<longrightarrow> \<not> linked s (ObHeaderFromObject ob) \<and> (\<forall>h. handle_object s h \<noteq> ob))"
proof -
  have hB: "ObHeaderFromObject ob \<in> B" using assms by (simp add: ob_inv_def)
  have nz: "ob \<noteq> 0" using ob_live_nonzero [OF assms(1) hB] by simp
  note rc = refcount_one(2) [OF assms(1) hB]
  have last: "\<not> linked s (ObHeaderFromObject ob) \<and> (\<forall>h. handle_object s h \<noteq> ob)" if "nrefs s held ob = 1"
  proof -
    have "card (handles_of s ob) + of_bool (linked s (ObHeaderFromObject ob)) = 0"
      using that assms(2) unfolding nrefs_def by linarith
    then have e: "card (handles_of s ob) = 0" "\<not> linked s (ObHeaderFromObject ob)" by auto
    have "handle_object s h \<noteq> ob" for h
    proof (cases "handle_to_index h")
      case (Some i)
      then have "i < OB_MAX_HANDLES" using handle_to_index_iff [of h i] by simp
      then show ?thesis using e(1) Some by (auto simp: handle_object_def handles_of_def)
    qed (use nz in \<open>simp add: handle_object_def\<close>)
    then show ?thesis using e by blast
  qed
  show ?thesis
  proof (rule ob_dereference [OF assms(1,2) assms(3)])
    fix s' L' B'
    assume d: "ObDereferenceObject ob s = Some s'" "ob_inv s' L' B' (held(ob := held ob - 1))"
      "B' = (if nrefs s held ob = 1 then B - {ObHeaderFromObject ob} else B)" "dom L' \<subseteq> dom L"
    show ?thesis using d hB last unfolding rc by (intro exI [of _ s'] exI [of _ L'] exI [of _ B']) simp
  qed
qed

text \<open>(C18) Handles. A handle from \<^verbatim>\<open>ObCreateHandle\<close> is a non-zero multiple of four that was not in use; resolving it gives the
  object back, for any access the handle grants and the object's type, and a type mismatch or a missing access
  right is refused without touching a count; after \<^verbatim>\<open>ObCloseHandle\<close> the same value is rejected.\<close>

theorem ob_handle_roundtrip:
  fixes s s1 :: "'z ob_state_scheme"
  assumes "ob_inv s L B held" and "0 < held ob" and "held ob < 2 ^ 30"
    and "ObCreateHandle ob access s = (STATUS_SUCCESS, h, s1)"
  shows "h \<noteq> 0 \<and> unat h mod 4 = 0 \<and> handle_object s h = 0 \<and>
    (let full = access AND GENERIC_ALL \<noteq> 0
     in ObReferenceObjectByHandle h desired ty s1 =
       (if ty \<noteq> 0 \<and> object_type s ob \<noteq> ty then (STATUS_OBJECT_TYPE_MISMATCH, 0, s1)
        else if desired \<noteq> 0 \<and> \<not> full \<and> access AND desired \<noteq> desired then (STATUS_ACCESS_DENIED, 0, s1)
        else (STATUS_SUCCESS, ob, ObReferenceObject ob s1))) \<and>
    (\<exists>s2. ObCloseHandle h s1 = Some (STATUS_SUCCESS, s2) \<and> ObReferenceObjectByHandle h desired ty s2 = (STATUS_INVALID_HANDLE, 0, s2))"
proof -
  have hB: "ObHeaderFromObject ob \<in> B" using assms by (simp add: ob_inv_def)
  have nz: "ob \<noteq> 0" using ob_live_nonzero [OF assms(1) hB] by simp
  note ch = ob_create_handle [OF assms(1) hB assms(3,4)]
  from ch(2) obtain i where i: "i < OB_MAX_HANDLES" "he_Object (g_handles s i) = 0" "h = index_to_handle i"
    "g_handles s1 = (g_handles s)(i := \<lparr>he_Object = ob, GrantedAccess = access\<rparr>)" by auto
  have ix: "handle_to_index h = Some i" using i handle_to_index_iff by blast
  have ty: "object_type s1 ob = object_type s ob"
    using assms(4) nz by (auto simp: ObCreateHandle_def ObReferenceObject_def Let_def object_type_def split: option.splits)
  have ho: "handle_object s1 h = ob" using ix i(4) by (simp add: handle_object_def)
  have n1: "nrefs s1 held ob \<noteq> 1"
  proof -
    have "i \<in> handles_of s1 ob" using i by (simp add: handles_of_def)
    then have "0 < card (handles_of s1 ob)" by (metis card_gt_0_iff empty_iff finite_handles)
    then show ?thesis using assms(2) by (simp add: nrefs_def)
  qed
  have "\<exists>s2. ObCloseHandle h s1 = Some (STATUS_SUCCESS, s2) \<and> handle_object s2 h = 0"
  proof (rule ob_close [OF ch(1) assms(3) ho [symmetric] nz])
    fix s2
    assume "ObCloseHandle h s1 = Some (STATUS_SUCCESS, s2)" "handle_object s2 = (handle_object s1)(h := 0)"
    then show ?thesis by (intro exI [of _ s2]) simp
  qed (use n1 in blast)
  moreover have "ObReferenceObjectByHandle h desired ty s2 = (STATUS_INVALID_HANDLE, 0, s2)" if "handle_object s2 h = 0"
    for s2 :: "'z ob_state_scheme"
    using that ix by (simp add: ObReferenceObjectByHandle_def handle_object_def)
  moreover have "0xFFFFFFFF AND desired = desired" 
  proof -
    have "(0xFFFFFFFF :: u32) = - 1" by simp
    then show ?thesis by (simp only: and.left_neutral)
  qed
  ultimately show ?thesis
    using i ix nz ty handle_nonzero [OF i(1)] unat_handle [OF i(1)]
    by (auto simp: ObReferenceObjectByHandle_def Let_def handle_object_def object_type_def)
qed

section \<open>Paths\<close>

text \<open>Path resolution, abstractly: a walk over the segments, then the leaf.\<close>

fun walk :: "'z ob_state_scheme \<Rightarrow> u64 \<Rightarrow> cstring list \<Rightarrow> u64 option" where
  "walk s d [] = Some d"
| "walk s d (x # xs) = (case ObpFindInDirectory s d x of
     None \<Rightarrow> None
   | Some h \<Rightarrow> if oh_Type (headers s h) = ObpDirectoryType s then walk s (ObObjectFromHeader h) xs else None)"

text \<open>A path that leads through the entry \<open>name\<close> of the directory \<open>dir\<close>.\<close>

definition passes :: "'z ob_state_scheme \<Rightarrow> u64 \<Rightarrow> cstring \<Rightarrow> cstring list \<Rightarrow> bool" where
  "passes s dir name p \<longleftrightarrow> (\<exists>k < length p. walk s (ObRootDirectory s) (take k p) = Some dir \<and> p ! k = name)"

definition valid_segment :: "cstring \<Rightarrow> bool" where
  "valid_segment x \<longleftrightarrow> x \<noteq> [] \<and> BACKSLASH \<notin> set x"

definition path_of :: "cstring list \<Rightarrow> cstring \<Rightarrow> cstring" where
  "path_of segs leaf = concat (map (\<lambda>x. x @ [BACKSLASH]) segs) @ leaf"

lemma takeWhile_segment:
  assumes "BACKSLASH \<notin> set x"
  shows "takeWhile (\<lambda>c. c \<noteq> BACKSLASH) (x @ BACKSLASH # r) = x" "dropWhile (\<lambda>c. c \<noteq> BACKSLASH) (x @ BACKSLASH # r) = BACKSLASH # r"
    "takeWhile (\<lambda>c. c \<noteq> BACKSLASH) x = x" "dropWhile (\<lambda>c. c \<noteq> BACKSLASH) x = []"
  using assms by (auto simp: takeWhile_append dropWhile_append takeWhile_eq_all_conv)

lemma lookup_walk:
  assumes "list_all valid_segment segs" and "valid_segment leaf"
  shows "lookup_loop s d (path_of segs leaf) = (case walk s d segs of
      None \<Rightarrow> Inl STATUS_OBJECT_PATH_NOT_FOUND
    | Some dir \<Rightarrow> (case ObpFindInDirectory s dir leaf of None \<Rightarrow> Inl STATUS_OBJECT_NAME_NOT_FOUND | Some h \<Rightarrow> Inr h))"
  using assms
proof (induction segs arbitrary: d)
  case Nil
  then show ?case
    by (subst lookup_loop.simps) (auto simp: path_of_def valid_segment_def takeWhile_segment Let_def split: option.splits)
next
  case (Cons x xs)
  then have x: "x \<noteq> []" "BACKSLASH \<notin> set x" by (auto simp: valid_segment_def)
  have p: "path_of (x # xs) leaf = x @ BACKSLASH # path_of xs leaf" by (simp add: path_of_def)
  show ?case
    using Cons x unfolding p
    by (subst lookup_loop.simps) (auto simp: takeWhile_segment Let_def split: option.splits)
qed

lemma find_entry_append:
  "find_entry hs (es @ [e]) nm = (case find_entry hs es nm of Some x \<Rightarrow> Some x
     | None \<Rightarrow> if oh_Name (hs e) = Some nm then Some e else None)"
  by (induction es) auto

lemma find_entry_cong: "(\<And>e. e \<in> set es \<Longrightarrow> oh_Name (hs e) = oh_Name (hs' e)) \<Longrightarrow> find_entry hs es nm = find_entry hs' es nm"
  by (induction es) auto

text \<open>An insertion adds one leaf and leaves every other one as it was.\<close>

lemma find_after_insert:
  assumes inv: "ob_inv s L B held" and d: "0 < held dir" and o: "0 < held ob" "held ob < 2 ^ 30"
    and un: "\<not> linked s (ObHeaderFromObject ob)" and c: "ObInsertObjectByName dir name ob s = (STATUS_SUCCESS, s')"
  shows "ObpFindInDirectory s' d' nm = (if d' = dir \<and> nm = name then Some (ObHeaderFromObject ob) else ObpFindInDirectory s d' nm)"
    and "oh_Type (headers s' h) = oh_Type (headers s h)" "ObpDirectoryType s' = ObpDirectoryType s" "ObRootDirectory s' = ObRootDirectory s"
proof -
  have B: "ObHeaderFromObject dir \<in> B" "ObHeaderFromObject ob \<in> B" using inv d o by (simp_all add: ob_inv_def)
  let ?h = "ObHeaderFromObject ob"
  have i: "ObpFindInDirectory s dir name = None"
    "headers s' = (headers s)(?h := (headers s ?h)\<lparr>oh_Name := Some name,
         ParentDirectory := dir, PointerCount := PointerCount (headers s ?h) + 1\<rparr>)"
    "directories s' = (directories s)(dir := directories s dir @ [?h])"
    using ob_insert [OF inv B un o(2) c] by auto
  show "oh_Type (headers s' h) = oh_Type (headers s h)" by (simp add: i)
  show "ObpDirectoryType s' = ObpDirectoryType s" "ObRootDirectory s' = ObRootDirectory s"
    using c by (auto simp: ObInsertObjectByName_def ObReferenceObject_def Let_def split: if_splits)
  have nm: "names_ok s B" using inv by (simp add: ob_inv_def)
  have out: "?h \<notin> set (directories s x)" for x using names_okD(1) [OF nm, of ?h x] un by (auto simp: linked_def)
  have old: "find_entry (headers s') (directories s x) nm = find_entry (headers s) (directories s x) nm" for x nm
    by (rule find_entry_cong) (use out [of x] in \<open>auto simp: i\<close>)
  show "ObpFindInDirectory s' d' nm = (if d' = dir \<and> nm = name then Some ?h else ObpFindInDirectory s d' nm)"
    using i(1) old by (auto simp: ObpFindInDirectory_def i(3) find_entry_append split: option.split) (simp_all add: i(2))
qed

text \<open>(C19) The namespace. Path resolution is the walk over the segments: a missing or non-directory component gives
  \<^verbatim>\<open>STATUS_OBJECT_PATH_NOT_FOUND\<close>, a missing leaf \<^verbatim>\<open>STATUS_OBJECT_NAME_NOT_FOUND\<close>. After an object was inserted under a
  fresh name into a directory, the path of that directory followed by the name resolves to it, with one
  reference more; every name that resolved before resolves to the same object; every path that does not lead through the new
  entry gives the same status and object as before, errors included; and a second insertion under the name is refused. (A path
  that does lead through it can change, from an error to another error or to an object below the one inserted.)\<close>

theorem ob_namespace_roundtrip:
  fixes s :: "'z ob_state_scheme"
  assumes inv: "ob_inv s L B held" and "0 < held dir" and "0 < held ob" and "held ob < 2 ^ 30"
    and "\<not> linked s (ObHeaderFromObject ob)"
    and "list_all valid_segment segs" and "valid_segment name" and "walk s (ObRootDirectory s) segs = Some dir"
    and "ObInsertObjectByName dir name ob s = (STATUS_SUCCESS, s')"
  shows "ObLookupObjectByName (BACKSLASH # path_of segs name) s =
      (STATUS_OBJECT_NAME_NOT_FOUND, 0, s) \<and>
    ObLookupObjectByName (BACKSLASH # path_of segs name) s' = (STATUS_SUCCESS, ob, ObReferenceObject ob s') \<and>
    (\<forall>ss nm x t. list_all valid_segment ss \<longrightarrow> valid_segment nm \<longrightarrow>
       ObLookupObjectByName (BACKSLASH # path_of ss nm) s = (STATUS_SUCCESS, x, t) \<longrightarrow>
       ObLookupObjectByName (BACKSLASH # path_of ss nm) s' = (STATUS_SUCCESS, x, ObReferenceObject x s')) \<and>
    (\<forall>ss nm. list_all valid_segment ss \<longrightarrow> valid_segment nm \<longrightarrow> \<not> passes s dir name (ss @ [nm]) \<longrightarrow>
       (case ObLookupObjectByName (BACKSLASH # path_of ss nm) s of (st, x, t) \<Rightarrow>
          ObLookupObjectByName (BACKSLASH # path_of ss nm) s' = (st, x, if NT_SUCCESS st then ObReferenceObject x s' else s'))) \<and>
    ObInsertObjectByName dir name y s' = (if y = 0 then STATUS_INVALID_PARAMETER else STATUS_OBJECT_NAME_COLLISION, s')"
proof -
  note f = find_after_insert [OF assms(1-5,9)]
  have nz: "dir \<noteq> 0" using ob_live_nonzero [OF inv, of "ObHeaderFromObject dir"] inv assms(2) by (auto simp: ob_inv_def)
  have fresh: "ObpFindInDirectory s dir name = None"
    using assms(9) by (auto simp: ObInsertObjectByName_def split: if_splits)
  have walk: "walk s' d ss = Some e" if "walk s d ss = Some e" for d ss e
    using that
  proof (induction ss arbitrary: d)
    case (Cons x xs)
    then obtain h where h: "ObpFindInDirectory s d x = Some h" "oh_Type (headers s h) = ObpDirectoryType s"
      "walk s (ObObjectFromHeader h) xs = Some e" by (auto split: option.splits if_splits)
    moreover have "\<not> (d = dir \<and> x = name)" using h(1) fresh by auto
    ultimately show ?case using Cons.IH [OF h(3)] f by auto
  qed simp
  have walk_same: "walk s' d ss = walk s d ss" if "\<And>k. walk s d (take k ss) = Some dir \<Longrightarrow> k < length ss \<Longrightarrow> ss ! k \<noteq> name" for d ss
    using that
  proof (induction ss arbitrary: d)
    case (Cons x xs)
    have "\<not> (d = dir \<and> x = name)" using Cons.prems [of 0] by auto
    then have find: "ObpFindInDirectory s' d x = ObpFindInDirectory s d x" using f(1) [of d x] by (simp only: if_False)
    show ?case
    proof (cases "ObpFindInDirectory s d x")
      case (Some h)
      show ?thesis
      proof (cases "oh_Type (headers s h) = ObpDirectoryType s")
        case True
        have "xs ! k \<noteq> name" if "walk s (ObObjectFromHeader h) (take k xs) = Some dir" "k < length xs" for k
          using Cons.prems [of "Suc k"] Some True that by simp
        from Cons.IH [OF this] show ?thesis using find Some True by (simp add: f(2,3))
      qed (use find Some in \<open>simp add: f(2,3)\<close>)
    qed (use find in simp)
  qed simp
  have ne: "path_of ss nm \<noteq> []" if "valid_segment nm" for ss nm using that by (auto simp: path_of_def valid_segment_def)
  have look: "ObLookupObjectByName (BACKSLASH # path_of ss nm) t = (case walk t (ObRootDirectory t) ss of
      None \<Rightarrow> (STATUS_OBJECT_PATH_NOT_FOUND, 0, t)
    | Some dd \<Rightarrow> (case ObpFindInDirectory t dd nm of None \<Rightarrow> (STATUS_OBJECT_NAME_NOT_FOUND, 0, t)
        | Some h \<Rightarrow> (STATUS_SUCCESS, ObObjectFromHeader h, ObReferenceObject (ObObjectFromHeader h) t)))"
    if "list_all valid_segment ss" "valid_segment nm" for ss nm and t :: "'z ob_state_scheme"
    using ne [OF that(2), of ss] by (auto simp: ObLookupObjectByName_def lookup_walk [OF that] split: option.split)
  have "ObLookupObjectByName (BACKSLASH # path_of ss nm) s' = (STATUS_SUCCESS, x, ObReferenceObject x s')"
    if v: "list_all valid_segment ss" "valid_segment nm" and r: "ObLookupObjectByName (BACKSLASH # path_of ss nm) s = (STATUS_SUCCESS, x, t)"
    for ss nm x and t :: "'z ob_state_scheme"
  proof -
    from r look [OF v, of s] obtain dd h where w: "walk s (ObRootDirectory s) ss = Some dd" "ObpFindInDirectory s dd nm = Some h"
      "x = ObObjectFromHeader h" by (auto split: option.splits)
    moreover have "\<not> (dd = dir \<and> nm = name)" using w(2) fresh by auto
    ultimately show ?thesis using look [OF v, of s'] walk [OF w(1)] f by auto
  qed
  moreover have "case ObLookupObjectByName (BACKSLASH # path_of ss nm) s of (st, x, t) \<Rightarrow>
      ObLookupObjectByName (BACKSLASH # path_of ss nm) s' = (st, x, if NT_SUCCESS st then ObReferenceObject x s' else s')"
    if v: "list_all valid_segment ss" "valid_segment nm" and np: "\<not> passes s dir name (ss @ [nm])" for ss nm
  proof -
    have nk: "ss ! k \<noteq> name" if "walk s (ObRootDirectory s) (take k ss) = Some dir" "k < length ss" for k
    proof
      assume "ss ! k = name"
      then have "k < length (ss @ [nm])" "walk s (ObRootDirectory s) (take k (ss @ [nm])) = Some dir" "(ss @ [nm]) ! k = name"
        using that by (simp_all add: nth_append)
      then show False using np unfolding passes_def by blast
    qed
    have "\<not> (walk s (ObRootDirectory s) ss = Some dir \<and> nm = name)" using np unfolding passes_def by fastforce
    then have "ObpFindInDirectory s' dd nm = ObpFindInDirectory s dd nm" if "walk s (ObRootDirectory s) ss = Some dd" for dd
      using f(1) [of dd nm] that by auto
    moreover have "walk s' (ObRootDirectory s) ss = walk s (ObRootDirectory s) ss" by (rule walk_same) (rule nk)
    ultimately show ?thesis unfolding look [OF v] f(4) by (cases "walk s (ObRootDirectory s) ss") (simp_all split: option.split)
  qed
  ultimately show ?thesis
    using look [OF assms(6,7), of s] look [OF assms(6,7), of s'] assms(8) fresh walk [OF assms(8)] f nz
    by (auto simp: ObInsertObjectByName_def)
qed

lemma held_zero:
  assumes "ob_inv s L B held"
  shows "held 0 = 0"
proof (rule ccontr)
  assume "held 0 \<noteq> 0"
  then have "ObHeaderFromObject 0 \<in> B" using assms by (simp add: ob_inv_def)
  then obtain n where n: "48 \<le> n" "L (ObHeaderFromObject 0) = Some n" using assms by (auto simp: ob_inv_def blocks_ok_def)
  have "pool_rel (pool s) L" using assms by (simp add: ob_inv_def)
  from pool_live_fits [OF this n(2)] have "unat (ObHeaderFromObject 0) + n < 2 ^ 64" .
  then show False using n(1) by (simp add: ObHeaderFromObject_def)
qed

lemma dereference_undoes:
  assumes ok: "header_ok s held (ObHeaderFromObject ob)"
  shows "ObDereferenceObject ob (ObReferenceObject ob s) = Some s"
proof -
  let ?h = "ObHeaderFromObject ob"
  have n: "0 < nrefs s held ob" "nrefs s held ob < 2 ^ 31" "PointerCount (headers s ?h) = of_nat (nrefs s held ob)"
    using ok by (simp_all add: header_ok_def)
  have "unat (PointerCount (headers s ?h)) = nrefs s held ob" unfolding n(3) using n(2) by (intro unat_of_nat_id) simp
  then have "PointerCount (headers s ?h) \<noteq> 0" using n(1) by auto
  moreover have "\<not> sint (PointerCount (headers s ?h)) < 0" unfolding n(3) using sint_word_small [OF n(2)] by simp
  moreover have "upd_header ?h (\<lambda>h. h\<lparr>PointerCount := PointerCount h - 1\<rparr>) (ObReferenceObject ob s) = s"
    by (simp add: ObReferenceObject_def upd_header_def)
  ultimately show ?thesis unfolding ObDereferenceObject_def Let_def by (simp only: if_False)
qed

lemma reference_dereference:
  assumes "ob_inv s L B held" "ObHeaderFromObject ob \<in> B"
  shows "ObDereferenceObject ob (ObReferenceObject ob s) = Some s"
  using assms by (intro dereference_undoes [where held = held]) (simp add: ob_inv_def)

section \<open>A small system\<close>

definition demo_ob :: "pool_state \<Rightarrow> 'z \<Rightarrow> 'z ob_state_scheme" where
  "demo_ob p z = \<lparr>pool = p, types = (\<lambda>_. \<lparr>ot_Name = [], TotalObjects = 0, TotalHandles = 0, DeleteProcedure = NoDelete\<rparr>),
     g_type_list = [], headers = (\<lambda>_. \<lparr>PointerCount = 0, HandleCount = 0, oh_Type = 0, oh_Name = None, ParentDirectory = 0\<rparr>),
     g_handles = (\<lambda>_. \<lparr>he_Object = 0, GrantedAccess = 0\<rparr>), directories = (\<lambda>_. []), files = (\<lambda>_. zero_file),
     ObpDirectoryType = 0, ObRootDirectory = 0, reported = False, \<dots> = z\<rparr>"

lemma demo_room: obtains p where "pool_room p Map.empty 65488" "user_page (mm p)"
proof -
  obtain p where p: "pool_inv p [fresh_block 65488]" "user_page (mm p)" by (rule demo_user_pool)
  then have "pool_room p Map.empty 65488" unfolding pool_room_def
    by (intro exI [of _ "[fresh_block 65488]"]) (simp add: fresh_block_def)
  then show thesis using p(2) by (rule that)
qed

lemma create_type_room:
  assumes "pool_room (pool s) L k" "192 \<le> k"
  shows "\<exists>t s'. ObCreateObjectType name del s = Some (t, s') \<and> t \<noteq> 0 \<and> pool_room (pool s') (L(t \<mapsto> 48)) (k - 112) \<and>
    g_type_list s' = g_type_list s @ [t] \<and> mm (pool s') = mm (pool s)"
proof -
  from pool_room_alloc [OF assms(1), of 48 "0x65707954"] assms(2) show ?thesis
    by (force simp: ObCreateObjectType_def need_of_def)
qed

lemma create_object_room:
  assumes "pool_room (pool s) L k" "ty \<noteq> 0" "need_of (OB_HDR + n) + 64 \<le> k" "OB_HDR + n \<noteq> 0"
  shows "\<exists>ob s'. ObCreateObject ty n s = Some (STATUS_SUCCESS, ob, s') \<and>
    pool_room (pool s') (L(ObHeaderFromObject ob \<mapsto> unat (OB_HDR + n))) (k - need_of (OB_HDR + n) - 48) \<and> mm (pool s') = mm (pool s)"
proof -
  from pool_room_alloc [OF assms(1,4,3), of "0x6A624F"] assms(2) show ?thesis
    by (force simp: ObCreateObject_def Let_def)
qed

lemma initialize_room:
  assumes room: "pool_room (pool s) L k" "1000 \<le> k"
  shows "\<exists>s' L'. ObInitialize s = Some s' \<and> pool_room (pool s') L' (k - 240) \<and> mm (pool s') = mm (pool s)"
proof -
  have "pool_room (pool (s\<lparr>g_type_list := []\<rparr>)) L k" using room by simp
  from create_type_room [OF this, of "cstr ''Directory''" ObpDirectoryDelete] room(2) obtain t s1 where
    t: "ObCreateObjectType (cstr ''Directory'') ObpDirectoryDelete (s\<lparr>g_type_list := []\<rparr>) = Some (t, s1)" "t \<noteq> 0"
      "pool_room (pool s1) (L(t \<mapsto> 48)) (k - 112)" "mm (pool s1) = mm (pool s)" by auto
  have "pool_room (pool (s1\<lparr>ObpDirectoryType := t\<rparr>)) (L(t \<mapsto> 48)) (k - 112)" using t by simp
  moreover have "144 \<le> k - 112" using room(2) by simp
  ultimately obtain ob s2 where
    o: "ObCreateObject t 16 (s1\<lparr>ObpDirectoryType := t\<rparr>) = Some (STATUS_SUCCESS, ob, s2)"
      "\<exists>L'. pool_room (pool s2) L' (k - 240)" "mm (pool s2) = mm (pool s)"
    using create_object_room [of "s1\<lparr>ObpDirectoryType := t\<rparr>" "L(t \<mapsto> 48)" "k - 112" t 16] t(2,4) by (auto simp: need_of_def)
  then show ?thesis using t by (auto simp: ObInitialize_def ObpInitializeNamespace_def ObInitializeHandleTable_def Let_def)
qed


text \<open>An object that kernel code has just created, beside the root directory.\<close>

lemma demo_object:
  fixes z :: 'z
  obtains s :: "'z ob_state_scheme" and L B held ob where "ob_inv s L B held" "0 < held ob" "held ob < 2 ^ 30" "directories s ob = []"
    "\<not> linked s (ObHeaderFromObject ob)" "0 < held (ObRootDirectory s)" "directories s (ObRootDirectory s) = []"
    "\<forall>i. he_Object (g_handles s i) = 0" "pool_room (pool s) L 65000" "ob_state.more s = z" "user_page (mm (pool s))" "object_type s ob = ObpDirectoryType s"
    "ObpDirectoryType s \<in> set (g_type_list s)"
proof -
  obtain p where p: "pool_room p Map.empty 65488" "user_page (mm p)" by (rule demo_room)
  then have r0: "pool_room (pool (demo_ob p z)) Map.empty 65488" "user_page (mm (pool (demo_ob p z)))" by (simp_all add: demo_ob_def)
  from initialize_room [OF r0(1)] r0(2) obtain s1 L' where s1: "ObInitialize (demo_ob p z) = Some s1" "pool_room (pool s1) L' 65248"
    "user_page (mm (pool s1))" by auto
  have b: "ob_boot (demo_ob p z)" by (simp add: ob_boot_def demo_ob_def)
  from ob_initialize [OF pool_room_rel [OF r0(1)] b s1(1)] obtain L B where
    i: "ob_inv s1 L B ((\<lambda>_. 0)(ObRootDirectory s1 := 1))" "ObpDirectoryType s1 \<in> set (g_type_list s1)"
      "ObHeaderFromObject (ObRootDirectory s1) \<in> B" by blast
  have g: "he_Object (g_handles s1 x) = 0" for x
    using s1(1) by (auto simp: ObInitialize_def ObInitializeHandleTable_def split: bind_splits)
  have d: "directories s1 = (\<lambda>_. [])"
    using s1(1) by (auto simp: ObInitialize_def ObInitializeHandleTable_def ObpInitializeNamespace_def Let_def
        ObCreateObjectType_def ObCreateObject_def demo_ob_def split: bind_splits if_splits prod.splits)
  have mz: "ob_state.more s1 = z"
    using s1(1) by (auto simp: ObInitialize_def ObInitializeHandleTable_def ObpInitializeNamespace_def Let_def
        ObCreateObjectType_def ObCreateObject_def demo_ob_def split: bind_splits if_splits prod.splits)
  have nz: "ObpDirectoryType s1 \<noteq> 0"
    using i(1,2) pool.live_nonzero blocks_okD(2) [of s1 L B] by (fastforce simp: ob_inv_def)
  from create_object_room [OF s1(2) nz, of 32] obtain ob s where
    c: "ObCreateObject (ObpDirectoryType s1) 32 s1 = Some (STATUS_SUCCESS, ob, s)"
      "pool_room (pool s) (L'(ObHeaderFromObject ob \<mapsto> 80)) 65104" "user_page (mm (pool s))" using s1(3) by (auto simp: need_of_def)
  have sz: "unat (32 :: u64) \<le> 2 ^ 60" by simp
  from i(1,2) sz c(1) show thesis
  proof (cases rule: ob_create)
    case success
    have "L' = L" using pool_rel_unique [OF pool_room_rel [OF s1(2)], of L] i(1) by (simp add: ob_inv_def)
    then have "pool_room (pool s) (L(ObHeaderFromObject ob \<mapsto> 80)) 65000"
      using c(2) unfolding pool_room_def by fastforce
    moreover have "ob \<noteq> ObRootDirectory s1" using success(2) i(3) by auto
    ultimately show thesis
      using success d g mz c(3) i(2) by (intro that [of s "L(ObHeaderFromObject ob \<mapsto> 80)" "insert (ObHeaderFromObject ob) B"
        "((\<lambda>_. 0)(ObRootDirectory s1 := 1))(ob := 1)" ob]) (auto simp: linked_def object_type_def)
  qed simp
qed

lemma demo_directory:
  obtains p and s1 s2 s3 :: ob_state and ob where "pool_rel p Map.empty" "ObInitialize (demo_ob p ()) = Some s1"
    "ObCreateDirectory (ObRootDirectory s1) [0x61] s1 = Some (STATUS_SUCCESS, ob, s2)" "ob \<noteq> ObRootDirectory s1"
    "ObLookupObjectByName [BACKSLASH, 0x61] s2 = (STATUS_SUCCESS, ob, s3)" "ObRootDirectory s2 = ObRootDirectory s1" "handles_of s3 ob = {}"
proof -
  obtain p where p: "pool_room p Map.empty 65488" by (rule demo_room)
  then have r0: "pool_room (pool (demo_ob p ())) Map.empty 65488" by (simp add: demo_ob_def)
  from initialize_room [OF r0] obtain s1 L' where s1: "ObInitialize (demo_ob p ()) = Some s1" "pool_room (pool s1) L' 65248" by auto
  have b: "ob_boot (demo_ob p ())" by (simp add: ob_boot_def demo_ob_def)
  let ?held = "(\<lambda>_. 0)(ObRootDirectory s1 := 1)"
  from ob_initialize [OF pool_room_rel [OF r0] b s1(1)] obtain L B where
    i: "ob_inv s1 L B ?held" "ObpDirectoryType s1 \<in> set (g_type_list s1)" "ObHeaderFromObject (ObRootDirectory s1) \<in> B"
      "\<And>h. handle_object s1 h = 0" by blast
  have nz: "ObpDirectoryType s1 \<noteq> 0" using i(1,2) pool.live_nonzero blocks_okD(2) [of s1 L B] by (fastforce simp: ob_inv_def)
  from create_object_room [OF s1(2) nz, of 16] obtain ob s where
    c: "ObCreateObject (ObpDirectoryType s1) 16 s1 = Some (STATUS_SUCCESS, ob, s)" by (auto simp: need_of_def)
  have g: "he_Object (g_handles s1 x) = 0" for x
    using s1(1) by (auto simp: ObInitialize_def ObInitializeHandleTable_def split: bind_splits)
  have d: "directories s1 = (\<lambda>_. [])"
    using s1(1) by (auto simp: ObInitialize_def ObInitializeHandleTable_def ObpInitializeNamespace_def Let_def
        ObCreateObjectType_def ObCreateObject_def demo_ob_def split: bind_splits if_splits prod.splits)
  have sz: "unat (16 :: u64) \<le> 2 ^ 60" by simp
  from i(1,2) sz c show thesis
  proof (cases rule: ob_create)
    case success
    let ?r = "ObRootDirectory s1" and ?h = "ObHeaderFromObject ob"
    have s2: "s\<lparr>directories := (directories s)(ob := [])\<rparr> = s" using success(6,7) by (simp add: fun_upd_idem)
    obtain st s3 where ins: "ObInsertObjectByName ?r [0x61] ob s = (st, s3)" by (cases "ObInsertObjectByName ?r [0x61] ob s")
    have un: "\<not> linked s ?h" using success(11) by (simp add: linked_def)
    have bd: "(?held(ob := 1)) ob < (2 :: nat) ^ 30" by simp
    have ne: "ob \<noteq> ?r" using success(2) i(3) by auto
    have fr: "ObpFindInDirectory s ?r [0x61] = None" using success(7) d by (simp add: ObpFindInDirectory_def)
    have B: "ObHeaderFromObject ?r \<in> insert ?h B" using i(3) by simp
    have io: "st = STATUS_SUCCESS" "directories s3 ?r = [?h]" "oh_Name (headers s3 ?h) = Some [0x61]"
      using ob_insert [OF success(5) B insertI1 un bd ins] fr success(7) d by auto
    have rt: "ObRootDirectory s3 = ?r" "g_handles s3 = g_handles s1"
      using ins success(9,14) by (auto simp: ObInsertObjectByName_def ObReferenceObject_def Let_def split: if_splits)
    have cd: "ObCreateDirectory ?r [0x61] s1 = Some (STATUS_SUCCESS, ob, s3)"
      using c s2 ins io(1) ob_live_nonzero [OF i(1,3)] by (simp add: ObCreateDirectory_def)
    have "ObpFindInDirectory s3 ?r [0x61] = Some ?h" using io(2,3) by (simp add: ObpFindInDirectory_def)
    then have lk: "ObLookupObjectByName [BACKSLASH, 0x61] s3 = (STATUS_SUCCESS, ob, ObReferenceObject ob s3)"
      using rt(1) by (simp add: ObLookupObjectByName_def lookup_loop.simps)
    have "handles_of (ObReferenceObject ob s3) ob = {}" using g rt(2) ob_live_nonzero [OF success(5) insertI1]
      by (auto simp: handles_of_def ObReferenceObject_def)
    then show thesis using pool_room_rel [OF p] s1(1) cd ne lk rt(1) by (intro that)
  qed simp
qed

theorem ob_references_counted_witness:
  "\<exists>p (s1 :: ob_state) s held ob. ObInitialize (demo_ob p ()) = Some s1 \<and>
     ob_step\<^sup>*\<^sup>* (s1, (\<lambda>_. 0)(ObRootDirectory s1 := 1)) (s, held) \<and> held ob = 2 \<and>
     unat (ObGetReferenceCount s ob) = of_bool (linked s (ObHeaderFromObject ob)) + 2"
proof -
  obtain p and s1 s2 s3 :: ob_state and ob where d: "pool_rel p Map.empty" "ObInitialize (demo_ob p ()) = Some s1"
    "ObCreateDirectory (ObRootDirectory s1) [0x61] s1 = Some (STATUS_SUCCESS, ob, s2)" "ob \<noteq> ObRootDirectory s1"
    "ObLookupObjectByName [BACKSLASH, 0x61] s2 = (STATUS_SUCCESS, ob, s3)" "ObRootDirectory s2 = ObRootDirectory s1" "handles_of s3 ob = {}"
    by (rule demo_directory)
  let ?h0 = "(\<lambda>_. 0)(ObRootDirectory s1 := 1) :: u64 \<Rightarrow> nat"
  have "ob_step (s1, ?h0) (s2, ?h0(ob := 1))" using ob_step.new_directory [of "ObRootDirectory s1" ?h0, OF _ d(3)] by (simp add: NT_SUCCESS_def)
  moreover have "ob_step (s2, ?h0(ob := 1)) (s3, ?h0(ob := 2))"
  proof -
    have "0 < (?h0(ob := 1)) (ObRootDirectory s2)" "(?h0(ob := 1)) ob < 2 ^ 30" using d(4,6) by simp_all
    from ob_step.lookup [where held = "?h0(ob := 1)", OF this d(5)] show ?thesis by (simp add: NT_SUCCESS_def numeral_2_eq_2)
  qed
  ultimately have st: "ob_step\<^sup>*\<^sup>* (s1, ?h0) (s3, ?h0(ob := 2))" by (meson r_into_rtranclp rtranclp_trans)
  have p: "pool_rel (pool (demo_ob p ())) Map.empty" "ob_boot (demo_ob p ())" using d(1) by (simp_all add: ob_boot_def demo_ob_def)
  from ob_references_counted [OF p d(2) st] d(7) have "unat (ObGetReferenceCount s3 ob) = of_bool (linked s3 (ObHeaderFromObject ob)) + 2"
    by (auto dest: spec [of _ ob])
  then show ?thesis using d(2) st by (intro exI [of _ p] exI [of _ s1] exI [of _ s3] exI [of _ "?h0(ob := 2)"] exI [of _ ob]) simp
qed

theorem ObDereferenceObject_correct_witness:
  "\<exists>(s :: ob_state) ob s'. ObDereferenceObject ob s = Some s'"
proof -
  obtain s :: ob_state and L B held ob where "ob_inv s L B held" "0 < held ob" "directories s ob = []" by (rule demo_object [where z = "()"])
  from ObDereferenceObject_correct [OF this] show ?thesis by blast
qed

theorem ob_handle_roundtrip_witness:
  "\<exists>(s :: ob_state) ob h s1. ObCreateHandle ob GENERIC_ALL s = (STATUS_SUCCESS, h, s1) \<and>
     ObReferenceObjectByHandle h 1 0 s1 = (STATUS_SUCCESS, ob, ObReferenceObject ob s1)"
proof -
  obtain s :: ob_state and L B held ob where d: "ob_inv s L B held" "0 < held ob" "held ob < 2 ^ 30"
    "\<forall>i. he_Object (g_handles s i) = 0" by (rule demo_object [where z = "()"])
  have hB: "ObHeaderFromObject ob \<in> B" using d by (simp add: ob_inv_def)
  obtain st h s1 where c: "ObCreateHandle ob GENERIC_ALL s = (st, h, s1)" by (cases "ObCreateHandle ob GENERIC_ALL s") auto
  have "(0 :: u32) < OB_MAX_HANDLES" by simp
  then have "st = STATUS_SUCCESS" using ob_create_handle(2) [OF d(1) hB d(3) c] d(4) by blast
  with c ob_handle_roundtrip [OF d(1-3), of GENERIC_ALL h s1 1 0] show ?thesis by (auto simp: Let_def)
qed

theorem ob_namespace_roundtrip_witness:
  "\<exists>(s :: ob_state) ob s' s''. ObInsertObjectByName (ObRootDirectory s) [0x61] ob s = (STATUS_SUCCESS, s') \<and>
     ObLookupObjectByName [BACKSLASH, 0x61] s' = (STATUS_SUCCESS, ob, s'')"
proof -
  obtain s :: ob_state and L B held ob where d: "ob_inv s L B held" "0 < held ob" "held ob < 2 ^ 30"
    "\<not> linked s (ObHeaderFromObject ob)" "0 < held (ObRootDirectory s)" "directories s (ObRootDirectory s) = []"
    by (rule demo_object [where z = "()"])
  have B: "ObHeaderFromObject (ObRootDirectory s) \<in> B" "ObHeaderFromObject ob \<in> B" using d by (simp_all add: ob_inv_def)
  obtain st s' where c: "ObInsertObjectByName (ObRootDirectory s) [0x61] ob s = (st, s')"
    by (cases "ObInsertObjectByName (ObRootDirectory s) [0x61] ob s") auto
  have "ObpFindInDirectory s (ObRootDirectory s) [0x61] = None" using d(6) by (simp add: ObpFindInDirectory_def)
  then have "st = STATUS_SUCCESS" using ob_insert [OF d(1) B d(4,3) c] by auto
  with c ob_namespace_roundtrip [OF d(1,5,2,3,4), of "[]" "[0x61]" s' 0] show ?thesis
    by (auto simp: valid_segment_def path_of_def)
qed

end
