(* ===== verification/Rtl_Bytes.thy ===== *)
theory Rtl_Bytes
  imports Mm_Multiboot
begin

text \<open>
  Stores to byte-addressed memory, the counterpart of the loads of \<open>Mm_Multiboot\<close>: an assignment through a
  \<^verbatim>\<open>UINT32 *\<close> or \<^verbatim>\<open>UINT64 *\<close> writes the little-endian bytes of the value. The lemmas say what a load sees
  after a store, at the same place and at a disjoint one.
\<close>

primrec store_bytes :: "u64 \<Rightarrow> u8 list \<Rightarrow> (u64 \<Rightarrow> u8) \<Rightarrow> (u64 \<Rightarrow> u8)" where
  "store_bytes a [] m = m"
| "store_bytes a (b # bs) m = store_bytes (a + 1) bs (m(a := b))"

definition le16 :: "u16 \<Rightarrow> u8 list" where
  "le16 w = [ucast w, ucast (drop_bit 8 w)]"

definition st32 :: "u64 \<Rightarrow> u32 \<Rightarrow> (u64 \<Rightarrow> u8) \<Rightarrow> (u64 \<Rightarrow> u8)" where
  "st32 a v m = store_bytes a (le32 v) m"

definition st64 :: "u64 \<Rightarrow> u64 \<Rightarrow> (u64 \<Rightarrow> u8) \<Rightarrow> (u64 \<Rightarrow> u8)" where
  "st64 a v m = store_bytes a (le64 v) m"

text \<open>The addresses of \<open>n\<close> bytes from \<open>a\<close> on.\<close>

definition span :: "u64 \<Rightarrow> nat \<Rightarrow> u64 set" where
  "span a n = {a + of_nat i | i. i < n}"

lemma span_iff: "n \<le> 2 ^ 64 \<Longrightarrow> x \<in> span a n \<longleftrightarrow> unat (x - a) < n"
proof
  assume n: "n \<le> 2 ^ 64" and "x \<in> span a n"
  then obtain i where "i < n" "x = a + of_nat i" by (auto simp: span_def)
  then show "unat (x - a) < n" using n by (simp add: unat_of_nat)
next
  assume "unat (x - a) < n"
  then show "x \<in> span a n" unfolding span_def by (intro CollectI exI [of _ "unat (x - a)"]) simp
qed

lemma span_Suc: "span a (Suc n) = insert a (span (a + 1) n)"
  unfolding span_def
proof (intro equalityI subsetI)
  fix x assume "x \<in> {a + of_nat i | i. i < Suc n}"
  then obtain i where "x = a + of_nat i" "i < Suc n" by auto
  then show "x \<in> insert a {a + 1 + of_nat i | i. i < n}"
    by (cases i) (auto simp: algebra_simps)
next
  fix x assume "x \<in> insert a {a + 1 + of_nat i | i. i < n}"
  then show "x \<in> {a + of_nat i | i. i < Suc n}"
    by (auto simp: algebra_simps intro: exI [of _ 0] exI [of _ "Suc _"])
qed

lemma store_frame: "x \<notin> span a (length bs) \<Longrightarrow> store_bytes a bs m x = m x"
  by (induction bs arbitrary: a m) (simp_all add: span_Suc)

lemma store_holds:
  assumes "length bs \<le> 2 ^ 64"
  shows "mem_holds (store_bytes a bs m) a bs"
  using assms
proof (induction bs arbitrary: a m)
  case (Cons b bs)
  have "a \<notin> span (a + 1) (length bs)"
  proof -
    have "unat (a - (a + 1)) = 2 ^ 64 - 1" by (simp add: unsigned_minus_1_eq_mask mask_eq_exp_minus_1)
    then show ?thesis using Cons.prems span_iff [of "length bs" a "a + 1"] by simp
  qed
  then show ?case using Cons by (simp add: mem_holds_Cons store_frame)
qed simp

lemma holds_store_frame:
  assumes "mem_holds m b cs" and "\<And>x. x \<in> span b (length cs) \<Longrightarrow> x \<notin> span a (length bs)"
  shows "mem_holds (store_bytes a bs m) b cs"
  unfolding mem_holds_def
proof (intro allI impI)
  fix i assume "i < length cs"
  then have "b + of_nat i \<in> span b (length cs)" by (auto simp: span_def)
  with assms(1) \<open>i < length cs\<close> show "store_bytes a bs m (b + of_nat i) = cs ! i"
    by (simp add: store_frame assms(2) mem_holds_def)
qed

lemma ld_cong:
  assumes "\<And>x. x \<in> span a 4 \<Longrightarrow> m x = m' x"
  shows "ld32 m a = ld32 m' a"
  using assms by (simp add: ld32_def span_Suc add.assoc eval_nat_numeral)

lemma ld32_st32 [simp]: "ld32 (st32 a v m) a = v"
  by (rule ld32_le32) (simp add: st32_def store_holds)

lemma ld64_st64 [simp]: "ld64 (st64 a v m) a = v"
  by (rule ld64_le64) (simp add: st64_def store_holds)

lemma multiple_once: "(n :: nat) mod m = 0 \<Longrightarrow> 0 < n \<Longrightarrow> n < 2 * m \<Longrightarrow> n = m"
proof -
  assume "n mod m = 0" "0 < n" "n < 2 * m"
  then obtain k where k: "n = k * m" by (metis mod_0_imp_dvd dvd_div_mult_self)
  with \<open>0 < n\<close> \<open>n < 2 * m\<close> have "0 < k" "k < 2" by (auto simp: mult_less_cancel2)
  then have "k = 1" by simp
  with k show ?thesis by simp
qed

lemma unat_diff_sum:
  fixes a b :: u64
  assumes "a \<noteq> b"
  shows "unat (a - b) + unat (b - a) = 2 ^ 64"
proof -
  have "unat ((a - b) + (b - a)) = (unat (a - b) + unat (b - a)) mod 2 ^ 64"
    by (subst unat_word_ariths(1)) (simp only: len_num1 len_num0 len_bit0 len_bit1, simp)
  then have z: "(unat (a - b) + unat (b - a)) mod 2 ^ 64 = 0" by simp
  have "0 < unat (a - b)" using assms by (metis neq0_conv right_minus_eq unat_eq_zero)
  moreover have "unat (a - b) < 2 ^ 64" "unat (b - a) < 2 ^ 64" by (rule unat_less_64)+
  ultimately have "0 < unat (a - b) + unat (b - a)" "unat (a - b) + unat (b - a) < 2 * 2 ^ 64" by linarith+
  with z show ?thesis by (rule multiple_once)
qed

lemma span_apart:
  assumes "n \<le> unat (a - b)" and "n \<le> unat (b - a)" and "x \<in> span b n"
  shows "x \<notin> span a n"
proof (cases "a = b")
  case True
  then show ?thesis using assms by (simp add: span_def)
next
  case False
  obtain i where i: "i < n" "x = b + of_nat i" using assms(3) by (auto simp: span_def)
  have s: "unat (a - b) + unat (b - a) = 2 ^ 64" by (rule unat_diff_sum [OF False])
  then have lt: "unat (b - a) + i < 2 ^ 64" using assms i(1) by linarith
  have "x - a = (b - a) + of_nat i" by (simp add: i algebra_simps)
  moreover have "unat ((b - a) + of_nat i) = unat (b - a) + i"
  proof -
    have "unat (of_nat i :: u64) = i" using lt by (intro unat_of_nat_id) simp
    moreover have "unat ((b - a) + of_nat i) = (unat (b - a) + unat (of_nat i :: u64)) mod 2 ^ 64"
      by (subst unat_word_ariths(1)) (simp only: len_num1 len_num0 len_bit0 len_bit1, simp)
    ultimately show ?thesis using lt by (simp only: mod_less)
  qed
  ultimately have "unat (x - a) = unat (b - a) + i" by (simp only:)
  then have "\<not> unat (x - a) < n" using assms(2) by linarith
  moreover have "n \<le> 2 ^ 64" using assms(1) unat_less_64 [of "a - b"] by linarith
  ultimately show ?thesis by (simp only: span_iff not_False_eq_True)
qed

lemma ld32_st32_other:
  assumes "4 \<le> unat (a - b)" and "4 \<le> unat (b - a)"
  shows "ld32 (st32 a v m) b = ld32 m b"
  unfolding st32_def
proof (rule ld_cong, rule store_frame)
  fix x assume "x \<in> span b 4"
  from span_apart [OF assms this] show "x \<notin> span a (length (le32 v))" by (simp only: length_le not_False_eq_True)
qed

section \<open>User memory\<close>

text \<open>Kernel code writes the memory of user space through the pool state's memory manager, which is where the whole
  address space is kept. Such a write changes neither page tables nor pool blocks.\<close>

definition upd_umem :: "((u64 \<Rightarrow> u8) \<Rightarrow> (u64 \<Rightarrow> u8)) \<Rightarrow> pool_state \<Rightarrow> pool_state" where
  "upd_umem f p = p\<lparr>mm := (mm p)\<lparr>umem := f (umem (mm p))\<rparr>\<rparr>"

lemma upd_umem_simps [simp]:
  "umem (mm (upd_umem f p)) = f (umem (mm p))" "pmm (mm (upd_umem f p)) = pmm (mm p)" "ptm (mm (upd_umem f p)) = ptm (mm p)"
  "g_kernel_pml4_phys (mm (upd_umem f p)) = g_kernel_pml4_phys (mm p)" "MmDirectMapBase (mm (upd_umem f p)) = MmDirectMapBase (mm p)"
  by (simp_all add: upd_umem_def)

lemma upd_umem_inv: "pool_inv (upd_umem f p) bs = pool_inv p bs"
  by (simp add: pool_inv_def arena_ok_def vmm_inv_def vmm_ok_def pool_list_def upd_umem_def MmGetPhysicalAddress_def Let_def)

lemma upd_umem_rel [simp]: "pool_rel (upd_umem f p) L = pool_rel p L"
  by (simp add: pool_rel_def upd_umem_inv)

lemma upd_umem_room [simp]: "pool_room (upd_umem f p) L k = pool_room p L k"
  by (simp add: pool_room_def upd_umem_inv)

lemma upd_umem_phys [simp]: "MmGetPhysicalAddress (mm (upd_umem f p)) = MmGetPhysicalAddress (mm p)"
  by (rule ext) (simp add: MmGetPhysicalAddress_def Let_def)

lemma store_append: "store_bytes a (xs @ ys) m = store_bytes (a + of_nat (length xs)) ys (store_bytes a xs m)"
  by (induction xs arbitrary: a m) (simp_all add: algebra_simps)

lemma span_mono: "m \<le> n \<Longrightarrow> span a m \<subseteq> span a n"
  by (auto simp: span_def)

lemma MmProbeForWrite_total: "\<exists>b. MmProbeForWrite s va len = Some b"
  using MmProbeForRead_total [of s va len] by (simp add: MmProbeForWrite_def)

lemma capture_total: "\<exists>ok out. MmCaptureUnicodeName s u n = Some (ok, out)"
proof -
  obtain f where f: "\<And>va len. MmProbeForRead s va len = Some (f va len)" using MmProbeForRead_total [of s] by metis
  show ?thesis by (cases "n = 0"; cases "f u 16") (auto simp: MmCaptureUnicodeName_def f Let_def split: if_splits)
qed

lemma upd_umem_id [simp]: "upd_umem (\<lambda>m. m) p = p"
  by (simp add: upd_umem_def)

lemma upd_umem_comp: "upd_umem f (upd_umem g p) = upd_umem (f \<circ> g) p"
  by (simp add: upd_umem_def)

text \<open>A range of memory as a list.\<close>

definition read_bytes :: "(u64 \<Rightarrow> u8) \<Rightarrow> u64 \<Rightarrow> nat \<Rightarrow> u8 list" where
  "read_bytes m a n = map (\<lambda>i. m (a + of_nat i)) [0..<n]"

end
