(* ===== verification/Ke_Thread.thy ===== *)
theory Ke_Thread
  imports Ob_Object Rtl_Bytes
begin

text \<open>
  Threads, the scheduler, the dispatcher objects and the shared user page: \<^verbatim>\<open>kernel/ke/thread.c\<close>, \<^verbatim>\<open>dispatcher.c\<close>,
  \<^verbatim>\<open>shared.c\<close> and the per-CPU setters of \<^verbatim>\<open>syscall.c\<close>. Threads and dispatcher headers are named by address; the
  intrusive lists (ready queue, thread list, wait lists) are the lists of their entries, as in \<open>Rtl_List\<close>, an entry
  of a wait list being the pair of a thread and the index of its wait block. The machine has one CPU and the routines run
  with interrupts disabled, so each is one step. A call of \<^verbatim>\<open>KeWaitForMultipleObjects\<close> that blocks leaves its
  local variables on the thread's kernel stack: \<open>frames\<close> keeps them, and \<open>KiResumeWait\<close> is the rest of the
  loop body, which runs when the thread is switched to again. FPU images are not modelled.

  \<open>sched_inv\<close> is the invariant: the ready queue holds exactly the ready threads, a thread is on the wait lists of
  exactly the objects it waits for, no waiting thread could be satisfied or has an expired deadline. The last
  sections show that every step keeps it, that a ready thread runs after a bounded number of clock ticks, and
  what a wait returns.
\<close>

section \<open>State\<close>

datatype KTHREAD_STATE = ThreadStateInitialized | ThreadStateReady | ThreadStateRunning | ThreadStateWaiting
  | ThreadStateTerminated

datatype DISPATCHER_TYPE = EventNotificationObject | EventSynchronizationObject | SemaphoreObject | MutantObject
  | ThreadObject

record DISPATCHER_HEADER =
  d_Type :: DISPATCHER_TYPE
  SignalState :: u32
  WaitListHead :: "(u64 \<times> nat) list"
  Limit :: u32

record KWAIT_BLOCK =
  wb_Thread :: u64
  wb_Object :: u64

record KTHREAD =
  KernelStackPointer :: u64
  KernelStackBase :: u64
  KernelStackSize :: u64
  State :: KTHREAD_STATE
  Priority :: u32
  Quantum :: u32
  StartRoutine :: u64
  StartContext :: u64
  ThreadId :: u32
  kt_Name :: cstring
  UserMode :: bool
  UserEntry :: u64
  UserStack :: u64
  UserGsBase :: u64
  UserArg :: u64
  WaitBlocks :: "nat \<Rightarrow> KWAIT_BLOCK"
  WaitBlockCount :: u32
  WaitDeadline :: u64
  WaitStatus :: ntstatus
  TerminationObject :: u64

text \<open>The local variables of \<^verbatim>\<open>KeWaitForMultipleObjects\<close>.\<close>

record wait_frame =
  wf_objects :: "u64 list"
  wf_wait_all :: bool
  wf_timeout_ticks :: u64
  wf_deadline :: u64

record KPCR =
  kpcr_KernelRsp :: u64
  kpcr_CurrentThread :: u64
  tss_rsp0 :: u64
  msr_kernel_gs_base :: u64

record sched_state =
  threads :: "u64 \<Rightarrow> KTHREAD"
  disp :: "u64 \<Rightarrow> DISPATCHER_HEADER"
  frames :: "u64 \<Rightarrow> wait_frame option"
  g_idle_thread :: u64
  g_current_thread :: u64
  g_ready_queue :: "u64 list"
  ThreadListHead :: "u64 list"
  g_next_thread_id :: u32
  g_tick_count :: u64
  g_kusd :: u64
  kusd_mem :: "u64 \<Rightarrow> u8"
  g_kpcr :: u64
  kpcr :: KPCR
  cpu_rsp :: u64
  kstack :: "u64 \<Rightarrow> u64"
  KiThreadStartup :: u64

record kernel = ob_state +
  ke :: sched_state

abbreviation "DEFAULT_QUANTUM \<equiv> (2 :: u32)"
abbreviation "THREAD_STACK_SIZE \<equiv> (0x4000 :: u64)"
abbreviation "SIZEOF_KTHREAD \<equiv> (0xB40 :: u64)"
abbreviation "KE_MAXIMUM_WAIT_OBJECTS \<equiv> (64 :: nat)"
abbreviation "INFINITE_TICKS \<equiv> (0xFFFFFFFFFFFFFFFF :: u64)"

definition upd_thread :: "u64 \<Rightarrow> (KTHREAD \<Rightarrow> KTHREAD) \<Rightarrow> sched_state \<Rightarrow> sched_state" where
  "upd_thread t f s = s\<lparr>threads := (threads s)(t := f (threads s t))\<rparr>"

definition upd_disp :: "u64 \<Rightarrow> (DISPATCHER_HEADER \<Rightarrow> DISPATCHER_HEADER) \<Rightarrow> sched_state \<Rightarrow> sched_state" where
  "upd_disp h f s = s\<lparr>disp := (disp s)(h := f (disp s h))\<rparr>"

definition zero_thread :: KTHREAD where
  "zero_thread = \<lparr>KernelStackPointer = 0, KernelStackBase = 0, KernelStackSize = 0, State = ThreadStateInitialized,
     Priority = 0, Quantum = 0, StartRoutine = 0, StartContext = 0, ThreadId = 0, kt_Name = [], UserMode = False,
     UserEntry = 0, UserStack = 0, UserGsBase = 0, UserArg = 0, WaitBlocks = (\<lambda>_. \<lparr>wb_Thread = 0, wb_Object = 0\<rparr>),
     WaitBlockCount = 0, WaitDeadline = 0, WaitStatus = 0, TerminationObject = 0\<rparr>"

section \<open>The shared user page\<close>

abbreviation "KUSER_SHARED_DATA_USER_VA \<equiv> (0x7FFE0000 :: u64)"
abbreviation "KUSD_TickCountMultiplier \<equiv> (0x004 :: u32)"
abbreviation "KUSD_SystemTime \<equiv> (0x014 :: u32)"
abbreviation "KUSD_TickCount \<equiv> (0x320 :: u32)"
abbreviation "HUNDRED_NS_PER_TICK \<equiv> (100000 :: u64)"

definition wr32 :: "u32 \<Rightarrow> u32 \<Rightarrow> sched_state \<Rightarrow> sched_state" where
  "wr32 off v s = s\<lparr>kusd_mem := st32 (g_kusd s + ucast off) v (kusd_mem s)\<rparr>"

definition KeUpdateSharedData :: "u64 \<Rightarrow> sched_state \<Rightarrow> sched_state" where
  "KeUpdateSharedData ticks s =
     (if g_kusd s = 0 then s
      else
        (let tlow = ucast ticks; thigh = ucast (drop_bit 32 ticks);
             s1 = wr32 (KUSD_TickCount + 4) thigh s;
             s2 = wr32 KUSD_TickCount tlow s1;
             s3 = wr32 (KUSD_TickCount + 8) thigh s2;
             systime = ticks * HUNDRED_NS_PER_TICK;
             slow = ucast systime; shigh = ucast (drop_bit 32 systime);
             s4 = wr32 (KUSD_SystemTime + 4) shigh s3;
             s5 = wr32 KUSD_SystemTime slow s4
         in wr32 (KUSD_SystemTime + 8) shigh s5))"

definition KeInitializeSharedData :: "'z kernel_scheme \<Rightarrow> 'z kernel_scheme option" where
  "KeInitializeSharedData s =
     (let v = mm (pool s); (pa, pm) = MmAllocatePage (pmm v); v1 = v\<lparr>pmm := pm\<rparr>
      in if pa = MM_INVALID_PHYS then Some (s\<lparr>pool := (pool s)\<lparr>mm := v1\<rparr>\<rparr>)
         else do {
           (_, v2) \<leftarrow> MmMapPage KUSER_SHARED_DATA_USER_VA pa PTE_USER v1;
           let k = ke s;
           let k1 = k\<lparr>g_kusd := pa + MmDirectMapBase v2\<rparr>;
           let k2 = k1\<lparr>kusd_mem := store_bytes (g_kusd k1) (replicate 4096 0) (kusd_mem k1)\<rparr>;
           let k3 = wr32 KUSD_TickCountMultiplier (push_bit 24 10) k2;
           let k4 = KeUpdateSharedData (g_tick_count k3) k3;
           Some (s\<lparr>pool := (pool s)\<lparr>mm := v2\<rparr>, ke := k4\<rparr>)
         })"

section \<open>The CPU block\<close>

definition KeSetCurrentThread :: "u64 \<Rightarrow> sched_state \<Rightarrow> sched_state" where
  "KeSetCurrentThread t s = s\<lparr>kpcr := (kpcr s)\<lparr>kpcr_CurrentThread := t\<rparr>\<rparr>"

definition KeSetKernelStack :: "u64 \<Rightarrow> sched_state \<Rightarrow> sched_state" where
  "KeSetKernelStack rsp s = s\<lparr>kpcr := (kpcr s)\<lparr>kpcr_KernelRsp := rsp, tss_rsp0 := rsp\<rparr>\<rparr>"

definition KeSetUserGsBase :: "u64 \<Rightarrow> sched_state \<Rightarrow> sched_state" where
  "KeSetUserGsBase teb s = s\<lparr>kpcr := (kpcr s)\<lparr>msr_kernel_gs_base := (if teb \<noteq> 0 then teb else g_kpcr s)\<rparr>\<rparr>"

text \<open>\<^verbatim>\<open>KiSwitchContext\<close> of \<^verbatim>\<open>switch.asm\<close>: six registers are pushed before the stack pointer is saved, and popped after the new
  one is loaded.\<close>

definition KiSwitchContext :: "u64 \<Rightarrow> u64 \<Rightarrow> sched_state \<Rightarrow> sched_state" where
  "KiSwitchContext prev next s =
     (let load_rsp = KernelStackPointer (threads s next);
          s1 = upd_thread prev (\<lambda>t. t\<lparr>KernelStackPointer := cpu_rsp s - 48\<rparr>) s
      in s1\<lparr>cpu_rsp := load_rsp + 48\<rparr>)"

section \<open>The scheduler\<close>

definition KeInitializeScheduler :: "sched_state \<Rightarrow> sched_state" where
  "KeInitializeScheduler s =
     (let s1 = s\<lparr>g_ready_queue := [], ThreadListHead := []\<rparr>;
          s2 = upd_thread (g_idle_thread s) (\<lambda>_. zero_thread\<lparr>State := ThreadStateRunning, kt_Name := cstr ''Idle''\<rparr>) s1;
          s3 = s2\<lparr>ThreadListHead := ThreadListHead s2 @ [g_idle_thread s], g_current_thread := g_idle_thread s\<rparr>;
          s4 = KeSetCurrentThread (g_idle_thread s) s3
      in s4\<lparr>g_next_thread_id := 1\<rparr>)"

definition KepAllocThread :: "cstring \<Rightarrow> u32 \<Rightarrow> 'z kernel_scheme \<Rightarrow> (u64 \<times> 'z kernel_scheme) option" where
  "KepAllocThread name priority s =
     do {
       (t, p) \<leftarrow> ExAllocatePoolWithTag NonPagedPool SIZEOF_KTHREAD 0x7268744B (pool s);
       let s1 = s\<lparr>pool := p\<rparr>;
       if t = 0 then Some (0, s1)
       else do {
         let s2 = s1\<lparr>ke := upd_thread t (\<lambda>_. zero_thread) (ke s1)\<rparr>;
         (stack, p2) \<leftarrow> ExAllocatePoolWithTag NonPagedPool THREAD_STACK_SIZE 0x6B74734B (pool s2);
         let s3 = s2\<lparr>pool := p2\<rparr>;
         if stack = 0 then do {
           p3 \<leftarrow> ExFreePool t (pool s3);
           Some (0, s3\<lparr>pool := p3\<rparr>)
         } else do {
           let sp = stack + THREAD_STACK_SIZE;
           let k = ke s3;
           let k1 = k\<lparr>kstack := (kstack k)(sp - 8 := KiThreadStartup k, sp - 16 := 0, sp - 24 := 0, sp - 32 := 0,
                        sp - 40 := 0, sp - 48 := 0, sp - 56 := 0)\<rparr>;
           let k2 = upd_thread t (\<lambda>x. x\<lparr>KernelStackBase := stack, KernelStackSize := THREAD_STACK_SIZE,
                        KernelStackPointer := sp - 56, State := ThreadStateReady, Priority := priority,
                        Quantum := DEFAULT_QUANTUM, ThreadId := g_next_thread_id k1, kt_Name := name\<rparr>) k1;
           Some (t, s3\<lparr>ke := k2\<lparr>g_next_thread_id := g_next_thread_id k2 + 1\<rparr>\<rparr>)
         }
       }
     }"

definition KepEnqueueThread :: "u64 \<Rightarrow> sched_state \<Rightarrow> sched_state" where
  "KepEnqueueThread t s = s\<lparr>g_ready_queue := g_ready_queue s @ [t], ThreadListHead := ThreadListHead s @ [t]\<rparr>"

definition KeCreateThread :: "cstring \<Rightarrow> u64 \<Rightarrow> u64 \<Rightarrow> u32 \<Rightarrow> 'z kernel_scheme \<Rightarrow> (u64 \<times> 'z kernel_scheme) option" where
  "KeCreateThread name routine start_context priority s =
     do {
       (t, s1) \<leftarrow> KepAllocThread name priority s;
       if t = 0 then Some (0, s1)
       else
         (let k1 = upd_thread t (\<lambda>x. x\<lparr>StartRoutine := routine, StartContext := start_context\<rparr>) (ke s1)
          in Some (t, s1\<lparr>ke := KepEnqueueThread t k1\<rparr>))
     }"

definition KeCreateUserThread ::
    "cstring \<Rightarrow> u64 \<Rightarrow> u64 \<Rightarrow> u64 \<Rightarrow> u64 \<Rightarrow> u32 \<Rightarrow> 'z kernel_scheme \<Rightarrow> (u64 \<times> 'z kernel_scheme) option" where
  "KeCreateUserThread name user_entry user_stack user_gs_base user_arg priority s =
     do {
       (t, s1) \<leftarrow> KepAllocThread name priority s;
       if t = 0 then Some (0, s1)
       else
         (let k1 = upd_thread t (\<lambda>x. x\<lparr>UserMode := True, UserEntry := user_entry, UserStack := user_stack,
                     UserGsBase := user_gs_base, UserArg := user_arg\<rparr>) (ke s1);
              p1 = (if user_gs_base \<noteq> 0 then
                      upd_umem (st64 (user_gs_base + 0x48) (ucast (ThreadId (threads k1 t)))) (pool s1)
                    else pool s1)
          in Some (t, s1\<lparr>ke := KepEnqueueThread t k1, pool := p1\<rparr>))
     }"

definition KiSchedule :: "sched_state \<Rightarrow> sched_state" where
  "KiSchedule s =
     (let prev = g_current_thread s;
          (next, s1) = (case g_ready_queue s of [] \<Rightarrow> (g_idle_thread s, s) | e # es \<Rightarrow> (e, s\<lparr>g_ready_queue := es\<rparr>));
          s2 = (if prev \<noteq> g_idle_thread s \<and> State (threads s1 prev) = ThreadStateRunning then
                  (let s' = upd_thread prev (\<lambda>t. t\<lparr>State := ThreadStateReady\<rparr>) s1
                   in s'\<lparr>g_ready_queue := g_ready_queue s' @ [prev]\<rparr>)
                else s1)
      in if prev = next then upd_thread prev (\<lambda>t. t\<lparr>State := ThreadStateRunning\<rparr>) s2
         else
           (let s3 = upd_thread next (\<lambda>t. t\<lparr>State := ThreadStateRunning, Quantum := DEFAULT_QUANTUM\<rparr>) s2;
                s4 = KeSetCurrentThread next (s3\<lparr>g_current_thread := next\<rparr>);
                nt = threads s4 next;
                s5 = (if KernelStackBase nt \<noteq> 0 then KeSetKernelStack (KernelStackBase nt + KernelStackSize nt) s4 else s4);
                s6 = KeSetUserGsBase (UserGsBase nt) s5
            in KiSwitchContext prev next s6))"

definition KeYield :: "sched_state \<Rightarrow> sched_state" where
  "KeYield s = KiSchedule s"

definition KiReadyThread :: "u64 \<Rightarrow> sched_state \<Rightarrow> sched_state" where
  "KiReadyThread t s =
     (if State (threads s t) = ThreadStateWaiting then
        (let s1 = upd_thread t (\<lambda>x. x\<lparr>State := ThreadStateReady\<rparr>) s
         in s1\<lparr>g_ready_queue := g_ready_queue s1 @ [t]\<rparr>)
      else s)"

definition KiBlockCurrentThread :: "sched_state \<Rightarrow> sched_state" where
  "KiBlockCurrentThread s = KiSchedule s"

section \<open>The dispatcher\<close>

definition KiCanAcquire :: "sched_state \<Rightarrow> u64 \<Rightarrow> bool" where
  "KiCanAcquire s h = (case d_Type (disp s h) of
       EventNotificationObject \<Rightarrow> 0 < sint (SignalState (disp s h))
     | ThreadObject \<Rightarrow> 0 < sint (SignalState (disp s h))
     | EventSynchronizationObject \<Rightarrow> 0 < sint (SignalState (disp s h))
     | SemaphoreObject \<Rightarrow> 0 < sint (SignalState (disp s h))
     | MutantObject \<Rightarrow> 0 < sint (SignalState (disp s h)))"

definition KiConsumeSignal :: "u64 \<Rightarrow> sched_state \<Rightarrow> sched_state" where
  "KiConsumeSignal h s = (case d_Type (disp s h) of
       EventNotificationObject \<Rightarrow> s
     | ThreadObject \<Rightarrow> s
     | EventSynchronizationObject \<Rightarrow> upd_disp h (\<lambda>d. d\<lparr>SignalState := 0\<rparr>) s
     | SemaphoreObject \<Rightarrow> upd_disp h (\<lambda>d. d\<lparr>SignalState := SignalState d - 1\<rparr>) s
     | MutantObject \<Rightarrow> upd_disp h (\<lambda>d. d\<lparr>SignalState := SignalState d - 1\<rparr>) s)"

text \<open>\<^verbatim>\<open>RemoveEntryList\<close> takes a wait block off the list it is on, whichever that is; on a self-linked entry it is skipped.\<close>

definition remove_wait_entry :: "u64 \<times> nat \<Rightarrow> sched_state \<Rightarrow> sched_state" where
  "remove_wait_entry e s = s\<lparr>disp := (\<lambda>h. (disp s h)\<lparr>WaitListHead := remove1 e (WaitListHead (disp s h))\<rparr>)\<rparr>"

definition KiUnlinkThreadWait :: "u64 \<Rightarrow> sched_state \<Rightarrow> sched_state" where
  "KiUnlinkThreadWait t s = fold (\<lambda>i. remove_wait_entry (t, i)) [0..<unat (WaitBlockCount (threads s t))] s"

definition KiWakeWaitingThread :: "u64 \<Rightarrow> ntstatus \<Rightarrow> sched_state \<Rightarrow> sched_state" where
  "KiWakeWaitingThread t status s =
     (if State (threads s t) \<noteq> ThreadStateWaiting then s
      else
        (let s1 = KiUnlinkThreadWait t s;
             s2 = upd_thread t (\<lambda>x. x\<lparr>WaitStatus := status, WaitDeadline := 0\<rparr>) s1
         in KiReadyThread t s2))"

text \<open>The loop of \<^verbatim>\<open>KiSignalObject\<close> pops the head of the list and wakes its thread. A wait list only shrinks meanwhile.\<close>

lemma unlink_shrinks:
  "length (WaitListHead (disp (fold (\<lambda>i. remove_wait_entry (t, i)) is s) h)) \<le> length (WaitListHead (disp s h))"
proof (induction "is" arbitrary: s)
  case (Cons i js)
  have "length (WaitListHead (disp (remove_wait_entry (t, i) s) h)) \<le> length (WaitListHead (disp s h))"
    by (simp add: remove_wait_entry_def length_remove1)
  with Cons [of "remove_wait_entry (t, i) s"] show ?case by simp
qed simp

lemma wake_shrinks: "length (WaitListHead (disp (KiWakeWaitingThread t st s) h)) \<le> length (WaitListHead (disp s h))"
  using unlink_shrinks [of t "[0..<unat (WaitBlockCount (threads s t))]" s h]
  by (simp add: KiWakeWaitingThread_def KiUnlinkThreadWait_def KiReadyThread_def upd_thread_def Let_def)

function KiSignalObject :: "u64 \<Rightarrow> sched_state \<Rightarrow> sched_state" where
  "KiSignalObject h s =
     (case WaitListHead (disp s h) of
        [] \<Rightarrow> s
      | (t, i) # es \<Rightarrow>
          (let s1 = upd_disp h (\<lambda>d. d\<lparr>WaitListHead := es\<rparr>) s
           in KiSignalObject h (KiWakeWaitingThread (wb_Thread (WaitBlocks (threads s1 t) i)) STATUS_SUCCESS s1)))"
  by pat_completeness auto
termination
proof (relation "measure (\<lambda>(h, s). length (WaitListHead (disp s h)))")
  fix h s e es t i s1
  assume "WaitListHead (disp s h) = e # es" "s1 = upd_disp h (\<lambda>d. d\<lparr>WaitListHead := es\<rparr>) s"
  moreover from this wake_shrinks [of "wb_Thread (WaitBlocks (threads s1 t) i)" STATUS_SUCCESS s1 h]
  have "length (WaitListHead (disp (KiWakeWaitingThread (wb_Thread (WaitBlocks (threads s1 t) i)) STATUS_SUCCESS s1) h)) \<le> length es"
    by (simp add: upd_disp_def)
  ultimately show "((h, KiWakeWaitingThread (wb_Thread (WaitBlocks (threads s1 t) i)) STATUS_SUCCESS s1), h, s)
      \<in> measure (\<lambda>(h, s). length (WaitListHead (disp s h)))" by simp
qed simp

declare KiSignalObject.simps [simp del]

definition KiTimeoutThreadWait :: "u64 \<Rightarrow> sched_state \<Rightarrow> sched_state" where
  "KiTimeoutThreadWait t s = KiWakeWaitingThread t STATUS_TIMEOUT s"

text \<open>The attempt at the top of the wait loop: the status and the state after consuming, if the wait is satisfied.\<close>

fun first_acquirable :: "sched_state \<Rightarrow> nat \<Rightarrow> u64 list \<Rightarrow> nat option" where
  "first_acquirable s i [] = None"
| "first_acquirable s i (h # hs) = (if KiCanAcquire s h then Some i else first_acquirable s (Suc i) hs)"

definition try_acquire :: "wait_frame \<Rightarrow> sched_state \<Rightarrow> (ntstatus \<times> sched_state) option" where
  "try_acquire f s =
     (if wf_wait_all f then
        (if list_all (KiCanAcquire s) (wf_objects f) then Some (STATUS_WAIT_0, fold KiConsumeSignal (wf_objects f) s)
         else None)
      else (case first_acquirable s 0 (wf_objects f) of
        Some i \<Rightarrow> Some (STATUS_WAIT_0 + of_nat i, KiConsumeSignal (wf_objects f ! i) s)
      | None \<Rightarrow> None))"

definition queue_wait_block :: "u64 \<Rightarrow> nat \<times> u64 \<Rightarrow> sched_state \<Rightarrow> sched_state" where
  "queue_wait_block t b s =
     (case b of (i, h) \<Rightarrow>
        upd_disp h (\<lambda>d. d\<lparr>WaitListHead := WaitListHead d @ [(t, i)]\<rparr>)
          (upd_thread t (\<lambda>x. x\<lparr>WaitBlocks := (WaitBlocks x)(i := \<lparr>wb_Thread = t, wb_Object = h\<rparr>)\<rparr>) s))"

text \<open>The result of a wait, or of the part of it that runs now: a status, or the thread is switched away.\<close>

datatype wait_result = Returned ntstatus | Blocked

definition wait_iteration :: "wait_frame \<Rightarrow> sched_state \<Rightarrow> wait_result \<times> sched_state" where
  "wait_iteration f s =
     (let thread = g_current_thread s
      in case try_acquire f s of
           Some (st, s') \<Rightarrow> (Returned st, s'\<lparr>frames := (frames s')(thread := None)\<rparr>)
         | None \<Rightarrow>
             if wf_timeout_ticks f = 0 \<or> wf_deadline f \<noteq> 0 \<and> wf_deadline f \<le> g_tick_count s then
               (Returned STATUS_TIMEOUT, s\<lparr>frames := (frames s)(thread := None)\<rparr>)
             else
               (let s1 = upd_thread thread (\<lambda>x. x\<lparr>WaitBlockCount := of_nat (length (wf_objects f)),
                            WaitStatus := STATUS_PENDING, WaitDeadline := wf_deadline f\<rparr>) s;
                    s2 = fold (queue_wait_block thread) (enumerate 0 (wf_objects f)) s1;
                    s3 = upd_thread thread (\<lambda>x. x\<lparr>State := ThreadStateWaiting\<rparr>) s2
                in (Blocked, KiBlockCurrentThread (s3\<lparr>frames := (frames s3)(thread := Some f)\<rparr>))))"

text \<open>\<^verbatim>\<open>objects\<close> is the caller's array of \<^verbatim>\<open>count\<close> pointers.\<close>

definition KeWaitForMultipleObjects :: "u64 list \<Rightarrow> bool \<Rightarrow> u64 \<Rightarrow> sched_state \<Rightarrow> wait_result \<times> sched_state" where
  "KeWaitForMultipleObjects objects wait_all timeout_ticks s =
     (if objects = [] \<or> KE_MAXIMUM_WAIT_OBJECTS < length objects then (Returned STATUS_INVALID_PARAMETER, s)
      else
        (let deadline = (if timeout_ticks = INFINITE_TICKS then 0 else g_tick_count s + timeout_ticks)
         in wait_iteration \<lparr>wf_objects = objects, wf_wait_all = wait_all, wf_timeout_ticks = timeout_ticks,
              wf_deadline = deadline\<rparr> s))"

text \<open>What the blocked call does once its thread runs again.\<close>

definition KiResumeWait :: "wait_frame \<Rightarrow> sched_state \<Rightarrow> wait_result \<times> sched_state" where
  "KiResumeWait f s =
     (let thread = g_current_thread s;
          s1 = KiUnlinkThreadWait thread s;
          s2 = upd_thread thread (\<lambda>x. x\<lparr>WaitBlockCount := 0\<rparr>) s1
      in if WaitStatus (threads s1 thread) = STATUS_TIMEOUT then
           (Returned STATUS_TIMEOUT, s2\<lparr>frames := (frames s2)(thread := None)\<rparr>)
         else wait_iteration f s2)"

definition KeWaitForSingleObjectTimeout :: "u64 \<Rightarrow> u64 \<Rightarrow> sched_state \<Rightarrow> wait_result \<times> sched_state" where
  "KeWaitForSingleObjectTimeout h timeout_ticks s = KeWaitForMultipleObjects [h] False timeout_ticks s"

definition KeWaitForSingleObject :: "u64 \<Rightarrow> sched_state \<Rightarrow> wait_result \<times> sched_state" where
  "KeWaitForSingleObject h s = KeWaitForSingleObjectTimeout h INFINITE_TICKS s"

definition KeInitializeEvent :: "u64 \<Rightarrow> bool \<Rightarrow> bool \<Rightarrow> sched_state \<Rightarrow> sched_state" where
  "KeInitializeEvent event notification signaled s =
     upd_disp event (\<lambda>d. d\<lparr>d_Type := (if notification then EventNotificationObject else EventSynchronizationObject),
       SignalState := (if signaled then 1 else 0), WaitListHead := []\<rparr>) s"

definition KeSetEvent :: "u64 \<Rightarrow> sched_state \<Rightarrow> u32 \<times> sched_state" where
  "KeSetEvent event s =
     (let previous = SignalState (disp s event);
          s1 = upd_disp event (\<lambda>d. d\<lparr>SignalState := 1\<rparr>) s
      in (previous, KiSignalObject event s1))"

definition KeResetEvent :: "u64 \<Rightarrow> sched_state \<Rightarrow> sched_state" where
  "KeResetEvent event s = upd_disp event (\<lambda>d. d\<lparr>SignalState := 0\<rparr>) s"

definition KeInitializeSemaphore :: "u64 \<Rightarrow> u32 \<Rightarrow> u32 \<Rightarrow> sched_state \<Rightarrow> sched_state" where
  "KeInitializeSemaphore sem initial limit s =
     upd_disp sem (\<lambda>d. d\<lparr>d_Type := SemaphoreObject, SignalState := initial, Limit := limit, WaitListHead := []\<rparr>) s"

definition KeReleaseSemaphore :: "u64 \<Rightarrow> u32 \<Rightarrow> sched_state \<Rightarrow> u32 \<times> sched_state" where
  "KeReleaseSemaphore sem count s =
     (let previous = SignalState (disp s sem);
          s1 = upd_disp sem (\<lambda>d. d\<lparr>SignalState := SignalState d + count\<rparr>) s;
          d1 = disp s1 sem;
          s2 = (if Limit d1 \<noteq> 0 \<and> sint (Limit d1) < sint (SignalState d1) then
                  upd_disp sem (\<lambda>d. d\<lparr>SignalState := Limit d\<rparr>) s1 else s1)
      in (previous, KiSignalObject sem s2))"

definition KeInitializeMutant :: "u64 \<Rightarrow> bool \<Rightarrow> sched_state \<Rightarrow> sched_state" where
  "KeInitializeMutant mutant initially_owned s =
     upd_disp mutant (\<lambda>d. d\<lparr>d_Type := MutantObject, SignalState := (if initially_owned then 0 else 1), WaitListHead := []\<rparr>) s"

definition KeReleaseMutant :: "u64 \<Rightarrow> sched_state \<Rightarrow> u32 \<times> sched_state" where
  "KeReleaseMutant mutant s =
     (let previous = SignalState (disp s mutant);
          s1 = upd_disp mutant (\<lambda>d. d\<lparr>SignalState := 1\<rparr>) s
      in (previous, KiSignalObject mutant s1))"

section \<open>Termination and the clock\<close>

definition KeTerminateThread :: "'z kernel_scheme \<Rightarrow> 'z kernel_scheme option" where
  "KeTerminateThread s =
     (let k = ke s; t = g_current_thread k;
          k1 = upd_thread t (\<lambda>x. x\<lparr>State := ThreadStateTerminated\<rparr>) k
      in do {
        s2 \<leftarrow> (if TerminationObject (threads k1 t) \<noteq> 0 then
                 (let termination = TerminationObject (threads k1 t);
                      k2 = upd_disp termination (\<lambda>d. d\<lparr>SignalState := 1\<rparr>) k1;
                      k3 = KiSignalObject termination k2;
                      k4 = upd_thread t (\<lambda>x. x\<lparr>TerminationObject := 0\<rparr>) k3
                  in ObDereferenceObject termination (s\<lparr>ke := k4\<rparr>))
               else Some (s\<lparr>ke := k1\<rparr>));
        Some (s2\<lparr>ke := KiSchedule (ke s2)\<rparr>)
      })"

definition expire_wait :: "u64 \<Rightarrow> sched_state \<Rightarrow> sched_state" where
  "expire_wait waiting s =
     (if State (threads s waiting) = ThreadStateWaiting \<and> WaitDeadline (threads s waiting) \<noteq> 0 \<and>
         WaitDeadline (threads s waiting) \<le> g_tick_count s
      then KiTimeoutThreadWait waiting s else s)"

definition KeClockTick :: "sched_state \<Rightarrow> sched_state" where
  "KeClockTick s =
     (let s1 = s\<lparr>g_tick_count := g_tick_count s + 1\<rparr>;
          s2 = KeUpdateSharedData (g_tick_count s1) s1;
          s3 = fold expire_wait (ThreadListHead s2) s2;
          t = g_current_thread s3;
          s4 = (if 0 < sint (Quantum (threads s3 t)) then upd_thread t (\<lambda>x. x\<lparr>Quantum := Quantum x - 1\<rparr>) s3 else s3)
      in if sint (Quantum (threads s4 t)) \<le> 0 then KiSchedule s4 else s4)"

text \<open>The first thing a new thread does: where it goes, for a user thread the ring-3 entry with its stack and argument.\<close>

datatype thread_entry = EnterUserMode u64 u64 u64 | CallRoutine u64 u64 | NoRoutine

definition KiThreadBootstrap :: "sched_state \<Rightarrow> thread_entry" where
  "KiThreadBootstrap s =
     (let t = threads s (g_current_thread s)
      in if UserMode t then EnterUserMode (UserEntry t) (UserStack t) (UserArg t)
         else if StartRoutine t \<noteq> 0 then CallRoutine (StartRoutine t) (StartContext t) else NoRoutine)"

section \<open>The invariant\<close>

lemma upd_thread_simps [simp]:
  "threads (upd_thread t f s) = (threads s)(t := f (threads s t))" "disp (upd_thread t f s) = disp s"
  "frames (upd_thread t f s) = frames s" "g_idle_thread (upd_thread t f s) = g_idle_thread s"
  "g_current_thread (upd_thread t f s) = g_current_thread s" "g_ready_queue (upd_thread t f s) = g_ready_queue s"
  "ThreadListHead (upd_thread t f s) = ThreadListHead s" "g_tick_count (upd_thread t f s) = g_tick_count s"
  "kpcr (upd_thread t f s) = kpcr s" "g_kpcr (upd_thread t f s) = g_kpcr s" "cpu_rsp (upd_thread t f s) = cpu_rsp s"
  "g_next_thread_id (upd_thread t f s) = g_next_thread_id s"
  by (simp_all add: upd_thread_def)

lemma upd_disp_simps [simp]:
  "disp (upd_disp h g s) = (disp s)(h := g (disp s h))" "threads (upd_disp h g s) = threads s"
  "frames (upd_disp h g s) = frames s" "g_idle_thread (upd_disp h g s) = g_idle_thread s"
  "g_current_thread (upd_disp h g s) = g_current_thread s" "g_ready_queue (upd_disp h g s) = g_ready_queue s"
  "ThreadListHead (upd_disp h g s) = ThreadListHead s" "g_tick_count (upd_disp h g s) = g_tick_count s"
  "kpcr (upd_disp h g s) = kpcr s" "g_kpcr (upd_disp h g s) = g_kpcr s"
  by (simp_all add: upd_disp_def)

lemma set_cpu_simps [simp]:
  "threads (KeSetCurrentThread t s) = threads s" "disp (KeSetCurrentThread t s) = disp s"
  "frames (KeSetCurrentThread t s) = frames s" "g_idle_thread (KeSetCurrentThread t s) = g_idle_thread s"
  "g_current_thread (KeSetCurrentThread t s) = g_current_thread s" "g_ready_queue (KeSetCurrentThread t s) = g_ready_queue s"
  "ThreadListHead (KeSetCurrentThread t s) = ThreadListHead s" "g_tick_count (KeSetCurrentThread t s) = g_tick_count s"
  "g_kpcr (KeSetCurrentThread t s) = g_kpcr s"
  "threads (KeSetKernelStack r s) = threads s" "disp (KeSetKernelStack r s) = disp s"
  "frames (KeSetKernelStack r s) = frames s" "g_idle_thread (KeSetKernelStack r s) = g_idle_thread s"
  "g_current_thread (KeSetKernelStack r s) = g_current_thread s" "g_ready_queue (KeSetKernelStack r s) = g_ready_queue s"
  "ThreadListHead (KeSetKernelStack r s) = ThreadListHead s" "g_tick_count (KeSetKernelStack r s) = g_tick_count s"
  "g_kpcr (KeSetKernelStack r s) = g_kpcr s"
  "threads (KeSetUserGsBase b s) = threads s" "disp (KeSetUserGsBase b s) = disp s"
  "frames (KeSetUserGsBase b s) = frames s" "g_idle_thread (KeSetUserGsBase b s) = g_idle_thread s"
  "g_current_thread (KeSetUserGsBase b s) = g_current_thread s" "g_ready_queue (KeSetUserGsBase b s) = g_ready_queue s"
  "ThreadListHead (KeSetUserGsBase b s) = ThreadListHead s" "g_tick_count (KeSetUserGsBase b s) = g_tick_count s"
  "g_kpcr (KeSetUserGsBase b s) = g_kpcr s" "cpu_rsp (KeSetUserGsBase b s) = cpu_rsp s"
  "cpu_rsp (KeSetKernelStack r s) = cpu_rsp s" "cpu_rsp (KeSetCurrentThread t s) = cpu_rsp s"
  by (simp_all add: KeSetCurrentThread_def KeSetKernelStack_def KeSetUserGsBase_def)

lemma KiCanAcquire_iff: "KiCanAcquire s h \<longleftrightarrow> 0 < sint (SignalState (disp s h))"
  by (simp add: KiCanAcquire_def split: DISPATCHER_TYPE.split)

definition waiting :: "sched_state \<Rightarrow> u64 \<Rightarrow> bool" where
  "waiting s t \<longleftrightarrow> t \<in> set (ThreadListHead s) \<and> State (threads s t) = ThreadStateWaiting"

definition queue_ok :: "sched_state \<Rightarrow> bool" where
  "queue_ok s \<longleftrightarrow> distinct (ThreadListHead s) \<and> distinct (g_ready_queue s) \<and>
     g_idle_thread s \<in> set (ThreadListHead s) \<and> g_current_thread s \<in> set (ThreadListHead s) \<and>
     set (g_ready_queue s) = {t \<in> set (ThreadListHead s). State (threads s t) = ThreadStateReady} \<and>
     State (threads s (g_idle_thread s)) = ThreadStateRunning \<and> frames s (g_idle_thread s) = None \<and>
     (\<forall>t \<in> set (ThreadListHead s). State (threads s t) = ThreadStateRunning \<longrightarrow> t = g_current_thread s \<or> t = g_idle_thread s) \<and>
     (\<forall>t \<in> set (ThreadListHead s). unat (Quantum (threads s t)) \<le> 2) \<and>
     (\<forall>t \<in> set (ThreadListHead s). t \<noteq> g_idle_thread s \<longrightarrow> KernelStackBase (threads s t) \<noteq> 0)"

lemma queue_okD:
  assumes "queue_ok s"
  shows "distinct (ThreadListHead s)" "distinct (g_ready_queue s)" "g_idle_thread s \<in> set (ThreadListHead s)"
    "g_current_thread s \<in> set (ThreadListHead s)"
    "t \<in> set (g_ready_queue s) \<longleftrightarrow> t \<in> set (ThreadListHead s) \<and> State (threads s t) = ThreadStateReady"
    "State (threads s (g_idle_thread s)) = ThreadStateRunning" "frames s (g_idle_thread s) = None"
    "t \<in> set (ThreadListHead s) \<Longrightarrow> State (threads s t) = ThreadStateRunning \<Longrightarrow> t = g_current_thread s \<or> t = g_idle_thread s"
    "t \<in> set (ThreadListHead s) \<Longrightarrow> unat (Quantum (threads s t)) \<le> 2"
    "t \<in> set (ThreadListHead s) \<Longrightarrow> t \<noteq> g_idle_thread s \<Longrightarrow> KernelStackBase (threads s t) \<noteq> 0"
  using assms unfolding queue_ok_def by blast+

lemma queue_okI:
  assumes "distinct (ThreadListHead s)" "distinct (g_ready_queue s)" "g_idle_thread s \<in> set (ThreadListHead s)"
    "g_current_thread s \<in> set (ThreadListHead s)"
    "\<And>t. t \<in> set (g_ready_queue s) \<longleftrightarrow> t \<in> set (ThreadListHead s) \<and> State (threads s t) = ThreadStateReady"
    "State (threads s (g_idle_thread s)) = ThreadStateRunning" "frames s (g_idle_thread s) = None"
    "\<And>t. t \<in> set (ThreadListHead s) \<Longrightarrow> State (threads s t) = ThreadStateRunning \<Longrightarrow> t = g_current_thread s \<or> t = g_idle_thread s"
    "\<And>t. t \<in> set (ThreadListHead s) \<Longrightarrow> unat (Quantum (threads s t)) \<le> 2"
    "\<And>t. t \<in> set (ThreadListHead s) \<Longrightarrow> t \<noteq> g_idle_thread s \<Longrightarrow> KernelStackBase (threads s t) \<noteq> 0"
  shows "queue_ok s"
  using assms unfolding queue_ok_def by blast

text \<open>A thread waits by its block \<open>i\<close> on the object the block names, and no thread waits otherwise.\<close>

definition lists_ok :: "sched_state \<Rightarrow> bool" where
  "lists_ok s \<longleftrightarrow>
     (\<forall>h t i. (t, i) \<in> set (WaitListHead (disp s h)) \<longleftrightarrow>
        waiting s t \<and> i < unat (WaitBlockCount (threads s t)) \<and> wb_Object (WaitBlocks (threads s t) i) = h) \<and>
     (\<forall>h. distinct (WaitListHead (disp s h))) \<and>
     (\<forall>t i. waiting s t \<longrightarrow> i < unat (WaitBlockCount (threads s t)) \<longrightarrow> wb_Thread (WaitBlocks (threads s t) i) = t)"

definition satisfiable :: "sched_state \<Rightarrow> wait_frame \<Rightarrow> bool" where
  "satisfiable s f \<longleftrightarrow> (if wf_wait_all f then \<forall>h \<in> set (wf_objects f). KiCanAcquire s h
     else \<exists>h \<in> set (wf_objects f). KiCanAcquire s h)"

text \<open>The wait of a blocked thread: its blocks name the objects of the call, it could not be satisfied now and its
  deadline has not passed. \<open>X\<close> are objects being signalled, \<open>T\<close> threads whose deadline is still to be looked at.\<close>

definition pending :: "sched_state \<Rightarrow> u64 set \<Rightarrow> u64 set \<Rightarrow> u64 \<Rightarrow> bool" where
  "pending s X T t \<longleftrightarrow> (\<exists>f. frames s t = Some f \<and>
     wf_objects f = map (\<lambda>i. wb_Object (WaitBlocks (threads s t) i)) [0..<unat (WaitBlockCount (threads s t))] \<and>
     WaitDeadline (threads s t) = wf_deadline f \<and>
     (t \<notin> T \<longrightarrow> wf_deadline f \<noteq> 0 \<longrightarrow> g_tick_count s < wf_deadline f) \<and>
     (set (wf_objects f) \<inter> X = {} \<longrightarrow> \<not> satisfiable s f))"

lemma pendingE:
  assumes "pending s X T t"
  obtains g where "frames s t = Some g"
    "wf_objects g = map (\<lambda>i. wb_Object (WaitBlocks (threads s t) i)) [0..<unat (WaitBlockCount (threads s t))]"
    "WaitDeadline (threads s t) = wf_deadline g" "t \<notin> T \<longrightarrow> wf_deadline g \<noteq> 0 \<longrightarrow> g_tick_count s < wf_deadline g"
    "set (wf_objects g) \<inter> X = {} \<longrightarrow> \<not> satisfiable s g"
  using assms unfolding pending_def by blast

definition sched_inv :: "sched_state \<Rightarrow> u64 set \<Rightarrow> u64 set \<Rightarrow> bool" where
  "sched_inv s X T \<longleftrightarrow> queue_ok s \<and> lists_ok s \<and> (\<forall>t. waiting s t \<longrightarrow> pending s X T t)"

text \<open>The CPU block belongs to the running thread.\<close>

definition cpu_ok :: "sched_state \<Rightarrow> bool" where
  "cpu_ok s \<longleftrightarrow> (let t = g_current_thread s; x = threads s t in
     State x = ThreadStateRunning \<and> kpcr_CurrentThread (kpcr s) = t \<and>
     (t \<noteq> g_idle_thread s \<longrightarrow> kpcr_KernelRsp (kpcr s) = KernelStackBase x + KernelStackSize x \<and>
        tss_rsp0 (kpcr s) = KernelStackBase x + KernelStackSize x \<and>
        msr_kernel_gs_base (kpcr s) = (if UserGsBase x \<noteq> 0 then UserGsBase x else g_kpcr s)))"

definition ke_inv :: "sched_state \<Rightarrow> bool" where
  "ke_inv s \<longleftrightarrow> sched_inv s {} {} \<and> cpu_ok s"

text \<open>What the waits depend on.\<close>

definition same_waits :: "sched_state \<Rightarrow> sched_state \<Rightarrow> bool" where
  "same_waits s s' \<longleftrightarrow> ThreadListHead s' = ThreadListHead s \<and> disp s' = disp s \<and> frames s' = frames s \<and>
     g_tick_count s' = g_tick_count s \<and>
     (\<forall>t. State (threads s' t) = ThreadStateWaiting \<longleftrightarrow> State (threads s t) = ThreadStateWaiting) \<and>
     (\<forall>t. State (threads s t) = ThreadStateWaiting \<longrightarrow>
        WaitBlocks (threads s' t) = WaitBlocks (threads s t) \<and> WaitBlockCount (threads s' t) = WaitBlockCount (threads s t) \<and>
        WaitDeadline (threads s' t) = WaitDeadline (threads s t))"

lemma same_waitsD:
  assumes "same_waits s s'"
  shows "waiting s' = waiting s" "lists_ok s' = lists_ok s" "waiting s t \<Longrightarrow> pending s' X T t = pending s X T t"
proof -
  show w: "waiting s' = waiting s" using assms by (auto simp: same_waits_def waiting_def)
  have e: "WaitBlocks (threads s' t) = WaitBlocks (threads s t)" "WaitBlockCount (threads s' t) = WaitBlockCount (threads s t)"
    "WaitDeadline (threads s' t) = WaitDeadline (threads s t)" if "waiting s t" for t
    using assms that by (simp_all add: same_waits_def waiting_def)
  have d: "disp s' = disp s" using assms by (simp add: same_waits_def)
  show "lists_ok s' = lists_ok s" by (simp add: lists_ok_def w d e cong: conj_cong)
  have "satisfiable s' f = satisfiable s f" for f by (simp add: satisfiable_def KiCanAcquire_iff d)
  then show "pending s' X T t = pending s X T t" if "waiting s t"
    using assms by (simp add: pending_def same_waits_def e [OF that])
qed

lemma sched_inv_frame: "sched_inv s X T \<Longrightarrow> same_waits s s' \<Longrightarrow> queue_ok s' \<Longrightarrow> sched_inv s' X T"
  by (simp add: sched_inv_def same_waitsD)

lemma same_waits_trans: "same_waits s s' \<Longrightarrow> same_waits s' s'' \<Longrightarrow> same_waits s s''"
  by (simp add: same_waits_def)

section \<open>Scheduling\<close>

definition next_thread :: "sched_state \<Rightarrow> u64" where
  "next_thread s = (case g_ready_queue s of [] \<Rightarrow> g_idle_thread s | e # es \<Rightarrow> e)"

lemma KiSchedule_switch:
  assumes "next_thread s \<noteq> g_current_thread s"
  defines "requeue \<equiv> g_current_thread s \<noteq> g_idle_thread s \<and> State (threads s (g_current_thread s)) = ThreadStateRunning"
  shows "g_current_thread (KiSchedule s) = next_thread s"
    and "g_ready_queue (KiSchedule s) = tl (g_ready_queue s) @ (if requeue then [g_current_thread s] else [])"
    and "\<exists>sp. threads (KiSchedule s) = (threads s)
      (g_current_thread s := (if requeue then (threads s (g_current_thread s))\<lparr>State := ThreadStateReady\<rparr>
         else threads s (g_current_thread s))\<lparr>KernelStackPointer := sp\<rparr>,
       next_thread s := (threads s (next_thread s))\<lparr>State := ThreadStateRunning, Quantum := DEFAULT_QUANTUM\<rparr>)"
    and "kpcr (KiSchedule s) = (let n = threads s (next_thread s); k = (kpcr s)\<lparr>kpcr_CurrentThread := next_thread s\<rparr>;
           k1 = (if KernelStackBase n \<noteq> 0 then k\<lparr>kpcr_KernelRsp := KernelStackBase n + KernelStackSize n,
                   tss_rsp0 := KernelStackBase n + KernelStackSize n\<rparr> else k)
         in k1\<lparr>msr_kernel_gs_base := (if UserGsBase n \<noteq> 0 then UserGsBase n else g_kpcr s)\<rparr>)"
proof -
  note u = KiSchedule_def Let_def KiSwitchContext_def
  show "g_current_thread (KiSchedule s) = next_thread s"
    using assms(1) by (cases "g_ready_queue s") (simp_all add: u next_thread_def)
  show "g_ready_queue (KiSchedule s) = tl (g_ready_queue s) @ (if requeue then [g_current_thread s] else [])"
    using assms(1) by (cases "g_ready_queue s") (simp_all add: u next_thread_def requeue_def)
  show "kpcr (KiSchedule s) = (let n = threads s (next_thread s); k = (kpcr s)\<lparr>kpcr_CurrentThread := next_thread s\<rparr>;
           k1 = (if KernelStackBase n \<noteq> 0 then k\<lparr>kpcr_KernelRsp := KernelStackBase n + KernelStackSize n,
                   tss_rsp0 := KernelStackBase n + KernelStackSize n\<rparr> else k)
         in k1\<lparr>msr_kernel_gs_base := (if UserGsBase n \<noteq> 0 then UserGsBase n else g_kpcr s)\<rparr>)"
    using assms(1) by (cases "g_ready_queue s")
      (simp_all add: u next_thread_def KeSetCurrentThread_def KeSetKernelStack_def KeSetUserGsBase_def)
  show "\<exists>sp. threads (KiSchedule s) = (threads s)
      (g_current_thread s := (if requeue then (threads s (g_current_thread s))\<lparr>State := ThreadStateReady\<rparr>
         else threads s (g_current_thread s))\<lparr>KernelStackPointer := sp\<rparr>,
       next_thread s := (threads s (next_thread s))\<lparr>State := ThreadStateRunning, Quantum := DEFAULT_QUANTUM\<rparr>)"
    using assms(1) by (intro exI [of _ "cpu_rsp s - 48"] ext, cases "g_ready_queue s")
      (simp_all add: u next_thread_def requeue_def)
qed

lemma KiSchedule_frame [simp]:
  "disp (KiSchedule s) = disp s" "frames (KiSchedule s) = frames s" "g_idle_thread (KiSchedule s) = g_idle_thread s"
  "ThreadListHead (KiSchedule s) = ThreadListHead s" "g_tick_count (KiSchedule s) = g_tick_count s"
  "g_kpcr (KiSchedule s) = g_kpcr s"
  by (cases "g_ready_queue s"; simp add: KiSchedule_def Let_def KiSwitchContext_def)+

lemma next_thread_ready:
  assumes "queue_ok s"
  shows "next_thread s \<in> set (ThreadListHead s)" "State (threads s (next_thread s)) \<noteq> ThreadStateWaiting"
    "next_thread s = g_idle_thread s \<longleftrightarrow> g_ready_queue s = []"
proof (atomize (full), cases "g_ready_queue s")
  case Nil
  then show "next_thread s \<in> set (ThreadListHead s) \<and> State (threads s (next_thread s)) \<noteq> ThreadStateWaiting \<and>
      (next_thread s = g_idle_thread s) = (g_ready_queue s = [])"
    using queue_okD(3,6) [OF assms] by (simp add: next_thread_def)
next
  case (Cons e es)
  then have "e \<in> set (g_ready_queue s)" by simp
  then have "e \<in> set (ThreadListHead s)" "State (threads s e) = ThreadStateReady" using queue_okD(5) [OF assms] by simp_all
  then show "next_thread s \<in> set (ThreadListHead s) \<and> State (threads s (next_thread s)) \<noteq> ThreadStateWaiting \<and>
      (next_thread s = g_idle_thread s) = (g_ready_queue s = [])"
    using Cons queue_okD(6) [OF assms] by (auto simp: next_thread_def)
qed

lemma KiSchedule_idle:
  assumes "queue_ok s" "State (threads s (g_current_thread s)) \<noteq> ThreadStateReady" "next_thread s = g_current_thread s"
  shows "KiSchedule s = s" and "g_current_thread s = g_idle_thread s"
proof -
  have "g_current_thread s \<notin> set (g_ready_queue s)" using queue_okD(5) [OF assms(1)] assms(2) by simp
  then have e: "g_ready_queue s = []" "g_current_thread s = g_idle_thread s"
    using assms(3) by (cases "g_ready_queue s"; simp add: next_thread_def)+
  have st: "State (threads s (g_idle_thread s)) = ThreadStateRunning" using queue_okD(6) [OF assms(1)] .
  have eq: "(threads s (g_idle_thread s))\<lparr>State := ThreadStateRunning\<rparr> = threads s (g_idle_thread s)"
    using st by (cases "threads s (g_idle_thread s)") simp
  have "KiSchedule s = s\<lparr>threads := (threads s)(g_idle_thread s := (threads s (g_idle_thread s))\<lparr>State := ThreadStateRunning\<rparr>)\<rparr>"
    using e by (simp add: KiSchedule_def upd_thread_def Let_def)
  also have "\<dots> = s" unfolding eq by simp
  finally show "KiSchedule s = s" .
  show "g_current_thread s = g_idle_thread s" by (rule e(2))
qed

lemma KiSchedule_queue:
  assumes q: "queue_ok s" and st: "State (threads s (g_current_thread s)) \<noteq> ThreadStateReady" and c: "kpcr_CurrentThread (kpcr s) = g_current_thread s"
  shows "queue_ok (KiSchedule s)" and "same_waits s (KiSchedule s)" and "cpu_ok (KiSchedule s)"
proof (atomize (full), cases "next_thread s = g_current_thread s")
  case True
  note i = KiSchedule_idle [OF q st True]
  show "queue_ok (KiSchedule s) \<and> same_waits s (KiSchedule s) \<and> cpu_ok (KiSchedule s)"
    using q c i(2) queue_okD(6) [OF q] unfolding i(1) by (simp add: same_waits_def cpu_ok_def)
next
  case False
  note sw = KiSchedule_switch [OF False]
  note nx = next_thread_ready [OF q]
  obtain sp where th: "threads (KiSchedule s) = (threads s)
      (g_current_thread s := (if g_current_thread s \<noteq> g_idle_thread s \<and> State (threads s (g_current_thread s)) = ThreadStateRunning
         then (threads s (g_current_thread s))\<lparr>State := ThreadStateReady\<rparr>
         else threads s (g_current_thread s))\<lparr>KernelStackPointer := sp\<rparr>,
       next_thread s := (threads s (next_thread s))\<lparr>State := ThreadStateRunning, Quantum := DEFAULT_QUANTUM\<rparr>)"
    using sw(3) by blast
  have rq: "set (tl (g_ready_queue s)) = set (g_ready_queue s) - {next_thread s}" "distinct (tl (g_ready_queue s))"
  proof (atomize (full), cases "g_ready_queue s")
    case Nil
    then show "set (tl (g_ready_queue s)) = set (g_ready_queue s) - {next_thread s} \<and> distinct (tl (g_ready_queue s))" by simp
  next
    case (Cons e es)
    then show "set (tl (g_ready_queue s)) = set (g_ready_queue s) - {next_thread s} \<and> distinct (tl (g_ready_queue s))"
      using queue_okD(2) [OF q] by (auto simp: next_thread_def)
  qed
  have cur: "g_current_thread s \<notin> set (g_ready_queue s)" using queue_okD(5) [OF q] st by simp
  note qd = queue_okD [OF q]
  have "queue_ok (KiSchedule s)"
  proof (rule queue_okI, unfold KiSchedule_frame sw(1,2))
    fix t
    show "t \<in> set (tl (g_ready_queue s) @ (if g_current_thread s \<noteq> g_idle_thread s \<and>
          State (threads s (g_current_thread s)) = ThreadStateRunning then [g_current_thread s] else [])) \<longleftrightarrow>
        t \<in> set (ThreadListHead s) \<and> State (threads (KiSchedule s) t) = ThreadStateReady"
      using False rq cur st qd(4,6) qd(5) [of t] unfolding th by (simp add: fun_upd_apply)
    show "t = next_thread s \<or> t = g_idle_thread s" if "t \<in> set (ThreadListHead s)" "State (threads (KiSchedule s) t) = ThreadStateRunning"
      using that qd(8) [of t] unfolding th by (auto simp: fun_upd_apply split: if_splits)
    show "unat (Quantum (threads (KiSchedule s) t)) \<le> 2" if "t \<in> set (ThreadListHead s)"
      using that qd(9) [of t] unfolding th by (auto simp: fun_upd_apply)
    show "KernelStackBase (threads (KiSchedule s) t) \<noteq> 0" if "t \<in> set (ThreadListHead s)" "t \<noteq> g_idle_thread s"
      using that qd(10) [of t] unfolding th by (auto simp: fun_upd_apply)
    show "State (threads (KiSchedule s) (g_idle_thread s)) = ThreadStateRunning" using qd(6) unfolding th by (auto simp: fun_upd_apply)
  qed (use qd(1,3,7) nx(1) rq cur in auto)
  moreover have "same_waits s (KiSchedule s)"
    using nx(2) unfolding same_waits_def KiSchedule_frame th by (simp add: fun_upd_apply)
  moreover have "cpu_ok (KiSchedule s)"
    using qd(10) [of "next_thread s"] nx(1) unfolding cpu_ok_def KiSchedule_frame sw(1) sw(4) th by (simp add: Let_def)
  ultimately show "queue_ok (KiSchedule s) \<and> same_waits s (KiSchedule s) \<and> cpu_ok (KiSchedule s)" by simp
qed

section \<open>Waking\<close>

lemma fold_remove1_entries:
  "distinct xs \<Longrightarrow> fold (\<lambda>i. remove1 (t, i)) [0..<n] xs = filter (\<lambda>e. \<not> (fst e = t \<and> snd e < n)) xs"
proof (induction n)
  case (Suc n)
  then have "fold (\<lambda>i. remove1 (t, i)) [0..<Suc n] xs = filter (\<lambda>e. e \<noteq> (t, n)) (filter (\<lambda>e. \<not> (fst e = t \<and> snd e < n)) xs)"
    by (simp add: distinct_remove1_removeAll removeAll_filter_not_eq) (metis (lifting))
  also have "\<dots> = filter (\<lambda>e. \<not> (fst e = t \<and> snd e < Suc n)) xs"
    unfolding filter_filter by (rule filter_cong) (auto simp: less_Suc_eq)
  finally show ?case .
qed simp

lemma fold_remove_entries:
  "fold (\<lambda>i. remove_wait_entry (t, i)) is s =
     s\<lparr>disp := (\<lambda>h. (disp s h)\<lparr>WaitListHead := fold (\<lambda>i. remove1 (t, i)) is (WaitListHead (disp s h))\<rparr>)\<rparr>"
  by (induction "is" arbitrary: s) (simp_all add: remove_wait_entry_def)

text \<open>The state with a thread off all wait lists.\<close>

definition unwait :: "u64 \<Rightarrow> sched_state \<Rightarrow> sched_state" where
  "unwait t s = s\<lparr>disp := (\<lambda>h. (disp s h)\<lparr>WaitListHead := filter (\<lambda>e. fst e \<noteq> t) (WaitListHead (disp s h))\<rparr>)\<rparr>"

lemma lists_okD:
  assumes "lists_ok s"
  shows "(t, i) \<in> set (WaitListHead (disp s h)) \<longleftrightarrow>
      waiting s t \<and> i < unat (WaitBlockCount (threads s t)) \<and> wb_Object (WaitBlocks (threads s t) i) = h"
    "distinct (WaitListHead (disp s h))"
    "waiting s t \<Longrightarrow> i < unat (WaitBlockCount (threads s t)) \<Longrightarrow> wb_Thread (WaitBlocks (threads s t) i) = t"
  using assms unfolding lists_ok_def by blast+

lemma KiUnlinkThreadWait_eq:
  assumes "lists_ok s"
  shows "KiUnlinkThreadWait t s = unwait t s"
proof -
  have "fold (\<lambda>i. remove1 (t, i)) [0..<unat (WaitBlockCount (threads s t))] (WaitListHead (disp s h)) =
      filter (\<lambda>e. fst e \<noteq> t) (WaitListHead (disp s h))" for h
    unfolding fold_remove1_entries [OF lists_okD(2) [OF assms]]
    by (rule filter_cong) (use lists_okD(1) [OF assms] in auto)
  then show ?thesis by (simp add: KiUnlinkThreadWait_def fold_remove_entries unwait_def)
qed

definition woken :: "u64 \<Rightarrow> ntstatus \<Rightarrow> sched_state \<Rightarrow> sched_state" where
  "woken t st s = (upd_thread t (\<lambda>x. x\<lparr>WaitStatus := st, WaitDeadline := 0, State := ThreadStateReady\<rparr>) (unwait t s))
     \<lparr>g_ready_queue := g_ready_queue s @ [t]\<rparr>"

lemma unwait_simps [simp]:
  "threads (unwait t s) = threads s" "frames (unwait t s) = frames s" "g_idle_thread (unwait t s) = g_idle_thread s"
  "g_current_thread (unwait t s) = g_current_thread s" "g_ready_queue (unwait t s) = g_ready_queue s"
  "ThreadListHead (unwait t s) = ThreadListHead s" "g_tick_count (unwait t s) = g_tick_count s"
  "kpcr (unwait t s) = kpcr s" "g_kpcr (unwait t s) = g_kpcr s"
  "d_Type (disp (unwait t s) h) = d_Type (disp s h)" "SignalState (disp (unwait t s) h) = SignalState (disp s h)"
  "Limit (disp (unwait t s) h) = Limit (disp s h)"
  "WaitListHead (disp (unwait t s) h) = filter (\<lambda>e. fst e \<noteq> t) (WaitListHead (disp s h))"
  by (simp_all add: unwait_def)

lemma woken_simps [simp]:
  "frames (woken t st s) = frames s" "g_idle_thread (woken t st s) = g_idle_thread s"
  "g_current_thread (woken t st s) = g_current_thread s" "g_ready_queue (woken t st s) = g_ready_queue s @ [t]"
  "ThreadListHead (woken t st s) = ThreadListHead s" "g_tick_count (woken t st s) = g_tick_count s"
  "kpcr (woken t st s) = kpcr s" "g_kpcr (woken t st s) = g_kpcr s"
  "d_Type (disp (woken t st s) h) = d_Type (disp s h)" "SignalState (disp (woken t st s) h) = SignalState (disp s h)"
  "Limit (disp (woken t st s) h) = Limit (disp s h)"
  "WaitListHead (disp (woken t st s) h) = filter (\<lambda>e. fst e \<noteq> t) (WaitListHead (disp s h))"
  "threads (woken t st s) = (threads s)(t := (threads s t)\<lparr>WaitStatus := st, WaitDeadline := 0, State := ThreadStateReady\<rparr>)"
  by (simp_all add: woken_def)

lemma KiWakeWaitingThread_eq:
  assumes "lists_ok s"
  shows "KiWakeWaitingThread t st s = (if State (threads s t) = ThreadStateWaiting then woken t st s else s)"
  by (simp add: KiWakeWaitingThread_def KiUnlinkThreadWait_eq [OF assms] KiReadyThread_def woken_def Let_def upd_thread_def)

text \<open>Taking the head off a wait list first makes no difference.\<close>

lemma wake_after_pop:
  assumes ok: "lists_ok s" and h: "WaitListHead (disp s h) = (t, i) # es"
  shows "KiWakeWaitingThread t st (upd_disp h (\<lambda>d. d\<lparr>WaitListHead := es\<rparr>) s) = woken t st s"
proof -
  let ?s = "upd_disp h (\<lambda>d. d\<lparr>WaitListHead := es\<rparr>) s"
  have "(t, i) \<in> set (WaitListHead (disp s h))" using h by simp
  then have w: "waiting s t" and i: "i < unat (WaitBlockCount (threads s t))" using lists_okD(1) [OF ok] by simp_all
  have "fold (\<lambda>i. remove1 (t, i)) [0..<unat (WaitBlockCount (threads s t))] (WaitListHead (disp ?s k)) =
      filter (\<lambda>e. fst e \<noteq> t) (WaitListHead (disp s k))" for k
  proof -
    have d: "distinct (WaitListHead (disp ?s k))" using lists_okD(2) [OF ok, of k] h by (cases "k = h") auto
    have "set (WaitListHead (disp ?s k)) \<subseteq> set (WaitListHead (disp s k))" using h by auto
    then have "filter (\<lambda>e. \<not> (fst e = t \<and> snd e < unat (WaitBlockCount (threads s t)))) (WaitListHead (disp ?s k)) =
        filter (\<lambda>e. fst e \<noteq> t) (WaitListHead (disp ?s k))"
      by (intro filter_cong) (use lists_okD(1) [OF ok] in auto)
    moreover have "filter (\<lambda>e. fst e \<noteq> t) (WaitListHead (disp ?s k)) = filter (\<lambda>e. fst e \<noteq> t) (WaitListHead (disp s k))"
      using h by auto
    ultimately show ?thesis using fold_remove1_entries [OF d] by simp
  qed
  then have "KiUnlinkThreadWait t ?s = unwait t s"
    by (simp add: KiUnlinkThreadWait_def fold_remove_entries unwait_def) (simp add: upd_disp_def fun_eq_iff)
  then show ?thesis
    using w by (simp add: KiWakeWaitingThread_def KiReadyThread_def woken_def waiting_def Let_def upd_thread_def)
qed

lemma KiSignalObject_Nil: "WaitListHead (disp s h) = [] \<Longrightarrow> KiSignalObject h s = s"
  by (subst KiSignalObject.simps) simp

lemma KiSignalObject_Cons:
  assumes "lists_ok s" and "WaitListHead (disp s h) = (t, i) # es"
  shows "KiSignalObject h s = KiSignalObject h (woken t STATUS_SUCCESS s)"
proof -
  have "(t, i) \<in> set (WaitListHead (disp s h))" using assms(2) by simp
  then have "wb_Thread (WaitBlocks (threads s t) i) = t" using lists_okD(1,3) [OF assms(1)] by blast
  then show ?thesis using wake_after_pop [OF assms] by (subst KiSignalObject.simps) (simp add: assms(2))
qed

lemma waiting_woken: "waiting (woken t st s) u \<longleftrightarrow> waiting s u \<and> u \<noteq> t"
  by (simp add: waiting_def)

lemma satisfiable_cong:
  "(\<And>h. h \<in> set (wf_objects f) \<Longrightarrow> SignalState (disp s' h) = SignalState (disp s h)) \<Longrightarrow> satisfiable s' f = satisfiable s f"
  by (simp add: satisfiable_def KiCanAcquire_iff)

lemma woken_inv:
  assumes inv: "sched_inv s X T'" and w: "waiting s t" and T: "T' \<subseteq> insert t T"
  shows "sched_inv (woken t st s) X T"
proof -
  have q: "queue_ok s" and l: "lists_ok s" and p: "\<And>u. waiting s u \<Longrightarrow> pending s X T' u" using inv by (auto simp: sched_inv_def)
  have ti: "t \<noteq> g_idle_thread s" "t \<in> set (ThreadListHead s)" "State (threads s t) = ThreadStateWaiting"
    using w queue_okD(6) [OF q] by (auto simp: waiting_def)
  have "queue_ok (woken t st s)"
  proof (rule queue_okI)
    fix u
    show "u \<in> set (g_ready_queue (woken t st s)) \<longleftrightarrow>
        u \<in> set (ThreadListHead (woken t st s)) \<and> State (threads (woken t st s) u) = ThreadStateReady"
      using queue_okD(5) [OF q, of u] ti by auto
    show "u = g_current_thread (woken t st s) \<or> u = g_idle_thread (woken t st s)"
      if "u \<in> set (ThreadListHead (woken t st s))" "State (threads (woken t st s) u) = ThreadStateRunning"
      using that queue_okD(8) [OF q, of u] by (auto split: if_splits)
  qed (use queue_okD [OF q] ti in auto)
  moreover have "lists_ok (woken t st s)"
    unfolding lists_ok_def waiting_woken
  proof (intro conjI allI impI)
    fix h u i
    show "(u, i) \<in> set (WaitListHead (disp (woken t st s) h)) \<longleftrightarrow> (waiting s u \<and> u \<noteq> t) \<and>
        i < unat (WaitBlockCount (threads (woken t st s) u)) \<and> wb_Object (WaitBlocks (threads (woken t st s) u) i) = h"
      using lists_okD(1) [OF l, of u i h] by auto
    show "distinct (WaitListHead (disp (woken t st s) h))" using lists_okD(2) [OF l] by simp
    assume "waiting s u \<and> u \<noteq> t" "i < unat (WaitBlockCount (threads (woken t st s) u))"
    then show "wb_Thread (WaitBlocks (threads (woken t st s) u) i) = u" using lists_okD(3) [OF l] by simp
  qed
  moreover have "pending (woken t st s) X T u" if "waiting (woken t st s) u" for u
  proof -
    have u: "waiting s u" "u \<noteq> t" using that by (simp_all add: waiting_woken)
    have "satisfiable (woken t st s) f = satisfiable s f" for f by (rule satisfiable_cong) simp
    then show ?thesis using p [OF u(1)] u(2) T by (auto simp: pending_def)
  qed
  ultimately show ?thesis by (simp add: sched_inv_def)
qed

definition waits_on :: "sched_state \<Rightarrow> u64 \<Rightarrow> u64 \<Rightarrow> bool" where
  "waits_on s h t \<longleftrightarrow> (\<exists>i. (t, i) \<in> set (WaitListHead (disp s h)))"

text \<open>A signal readies the waiters of the object, in some order, and touches nothing else.\<close>

definition same_but_waits :: "sched_state \<Rightarrow> sched_state \<Rightarrow> bool" where
  "same_but_waits s s' \<longleftrightarrow> frames s' = frames s \<and> g_idle_thread s' = g_idle_thread s \<and>
     g_current_thread s' = g_current_thread s \<and> ThreadListHead s' = ThreadListHead s \<and> g_tick_count s' = g_tick_count s \<and>
     kpcr s' = kpcr s \<and> g_kpcr s' = g_kpcr s \<and> (\<forall>h. d_Type (disp s' h) = d_Type (disp s h) \<and>
       SignalState (disp s' h) = SignalState (disp s h) \<and> Limit (disp s' h) = Limit (disp s h))"

lemma same_but_waits_refl [simp]: "same_but_waits s s"
  by (simp add: same_but_waits_def)

lemma same_but_waits_trans: "same_but_waits s s' \<Longrightarrow> same_but_waits s' s'' \<Longrightarrow> same_but_waits s s''"
  by (simp add: same_but_waits_def)

lemma same_but_waits_woken [simp]: "same_but_waits s (woken t st s)"
  by (simp add: same_but_waits_def)

lemma KiSignalObject_spec:
  assumes "sched_inv s X T"
  shows "sched_inv (KiSignalObject h s) X T \<and> WaitListHead (disp (KiSignalObject h s) h) = [] \<and>
    same_but_waits s (KiSignalObject h s) \<and>
    (\<forall>t. threads (KiSignalObject h s) t = (if waits_on s h t
       then (threads s t)\<lparr>WaitStatus := STATUS_SUCCESS, WaitDeadline := 0, State := ThreadStateReady\<rparr> else threads s t)) \<and>
    (\<exists>ts. g_ready_queue (KiSignalObject h s) = g_ready_queue s @ ts \<and> set ts = {t. waits_on s h t})"
  using assms
proof (induction "length (WaitListHead (disp s h))" arbitrary: s rule: less_induct)
  case less
  have l: "lists_ok s" using less.prems by (simp add: sched_inv_def)
  show ?case
  proof (cases "WaitListHead (disp s h)")
    case Nil
    then show ?thesis using less.prems by (simp add: KiSignalObject_Nil waits_on_def)
  next
    case (Cons e es)
    obtain t i where e: "e = (t, i)" by (cases e)
    define s1 where "s1 = woken t STATUS_SUCCESS s"
    have eq: "KiSignalObject h s = KiSignalObject h s1"
      using KiSignalObject_Cons [OF l] Cons unfolding e s1_def by blast
    have "(t, i) \<in> set (WaitListHead (disp s h))" using Cons e by simp
    then have w: "waiting s t" and wo: "waits_on s h t" using lists_okD(1) [OF l] by (auto simp: waits_on_def)
    have inv: "sched_inv s1 X T" unfolding s1_def by (rule woken_inv [OF less.prems w]) auto
    have len: "length (WaitListHead (disp s1 h)) < length (WaitListHead (disp s h))"
      using Cons e by (simp add: s1_def le_imp_less_Suc)
    have on: "waits_on s1 h u \<longleftrightarrow> waits_on s h u \<and> u \<noteq> t" for u by (auto simp: waits_on_def s1_def)
    note ih = less.hyps [OF len inv]
    have "threads (KiSignalObject h s1) u = (if waits_on s h u
       then (threads s u)\<lparr>WaitStatus := STATUS_SUCCESS, WaitDeadline := 0, State := ThreadStateReady\<rparr> else threads s u)" for u
      using ih wo by (simp add: on) (simp add: s1_def)
    moreover have "\<exists>ts. g_ready_queue (KiSignalObject h s1) = g_ready_queue s @ ts \<and> set ts = {t. waits_on s h t}"
    proof -
      obtain ts where "g_ready_queue (KiSignalObject h s1) = g_ready_queue s1 @ ts" "set ts = {t. waits_on s1 h t}" using ih by blast
      moreover have "g_ready_queue s1 = g_ready_queue s @ [t]" by (simp add: s1_def)
      ultimately show ?thesis using wo by (intro exI [of _ "t # ts"]) (auto simp: on)
    qed
    moreover have "same_but_waits s (KiSignalObject h s1)"
      using ih same_but_waits_trans [of s s1] by (simp add: s1_def)
    ultimately show ?thesis using ih unfolding eq by blast
  qed
qed

lemma signal_change:
  assumes inv: "sched_inv s X T" and eq: "\<And>d. WaitListHead (f d) = WaitListHead d"
    and up: "0 < sint (SignalState (f (disp s h))) \<Longrightarrow> 0 < sint (SignalState (disp s h)) \<or> h \<in> X'" and X: "X \<subseteq> X'"
  shows "sched_inv (upd_disp h f s) X' T"
proof -
  have wl: "WaitListHead (disp (upd_disp h f s) k) = WaitListHead (disp s k)" for k by (simp add: eq)
  have w: "waiting (upd_disp h f s) = waiting s" by (simp add: waiting_def fun_eq_iff)
  have "queue_ok (upd_disp h f s)" using inv by (simp add: sched_inv_def queue_ok_def)
  moreover have "lists_ok (upd_disp h f s)" using inv unfolding sched_inv_def lists_ok_def wl w by simp
  moreover have "pending (upd_disp h f s) X' T t" if "waiting s t" for t
  proof -
    from inv that have "pending s X T t" by (simp add: sched_inv_def)
    from pendingE [OF this] obtain g where g: "frames s t = Some g"
      "wf_objects g = map (\<lambda>i. wb_Object (WaitBlocks (threads s t) i)) [0..<unat (WaitBlockCount (threads s t))]"
      "WaitDeadline (threads s t) = wf_deadline g" "t \<notin> T \<longrightarrow> wf_deadline g \<noteq> 0 \<longrightarrow> g_tick_count s < wf_deadline g"
      "set (wf_objects g) \<inter> X = {} \<longrightarrow> \<not> satisfiable s g" .
    have "\<not> satisfiable (upd_disp h f s) g" if "set (wf_objects g) \<inter> X' = {}"
    proof -
      have "KiCanAcquire s k" if "k \<in> set (wf_objects g)" "KiCanAcquire (upd_disp h f s) k" for k
        using that \<open>set (wf_objects g) \<inter> X' = {}\<close> up by (cases "k = h") (auto simp: KiCanAcquire_iff)
      moreover have "\<not> satisfiable s g" using g(5) that X by blast
      ultimately show ?thesis by (auto simp: satisfiable_def split: if_splits)
    qed
    then show ?thesis using g(1-4) by (simp add: pending_def)
  qed
  ultimately show ?thesis by (simp add: sched_inv_def w)
qed

lemma settle:
  assumes inv: "sched_inv s (insert h X) T" and e: "WaitListHead (disp s h) = []"
  shows "sched_inv s X T"
proof -
  have l: "lists_ok s" using inv by (simp add: sched_inv_def)
  have "pending s X T t" if "waiting s t" for t
  proof -
    from inv that have "pending s (insert h X) T t" by (simp add: sched_inv_def)
    from pendingE [OF this] obtain g where g: "frames s t = Some g"
      "wf_objects g = map (\<lambda>i. wb_Object (WaitBlocks (threads s t) i)) [0..<unat (WaitBlockCount (threads s t))]"
      "WaitDeadline (threads s t) = wf_deadline g" "t \<notin> T \<longrightarrow> wf_deadline g \<noteq> 0 \<longrightarrow> g_tick_count s < wf_deadline g"
      "set (wf_objects g) \<inter> insert h X = {} \<longrightarrow> \<not> satisfiable s g" .
    have "\<forall>i. (t, i) \<notin> set (WaitListHead (disp s h))" using e by simp
    then have "h \<notin> set (wf_objects g)" unfolding lists_okD(1) [OF l] g(2) using that by auto
    then show ?thesis using g by (auto simp: pending_def)
  qed
  then show ?thesis using inv by (simp add: sched_inv_def)
qed

section \<open>Waiting\<close>

lemma sint_minus_one: "- (2 ^ 31) < sint (x :: u32) \<Longrightarrow> sint (x - 1) = sint x - 1"
proof -
  assume a: "- (2 ^ 31) < sint x"
  have b: "sint x < 2 ^ 31" using sint_less [of x] by simp
  have "sint (x - 1) = signed_take_bit 31 (sint x - 1)" by (simp add: sint_word_ariths(2))
  also have "\<dots> = sint x - 1" using a b by (intro signed_take_bit_int_eq_self) simp_all
  finally show ?thesis .
qed

lemma consume_fields [simp]:
  "threads (KiConsumeSignal h s) = threads s" "frames (KiConsumeSignal h s) = frames s"
  "g_idle_thread (KiConsumeSignal h s) = g_idle_thread s" "g_current_thread (KiConsumeSignal h s) = g_current_thread s"
  "g_ready_queue (KiConsumeSignal h s) = g_ready_queue s" "ThreadListHead (KiConsumeSignal h s) = ThreadListHead s"
  "kpcr (KiConsumeSignal h s) = kpcr s" "g_kpcr (KiConsumeSignal h s) = g_kpcr s" "g_tick_count (KiConsumeSignal h s) = g_tick_count s"
  by (simp_all add: KiConsumeSignal_def split: DISPATCHER_TYPE.split)

lemma consume_signal:
  "SignalState (disp (KiConsumeSignal h s) k) = (if k = h then
     (case d_Type (disp s h) of EventSynchronizationObject \<Rightarrow> 0 | SemaphoreObject \<Rightarrow> SignalState (disp s h) - 1
      | MutantObject \<Rightarrow> SignalState (disp s h) - 1 | _ \<Rightarrow> SignalState (disp s h)) else SignalState (disp s k))"
  "d_Type (disp (KiConsumeSignal h s) k) = d_Type (disp s k)" "Limit (disp (KiConsumeSignal h s) k) = Limit (disp s k)"
  "WaitListHead (disp (KiConsumeSignal h s) k) = WaitListHead (disp s k)"
  by (simp_all add: KiConsumeSignal_def split: DISPATCHER_TYPE.split)

lemma consume_inv:
  assumes inv: "sched_inv s X T" and "- (2 ^ 31) < sint (SignalState (disp s h))"
  shows "sched_inv (KiConsumeSignal h s) X T"
    and "sint (SignalState (disp s k)) - 1 \<le> sint (SignalState (disp (KiConsumeSignal h s) k)) \<or>
      sint (SignalState (disp (KiConsumeSignal h s) k)) = 0"
proof -
  note m = sint_minus_one [OF assms(2)]
  show "sched_inv (KiConsumeSignal h s) X T"
    using inv m unfolding KiConsumeSignal_def
    by (auto split: DISPATCHER_TYPE.split intro!: signal_change [where X = X])
  show "sint (SignalState (disp s k)) - 1 \<le> sint (SignalState (disp (KiConsumeSignal h s) k)) \<or>
      sint (SignalState (disp (KiConsumeSignal h s) k)) = 0"
    using m by (auto simp: consume_signal split: DISPATCHER_TYPE.split)
qed

lemma fold_consume_fields [simp]:
  "threads (fold KiConsumeSignal hs s) = threads s" "frames (fold KiConsumeSignal hs s) = frames s"
  "g_idle_thread (fold KiConsumeSignal hs s) = g_idle_thread s" "g_current_thread (fold KiConsumeSignal hs s) = g_current_thread s"
  "g_ready_queue (fold KiConsumeSignal hs s) = g_ready_queue s" "ThreadListHead (fold KiConsumeSignal hs s) = ThreadListHead s"
  "kpcr (fold KiConsumeSignal hs s) = kpcr s" "g_kpcr (fold KiConsumeSignal hs s) = g_kpcr s"
  "g_tick_count (fold KiConsumeSignal hs s) = g_tick_count s"
  by (induction hs arbitrary: s) simp_all

lemma fold_consume_inv:
  assumes "sched_inv s X T" and "length hs \<le> 64"
    and "\<And>h. h \<in> set hs \<Longrightarrow> int (length hs) - 65 \<le> sint (SignalState (disp s h))"
  shows "sched_inv (fold KiConsumeSignal hs s) X T"
  using assms
proof (induction hs arbitrary: s)
  case (Cons h hs)
  have b: "- (2 ^ 31) < sint (SignalState (disp s h))" using Cons.prems(3) [of h] by simp
  have "sched_inv (fold KiConsumeSignal hs (KiConsumeSignal h s)) X T"
  proof (rule Cons.IH [OF consume_inv(1) [OF Cons.prems(1) b]])
    fix k assume "k \<in> set hs"
    then show "int (length hs) - 65 \<le> sint (SignalState (disp (KiConsumeSignal h s) k))"
      using consume_inv(2) [OF Cons.prems(1) b, of k] Cons.prems(2) Cons.prems(3) [of k] by auto
  qed (use Cons.prems(2) in simp)
  then show ?case by simp
qed simp

lemma first_acquirable_spec:
  "first_acquirable s i hs = Some j \<Longrightarrow> \<exists>k < length hs. j = i + k \<and> KiCanAcquire s (hs ! k) \<and> (\<forall>l < k. \<not> KiCanAcquire s (hs ! l))"
  "first_acquirable s i hs = None \<longleftrightarrow> (\<forall>h \<in> set hs. \<not> KiCanAcquire s h)"
proof (induction hs arbitrary: i)
  case (Cons h hs)
  { case 1
    show ?case
    proof (cases "KiCanAcquire s h")
      case False
      with 1 Cons(1) obtain k where "k < length hs" "j = Suc i + k" "KiCanAcquire s (hs ! k)" "\<forall>l < k. \<not> KiCanAcquire s (hs ! l)"
        by force
      then show ?thesis using False by (intro exI [of _ "Suc k"]) (auto simp: less_Suc_eq_0_disj)
    qed (use 1 in auto) }
  { case 2 show ?case using Cons(2) by simp }
qed auto

lemma try_acquire_None: "try_acquire f s = None \<longleftrightarrow> \<not> satisfiable s f"
  by (auto simp: try_acquire_def satisfiable_def first_acquirable_spec(2) list_all_iff split: option.split)
    (metis first_acquirable_spec(2) option.distinct(1))+

lemma queue_blocks_frame [simp]:
  "SignalState (disp (fold (queue_wait_block t) bs s) h) = SignalState (disp s h)"
  "d_Type (disp (fold (queue_wait_block t) bs s) h) = d_Type (disp s h)" "Limit (disp (fold (queue_wait_block t) bs s) h) = Limit (disp s h)"
  "frames (fold (queue_wait_block t) bs s) = frames s" "g_idle_thread (fold (queue_wait_block t) bs s) = g_idle_thread s"
  "g_current_thread (fold (queue_wait_block t) bs s) = g_current_thread s" "g_ready_queue (fold (queue_wait_block t) bs s) = g_ready_queue s"
  "ThreadListHead (fold (queue_wait_block t) bs s) = ThreadListHead s" "kpcr (fold (queue_wait_block t) bs s) = kpcr s"
  "g_kpcr (fold (queue_wait_block t) bs s) = g_kpcr s" "g_tick_count (fold (queue_wait_block t) bs s) = g_tick_count s"
  by (induction bs arbitrary: s; simp add: queue_wait_block_def split: prod.split)+

lemma queue_wait_block_apply:
  "threads (queue_wait_block t (i, h) s) = (threads s)(t := (threads s t)\<lparr>WaitBlocks := (WaitBlocks (threads s t))(i := \<lparr>wb_Thread = t, wb_Object = h\<rparr>)\<rparr>)"
  "WaitListHead (disp (queue_wait_block t (i, h) s) k) = WaitListHead (disp s k) @ (if k = h then [(t, i)] else [])"
  by (simp_all add: queue_wait_block_def)

lemma queue_blocks_threads:
  "threads (fold (queue_wait_block t) (enumerate 0 hs) s) = (threads s)(t := (threads s t)\<lparr>WaitBlocks := (\<lambda>i. if i < length hs
      then \<lparr>wb_Thread = t, wb_Object = hs ! i\<rparr> else WaitBlocks (threads s t) i)\<rparr>)"
proof (induction hs rule: rev_induct)
  case (snoc x xs)
  have "(\<lambda>i. if i < length xs then \<lparr>wb_Thread = t, wb_Object = xs ! i\<rparr> else WaitBlocks (threads s t) i)(length xs := \<lparr>wb_Thread = t, wb_Object = x\<rparr>) =
      (\<lambda>i. if i < length (xs @ [x]) then \<lparr>wb_Thread = t, wb_Object = (xs @ [x]) ! i\<rparr> else WaitBlocks (threads s t) i)"
    by (auto simp: nth_append)
  with snoc show ?case by (simp add: enumerate_append_eq queue_wait_block_apply fun_upd_same del: fun_upd_apply)
qed simp

lemma queue_blocks_lists:
  "(u, i) \<in> set (WaitListHead (disp (fold (queue_wait_block t) (enumerate 0 hs) s) h)) \<longleftrightarrow>
     (u, i) \<in> set (WaitListHead (disp s h)) \<or> u = t \<and> i < length hs \<and> hs ! i = h"
proof (induction hs rule: rev_induct)
  case (snoc x xs)
  have "(u, i) \<in> set (WaitListHead (disp (fold (queue_wait_block t) (enumerate 0 (xs @ [x])) s) h)) \<longleftrightarrow>
      (u, i) \<in> set (WaitListHead (disp (fold (queue_wait_block t) (enumerate 0 xs) s) h)) \<or> x = h \<and> u = t \<and> i = length xs"
    by (auto simp: enumerate_append_eq queue_wait_block_apply)
  also have "\<dots> \<longleftrightarrow> (u, i) \<in> set (WaitListHead (disp s h)) \<or> u = t \<and> i < length (xs @ [x]) \<and> (xs @ [x]) ! i = h"
    unfolding snoc by (cases "i = length xs") (auto simp: nth_append)
  finally show ?case .
qed simp

lemma queue_blocks_distinct:
  assumes "distinct (WaitListHead (disp s h))" and "\<forall>i. (t, i) \<notin> set (WaitListHead (disp s h))"
  shows "distinct (WaitListHead (disp (fold (queue_wait_block t) (enumerate 0 hs) s) h))"
proof (induction hs rule: rev_induct)
  case (snoc x xs)
  have "(t, length xs) \<notin> set (WaitListHead (disp (fold (queue_wait_block t) (enumerate 0 xs) s) h))"
    using assms(2) unfolding queue_blocks_lists by simp
  with snoc show ?case by (auto simp: enumerate_append_eq queue_wait_block_apply)
qed (use assms in simp)

definition wait_frames_ok :: "sched_state \<Rightarrow> bool" where
  "wait_frames_ok s \<longleftrightarrow> (\<forall>t f. frames s t = Some f \<longrightarrow> t \<in> set (ThreadListHead s) \<and> wf_objects f \<noteq> [] \<and> length (wf_objects f) \<le> 64)"

lemma block_inv:
  assumes inv: "sched_inv s {} {}" and cpu: "cpu_ok s" and cur: "g_current_thread s \<noteq> g_idle_thread s"
    and len: "length (wf_objects f) \<le> 64" and un: "\<not> satisfiable s f"
    and dl: "wf_deadline f \<noteq> 0 \<longrightarrow> g_tick_count s < wf_deadline f"
  defines "t \<equiv> g_current_thread s"
  defines "s1 \<equiv> upd_thread t (\<lambda>x. x\<lparr>WaitBlockCount := of_nat (length (wf_objects f)), WaitStatus := STATUS_PENDING,
      WaitDeadline := wf_deadline f\<rparr>) s"
  defines "s3 \<equiv> (upd_thread t (\<lambda>x. x\<lparr>State := ThreadStateWaiting\<rparr>) (fold (queue_wait_block t) (enumerate 0 (wf_objects f)) s1))
      \<lparr>frames := (frames s)(t := Some f)\<rparr>"
  shows "sched_inv s3 {} {}" and "waiting s3 t" and "State (threads s3 t) = ThreadStateWaiting"
proof -
  have q: "queue_ok s" and l: "lists_ok s" and p: "\<And>u. waiting s u \<Longrightarrow> pending s {} {} u" using inv by (auto simp: sched_inv_def)
  have st: "State (threads s t) = ThreadStateRunning" using cpu by (simp add: cpu_ok_def t_def Let_def)
  have nw: "\<not> waiting s t" using st by (simp add: waiting_def)
  have th: "threads s3 = (threads s)(t := (threads s t)\<lparr>WaitBlockCount := of_nat (length (wf_objects f)), WaitStatus := STATUS_PENDING,
      WaitDeadline := wf_deadline f, WaitBlocks := (\<lambda>i. if i < length (wf_objects f)
      then \<lparr>wb_Thread = t, wb_Object = wf_objects f ! i\<rparr> else WaitBlocks (threads s t) i), State := ThreadStateWaiting\<rparr>)"
    by (simp add: s3_def queue_blocks_threads s1_def cong: if_cong)
  have [simp]: "frames s3 = (frames s)(t := Some f)" "g_idle_thread s3 = g_idle_thread s" "g_current_thread s3 = t"
    "g_ready_queue s3 = g_ready_queue s" "ThreadListHead s3 = ThreadListHead s" "g_tick_count s3 = g_tick_count s"
    "SignalState (disp s3 h) = SignalState (disp s h)" for h
    by (simp_all add: s3_def s1_def t_def)
  have n: "unat (of_nat (length (wf_objects f)) :: u32) = length (wf_objects f)" using len by (intro unat_of_nat_id) simp
  have w: "waiting s3 u \<longleftrightarrow> waiting s u \<or> u = t" for u using queue_okD(4) [OF q] by (auto simp: waiting_def th t_def)
  have out: "(t, i) \<notin> set (WaitListHead (disp s h))" for i h using nw lists_okD(1) [OF l] by simp
  show "State (threads s3 t) = ThreadStateWaiting" by (simp add: th)
  show "waiting s3 t" by (simp add: w)
  have "queue_ok s3"
  proof (rule queue_okI)
    fix u
    show "u \<in> set (g_ready_queue s3) \<longleftrightarrow> u \<in> set (ThreadListHead s3) \<and> State (threads s3 u) = ThreadStateReady"
      using queue_okD(5) [OF q, of u] st by (simp add: th)
    show "u = g_current_thread s3 \<or> u = g_idle_thread s3" if "u \<in> set (ThreadListHead s3)" "State (threads s3 u) = ThreadStateRunning"
      using that queue_okD(8) [OF q, of u] by (auto simp: th t_def split: if_splits)
    show "unat (Quantum (threads s3 u)) \<le> 2" if "u \<in> set (ThreadListHead s3)"
      using that queue_okD(9) [OF q, of u] by (auto simp: th)
    show "KernelStackBase (threads s3 u) \<noteq> 0" if "u \<in> set (ThreadListHead s3)" "u \<noteq> g_idle_thread s3"
      using that queue_okD(10) [OF q, of u] by (auto simp: th)
  qed (use queue_okD(1,2,3,4,6,7) [OF q] cur in \<open>simp_all add: t_def th\<close>)
  moreover have "lists_ok s3"
    unfolding lists_ok_def
  proof (intro conjI allI impI)
    fix h u i
    have "(u, i) \<in> set (WaitListHead (disp s3 h)) \<longleftrightarrow>
        (u, i) \<in> set (WaitListHead (disp s h)) \<or> u = t \<and> i < length (wf_objects f) \<and> wf_objects f ! i = h"
      by (simp add: s3_def queue_blocks_lists) (simp add: s1_def)
    then show "(u, i) \<in> set (WaitListHead (disp s3 h)) \<longleftrightarrow>
        waiting s3 u \<and> i < unat (WaitBlockCount (threads s3 u)) \<and> wb_Object (WaitBlocks (threads s3 u) i) = h"
      using lists_okD(1) [OF l, of u i h] out nw n by (cases "u = t") (auto simp: w th)
    show "distinct (WaitListHead (disp s3 h))"
      using queue_blocks_distinct [of s1 h t "wf_objects f"] lists_okD(2) [OF l, of h] out by (simp add: s3_def s1_def)
    assume "waiting s3 u" "i < unat (WaitBlockCount (threads s3 u))"
    then show "wb_Thread (WaitBlocks (threads s3 u) i) = u"
      using lists_okD(3) [OF l, of u i] n by (cases "u = t") (auto simp: w th)
  qed
  moreover have "pending s3 {} {} u" if "waiting s3 u" for u
  proof -
    have sat: "satisfiable s3 g = satisfiable s g" for g by (rule satisfiable_cong) simp
    show ?thesis
    proof (cases "u = t")
      case True
      have "wf_objects f = map (\<lambda>i. wb_Object (WaitBlocks (threads s3 t) i)) [0..<length (wf_objects f)]"
        by (rule nth_equalityI) (simp_all add: th)
      then show ?thesis using True un dl n sat by (simp add: pending_def th)
    next
      case False
      then have "pending s {} {} u" using that p by (simp add: w)
      then show ?thesis using False by (simp add: pending_def th sat)
    qed
  qed
  ultimately show "sched_inv s3 {} {}" by (simp add: sched_inv_def)
qed

lemma forget_frame:
  assumes "sched_inv s X T" and "\<not> waiting s t"
  shows "sched_inv (s\<lparr>frames := (frames s)(t := None)\<rparr>) X T"
proof -
  let ?s = "s\<lparr>frames := (frames s)(t := None)\<rparr>"
  have w: "waiting ?s = waiting s" by (simp add: waiting_def fun_eq_iff)
  have "pending ?s X T u" if "waiting s u" for u
  proof -
    have "u \<noteq> t" "pending s X T u" using that assms by (auto simp: sched_inv_def)
    moreover have "satisfiable ?s f = satisfiable s f" for f by (rule satisfiable_cong) simp
    ultimately show ?thesis by (simp add: pending_def)
  qed
  moreover have "queue_ok ?s" using assms(1) by (simp add: sched_inv_def queue_ok_def)
  moreover have "lists_ok ?s" using assms(1) by (simp add: sched_inv_def lists_ok_def w)
  ultimately show ?thesis by (simp add: sched_inv_def w)
qed

lemma cpu_ok_cong:
  assumes "threads s' (g_current_thread s) = threads s (g_current_thread s)" "g_current_thread s' = g_current_thread s"
    "kpcr s' = kpcr s" "g_kpcr s' = g_kpcr s" "g_idle_thread s' = g_idle_thread s"
  shows "cpu_ok s' = cpu_ok s"
  using assms by (simp add: cpu_ok_def)

lemma try_acquire_inv:
  assumes "try_acquire f s = Some (st, s')" and inv: "sched_inv s X T" and len: "length (wf_objects f) \<le> 64"
  shows "sched_inv s' X T" and "threads s' = threads s" "frames s' = frames s" "kpcr s' = kpcr s" "g_kpcr s' = g_kpcr s"
    "g_current_thread s' = g_current_thread s" "g_idle_thread s' = g_idle_thread s" "ThreadListHead s' = ThreadListHead s"
    "g_ready_queue s' = g_ready_queue s"
proof -
  consider "wf_wait_all f" "list_all (KiCanAcquire s) (wf_objects f)" "s' = fold KiConsumeSignal (wf_objects f) s"
    | i where "first_acquirable s 0 (wf_objects f) = Some i" "s' = KiConsumeSignal (wf_objects f ! i) s"
    using assms(1) by (auto simp: try_acquire_def split: if_splits option.splits)
  then have "sched_inv s' X T \<and> threads s' = threads s \<and> frames s' = frames s \<and> kpcr s' = kpcr s \<and> g_kpcr s' = g_kpcr s \<and>
    g_current_thread s' = g_current_thread s \<and> g_idle_thread s' = g_idle_thread s \<and> ThreadListHead s' = ThreadListHead s \<and>
    g_ready_queue s' = g_ready_queue s"
  proof cases
    case 1
    then have "0 < sint (SignalState (disp s h))" if "h \<in> set (wf_objects f)" for h
      using that by (auto simp: list_all_iff KiCanAcquire_iff)
    then have "sched_inv s' X T" unfolding 1(3) by (intro fold_consume_inv [OF inv len]) (use len in force)
    then show ?thesis using 1(3) by simp
  next
    case 2
    from first_acquirable_spec(1) [OF 2(1)] have "0 < sint (SignalState (disp s (wf_objects f ! i)))"
      by (auto simp: KiCanAcquire_iff)
    then have "sched_inv s' X T" unfolding 2(2) by (intro consume_inv(1) [OF inv]) simp
    then show ?thesis using 2(2) by simp
  qed
  then show "sched_inv s' X T" "threads s' = threads s" "frames s' = frames s" "kpcr s' = kpcr s" "g_kpcr s' = g_kpcr s"
    "g_current_thread s' = g_current_thread s" "g_idle_thread s' = g_idle_thread s" "ThreadListHead s' = ThreadListHead s"
    "g_ready_queue s' = g_ready_queue s" by simp_all
qed

lemma wait_frames_okD: "wait_frames_ok s \<Longrightarrow> frames s t = Some f \<Longrightarrow> t \<in> set (ThreadListHead s) \<and> wf_objects f \<noteq> [] \<and> length (wf_objects f) \<le> 64"
  by (simp add: wait_frames_ok_def)

lemma wait_iteration_inv:
  assumes inv: "ke_inv s" and fr: "wait_frames_ok s" and cur: "g_current_thread s \<noteq> g_idle_thread s"
    and f: "wf_objects f \<noteq> []" "length (wf_objects f) \<le> 64"
  shows "ke_inv (snd (wait_iteration f s))" and "wait_frames_ok (snd (wait_iteration f s))"
proof -
  have si: "sched_inv s {} {}" and cpu: "cpu_ok s" using inv by (simp_all add: ke_inv_def)
  have q: "queue_ok s" using si by (simp add: sched_inv_def)
  have nw: "\<not> waiting s (g_current_thread s)" using cpu by (simp add: cpu_ok_def waiting_def Let_def)
  let ?t = "g_current_thread s"
  show "ke_inv (snd (wait_iteration f s))" "wait_frames_ok (snd (wait_iteration f s))"
  proof (atomize (full), cases "try_acquire f s")
    case (Some x)
    obtain st s' where x: "x = (st, s')" by (cases x)
    note ta = try_acquire_inv [OF Some [unfolded x] si f(2)]
    have "\<not> waiting s' ?t" using nw by (simp add: waiting_def ta)
    from forget_frame [OF ta(1) this] show "ke_inv (snd (wait_iteration f s)) \<and> wait_frames_ok (snd (wait_iteration f s))"
      using Some x cpu fr ta(2-) by (simp add: wait_iteration_def Let_def ke_inv_def wait_frames_ok_def cpu_ok_def)
  next
    case None
    then have un: "\<not> satisfiable s f" by (simp add: try_acquire_None)
    show "ke_inv (snd (wait_iteration f s)) \<and> wait_frames_ok (snd (wait_iteration f s))"
    proof (cases "wf_timeout_ticks f = 0 \<or> wf_deadline f \<noteq> 0 \<and> wf_deadline f \<le> g_tick_count s")
      case True
      from forget_frame [OF si nw] show ?thesis
        using None True cpu fr by (simp add: wait_iteration_def Let_def ke_inv_def wait_frames_ok_def cpu_ok_def)
    next
      case False
      then have dl: "wf_deadline f \<noteq> 0 \<longrightarrow> g_tick_count s < wf_deadline f" by auto
      define s1 where "s1 = upd_thread ?t (\<lambda>x. x\<lparr>WaitBlockCount := of_nat (length (wf_objects f)), WaitStatus := STATUS_PENDING,
        WaitDeadline := wf_deadline f\<rparr>) s"
      define s3 where "s3 = (upd_thread ?t (\<lambda>x. x\<lparr>State := ThreadStateWaiting\<rparr>) (fold (queue_wait_block ?t) (enumerate 0 (wf_objects f)) s1))
        \<lparr>frames := (frames s)(?t := Some f)\<rparr>"
      note b = block_inv [OF si cpu cur f(2) un dl, folded s1_def, folded s3_def]
      have e: "snd (wait_iteration f s) = KiSchedule s3"
        using None False by (simp add: wait_iteration_def Let_def s3_def s1_def KiBlockCurrentThread_def) blast
      have c3: "g_current_thread s3 = ?t" "kpcr s3 = kpcr s" "frames s3 = (frames s)(?t := Some f)" "ThreadListHead s3 = ThreadListHead s"
        by (simp_all add: s3_def s1_def)
      have "queue_ok s3" using b(1) by (simp add: sched_inv_def)
      note k = KiSchedule_queue [OF this]
      have "State (threads s3 (g_current_thread s3)) \<noteq> ThreadStateReady" "kpcr_CurrentThread (kpcr s3) = g_current_thread s3"
        using b(3) cpu by (simp_all add: c3 cpu_ok_def Let_def)
      note k = k [OF this]
      have "ke_inv (KiSchedule s3)" using sched_inv_frame [OF b(1) k(2,1)] k(3) by (simp add: ke_inv_def)
      moreover have "wait_frames_ok (KiSchedule s3)" using fr f queue_okD(4) [OF q] by (simp add: wait_frames_ok_def c3)
      ultimately show ?thesis unfolding e by simp
    qed
  qed
qed

section \<open>The steps\<close>

definition ke_good :: "sched_state \<Rightarrow> bool" where
  "ke_good s \<longleftrightarrow> ke_inv s \<and> wait_frames_ok s"

lemma ke_goodD:
  assumes "ke_good s"
  shows "sched_inv s {} {}" "queue_ok s" "lists_ok s" "cpu_ok s" "wait_frames_ok s" "\<not> waiting s (g_current_thread s)"
    "State (threads s (g_current_thread s)) = ThreadStateRunning" "kpcr_CurrentThread (kpcr s) = g_current_thread s"
  using assms by (auto simp: ke_good_def ke_inv_def sched_inv_def cpu_ok_def waiting_def Let_def)

lemma queue_ok_cong:
  assumes "ThreadListHead s' = ThreadListHead s" "g_ready_queue s' = g_ready_queue s" "g_idle_thread s' = g_idle_thread s"
    "g_current_thread s' = g_current_thread s" "frames s' = frames s"
    "\<And>t. State (threads s' t) = State (threads s t)" "\<And>t. unat (Quantum (threads s t)) \<le> 2 \<Longrightarrow> unat (Quantum (threads s' t)) \<le> 2"
    "\<And>t. KernelStackBase (threads s' t) = KernelStackBase (threads s t)"
  shows "queue_ok s \<Longrightarrow> queue_ok s'"
  unfolding queue_ok_def assms(1-6,8) using assms(7) by blast

lemma cpu_ok_disp [simp]: "cpu_ok (upd_disp h f s) = cpu_ok s"
  by (rule cpu_ok_cong) simp_all

lemma reschedule_good:
  assumes "sched_inv s {} {}" "wait_frames_ok s" "kpcr_CurrentThread (kpcr s) = g_current_thread s"
    "State (threads s (g_current_thread s)) \<noteq> ThreadStateReady"
  shows "ke_good (KiSchedule s)"
proof -
  have "queue_ok s" using assms(1) by (simp add: sched_inv_def)
  note k = KiSchedule_queue [OF this assms(4,3)]
  show ?thesis using sched_inv_frame [OF assms(1) k(2,1)] k(3) assms(2) by (simp add: ke_good_def ke_inv_def wait_frames_ok_def)
qed

lemma yield_good: "ke_good s \<Longrightarrow> ke_good (KeYield s)"
  using ke_goodD [of s] by (simp add: KeYield_def reschedule_good)

lemma unwait_id:
  assumes "lists_ok s" "\<not> waiting s t"
  shows "unwait t s = s"
proof -
  have "filter (\<lambda>e. fst e \<noteq> t) (WaitListHead (disp s h)) = WaitListHead (disp s h)" for h
    by (rule filter_True) (use lists_okD(1) [OF assms(1)] assms(2) in auto)
  then show ?thesis by (simp add: unwait_def)
qed

lemma resume_good:
  assumes g: "ke_good s" and f: "frames s (g_current_thread s) = Some f"
  shows "ke_good (snd (KiResumeWait f s))"
proof -
  note d = ke_goodD [OF g]
  let ?t = "g_current_thread s"
  have u: "KiUnlinkThreadWait ?t s = s" using KiUnlinkThreadWait_eq [OF d(3)] unwait_id [OF d(3,6)] by simp
  define s2 where "s2 = upd_thread ?t (\<lambda>x. x\<lparr>WaitBlockCount := 0\<rparr>) s"
  have sw: "same_waits s s2" using d(7) by (simp add: same_waits_def s2_def)
  have q: "queue_ok s2"
    by (rule queue_ok_cong [OF _ _ _ _ _ _ _ _ d(2)]) (auto simp: s2_def)
  have si: "sched_inv s2 {} {}" by (rule sched_inv_frame [OF d(1) sw q])
  have cpu: "cpu_ok s2" using d(4) by (simp add: cpu_ok_def s2_def Let_def)
  have fr: "wait_frames_ok s2" using d(5) by (simp add: wait_frames_ok_def s2_def)
  have cur: "?t \<noteq> g_idle_thread s" using f queue_okD(7) [OF d(2)] by auto
  note fo = wait_frames_okD [OF d(5) f]
  show ?thesis
  proof (cases "WaitStatus (threads s ?t) = STATUS_TIMEOUT")
    case True
    have "\<not> waiting s2 ?t" using d(6) same_waitsD(1) [OF sw] by simp
    from forget_frame [OF si this] have "sched_inv (s2\<lparr>frames := (frames s2)(?t := None)\<rparr>) {} {}" .
    then show ?thesis using True cpu fr
      by (simp add: KiResumeWait_def u Let_def s2_def [symmetric] ke_good_def ke_inv_def wait_frames_ok_def cpu_ok_def)
  next
    case False
    have "ke_good (snd (wait_iteration f s2))"
      using wait_iteration_inv [of s2 f] si cpu fr cur fo by (simp add: ke_good_def ke_inv_def s2_def)
    then show ?thesis using False by (simp add: KiResumeWait_def u Let_def s2_def [symmetric])
  qed
qed

lemma wait_good:
  assumes g: "ke_good s" and cur: "g_current_thread s \<noteq> g_idle_thread s"
  shows "ke_good (snd (KeWaitForMultipleObjects objects wait_all timeout_ticks s))"
  using wait_iteration_inv [of s] assms by (simp add: KeWaitForMultipleObjects_def Let_def ke_good_def)

lemma signal_op:
  fixes h :: u64
  assumes inv: "sched_inv s {} {}" and eq: "\<And>d. WaitListHead (f d) = WaitListHead d"
  defines "s' \<equiv> KiSignalObject h (upd_disp h f s)"
  shows "sched_inv s' {} {}" "same_but_waits (upd_disp h f s) s'" "\<not> waiting s t \<Longrightarrow> threads s' t = threads s t"
    "\<exists>ts. g_ready_queue s' = g_ready_queue s @ ts"
proof -
  have "sched_inv (upd_disp h f s) {h} {}" by (rule signal_change [OF inv eq]) auto
  note k = KiSignalObject_spec [OF this, of h]
  show "sched_inv s' {} {}" using k settle [of s' h "{}" "{}"] by (simp add: s'_def)
  show "same_but_waits (upd_disp h f s) s'" using k by (simp add: s'_def)
  show "\<exists>ts. g_ready_queue s' = g_ready_queue s @ ts" using k by (auto simp: s'_def)
  have l: "lists_ok s" using inv by (simp add: sched_inv_def)
  show "threads s' t = threads s t" if "\<not> waiting s t"
    using k that lists_okD(1) [OF l, of t] by (auto simp: s'_def waits_on_def eq split: if_splits)
qed

lemma signal_good:
  assumes g: "ke_good s" and eq: "\<And>d. WaitListHead (f d) = WaitListHead d"
  shows "ke_good (KiSignalObject h (upd_disp h f s))"
proof -
  note d = ke_goodD [OF g]
  note so = signal_op [OF d(1) eq, where h = h]
  have "cpu_ok (KiSignalObject h (upd_disp h f s))"
    using d(4) so(2) so(3) [OF d(6)] by (simp add: cpu_ok_def same_but_waits_def Let_def)
  then show ?thesis using so(1,2) d(5) by (simp add: ke_good_def ke_inv_def wait_frames_ok_def same_but_waits_def)
qed

lemma signal_ops_good:
  assumes "ke_good s"
  shows "ke_good (snd (KeSetEvent h s))" "ke_good (snd (KeReleaseMutant h s))" "ke_good (snd (KeReleaseSemaphore h n s))"
proof -
  show "ke_good (snd (KeSetEvent h s))" "ke_good (snd (KeReleaseMutant h s))"
    by (simp_all add: KeSetEvent_def KeReleaseMutant_def Let_def signal_good [OF assms])
  let ?lim = "\<lambda>d. let v = SignalState d + n in if Limit d \<noteq> 0 \<and> sint (Limit d) < sint v then Limit d else v"
  have "snd (KeReleaseSemaphore h n s) = KiSignalObject h (upd_disp h (\<lambda>d. d\<lparr>SignalState := ?lim d\<rparr>) s)"
    by (simp add: KeReleaseSemaphore_def Let_def upd_disp_def)
  then show "ke_good (snd (KeReleaseSemaphore h n s))" by (simp add: signal_good [OF assms])
qed

lemma reset_good: "ke_good s \<Longrightarrow> ke_good (KeResetEvent h s)"
  using signal_change [of s "{}" "{}" "\<lambda>d. d\<lparr>SignalState := 0\<rparr>" h "{}"]
  by (simp add: KeResetEvent_def ke_good_def ke_inv_def wait_frames_ok_def)

lemma initialize_good:
  assumes g: "ke_good s" and e: "WaitListHead (disp s h) = []" and eq: "\<And>d. WaitListHead (f d) = []"
  shows "ke_good (upd_disp h f s)"
proof -
  note d = ke_goodD [OF g]
  let ?g = "\<lambda>d. (f d)\<lparr>WaitListHead := WaitListHead d\<rparr>"
  have "(f (disp s h))\<lparr>WaitListHead := []\<rparr> = f (disp s h)" using eq [of "disp s h"] by (cases "f (disp s h)") simp
  then have same: "upd_disp h f s = upd_disp h ?g s" using e by (simp only: upd_disp_def)
  have "sched_inv (upd_disp h ?g s) {h} {}" by (rule signal_change [OF d(1)]) auto
  then have "sched_inv (upd_disp h ?g s) {} {}" by (rule settle) (simp add: e)
  then show ?thesis using d(4,5) unfolding same by (simp add: ke_good_def ke_inv_def wait_frames_ok_def)
qed

lemma shared_data_frame [simp]:
  "threads (KeUpdateSharedData n s) = threads s" "disp (KeUpdateSharedData n s) = disp s" "frames (KeUpdateSharedData n s) = frames s"
  "g_idle_thread (KeUpdateSharedData n s) = g_idle_thread s" "g_current_thread (KeUpdateSharedData n s) = g_current_thread s"
  "g_ready_queue (KeUpdateSharedData n s) = g_ready_queue s" "ThreadListHead (KeUpdateSharedData n s) = ThreadListHead s"
  "g_tick_count (KeUpdateSharedData n s) = g_tick_count s" "kpcr (KeUpdateSharedData n s) = kpcr s" "g_kpcr (KeUpdateSharedData n s) = g_kpcr s"
  by (simp_all add: KeUpdateSharedData_def wr32_def Let_def)

lemma expire_inv:
  assumes inv: "sched_inv s X (insert t T)" and t: "t \<in> set (ThreadListHead s)"
  shows "sched_inv (expire_wait t s) X T" "same_but_waits s (expire_wait t s)" "\<exists>ts. g_ready_queue (expire_wait t s) = g_ready_queue s @ ts"
    "\<not> waiting s u \<Longrightarrow> threads (expire_wait t s) u = threads s u \<and> \<not> waiting (expire_wait t s) u"
proof -
  have l: "lists_ok s" using inv by (simp add: sched_inv_def)
  let ?c = "State (threads s t) = ThreadStateWaiting \<and> WaitDeadline (threads s t) \<noteq> 0 \<and> WaitDeadline (threads s t) \<le> g_tick_count s"
  have e: "expire_wait t s = (if ?c then woken t STATUS_TIMEOUT s else s)"
    by (simp add: expire_wait_def KiTimeoutThreadWait_def KiWakeWaitingThread_eq [OF l])
  show "sched_inv (expire_wait t s) X T"
  proof (cases ?c)
    case True
    then have "waiting s t" using t by (simp add: waiting_def)
    from woken_inv [OF inv this, of T STATUS_TIMEOUT] True show ?thesis by (simp add: e)
  next
    case False
    have "pending s X T u" if "waiting s u" for u
    proof -
      have p: "pending s X (insert t T) u" using inv that by (simp add: sched_inv_def)
      show ?thesis
      proof (cases "u = t")
        case True
        then have "WaitDeadline (threads s t) = 0 \<or> g_tick_count s < WaitDeadline (threads s t)"
          using False that by (auto simp: waiting_def)
        with p True show ?thesis by (auto simp: pending_def)
      next
        case False
        with p show ?thesis by (simp add: pending_def)
      qed
    qed
    then have "sched_inv s X T" using inv by (simp add: sched_inv_def)
    then show ?thesis unfolding e if_not_P [OF False] .
  qed
  show "same_but_waits s (expire_wait t s)" by (simp add: e)
  show "\<exists>ts. g_ready_queue (expire_wait t s) = g_ready_queue s @ ts" by (simp add: e)
  show "threads (expire_wait t s) u = threads s u \<and> \<not> waiting (expire_wait t s) u" if "\<not> waiting s u"
    using that t by (auto simp: e waiting_woken) (auto simp: waiting_def)
qed

lemma expire_all:
  assumes "sched_inv s X (set ts)" and "set ts \<subseteq> set (ThreadListHead s)"
  shows "sched_inv (fold expire_wait ts s) X {} \<and> same_but_waits s (fold expire_wait ts s) \<and>
    (\<exists>us. g_ready_queue (fold expire_wait ts s) = g_ready_queue s @ us) \<and>
    (\<forall>u. \<not> waiting s u \<longrightarrow> threads (fold expire_wait ts s) u = threads s u)"
  using assms
proof (induction ts arbitrary: s)
  case (Cons t ts)
  note x = expire_inv [of s X t "set ts"]
  have i: "sched_inv s X (insert t (set ts))" "t \<in> set (ThreadListHead s)" using Cons.prems by simp_all
  note x = x [OF i]
  have tl: "ThreadListHead (expire_wait t s) = ThreadListHead s" using x(2) by (simp add: same_but_waits_def)
  have ih: "sched_inv (fold expire_wait ts (expire_wait t s)) X {} \<and> same_but_waits (expire_wait t s) (fold expire_wait ts (expire_wait t s)) \<and>
    (\<exists>us. g_ready_queue (fold expire_wait ts (expire_wait t s)) = g_ready_queue (expire_wait t s) @ us) \<and>
    (\<forall>u. \<not> waiting (expire_wait t s) u \<longrightarrow> threads (fold expire_wait ts (expire_wait t s)) u = threads (expire_wait t s) u)"
    by (rule Cons.IH [OF x(1)]) (use Cons.prems(2) tl in simp)
  have "same_but_waits s (fold expire_wait ts (expire_wait t s))" using same_but_waits_trans [OF x(2)] ih by blast
  moreover have "\<exists>us. g_ready_queue (fold expire_wait ts (expire_wait t s)) = g_ready_queue s @ us" using ih x(3) by auto
  ultimately show ?case using ih x(4) by auto
qed simp

text \<open>The clock interrupt up to the test of the quantum.\<close>

definition tick_wakes :: "sched_state \<Rightarrow> sched_state" where
  "tick_wakes s = fold expire_wait (ThreadListHead s) (KeUpdateSharedData (g_tick_count s + 1) (s\<lparr>g_tick_count := g_tick_count s + 1\<rparr>))"

definition tick_quantum :: "sched_state \<Rightarrow> sched_state" where
  "tick_quantum s = (let t = g_current_thread s in
     if 0 < sint (Quantum (threads s t)) then upd_thread t (\<lambda>x. x\<lparr>Quantum := Quantum x - 1\<rparr>) s else s)"

lemma KeClockTick_split:
  "KeClockTick s = (let s4 = tick_quantum (tick_wakes s)
     in if sint (Quantum (threads s4 (g_current_thread s4))) \<le> 0 then KiSchedule s4 else s4)"
proof -
  have c: "g_current_thread (tick_quantum s) = g_current_thread s" for s by (simp add: tick_quantum_def Let_def)
  show ?thesis unfolding Let_def c by (simp add: KeClockTick_def Let_def tick_wakes_def tick_quantum_def)
qed

lemma tick_wakes_spec:
  assumes g: "ke_good s"
  shows "ke_good (tick_wakes s)" "g_current_thread (tick_wakes s) = g_current_thread s" "g_idle_thread (tick_wakes s) = g_idle_thread s"
    "\<exists>us. g_ready_queue (tick_wakes s) = g_ready_queue s @ us" "\<not> waiting s t \<Longrightarrow> threads (tick_wakes s) t = threads s t"
    "g_tick_count (tick_wakes s) = g_tick_count s + 1" "ThreadListHead (tick_wakes s) = ThreadListHead s"
proof -
  note d = ke_goodD [OF g]
  define s2 where "s2 = KeUpdateSharedData (g_tick_count s + 1) (s\<lparr>g_tick_count := g_tick_count s + 1\<rparr>)"
  have tl: "ThreadListHead s2 = ThreadListHead s" by (simp add: s2_def)
  have w: "waiting s2 = waiting s" by (simp add: waiting_def s2_def fun_eq_iff)
  have "queue_ok s2" by (rule queue_ok_cong [OF _ _ _ _ _ _ _ _ d(2)]) (simp_all add: s2_def)
  moreover have "lists_ok s2" using d(3) by (simp add: lists_ok_def w) (simp add: s2_def)
  moreover have "pending s2 {} (set (ThreadListHead s)) u" if "waiting s u" for u
  proof -
    have sat: "satisfiable s2 f = satisfiable s f" for f by (rule satisfiable_cong) (simp add: s2_def)
    have "pending s {} {} u" using d(1) that by (simp add: sched_inv_def)
    moreover have "u \<in> set (ThreadListHead s)" using that by (simp add: waiting_def)
    ultimately show ?thesis by (simp add: pending_def sat) (auto simp: s2_def)
  qed
  ultimately have "sched_inv s2 {} (set (ThreadListHead s))" by (simp add: sched_inv_def w)
  note x = expire_all [OF this]
  have eq: "tick_wakes s = fold expire_wait (ThreadListHead s) s2" by (simp add: tick_wakes_def s2_def)
  have x: "sched_inv (tick_wakes s) {} {}" "same_but_waits s2 (tick_wakes s)" "\<exists>us. g_ready_queue (tick_wakes s) = g_ready_queue s2 @ us"
    "\<forall>u. \<not> waiting s2 u \<longrightarrow> threads (tick_wakes s) u = threads s2 u" using x unfolding eq by (simp_all add: tl)
  show c: "g_current_thread (tick_wakes s) = g_current_thread s" "g_idle_thread (tick_wakes s) = g_idle_thread s"
    "\<exists>us. g_ready_queue (tick_wakes s) = g_ready_queue s @ us" 
    "g_tick_count (tick_wakes s) = g_tick_count s + 1" "ThreadListHead (tick_wakes s) = ThreadListHead s"
    using x(2,3) by (simp_all add: same_but_waits_def s2_def)
  show th: "threads (tick_wakes s) t = threads s t" if "\<not> waiting s t" for t using x(4) that by (simp add: w) (simp add: s2_def)
  have "cpu_ok (tick_wakes s)"
    using d(4) cpu_ok_cong [of "tick_wakes s" s] th [OF d(6)] c x(2) by (simp add: same_but_waits_def s2_def)
  moreover have "wait_frames_ok (tick_wakes s)" using d(5) x(2) by (simp add: wait_frames_ok_def same_but_waits_def s2_def)
  ultimately show "ke_good (tick_wakes s)" using x(1) by (simp add: ke_good_def ke_inv_def)
qed

lemma unat_pred_u32: "0 < sint (x :: u32) \<Longrightarrow> unat (x - 1) = unat x - 1"
  using unat_minus_one [of x] by (metis sint_0 less_irrefl)

lemma tick_quantum_good:
  assumes g: "ke_good s"
  shows "ke_good (tick_quantum s)"
proof -
  note d = ke_goodD [OF g]
  let ?t = "g_current_thread s" and ?s = "tick_quantum s"
  have f [simp]: "ThreadListHead ?s = ThreadListHead s" "g_ready_queue ?s = g_ready_queue s" "g_idle_thread ?s = g_idle_thread s"
    "g_current_thread ?s = ?t" "frames ?s = frames s" "disp ?s = disp s" "g_tick_count ?s = g_tick_count s" "kpcr ?s = kpcr s" "g_kpcr ?s = g_kpcr s"
    by (simp_all add: tick_quantum_def Let_def)
  have th: "threads ?s u = (threads s u)\<lparr>Quantum := Quantum (threads ?s u)\<rparr>" "u \<noteq> ?t \<Longrightarrow> threads ?s u = threads s u"
    "unat (Quantum (threads ?s u)) \<le> unat (Quantum (threads s u))" for u
    by (auto simp: tick_quantum_def Let_def unat_pred_u32)
  have th': "State (threads ?s u) = State (threads s u)" "KernelStackBase (threads ?s u) = KernelStackBase (threads s u)"
    "KernelStackSize (threads ?s u) = KernelStackSize (threads s u)" "UserGsBase (threads ?s u) = UserGsBase (threads s u)"
    "WaitBlocks (threads ?s u) = WaitBlocks (threads s u)" "WaitBlockCount (threads ?s u) = WaitBlockCount (threads s u)"
    "WaitDeadline (threads ?s u) = WaitDeadline (threads s u)" for u
    by (simp_all add: tick_quantum_def Let_def)
  have q: "queue_ok ?s"
    by (rule queue_ok_cong [OF _ _ _ _ _ _ _ _ d(2)]) (simp_all add: th', rule le_trans [OF th(3)])
  have "same_waits s ?s" by (simp add: same_waits_def th')
  from sched_inv_frame [OF d(1) this q] d(4,5) show ?thesis
    by (simp add: ke_good_def ke_inv_def cpu_ok_def wait_frames_ok_def th' Let_def)
qed

lemma tick_good:
  assumes g: "ke_good s"
  shows "ke_good (KeClockTick s)"
proof -
  have g4: "ke_good (tick_quantum (tick_wakes s))" by (rule tick_quantum_good [OF tick_wakes_spec(1) [OF g]])
  from reschedule_good [OF ke_goodD(1,5,8) [OF g4]] ke_goodD(7) [OF g4] g4 show ?thesis
    by (simp add: KeClockTick_split Let_def)
qed

lemma create_good:
  assumes g: "ke_good s" and t: "t \<notin> set (ThreadListHead s)"
    and x: "State x = ThreadStateReady" "Quantum x = DEFAULT_QUANTUM" "KernelStackBase x \<noteq> 0"
  shows "ke_good (KepEnqueueThread t (upd_thread t (\<lambda>_. x) s))"
proof -
  note d = ke_goodD [OF g]
  let ?s = "KepEnqueueThread t (upd_thread t (\<lambda>_. x) s)"
  have f [simp]: "ThreadListHead ?s = ThreadListHead s @ [t]" "g_ready_queue ?s = g_ready_queue s @ [t]" "g_idle_thread ?s = g_idle_thread s"
    "g_current_thread ?s = g_current_thread s" "frames ?s = frames s" "disp ?s = disp s" "g_tick_count ?s = g_tick_count s" "kpcr ?s = kpcr s"
    "g_kpcr ?s = g_kpcr s" "threads ?s = (threads s)(t := x)"
    by (simp_all add: KepEnqueueThread_def)
  note qd = queue_okD [OF d(2)]
  have w: "waiting ?s u \<longleftrightarrow> waiting s u" for u using t x(1) by (auto simp: waiting_def)
  have wt: "u \<noteq> t" if "waiting s u" for u using that t by (auto simp: waiting_def)
  have "queue_ok ?s"
  proof (rule queue_okI)
    fix u
    show "u \<in> set (g_ready_queue ?s) \<longleftrightarrow> u \<in> set (ThreadListHead ?s) \<and> State (threads ?s u) = ThreadStateReady"
      using qd(5) [of u] t x(1) by auto
    show "u = g_current_thread ?s \<or> u = g_idle_thread ?s" if "u \<in> set (ThreadListHead ?s)" "State (threads ?s u) = ThreadStateRunning"
      using that qd(8) [of u] x(1) by (auto split: if_splits)
    show "unat (Quantum (threads ?s u)) \<le> 2" if "u \<in> set (ThreadListHead ?s)"
      using that qd(9) [of u] x(2) by auto
    show "KernelStackBase (threads ?s u) \<noteq> 0" if "u \<in> set (ThreadListHead ?s)" "u \<noteq> g_idle_thread ?s"
      using that qd(10) [of u] x(3) by auto
    show "distinct (g_ready_queue ?s)" using qd(2) qd(5) [of t] t by simp
    show "State (threads ?s (g_idle_thread ?s)) = ThreadStateRunning" using qd(3,6) t by auto
  qed (use qd(1,3,4,7) t in auto)
  moreover have "lists_ok ?s"
    unfolding lists_ok_def w
  proof (intro conjI allI impI)
    fix h u i
    show "(u, i) \<in> set (WaitListHead (disp ?s h)) \<longleftrightarrow> waiting s u \<and> i < unat (WaitBlockCount (threads ?s u)) \<and>
        wb_Object (WaitBlocks (threads ?s u) i) = h"
      using lists_okD(1) [OF d(3), of u i h] wt [of u] by auto
    show "distinct (WaitListHead (disp ?s h))" using lists_okD(2) [OF d(3)] by simp
    show "wb_Thread (WaitBlocks (threads ?s u) i) = u" if "waiting s u" "i < unat (WaitBlockCount (threads ?s u))"
      using lists_okD(3) [OF d(3), of u i] wt [of u] that by auto
  qed
  moreover have "pending ?s {} {} u" if "waiting s u" for u
  proof -
    have "satisfiable ?s h = satisfiable s h" for h by (rule satisfiable_cong) simp
    moreover have "pending s {} {} u" using d(1) that by (simp add: sched_inv_def)
    ultimately show ?thesis using wt [OF that] by (simp add: pending_def)
  qed
  ultimately have "sched_inv ?s {} {}" by (simp add: sched_inv_def w)
  moreover have "cpu_ok ?s"
  proof -
    have "g_current_thread s \<noteq> t" using qd(4) t by auto
    then show ?thesis using d(4) cpu_ok_cong [of ?s s] by simp
  qed
  moreover have "wait_frames_ok ?s" using d(5) by (auto simp: wait_frames_ok_def)
  ultimately show ?thesis by (simp add: ke_good_def ke_inv_def)
qed

text \<open>The scheduler's part of \<^verbatim>\<open>KeTerminateThread\<close>.\<close>

definition ended :: "sched_state \<Rightarrow> sched_state" where
  "ended k =
     (let t = g_current_thread k; k1 = upd_thread t (\<lambda>x. x\<lparr>State := ThreadStateTerminated\<rparr>) k; h = TerminationObject (threads k t)
      in if h \<noteq> 0 then upd_thread t (\<lambda>x. x\<lparr>TerminationObject := 0\<rparr>)
           (KiSignalObject h (upd_disp h (\<lambda>d. d\<lparr>SignalState := 1\<rparr>) k1)) else k1)"

definition end_thread :: "sched_state \<Rightarrow> sched_state" where
  "end_thread k = KiSchedule (ended k)"

lemma ended_inv:
  assumes g: "ke_good s" and cur: "g_current_thread s \<noteq> g_idle_thread s"
  shows "sched_inv (upd_thread (g_current_thread s) (\<lambda>x. x\<lparr>State := ThreadStateTerminated\<rparr>) s) {} {}"
proof -
  note d = ke_goodD [OF g]
  let ?t = "g_current_thread s"
  define k1 where "k1 = upd_thread ?t (\<lambda>x. x\<lparr>State := ThreadStateTerminated\<rparr>) s"
  note qd = queue_okD [OF d(2)]
  have "same_waits s k1" using d(7) by (simp add: same_waits_def k1_def)
  moreover have "queue_ok k1"
  proof (rule queue_okI)
    fix u
    show "u \<in> set (g_ready_queue k1) \<longleftrightarrow> u \<in> set (ThreadListHead k1) \<and> State (threads k1 u) = ThreadStateReady"
      using qd(5) [of u] d(7) by (auto simp: k1_def)
    show "u = g_current_thread k1 \<or> u = g_idle_thread k1" if "u \<in> set (ThreadListHead k1)" "State (threads k1 u) = ThreadStateRunning"
      using that qd(8) [of u] by (auto simp: k1_def split: if_splits)
    show "unat (Quantum (threads k1 u)) \<le> 2" if "u \<in> set (ThreadListHead k1)" using that qd(9) [of u] by (auto simp: k1_def)
    show "KernelStackBase (threads k1 u) \<noteq> 0" if "u \<in> set (ThreadListHead k1)" "u \<noteq> g_idle_thread k1"
      using that qd(10) [of u] by (auto simp: k1_def)
  qed (use qd(1,2,3,4,6,7) cur in \<open>simp_all add: k1_def\<close>)
  ultimately show ?thesis using sched_inv_frame [OF d(1)] unfolding k1_def by blast
qed

lemma ended_spec:
  assumes g: "ke_good s" and cur: "g_current_thread s \<noteq> g_idle_thread s"
  shows "sched_inv (ended s) {} {} \<and> wait_frames_ok (ended s) \<and> g_current_thread (ended s) = g_current_thread s \<and>
    kpcr_CurrentThread (kpcr (ended s)) = g_current_thread s \<and>
    State (threads (ended s) (g_current_thread s)) = ThreadStateTerminated \<and>
    Quantum (threads (ended s) (g_current_thread s)) = Quantum (threads s (g_current_thread s)) \<and>
    (\<exists>us. g_ready_queue (ended s) = g_ready_queue s @ us)"
proof -
  note d = ke_goodD [OF g]
  let ?t = "g_current_thread s"
  define k1 where "k1 = upd_thread ?t (\<lambda>x. x\<lparr>State := ThreadStateTerminated\<rparr>) s"
  have i1: "sched_inv k1 {} {}" unfolding k1_def by (rule ended_inv [OF g cur])
  have f1: "wait_frames_ok k1" "kpcr_CurrentThread (kpcr k1) = ?t" "g_current_thread k1 = ?t" "State (threads k1 ?t) = ThreadStateTerminated"
    "Quantum (threads k1 ?t) = Quantum (threads s ?t)" "g_ready_queue k1 = g_ready_queue s"
    using d(5,8) by (simp_all add: k1_def wait_frames_ok_def)
  have "\<not> waiting k1 ?t" by (simp add: waiting_def f1(4))
  show ?thesis
  proof (cases "TerminationObject (threads s ?t) = 0")
    case True
    then have e: "ended s = k1" by (simp add: ended_def Let_def k1_def)
    show ?thesis using i1 f1 unfolding e by simp
  next
    case False
    let ?h = "TerminationObject (threads s ?t)"
    define k3 where "k3 = KiSignalObject ?h (upd_disp ?h (\<lambda>d. d\<lparr>SignalState := 1\<rparr>) k1)"
    define k4 where "k4 = upd_thread ?t (\<lambda>x. x\<lparr>TerminationObject := 0\<rparr>) k3"
    have "\<And>d. WaitListHead (d\<lparr>SignalState := 1\<rparr>) = WaitListHead d" by simp
    note so = signal_op [OF i1 this, where h = ?h, folded k3_def]
    have th: "threads k3 ?t = threads k1 ?t" by (rule so(3) [OF \<open>\<not> waiting k1 ?t\<close>])
    have c3: "g_current_thread k3 = ?t" "kpcr k3 = kpcr k1" "frames k3 = frames k1" "ThreadListHead k3 = ThreadListHead k1"
      using so(2) f1(3) by (simp_all add: same_but_waits_def)
    have "same_waits k3 k4" using th f1(4) by (simp add: same_waits_def k4_def)
    moreover have "queue_ok k4"
    proof (rule queue_ok_cong [of k4 k3])
      show "queue_ok k3" using so(1) by (simp add: sched_inv_def)
    qed (auto simp: k4_def)
    ultimately have "sched_inv k4 {} {}" using sched_inv_frame [OF so(1)] by blast
    moreover have "wait_frames_ok k4" using f1(1) by (simp add: wait_frames_ok_def k4_def c3)
    moreover have e: "ended s = k4" using False by (simp add: ended_def Let_def k1_def k3_def k4_def)
    ultimately show ?thesis using f1 th so(4) unfolding e by (simp add: k4_def c3)
  qed
qed

lemma terminate_good:
  assumes g: "ke_good s" and cur: "g_current_thread s \<noteq> g_idle_thread s"
  shows "ke_good (end_thread s)"
  using ended_spec [OF assms] reschedule_good [of "ended s"] by (simp add: end_thread_def)

text \<open>The steps of the machine: what the running thread may call, and the clock interrupt. A thread that comes back from a
  blocked wait goes on with that wait. The idle thread neither waits nor terminates. The stack pointer changes
  as code runs.\<close>

inductive ke_step :: "sched_state \<Rightarrow> sched_state \<Rightarrow> bool" where
  resume: "frames s (g_current_thread s) = Some f \<Longrightarrow> ke_step s (snd (KiResumeWait f s))"
| yield: "frames s (g_current_thread s) = None \<Longrightarrow> ke_step s (KeYield s)"
| tick: "frames s (g_current_thread s) = None \<Longrightarrow> ke_step s (KeClockTick s)"
| wait: "frames s (g_current_thread s) = None \<Longrightarrow> g_current_thread s \<noteq> g_idle_thread s \<Longrightarrow>
    ke_step s (snd (KeWaitForMultipleObjects objects wait_all timeout_ticks s))"
| set_event: "frames s (g_current_thread s) = None \<Longrightarrow> ke_step s (snd (KeSetEvent h s))"
| reset_event: "frames s (g_current_thread s) = None \<Longrightarrow> ke_step s (KeResetEvent h s)"
| release_semaphore: "frames s (g_current_thread s) = None \<Longrightarrow> ke_step s (snd (KeReleaseSemaphore h n s))"
| release_mutant: "frames s (g_current_thread s) = None \<Longrightarrow> ke_step s (snd (KeReleaseMutant h s))"
| init_event: "frames s (g_current_thread s) = None \<Longrightarrow> WaitListHead (disp s h) = [] \<Longrightarrow> ke_step s (KeInitializeEvent h a b s)"
| init_semaphore: "frames s (g_current_thread s) = None \<Longrightarrow> WaitListHead (disp s h) = [] \<Longrightarrow> ke_step s (KeInitializeSemaphore h i l s)"
| init_mutant: "frames s (g_current_thread s) = None \<Longrightarrow> WaitListHead (disp s h) = [] \<Longrightarrow> ke_step s (KeInitializeMutant h b s)"
| create: "frames s (g_current_thread s) = None \<Longrightarrow> t \<notin> set (ThreadListHead s) \<Longrightarrow> State x = ThreadStateReady \<Longrightarrow>
    Quantum x = DEFAULT_QUANTUM \<Longrightarrow> KernelStackBase x \<noteq> 0 \<Longrightarrow> ke_step s (KepEnqueueThread t (upd_thread t (\<lambda>_. x) s))"
| terminate: "frames s (g_current_thread s) = None \<Longrightarrow> g_current_thread s \<noteq> g_idle_thread s \<Longrightarrow> ke_step s (end_thread s)"
| run: "frames s (g_current_thread s) = None \<Longrightarrow> ke_step s (s\<lparr>cpu_rsp := v\<rparr>)"

lemma run_good: "ke_good s \<Longrightarrow> ke_good (s\<lparr>cpu_rsp := v\<rparr>)"
proof -
  assume g: "ke_good s"
  note d = ke_goodD [OF g]
  have "same_waits s (s\<lparr>cpu_rsp := v\<rparr>)" by (simp add: same_waits_def)
  moreover have "queue_ok (s\<lparr>cpu_rsp := v\<rparr>)" by (rule queue_ok_cong [OF _ _ _ _ _ _ _ _ d(2)]) simp_all
  ultimately show ?thesis using sched_inv_frame [OF d(1)] d(4,5) by (simp add: ke_good_def ke_inv_def cpu_ok_def wait_frames_ok_def Let_def)
qed

lemma ke_step_good: "ke_step s s' \<Longrightarrow> ke_good s \<Longrightarrow> ke_good s'"
proof (induction rule: ke_step.induct)
  case (init_event s h a b)
  then show ?case unfolding KeInitializeEvent_def by (intro initialize_good) simp_all
next
  case (init_semaphore s h i l)
  then show ?case unfolding KeInitializeSemaphore_def by (intro initialize_good) simp_all
next
  case (init_mutant s h b)
  then show ?case unfolding KeInitializeMutant_def by (intro initialize_good) simp_all
qed (simp_all add: resume_good yield_good tick_good wait_good signal_ops_good reset_good create_good terminate_good run_good)

interpretation ke_machine: transition_system ke_step ke_good
  by unfold_locales (rule ke_step_good)

section \<open>Bounded waiting for the processor\<close>

definition pos :: "u64 \<Rightarrow> sched_state \<Rightarrow> nat" where
  "pos t s = length (takeWhile (\<lambda>x. x \<noteq> t) (g_ready_queue s))"

text \<open>The number of clock ticks a queued thread may still have to wait.\<close>

definition potential :: "u64 \<Rightarrow> sched_state \<Rightarrow> nat" where
  "potential t s = 2 * pos t s + max 1 (unat (Quantum (threads s (g_current_thread s))))"

lemma pos_append: "t \<in> set (g_ready_queue s) \<Longrightarrow> g_ready_queue s' = g_ready_queue s @ us \<Longrightarrow> pos t s' = pos t s"
  by (simp add: pos_def takeWhile_append1)

lemma schedule_pos:
  assumes "queue_ok s" "State (threads s (g_current_thread s)) \<noteq> ThreadStateReady" "t \<in> set (g_ready_queue s)"
    "g_current_thread (KiSchedule s) \<noteq> t"
  shows "t \<in> set (g_ready_queue (KiSchedule s)) \<and> Suc (pos t (KiSchedule s)) = pos t s \<and>
    Quantum (threads (KiSchedule s) (g_current_thread (KiSchedule s))) = DEFAULT_QUANTUM"
proof -
  obtain e es where rq: "g_ready_queue s = e # es" using assms(3) by (cases "g_ready_queue s") auto
  have ne: "next_thread s \<noteq> g_current_thread s"
    using KiSchedule_idle(2) [OF assms(1,2)] next_thread_ready(3) [OF assms(1)] rq by auto
  note sw = KiSchedule_switch [OF ne]
  have "e \<noteq> t" using assms(4) sw(1) rq by (simp add: next_thread_def)
  then have t: "t \<in> set es" using assms(3) rq by auto
  then have "pos t (KiSchedule s) = length (takeWhile (\<lambda>x. x \<noteq> t) es)"
    unfolding pos_def sw(2) rq by (simp add: takeWhile_append1)
  moreover have "Quantum (threads (KiSchedule s) (g_current_thread (KiSchedule s))) = DEFAULT_QUANTUM"
    using sw(3) unfolding sw(1) by auto
  ultimately show ?thesis using t \<open>e \<noteq> t\<close> sw(2) rq by (simp add: pos_def)
qed

text \<open>Every step either goes on with the running thread or reschedules; woken and new threads go to the end.\<close>

definition moves :: "sched_state \<Rightarrow> sched_state \<Rightarrow> bool" where
  "moves s s' \<longleftrightarrow> (\<exists>us. g_ready_queue s' = g_ready_queue s @ us) \<and> g_current_thread s' = g_current_thread s \<and>
     unat (Quantum (threads s' (g_current_thread s))) \<le> unat (Quantum (threads s (g_current_thread s)))"

lemma moves_potential:
  assumes "moves s s'" "t \<in> set (g_ready_queue s)"
  shows "t \<in> set (g_ready_queue s') \<and> potential t s' \<le> potential t s"
proof -
  from assms(1) obtain us where us: "g_ready_queue s' = g_ready_queue s @ us" by (auto simp: moves_def)
  then show ?thesis using assms pos_append [OF assms(2) us] by (auto simp: moves_def potential_def)
qed

lemma reschedule_potential:
  assumes "moves s s1" "queue_ok s1" "State (threads s1 (g_current_thread s1)) \<noteq> ThreadStateReady"
    "t \<in> set (g_ready_queue s)" "g_current_thread (KiSchedule s1) \<noteq> t"
  shows "t \<in> set (g_ready_queue (KiSchedule s1)) \<and> potential t (KiSchedule s1) < potential t s"
proof -
  from assms(1) obtain us where us: "g_ready_queue s1 = g_ready_queue s @ us" by (auto simp: moves_def)
  note p = schedule_pos [OF assms(2,3) _ assms(5)]
  have "t \<in> set (g_ready_queue s1)" using assms(4) us by simp
  note p = p [OF this]
  have "pos t s1 = pos t s" by (rule pos_append [OF assms(4) us])
  moreover have "1 \<le> max 1 (unat (Quantum (threads s (g_current_thread s))))" by simp
  ultimately show ?thesis using p unfolding potential_def by auto
qed

definition reschedules :: "sched_state \<Rightarrow> sched_state \<Rightarrow> bool" where
  "reschedules s s' \<longleftrightarrow> (\<exists>s1. moves s s1 \<and> queue_ok s1 \<and> State (threads s1 (g_current_thread s1)) \<noteq> ThreadStateReady \<and> s' = KiSchedule s1)"

lemma moves_refl [simp]: "moves s s"
  by (simp add: moves_def)

lemma wait_iteration_moves:
  assumes g: "ke_good s" and cur: "g_current_thread s \<noteq> g_idle_thread s" and f: "length (wf_objects f) \<le> 64"
  shows "moves s (snd (wait_iteration f s)) \<or> reschedules s (snd (wait_iteration f s))"
proof -
  note d = ke_goodD [OF g]
  let ?t = "g_current_thread s"
  show ?thesis
  proof (cases "try_acquire f s")
    case (Some x)
    obtain st s' where x: "x = (st, s')" by (cases x)
    note ta = try_acquire_inv [OF Some [unfolded x] d(1) f]
    show ?thesis using Some x ta by (simp add: wait_iteration_def Let_def moves_def)
  next
    case None
    then have un: "\<not> satisfiable s f" by (simp add: try_acquire_None)
    show ?thesis
    proof (cases "wf_timeout_ticks f = 0 \<or> wf_deadline f \<noteq> 0 \<and> wf_deadline f \<le> g_tick_count s")
      case True
      then show ?thesis using None by (simp add: wait_iteration_def Let_def moves_def)
    next
      case False
      then have dl: "wf_deadline f \<noteq> 0 \<longrightarrow> g_tick_count s < wf_deadline f" by auto
      define s1 where "s1 = upd_thread ?t (\<lambda>x. x\<lparr>WaitBlockCount := of_nat (length (wf_objects f)), WaitStatus := STATUS_PENDING,
        WaitDeadline := wf_deadline f\<rparr>) s"
      define s3 where "s3 = (upd_thread ?t (\<lambda>x. x\<lparr>State := ThreadStateWaiting\<rparr>) (fold (queue_wait_block ?t) (enumerate 0 (wf_objects f)) s1))
        \<lparr>frames := (frames s)(?t := Some f)\<rparr>"
      note b = block_inv [OF d(1,4) cur f un dl, folded s1_def, folded s3_def]
      have e: "snd (wait_iteration f s) = KiSchedule s3"
        using None False by (simp add: wait_iteration_def Let_def s3_def s1_def KiBlockCurrentThread_def) blast
      have "g_current_thread s3 = ?t" by (simp add: s3_def s1_def)
      moreover have "moves s s3" by (simp add: moves_def s3_def s1_def queue_blocks_threads)
      ultimately have "reschedules s (KiSchedule s3)" unfolding reschedules_def
        using b by (intro exI [of _ s3]) (simp add: sched_inv_def)
      then show ?thesis unfolding e by simp
    qed
  qed
qed

lemma moves_trans: "moves s s' \<Longrightarrow> moves s' s'' \<Longrightarrow> moves s s''"
  by (auto simp: moves_def)

lemma reschedules_trans: "moves s s' \<Longrightarrow> reschedules s' s'' \<Longrightarrow> reschedules s s''"
  unfolding reschedules_def using moves_trans by blast

lemma signal_moves:
  assumes g: "ke_good s" and eq: "\<And>d. WaitListHead (f d) = WaitListHead d"
  shows "moves s (KiSignalObject h (upd_disp h f s))"
proof -
  note d = ke_goodD [OF g]
  note so = signal_op [OF d(1) eq, where h = h]
  show ?thesis using so(2,4) so(3) [OF d(6)] by (simp add: moves_def same_but_waits_def)
qed

lemma end_thread_reschedules:
  assumes "ke_good s" "g_current_thread s \<noteq> g_idle_thread s"
  shows "reschedules s (end_thread s)"
  unfolding reschedules_def end_thread_def
  by (intro exI [of _ "ended s"]) (use ended_spec [OF assms] in \<open>auto simp: sched_inv_def moves_def\<close>)

lemma ke_step_moves:
  assumes "ke_step s s'" and "ke_good s"
  shows "moves s s' \<or> reschedules s s'"
  using assms
proof (induction rule: ke_step.induct)
  case (resume s f)
  note d = ke_goodD [OF resume(2)]
  let ?t = "g_current_thread s"
  have u: "KiUnlinkThreadWait ?t s = s" using KiUnlinkThreadWait_eq [OF d(3)] unwait_id [OF d(3,6)] by simp
  define s2 where "s2 = upd_thread ?t (\<lambda>x. x\<lparr>WaitBlockCount := 0\<rparr>) s"
  have m: "moves s s2" by (simp add: moves_def s2_def)
  have cur: "?t \<noteq> g_idle_thread s" using resume(1) queue_okD(7) [OF d(2)] by auto
  have g2: "ke_good s2"
  proof -
    have "same_waits s s2" using d(7) by (simp add: same_waits_def s2_def)
    moreover have "queue_ok s2" by (rule queue_ok_cong [OF _ _ _ _ _ _ _ _ d(2)]) (auto simp: s2_def)
    ultimately show ?thesis using sched_inv_frame [OF d(1)] d(4,5)
      by (simp add: ke_good_def ke_inv_def cpu_ok_def wait_frames_ok_def s2_def Let_def)
  qed
  show ?case
  proof (cases "WaitStatus (threads s ?t) = STATUS_TIMEOUT")
    case True
    then show ?thesis by (simp add: KiResumeWait_def u Let_def moves_def)
  next
    case False
    then have e: "snd (KiResumeWait f s) = snd (wait_iteration f s2)" by (simp add: KiResumeWait_def u Let_def s2_def)
    have "moves s2 (snd (wait_iteration f s2)) \<or> reschedules s2 (snd (wait_iteration f s2))"
      using wait_iteration_moves [OF g2, of f] cur wait_frames_okD [OF d(5) resume(1)] by (simp add: s2_def)
    then show ?thesis unfolding e using m moves_trans reschedules_trans by blast
  qed
next
  case (yield s)
  note d = ke_goodD [OF yield(2)]
  show ?case unfolding KeYield_def reschedules_def using d(2,7) moves_refl by fastforce
next
  case (tick s)
  let ?s4 = "tick_quantum (tick_wakes s)"
  note w = tick_wakes_spec [OF tick(2)]
  have g4: "ke_good ?s4" by (rule tick_quantum_good [OF w(1)])
  note d4 = ke_goodD [OF g4]
  have "moves s ?s4" using w(2,4) w(5) [OF ke_goodD(6) [OF tick(2)]]
    by (auto simp: moves_def tick_quantum_def Let_def unat_pred_u32)
  then show ?case unfolding KeClockTick_split Let_def reschedules_def using d4(2,7) by auto
next
  case (wait s objects wait_all timeout_ticks)
  then show ?case
    using wait_iteration_moves [of s] by (simp add: KeWaitForMultipleObjects_def Let_def)
next
  case (set_event s h)
  then show ?case by (simp add: KeSetEvent_def Let_def signal_moves)
next
  case (release_semaphore s h n)
  let ?lim = "\<lambda>d. let v = SignalState d + n in if Limit d \<noteq> 0 \<and> sint (Limit d) < sint v then Limit d else v"
  have "snd (KeReleaseSemaphore h n s) = KiSignalObject h (upd_disp h (\<lambda>d. d\<lparr>SignalState := ?lim d\<rparr>) s)"
    by (simp add: KeReleaseSemaphore_def Let_def upd_disp_def)
  then show ?case using release_semaphore by (simp add: signal_moves)
next
  case (release_mutant s h)
  then show ?case by (simp add: KeReleaseMutant_def Let_def signal_moves)
next
  case (create s t x)
  have "t \<noteq> g_current_thread s" using create(2) queue_okD(4) [OF ke_goodD(2) [OF create(6)]] by auto
  then show ?case by (simp add: moves_def KepEnqueueThread_def)
next
  case (terminate s)
  note d = ke_goodD [OF terminate(3)]
  have "reschedules s (end_thread s)" by (rule end_thread_reschedules [OF terminate(3,2)])
  then show ?case by simp
qed (simp_all add: moves_def KeResetEvent_def KeInitializeEvent_def KeInitializeSemaphore_def KeInitializeMutant_def)

lemma ke_step_potential:
  assumes "ke_step s s'" "ke_good s" "t \<in> set (g_ready_queue s)" "g_current_thread s' \<noteq> t"
  shows "t \<in> set (g_ready_queue s') \<and> potential t s' \<le> potential t s"
  using ke_step_moves [OF assms(1,2)]
proof
  assume "moves s s'"
  then show ?thesis using moves_potential assms(3) by blast
next
  assume "reschedules s s'"
  then obtain s1 where s1: "moves s s1" "queue_ok s1" "State (threads s1 (g_current_thread s1)) \<noteq> ThreadStateReady" "s' = KiSchedule s1"
    by (auto simp: reschedules_def)
  show ?thesis using reschedule_potential [OF s1(1-3) assms(3)] assms(4) s1(4) by simp
qed

lemma tick_potential:
  assumes g: "ke_good s" and t: "t \<in> set (g_ready_queue s)" and c: "g_current_thread (KeClockTick s) \<noteq> t"
  shows "t \<in> set (g_ready_queue (KeClockTick s)) \<and> potential t (KeClockTick s) < potential t s"
proof -
  let ?s3 = "tick_wakes s" let ?s4 = "tick_quantum ?s3" let ?c = "g_current_thread s"
  note w = tick_wakes_spec [OF g]
  have g4: "ke_good ?s4" by (rule tick_quantum_good [OF w(1)])
  note d4 = ke_goodD [OF g4]
  have th: "threads ?s3 ?c = threads s ?c" by (rule w(5) [OF ke_goodD(6) [OF g]])
  have q: "Quantum (threads ?s4 ?c) = (if 0 < sint (Quantum (threads s ?c)) then Quantum (threads s ?c) - 1 else Quantum (threads s ?c))"
    by (simp add: tick_quantum_def Let_def w(2) th)
  have c4: "g_current_thread ?s4 = ?c" "g_ready_queue ?s4 = g_ready_queue ?s3" by (simp_all add: tick_quantum_def Let_def w(2))
  have m: "moves s ?s4" using w(4) by (auto simp: moves_def c4 q unat_pred_u32)
  have le: "unat (Quantum (threads s ?c)) \<le> 2"
    using queue_okD(9) [OF ke_goodD(2) [OF g] queue_okD(4) [OF ke_goodD(2) [OF g]]] .
  show ?thesis
  proof (cases "sint (Quantum (threads ?s4 ?c)) \<le> 0")
    case True
    then have e: "KeClockTick s = KiSchedule ?s4" by (simp add: KeClockTick_split Let_def c4)
    show ?thesis using reschedule_potential [OF m d4(2) _ t] d4(7) c unfolding e by simp
  next
    case False
    then have e: "KeClockTick s = ?s4" by (simp add: KeClockTick_split Let_def c4)
    have "0 < sint (Quantum (threads s ?c))" using False q by (auto split: if_splits)
    with False have "0 < sint (Quantum (threads s ?c) - 1)" using q by simp
    then have "Quantum (threads s ?c) - 1 \<noteq> 0" by auto
    then have nz: "0 < unat (Quantum (threads s ?c) - 1)" by (simp add: unat_gt_0)
    have dec: "unat (Quantum (threads s ?c) - 1) = unat (Quantum (threads s ?c)) - 1"
      by (rule unat_pred_u32 [OF \<open>0 < sint (Quantum (threads s ?c))\<close>])
    obtain us where us: "g_ready_queue ?s4 = g_ready_queue s @ us" using m by (auto simp: moves_def)
    have "pos t ?s4 = pos t s" by (rule pos_append [OF t us])
    then show ?thesis unfolding e using t us nz dec \<open>0 < sint (Quantum (threads s ?c))\<close> by (simp add: potential_def c4 q)
  qed
qed

text \<open>A run in which the thread \<open>t\<close> is never the running one, with its number of clock ticks.\<close>

inductive delayed :: "u64 \<Rightarrow> nat \<Rightarrow> sched_state \<Rightarrow> sched_state \<Rightarrow> bool" for t where
  start: "delayed t 0 s s"
| tick: "delayed t n s s' \<Longrightarrow> frames s' (g_current_thread s') = None \<Longrightarrow> g_current_thread (KeClockTick s') \<noteq> t \<Longrightarrow>
    delayed t (Suc n) s (KeClockTick s')"
| other: "delayed t n s s' \<Longrightarrow> ke_step s' s'' \<Longrightarrow> g_current_thread s'' \<noteq> t \<Longrightarrow> delayed t n s s''"

lemma delayed_bound:
  assumes "delayed t n s s'" "ke_good s" "t \<in> set (g_ready_queue s)"
  shows "ke_good s' \<and> t \<in> set (g_ready_queue s') \<and> n + potential t s' \<le> potential t s"
  using assms
proof (induction rule: delayed.induct)
  case (tick n s s')
  then show ?case using tick_potential [of s' t] tick_good [of s'] by force
next
  case (other n s s' s'')
  then show ?case using ke_step_potential [of s' s'' t] ke_step_good [of s' s''] by force
qed simp

definition boot_sched :: "sched_state \<Rightarrow> bool" where
  "boot_sched s \<longleftrightarrow> (\<forall>t. frames s t = None) \<and> (\<forall>h. WaitListHead (disp s h) = [])"

lemma initialize_scheduler_good:
  assumes "boot_sched s"
  shows "ke_good (KeInitializeScheduler s)"
proof -
  let ?s = "KeInitializeScheduler s"
  have f: "ThreadListHead ?s = [g_idle_thread s]" "g_ready_queue ?s = []" "g_idle_thread ?s = g_idle_thread s"
    "g_current_thread ?s = g_idle_thread s" "frames ?s = frames s" "disp ?s = disp s" "kpcr_CurrentThread (kpcr ?s) = g_idle_thread s"
    "threads ?s = (threads s)(g_idle_thread s := zero_thread\<lparr>State := ThreadStateRunning, kt_Name := cstr ''Idle''\<rparr>)"
    by (simp_all add: KeInitializeScheduler_def Let_def KeSetCurrentThread_def)
  have w: "\<not> waiting ?s t" for t by (simp add: waiting_def f zero_thread_def)
  have "queue_ok ?s" using assms by (simp add: queue_ok_def f zero_thread_def boot_sched_def)
  moreover have "lists_ok ?s" using assms by (simp add: lists_ok_def w f boot_sched_def)
  ultimately show ?thesis
    using assms w by (simp add: ke_good_def ke_inv_def sched_inv_def cpu_ok_def wait_frames_ok_def f boot_sched_def zero_thread_def Let_def)
qed

lemma pos_le: "g_ready_queue s ! k = t \<Longrightarrow> pos t s \<le> k"
proof (rule ccontr)
  assume t: "g_ready_queue s ! k = t" and "\<not> pos t s \<le> k"
  then have k: "k < length (takeWhile (\<lambda>x. x \<noteq> t) (g_ready_queue s))" by (simp add: pos_def)
  then have "takeWhile (\<lambda>x. x \<noteq> t) (g_ready_queue s) ! k = t" using t by (simp add: takeWhile_nth)
  with k have "t \<in> set (takeWhile (\<lambda>x. x \<noteq> t) (g_ready_queue s))" by (metis nth_mem)
  then show False by (auto dest: set_takeWhileD)
qed

section \<open>Thread creation and termination\<close>

lemma pool_live_ge: "pool_rel p L \<Longrightarrow> L a = Some r \<Longrightarrow> 0xFFFFFFFFC0000000 \<le> unat a"
proof -
  assume "pool_rel p L" "L a = Some r"
  then obtain bs where "pool_inv p bs" "live_from 0 bs a = Some r" by (auto simp: pool_rel_def)
  from live_block [OF this] show ?thesis by (metis le_add1)
qed

text \<open>The threads other than the idle thread, which is in the kernel image, are live blocks of the pool.\<close>

definition threads_live :: "sched_state \<Rightarrow> (u64 \<rightharpoonup> nat) \<Rightarrow> bool" where
  "threads_live k L \<longleftrightarrow> set (ThreadListHead k) - {g_idle_thread k} \<subseteq> dom L \<and> unat (g_idle_thread k) < 0xFFFFFFFFC0000000"

lemma fresh_thread:
  assumes "pool_rel p L" "threads_live k L" "L t = None" "0xFFFFFFFFC0000000 \<le> unat t"
  shows "t \<notin> set (ThreadListHead k)"
  using assms by (auto simp: threads_live_def)

lemma alloc_thread:
  assumes rel: "pool_rel (pool s) L" and c: "KepAllocThread name prio s = Some (t, s')"
  obtains (none) "t = 0" "pool_rel (pool s') L" "ke s' = ke s \<or> (\<exists>a. L a = None \<and> 0xFFFFFFFFC0000000 \<le> unat a \<and> ke s' = upd_thread a (\<lambda>_. zero_thread) (ke s))"
  | (some) stack where "t \<noteq> 0" "L t = None" "0xFFFFFFFFC0000000 \<le> unat t" "stack \<noteq> 0" "L stack = None" "stack \<noteq> t"
      "pool_rel (pool s') (L(t \<mapsto> 0xB40, stack \<mapsto> 0x4000))"
      "threads (ke s') = (threads (ke s))(t := zero_thread\<lparr>KernelStackBase := stack, KernelStackSize := THREAD_STACK_SIZE,
         KernelStackPointer := stack + THREAD_STACK_SIZE - 56, State := ThreadStateReady, Priority := prio,
         Quantum := DEFAULT_QUANTUM, ThreadId := g_next_thread_id (ke s), kt_Name := name\<rparr>)"
      "ke s' = (ke s)\<lparr>threads := threads (ke s'), kstack := kstack (ke s'), g_next_thread_id := g_next_thread_id (ke s) + 1\<rparr>"
      "kstack (ke s') (stack + THREAD_STACK_SIZE - 8) = KiThreadStartup (ke s)" "ob_state.truncate s' = (ob_state.truncate s)\<lparr>pool := pool s'\<rparr>"
proof -
  from c obtain p where a1: "ExAllocatePoolWithTag NonPagedPool SIZEOF_KTHREAD 0x7268744B (pool s) = Some (t, p) \<or> t = 0 \<and> (\<exists>a. ExAllocatePoolWithTag NonPagedPool SIZEOF_KTHREAD 0x7268744B (pool s) = Some (a, p))"
    by (auto simp: KepAllocThread_def Let_def split: bind_splits if_splits)
  from a1 obtain a where a: "ExAllocatePoolWithTag NonPagedPool SIZEOF_KTHREAD 0x7268744B (pool s) = Some (a, p)" by blast
  show ?thesis
  proof (cases "a = 0")
    case True
    then have e: "t = 0" "s' = s\<lparr>pool := p\<rparr>" using c a by (simp_all add: KepAllocThread_def)
    have "pool_rel p L" using pool.alloc_null [OF rel _ a [unfolded True]] by simp
    then show ?thesis by (intro none) (simp_all add: e)
  next
    case False
    have l1: "L a = None" "pool_rel p (L(a \<mapsto> 0xB40))" using pool.alloc_some [OF rel _ a False] by simp_all
    have ge: "0xFFFFFFFFC0000000 \<le> unat a" by (rule pool_live_ge [OF l1(2)]) simp
    from c a False obtain stack p2 where b: "ExAllocatePoolWithTag NonPagedPool THREAD_STACK_SIZE 0x6B74734B p = Some (stack, p2)"
      by (auto simp: KepAllocThread_def Let_def split: bind_splits)
    show ?thesis
    proof (cases "stack = 0")
      case True
      have "pool_rel p2 (L(a \<mapsto> 0xB40))" using pool.alloc_null [OF l1(2) _ b [unfolded True]] by simp
      from pool.release_live [OF this, of a "0xB40"] obtain p3 where p3: "ExFreePool a p2 = Some p3" "pool_rel p3 (L(a := None))" by auto
      have "L(a := None) = L" using l1(1) by auto
      then show ?thesis using c a b False True p3 l1(1) ge by (intro none) (auto simp: KepAllocThread_def)
    next
      case st: False
      have l2: "(L(a \<mapsto> 0xB40)) stack = None" "pool_rel p2 (L(a \<mapsto> 0xB40, stack \<mapsto> 0x4000))"
        using pool.alloc_some [OF l1(2) _ b st] by simp_all
      then have "stack \<noteq> a" "L stack = None" by (auto split: if_splits)
      have t: "t = a" using c a b False st by (simp add: KepAllocThread_def Let_def)
      show ?thesis
        using c a b False st l1 l2 ge \<open>stack \<noteq> a\<close> \<open>L stack = None\<close> t
        by (intro some [of stack]) (auto simp: KepAllocThread_def Let_def upd_thread_def ob_state.defs)
    qed
  qed
qed

lemma ke_good_cong:
  assumes g: "ke_good k" and f: "ThreadListHead k' = ThreadListHead k" "g_ready_queue k' = g_ready_queue k"
    "g_idle_thread k' = g_idle_thread k" "g_current_thread k' = g_current_thread k" "frames k' = frames k" "disp k' = disp k"
    "g_tick_count k' = g_tick_count k" "kpcr k' = kpcr k" "g_kpcr k' = g_kpcr k"
    and th: "\<And>u. u \<in> set (ThreadListHead k) \<Longrightarrow> threads k' u = threads k u"
  shows "ke_good k'"
proof -
  note d = ke_goodD [OF g]
  have w: "waiting k' u \<longleftrightarrow> waiting k u" for u using th [of u] by (auto simp: waiting_def f)
  have tl: "u \<in> set (ThreadListHead k)" if "waiting k u" for u using that by (simp add: waiting_def)
  note qd = queue_okD [OF d(2)]
  have "queue_ok k'"
  proof (rule queue_okI)
    fix u
    show "u \<in> set (g_ready_queue k') \<longleftrightarrow> u \<in> set (ThreadListHead k') \<and> State (threads k' u) = ThreadStateReady"
      using qd(5) [of u] th [of u] by (auto simp: f)
  qed (use qd th in \<open>auto simp: f\<close>)
  moreover have "lists_ok k'"
    using d(3) unfolding lists_ok_def by (simp add: w f th tl cong: conj_cong imp_cong)
  moreover have "pending k' {} {} u" if "waiting k u" for u
  proof -
    have "satisfiable k' h = satisfiable k h" for h by (rule satisfiable_cong) (simp add: f)
    moreover have "pending k {} {} u" using d(1) that by (simp add: sched_inv_def)
    ultimately show ?thesis using th [OF tl [OF that]] by (simp add: pending_def f)
  qed
  moreover have "cpu_ok k'" using d(4) cpu_ok_cong [of k' k] th [OF qd(4)] f by simp
  ultimately show ?thesis using d(5) by (simp add: ke_good_def ke_inv_def sched_inv_def w wait_frames_ok_def f)
qed

lemma enqueue_new_thread:
  assumes g: "ke_good k" and t: "t \<notin> set (ThreadListHead k)"
    and k1: "k1 = k\<lparr>threads := (threads k)(t := x), kstack := ks, g_next_thread_id := n\<rparr>"
    and x: "State (h x) = ThreadStateReady" "Quantum (h x) = DEFAULT_QUANTUM" "KernelStackBase (h x) \<noteq> 0"
  shows "ke_good (KepEnqueueThread t (upd_thread t h k1))"
proof -
  have "ke_good k1" by (rule ke_good_cong [OF g]) (use t in \<open>auto simp: k1\<close>)
  moreover have "upd_thread t h k1 = upd_thread t (\<lambda>_. h x) k1" by (simp add: upd_thread_def k1)
  moreover have "t \<notin> set (ThreadListHead k1)" using t by (simp add: k1)
  ultimately show ?thesis using create_good [of k1 t "h x"] x by simp
qed

section \<open>Properties\<close>

text \<open>(C20) Scheduler and dispatcher invariant. After \<^verbatim>\<open>KeInitializeScheduler\<close> and any sequence of scheduler, clock, wait, signal,
  creation and termination steps: the ready queue holds exactly the ready threads, once each, and never the idle
  thread; the running thread is the only one in state Running besides the idle thread, and the CPU block (syscall
  stack, TSS stack, user GS base) is that thread's; a thread is on the wait list of an object exactly through
  the blocks it waits with. No wake-up is lost: the wait of a waiting thread is not satisfiable in the
  present state of its objects and its deadline has not passed.\<close>

theorem scheduler_invariant:
  assumes "boot_sched s0" and "ke_step\<^sup>*\<^sup>* (KeInitializeScheduler s0) s"
  shows "distinct (g_ready_queue s) \<and>
    set (g_ready_queue s) = {t \<in> set (ThreadListHead s). State (threads s t) = ThreadStateReady} \<and>
    g_idle_thread s \<notin> set (g_ready_queue s) \<and>
    {t \<in> set (ThreadListHead s). State (threads s t) = ThreadStateRunning} = {g_current_thread s, g_idle_thread s} \<and>
    cpu_ok s \<and>
    (\<forall>h t i. (t, i) \<in> set (WaitListHead (disp s h)) \<longleftrightarrow> waiting s t \<and>
       i < unat (WaitBlockCount (threads s t)) \<and> wb_Object (WaitBlocks (threads s t) i) = h) \<and>
    (\<forall>t. waiting s t \<longrightarrow> (\<exists>f. frames s t = Some f \<and> \<not> satisfiable s f \<and>
       (wf_deadline f \<noteq> 0 \<longrightarrow> g_tick_count s < wf_deadline f)))"
proof -
  have g: "ke_good s" using ke_machine.steps_inv [OF assms(2)] initialize_scheduler_good [OF assms(1)] by blast
  note d = ke_goodD [OF g]
  note q = queue_okD [OF d(2)]
  have "{t \<in> set (ThreadListHead s). State (threads s t) = ThreadStateRunning} = {g_current_thread s, g_idle_thread s}"
    using q(3,4,6,8) d(7) by auto
  moreover have "\<exists>f. frames s t = Some f \<and> \<not> satisfiable s f \<and> (wf_deadline f \<noteq> 0 \<longrightarrow> g_tick_count s < wf_deadline f)"
    if "waiting s t" for t
  proof -
    have "pending s {} {} t" using d(1) that by (simp add: sched_inv_def)
    from pendingE [OF this] show ?thesis by (metis empty_iff inf_bot_right)
  qed
  ultimately show ?thesis using q(2,6) q(5) d(4) lists_okD(1) [OF d(3)] by auto
qed

text \<open>(C21) Bounded waiting. A thread at position \<open>k\<close> of the ready queue runs before \<open>2 (k + 1)\<close> clock ticks have
  passed, whatever the other threads do in between: as long as it has not run it stays queued, and a run that
  delays it has fewer ticks than that.\<close>

theorem ready_thread_runs:
  assumes "boot_sched s0" and "ke_step\<^sup>*\<^sup>* (KeInitializeScheduler s0) s"
    and "k < length (g_ready_queue s)" and "g_ready_queue s ! k = t" and "delayed t n s s'"
  shows "n < 2 * (k + 1) \<and> t \<in> set (g_ready_queue s')"
proof -
  have g: "ke_good s" using ke_machine.steps_inv [OF assms(2)] initialize_scheduler_good [OF assms(1)] by blast
  have t: "t \<in> set (g_ready_queue s)" using assms(3,4) by (metis nth_mem)
  note b = delayed_bound [OF assms(5) g t]
  have "unat (Quantum (threads s (g_current_thread s))) \<le> 2"
    using queue_okD(9) [OF ke_goodD(2) [OF g] queue_okD(4) [OF ke_goodD(2) [OF g]]] .
  then have "potential t s \<le> 2 * k + 2" using pos_le [OF assms(4)] by (simp add: potential_def)
  moreover have "1 \<le> potential t s'" by (simp add: potential_def)
  ultimately have "n < 2 * (k + 1)" using conjunct2 [OF conjunct2 [OF b]] by simp
  then show ?thesis using b by blast
qed

text \<open>(C22) Waits and semaphores. A wait for any of up to 64 objects that finds one signalled returns the index of the first
  such object and consumes that object only: an auto-reset event is reset, a semaphore or mutant loses one count,
  notification events and threads keep their state. It blocks or times out only when none is signalled. A release adds
  to the count of a semaphore, up to its limit, returns the old count, and empties the wait list, every
  waiter becoming ready with \<^verbatim>\<open>STATUS_SUCCESS\<close> to test the object again.\<close>

theorem wait_release_correct:
  assumes "ke_good s" and "objects \<noteq> []" and "length objects \<le> KE_MAXIMUM_WAIT_OBJECTS"
    and "KeWaitForMultipleObjects objects False timeout s = (r, s')"
    and "KeReleaseSemaphore sem n s = (old, s'')"
    and "0 \<le> sint (SignalState (disp s sem))" and "0 \<le> sint n" and "sint (SignalState (disp s sem)) + sint n < 2 ^ 31"
    and "0 < sint (Limit (disp s sem))"
  shows "((\<exists>h \<in> set objects. 0 < sint (SignalState (disp s h))) \<longrightarrow> (\<exists>i < length objects. r = Returned (of_nat i) \<and>
      (\<forall>j < i. \<not> 0 < sint (SignalState (disp s (objects ! j)))) \<and>
      (\<forall>h. SignalState (disp s' h) = (if h \<noteq> objects ! i then SignalState (disp s h)
         else case d_Type (disp s h) of EventSynchronizationObject \<Rightarrow> 0 | SemaphoreObject \<Rightarrow> SignalState (disp s h) - 1
           | MutantObject \<Rightarrow> SignalState (disp s h) - 1 | _ \<Rightarrow> SignalState (disp s h))))) \<and>
    ((\<forall>h \<in> set objects. \<not> 0 < sint (SignalState (disp s h))) \<longrightarrow> r \<in> {Blocked, Returned STATUS_TIMEOUT} \<and>
      (\<forall>h. SignalState (disp s' h) = SignalState (disp s h))) \<and>
    old = SignalState (disp s sem) \<and>
    sint (SignalState (disp s'' sem)) = min (sint (SignalState (disp s sem)) + sint n) (sint (Limit (disp s sem))) \<and>
    WaitListHead (disp s'' sem) = [] \<and>
    (\<forall>t. waits_on s sem t \<longrightarrow> t \<in> set (g_ready_queue s'') \<and> WaitStatus (threads s'' t) = STATUS_SUCCESS)"
proof -
  define f where "f = \<lparr>wf_objects = objects, wf_wait_all = False, wf_timeout_ticks = timeout,
     wf_deadline = (if timeout = INFINITE_TICKS then 0 else g_tick_count s + timeout)\<rparr>"
  have fo [simp]: "wf_objects f = objects" "wf_wait_all f = False" by (simp_all add: f_def)
  have w: "wait_iteration f s = (r, s')" using assms(2-4) by (simp add: KeWaitForMultipleObjects_def f_def Let_def)
  have hit: "\<exists>i < length objects. r = Returned (of_nat i) \<and>
      (\<forall>j < i. \<not> 0 < sint (SignalState (disp s (objects ! j)))) \<and>
      (\<forall>h. SignalState (disp s' h) = (if h \<noteq> objects ! i then SignalState (disp s h)
         else case d_Type (disp s h) of EventSynchronizationObject \<Rightarrow> 0 | SemaphoreObject \<Rightarrow> SignalState (disp s h) - 1
           | MutantObject \<Rightarrow> SignalState (disp s h) - 1 | _ \<Rightarrow> SignalState (disp s h)))"
    if "\<exists>h \<in> set objects. 0 < sint (SignalState (disp s h))"
  proof -
    have "first_acquirable s 0 objects \<noteq> None" using that by (simp add: first_acquirable_spec(2) KiCanAcquire_iff)
    then obtain i where i: "first_acquirable s 0 objects = Some i" by blast
    from first_acquirable_spec(1) [OF i] have k: "i < length objects" "\<forall>j < i. \<not> 0 < sint (SignalState (disp s (objects ! j)))"
      by (auto simp: KiCanAcquire_iff)
    have r: "r = Returned (of_nat i)" "disp s' = disp (KiConsumeSignal (objects ! i) s)"
      using i w by (auto simp: wait_iteration_def try_acquire_def Let_def)
    show ?thesis by (rule exI [of _ i]) (simp add: k r consume_signal)
  qed
  have miss: "r \<in> {Blocked, Returned STATUS_TIMEOUT} \<and> (\<forall>h. SignalState (disp s' h) = SignalState (disp s h))"
    if "\<forall>h \<in> set objects. \<not> 0 < sint (SignalState (disp s h))"
  proof -
    have "try_acquire f s = None" using that by (simp add: try_acquire_None satisfiable_def KiCanAcquire_iff)
    with w show ?thesis by (auto simp: wait_iteration_def Let_def KiBlockCurrentThread_def split: if_splits)
  qed
  let ?lim = "\<lambda>d. let v = SignalState d + n in if Limit d \<noteq> 0 \<and> sint (Limit d) < sint v then Limit d else v"
  let ?s = "upd_disp sem (\<lambda>d. d\<lparr>SignalState := ?lim d\<rparr>) s"
  have rel: "old = SignalState (disp s sem)" "s'' = KiSignalObject sem ?s"
    using assms(5) by (auto simp: KeReleaseSemaphore_def Let_def upd_disp_def)
  have "sched_inv ?s {sem} {}" by (rule signal_change [OF ke_goodD(1) [OF assms(1)]]) auto
  note k = KiSignalObject_spec [OF this, of sem, folded rel(2)]
  have on: "waits_on ?s sem t = waits_on s sem t" for t by (simp add: waits_on_def)
  have sum: "sint (SignalState (disp s sem) + n) = sint (SignalState (disp s sem)) + sint n"
    using assms(6-8) by (subst sint_word_ariths(1)) (simp add: signed_take_bit_int_eq_self)
  have "SignalState (disp s'' sem) = ?lim (disp s sem)" using k by (simp add: same_but_waits_def)
  then have "sint (SignalState (disp s'' sem)) = min (sint (SignalState (disp s sem)) + sint n) (sint (Limit (disp s sem)))"
    using assms(9) by (auto simp: Let_def sum)
  moreover have "t \<in> set (g_ready_queue s'') \<and> WaitStatus (threads s'' t) = STATUS_SUCCESS" if "waits_on s sem t" for t
    using k that by (auto simp: on)
  ultimately show ?thesis using hit miss rel(1) k by blast
qed

text \<open>Reading the page: a 64-bit counter as the pair of its halves.\<close>

definition kusd_time :: "sched_state \<Rightarrow> u32 \<Rightarrow> u32 \<times> u32 \<times> u32" where
  "kusd_time s off = (ld32 (kusd_mem s) (g_kusd s + ucast off + 4), ld32 (kusd_mem s) (g_kusd s + ucast off),
     ld32 (kusd_mem s) (g_kusd s + ucast off + 8))"

lemma wr32_read:
  "ld32 (kusd_mem (wr32 a v s)) (g_kusd s + ucast a) = v"
  "4 \<le> unat (ucast a - ucast b :: u64) \<Longrightarrow> 4 \<le> unat (ucast b - ucast a :: u64) \<Longrightarrow>
     ld32 (kusd_mem (wr32 a v s)) (g_kusd s + ucast b) = ld32 (kusd_mem s) (g_kusd s + ucast b)"
  by (simp_all add: wr32_def ld32_st32_other)

lemma shared_data_update:
  assumes "g_kusd s \<noteq> 0"
  shows "kusd_time (KeUpdateSharedData n s) KUSD_TickCount = (ucast (drop_bit 32 n), ucast n, ucast (drop_bit 32 n))"
    and "kusd_time (KeUpdateSharedData n s) KUSD_SystemTime =
      (ucast (drop_bit 32 (n * HUNDRED_NS_PER_TICK)), ucast (n * HUNDRED_NS_PER_TICK), ucast (drop_bit 32 (n * HUNDRED_NS_PER_TICK)))"
  using assms by (simp_all add: kusd_time_def KeUpdateSharedData_def Let_def wr32_def ld32_st32_other add.assoc)

lemma kusd_frame [simp]:
  "kusd_mem (KiSchedule s) = kusd_mem s" "g_kusd (KiSchedule s) = g_kusd s"
  "kusd_mem (expire_wait t s) = kusd_mem s" "g_kusd (expire_wait t s) = g_kusd s"
  "kusd_mem (upd_thread t f s) = kusd_mem s" "g_kusd (upd_thread t f s) = g_kusd s"
proof -
  show u: "kusd_mem (upd_thread t f s) = kusd_mem s" "g_kusd (upd_thread t f s) = g_kusd s" for t f s by (simp_all add: upd_thread_def)
  show "kusd_mem (KiSchedule s) = kusd_mem s" "g_kusd (KiSchedule s) = g_kusd s"
    by (cases "g_ready_queue s"; simp add: KiSchedule_def Let_def KiSwitchContext_def KeSetCurrentThread_def KeSetKernelStack_def
      KeSetUserGsBase_def u)+
  show "kusd_mem (expire_wait t s) = kusd_mem s" "g_kusd (expire_wait t s) = g_kusd s"
    by (simp_all add: expire_wait_def KiTimeoutThreadWait_def KiWakeWaitingThread_def KiUnlinkThreadWait_def fold_remove_entries
      KiReadyThread_def Let_def u)
qed

lemma tick_shared:
  assumes "g_kusd s \<noteq> 0"
  shows "kusd_time (KeClockTick s) off = kusd_time (KeUpdateSharedData (g_tick_count s + 1) s) off"
proof -
  have f: "kusd_mem (fold expire_wait ts x) = kusd_mem x" "g_kusd (fold expire_wait ts x) = g_kusd x" for ts x
    by (induction ts arbitrary: x) simp_all
  show ?thesis using assms
    by (simp add: kusd_time_def KeClockTick_def Let_def f) (simp add: KeUpdateSharedData_def wr32_def Let_def)
qed

lemma halves_join: "(push_bit 32 (ucast (ucast (drop_bit 32 n) :: u32)) OR ucast (ucast n :: u32)) = (n :: u64)"
  by (rule bit_eqI) (auto simp: bit_simps)

lemma halves_mono: "a \<le> b \<Longrightarrow> drop_bit 32 a \<le> drop_bit 32 (b :: u64)"
  by (simp add: word_le_nat_alt unat_drop_bit_eq drop_bit_nat_def div_le_mono)

lemma high_inj: "(ucast (drop_bit 32 a) :: u32) = ucast (drop_bit 32 b) \<Longrightarrow> drop_bit 32 a = drop_bit 32 (b :: u64)"
proof -
  assume "(ucast (drop_bit 32 a) :: u32) = ucast (drop_bit 32 b)"
  then have "ucast (ucast (drop_bit 32 a) :: u32) = (ucast (ucast (drop_bit 32 b) :: u32) :: u64)" by simp
  moreover have "ucast (ucast (drop_bit 32 x) :: u32) = drop_bit 32 (x :: u64)" for x
    by (rule bit_eqI) (auto simp: bit_simps dest: bit_imp_le_length)
  ultimately show ?thesis by simp
qed

text \<open>(C23) The shared user page. Each clock tick stores the tick count and the system time. A reader in user mode that takes
  the high half, the low half and the second high half at three moments between which clock interrupts may fall, and
  finds the two high halves equal, has read the tick count of the second moment.\<close>

theorem shared_page_consistent:
  assumes "g_kusd s1 \<noteq> 0" "g_kusd s2 \<noteq> 0" "g_kusd s3 \<noteq> 0"
    and "g_tick_count s1 + 1 \<le> g_tick_count s2 + 1" and "g_tick_count s2 + 1 \<le> g_tick_count s3 + 1"
    and "fst (kusd_time (KeClockTick s1) KUSD_TickCount) = high" and "fst (snd (kusd_time (KeClockTick s2) KUSD_TickCount)) = low"
    and "snd (snd (kusd_time (KeClockTick s3) KUSD_TickCount)) = high"
  shows "push_bit 32 (ucast high) OR ucast low = g_tick_count s2 + 1 \<and>
    (case kusd_time (KeClockTick s2) KUSD_SystemTime of (h, l, h2) \<Rightarrow>
       h = h2 \<and> push_bit 32 (ucast h) OR ucast l = (g_tick_count s2 + 1) * HUNDRED_NS_PER_TICK)"
proof -
  note t = tick_shared [OF assms(1)] tick_shared [OF assms(2)] tick_shared [OF assms(3)]
  note u = shared_data_update [OF assms(1)] shared_data_update [OF assms(2)] shared_data_update [OF assms(3)]
  have h: "high = ucast (drop_bit 32 (g_tick_count s1 + 1))" "low = ucast (g_tick_count s2 + 1)"
    "high = ucast (drop_bit 32 (g_tick_count s3 + 1))" using assms(6-8) by (simp_all add: t u)
  have "drop_bit 32 (g_tick_count s1 + 1) = drop_bit 32 (g_tick_count s3 + 1)" by (rule high_inj) (use h in simp)
  then have "drop_bit 32 (g_tick_count s2 + 1) = drop_bit 32 (g_tick_count s1 + 1)"
    using halves_mono [OF assms(4)] halves_mono [OF assms(5)] by simp
  then have "high = ucast (drop_bit 32 (g_tick_count s2 + 1))" using h(1) by simp
  then have "push_bit 32 (ucast high) OR ucast low = g_tick_count s2 + 1" unfolding h(2) by (simp only: halves_join)
  then show ?thesis using halves_join by (simp add: t u)
qed

text \<open>(C24) Thread creation. Either there is no memory: then the pool is as it was and nothing is queued. Or the new thread's block
  and stack are new pool blocks, the thread is the last of the ready queue and of the thread list with the next thread
  number and the given routine, its saved stack pointer is such that the first switch to it pops six zero registers
  and returns into \<^verbatim>\<open>KiThreadStartup\<close>, the other threads are as before, and the scheduler invariant holds.\<close>

theorem KeCreateThread_correct:
  assumes rel: "pool_rel (pool s) L" and g: "ke_good (ke s)" and live: "threads_live (ke s) L"
    and c: "KeCreateThread name routine start_context prio s = Some (t, s')"
  shows "(t = 0 \<and> pool_rel (pool s') L \<and> ke_good (ke s') \<and> g_ready_queue (ke s') = g_ready_queue (ke s) \<and>
      ThreadListHead (ke s') = ThreadListHead (ke s)) \<or>
    (\<exists>stack. L t = None \<and> L stack = None \<and> pool_rel (pool s') (L(t \<mapsto> 0xB40, stack \<mapsto> 0x4000)) \<and>
      ke_good (ke s') \<and> threads_live (ke s') (L(t \<mapsto> 0xB40, stack \<mapsto> 0x4000)) \<and>
      g_ready_queue (ke s') = g_ready_queue (ke s) @ [t] \<and> ThreadListHead (ke s') = ThreadListHead (ke s) @ [t] \<and>
      (let x = threads (ke s') t in ThreadId x = g_next_thread_id (ke s) \<and> StartRoutine x = routine \<and>
         StartContext x = start_context \<and> KernelStackBase x = stack \<and> KernelStackPointer x = stack + THREAD_STACK_SIZE - 56 \<and>
         kstack (ke s') (KernelStackPointer x + 48) = KiThreadStartup (ke s)) \<and>
      g_next_thread_id (ke s') = g_next_thread_id (ke s) + 1 \<and>
      (\<forall>u. u \<noteq> t \<longrightarrow> threads (ke s') u = threads (ke s) u))"
proof -
  from c obtain s1 where a: "KepAllocThread name prio s = Some (t, s1)"
    by (auto simp: KeCreateThread_def Let_def split: bind_splits if_splits)
  from rel a show ?thesis
  proof (cases rule: alloc_thread)
    case none
    have s': "s' = s1" using c a none(1) by (simp add: KeCreateThread_def)
    have "ke_good (ke s1) \<and> g_ready_queue (ke s1) = g_ready_queue (ke s) \<and> ThreadListHead (ke s1) = ThreadListHead (ke s)"
      using none(3)
    proof
      assume "\<exists>b. L b = None \<and> 0xFFFFFFFFC0000000 \<le> unat b \<and> ke s1 = upd_thread b (\<lambda>_. zero_thread) (ke s)"
      then obtain b where b: "L b = None" "0xFFFFFFFFC0000000 \<le> unat b" "ke s1 = upd_thread b (\<lambda>_. zero_thread) (ke s)" by blast
      have "b \<notin> set (ThreadListHead (ke s))" by (rule fresh_thread [OF rel live b(1,2)])
      then have "ke_good (ke s1)" by (intro ke_good_cong [OF g]) (auto simp: b(3))
      then show ?thesis by (simp add: b(3))
    qed (use g in simp)
    then show ?thesis using none s' by simp
  next
    case (some stack)
    let ?h = "\<lambda>x. x\<lparr>StartRoutine := routine, StartContext := start_context\<rparr>"
    have s': "ke s' = KepEnqueueThread t (upd_thread t ?h (ke s1))" "pool s' = pool s1"
      using c a some(1) by (auto simp: KeCreateThread_def Let_def)
    have fr: "t \<notin> set (ThreadListHead (ke s))" by (rule fresh_thread [OF rel live some(2,3)])
    obtain x where x: "threads (ke s1) = (threads (ke s))(t := x)" and xf: "State x = ThreadStateReady" "Quantum x = DEFAULT_QUANTUM"
      "KernelStackBase x = stack" "ThreadId x = g_next_thread_id (ke s)" "KernelStackPointer x = stack + THREAD_STACK_SIZE - 56"
      using some(8) by fastforce
    have k1: "ke s1 = (ke s)\<lparr>threads := (threads (ke s))(t := x), kstack := kstack (ke s1), g_next_thread_id := g_next_thread_id (ke s) + 1\<rparr>"
      using some(9) unfolding x by simp
    have gd: "ke_good (ke s')" unfolding s' by (rule enqueue_new_thread [OF g fr k1]) (use xf some(4) in simp_all)
    have f: "g_ready_queue (ke s1) = g_ready_queue (ke s)" "ThreadListHead (ke s1) = ThreadListHead (ke s)"
      "g_next_thread_id (ke s1) = g_next_thread_id (ke s) + 1" "g_idle_thread (ke s1) = g_idle_thread (ke s)"
      by (subst k1, simp)+
    have ad: "stack + THREAD_STACK_SIZE - 56 + 48 = stack + THREAD_STACK_SIZE - 8" by simp
    have "threads_live (ke s') (L(t \<mapsto> 0xB40, stack \<mapsto> 0x4000))"
      using live by (auto simp: threads_live_def s' KepEnqueueThread_def f)
    moreover have "kstack (ke s') = kstack (ke s1)" by (simp add: s' KepEnqueueThread_def upd_thread_def)
    ultimately have "L t = None \<and> L stack = None \<and> pool_rel (pool s') (L(t \<mapsto> 0xB40, stack \<mapsto> 0x4000)) \<and>
      ke_good (ke s') \<and> threads_live (ke s') (L(t \<mapsto> 0xB40, stack \<mapsto> 0x4000)) \<and>
      g_ready_queue (ke s') = g_ready_queue (ke s) @ [t] \<and> ThreadListHead (ke s') = ThreadListHead (ke s) @ [t] \<and>
      (let x = threads (ke s') t in ThreadId x = g_next_thread_id (ke s) \<and> StartRoutine x = routine \<and>
         StartContext x = start_context \<and> KernelStackBase x = stack \<and> KernelStackPointer x = stack + THREAD_STACK_SIZE - 56 \<and>
         kstack (ke s') (KernelStackPointer x + 48) = KiThreadStartup (ke s)) \<and>
      g_next_thread_id (ke s') = g_next_thread_id (ke s) + 1 \<and>
      (\<forall>u. u \<noteq> t \<longrightarrow> threads (ke s') u = threads (ke s) u)"
      using some(2,5,7,10) gd xf ad by (simp add: s' KepEnqueueThread_def f x Let_def)
    then show ?thesis by blast
  qed
qed

lemma ke_more: "ob_state.more s' = ob_state.more s \<Longrightarrow> ke s' = ke s"
  by (cases s rule: kernel.cases_scheme; cases s' rule: kernel.cases_scheme) simp

text \<open>Thread termination. A thread that ends returns control to the scheduler (the call succeeds): it is marked terminated,
  it is not queued and never again can be, its termination object is signalled and all threads waiting for
  it are ready, the reference the thread held on that object is given up, and the invariants of scheduler and object
  manager hold.\<close>

theorem KeTerminateThread_correct:
  fixes s :: "'z kernel_scheme"
  assumes inv: "ob_inv s L B held" and g: "ke_good (ke s)" and cur: "g_current_thread (ke s) \<noteq> g_idle_thread (ke s)"
    and h: "h = TerminationObject (threads (ke s) (g_current_thread (ke s)))" "h \<noteq> 0" and held: "0 < held h"
    and dir: "nrefs s held h = 1 \<Longrightarrow> directories s h = []"
  shows "\<exists>s' L' B'. KeTerminateThread s = Some s' \<and> ke_good (ke s') \<and> ob_inv s' L' B' (held(h := held h - 1)) \<and>
    State (threads (ke s') (g_current_thread (ke s))) = ThreadStateTerminated \<and>
    g_current_thread (ke s) \<notin> set (g_ready_queue (ke s')) \<and> g_current_thread (ke s') \<noteq> g_current_thread (ke s) \<and>
    (\<forall>t. waits_on (ke s) h t \<longrightarrow> t = g_current_thread (ke s') \<or> t \<in> set (g_ready_queue (ke s')))"
proof -
  define k t where "k = ke s" and "t = g_current_thread k"
  define k4 where "k4 = ended k"
  have eq: "KeTerminateThread s = (case ObDereferenceObject h (s\<lparr>ke := k4\<rparr>) of None \<Rightarrow> None | Some s2 \<Rightarrow> Some (s2\<lparr>ke := KiSchedule (ke s2)\<rparr>))"
    using h by (simp add: KeTerminateThread_def Let_def k4_def ended_def k_def split: option.split)
  have inv4: "ob_inv (s\<lparr>ke := k4\<rparr>) L B held" using inv by (subst ob_inv_cong [of _ s]) simp_all
  have dir4: "nrefs (s\<lparr>ke := k4\<rparr>) held h = 1 \<Longrightarrow> directories (s\<lparr>ke := k4\<rparr>) h = []"
    using dir by (simp add: nrefs_def handles_of_def linked_def)
  from ob_dereference [OF inv4 held dir4] obtain s2 L' B' where
    d: "ObDereferenceObject h (s\<lparr>ke := k4\<rparr>) = Some s2" "ob_inv s2 L' B' (held(h := held h - 1))"
      "ob_state.more s2 = ob_state.more (s\<lparr>ke := k4\<rparr>)" by metis
  have k2: "ke s2 = k4" using ke_more [OF d(3)] by simp
  define s' where "s' = s2\<lparr>ke := KiSchedule k4\<rparr>"
  have e: "KeTerminateThread s = Some s'" unfolding eq d(1) by (simp add: s'_def k2)
  have "ob_inv s' L' B' (held(h := held h - 1))" using d(2) unfolding s'_def by (subst ob_inv_cong [of _ s2]) simp_all
  moreover have gk: "ke_good (KiSchedule k4)" using terminate_good [OF g cur] by (simp add: end_thread_def k4_def k_def)
  note sp = ended_spec [OF g cur, folded k_def, folded k4_def t_def]
  have q4: "queue_ok k4" using sp by (simp add: sched_inv_def)
  have tq: "t \<notin> set (g_ready_queue k4)" using queue_okD(5) [OF q4, of t] sp by simp
  have nt: "next_thread k4 \<noteq> g_current_thread k4"
  proof
    assume "next_thread k4 = g_current_thread k4"
    then have "g_current_thread k4 = g_idle_thread k4" using KiSchedule_idle(2) [OF q4] sp by simp
    then show False using sp queue_okD(6) [OF q4] by simp
  qed
  note sw = KiSchedule_switch [OF nt]
  have "State (threads (KiSchedule k4) t) = ThreadStateTerminated" using sw(3) sp nt by auto
  moreover have "t \<notin> set (g_ready_queue (KiSchedule k4))"
  proof -
    have "t \<notin> set (tl (g_ready_queue k4))" using tq by (cases "g_ready_queue k4") auto
    then show ?thesis using sp unfolding sw(2) by simp
  qed
  moreover have "g_current_thread (KiSchedule k4) \<noteq> t" using sw(1) nt sp by simp
  moreover have "u = g_current_thread (KiSchedule k4) \<or> u \<in> set (g_ready_queue (KiSchedule k4))" if "waits_on k h u" for u
  proof -
    let ?k1 = "upd_thread t (\<lambda>x. x\<lparr>State := ThreadStateTerminated\<rparr>) k"
    let ?k2 = "upd_disp h (\<lambda>d. d\<lparr>SignalState := 1\<rparr>) ?k1"
    have "sched_inv ?k2 {h} {}"
    proof (rule signal_change)
      show "sched_inv ?k1 {} {}"
        using ended_inv [OF g cur] by (simp add: k_def t_def)
    qed auto
    note ks = KiSignalObject_spec [OF this, of h]
    have "waits_on ?k2 h u" using that by (simp add: waits_on_def)
    then have "u \<in> set (g_ready_queue (KiSignalObject h ?k2))" using ks by auto
    then have "u \<in> set (g_ready_queue k4)" using h by (simp add: k4_def ended_def Let_def k_def t_def)
    then show ?thesis unfolding sw(1,2) next_thread_def by (cases "g_ready_queue k4") auto
  qed
  ultimately show ?thesis using e gk by (intro exI [of _ s'] exI [of _ L'] exI [of _ B']) (simp add: s'_def k_def t_def)
qed

section \<open>Witnesses\<close>

definition demo_thread :: KTHREAD where
  "demo_thread = zero_thread\<lparr>State := ThreadStateReady, Quantum := DEFAULT_QUANTUM, KernelStackBase := 0x8000,
     KernelStackSize := THREAD_STACK_SIZE, TerminationObject := 0x5000\<rparr>"

definition demo_sched :: sched_state where
  "demo_sched = \<lparr>threads = (\<lambda>_. zero_thread),
     disp = (\<lambda>_. \<lparr>d_Type = SemaphoreObject, SignalState = 1, WaitListHead = [], Limit = 2\<rparr>), frames = (\<lambda>_. None),
     g_idle_thread = 0x1000, g_current_thread = 0, g_ready_queue = [], ThreadListHead = [], g_next_thread_id = 0, g_tick_count = 0,
     g_kusd = 0x9000, kusd_mem = (\<lambda>_. 0), g_kpcr = 0x2000,
     kpcr = \<lparr>kpcr_KernelRsp = 0, kpcr_CurrentThread = 0, tss_rsp0 = 0, msr_kernel_gs_base = 0\<rparr>, cpu_rsp = 0, kstack = (\<lambda>_. 0),
     KiThreadStartup = 0x7000\<rparr>"

definition demo_two :: sched_state where
  "demo_two = KepEnqueueThread 0x4000 (upd_thread 0x4000 (\<lambda>_. demo_thread)
     (KepEnqueueThread 0x3000 (upd_thread 0x3000 (\<lambda>_. demo_thread) (KeInitializeScheduler demo_sched))))"

lemma demo_boot: "boot_sched demo_sched"
  by (simp add: boot_sched_def demo_sched_def)

lemma init_fields [simp]:
  "frames (KeInitializeScheduler s) = frames s" "ThreadListHead (KeInitializeScheduler s) = [g_idle_thread s]"
  "g_current_thread (KeInitializeScheduler s) = g_idle_thread s" "g_idle_thread (KeInitializeScheduler s) = g_idle_thread s"
  "g_ready_queue (KeInitializeScheduler s) = []" "disp (KeInitializeScheduler s) = disp s" "g_tick_count (KeInitializeScheduler s) = g_tick_count s"
  "g_kusd (KeInitializeScheduler s) = g_kusd s"
  by (simp_all add: KeInitializeScheduler_def Let_def KeSetCurrentThread_def)

lemma enqueue_fields [simp]:
  "threads (KepEnqueueThread t s) = threads s" "g_ready_queue (KepEnqueueThread t s) = g_ready_queue s @ [t]"
  "ThreadListHead (KepEnqueueThread t s) = ThreadListHead s @ [t]" "frames (KepEnqueueThread t s) = frames s"
  "g_current_thread (KepEnqueueThread t s) = g_current_thread s" "g_idle_thread (KepEnqueueThread t s) = g_idle_thread s"
  "disp (KepEnqueueThread t s) = disp s" "g_kusd (KepEnqueueThread t s) = g_kusd s" "g_tick_count (KepEnqueueThread t s) = g_tick_count s"
  by (simp_all add: KepEnqueueThread_def)

lemma demo_steps: "ke_step\<^sup>*\<^sup>* (KeInitializeScheduler demo_sched) demo_two"
proof -
  let ?i = "KeInitializeScheduler demo_sched" and ?one = "KepEnqueueThread 0x3000 (upd_thread 0x3000 (\<lambda>_. demo_thread) (KeInitializeScheduler demo_sched))"
  have "ke_step ?i ?one" by (rule create) (simp_all add: demo_sched_def demo_thread_def)
  moreover have "ke_step ?one demo_two"
    unfolding demo_two_def by (rule create) (simp_all add: demo_sched_def demo_thread_def)
  ultimately show ?thesis by (meson converse_rtranclp_into_rtranclp rtranclp.rtrancl_refl)
qed

lemma demo_good: "ke_good demo_two"
  using ke_machine.steps_inv [OF demo_steps] initialize_scheduler_good [OF demo_boot] by blast

theorem scheduler_invariant_witness: "set (g_ready_queue demo_two) =
    {t \<in> set (ThreadListHead demo_two). State (threads demo_two t) = ThreadStateReady} \<and> 0x3000 \<in> set (g_ready_queue demo_two)"
proof -
  have "0x3000 \<in> set (g_ready_queue demo_two)" by (simp add: demo_two_def)
  with conjunct1 [OF conjunct2 [OF scheduler_invariant [OF demo_boot demo_steps]]] show ?thesis by (intro conjI)
qed

theorem ready_thread_runs_witness: "0 < 2 * (1 + 1 :: nat) \<and> 0x4000 \<in> set (g_ready_queue demo_two)"
  using ready_thread_runs [OF demo_boot demo_steps, of 1 "0x4000" 0 demo_two] delayed.start [of "0x4000" demo_two]
  by (simp add: demo_two_def demo_sched_def)

theorem wait_release_correct_witness:
  "fst (KeWaitForMultipleObjects [0x5000, 0x6000] False 0 demo_two) = Returned 0 \<and>
   sint (SignalState (disp (snd (KeReleaseSemaphore 0x5000 3 demo_two)) 0x5000)) = 2"
proof -
  have d: "disp demo_two h = \<lparr>d_Type = SemaphoreObject, SignalState = 1, WaitListHead = [], Limit = 2\<rparr>" for h
    by (simp add: demo_two_def demo_sched_def)
  obtain r s' where w: "KeWaitForMultipleObjects [0x5000, 0x6000] False 0 demo_two = (r, s')" by (metis surj_pair)
  obtain old s'' where k: "KeReleaseSemaphore 0x5000 3 demo_two = (old, s'')" by (metis surj_pair)
  have "r = Returned 0 \<and> sint (SignalState (disp s'' 0x5000)) = 2"
    using wait_release_correct [OF demo_good _ _ w k] by (auto simp: d less_Suc_eq)
  then show ?thesis using w k by simp
qed

theorem shared_page_consistent_witness:
  "push_bit 32 (ucast (fst (kusd_time (KeClockTick demo_two) KUSD_TickCount))) OR
     ucast (fst (snd (kusd_time (KeClockTick demo_two) KUSD_TickCount))) = (1 :: u64)"
proof -
  have k: "g_kusd demo_two \<noteq> 0" "g_tick_count demo_two = 0" by (simp_all add: demo_two_def demo_sched_def)
  have "snd (snd (kusd_time (KeClockTick demo_two) KUSD_TickCount)) = fst (kusd_time (KeClockTick demo_two) KUSD_TickCount)"
    by (simp add: tick_shared [OF k(1)] shared_data_update [OF k(1)])
  from shared_page_consistent [OF k(1) k(1) k(1) _ _ refl refl this] k(2) show ?thesis by simp
qed

lemma demo_init_good: "ke_good (KeInitializeScheduler demo_sched)" "threads_live (KeInitializeScheduler demo_sched) L"
  by (rule initialize_scheduler_good [OF demo_boot]) (simp add: threads_live_def demo_sched_def)

lemma ke_of_more: "ob_state.more s = kernel.fields k \<Longrightarrow> ke s = k"
  by (cases s rule: kernel.cases_scheme) (simp add: kernel.defs)

theorem KeCreateThread_correct_witness:
  "\<exists>(s :: kernel) t s'. KeCreateThread (cstr ''KWorker'') 0x1234 0 8 s = Some (t, s') \<and> g_ready_queue (ke s') = [t]"
proof -
  obtain s :: kernel and L B held ob where d: "ob_inv s L B held" "0 < held ob" "pool_room (pool s) L 65000"
    "ob_state.more s = kernel.fields (KeInitializeScheduler demo_sched)"
    by (rule demo_object [where z = "kernel.fields (KeInitializeScheduler demo_sched)"])
  have k: "ke s = KeInitializeScheduler demo_sched" by (rule ke_of_more [OF d(4)])
  from pool_room_alloc [OF d(3), of SIZEOF_KTHREAD "0x7268744B"] obtain t p where
    a: "ExAllocatePoolWithTag NonPagedPool SIZEOF_KTHREAD 0x7268744B (pool s) = Some (t, p)" "t \<noteq> 0"
      "pool_room p (L(t \<mapsto> 0xB40)) 62056" by (auto simp: need_of_def)
  from pool_room_alloc [OF a(3), of THREAD_STACK_SIZE "0x6B74734B"] obtain stack p2 where
    b: "ExAllocatePoolWithTag NonPagedPool THREAD_STACK_SIZE 0x6B74734B p = Some (stack, p2)" "stack \<noteq> 0" by (auto simp: need_of_def)
  obtain s' where c: "KeCreateThread (cstr ''KWorker'') 0x1234 0 8 s = Some (t, s')"
    using a b by (auto simp: KeCreateThread_def KepAllocThread_def Let_def)
  from KeCreateThread_correct [OF pool_room_rel [OF d(3)] _ _ c] demo_init_good a(2) have "g_ready_queue (ke s') = [t]" by (auto simp: k)
  with c show ?thesis by blast
qed

theorem KeTerminateThread_correct_witness:
  "\<exists>(s :: kernel) s'. KeTerminateThread s = Some s' \<and> g_current_thread (ke s) \<notin> set (g_ready_queue (ke s'))"
proof -
  obtain s0 :: kernel and L B held ob where d: "ob_inv s0 L B held" "0 < held ob" "directories s0 ob = []"
    by (rule demo_object [where z = "kernel.fields (KeInitializeScheduler demo_sched)"])
  let ?x = "demo_thread\<lparr>TerminationObject := ob\<rparr>"
  let ?one = "KepEnqueueThread 0x3000 (upd_thread 0x3000 (\<lambda>_. ?x) (KeInitializeScheduler demo_sched))"
  have "ke_good ?one" by (rule create_good [OF demo_init_good(1)]) (simp_all add: demo_sched_def demo_thread_def)
  then have g: "ke_good (KeYield ?one)" by (rule yield_good)
  have rq: "g_ready_queue ?one = [0x3000]" "g_current_thread ?one = 0x1000" by (simp_all add: demo_sched_def)
  then have "next_thread ?one \<noteq> g_current_thread ?one" by (simp add: next_thread_def)
  note sw = KiSchedule_switch [OF this, folded KeYield_def]
  have c: "g_current_thread (KeYield ?one) = 0x3000" "g_idle_thread (KeYield ?one) = 0x1000"
    using sw(1) rq by (simp_all add: next_thread_def KeYield_def demo_sched_def)
  have "TerminationObject (threads (KeYield ?one) 0x3000) = ob" using sw(3) rq by (auto simp: next_thread_def demo_thread_def)
  moreover have nz: "ob \<noteq> 0" using d(1,2) object_nonzero [of s0 L B "ObHeaderFromObject ob"] by (auto simp: ob_inv_def)
  moreover have "ob_inv (s0\<lparr>ke := KeYield ?one\<rparr>) L B held" using d(1) by (subst ob_inv_cong [of _ s0]) simp_all
  ultimately obtain s' where "KeTerminateThread (s0\<lparr>ke := KeYield ?one\<rparr>) = Some s'" "0x3000 \<notin> set (g_ready_queue (ke s'))"
    using KeTerminateThread_correct [of "s0\<lparr>ke := KeYield ?one\<rparr>" L B held ob] g c d(2,3) by auto
  moreover have "g_current_thread (ke (s0\<lparr>ke := KeYield ?one\<rparr>)) = 0x3000" using c by simp
  ultimately show ?thesis by metis
qed

end
