(* ===== verification/Nt_Service.thy ===== *)
theory Nt_Service
  imports Ob_Object Rtl_Bytes
begin

text \<open>
  What the system services of the files, threads and registry share: writes to user memory, the ranges of it that a probe has
  accepted, and the two outcomes of looking up a handle.
\<close>

definition put_user :: "((u64 \<Rightarrow> u8) \<Rightarrow> u64 \<Rightarrow> u8) \<Rightarrow> 'z ob_state_scheme \<Rightarrow> 'z ob_state_scheme" where
  "put_user f s = s\<lparr>pool := upd_umem f (pool s)\<rparr>"

lemma put_user_id: "put_user (\<lambda>m. m) s = s"
  by (simp add: put_user_def)

lemma put_user_comp: "put_user f (put_user g s) = put_user (f \<circ> g) s"
  by (simp add: put_user_def upd_umem_comp)

lemma put_user_simps [simp]:
  "headers (put_user f s) = headers s" "g_handles (put_user f s) = g_handles s" "directories (put_user f s) = directories s"
  "files (put_user f s) = files s" "g_type_list (put_user f s) = g_type_list s" "types (put_user f s) = types s"
  "ObRootDirectory (put_user f s) = ObRootDirectory s" "ObpDirectoryType (put_user f s) = ObpDirectoryType s"
  "ob_state.more (put_user f s) = ob_state.more s" "pool (put_user f s) = upd_umem f (pool s)"
  by (simp_all add: put_user_def)

lemma pool_rel_umem [simp]: "pool_rel (upd_umem f p) L = pool_rel p L"
proof -
  have "pool_inv (upd_umem f p) bs = pool_inv p bs" for bs
    by (simp add: pool_inv_def pool_list_def upd_umem_def arena_ok_def vmm_inv_def vmm_ok_def MmGetPhysicalAddress_translate large_mapped_def)
  then show ?thesis by (simp add: pool_rel_def)
qed

text \<open>What the probes say does not depend on the contents of user memory.\<close>

lemma MmProbeForRead_cong:
  assumes "\<And>x. MmGetPhysicalAddress v x = MmGetPhysicalAddress v' x"
  shows "MmProbeForRead v va len = MmProbeForRead v' va len"
proof (cases "len = 0 \<or> va + len < va \<or> \<not> MmIsUserAddress va \<or> \<not> MmIsUserAddress (va + len - 1)")
  case False
  then have u: "unat va < 2 ^ 47" by (simp add: MmIsUserAddress_def word_less_nat_alt)
  have "va + len - 1 < MM_USER_MAX" using False by (simp add: MmIsUserAddress_def)
  then have "va + len \<le> MM_USER_MAX" by (metis add_diff_cancel_right' diff_add_cancel word_Suc_le)
  then have l: "unat (va + len) \<le> 2 ^ 63" by (simp add: word_le_nat_alt)
  have "unat va div 4096 * 4096 \<le> 2 ^ 63"
    by (rule order_trans [OF div_times_less_eq_dividend]) (use u in simp)
  note p = probe_loop_spec [OF l this]
  have "probe_loop v (PAGE_ALIGN va) (va + len) = probe_loop v' (PAGE_ALIGN va) (va + len)"
    unfolding PAGE_ALIGN_unat p assms by (rule refl)
  then show ?thesis unfolding MmProbeForRead_def by simp
qed (auto simp: MmProbeForRead_def)

lemma MmProbeForWrite_umem [simp]: "MmProbeForWrite (mm (upd_umem f p)) va len = MmProbeForWrite (mm p) va len"
  unfolding MmProbeForWrite_def by (rule MmProbeForRead_cong) (simp add: MmGetPhysicalAddress_translate)

definition probed :: "'z ob_state_scheme \<Rightarrow> u64 \<Rightarrow> u64 \<Rightarrow> bool" where
  "probed s va n \<longleftrightarrow> MmProbeForWrite (mm (pool s)) va n = Some True"

lemma probed_upd [simp]: "probed (s\<lparr>pool := upd_umem f (pool s)\<rparr>) va n = probed s va n"
  by (simp add: probed_def)

text \<open>What a probe has accepted is mapped user memory.\<close>

lemma probed_mapped:
  assumes us: "user_small (mm (pool s))" and p: "probed s va n" and x: "x \<in> span va (unat n)"
  shows "x < MM_USER_MAX \<and> MmGetPhysicalAddress (mm (pool s)) x \<noteq> MM_INVALID_PHYS"
proof -
  obtain i where i: "i < unat n" "x = va + of_nat i" using x by (auto simp: span_def)
  then have "n \<noteq> 0" by auto
  then have ok: "unat va + unat n \<le> 2 ^ 47" "\<And>a. unat va \<le> unat a \<Longrightarrow> unat a < unat va + unat n \<Longrightarrow> MmGetPhysicalAddress (mm (pool s)) a \<noteq> MM_INVALID_PHYS"
    using p MmProbeForRead_iff [OF us, of va n] by (auto simp: probed_def MmProbeForWrite_def)
  have "unat (of_nat i :: u64) = i" using i(1) unat_less_64 [of n] by (intro unat_of_nat_id) simp
  then have u: "unat x = unat va + i" using ok(1) i by (simp add: unat_word_ariths)
  have "unat x < 2 ^ 47" using u i(1) ok(1) by linarith
  then show ?thesis using ok(2) [of x] u i(1) by (simp add: word_less_nat_alt)
qed

lemma user_page_umem [simp]: "user_page (mm (upd_umem f p)) = user_page (mm p)"
  by (simp add: user_page_def user_small_def MmGetPhysicalAddress_translate large_mapped_def)

lemma ob_inv_put_user [simp]: "ob_inv (put_user f s) L B held = ob_inv s L B held"
proof -
  have "header_ok (put_user f s) held h = header_ok s held h" for h by (rule header_ok_cong) simp_all
  then show ?thesis by (simp add: ob_inv_def blocks_ok_def file_data_def names_ok_def)
qed

text \<open>A handle of the given type is referenced, used and dereferenced: the counts are as before.\<close>

lemma by_handle_cases:
  assumes inv: "ob_inv s L B held" and b: "held (handle_object s h) < 2 ^ 30"
  obtains (bad) st where "ObReferenceObjectByHandle h 0 ty s = (st, 0, s)" "\<not> NT_SUCCESS st"
    | (good) "ObReferenceObjectByHandle h 0 ty s = (STATUS_SUCCESS, handle_object s h, ObReferenceObject (handle_object s h) s)"
        "header_ok s held (ObHeaderFromObject (handle_object s h))" "handle_object s h \<noteq> 0"
        "ty \<noteq> 0 \<longrightarrow> oh_Type (headers s (ObHeaderFromObject (handle_object s h))) = ty"
proof -
  obtain st ob s1 where c: "ObReferenceObjectByHandle h 0 ty s = (st, ob, s1)" by (cases "ObReferenceObjectByHandle h 0 ty s") auto
  show thesis
  proof (cases "st = STATUS_SUCCESS")
    case True
    with ob_reference_by_handle [OF inv b c] have o: "ob = handle_object s h" "ob \<noteq> 0" "s1 = ObReferenceObject ob s"
      "ob_inv s1 L B (held(ob := Suc (held ob)))" "ty \<noteq> 0 \<longrightarrow> oh_Type (headers s (ObHeaderFromObject ob)) = ty" by auto
    have "header_ok s held (ObHeaderFromObject ob)" using inv o(4) by (simp add: ob_inv_def)
    then show thesis using good c True o by simp
  next
    case False
    with ob_reference_by_handle [OF inv b c] have "\<not> NT_SUCCESS st" "s1 = s" "ob = 0" by (auto simp: NT_SUCCESS_def)
    then show thesis using bad [of st] c by simp
  qed
qed

end
