(* ===== verification/Cm_Registry.thy ===== *)
theory Cm_Registry
  imports Nt_Service
begin

text \<open>
  The configuration manager, \<^verbatim>\<open>kernel/cm/registry.c\<close>. Keys and values are stores keyed by the address of their block; a key's
  lists of subkeys and values are the lists of the addresses (see \<open>Rtl_List\<close>). Names are C strings without their
  terminating NUL. \<open>cm_data\<close> gives the bytes in the block a value's \<^verbatim>\<open>Data\<close> points at, and \<open>key_objects\<close> the \<^verbatim>\<open>Key\<close> field
  of the object handed to user mode. The services take the array of system call arguments; user memory is
  \<open>umem\<close> of the memory manager below the pool. A result \<^verbatim>\<open>NTSTATUS\<close> is the 32-bit value that is sign-extended into the
  returned \<^verbatim>\<open>UINT64\<close>.

  \<open>cm_inv\<close> says that the keys, values and data blocks are pool blocks of their own, disjoint from those of the
  object manager. The properties are round trips: a path that was created is found again by every spelling, and a
  value that was set is what a query copies to user memory.
\<close>

section \<open>State\<close>

record CM_VALUE =
  cv_Name :: cstring
  cv_Type :: u32
  cv_Size :: u32
  cv_Data :: u64

record CM_KEY =
  ck_Name :: cstring
  ck_Parent :: u64
  SubkeyHead :: "u64 list"
  ValueHead :: "u64 list"

record cm_state = ob_state +
  keys :: "u64 \<Rightarrow> CM_KEY"
  cvalues :: "u64 \<Rightarrow> CM_VALUE"
  cm_data :: "u64 \<Rightarrow> u8 list"
  key_objects :: "u64 \<Rightarrow> u64"
  g_key_type :: u64
  g_cm_root :: u64

abbreviation "REG_SZ \<equiv> (1 :: u32)"
abbreviation "REG_EXPAND_SZ \<equiv> (2 :: u32)"
abbreviation "REG_DWORD \<equiv> (4 :: u32)"
abbreviation "SLASH \<equiv> (0x2F :: u8)"

definition cm_umem :: "'z ob_state_scheme \<Rightarrow> u64 \<Rightarrow> u8" where
  "cm_umem s = umem (mm (pool s))"

section \<open>Tree primitives\<close>

definition ci_lower :: "u8 \<Rightarrow> u8" where
  "ci_lower c = (if 0x41 \<le> c \<and> c \<le> 0x5A then c + 32 else c)"

fun ci_eq :: "cstring \<Rightarrow> cstring \<Rightarrow> bool" where
  "ci_eq [] [] = True"
| "ci_eq [] (b # bs) = False"
| "ci_eq (a # as) [] = False"
| "ci_eq (a # as) (b # bs) = (if ci_lower a \<noteq> ci_lower b then False else ci_eq as bs)"

definition cm_alloc_key :: "cstring \<Rightarrow> u64 \<Rightarrow> 'z cm_state_scheme \<Rightarrow> (u64 \<times> 'z cm_state_scheme) option" where
  "cm_alloc_key name parent s =
     do {
       (k, p) \<leftarrow> ExAllocatePoolWithTag NonPagedPool 120 0x79654B43 (pool s);
       let s1 = s\<lparr>pool := p\<rparr>;
       if k = 0 then Some (0, s1)
       else
         (let s2 = s1\<lparr>keys := (keys s1)(k := \<lparr>ck_Name = take 63 name, ck_Parent = parent, SubkeyHead = [], ValueHead = []\<rparr>)\<rparr>
          in if parent \<noteq> 0 then
               Some (k, s2\<lparr>keys := (keys s2)(parent := (keys s2 parent)\<lparr>SubkeyHead := SubkeyHead (keys s2 parent) @ [k]\<rparr>)\<rparr>)
             else Some (k, s2))
     }"

definition cm_find_subkey :: "'z cm_state_scheme \<Rightarrow> u64 \<Rightarrow> cstring \<Rightarrow> u64 option" where
  "cm_find_subkey s parent name = find (\<lambda>k. ci_eq (ck_Name (keys s k)) name) (SubkeyHead (keys s parent))"

definition is_sep :: "u8 \<Rightarrow> bool" where
  "is_sep c \<longleftrightarrow> c = BACKSLASH \<or> c = SLASH"

function cm_walk :: "u64 \<Rightarrow> cstring \<Rightarrow> bool \<Rightarrow> 'z cm_state_scheme \<Rightarrow> (u64 \<times> 'z cm_state_scheme) option" where
  "cm_walk cur p create s =
     (let p1 = dropWhile is_sep p
      in if p1 = [] then Some (cur, s)
         else
           (let comp = take 63 (takeWhile (\<lambda>c. \<not> is_sep c) p1); p2 = dropWhile (\<lambda>c. \<not> is_sep c) p1
            in case cm_find_subkey s cur comp of
                 Some child \<Rightarrow> cm_walk child p2 create s
               | None \<Rightarrow>
                   if \<not> create then Some (0, s)
                   else do {
                     (child, s1) \<leftarrow> cm_alloc_key comp cur s;
                     if child = 0 then Some (0, s1) else cm_walk child p2 create s1
                   }))"
  by pat_completeness auto
termination
proof (relation "measure (\<lambda>(cur, p, create, s). length p)")
  fix p p1 p2 :: cstring
  assume "p1 = dropWhile is_sep p" "p1 \<noteq> []" "p2 = dropWhile (\<lambda>c. \<not> is_sep c) p1"
  then have h: "\<not> is_sep (hd p1)" "p1 \<noteq> []" "p2 = dropWhile (\<lambda>c. \<not> is_sep c) p1" by (simp_all add: hd_dropWhile)
  then have "length p2 < length p1" by (cases p1) (simp_all add: le_imp_less_Suc length_dropWhile_le)
  moreover have "length p1 \<le> length p" using \<open>p1 = dropWhile is_sep p\<close> by (simp add: length_dropWhile_le)
  ultimately have lt: "length p2 < length p" by simp
  fix cur x2 create and s :: "'z cm_state_scheme"
  show "((x2, p2, create, s), cur, p, create, s) \<in> measure (\<lambda>(cur, p, create, s). length p)" using lt by simp
  fix x y and s1 :: "'z cm_state_scheme"
  show "((x, p2, create, s1), cur, p, create, s) \<in> measure (\<lambda>(cur, p, create, s). length p)" using lt by simp
qed simp

declare cm_walk.simps [simp del]

definition cm_find_value :: "'z cm_state_scheme \<Rightarrow> u64 \<Rightarrow> cstring \<Rightarrow> u64 option" where
  "cm_find_value s k name = find (\<lambda>v. ci_eq (cv_Name (cvalues s v)) name) (ValueHead (keys s k))"

text \<open>\<^verbatim>\<open>data\<close> are the bytes at the source pointer, \<^verbatim>\<open>size\<close> their number.\<close>

definition copy_data :: "u8 list \<Rightarrow> u32 \<Rightarrow> 'z cm_state_scheme \<Rightarrow> (u64 \<times> 'z cm_state_scheme) option" where
  "copy_data data sz s =
     (if sz \<noteq> 0 then do {
        (copy, p) \<leftarrow> ExAllocatePoolWithTag NonPagedPool (ucast sz) 0x6C615643 (pool s);
        Some (copy, s\<lparr>pool := p, cm_data := (if copy \<noteq> 0 then (cm_data s)(copy := data) else cm_data s)\<rparr>)
      } else Some (0, s))"

definition cm_set_value ::
    "u64 \<Rightarrow> cstring \<Rightarrow> u32 \<Rightarrow> u8 list \<Rightarrow> u32 \<Rightarrow> 'z cm_state_scheme \<Rightarrow> (ntstatus \<times> 'z cm_state_scheme) option" where
  "cm_set_value k name type data sz s =
     do {
       (copy, s1) \<leftarrow> copy_data data sz s;
       if sz \<noteq> 0 \<and> copy = 0 then Some (STATUS_NO_MEMORY, s1)
       else do {
         (v, s2) \<leftarrow>
           (case cm_find_value s1 k name of
              Some v \<Rightarrow>
                if cv_Data (cvalues s1 v) \<noteq> 0 then do {
                  p \<leftarrow> ExFreePool (cv_Data (cvalues s1 v)) (pool s1);
                  Some (v, s1\<lparr>pool := p\<rparr>)
                } else Some (v, s1)
            | None \<Rightarrow> do {
                (v, p) \<leftarrow> ExAllocatePoolWithTag NonPagedPool 96 0x6C615643 (pool s1);
                let s2 = s1\<lparr>pool := p\<rparr>;
                if v = 0 then
                  (if copy \<noteq> 0 then do {
                     p' \<leftarrow> ExFreePool copy (pool s2);
                     Some (0, s2\<lparr>pool := p'\<rparr>)
                   } else Some (0, s2))
                else Some (v, s2\<lparr>cvalues := (cvalues s2)(v := \<lparr>cv_Name = take 63 name, cv_Type = 0, cv_Size = 0, cv_Data = 0\<rparr>),
                       keys := (keys s2)(k := (keys s2 k)\<lparr>ValueHead := ValueHead (keys s2 k) @ [v]\<rparr>)\<rparr>)
              });
         if v = 0 then Some (STATUS_NO_MEMORY, s2)
         else Some (STATUS_SUCCESS, s2\<lparr>cvalues := (cvalues s2)(v := (cvalues s2 v)\<lparr>cv_Type := type, cv_Size := sz, cv_Data := copy\<rparr>)\<rparr>)
       }
     }"

section \<open>Key objects and handles\<close>

definition cm_make_handle :: "u64 \<Rightarrow> 'z cm_state_scheme \<Rightarrow> (u64 \<times> 'z cm_state_scheme) option" where
  "cm_make_handle k s =
     do {
       (st, obj, s1) \<leftarrow> ObCreateObject (g_key_type s) 8 s;
       if \<not> NT_SUCCESS st then Some (0, s1)
       else
         (let s2 = s1\<lparr>key_objects := (key_objects s1)(obj := k)\<rparr>;
              (st, h, s3) = ObCreateHandle obj GENERIC_ALL s2
          in do {
            s4 \<leftarrow> ObDereferenceObject obj s3;
            if \<not> NT_SUCCESS st then Some (0, s4) else Some (h, s4)
          })
     }"

definition cm_key_from_handle :: "u64 \<Rightarrow> 'z cm_state_scheme \<Rightarrow> (u64 \<times> 'z cm_state_scheme) option" where
  "cm_key_from_handle handle s =
     (if handle = 0 then Some (g_cm_root s, s)
      else
        (let (st, obj, s1) = ObReferenceObjectByHandle handle 0 (g_key_type s) s
         in if \<not> NT_SUCCESS st then Some (0, s1)
            else do {
              let k = key_objects s1 obj;
              s2 \<leftarrow> ObDereferenceObject obj s1;
              Some (k, s2)
            }))"

section \<open>Services\<close>

text \<open>A captured name as a C string.\<close>

definition c_string :: "u8 list \<Rightarrow> cstring" where
  "c_string bs = takeWhile (\<lambda>c. c \<noteq> 0) bs"

definition cm_resolve_oa :: "u64 \<Rightarrow> bool \<Rightarrow> 'z cm_state_scheme \<Rightarrow> (ntstatus \<times> u64 \<times> 'z cm_state_scheme) option" where
  "cm_resolve_oa oa create s =
     do {
       ok \<leftarrow> MmProbeForRead (mm (pool s)) oa 48;
       if \<not> ok then Some (STATUS_ACCESS_VIOLATION, 0, s)
       else do {
         (parent, s1) \<leftarrow> cm_key_from_handle (read64 (mm (pool s)) (oa + 8)) s;
         if parent = 0 then Some (STATUS_INVALID_HANDLE, 0, s1)
         else do {
           (ok, name) \<leftarrow> MmCaptureUnicodeName (mm (pool s1)) (read64 (mm (pool s1)) (oa + 0x10)) 128;
           if \<not> ok then Some (STATUS_ACCESS_VIOLATION, 0, s1)
           else do {
             (k, s2) \<leftarrow> cm_walk parent (c_string name) create s1;
             if k = 0 then Some (if create then STATUS_NO_MEMORY else STATUS_OBJECT_NAME_NOT_FOUND, 0, s2)
             else Some (STATUS_SUCCESS, k, s2)
           }
         }
       }
     }"

definition NtCreateKey :: "(nat \<Rightarrow> u64) \<Rightarrow> 'z cm_state_scheme \<Rightarrow> (ntstatus \<times> 'z cm_state_scheme) option" where
  "NtCreateKey a s =
     do {
       ok \<leftarrow> MmProbeForWrite (mm (pool s)) (a 0) 8;
       if \<not> ok then Some (STATUS_ACCESS_VIOLATION, s)
       else do {
         (st, k, s1) \<leftarrow> cm_resolve_oa (a 2) True s;
         if \<not> NT_SUCCESS st then Some (st, s1)
         else do {
           (h, s2) \<leftarrow> cm_make_handle k s1;
           let s3 = s2\<lparr>pool := upd_umem (st64 (a 0) h) (pool s2)\<rparr>;
           ok2 \<leftarrow> (if a 6 \<noteq> 0 then MmProbeForWrite (mm (pool s3)) (a 6) 4 else Some False);
           if ok2 then Some (STATUS_SUCCESS, s3\<lparr>pool := upd_umem (st32 (a 6) 1) (pool s3)\<rparr>)
           else Some (STATUS_SUCCESS, s3)
         }
       }
     }"

definition NtOpenKey :: "(nat \<Rightarrow> u64) \<Rightarrow> 'z cm_state_scheme \<Rightarrow> (ntstatus \<times> 'z cm_state_scheme) option" where
  "NtOpenKey a s =
     do {
       ok \<leftarrow> MmProbeForWrite (mm (pool s)) (a 0) 8;
       if \<not> ok then Some (STATUS_ACCESS_VIOLATION, s)
       else do {
         (st, k, s1) \<leftarrow> cm_resolve_oa (a 2) False s;
         if \<not> NT_SUCCESS st then Some (st, s1)
         else do {
           (h, s2) \<leftarrow> cm_make_handle k s1;
           Some (STATUS_SUCCESS, s2\<lparr>pool := upd_umem (st64 (a 0) h) (pool s2)\<rparr>)
         }
       }
     }"

definition NtSetValueKey :: "(nat \<Rightarrow> u64) \<Rightarrow> 'z cm_state_scheme \<Rightarrow> (ntstatus \<times> 'z cm_state_scheme) option" where
  "NtSetValueKey a s =
     do {
       (k, s1) \<leftarrow> cm_key_from_handle (a 0) s;
       if k = 0 then Some (STATUS_INVALID_HANDLE, s1)
       else do {
         (ok, vname) \<leftarrow> MmCaptureUnicodeName (mm (pool s1)) (a 1) 64;
         if \<not> ok then Some (STATUS_ACCESS_VIOLATION, s1)
         else do {
           let type = ucast (a 3);
           let data = a 4;
           let sz = (ucast (a 5) :: u32);
           ok2 \<leftarrow> (if sz \<noteq> 0 then MmProbeForRead (mm (pool s1)) data (ucast sz) else Some True);
           if \<not> ok2 then Some (STATUS_ACCESS_VIOLATION, s1)
           else cm_set_value k (c_string vname) type (read_bytes (cm_umem s1) data (unat sz)) sz s1
         }
       }
     }"



section \<open>Initialization\<close>

definition reg_path :: "string list \<Rightarrow> cstring" where
  "reg_path xs = concat (map (\<lambda>x. BACKSLASH # cstr x) xs)"

text \<open>The preset strings are \<^verbatim>\<open>UINT16\<close> arrays in which each character is followed by an element 0.\<close>

definition preset_wide :: "cstring \<Rightarrow> u8 list" where
  "preset_wide xs = concat (map (\<lambda>c. [c, 0, 0, 0]) xs) @ [0, 0, 0, 0]"

definition cm_preset :: "u64 \<Rightarrow> string \<Rightarrow> u32 \<Rightarrow> u8 list \<Rightarrow> 'z cm_state_scheme \<Rightarrow> 'z cm_state_scheme option" where
  "cm_preset k name type data s = do { (_, s1) \<leftarrow> cm_set_value k (cstr name) type data (of_nat (length data)) s; Some s1 }"

definition cm_make_path :: "u64 \<Rightarrow> cstring \<Rightarrow> 'z cm_state_scheme \<Rightarrow> 'z cm_state_scheme option" where
  "cm_make_path k path s = do { (_, s1) \<leftarrow> cm_walk k path True s; Some s1 }"

fun cm_make_paths :: "u64 \<Rightarrow> cstring list \<Rightarrow> 'z cm_state_scheme \<Rightarrow> 'z cm_state_scheme option" where
  "cm_make_paths k [] s = Some s"
| "cm_make_paths k (p # ps) s = do { s1 \<leftarrow> cm_make_path k p s; cm_make_paths k ps s1 }"

text \<open>The four parts of \<^verbatim>\<open>CmInitialize\<close>: the root with the version key, the shell's keys, the user's keys, the profile list.
  Without memory for the root the walks below dereference \<^verbatim>\<open>NULL\<close>: the result is \<open>None\<close>.\<close>

definition cm_init_root :: "'z cm_state_scheme \<Rightarrow> 'z cm_state_scheme option" where
  "cm_init_root s =
     do {
       (ty, s1) \<leftarrow> ObCreateObjectType (cstr ''Key'') CmpKeyDelete s;
       let s2 = s1\<lparr>g_key_type := ty\<rparr>;
       (root, s3) \<leftarrow> cm_alloc_key [] 0 s2;
       s4 \<leftarrow> (if root = 0 then None else Some (s3\<lparr>g_cm_root := root\<rparr>));
       (ntos, s5) \<leftarrow> cm_walk (g_cm_root s4) (reg_path [''Registry'', ''Machine'', ''Software'', ''NTOS'']) True s4;
       s7 \<leftarrow> (if ntos \<noteq> 0 then do {
                s6 \<leftarrow> cm_preset ntos ''Version'' REG_SZ (cstr ''0.6.0'' @ [0]) s5;
                cm_preset ntos ''BuildNumber'' REG_DWORD (le32 600) s6
              } else Some s5);
       cm_make_path (g_cm_root s7) (reg_path [''Registry'', ''User'']) s7
     }"

definition cm_init_shell :: "'z cm_state_scheme \<Rightarrow> 'z cm_state_scheme option" where
  "cm_init_shell s =
     do {
       (shells, s1) \<leftarrow> cm_walk (g_cm_root s) (reg_path [''Registry'', ''Machine'', ''Software'', ''Microsoft'', ''Windows NT'',
          ''CurrentVersion'', ''Winlogon'', ''AlternateShells'', ''AvailableShells'']) True s;
       s2 \<leftarrow> (if shells \<noteq> 0 then cm_preset shells ''Shell'' REG_SZ (preset_wide (cstr ''explorer.exe'')) s1 else Some s1);
       (accent, s3) \<leftarrow> cm_walk (g_cm_root s2) (reg_path [''Registry'', ''Machine'', ''Software'', ''Microsoft'', ''Windows'',
          ''CurrentVersion'', ''Explorer'', ''Accent'']) True s2;
       s4 \<leftarrow> (if accent \<noteq> 0 then cm_preset accent ''OOBEColorSet'' REG_DWORD (le32 4) s3 else Some s3);
       cm_make_paths (g_cm_root s4) [
         reg_path [''Registry'', ''Machine'', ''Software'', ''Microsoft'', ''Windows NT'', ''CurrentVersion'', ''Winlogon''],
         reg_path [''Registry'', ''Machine'', ''Software'', ''Microsoft'', ''Windows'', ''Dwm''],
         reg_path [''Registry'', ''Machine'', ''Software'', ''Microsoft'', ''Direct2D''],
         reg_path [''Registry'', ''Machine'', ''Software'', ''Microsoft'', ''OLE''],
         reg_path [''Registry'', ''Machine'', ''Software'', ''Policies'', ''Microsoft'', ''Windows'', ''Personalization''],
         reg_path [''Registry'', ''Machine'', ''Software'', ''Microsoft'', ''Windows'', ''CurrentVersion'', ''Policies'', ''Explorer''],
         reg_path [''Registry'', ''Machine'', ''Software'', ''Microsoft'', ''Windows'', ''CurrentVersion'', ''Explorer'', ''FolderDescriptions''],
         reg_path [''Registry'', ''Machine'', ''Software'', ''Microsoft'', ''Windows'', ''CurrentVersion'', ''Explorer'', ''Shell Folders''],
         reg_path [''Registry'', ''Machine'', ''System'', ''Setup''],
         reg_path [''Registry'', ''Machine'', ''Software'', ''Microsoft'', ''Windows'', ''CurrentVersion'', ''Explorer'', ''WCDEn'']] s4
     }"

definition relative :: "string list \<Rightarrow> cstring" where
  "relative xs = tl (reg_path xs)"

definition cm_init_user :: "'z cm_state_scheme \<Rightarrow> 'z cm_state_scheme option" where
  "cm_init_user s =
     do {
       (user_software, s1) \<leftarrow> cm_walk (g_cm_root s) (reg_path [''Registry'', ''User'', ''Software'', ''Microsoft'', ''Windows'',
          ''CurrentVersion'']) True s;
       if user_software = 0 then Some s1
       else do {
         s2 \<leftarrow> cm_make_paths user_software [relative [''Explorer''], relative [''Search''], relative [''Policies''],
            relative [''Explorer'', ''User Shell Folders''], relative [''Explorer'', ''Shell Folders''],
            relative [''Explorer'', ''Desktop'', ''NameSpace'']] s1;
         (usf, s3) \<leftarrow> cm_walk user_software (relative [''Explorer'', ''User Shell Folders'']) True s2;
         if usf = 0 then Some s3
         else do {
           s4 \<leftarrow> cm_preset usf ''Desktop'' REG_EXPAND_SZ (preset_wide (relative [''%USERPROFILE%'', ''Desktop''])) s3;
           s5 \<leftarrow> cm_preset usf ''Personal'' REG_EXPAND_SZ (preset_wide (relative [''%USERPROFILE%'', ''Documents''])) s4;
           s6 \<leftarrow> cm_preset usf ''AppData'' REG_EXPAND_SZ (preset_wide (relative [''%USERPROFILE%'', ''AppData'', ''Roaming''])) s5;
           cm_preset usf ''Start Menu'' REG_EXPAND_SZ
             (preset_wide (relative [''%USERPROFILE%'', ''AppData'', ''Roaming'', ''Microsoft'', ''Windows'', ''Start Menu''])) s6
         }
       }
     }"

definition CmInitialize :: "'z cm_state_scheme \<Rightarrow> 'z cm_state_scheme option" where
  "CmInitialize s =
     do {
       s1 \<leftarrow> cm_init_root s;
       s2 \<leftarrow> cm_init_shell s1;
       s3 \<leftarrow> cm_init_user s2;
       (profile_list, s4) \<leftarrow> cm_walk (g_cm_root s3) (reg_path [''Registry'', ''Machine'', ''Software'', ''Microsoft'', ''Windows NT'',
          ''CurrentVersion'', ''ProfileList'']) True s3;
       if profile_list \<noteq> 0 then
         cm_preset profile_list ''ProfilesDirectory'' REG_EXPAND_SZ (preset_wide (relative [''%SystemDrive%'', ''Users''])) s4
       else Some s4
     }"

section \<open>Ownership\<close>

lemma cm_state_more [simp]: "cm_state.more (s\<lparr>pool := p\<rparr>) = cm_state.more s"
  by simp

definition cm_values :: "'z cm_state_scheme \<Rightarrow> u64 set \<Rightarrow> u64 set" where
  "cm_values s K = (\<Union>k \<in> K. set (ValueHead (keys s k)))"

definition cm_datas :: "'z cm_state_scheme \<Rightarrow> u64 set \<Rightarrow> u64 set" where
  "cm_datas s K = {cv_Data (cvalues s v) | v. v \<in> cm_values s K \<and> cv_Data (cvalues s v) \<noteq> 0}"

definition cm_own :: "'z cm_state_scheme \<Rightarrow> u64 set \<Rightarrow> u64 set" where
  "cm_own s K = K \<union> cm_values s K \<union> cm_datas s K"

definition cm_blocks :: "'z cm_state_scheme \<Rightarrow> (u64 \<rightharpoonup> nat) \<Rightarrow> u64 set \<Rightarrow> u64 set \<Rightarrow> bool" where
  "cm_blocks s L B K \<longleftrightarrow> cm_own s K \<subseteq> dom L \<and> cm_own s K \<inter> ob_own s B = {} \<and>
     K \<inter> cm_values s K = {} \<and> K \<inter> cm_datas s K = {} \<and> cm_values s K \<inter> cm_datas s K = {} \<and>
     (\<forall>k \<in> K. set (SubkeyHead (keys s k)) \<subseteq> K) \<and>
     (\<forall>v w. v \<in> cm_values s K \<longrightarrow> w \<in> cm_values s K \<longrightarrow> cv_Data (cvalues s v) \<noteq> 0 \<longrightarrow>
        cv_Data (cvalues s v) = cv_Data (cvalues s w) \<longrightarrow> v = w) \<and>
     (\<forall>j \<in> K. \<forall>k \<in> K. set (ValueHead (keys s j)) \<inter> set (ValueHead (keys s k)) \<noteq> {} \<longrightarrow> j = k) \<and>
     (\<forall>v \<in> cm_values s K. if cv_Data (cvalues s v) = 0 then cv_Size (cvalues s v) = 0
        else L (cv_Data (cvalues s v)) = Some (unat (cv_Size (cvalues s v))))"

definition cm_inv :: "'z cm_state_scheme \<Rightarrow> (u64 \<rightharpoonup> nat) \<Rightarrow> u64 set \<Rightarrow> (u64 \<Rightarrow> nat) \<Rightarrow> u64 set \<Rightarrow> bool" where
  "cm_inv s L B held K \<longleftrightarrow> ob_inv s L B held \<and> cm_blocks s L B K"

lemma cm_blocksI:
  assumes "\<And>x. x \<in> cm_own s K \<Longrightarrow> x \<in> dom L \<and> x \<notin> ob_own s B" "\<And>x. x \<in> K \<Longrightarrow> x \<notin> cm_values s K \<and> x \<notin> cm_datas s K"
    "\<And>x. x \<in> cm_values s K \<Longrightarrow> x \<notin> cm_datas s K" "\<And>k. k \<in> K \<Longrightarrow> set (SubkeyHead (keys s k)) \<subseteq> K"
    "\<And>v w. v \<in> cm_values s K \<Longrightarrow> w \<in> cm_values s K \<Longrightarrow> cv_Data (cvalues s v) \<noteq> 0 \<Longrightarrow>
       cv_Data (cvalues s v) = cv_Data (cvalues s w) \<Longrightarrow> v = w"
    "\<And>j k v. j \<in> K \<Longrightarrow> k \<in> K \<Longrightarrow> v \<in> set (ValueHead (keys s j)) \<Longrightarrow> v \<in> set (ValueHead (keys s k)) \<Longrightarrow> j = k"
    "\<And>v. v \<in> cm_values s K \<Longrightarrow> if cv_Data (cvalues s v) = 0 then cv_Size (cvalues s v) = 0
       else L (cv_Data (cvalues s v)) = Some (unat (cv_Size (cvalues s v)))"
  shows "cm_blocks s L B K"
  unfolding cm_blocks_def using assms by (intro conjI subsetI ballI allI impI) blast+

lemma cm_blocksD:
  assumes "cm_blocks s L B K"
  shows "x \<in> cm_own s K \<Longrightarrow> x \<in> dom L \<and> x \<notin> ob_own s B" "x \<in> K \<Longrightarrow> x \<notin> cm_values s K \<and> x \<notin> cm_datas s K"
    "x \<in> cm_values s K \<Longrightarrow> x \<notin> cm_datas s K" "k \<in> K \<Longrightarrow> set (SubkeyHead (keys s k)) \<subseteq> K"
    "v \<in> cm_values s K \<Longrightarrow> w \<in> cm_values s K \<Longrightarrow> cv_Data (cvalues s v) \<noteq> 0 \<Longrightarrow>
       cv_Data (cvalues s v) = cv_Data (cvalues s w) \<Longrightarrow> v = w"
    "j \<in> K \<Longrightarrow> k \<in> K \<Longrightarrow> v \<in> set (ValueHead (keys s j)) \<Longrightarrow> v \<in> set (ValueHead (keys s k)) \<Longrightarrow> j = k"
    "v \<in> cm_values s K \<Longrightarrow> if cv_Data (cvalues s v) = 0 then cv_Size (cvalues s v) = 0
       else L (cv_Data (cvalues s v)) = Some (unat (cv_Size (cvalues s v)))"
  using assms unfolding cm_blocks_def by blast+

lemma cm_inv_subkeys: "cm_inv s L B held K \<Longrightarrow> k \<in> K \<Longrightarrow> set (SubkeyHead (keys s k)) \<subseteq> K"
  by (drule cm_inv_def [THEN iffD1, THEN conjunct2]) (rule cm_blocksD(4))

lemma cm_own_pool [simp]:
  "cm_values (s\<lparr>pool := p\<rparr>) K = cm_values s K" "cm_datas (s\<lparr>pool := p\<rparr>) K = cm_datas s K" "cm_own (s\<lparr>pool := p\<rparr>) K = cm_own s K"
  by (simp_all add: cm_own_def cm_datas_def cm_values_def)

lemma cm_inv_pool:
  assumes inv: "cm_inv s L B held K" and rel: "pool_rel p L'" and same: "\<And>x. x \<in> ob_own s B \<union> cm_own s K \<Longrightarrow> L' x = L x"
  shows "cm_inv (s\<lparr>pool := p\<rparr>) L' B held K"
proof -
  have sub: "cm_own s K \<subseteq> dom L'"
  proof
    fix x assume x: "x \<in> cm_own s K"
    then have "x \<in> dom L" "L' x = L x" using inv same by (auto simp: cm_inv_def cm_blocks_def)
    then show "x \<in> dom L'" by (simp add: dom_def)
  qed
  have cb: "cm_blocks s L B K" using inv by (simp add: cm_inv_def)
  have o: "ob_own (s\<lparr>pool := p\<rparr>) B = ob_own s B" by (rule ob_own_cong) simp_all
  have "L' (cv_Data (cvalues s v)) = L (cv_Data (cvalues s v))" if "v \<in> cm_values s K" "cv_Data (cvalues s v) \<noteq> 0" for v
    using that by (intro same) (auto simp: cm_own_def cm_datas_def)
  then have sz: "if cv_Data (cvalues s v) = 0 then cv_Size (cvalues s v) = 0 else L' (cv_Data (cvalues s v)) = Some (unat (cv_Size (cvalues s v)))"
    if "v \<in> cm_values s K" for v using cm_blocksD(7) [OF cb that] that by (simp split: if_splits)
  have "cm_blocks (s\<lparr>pool := p\<rparr>) L' B K"
    by (rule cm_blocksI, use sub cm_blocksD [OF cb] sz in \<open>simp_all add: o subset_iff del: subsetI\<close>)
  then show ?thesis using inv ob_inv_pool [of s L B held p L'] rel same by (simp add: cm_inv_def)
qed

lemma cm_alloc:
  assumes inv: "cm_inv s L B held K" and n: "unat n \<le> 2 ^ 61" and a: "ExAllocatePoolWithTag NonPagedPool n tag (pool s) = Some (b, p)"
  obtains (null) "b = 0" "cm_inv (s\<lparr>pool := p\<rparr>) L B held K"
    | (some) "b \<noteq> 0" "L b = None" "b \<notin> ob_own s B" "b \<notin> cm_own s K" "cm_inv (s\<lparr>pool := p\<rparr>) (L(b \<mapsto> unat n)) B held K"
proof (cases "b = 0")
  case True
  have rel: "pool_rel (pool s) L" using inv by (simp add: cm_inv_def ob_inv_def)
  have "pool_rel p L" by (rule pool.alloc_null [OF rel n a [unfolded True]])
  then show thesis using null True cm_inv_pool [OF inv, of p L] by simp
next
  case False
  have rel: "pool_rel (pool s) L" using inv by (simp add: cm_inv_def ob_inv_def)
  have l: "L b = None" "pool_rel p (L(b \<mapsto> unat n))" using pool.alloc_some [OF rel n a False] by simp_all
  have nb: "b \<notin> ob_own s B" using ob_own_dom [of s L B held b] inv False l(1) by (auto simp: cm_inv_def)
  moreover have nc: "b \<notin> cm_own s K" using inv l(1) by (auto simp: cm_inv_def cm_blocks_def)
  moreover have "cm_inv (s\<lparr>pool := p\<rparr>) (L(b \<mapsto> unat n)) B held K"
    by (rule cm_inv_pool [OF inv l(2)]) (use nb nc in auto)
  ultimately show thesis using some False l(1) by blast
qed

lemma cm_free:
  assumes inv: "cm_inv s L B held K" and b: "b \<in> dom L" "b \<notin> ob_own s B" "b \<notin> cm_own s K"
  shows "\<exists>p. ExFreePool b (pool s) = Some p \<and> cm_inv (s\<lparr>pool := p\<rparr>) (L(b := None)) B held K"
proof -
  have rel: "pool_rel (pool s) L" using inv by (simp add: cm_inv_def ob_inv_def)
  from b(1) obtain r where "L b = Some r" by blast
  from pool.release_live [OF rel this] obtain p where p: "ExFreePool b (pool s) = Some p" "pool_rel p (L(b := None))" by blast
  have "cm_inv (s\<lparr>pool := p\<rparr>) (L(b := None)) B held K" by (rule cm_inv_pool [OF inv p(2)]) (use b in auto)
  with p(1) show ?thesis by blast
qed

section \<open>Paths\<close>

lemma cm_inv_cong:
  assumes inv: "cm_inv s L B held K" and ob: "ob_state.truncate s' = ob_state.truncate s"
    and cb: "cm_blocks s' L B K'"
  shows "cm_inv s' L B held K'"
proof -
  have "pool s' = pool s \<and> headers s' = headers s \<and> g_handles s' = g_handles s \<and> directories s' = directories s \<and>
    files s' = files s \<and> g_type_list s' = g_type_list s \<and> types s' = types s"
    using ob by (simp add: ob_state.defs)
  then show ?thesis using inv cb ob_inv_cong [of s' s L B held] by (simp add: cm_inv_def)
qed

lemma alloc_key_spec:
  assumes inv: "cm_inv s L B held K" and par: "parent \<in> K \<or> parent = 0" and c: "cm_alloc_key name parent s = Some (k, s')"
  obtains (null) p where "k = 0" "s' = s\<lparr>pool := p\<rparr>" "cm_inv s' L B held K"
    | (some) p where "k \<noteq> 0" "k \<notin> K" "cm_inv s' (L(k \<mapsto> 120)) B held (insert k K)"
      "s' = s\<lparr>pool := p, keys := (let ks = (keys s)(k := \<lparr>ck_Name = take 63 name, ck_Parent = parent, SubkeyHead = [], ValueHead = []\<rparr>)
         in if parent \<noteq> 0 then ks(parent := (ks parent)\<lparr>SubkeyHead := SubkeyHead (ks parent) @ [k]\<rparr>) else ks)\<rparr>"
proof -
  from c obtain p where a: "ExAllocatePoolWithTag NonPagedPool 120 0x79654B43 (pool s) = Some (k, p)"
    by (auto simp: cm_alloc_key_def Let_def split: bind_splits if_splits)
  have n: "unat (120 :: u64) \<le> 2 ^ 61" by simp
  from inv n a show thesis
  proof (cases rule: cm_alloc)
    case null
    then show thesis using that(1) [of p] c a by (simp add: cm_alloc_key_def)
  next
    case some
    define ks where "ks = (keys s)(k := \<lparr>ck_Name = take 63 name, ck_Parent = parent, SubkeyHead = [], ValueHead = []\<rparr>)"
    define ks' where "ks' = (if parent \<noteq> 0 then ks(parent := (ks parent)\<lparr>SubkeyHead := SubkeyHead (ks parent) @ [k]\<rparr>) else ks)"
    have s': "s' = s\<lparr>pool := p, keys := ks'\<rparr>" using c a some(1) by (auto simp: cm_alloc_key_def Let_def ks_def ks'_def)
    have kK: "k \<notin> K" using some(4) by (simp add: cm_own_def)
    let ?s = "s\<lparr>pool := p\<rparr>"
    have vh: "ValueHead (ks' x) = ValueHead (keys s x)" if "x \<in> K" for x using that kK by (auto simp: ks'_def ks_def)
    have vk: "ValueHead (ks' k) = []" using par kK by (auto simp: ks'_def ks_def)
    have v: "cm_values s' (insert k K) = cm_values s K" using vh vk by (auto simp: cm_values_def s')
    have d: "cm_datas s' (insert k K) = cm_datas s K" unfolding cm_datas_def v by (simp add: s')
    have sk: "set (SubkeyHead (ks' x)) \<subseteq> insert k K" if "x \<in> insert k K" for x
      using that inv par kK by (auto simp: ks'_def ks_def cm_inv_def cm_blocks_def split: if_splits)
    have own: "ob_own s' B = ob_own s B" by (rule ob_own_cong) (simp_all add: s')
    have ownp: "ob_own ?s B = ob_own s B" by (rule ob_own_cong) simp_all
    have cb: "cm_blocks ?s (L(k \<mapsto> 120)) B K" using some(5) by (simp add: cm_inv_def)
    have "cm_blocks s' (L(k \<mapsto> 120)) B (insert k K)"
    proof (rule cm_blocksI)
      show "set (SubkeyHead (keys s' x)) \<subseteq> insert k K" if "x \<in> insert k K" for x using sk [OF that] by (simp add: s')
      show "x \<in> dom (L(k \<mapsto> 120)) \<and> x \<notin> ob_own s' B" if "x \<in> cm_own s' (insert k K)" for x
        using that cm_blocksD(1) [OF cb, of x] some(3) by (auto simp: v d own ownp cm_own_def)
      show "x \<notin> cm_values s' (insert k K) \<and> x \<notin> cm_datas s' (insert k K)" if "x \<in> insert k K" for x
        using that cm_blocksD(2) [OF cb, of x] some(4) by (auto simp: v d cm_own_def)
      show "x \<notin> cm_datas s' (insert k K)" if "x \<in> cm_values s' (insert k K)" for x
        using that cm_blocksD(3) [OF cb, of x] by (simp add: v d)
      show "x = w" if "x \<in> cm_values s' (insert k K)" "w \<in> cm_values s' (insert k K)"
        "cv_Data (cvalues s' x) \<noteq> 0" "cv_Data (cvalues s' x) = cv_Data (cvalues s' w)" for x w
        using that cm_blocksD(5) [OF cb, of x w] by (simp only: v cm_own_pool) (simp add: s')
      show "i = j" if "i \<in> insert k K" "j \<in> insert k K" "x \<in> set (ValueHead (keys s' i))" "x \<in> set (ValueHead (keys s' j))" for i j x
        using that cm_blocksD(6) [OF cb, of i j x] vk vh by (auto simp: s')
      show "if cv_Data (cvalues s' x) = 0 then cv_Size (cvalues s' x) = 0 else (L(k \<mapsto> 120)) (cv_Data (cvalues s' x)) = Some (unat (cv_Size (cvalues s' x)))"
        if "x \<in> cm_values s' (insert k K)" for x using that cm_blocksD(7) [OF cb, of x] by (simp only: v cm_own_pool) (auto simp: s' split: if_splits)
    qed
    then have "cm_inv s' (L(k \<mapsto> 120)) B held (insert k K)"
      using cm_inv_cong [OF some(5), of s'] by (simp add: s' ob_state.defs)
    then show thesis using that(2) [of p] some(1) kK by (simp add: s' ks'_def ks_def Let_def)
  qed
qed


text \<open>What a walk looks at: the components of a path, each cut to 63 characters, and the subkey each one names.\<close>

function path_comps :: "cstring \<Rightarrow> cstring list" where
  "path_comps p =
     (let p1 = dropWhile is_sep p
      in if p1 = [] then []
         else take 63 (takeWhile (\<lambda>c. \<not> is_sep c) p1) # path_comps (dropWhile (\<lambda>c. \<not> is_sep c) p1))"
  by pat_completeness auto
termination
proof (relation "measure length")
  fix p p1 :: cstring
  assume p: "p1 = dropWhile is_sep p" "p1 \<noteq> []"
  then have h: "\<not> is_sep (hd p1)" by (simp add: hd_dropWhile)
  with p(2) have "length (dropWhile (\<lambda>c. \<not> is_sep c) p1) < length p1"
    by (cases p1) (simp_all add: le_imp_less_Suc length_dropWhile_le)
  moreover have "length p1 \<le> length p" using p(1) by (simp add: length_dropWhile_le)
  ultimately show "(dropWhile (\<lambda>c. \<not> is_sep c) p1, p) \<in> measure length" by simp
qed simp

declare path_comps.simps [simp del]

fun resolve :: "'z cm_state_scheme \<Rightarrow> u64 \<Rightarrow> cstring list \<Rightarrow> u64 option" where
  "resolve s cur [] = Some cur"
| "resolve s cur (c # cs) = (case cm_find_subkey s cur c of None \<Rightarrow> None | Some k \<Rightarrow> resolve s k cs)"

lemma walk_end: "dropWhile is_sep p = [] \<Longrightarrow> cm_walk cur p create s = Some (cur, s)"
  by (subst cm_walk.simps) simp

lemma walk_found:
  assumes "dropWhile is_sep p \<noteq> []" "cm_find_subkey s cur (take 63 (takeWhile (\<lambda>c. \<not> is_sep c) (dropWhile is_sep p))) = Some child"
  shows "cm_walk cur p create s = cm_walk child (dropWhile (\<lambda>c. \<not> is_sep c) (dropWhile is_sep p)) create s"
  by (subst cm_walk.simps) (simp add: assms Let_def del: dropWhile_eq_Nil_conv)

lemma walk_missing:
  assumes "dropWhile is_sep p \<noteq> []" "cm_find_subkey s cur (take 63 (takeWhile (\<lambda>c. \<not> is_sep c) (dropWhile is_sep p))) = None"
  shows "cm_walk cur p True s = do {
      (child, s1) \<leftarrow> cm_alloc_key (take 63 (takeWhile (\<lambda>c. \<not> is_sep c) (dropWhile is_sep p))) cur s;
      if child = 0 then Some (0, s1) else cm_walk child (dropWhile (\<lambda>c. \<not> is_sep c) (dropWhile is_sep p)) True s1
    }"
  by (subst cm_walk.simps) (simp add: assms Let_def del: dropWhile_eq_Nil_conv)

lemma walk_open: "cm_walk cur p False s = Some (case resolve s cur (path_comps p) of None \<Rightarrow> 0 | Some k \<Rightarrow> k, s)"
proof (induction p arbitrary: cur rule: path_comps.induct)
  case (1 p)
  show ?case
    using 1 [OF refl] by (simp add: cm_walk.simps [of cur p] path_comps.simps [of p] Let_def split: option.splits)
qed

lemma ci_eq_lower: "ci_eq a b \<longleftrightarrow> map ci_lower a = map ci_lower b"
  by (induction a b rule: ci_eq.induct) simp_all

definition same_path :: "cstring \<Rightarrow> cstring \<Rightarrow> bool" where
  "same_path p q \<longleftrightarrow> map (map ci_lower) (path_comps p) = map (map ci_lower) (path_comps q)"

lemma resolve_ci: "map (map ci_lower) cs = map (map ci_lower) ds \<Longrightarrow> resolve s cur cs = resolve s cur ds"
proof (induction cs arbitrary: cur ds)
  case (Cons c cs)
  then obtain d ds' where ds: "ds = d # ds'" "map ci_lower c = map ci_lower d" "map (map ci_lower) cs = map (map ci_lower) ds'"
    by (cases ds) auto
  have "cm_find_subkey s cur c = cm_find_subkey s cur d" by (simp add: cm_find_subkey_def ci_eq_lower ds(2))
  then show ?case using Cons.IH [OF ds(3)] by (simp add: ds(1) split: option.splits)
qed simp

text \<open>A state whose tree has only grown: the old keys keep their names and their subkeys, in order.\<close>

definition tree_grows :: "u64 set \<Rightarrow> 'z cm_state_scheme \<Rightarrow> 'z cm_state_scheme \<Rightarrow> bool" where
  "tree_grows K s s' \<longleftrightarrow>
     (\<forall>k \<in> K. ck_Name (keys s' k) = ck_Name (keys s k) \<and> ValueHead (keys s' k) = ValueHead (keys s k) \<and>
        (\<exists>ys. SubkeyHead (keys s' k) = SubkeyHead (keys s k) @ ys))"

lemma tree_grows_refl [simp]: "tree_grows K s s"
  by (simp add: tree_grows_def)

lemma tree_grows_trans: "tree_grows K s s' \<Longrightarrow> K \<subseteq> K' \<Longrightarrow> tree_grows K' s' s'' \<Longrightarrow> tree_grows K s s''"
  unfolding tree_grows_def by (metis append_assoc subset_iff)

lemma find_append: "find P (xs @ ys) = (case find P xs of None \<Rightarrow> find P ys | Some x \<Rightarrow> Some x)"
  by (induction xs) simp_all

lemma find_subkey_grows:
  assumes g: "tree_grows K s s'" and cl: "set (SubkeyHead (keys s cur)) \<subseteq> K" and cur: "cur \<in> K" and f: "cm_find_subkey s cur c = Some k"
  shows "cm_find_subkey s' cur c = Some k"
proof -
  obtain ys where ys: "SubkeyHead (keys s' cur) = SubkeyHead (keys s cur) @ ys" using g cur by (auto simp: tree_grows_def)
  have "find (\<lambda>k. ci_eq (ck_Name (keys s' k)) c) (SubkeyHead (keys s cur)) = find (\<lambda>k. ci_eq (ck_Name (keys s k)) c) (SubkeyHead (keys s cur))"
    by (rule find_cong) (use g cl in \<open>auto simp: tree_grows_def\<close>)
  then show ?thesis using f by (simp add: cm_find_subkey_def ys find_append)
qed

lemma find_subkey_in: "cm_find_subkey s cur c = Some k \<Longrightarrow> k \<in> set (SubkeyHead (keys s cur))"
  by (auto simp: cm_find_subkey_def find_Some_iff)

lemma resolve_grows:
  assumes g: "tree_grows K s s'" and cl: "\<And>k. k \<in> K \<Longrightarrow> set (SubkeyHead (keys s k)) \<subseteq> K"
  shows "cur \<in> K \<Longrightarrow> resolve s cur cs = Some k \<Longrightarrow> resolve s' cur cs = Some k \<and> k \<in> K"
proof (induction cs arbitrary: cur)
  case (Cons c cs)
  then obtain j where j: "cm_find_subkey s cur c = Some j" "resolve s j cs = Some k" by (auto split: option.splits)
  have "j \<in> K" using find_subkey_in [OF j(1)] cl [OF Cons.prems(1)] by blast
  then show ?case using Cons.IH [OF _ j(2)] find_subkey_grows [OF g cl [OF Cons.prems(1)] Cons.prems(1) j(1)] by simp
qed simp

text \<open>One component that is missing: the new key is what its name then finds.\<close>

lemma alloc_key_grows:
  assumes inv: "cm_inv s L B held K" and cur: "cur \<in> K" and c: "cm_alloc_key c cur s = Some (k, s')" and k: "k \<noteq> 0"
    and n: "length c \<le> 63" and f: "cm_find_subkey s cur c = None"
  shows "cm_inv s' (L(k \<mapsto> 120)) B held (insert k K)" "tree_grows K s s'" "cm_find_subkey s' cur c = Some k"
proof -
  have L: "K \<subseteq> dom L" using inv by (auto simp: cm_inv_def cm_blocks_def cm_own_def)
  have cur0: "cur \<noteq> 0" using inv cur L pool.live_nonzero [of "pool s" L cur] by (auto simp: cm_inv_def ob_inv_def)
  have sub: "set (SubkeyHead (keys s cur)) \<subseteq> K" using inv cur by (rule cm_inv_subkeys)
  from inv _ c show "cm_inv s' (L(k \<mapsto> 120)) B held (insert k K)" by (cases rule: alloc_key_spec) (use cur k in auto)
  from inv _ c obtain p where kK: "k \<notin> K"
    and s': "s' = s\<lparr>pool := p, keys := (let ks = (keys s)(k := \<lparr>ck_Name = take 63 c, ck_Parent = cur, SubkeyHead = [], ValueHead = []\<rparr>)
         in if cur \<noteq> 0 then ks(cur := (ks cur)\<lparr>SubkeyHead := SubkeyHead (ks cur) @ [k]\<rparr>) else ks)\<rparr>"
    by (cases rule: alloc_key_spec) (use cur k in blast)+
  have ne: "cur \<noteq> k" using cur kK by blast
  have ks: "SubkeyHead (keys s' cur) = SubkeyHead (keys s cur) @ [k]" "ck_Name (keys s' k) = take 63 c"
    using cur0 ne by (simp_all add: s' Let_def)
  show g: "tree_grows K s s'" using cur0 ne kK by (auto simp: tree_grows_def s' Let_def)
  have "find (\<lambda>k. ci_eq (ck_Name (keys s' k)) c) (SubkeyHead (keys s cur)) = find (\<lambda>k. ci_eq (ck_Name (keys s k)) c) (SubkeyHead (keys s cur))"
    by (rule find_cong) (use g sub in \<open>auto simp: tree_grows_def\<close>)
  then show "cm_find_subkey s' cur c = Some k"
    using f n by (simp add: cm_find_subkey_def ks find_append ci_eq_lower)
qed

lemma walk_create:
  assumes "cm_inv s L B held K" "cur \<in> K" "cm_walk cur p True s = Some (k, s')"
  shows "\<exists>L' K'. cm_inv s' L' B held K' \<and> K \<subseteq> K' \<and> tree_grows K s s' \<and> (k \<noteq> 0 \<longrightarrow> k \<in> K' \<and> resolve s' cur (path_comps p) = Some k)"
  using assms
proof (induction p arbitrary: cur s L K rule: path_comps.induct)
  case (1 p)
  note IH = 1(1) [OF refl]
  let ?p1 = "dropWhile is_sep p"
  let ?c = "take 63 (takeWhile (\<lambda>c. \<not> is_sep c) ?p1)" and ?p2 = "dropWhile (\<lambda>c. \<not> is_sep c) ?p1"
  have cl: "set (SubkeyHead (keys s j)) \<subseteq> K" if "j \<in> K" for j using 1(2) that by (rule cm_inv_subkeys)
  show ?case
  proof (cases "?p1 = []")
    case True
    then have "s' = s" "k = cur" using 1(4) by (simp_all add: walk_end)
    then show ?thesis using 1(2,3) True tree_grows_refl [of K s] by (auto simp: path_comps.simps [of p])
  next
    case ne: False
    then have pc: "path_comps p = ?c # path_comps ?p2" by (simp add: path_comps.simps [of p] Let_def)
    show ?thesis
    proof (cases "cm_find_subkey s cur ?c")
      case (Some child)
      have ch: "child \<in> K" using find_subkey_in [OF Some] cl [OF 1(3)] by blast
      have "cm_walk child ?p2 True s = Some (k, s')" using 1(4) unfolding walk_found [OF ne Some] .
      from IH [OF ne 1(2) ch this] obtain L' K' where r: "cm_inv s' L' B held K'" "K \<subseteq> K'" "tree_grows K s s'"
        "k \<noteq> 0 \<longrightarrow> k \<in> K' \<and> resolve s' child (path_comps ?p2) = Some k" by blast
      have "cm_find_subkey s' cur ?c = Some child" by (rule find_subkey_grows [OF r(3) cl [OF 1(3)] 1(3) Some])
      then show ?thesis using r by (auto simp: pc)
    next
      case None
      from 1(4) obtain child s1 where a: "cm_alloc_key ?c cur s = Some (child, s1)"
        and w: "(if child = 0 then Some (0, s1) else cm_walk child ?p2 True s1) = Some (k, s')"
        unfolding walk_missing [OF ne None] by (auto split: bind_splits)
      show ?thesis
      proof (cases "child = 0")
        case True
        from 1(2) _ a have "cm_inv s1 L B held K \<and> tree_grows K s s1"
          by (cases rule: alloc_key_spec) (use 1(3) True in \<open>auto simp: tree_grows_def\<close>)
        then show ?thesis using w True by auto
      next
        case False
        from alloc_key_grows [OF 1(2,3) a False _ None] have g: "cm_inv s1 (L(child \<mapsto> 120)) B held (insert child K)"
          "tree_grows K s s1" "cm_find_subkey s1 cur ?c = Some child" by auto
        have "cm_walk child ?p2 True s1 = Some (k, s')" using w False by simp
        from IH [OF ne g(1) _ this] obtain L' K' where r: "cm_inv s' L' B held K'" "insert child K \<subseteq> K'" "tree_grows (insert child K) s1 s'"
          "k \<noteq> 0 \<longrightarrow> k \<in> K' \<and> resolve s' child (path_comps ?p2) = Some k" by blast
        have cl1: "set (SubkeyHead (keys s1 cur)) \<subseteq> insert child K" by (rule cm_inv_subkeys [OF g(1)]) (use 1(3) in simp)
        have "cm_find_subkey s' cur ?c = Some child" by (rule find_subkey_grows [OF r(3) cl1 _ g(3)]) (use 1(3) in simp)
        moreover have "tree_grows K s s'" by (rule tree_grows_trans [OF g(2) _ r(3)]) blast
        ultimately show ?thesis using r by (auto simp: pc)
      qed
    qed
  qed
qed

text \<open>With 192 bytes of pool per component and 64 more, a walk that creates does not fail.\<close>

lemma walk_create_returns:
  assumes "pool_room (pool s) L (64 + 192 * length (path_comps p))" "cm_inv s L B held K" "cur \<in> K"
  shows "\<exists>k s'. cm_walk cur p True s = Some (k, s') \<and> k \<noteq> 0"
  using assms
proof (induction p arbitrary: cur s L K rule: path_comps.induct)
  case (1 p)
  note IH = 1(1) [OF refl]
  let ?p1 = "dropWhile is_sep p"
  let ?c = "take 63 (takeWhile (\<lambda>c. \<not> is_sep c) ?p1)" and ?p2 = "dropWhile (\<lambda>c. \<not> is_sep c) ?p1"
  have L: "K \<subseteq> dom L" using 1(3) by (auto simp: cm_inv_def cm_blocks_def cm_own_def)
  show ?case
  proof (cases "?p1 = []")
    case True
    have "cur \<noteq> 0" using 1(3,4) L pool.live_nonzero [of "pool s" L cur] by (auto simp: cm_inv_def ob_inv_def)
    then show ?thesis using True by (simp add: walk_end)
  next
    case ne: False
    then have pc: "path_comps p = ?c # path_comps ?p2" by (simp add: path_comps.simps [of p] Let_def)
    show ?thesis
    proof (cases "cm_find_subkey s cur ?c")
      case (Some child)
      have ch: "child \<in> K" using find_subkey_in [OF Some] cm_inv_subkeys [OF 1(3,4)] by blast
      have "pool_room (pool s) L (64 + 192 * length (path_comps ?p2))" using 1(2) unfolding pc pool_room_def by fastforce
      from IH [OF ne this 1(3) ch] show ?thesis unfolding walk_found [OF ne Some] .
    next
      case None
      from pool_room_alloc [OF 1(2), of 120 "0x79654B43"] pc obtain child q where
        q: "ExAllocatePoolWithTag NonPagedPool 120 0x79654B43 (pool s) = Some (child, q)" "child \<noteq> 0"
          "pool_room q (L(child \<mapsto> 120)) (64 + 192 * length (path_comps ?p2))" by (auto simp: need_of_def)
      then obtain s1 where a: "cm_alloc_key ?c cur s = Some (child, s1)" "pool s1 = q" by (cases "cur = 0") (auto simp: cm_alloc_key_def Let_def)
      from alloc_key_grows [OF 1(3,4) a(1) q(2) _ None] have g: "cm_inv s1 (L(child \<mapsto> 120)) B held (insert child K)" by auto
      from IH [OF ne q(3) [folded a(2)] g insertI1] obtain k s' where "cm_walk child ?p2 True s1 = Some (k, s')" "k \<noteq> 0" by blast
      then show ?thesis unfolding walk_missing [OF ne None] a(1) using q(2) by simp
    qed
  qed
qed

section \<open>Handles of keys\<close>



section \<open>Values\<close>

lemma cm_attach:
  assumes inv: "cm_inv s L B held K" and k: "k \<in> K"
    and v: "v \<in> set (ValueHead (keys s k)) \<or> v \<in> dom L \<and> v \<notin> ob_own s B \<and> v \<notin> cm_own s K"
    and d: "d = 0 \<or> d \<in> dom L \<and> d \<notin> ob_own s B \<and> d \<notin> cm_own s K \<and> d \<noteq> v"
    and vh: "set vs = insert v (set (ValueHead (keys s k)))" and V: "cv_Data V = d"
    and sz: "if d = 0 then cv_Size V = 0 else L d = Some (unat (cv_Size V))"
    and s': "s' = s\<lparr>keys := (keys s)(k := (keys s k)\<lparr>ValueHead := vs\<rparr>), cvalues := (cvalues s)(v := V)\<rparr>"
  shows "cm_inv s' L B held K" "v \<in> cm_values s K \<Longrightarrow> cv_Data (cvalues s v) \<noteq> 0 \<Longrightarrow> cv_Data (cvalues s v) \<notin> cm_own s' K"
proof -
  have cb: "cm_blocks s L B K" using inv by (simp add: cm_inv_def)
  have own: "ob_own s' B = ob_own s B" by (rule ob_own_cong) (simp_all add: s')
  have vals: "cm_values s' K = insert v (cm_values s K)" using k vh by (auto simp: cm_values_def s' split: if_splits)
  have v_old: "v \<in> cm_values s K \<or> v \<in> dom L \<and> v \<notin> ob_own s B \<and> v \<notin> cm_own s K" using v k by (auto simp: cm_values_def)
  have data': "cv_Data (cvalues s' w) = (if w = v then d else cv_Data (cvalues s w))" for w by (simp add: s' V)
  have datas: "x = d \<and> d \<noteq> 0 \<or> x \<in> cm_datas s K \<and> (v \<in> cm_values s K \<longrightarrow> x \<noteq> cv_Data (cvalues s v))" if xin: "x \<in> cm_datas s' K" for x
  proof -
    obtain w where w: "x = cv_Data (cvalues s' w)" "w \<in> insert v (cm_values s K)" "x \<noteq> 0" using xin by (auto simp: cm_datas_def vals)
    show ?thesis
    proof (cases "w = v")
      case True
      then show ?thesis using w by (simp add: data')
    next
      case False
      then have x: "x = cv_Data (cvalues s w)" "w \<in> cm_values s K" using w(1,2) by (simp_all add: data')
      then have "x \<in> cm_datas s K" using w(3) by (auto simp: cm_datas_def)
      moreover have "x \<noteq> cv_Data (cvalues s v)" if "v \<in> cm_values s K" using cm_blocksD(5) [OF cb x(2) that] x(1) w(3) False by auto
      ultimately show ?thesis by blast
    qed
  qed
  have d0: "d \<noteq> 0 \<Longrightarrow> d \<in> dom L \<and> d \<notin> ob_own s B \<and> d \<notin> K \<and> d \<notin> cm_values s K \<and> d \<notin> cm_datas s K \<and> d \<noteq> v" using d by (auto simp: cm_own_def)
  have vd: "v \<notin> cm_datas s K" "v \<notin> K" using v_old cm_blocksD(2,3) [OF cb] by (auto simp: cm_own_def)
  have vdom: "v \<in> dom L" "v \<notin> ob_own s B" using v_old cm_blocksD(1) [OF cb, of v] by (auto simp: cm_own_def)
  have "cm_blocks s' L B K"
  proof (rule cm_blocksI)
    show "x \<in> dom L \<and> x \<notin> ob_own s' B" if "x \<in> cm_own s' K" for x
      using that datas [of x] d0 vdom cm_blocksD(1) [OF cb, of x] unfolding own by (auto simp: cm_own_def vals)
    show "x \<notin> cm_values s' K \<and> x \<notin> cm_datas s' K" if "x \<in> K" for x
      using that datas [of x] d0 vd cm_blocksD(2) [OF cb, of x] by (auto simp: vals)
    show "x \<notin> cm_datas s' K" if "x \<in> cm_values s' K" for x
      using that datas [of x] d0 vd cm_blocksD(3) [OF cb, of x] by (auto simp: vals)
    show "set (SubkeyHead (keys s' j)) \<subseteq> K" if "j \<in> K" for j
      using cm_blocksD(4) [OF cb that] k cm_blocksD(4) [OF cb k] by (simp add: s')
    show "i = j" if "i \<in> K" "j \<in> K" "x \<in> set (ValueHead (keys s' i))" "x \<in> set (ValueHead (keys s' j))" for i j x
    proof -
      have in_k: "x \<in> set (ValueHead (keys s y)) \<or> x = v \<and> y = k" if "x \<in> set (ValueHead (keys s' y))" for y
        using that vh by (auto simp: s' split: if_splits)
      have "v \<in> set (ValueHead (keys s y)) \<Longrightarrow> y \<in> K \<Longrightarrow> y = k" for y
        using v cm_blocksD(6) [OF cb _ k, of y v] by (auto simp: cm_own_def cm_values_def)
      then show ?thesis using in_k [OF that(3)] in_k [OF that(4)] that(1,2) cm_blocksD(6) [OF cb, of i j x] by metis
    qed
    show "if cv_Data (cvalues s' x) = 0 then cv_Size (cvalues s' x) = 0 else L (cv_Data (cvalues s' x)) = Some (unat (cv_Size (cvalues s' x)))"
      if xin: "x \<in> cm_values s' K" for x
    proof (cases "x = v")
      case False
      then have "x \<in> cm_values s K" "cvalues s' x = cvalues s x" using xin vals by (simp, simp add: s')
      then show ?thesis using cm_blocksD(7) [OF cb, of x] by simp
    qed (use sz V in \<open>simp add: s'\<close>)
    fix x w assume xw: "x \<in> cm_values s' K" "w \<in> cm_values s' K" "cv_Data (cvalues s' x) \<noteq> 0" "cv_Data (cvalues s' x) = cv_Data (cvalues s' w)"
    have in_datas: "cv_Data (cvalues s y) \<in> cm_datas s K" if "y \<in> cm_values s K" "cv_Data (cvalues s y) \<noteq> 0" for y
      using that by (auto simp: cm_datas_def)
    show "x = w"
    proof (cases "x = v \<or> w = v")
      case True
      then show ?thesis using xw in_datas [of x] in_datas [of w] d0 by (auto simp: data' vals split: if_splits)
    next
      case False
      then show ?thesis using xw cm_blocksD(5) [OF cb, of x w] by (simp add: data' vals)
    qed
  qed
  then show "cm_inv s' L B held K" using cm_inv_cong [OF inv, of s'] by (simp add: s' ob_state.defs)
  assume vo: "v \<in> cm_values s K" "cv_Data (cvalues s v) \<noteq> 0"
  then have dv: "cv_Data (cvalues s v) \<in> cm_datas s K" by (auto simp: cm_datas_def)
  show "cv_Data (cvalues s v) \<notin> cm_own s' K"
    using dv datas [of "cv_Data (cvalues s v)"] d0 vo(1) cm_blocksD(2,3) [OF cb] by (auto simp: cm_own_def vals)
qed

text \<open>What a key says of a name: type, size and bytes.\<close>

definition value_of :: "'z cm_state_scheme \<Rightarrow> u64 \<Rightarrow> cstring \<Rightarrow> (u32 \<times> u32 \<times> u8 list) option" where
  "value_of s k name =
     (case cm_find_value s k name of
        None \<Rightarrow> None
      | Some v \<Rightarrow> Some (cv_Type (cvalues s v), cv_Size (cvalues s v),
                      if cv_Data (cvalues s v) = 0 then [] else cm_data s (cv_Data (cvalues s v))))"

lemma value_of_cong:
  assumes inv: "cm_blocks s L B K" and k: "k \<in> K" and ks: "ValueHead (keys s' k) = ValueHead (keys s k)"
    and cv: "\<And>v. v \<in> set (ValueHead (keys s k)) \<Longrightarrow> cvalues s' v = cvalues s v"
    and cd: "\<And>d. d \<in> cm_datas s K \<Longrightarrow> cm_data s' d = cm_data s d"
  shows "value_of s' k n = value_of s k n"
proof -
  have f: "cm_find_value s' k n = cm_find_value s k n" unfolding cm_find_value_def ks by (rule find_cong) (simp_all add: cv)
  show ?thesis
  proof (cases "cm_find_value s k n")
    case (Some v)
    then have v: "v \<in> set (ValueHead (keys s k))" by (auto simp: cm_find_value_def find_Some_iff)
    then have "cv_Data (cvalues s v) \<noteq> 0 \<Longrightarrow> cv_Data (cvalues s v) \<in> cm_datas s K" using k by (auto simp: cm_datas_def cm_values_def)
    then show ?thesis using Some v by (simp add: value_of_def f cv cd)
  qed (simp add: value_of_def f)
qed

text \<open>The last step of \<^verbatim>\<open>cm_set_value\<close> on the node that it found or made.\<close>

lemma value_of_set:
  assumes cb: "cm_blocks s L B K" and k: "k \<in> K" and n: "cv_Name V = nm" "ci_eq nm name"
    and v: "cm_find_value s k name = Some v \<and> vs = ValueHead (keys s k) \<and> nm = cv_Name (cvalues s v) \<or>
      cm_find_value s k name = None \<and> v \<notin> cm_values s K \<and> vs = ValueHead (keys s k) @ [v]"
    and s': "keys s' = (keys s)(k := (keys s k)\<lparr>ValueHead := vs\<rparr>)" "cvalues s' = (cvalues s)(v := V)"
    and cd: "\<And>d. d \<in> cm_datas s K \<Longrightarrow> d \<noteq> cv_Data V \<Longrightarrow> cm_data s' d = cm_data s d"
    and fresh: "cv_Data V \<notin> cm_datas s K" and j: "j \<in> K"
  shows "value_of s' j m =
    (if j = k \<and> ci_eq m name then Some (cv_Type V, cv_Size V, if cv_Data V = 0 then [] else cm_data s' (cv_Data V)) else value_of s j m)"
proof (cases "j = k")
  case False
  have "v \<notin> set (ValueHead (keys s j))"
  proof
    assume vj: "v \<in> set (ValueHead (keys s j))"
    have "v \<in> set (ValueHead (keys s k))" using v vj j by (auto simp: cm_find_value_def find_Some_iff cm_values_def)
    then show False using cm_blocksD(6) [OF cb j k vj] False by simp
  qed
  then have "value_of s' j m = value_of s j m"
    using False cd fresh by (intro value_of_cong [OF cb j]) (auto simp: s')
  then show ?thesis using False by simp
next
  case True
  have nm: "cv_Name (cvalues s' w) = cv_Name (cvalues s w)" if "w \<in> set (ValueHead (keys s k))" for w
    using that v k n(1) by (auto simp: s' cm_values_def)
  have fe: "find (\<lambda>v. ci_eq (cv_Name (cvalues s' v)) x) (ValueHead (keys s k)) = cm_find_value s k x" for x
    unfolding cm_find_value_def by (rule find_cong) (simp_all add: nm)
  have ci: "ci_eq nm x \<longleftrightarrow> ci_eq x name" for x using n(2) by (auto simp: ci_eq_lower)
  have f: "cm_find_value s' k x = (case cm_find_value s k x of None \<Rightarrow> if vs = ValueHead (keys s k) then None
      else if ci_eq x name then Some v else None | Some w \<Rightarrow> Some w)" for x
  proof -
    have vh: "ValueHead (keys s' k) = vs" "cv_Name (cvalues s' v) = nm" by (simp_all add: s' n(1))
    from v show ?thesis unfolding cm_find_value_def [of s'] vh
      by (elim disjE conjE) (simp_all only: find_append fe, simp_all add: vh(2) ci split: option.splits)
  qed
  show ?thesis
  proof (cases "ci_eq m name")
    case m: True
    have "cm_find_value s k m = cm_find_value s k name" using m by (simp add: cm_find_value_def ci_eq_lower)
    then have "cm_find_value s' k m = Some v" using v m by (auto simp: f)
    then show ?thesis using True m by (simp add: value_of_def s'(2))
  next
    case m: False
    have w: "w \<noteq> v" if "cm_find_value s k m = Some w" for w
    proof
      assume "w = v"
      then have vin: "v \<in> set (ValueHead (keys s k))" "ci_eq (cv_Name (cvalues s v)) m" using that by (auto simp: cm_find_value_def find_Some_iff)
      then have "nm = cv_Name (cvalues s v)" using v k by (auto simp: cm_values_def)
      then show False using vin(2) ci [of m] m by simp
    qed
    have d: "cm_data s' (cv_Data (cvalues s w)) = cm_data s (cv_Data (cvalues s w))"
      if "cm_find_value s k m = Some w" "cv_Data (cvalues s w) \<noteq> 0" for w
    proof -
      have "w \<in> set (ValueHead (keys s k))" using that(1) by (auto simp: cm_find_value_def find_Some_iff)
      then have "cv_Data (cvalues s w) \<in> cm_datas s K" using k that(2) by (auto simp: cm_datas_def cm_values_def)
      then show ?thesis using cd fresh by metis
    qed
    show ?thesis using True m w d by (simp add: value_of_def f s'(2) split: option.splits)
  qed
qed

lemma cm_inv_data [simp]: "cm_inv (s\<lparr>cm_data := d\<rparr>) L B held K = cm_inv s L B held K"
proof -
  have o: "ob_inv (s\<lparr>cm_data := d\<rparr>) L B held = ob_inv s L B held" by (rule ob_inv_cong) simp_all
  have e: "ob_own (s\<lparr>cm_data := d\<rparr>) B = ob_own s B" by (rule ob_own_cong) simp_all
  have c: "cm_values (s\<lparr>cm_data := d\<rparr>) K = cm_values s K" "cm_datas (s\<lparr>cm_data := d\<rparr>) K = cm_datas s K"
    by (simp_all add: cm_values_def cm_datas_def)
  show ?thesis unfolding cm_inv_def cm_blocks_def cm_own_def o e c by simp
qed

lemma copy_data_spec:
  assumes inv: "cm_inv s L B held K" and c: "copy_data data sz s = Some (copy, s1)"
  obtains (none) "copy = 0" "cm_inv s1 L B held K" "sz = 0 \<and> s1 = s \<or> (\<exists>p. sz \<noteq> 0 \<and> s1 = s\<lparr>pool := p\<rparr>)"
    | (some) p where "copy \<noteq> 0" "sz \<noteq> 0" "L copy = None" "copy \<notin> ob_own s B" "copy \<notin> cm_own s K"
      "s1 = s\<lparr>pool := p, cm_data := (cm_data s)(copy := data)\<rparr>" "cm_inv s1 (L(copy \<mapsto> unat sz)) B held K"
proof (cases "sz = 0")
  case True
  then show thesis using none c inv by (simp add: copy_data_def)
next
  case False
  with c obtain p where a: "ExAllocatePoolWithTag NonPagedPool (ucast sz) 0x6C615643 (pool s) = Some (copy, p)"
    and s1: "s1 = s\<lparr>pool := p, cm_data := (if copy \<noteq> 0 then (cm_data s)(copy := data) else cm_data s)\<rparr>"
    by (auto simp: copy_data_def split: bind_splits)
  have "unat sz < 2 ^ 64" using unsigned_less [of sz, where ?'a = nat] by simp
  then have u: "unat (ucast sz :: u64) = unat sz" by (simp add: unsigned_ucast_eq take_bit_nat_eq_self)
  have "unat (ucast sz :: u64) \<le> 2 ^ 61" unfolding u using unsigned_less [of sz, where ?'a = nat] by simp
  from inv this a show thesis
  proof (cases rule: cm_alloc)
    case null
    then show thesis using none False s1 by auto
  next
    case some
    then show thesis using that(2) [of p] False s1 u by simp
  qed
qed

text \<open>Then the node: found, with its old data released, or new.\<close>

lemma set_value_found:
  assumes "copy_data data sz s = Some (copy, s1)" "\<not> (sz \<noteq> 0 \<and> copy = 0)" "cm_find_value s1 k name = Some v" "v \<noteq> 0"
    and "p = pool s1 \<and> cv_Data (cvalues s1 v) = 0 \<or> cv_Data (cvalues s1 v) \<noteq> 0 \<and> ExFreePool (cv_Data (cvalues s1 v)) (pool s1) = Some p"
  shows "cm_set_value k name type data sz s =
    Some (STATUS_SUCCESS, s1\<lparr>pool := p, cvalues := (cvalues s1)(v := (cvalues s1 v)\<lparr>cv_Type := type, cv_Size := sz, cv_Data := copy\<rparr>)\<rparr>)"
  using assms by (cases "cv_Data (cvalues s1 v) = 0") (simp_all add: cm_set_value_def)

lemma set_value_new:
  assumes "copy_data data sz s = Some (copy, s1)" "\<not> (sz \<noteq> 0 \<and> copy = 0)" "cm_find_value s1 k name = None"
    and "ExAllocatePoolWithTag NonPagedPool 96 0x6C615643 (pool s1) = Some (v, p)" "v \<noteq> 0"
  shows "cm_set_value k name type data sz s =
    Some (STATUS_SUCCESS, s1\<lparr>pool := p, keys := (keys s1)(k := (keys s1 k)\<lparr>ValueHead := ValueHead (keys s1 k) @ [v]\<rparr>),
      cvalues := (cvalues s1)(v := \<lparr>cv_Name = take 63 name, cv_Type = type, cv_Size = sz, cv_Data = copy\<rparr>)\<rparr>)"
  using assms by (simp add: cm_set_value_def Let_def)

lemma set_value_no_node:
  assumes "copy_data data sz s = Some (copy, s1)" "\<not> (sz \<noteq> 0 \<and> copy = 0)" "cm_find_value s1 k name = None"
    and "ExAllocatePoolWithTag NonPagedPool 96 0x6C615643 (pool s1) = Some (0, p)"
    and "p' = p \<and> copy = 0 \<or> copy \<noteq> 0 \<and> ExFreePool copy p = Some p'"
  shows "cm_set_value k name type data sz s = Some (STATUS_NO_MEMORY, s1\<lparr>pool := p'\<rparr>)"
  using assms by (cases "copy = 0") (simp_all add: cm_set_value_def Let_def)

text \<open>The outcome on the abstract view, in both cases.\<close>

definition sets_value :: "u64 set \<Rightarrow> u64 \<Rightarrow> cstring \<Rightarrow> u32 \<Rightarrow> u32 \<Rightarrow> u8 list \<Rightarrow> 'z cm_state_scheme \<Rightarrow> 'z cm_state_scheme \<Rightarrow> bool" where
  "sets_value K k name type sz data s s' \<longleftrightarrow>
     (\<forall>j \<in> K. \<forall>m. value_of s' j m = (if j = k \<and> ci_eq m name then Some (type, sz, data) else value_of s j m))"

definition keeps_values :: "u64 set \<Rightarrow> 'z cm_state_scheme \<Rightarrow> 'z cm_state_scheme \<Rightarrow> bool" where
  "keeps_values K s s' \<longleftrightarrow> (\<forall>j \<in> K. \<forall>m. value_of s' j m = value_of s j m)"

lemma keeps_values_data:
  assumes "cm_inv s L B held K" "copy \<notin> cm_own s K"
  shows "keeps_values K s (s\<lparr>pool := p, cm_data := (cm_data s)(copy := data)\<rparr>)"
  unfolding keeps_values_def
proof (intro ballI allI)
  fix j m assume j: "j \<in> K"
  show "value_of (s\<lparr>pool := p, cm_data := (cm_data s)(copy := data)\<rparr>) j m = value_of s j m"
    by (rule value_of_cong [OF _ j]) (use assms in \<open>auto simp: cm_inv_def cm_own_def\<close>)
qed

lemma value_of_pool [simp]: "value_of (s\<lparr>pool := p\<rparr>) = value_of s"
  by (rule ext)+ (simp add: value_of_def cm_find_value_def split: option.split)

lemma keeps_values_pool [simp]: "keeps_values K s (s'\<lparr>pool := p\<rparr>) = keeps_values K s s'"
  by (simp add: keeps_values_def)

lemma keeps_values_refl [simp]: "keeps_values K s s"
  by (simp add: keeps_values_def)

lemma copy_data_keeps:
  assumes inv: "cm_inv s L B held K" and c: "copy_data data sz s = Some (copy, s1)"
  shows "keeps_values K s s1" "keys s1 = keys s" "cvalues s1 = cvalues s" "copy \<noteq> 0 \<Longrightarrow> cm_data s1 copy = data"
proof -
  from inv c show "keeps_values K s s1" by (cases rule: copy_data_spec) (auto simp: keeps_values_data [OF inv])
  from inv c show "keys s1 = keys s" "cvalues s1 = cvalues s" "copy \<noteq> 0 \<Longrightarrow> cm_data s1 copy = data"
    by (cases rule: copy_data_spec; auto)+
qed

lemma set_value_update:
  assumes inv: "cm_inv s1 L B held K" and k: "k \<in> K" and f: "cm_find_value s1 k name = Some v"
    and c: "copy = 0 \<and> sz = 0 \<and> data = [] \<or> L copy = Some (unat sz) \<and> copy \<notin> ob_own s1 B \<and> copy \<notin> cm_own s1 K \<and> cm_data s1 copy = data \<and> copy \<noteq> 0"
  shows "v \<noteq> 0" "\<exists>p L'. (p = pool s1 \<and> cv_Data (cvalues s1 v) = 0 \<or>
        cv_Data (cvalues s1 v) \<noteq> 0 \<and> ExFreePool (cv_Data (cvalues s1 v)) (pool s1) = Some p) \<and>
      (let s' = s1\<lparr>pool := p, cvalues := (cvalues s1)(v := (cvalues s1 v)\<lparr>cv_Type := type, cv_Size := sz, cv_Data := copy\<rparr>)\<rparr>
       in cm_inv s' L' B held K \<and> sets_value K k name type sz data s1 s')"
proof -
  define V where "V = (cvalues s1 v)\<lparr>cv_Type := type, cv_Size := sz, cv_Data := copy\<rparr>"
  define t where "t = s1\<lparr>keys := (keys s1)(k := (keys s1 k)\<lparr>ValueHead := ValueHead (keys s1 k)\<rparr>), cvalues := (cvalues s1)(v := V)\<rparr>"
  let ?d = "cv_Data (cvalues s1 v)"
  have cb: "cm_blocks s1 L B K" using inv by (simp add: cm_inv_def)
  have rel: "pool_rel (pool s1) L" using inv by (simp add: cm_inv_def ob_inv_def)
  have vin: "v \<in> set (ValueHead (keys s1 k))" "ci_eq (cv_Name (cvalues s1 v)) name" using f by (auto simp: cm_find_value_def find_Some_iff)
  then have vv: "v \<in> cm_values s1 K" using k by (auto simp: cm_values_def)
  then have "v \<in> dom L" using cm_blocksD(1) [OF cb, of v] by (simp add: cm_own_def)
  then show "v \<noteq> 0" using pool.live_nonzero [OF rel] by blast
  have cv: "copy \<noteq> v" using c vv \<open>v \<noteq> 0\<close> by (auto simp: cm_own_def)
  have cd: "copy = 0 \<or> copy \<in> dom L \<and> copy \<notin> ob_own s1 B \<and> copy \<notin> cm_own s1 K \<and> copy \<noteq> v" using c cv by auto
  have ia: "set (ValueHead (keys s1 k)) = insert v (set (ValueHead (keys s1 k)))" using vin(1) by blast
  have att: "cm_inv t L B held K" "?d \<noteq> 0 \<Longrightarrow> ?d \<notin> cm_own t K"
    using cm_attach [OF inv k disjI1 [OF vin(1)] cd ia, of V t] vv c by (auto simp: t_def V_def)
  have te: "t = s1\<lparr>cvalues := (cvalues s1)(v := V)\<rparr>" by (simp add: t_def)
  have "0 \<notin> cm_datas s1 K" by (simp add: cm_datas_def)
  then have fresh: "copy \<notin> cm_datas s1 K" using c by (auto simp: cm_own_def)
  have sets: "sets_value K k name type sz data s1 (t\<lparr>pool := p\<rparr>)" for p
    unfolding sets_value_def
  proof (intro ballI allI)
    fix j m assume j: "j \<in> K"
    show "value_of (t\<lparr>pool := p\<rparr>) j m = (if j = k \<and> ci_eq m name then Some (type, sz, data) else value_of s1 j m)"
      using value_of_set [OF cb k, of V "cv_Name (cvalues s1 v)" name v "ValueHead (keys s1 k)" t j m] vin f fresh j c
      by (auto simp: t_def V_def)
  qed
  have fin: "s1\<lparr>pool := p, cvalues := (cvalues s1)(v := V)\<rparr> = t\<lparr>pool := p\<rparr>" for p by (simp add: te)
  show "\<exists>p L'. (p = pool s1 \<and> ?d = 0 \<or> ?d \<noteq> 0 \<and> ExFreePool ?d (pool s1) = Some p) \<and>
      (let s' = s1\<lparr>pool := p, cvalues := (cvalues s1)(v := (cvalues s1 v)\<lparr>cv_Type := type, cv_Size := sz, cv_Data := copy\<rparr>)\<rparr>
       in cm_inv s' L' B held K \<and> sets_value K k name type sz data s1 s')"
    unfolding V_def [symmetric] fin Let_def
  proof (cases "?d = 0")
    case True
    have "t\<lparr>pool := pool s1\<rparr> = t" by (simp add: te)
    then show "\<exists>p L'. (p = pool s1 \<and> ?d = 0 \<or> ?d \<noteq> 0 \<and> ExFreePool ?d (pool s1) = Some p) \<and>
        cm_inv (t\<lparr>pool := p\<rparr>) L' B held K \<and> sets_value K k name type sz data s1 (t\<lparr>pool := p\<rparr>)"
      using True att(1) sets [of "pool s1"] by (intro exI [of _ "pool s1"] exI [of _ L]) simp
  next
    case False
    have own: "ob_own t B = ob_own s1 B" by (rule ob_own_cong) (simp_all add: te)
    have "?d \<in> cm_datas s1 K" using vv False by (auto simp: cm_datas_def)
    then have "?d \<in> dom L" "?d \<notin> ob_own t B" using cm_blocksD(1) [OF cb, of ?d] unfolding own by (auto simp: cm_own_def)
    from cm_free [OF att(1) this att(2) [OF False]] obtain p where "ExFreePool ?d (pool s1) = Some p"
      "cm_inv (t\<lparr>pool := p\<rparr>) (L(?d := None)) B held K" by (auto simp: te)
    then show "\<exists>p L'. (p = pool s1 \<and> ?d = 0 \<or> ?d \<noteq> 0 \<and> ExFreePool ?d (pool s1) = Some p) \<and>
        cm_inv (t\<lparr>pool := p\<rparr>) L' B held K \<and> sets_value K k name type sz data s1 (t\<lparr>pool := p\<rparr>)"
      using False sets [of p] by blast
  qed
qed

lemma set_value_insert:
  fixes type :: u32
  assumes inv: "cm_inv s1 L B held K" and k: "k \<in> K" and f: "cm_find_value s1 k name = None" and n: "length name \<le> 63"
    and a: "ExAllocatePoolWithTag NonPagedPool 96 0x6C615643 (pool s1) = Some (v, p)" "v \<noteq> 0"
    and c: "copy = 0 \<and> sz = 0 \<and> data = [] \<or> L copy = Some (unat sz) \<and> copy \<notin> ob_own s1 B \<and> copy \<notin> cm_own s1 K \<and> cm_data s1 copy = data \<and> copy \<noteq> 0"
  defines "s' \<equiv> s1\<lparr>pool := p, keys := (keys s1)(k := (keys s1 k)\<lparr>ValueHead := ValueHead (keys s1 k) @ [v]\<rparr>),
      cvalues := (cvalues s1)(v := \<lparr>cv_Name = take 63 name, cv_Type = type, cv_Size = sz, cv_Data = copy\<rparr>)\<rparr>"
  shows "cm_inv s' (L(v \<mapsto> 96)) B held K" "sets_value K k name type sz data s1 s'"
proof -
  let ?s = "s1\<lparr>pool := p\<rparr>" and ?L = "L(v \<mapsto> 96)" and ?V = "\<lparr>cv_Name = take 63 name, cv_Type = type, cv_Size = sz, cv_Data = copy\<rparr>"
  have n96: "unat (96 :: u64) \<le> 2 ^ 61" by simp
  have new: "L v = None \<and> v \<notin> ob_own s1 B \<and> v \<notin> cm_own s1 K \<and> cm_inv ?s ?L B held K"
    using inv n96 a(1) by (cases rule: cm_alloc) (use a(2) in auto)
  have own: "ob_own ?s B = ob_own s1 B" by (rule ob_own_cong) simp_all
  have cv: "copy \<noteq> v" using c new a(2) by auto
  have s': "s' = ?s\<lparr>keys := (keys ?s)(k := (keys ?s k)\<lparr>ValueHead := ValueHead (keys ?s k) @ [v]\<rparr>), cvalues := (cvalues ?s)(v := ?V)\<rparr>"
    by (simp add: s'_def)
  show "cm_inv s' ?L B held K"
  proof (rule cm_attach(1) [OF _ k _ _ _ _ _ s'])
    show "cm_inv ?s ?L B held K" using new by blast
    show "v \<in> set (ValueHead (keys ?s k)) \<or> v \<in> dom ?L \<and> v \<notin> ob_own ?s B \<and> v \<notin> cm_own ?s K" unfolding own using new by simp
    show "copy = 0 \<or> copy \<in> dom ?L \<and> copy \<notin> ob_own ?s B \<and> copy \<notin> cm_own ?s K \<and> copy \<noteq> v" unfolding own using c cv by auto
    show "if copy = 0 then cv_Size ?V = 0 else ?L copy = Some (unat (cv_Size ?V))" using c cv by auto
  qed simp_all
  have cb: "cm_blocks s1 L B K" using inv by (simp add: cm_inv_def)
  have "0 \<notin> cm_datas s1 K" by (simp add: cm_datas_def)
  then have fresh: "copy \<notin> cm_datas s1 K" using c by (auto simp: cm_own_def)
  show "sets_value K k name type sz data s1 s'"
    unfolding sets_value_def
  proof (intro ballI allI)
    fix j m assume j: "j \<in> K"
    have "ci_eq (take 63 name) name" using n by (simp add: ci_eq_lower)
    then show "value_of s' j m = (if j = k \<and> ci_eq m name then Some (type, sz, data) else value_of s1 j m)"
      using value_of_set [OF cb k, of ?V "take 63 name" name v "ValueHead (keys s1 k) @ [v]" s' j m] f fresh j c new
      by (auto simp: s'_def cm_own_def)
  qed
qed

lemma sets_value_keeps: "keeps_values K s s1 \<Longrightarrow> sets_value K k name type sz data s1 s' \<Longrightarrow> sets_value K k name type sz data s s'"
  by (simp add: sets_value_def keeps_values_def)

lemma set_value_spec:
  assumes inv: "cm_inv s L B held K" and k: "k \<in> K" and n: "length name \<le> 63" and d: "length data = unat sz"
    and c: "cm_set_value k name type data sz s = Some (st, s')"
  shows "(\<exists>L'. cm_inv s' L' B held K) \<and>
    (st = STATUS_SUCCESS \<and> sets_value K k name type sz data s s' \<or> st = STATUS_NO_MEMORY \<and> keeps_values K s s')"
proof -
  obtain copy s1 where a: "copy_data data sz s = Some (copy, s1)" using c by (auto simp: cm_set_value_def split: bind_splits)
  note keep = copy_data_keeps [OF inv a]
  have "\<exists>L1. cm_inv s1 L1 B held K \<and> (copy = 0 \<or> L1 copy = Some (unat sz) \<and> copy \<notin> ob_own s B \<and> copy \<notin> cm_own s K) \<and> (sz = 0 \<longrightarrow> copy = 0)"
    using inv a by (cases rule: copy_data_spec) auto
  then obtain L1 where inv1: "cm_inv s1 L1 B held K"
    and own: "copy = 0 \<or> L1 copy = Some (unat sz) \<and> copy \<notin> ob_own s B \<and> copy \<notin> cm_own s K" and z: "sz = 0 \<Longrightarrow> copy = 0" by blast
  have "ob_own s1 B = ob_own s B" using inv a by (cases rule: copy_data_spec) (auto simp: ob_own_def file_data_def)
  moreover have "cm_own s1 K = cm_own s K" by (simp add: cm_own_def cm_datas_def cm_values_def keep)
  ultimately have own1: "copy = 0 \<or> L1 copy = Some (unat sz) \<and> copy \<notin> ob_own s1 B \<and> copy \<notin> cm_own s1 K" using own by simp
  show ?thesis
  proof (cases "sz \<noteq> 0 \<and> copy = 0")
    case True
    then have "st = STATUS_NO_MEMORY" "s' = s1" using c a by (simp_all add: cm_set_value_def)
    then show ?thesis using inv1 keep(1) by blast
  next
    case ok: False
    then have cp: "copy = 0 \<and> sz = 0 \<and> data = [] \<or> L1 copy = Some (unat sz) \<and> copy \<notin> ob_own s1 B \<and> copy \<notin> cm_own s1 K \<and> cm_data s1 copy = data \<and> copy \<noteq> 0"
      using own1 z keep(4) d by auto
    show ?thesis
    proof (cases "cm_find_value s1 k name")
      case (Some v)
      from set_value_update(1) [OF inv1 k Some cp] set_value_update(2) [OF inv1 k Some cp, of type] obtain p L' where "v \<noteq> 0"
        and fr: "p = pool s1 \<and> cv_Data (cvalues s1 v) = 0 \<or> cv_Data (cvalues s1 v) \<noteq> 0 \<and> ExFreePool (cv_Data (cvalues s1 v)) (pool s1) = Some p"
        and r: "cm_inv (s1\<lparr>pool := p, cvalues := (cvalues s1)(v := (cvalues s1 v)\<lparr>cv_Type := type, cv_Size := sz, cv_Data := copy\<rparr>)\<rparr>) L' B held K"
          "sets_value K k name type sz data s1 (s1\<lparr>pool := p, cvalues := (cvalues s1)(v := (cvalues s1 v)\<lparr>cv_Type := type, cv_Size := sz, cv_Data := copy\<rparr>)\<rparr>)"
        unfolding Let_def by blast
      have "st = STATUS_SUCCESS" "s' = s1\<lparr>pool := p, cvalues := (cvalues s1)(v := (cvalues s1 v)\<lparr>cv_Type := type, cv_Size := sz, cv_Data := copy\<rparr>)\<rparr>"
        using set_value_found [OF a ok Some \<open>v \<noteq> 0\<close> fr, of type] c by simp_all
      then show ?thesis using r sets_value_keeps [OF keep(1) r(2)] by auto
    next
      case None
      then obtain v p where al: "ExAllocatePoolWithTag NonPagedPool 96 0x6C615643 (pool s1) = Some (v, p)"
        using c a ok by (auto simp: cm_set_value_def split: bind_splits if_splits)
      show ?thesis
      proof (cases "v = 0")
        case False
        note r = set_value_insert [where type = type, OF inv1 k None n al False cp]
        show ?thesis using set_value_new [OF a ok None al False, of type] c r(1) sets_value_keeps [OF keep(1) r(2)] by auto
      next
        case True
        have "unat (96 :: u64) \<le> 2 ^ 61" by simp
        with inv1 have i2: "cm_inv (s1\<lparr>pool := p\<rparr>) L1 B held K" using al by (cases rule: cm_alloc) (use True in auto)
        have e: "ob_own (s1\<lparr>pool := p\<rparr>) B = ob_own s1 B" by (rule ob_own_cong) simp_all
        have "\<exists>p' L'. (p' = p \<and> copy = 0 \<or> copy \<noteq> 0 \<and> ExFreePool copy p = Some p') \<and> cm_inv (s1\<lparr>pool := p'\<rparr>) L' B held K"
        proof (cases "copy = 0")
          case F: False
          have "copy \<in> dom L1" "copy \<notin> ob_own (s1\<lparr>pool := p\<rparr>) B" "copy \<notin> cm_own (s1\<lparr>pool := p\<rparr>) K" unfolding e using F own1 by auto
          from cm_free [OF i2 this] obtain p' where "ExFreePool copy p = Some p'" "cm_inv (s1\<lparr>pool := p'\<rparr>) (L1(copy := None)) B held K" by auto
          then show ?thesis using F by blast
        qed (use i2 in blast)
        then obtain p' L' where p': "p' = p \<and> copy = 0 \<or> copy \<noteq> 0 \<and> ExFreePool copy p = Some p'" "cm_inv (s1\<lparr>pool := p'\<rparr>) L' B held K" by blast
        show ?thesis using set_value_no_node [OF a ok None al [unfolded True] p'(1), of type] c p'(2) keep(1) by auto
      qed
    qed
  qed
qed

section \<open>Queries\<close>






section \<open>Properties\<close>

text \<open>(C25) Creating a registry path. With 192 bytes of pool for each component (and 64 to spare) \<^verbatim>\<open>cm_walk\<close> with
  \<^verbatim>\<open>create\<close> returns a key; afterwards opening any spelling of that path, in another case, with other or repeated
  separators, or with longer names cut at 63 characters, gives the same key, every path that was there before
  still resolves to the key it did, and the registry's blocks are still its own.\<close>

theorem registry_walk_roundtrip:
  assumes inv: "cm_inv s L B held K" and cur: "cur \<in> K" and room: "pool_room (pool s) L (64 + 192 * length (path_comps p))"
  shows "\<exists>k s' L' K'. cm_walk cur p True s = Some (k, s') \<and> k \<noteq> 0 \<and> cm_inv s' L' B held K' \<and> K \<subseteq> K' \<and> k \<in> K' \<and>
    (\<forall>q. same_path p q \<longrightarrow> cm_walk cur q False s' = Some (k, s')) \<and>
    (\<forall>c \<in> K. \<forall>q j. cm_walk c q False s = Some (j, s) \<and> j \<noteq> 0 \<longrightarrow> cm_walk c q False s' = Some (j, s'))"
proof -
  obtain k s' where w: "cm_walk cur p True s = Some (k, s')" "k \<noteq> 0" using walk_create_returns [OF room inv cur] by blast
  from walk_create [OF inv cur w(1)] w(2) obtain L' K' where r: "cm_inv s' L' B held K'" "K \<subseteq> K'" "tree_grows K s s'" "k \<in> K'"
    "resolve s' cur (path_comps p) = Some k" by blast
  have "cm_walk cur q False s' = Some (k, s')" if "same_path p q" for q
    using r(5) resolve_ci [of "path_comps p" "path_comps q" s' cur, symmetric] that by (simp add: walk_open same_path_def)
  moreover have "cm_walk c q False s' = Some (j, s')" if c: "c \<in> K" "cm_walk c q False s = Some (j, s)" "j \<noteq> 0" for c q j
  proof -
    have "resolve s c (path_comps q) = Some j" using c(2,3) by (auto simp: walk_open split: option.splits)
    from resolve_grows [OF r(3) cm_inv_subkeys [OF inv] c(1) this] show ?thesis by (simp add: walk_open)
  qed
  ultimately show ?thesis using w r(1,2,4) by blast
qed

text \<open>(C26) Setting a registry value. \<^verbatim>\<open>cm_set_value\<close> either reports \<^verbatim>\<open>STATUS_SUCCESS\<close>, and then the key gives the new type,
  size and bytes for every name that is equal up to case, and every other name of every key what it gave before; or
  it reports \<^verbatim>\<open>STATUS_NO_MEMORY\<close> and no value has changed. In both cases the data blocks stay owned by exactly one
  value: the replaced data is released once and a failed attempt leaks no block.\<close>

theorem registry_set_value_refines:
  assumes "cm_inv s L B held K" and "k \<in> K" and "length name \<le> 63" and "length data = unat sz"
    and "cm_set_value k name type data sz s = Some (st, s')"
  shows "(\<exists>L'. cm_inv s' L' B held K) \<and>
    (st = STATUS_SUCCESS \<and> sets_value K k name type sz data s s' \<or> st = STATUS_NO_MEMORY \<and> keeps_values K s s')"
  by (rule set_value_spec [OF assms])


section \<open>A registry with one key\<close>

lemma pool_room_mono: "pool_room s L k \<Longrightarrow> j \<le> k \<Longrightarrow> pool_room s L j"
  unfolding pool_room_def by fastforce

lemma cm_inv_root: "cm_inv (s\<lparr>g_cm_root := r\<rparr>) L B held K = cm_inv s L B held K"
proof -
  have o: "ob_inv (s\<lparr>g_cm_root := r\<rparr>) L B held = ob_inv s L B held" by (rule ob_inv_cong) simp_all
  have e: "ob_own (s\<lparr>g_cm_root := r\<rparr>) B = ob_own s B" by (rule ob_own_cong) simp_all
  have c: "cm_values (s\<lparr>g_cm_root := r\<rparr>) K = cm_values s K" "cm_datas (s\<lparr>g_cm_root := r\<rparr>) K = cm_datas s K"
    by (simp_all add: cm_values_def cm_datas_def)
  show ?thesis unfolding cm_inv_def cm_blocks_def cm_own_def o e c by simp
qed

lemma demo_registry:
  obtains s :: cm_state and L B held k where "cm_inv s L B held {k}" "pool_room (pool s) L 60000" "g_cm_root s = k"
    "\<forall>i. he_Object (g_handles s i) = 0" "ValueHead (keys s k) = []" "user_page (mm (pool s))"
proof -
  let ?z = "\<lparr>keys = (\<lambda>_. \<lparr>ck_Name = [], ck_Parent = 0, SubkeyHead = [], ValueHead = []\<rparr>),
    cvalues = (\<lambda>_. \<lparr>cv_Name = [], cv_Type = 0, cv_Size = 0, cv_Data = 0\<rparr>), cm_data = (\<lambda>_. []), key_objects = (\<lambda>_. 0),
    g_key_type = 0, g_cm_root = 0, \<dots> = ()\<rparr>"
  obtain s :: cm_state and L B held ob where d: "ob_inv s L B held" "pool_room (pool s) L 65000" "ob_state.more s = ?z"
    "\<forall>i. he_Object (g_handles s i) = 0" "user_page (mm (pool s))" by (rule demo_object [where z = ?z]) blast
  have z: "keys s = keys (demo_ob undefined ?z)" "ValueHead (keys s x) = []" for x using d(3) by (cases s, simp add: demo_ob_def)+
  have e: "cm_values s {} = {}" "cm_datas s {} = {}" "cm_own s {} = {}" by (simp_all add: cm_own_def cm_datas_def cm_values_def)
  have inv: "cm_inv s L B held {}" using d(1) by (simp add: cm_inv_def cm_blocks_def e)
  from pool_room_alloc [OF d(2), of 120 "0x79654B43"] obtain k p where a:
    "ExAllocatePoolWithTag NonPagedPool 120 0x79654B43 (pool s) = Some (k, p)" "k \<noteq> 0" "pool_room p (L(k \<mapsto> 120)) 64808"
    "mm p = mm (pool s)" by (auto simp: need_of_def)
  then obtain s' where c: "cm_alloc_key [] 0 s = Some (k, s')" "s' = s\<lparr>pool := p, keys := keys s'\<rparr>" by (auto simp: cm_alloc_key_def Let_def)
  have i: "cm_inv s' (L(k \<mapsto> 120)) B held {k}" "ValueHead (keys s' k) = []"
    using inv _ c(1) by (cases rule: alloc_key_spec; use a(2) in \<open>simp add: Let_def\<close>)+
  let ?s = "s'\<lparr>g_cm_root := k\<rparr>"
  have "cm_inv ?s (L(k \<mapsto> 120)) B held {k}" using i(1) by (simp only: cm_inv_root)
  moreover have "pool ?s = p" by (subst c(2)) simp
  then have "pool_room (pool ?s) (L(k \<mapsto> 120)) 60000" using pool_room_mono [OF a(3)] by simp
  moreover have "\<forall>i. he_Object (g_handles ?s i) = 0" using d(4) by (subst c(2)) simp
  moreover have "user_page (mm (pool ?s))" using d(5) a(4) \<open>pool ?s = p\<close> by simp
  ultimately show thesis using i(2) that [of ?s] by simp
qed

theorem registry_walk_roundtrip_witness:
  "\<exists>(s :: cm_state) s' k. cm_walk (g_cm_root s) [BACKSLASH, 0x41, SLASH, SLASH, 0x62] True s = Some (k, s') \<and>
     cm_walk (g_cm_root s) [0x61, BACKSLASH, 0x42] False s' = Some (k, s') \<and> k \<noteq> 0"
proof -
  obtain s :: cm_state and L B held k where d: "cm_inv s L B held {k}" "pool_room (pool s) L 60000" "g_cm_root s = k"
    by (rule demo_registry)
  have p: "path_comps [BACKSLASH, 0x41, SLASH, SLASH, 0x62] = [[0x41], [0x62]]" "path_comps [0x61, BACKSLASH, 0x42] = [[0x61], [0x42]]"
    by (simp_all add: path_comps.simps is_sep_def)
  have "pool_room (pool s) L (64 + 192 * length (path_comps [BACKSLASH, 0x41, SLASH, SLASH, 0x62]))"
    using d(2) unfolding p pool_room_def by fastforce
  from registry_walk_roundtrip [OF d(1) _ this] obtain j s' where
    "cm_walk k [BACKSLASH, 0x41, SLASH, SLASH, 0x62] True s = Some (j, s')" "j \<noteq> 0"
    "\<forall>q. same_path [BACKSLASH, 0x41, SLASH, SLASH, 0x62] q \<longrightarrow> cm_walk k q False s' = Some (j, s')" by auto
  moreover have "same_path [BACKSLASH, 0x41, SLASH, SLASH, 0x62] [0x61, BACKSLASH, 0x42]" by (simp add: same_path_def p ci_lower_def)
  ultimately show ?thesis unfolding d(3) [symmetric] by blast
qed

theorem registry_set_value_refines_witness:
  "\<exists>(s :: cm_state) s'. cm_set_value (g_cm_root s) [0x41] REG_DWORD (le32 7) 4 s = Some (STATUS_SUCCESS, s') \<and>
     value_of s' (g_cm_root s) [0x61] = Some (REG_DWORD, 4, le32 7)"
proof -
  obtain s :: cm_state and L B held k where d: "cm_inv s L B held {k}" "pool_room (pool s) L 60000" "g_cm_root s = k"
    "ValueHead (keys s k) = []" by (rule demo_registry)
  from pool_room_alloc [OF d(2), of 4 "0x6C615643"] obtain b p where a:
    "ExAllocatePoolWithTag NonPagedPool 4 0x6C615643 (pool s) = Some (b, p)" "b \<noteq> 0" "pool_room p (L(b \<mapsto> 4)) 59920"
    by (auto simp: need_of_def)
  from pool_room_alloc [OF a(3), of 96 "0x6C615643"] obtain v q where v:
    "ExAllocatePoolWithTag NonPagedPool 96 0x6C615643 p = Some (v, q)" "v \<noteq> 0" by (auto simp: need_of_def)
  have "copy_data (le32 7) 4 s = Some (b, s\<lparr>pool := p, cm_data := (cm_data s)(b := le32 7)\<rparr>)"
    using a(1,2) by (simp add: copy_data_def)
  from set_value_new [OF this _ _ _ v(2), of k "[0x41]" q REG_DWORD] v(1) a(2) d(4) obtain s' where
    c: "cm_set_value k [0x41] REG_DWORD (le32 7) 4 s = Some (STATUS_SUCCESS, s')" by (auto simp: cm_find_value_def)
  from registry_set_value_refines [OF d(1) _ _ _ c] have "sets_value {k} k [0x41] REG_DWORD 4 (le32 7) s s'" by simp
  then show ?thesis using c unfolding d(3) [symmetric] by (intro exI [of _ s] exI [of _ s']) (simp add: sets_value_def ci_lower_def)
qed








end
