(* ===== verification/Rtl_Ring.thy ===== *)
theory Rtl_Ring
  imports Prelude
begin

text \<open>
  The ring buffers of the keyboard driver and of the window-message queues: 64 cells, a head where the producer stores and a tail where the
  consumer takes, one cell kept free. \<open>ring_view\<close> is the list of the elements in between; the lemmas say what storing and taking do to it.
  The locale is the contract a client of such a queue relies on.
\<close>

section \<open>A bounded queue\<close>

locale bounded_queue =
  fixes inv :: "'s \<Rightarrow> bool" and view :: "'s \<Rightarrow> 'c list" and put :: "'c \<Rightarrow> 's \<Rightarrow> 's" and get :: "'s \<Rightarrow> 'c \<times> 's" and cap :: nat
  assumes put_inv: "inv s \<Longrightarrow> inv (put c s)"
    and put_view: "inv s \<Longrightarrow> view (put c s) = (if length (view s) < cap then view s @ [c] else view s)"
    and get_inv: "inv s \<Longrightarrow> inv (snd (get s))"
    and get_view: "inv s \<Longrightarrow> view (snd (get s)) = tl (view s)"
    and get_head: "inv s \<Longrightarrow> view s \<noteq> [] \<Longrightarrow> fst (get s) = hd (view s)"
    and view_cap: "inv s \<Longrightarrow> length (view s) \<le> cap"
begin

text \<open>Neither side loses or reorders anything: what the reader gets and what stays are what was there; a producer's
  element is added at the end or, with the queue full, dropped.\<close>

lemma get_conserves: "inv s \<Longrightarrow> (if view s = [] then [] else [fst (get s)]) @ view (snd (get s)) = view s"
  using get_view [of s] get_head [of s] by (cases "view s") auto

lemma put_conserves: "inv s \<Longrightarrow> view (put c s) = view s @ (if length (view s) = cap then [] else [c])"
  using put_view [of s c] view_cap [of s] by auto

end

section \<open>Rings of 64 cells\<close>

definition ring_count :: "u32 \<Rightarrow> u32 \<Rightarrow> nat" where
  "ring_count h t = (unat h + 64 - unat t) mod 64"

definition ring_view :: "(u32 \<Rightarrow> 'c) \<Rightarrow> u32 \<Rightarrow> u32 \<Rightarrow> 'c list" where
  "ring_view r h t = map (\<lambda>i. r (of_nat ((unat t + i) mod 64))) [0..<ring_count h t]"

lemma unat_mod_64: "unat ((x + 1) mod (64 :: u32)) = (unat x + 1) mod 64" if "x < 64"
proof -
  have "unat (x + 1) = unat x + 1" using that by (subst unat_word_ariths(1)) (simp add: word_less_nat_alt)
  then show ?thesis by (simp add: unat_mod)
qed

text \<open>Arithmetic modulo the size of the ring, without the modulus.\<close>

lemma ring_arith:
  fixes h t i :: nat
  assumes "h < 64" "t < 64"
  shows "(h + 64 - t) mod 64 = (if t \<le> h then h - t else h + 64 - t)" "(h + 1) mod 64 = (if h = 63 then 0 else h + 1)"
    "i < 64 \<Longrightarrow> (t + i) mod 64 = (if t + i < 64 then t + i else t + i - 64)"
proof -
  show "(h + 64 - t) mod 64 = (if t \<le> h then h - t else h + 64 - t)"
  proof (cases "t \<le> h")
    case True
    then have "h + 64 - t = (h - t) + 64" by simp
    then show ?thesis using True assms by (simp only: mod_add_self2) simp
  qed (use assms in simp)
  show "(h + 1) mod 64 = (if h = 63 then 0 else h + 1)" using assms by auto
  show "(t + i) mod 64 = (if t + i < 64 then t + i else t + i - 64)" if "i < 64"
    using assms that le_mod_geq [of 64 "t + i"] by auto
qed

lemma ring_index: "n < 64 \<Longrightarrow> unat (of_nat n :: u32) = n"
  by (intro unat_of_nat_id) simp

lemma ring_count_less: "ring_count h t < 64"
  by (simp add: ring_count_def)

lemma ring_length [simp]: "length (ring_view r h t) = ring_count h t"
  by (simp add: ring_view_def)

lemma ring_next_less: "(x :: u32) < 64 \<Longrightarrow> (x + 1) mod 64 < 64"
  using unat_mod_64 [of x] by (simp add: word_less_nat_alt)

lemma ring_full:
  assumes "h < 64" "t < 64"
  shows "(h + 1) mod 64 = t \<longleftrightarrow> ring_count h t = 63"
proof -
  have l: "unat h < 64" "unat t < 64" using assms by (simp_all add: word_less_nat_alt)
  have "(h + 1) mod 64 = t \<longleftrightarrow> (unat h + 1) mod 64 = unat t" using unat_mod_64 [OF assms(1)] by (metis unsigned_word_eqI)
  then show ?thesis unfolding ring_count_def ring_arith [OF l] using l by auto
qed

lemma ring_view_empty:
  assumes "h < 64" "t < 64"
  shows "ring_view r h t = [] \<longleftrightarrow> h = t"
proof -
  have l: "unat h < 64" "unat t < 64" using assms by (simp_all add: word_less_nat_alt)
  have "ring_count h t = 0 \<longleftrightarrow> unat h = unat t" unfolding ring_count_def ring_arith(1) [OF l] using l by auto
  then show ?thesis by (auto simp: ring_view_def dest: unsigned_word_eqI)
qed

lemma ring_put:
  assumes "h < 64" "t < 64" "(h + 1) mod 64 \<noteq> t"
  shows "ring_view (r(h := c)) ((h + 1) mod 64) t = ring_view r h t @ [c]"
proof -
  have l: "unat h < 64" "unat t < 64" using assms by (simp_all add: word_less_nat_alt)
  have nx: "unat ((h + 1) mod 64) = (unat h + 1) mod 64" by (rule unat_mod_64 [OF assms(1)])
  then have ne: "(unat h + 1) mod 64 \<noteq> unat t" using assms(3) by (metis unsigned_word_eqI)
  note cnt = ring_count_def [of h t] and less = ring_count_less [of h t]
  have "((unat h + 1) mod 64 + 64 - unat t) mod 64 = Suc ((unat h + 64 - unat t) mod 64)"
    using ne l ring_arith(1) [of "(unat h + 1) mod 64" "unat t"] unfolding ring_arith [OF l] by (auto split: if_splits)
  then have cn: "ring_count ((h + 1) mod 64) t = Suc (ring_count h t)" unfolding ring_count_def nx .
  have old: "of_nat ((unat t + i) mod 64) \<noteq> h" if "i < ring_count h t" for i
  proof
    assume "of_nat ((unat t + i) mod 64) = h"
    then have "(unat t + i) mod 64 = unat h" using ring_index [of "(unat t + i) mod 64"] by simp
    moreover have "i < 64" using that less by simp
    ultimately show False using that l ring_arith(3) [OF l] unfolding cnt ring_arith(1) [OF l] by (auto split: if_splits)
  qed
  have "(unat t + ring_count h t) mod 64 = unat h"
    using l ring_arith(3) [OF l less] unfolding cnt ring_arith(1) [OF l] by (auto split: if_splits)
  then have new: "of_nat ((unat t + ring_count h t) mod 64) = h" by simp
  show ?thesis using old new unfolding ring_view_def cn by auto
qed

lemma ring_get:
  assumes "h < 64" "t < 64" "h \<noteq> t"
  shows "ring_view r h t = r t # ring_view r h ((t + 1) mod 64)"
proof -
  have l: "unat h < 64" "unat t < 64" using assms by (simp_all add: word_less_nat_alt)
  have nx: "unat ((t + 1) mod 64) = (unat t + 1) mod 64" by (rule unat_mod_64 [OF assms(2)])
  have ne: "unat h \<noteq> unat t" using assms(3) by (auto dest: unsigned_word_eqI)
  have nz: "ring_count h t \<noteq> 0" using ring_view_empty [OF assms(1,2)] assms(3) ring_length [of undefined h t] by (metis length_0_conv)
  have "(unat h + 64 - (unat t + 1) mod 64) mod 64 = (unat h + 64 - unat t) mod 64 - 1"
    using ne l ring_arith(1) [of "unat h" "(unat t + 1) mod 64"] ring_arith(2) [OF l(2) l(2)] unfolding ring_arith(1) [OF l] by (auto split: if_splits)
  then have "ring_count h ((t + 1) mod 64) = ring_count h t - 1" unfolding ring_count_def nx .
  with nz obtain n where n: "ring_count h t = Suc n" "ring_count h ((t + 1) mod 64) = n" using not0_implies_Suc by fastforce
  have m: "((unat t + 1) mod 64 + i) mod 64 = (unat t + Suc i) mod 64" for i by (simp only: mod_add_left_eq) simp
  have z: "of_nat ((unat t + 0) mod 64) = t" using l by simp
  show ?thesis unfolding ring_view_def n map_upt_Suc nx by (simp only: m z)
qed

end
