(* ===== verification/Hal_Input.thy ===== *)
theory Hal_Input
  imports Rtl_Ring
begin

text \<open>
  The input drivers, \<^verbatim>\<open>kernel/hal/keyboard.c\<close> and \<^verbatim>\<open>kernel/hal/mouse.c\<close>. An interrupt handler takes the byte that it reads
  from the data port of the PS/2 controller as an argument. The ring of typed characters and the packet under assembly are
  kept as the code keeps them; \<open>kbd_queue\<close> is the ring's contents as a list.

  The ring is a bounded queue of 63 characters. The locale \<open>bounded_queue\<close> of \<open>Rtl_Ring\<close> states what its producer, the interrupt, and
  its consumer, the reader, rely on; what can be said of every interleaving of the two is proved there once.
\<close>

section \<open>Keyboard\<close>

definition kbd_map :: "u8 list" where
  "kbd_map = [0, 27] @ map of_char ''1234567890-='' @ [8] @
     [9] @ map of_char ''qwertyuiop[]'' @ [10] @
     [0] @ map of_char ''asdfghjkl;'' @ [0x27] @ map of_char ''`'' @
     [0, 0x5C] @ map of_char ''zxcvbnm,./'' @
     [0, 0x2A, 0, 0x20] @ replicate 70 0"

definition kbd_map_shift :: "u8 list" where
  "kbd_map_shift = [0, 27] @ map of_char ''!@#$%^&*()_+'' @ [8] @
     [9] @ map of_char ''QWERTYUIOP{}'' @ [10] @
     [0] @ map of_char ''ASDFGHJKL:'' @ [0x22] @ map of_char ''~'' @
     [0, 0x7C] @ map of_char ''ZXCVBNM<>?'' @
     [0, 0x2A, 0, 0x20] @ replicate 70 0"

abbreviation "KBD_RING \<equiv> (64 :: u32)"

record kbd_state =
  kbd_ring :: "u32 \<Rightarrow> u8"
  kbd_head :: u32
  kbd_tail :: u32
  kbd_shift :: bool
  kbd_caps :: bool

definition kbd_push :: "u8 \<Rightarrow> kbd_state \<Rightarrow> kbd_state" where
  "kbd_push c s =
     (let nxt = (kbd_head s + 1) mod KBD_RING
      in if nxt \<noteq> kbd_tail s then s\<lparr>kbd_ring := (kbd_ring s)(kbd_head s := c), kbd_head := nxt\<rparr> else s)"

text \<open>The character of a make code under the present modifiers, after the caps lock adjustment.\<close>

definition kbd_char :: "kbd_state \<Rightarrow> u8 \<Rightarrow> u8" where
  "kbd_char s code =
     (let c = (if kbd_shift s then kbd_map_shift ! unat code else kbd_map ! unat code)
      in if kbd_caps s \<and> 0x61 \<le> c \<and> c \<le> 0x7A then c - 0x61 + 0x41
         else if kbd_caps s \<and> 0x41 \<le> c \<and> c \<le> 0x5A \<and> \<not> kbd_shift s then c - 0x41 + 0x61
         else c)"

definition kbd_irq :: "u8 \<Rightarrow> kbd_state \<Rightarrow> kbd_state" where
  "kbd_irq sc s =
     (if sc = 0xE0 then s
      else
        (let release = sc AND 0x80 \<noteq> 0; code = sc AND 0x7F
         in if code = 0x2A \<or> code = 0x36 then s\<lparr>kbd_shift := \<not> release\<rparr>
            else if release then s
            else if code = 0x3A then s\<lparr>kbd_caps := \<not> kbd_caps s\<rparr>
            else if (if kbd_shift s then kbd_map_shift ! unat code else kbd_map ! unat code) = 0 then s
            else kbd_push (kbd_char s code) s))"

definition KbdDataAvailable :: "kbd_state \<Rightarrow> bool" where
  "KbdDataAvailable s \<longleftrightarrow> kbd_head s \<noteq> kbd_tail s"

definition KbdReadChar :: "kbd_state \<Rightarrow> u8 \<times> kbd_state" where
  "KbdReadChar s =
     (if kbd_head s = kbd_tail s then (0, s)
      else (kbd_ring s (kbd_tail s), s\<lparr>kbd_tail := (kbd_tail s + 1) mod KBD_RING\<rparr>))"

section \<open>Mouse\<close>

record MOUSE_STATE =
  ms_X :: u32
  ms_Y :: u32
  ms_Buttons :: u8
  ms_Seq :: u32

record mouse_state =
  MouseState :: MOUSE_STATE
  mouse_max_x :: u32
  mouse_max_y :: u32
  pkt :: "nat \<Rightarrow> u8"
  pkt_index :: nat

text \<open>\<^verbatim>\<open>v / 2\<close> on \<^verbatim>\<open>INT32\<close>, which rounds towards zero.\<close>

definition half :: "u32 \<Rightarrow> u32" where
  "half v = word_of_int (if sint v < 0 then - (- sint v div 2) else sint v div 2)"

definition HalMouseSetBounds :: "u32 \<Rightarrow> u32 \<Rightarrow> mouse_state \<Rightarrow> mouse_state" where
  "HalMouseSetBounds width height s =
     s\<lparr>mouse_max_x := width - 1, mouse_max_y := height - 1,
       MouseState := (MouseState s)\<lparr>ms_X := half width, ms_Y := half height,
         ms_Seq := ms_Seq (MouseState s) + 1\<rparr>\<rparr>"

definition clamp :: "u32 \<Rightarrow> u32 \<Rightarrow> u32" where
  "clamp v mx = (let v1 = (if sint v < 0 then 0 else v) in if sint mx < sint v1 then mx else v1)"

definition mouse_irq :: "u8 \<Rightarrow> mouse_state \<Rightarrow> mouse_state" where
  "mouse_irq byte s =
     (if pkt_index s = 0 \<and> byte AND 8 = 0 then s
      else
        (let s1 = s\<lparr>pkt := (pkt s)(pkt_index s := byte), pkt_index := pkt_index s + 1\<rparr>
         in if pkt_index s1 < 3 then s1
            else
              (let s2 = s1\<lparr>pkt_index := 0\<rparr>; flags = pkt s2 0
               in if flags AND 0xC0 \<noteq> 0 then s2
                  else
                    (let dx = ucast (pkt s2 1) - (if flags AND 0x10 \<noteq> 0 then 256 else 0);
                         dy = ucast (pkt s2 2) - (if flags AND 0x20 \<noteq> 0 then 256 else 0);
                         x = ms_X (MouseState s2) + dx;
                         y = ms_Y (MouseState s2) - dy
                     in s2\<lparr>MouseState := \<lparr>ms_X = clamp x (mouse_max_x s2), ms_Y = clamp y (mouse_max_y s2),
                              ms_Buttons = flags AND 7, ms_Seq = ms_Seq (MouseState s2) + 1\<rparr>\<rparr>))))"

section \<open>The ring is a bounded queue\<close>

definition kbd_inv :: "kbd_state \<Rightarrow> bool" where
  "kbd_inv s \<longleftrightarrow> kbd_head s < KBD_RING \<and> kbd_tail s < KBD_RING"

definition kbd_queue :: "kbd_state \<Rightarrow> u8 list" where
  "kbd_queue s = ring_view (kbd_ring s) (kbd_head s) (kbd_tail s)"

lemma push_view:
  assumes "kbd_inv s"
  shows "kbd_inv (kbd_push c s)" "kbd_queue (kbd_push c s) = (if length (kbd_queue s) < 63 then kbd_queue s @ [c] else kbd_queue s)"
  using assms ring_next_less [of "kbd_head s"] ring_put [of "kbd_head s" "kbd_tail s" "kbd_ring s" c] ring_full [of "kbd_head s" "kbd_tail s"]
    ring_count_less [of "kbd_head s" "kbd_tail s"]
  by (auto simp: kbd_inv_def kbd_push_def kbd_queue_def Let_def)

lemma read_view:
  assumes "kbd_inv s"
  shows "kbd_inv (snd (KbdReadChar s))" "kbd_queue (snd (KbdReadChar s)) = tl (kbd_queue s)"
    "kbd_queue s \<noteq> [] \<Longrightarrow> fst (KbdReadChar s) = hd (kbd_queue s)"
    "kbd_queue s = [] \<longleftrightarrow> kbd_head s = kbd_tail s"
  using assms ring_next_less [of "kbd_tail s"] ring_get [of "kbd_head s" "kbd_tail s" "kbd_ring s"]
    ring_view_empty [of "kbd_head s" "kbd_tail s" "kbd_ring s"]
  by (auto simp: kbd_inv_def KbdReadChar_def kbd_queue_def)

interpretation kbd: bounded_queue kbd_inv kbd_queue kbd_push KbdReadChar 63
  by unfold_locales (auto simp: push_view read_view, auto simp: kbd_queue_def less_Suc_eq_le [symmetric] ring_count_less)

section \<open>Interrupts and readers\<close>

datatype kbd_event = Irq u8 | Read

text \<open>The character that a scan code types, if it types one. The code returns at the prefix \<^verbatim>\<open>0xE0\<close> of an extended key and keeps no
  note of it, so the byte after the prefix is taken as the key it is on its own: the sequence E0 1C of the keypad's Enter types a
  newline, and E0 2A is a shift key going down. The comment in \<^verbatim>\<open>kbd_irq\<close> says that the byte after the prefix is ignored; the model follows the code.\<close>

definition typed :: "kbd_state \<Rightarrow> u8 \<Rightarrow> u8 list" where
  "typed s sc =
     (let code = sc AND 0x7F
      in if sc = 0xE0 \<or> sc AND 0x80 \<noteq> 0 \<or> code \<in> {0x2A, 0x36, 0x3A} \<or> (if kbd_shift s then kbd_map_shift ! unat code else kbd_map ! unat code) = 0
         then [] else [kbd_char s code])"

fun kbd_run :: "kbd_event list \<Rightarrow> kbd_state \<Rightarrow> kbd_state" where
  "kbd_run [] s = s"
| "kbd_run (Irq sc # es) s = kbd_run es (kbd_irq sc s)"
| "kbd_run (Read # es) s = kbd_run es (snd (KbdReadChar s))"

text \<open>The characters accepted in a run, those typed while fewer than 63 wait, and the characters delivered by it.\<close>

fun accepted :: "kbd_event list \<Rightarrow> kbd_state \<Rightarrow> u8 list" where
  "accepted [] s = []"
| "accepted (Irq sc # es) s = (if length (kbd_queue s) = 63 then [] else typed s sc) @ accepted es (kbd_irq sc s)"
| "accepted (Read # es) s = accepted es (snd (KbdReadChar s))"

fun delivered :: "kbd_event list \<Rightarrow> kbd_state \<Rightarrow> u8 list" where
  "delivered [] s = []"
| "delivered (Irq sc # es) s = delivered es (kbd_irq sc s)"
| "delivered (Read # es) s = (if KbdDataAvailable s then [fst (KbdReadChar s)] else []) @ delivered es (snd (KbdReadChar s))"

text \<open>A prefix changes nothing, so the next byte is handled as if it had not been there.\<close>

lemma prefix_forgotten: "kbd_irq 0xE0 s = s"
  by (simp add: kbd_irq_def)

lemma extended_enter_types: "kbd_shift s = False \<Longrightarrow> kbd_caps s = False \<Longrightarrow> typed (kbd_irq 0xE0 s) 0x1C = [0x0A]"
  by (simp add: prefix_forgotten typed_def kbd_char_def kbd_map_def Let_def)

lemma irq_typed:
  "typed s sc = [] \<Longrightarrow> \<exists>sh cp. kbd_irq sc s = s\<lparr>kbd_shift := sh, kbd_caps := cp\<rparr>"
  "typed s sc = [c] \<Longrightarrow> kbd_irq sc s = kbd_push c s"
  "length (typed s sc) \<le> 1"
proof -
  show "typed s sc = [c] \<Longrightarrow> kbd_irq sc s = kbd_push c s" "length (typed s sc) \<le> 1"
    by (auto simp: typed_def kbd_irq_def Let_def split: if_splits)
  have same: "\<exists>sh cp. s = s\<lparr>kbd_shift := sh, kbd_caps := cp\<rparr>" by (intro exI [of _ "kbd_shift s"] exI [of _ "kbd_caps s"]) simp
  have one: "\<exists>sh cp. s\<lparr>kbd_shift := b\<rparr> = s\<lparr>kbd_shift := sh, kbd_caps := cp\<rparr>" "\<exists>sh cp. s\<lparr>kbd_caps := b\<rparr> = s\<lparr>kbd_shift := sh, kbd_caps := cp\<rparr>" for b
    by (rule exI [of _ b], rule exI [of _ "kbd_caps s"], simp) (rule exI [of _ "kbd_shift s"], rule exI [of _ b], simp)
  show "typed s sc = [] \<Longrightarrow> \<exists>sh cp. kbd_irq sc s = s\<lparr>kbd_shift := sh, kbd_caps := cp\<rparr>"
    unfolding kbd_irq_def typed_def Let_def using same one by (simp split: if_splits) blast+
qed

lemma irq_view:
  assumes "kbd_inv s"
  shows "kbd_inv (kbd_irq sc s)" "kbd_queue (kbd_irq sc s) = kbd_queue s @ (if length (kbd_queue s) = 63 then [] else typed s sc)"
proof -
  show "kbd_inv (kbd_irq sc s)" "kbd_queue (kbd_irq sc s) = kbd_queue s @ (if length (kbd_queue s) = 63 then [] else typed s sc)"
  proof (atomize (full), cases "typed s sc")
    case Nil
    from irq_typed(1) [OF Nil] obtain sh cp where "kbd_irq sc s = s\<lparr>kbd_shift := sh, kbd_caps := cp\<rparr>" by blast
    then show "kbd_inv (kbd_irq sc s) \<and> kbd_queue (kbd_irq sc s) = kbd_queue s @ (if length (kbd_queue s) = 63 then [] else typed s sc)"
      using assms Nil by (simp add: kbd_inv_def kbd_queue_def ring_view_def ring_count_def)
  next
    case (Cons c cs)
    then have c: "typed s sc = [c]" using irq_typed(3) [of s sc] by simp
    show "kbd_inv (kbd_irq sc s) \<and> kbd_queue (kbd_irq sc s) = kbd_queue s @ (if length (kbd_queue s) = 63 then [] else typed s sc)"
      using kbd.put_inv [OF assms] kbd.put_conserves [OF assms] by (simp add: irq_typed(2) [OF c] c)
  qed
qed

section \<open>Properties\<close>

text \<open>(C30) The keyboard loses and reorders nothing that it accepts. In every interleaving of interrupts and readers, started
  with the ring's indices in range, the characters delivered followed by those still waiting are the characters that
  waited at the start followed by those accepted, in order; a typed character is dropped only when 63 are waiting.
  A byte after the prefix \<^verbatim>\<open>0xE0\<close> is a typed key like any other here, as in the code and against its comment (\<open>prefix_forgotten\<close>).\<close>

theorem keyboard_fifo:
  assumes "kbd_inv s"
  shows "kbd_inv (kbd_run es s) \<and> length (kbd_queue (kbd_run es s)) \<le> 63 \<and>
    delivered es s @ kbd_queue (kbd_run es s) = kbd_queue s @ accepted es s"
  using assms
proof (induction es s rule: kbd_run.induct)
  case (1 s)
  then show ?case using kbd.view_cap [of s] by simp
next
  case (2 sc es s)
  then show ?case using irq_view [OF 2(2), of sc] by (simp split: if_splits)
next
  case (3 es s)
  have "KbdDataAvailable s \<longleftrightarrow> kbd_queue s \<noteq> []" using read_view(4) [OF 3(2)] by (simp add: KbdDataAvailable_def)
  then show ?case using 3 kbd.get_inv [OF 3(2)] kbd.get_conserves [OF 3(2)] by (auto split: if_splits)
qed

theorem keyboard_fifo_witness:
  "let s = \<lparr>kbd_ring = (\<lambda>_. 0), kbd_head = 63, kbd_tail = 63, kbd_shift = False, kbd_caps = False\<rparr>; es = [Irq 0x2A, Irq 0x1E, Irq 0xAA, Irq 0x1E, Read]
   in delivered es s = [0x41] \<and> kbd_queue (kbd_run es s) = [0x61]"
proof -
  let ?s = "\<lparr>kbd_ring = (\<lambda>_. 0), kbd_head = 63, kbd_tail = 63, kbd_shift = False, kbd_caps = False\<rparr>"
  let ?es = "[Irq 0x2A, Irq 0x1E, Irq 0xAA, Irq 0x1E, Read]"
  have "delivered ?es ?s @ kbd_queue (kbd_run ?es ?s) = kbd_queue ?s @ accepted ?es ?s"
    using keyboard_fifo [of ?s ?es] by (simp add: kbd_inv_def)
  moreover have "accepted ?es ?s = [0x41, 0x61]" "kbd_queue ?s = []" "length (delivered ?es ?s) = 1"
    by (simp_all add: kbd_irq_def typed_def kbd_char_def kbd_map_def kbd_map_shift_def kbd_push_def kbd_queue_def ring_view_def ring_count_def Let_def
          KbdReadChar_def KbdDataAvailable_def upt_rec)
  ultimately show ?thesis by (cases "delivered ?es ?s") (auto simp: Let_def)
qed

section \<open>The pointer stays on the screen\<close>

definition mouse_inv :: "mouse_state \<Rightarrow> bool" where
  "mouse_inv s \<longleftrightarrow> pkt_index s < 3 \<and> 0 \<le> sint (mouse_max_x s) \<and> 0 \<le> sint (mouse_max_y s) \<and>
     0 \<le> sint (ms_X (MouseState s)) \<and> sint (ms_X (MouseState s)) \<le> sint (mouse_max_x s) \<and>
     0 \<le> sint (ms_Y (MouseState s)) \<and> sint (ms_Y (MouseState s)) \<le> sint (mouse_max_y s)"

lemma clamp_range: "0 \<le> sint mx \<Longrightarrow> 0 \<le> sint (clamp v mx) \<and> sint (clamp v mx) \<le> sint mx"
  by (simp add: clamp_def Let_def)

lemma mouse_irq_inv: "mouse_inv s \<Longrightarrow> mouse_inv (mouse_irq b s)"
  using clamp_range by (auto simp: mouse_inv_def mouse_irq_def Let_def)

end
