(* ===== verification/Hal_Vga.thy ===== *)
theory Hal_Vga
  imports Prelude
begin

text \<open>
  The VGA text console, \<^verbatim>\<open>kernel/hal/vga.c\<close>. Video memory is a function from the index of a cell to its 16-bit word, total so that
  a write outside the 80 by 25 screen would show; \<open>crtc\<close> is the list of the bytes sent to the CRT controller's index and
  data ports, last first. \<^verbatim>\<open>g_vga\<close> is the virtual address of the frame buffer, 0 before initialization, and \<^verbatim>\<open>MmPhysToVirt\<close> adds
  the direct-map base. Rows and columns are C \<^verbatim>\<open>int\<close>s.

  \<open>vga_inv\<close> says that the cursor is on the screen. The property is that output never leaves video memory, and what a
  line of text leaves on the screen.
\<close>

abbreviation "VGA_WIDTH \<equiv> (80 :: int)"
abbreviation "VGA_HEIGHT \<equiv> (25 :: int)"
abbreviation "VGA_PHYS \<equiv> (0xB8000 :: u64)"
abbreviation "CRTC_INDEX \<equiv> (0x3D4 :: u16)"
abbreviation "CRTC_DATA \<equiv> (0x3D5 :: u16)"

record vga_state =
  cells :: "int \<Rightarrow> u16"
  crtc :: "(u16 \<times> u8) list"
  g_vga :: u64
  g_attr :: u8
  g_row :: int
  g_col :: int

definition vga_cell :: "u8 \<Rightarrow> u8 \<Rightarrow> u16" where
  "vga_cell c attr = ucast c OR push_bit 8 (ucast attr)"

definition outbyte :: "u16 \<Rightarrow> u8 \<Rightarrow> vga_state \<Rightarrow> vga_state" where
  "outbyte port v s = s\<lparr>crtc := (port, v) # crtc s\<rparr>"

definition vga_update_cursor :: "vga_state \<Rightarrow> vga_state" where
  "vga_update_cursor s =
     (let pos = (word_of_int (g_row s * VGA_WIDTH + g_col s) :: u16)
      in outbyte CRTC_DATA (ucast (drop_bit 8 pos AND 0xFF)) (outbyte CRTC_INDEX 0x0E
           (outbyte CRTC_DATA (ucast (pos AND 0xFF)) (outbyte CRTC_INDEX 0x0F s))))"

definition HalVgaSetColor :: "u8 \<Rightarrow> vga_state \<Rightarrow> vga_state" where
  "HalVgaSetColor attribute s = s\<lparr>g_attr := attribute\<rparr>"

definition set_cell :: "int \<Rightarrow> u16 \<Rightarrow> vga_state \<Rightarrow> vga_state" where
  "set_cell i w s = s\<lparr>cells := (cells s)(i := w)\<rparr>"

definition HalVgaClear :: "vga_state \<Rightarrow> vga_state" where
  "HalVgaClear s =
     (let s1 = fold (\<lambda>i t. set_cell i (vga_cell 0x20 (g_attr t)) t) [0..VGA_WIDTH * VGA_HEIGHT - 1] s
      in vga_update_cursor (s1\<lparr>g_row := 0, g_col := 0\<rparr>))"

definition HalInitializeVga :: "u64 \<Rightarrow> vga_state \<Rightarrow> vga_state" where
  "HalInitializeVga direct_map s = HalVgaClear (s\<lparr>g_vga := VGA_PHYS + direct_map, g_attr := 0x07\<rparr>)"

definition HalVgaRelocate :: "u64 \<Rightarrow> vga_state \<Rightarrow> vga_state" where
  "HalVgaRelocate direct_map s = s\<lparr>g_vga := VGA_PHYS + direct_map\<rparr>"

definition vga_scroll :: "vga_state \<Rightarrow> vga_state" where
  "vga_scroll s =
     (let s1 = fold (\<lambda>r t. fold (\<lambda>c t. set_cell ((r - 1) * VGA_WIDTH + c) (cells t (r * VGA_WIDTH + c)) t) [0..VGA_WIDTH - 1] t)
                 [1..VGA_HEIGHT - 1] s;
          s2 = fold (\<lambda>c t. set_cell ((VGA_HEIGHT - 1) * VGA_WIDTH + c) (vga_cell 0x20 (g_attr t)) t) [0..VGA_WIDTH - 1] s1
      in s2\<lparr>g_row := VGA_HEIGHT - 1\<rparr>)"

definition HalVgaPutChar :: "u8 \<Rightarrow> vga_state \<Rightarrow> vga_state" where
  "HalVgaPutChar c s =
     (if g_vga s = 0 then s
      else
        (let s1 = (if c = 0x0A then s\<lparr>g_col := 0, g_row := g_row s + 1\<rparr>
                   else if c = 0x0D then s\<lparr>g_col := 0\<rparr>
                   else if c = 0x09 then s\<lparr>g_col := (g_col s + 8) AND NOT 7\<rparr>
                   else if c = 0x08 then (if g_col s > 0 then s\<lparr>g_col := g_col s - 1\<rparr> else s)
                   else (set_cell (g_row s * VGA_WIDTH + g_col s) (vga_cell c (g_attr s)) s)\<lparr>g_col := g_col s + 1\<rparr>);
             s2 = (if g_col s1 \<ge> VGA_WIDTH then s1\<lparr>g_col := 0, g_row := g_row s1 + 1\<rparr> else s1);
             s3 = (if g_row s2 \<ge> VGA_HEIGHT then vga_scroll s2 else s2)
         in vga_update_cursor s3))"

section \<open>Scrolling\<close>

lemma set_cell_simps [simp]:
  "cells (set_cell i w s) = (cells s)(i := w)" "g_attr (set_cell i w s) = g_attr s" "g_row (set_cell i w s) = g_row s"
  "g_col (set_cell i w s) = g_col s" "g_vga (set_cell i w s) = g_vga s" "crtc (set_cell i w s) = crtc s"
  by (simp_all add: set_cell_def)

lemma update_cursor_simps [simp]:
  "cells (vga_update_cursor s) = cells s" "g_attr (vga_update_cursor s) = g_attr s" "g_row (vga_update_cursor s) = g_row s"
  "g_col (vga_update_cursor s) = g_col s" "g_vga (vga_update_cursor s) = g_vga s"
  by (simp_all add: vga_update_cursor_def outbyte_def Let_def)

definition same_control :: "vga_state \<Rightarrow> vga_state \<Rightarrow> bool" where
  "same_control s t \<longleftrightarrow> g_attr t = g_attr s \<and> g_row t = g_row s \<and> g_col t = g_col s \<and> g_vga t = g_vga s"

lemma upto_snoc: "[1..int (Suc n)] = [1..int n] @ [int (Suc n)]" "[0..int (Suc n) - 1] = [0..int n - 1] @ [int n]"
  by (simp_all add: upto_rec2)

lemma copy_row:
  "n \<le> 80 \<Longrightarrow> let t = fold (\<lambda>c t. set_cell ((r - 1) * 80 + c) (cells t (r * 80 + c)) t) [0..int n - 1] s
    in same_control s t \<and> (\<forall>i. cells t i = (if (r - 1) * 80 \<le> i \<and> i < (r - 1) * 80 + int n then cells s (i + 80) else cells s i))"
proof (induction n)
  case (Suc n)
  then show ?case unfolding upto_snoc fold_append by (auto simp: Let_def same_control_def algebra_simps)
qed (auto simp: same_control_def)

lemma copy_rows:
  "let t = fold (\<lambda>r t. fold (\<lambda>c t. set_cell ((r - 1) * 80 + c) (cells t (r * 80 + c)) t) [0..VGA_WIDTH - 1] t) [1..int m] s
    in same_control s t \<and> (\<forall>i. cells t i = (if 0 \<le> i \<and> i < int m * 80 then cells s (i + 80) else cells s i))"
proof (induction m)
  case (Suc m)
  let ?f = "\<lambda>r t. fold (\<lambda>c t. set_cell ((r - 1) * 80 + c) (cells t (r * 80 + c)) t) [0..VGA_WIDTH - 1] t"
  define t where "t = fold ?f [1..int m] s"
  have t: "same_control s t" "\<And>i. cells t i = (if 0 \<le> i \<and> i < int m * 80 then cells s (i + 80) else cells s i)"
    using Suc by (simp_all add: t_def Let_def)
  have e: "fold ?f [1..int (Suc m)] s = ?f (int (Suc m)) t" unfolding upto_snoc fold_append by (simp add: t_def)
  from copy_row [of 80 "int (Suc m)" t] have u: "same_control t (?f (int (Suc m)) t)"
    "\<And>i. cells (?f (int (Suc m)) t) i = (if int m * 80 \<le> i \<and> i < int m * 80 + 80 then cells t (i + 80) else cells t i)"
    by (simp_all add: Let_def)
  show ?case unfolding e Let_def
  proof (intro conjI allI)
    show "same_control s (?f (int (Suc m)) t)" using t(1) u(1) by (simp add: same_control_def)
    show "cells (?f (int (Suc m)) t) i = (if 0 \<le> i \<and> i < int (Suc m) * 80 then cells s (i + 80) else cells s i)" for i
      unfolding u(2) t(2) by auto
  qed
qed (auto simp: same_control_def)

lemma blank_row:
  "let t = fold (\<lambda>c t. set_cell (k + c) (vga_cell 0x20 (g_attr t)) t) [0..int n - 1] s
    in same_control s t \<and> (\<forall>i. cells t i = (if k \<le> i \<and> i < k + int n then vga_cell 0x20 (g_attr s) else cells s i))"
proof (induction n)
  case (Suc n)
  then show ?case unfolding upto_snoc fold_append by (auto simp: Let_def same_control_def)
qed (auto simp: same_control_def)

lemma scroll:
  "cells (vga_scroll s) i =
     (if 0 \<le> i \<and> i < 1920 then cells s (i + 80) else if 1920 \<le> i \<and> i < 2000 then vga_cell 0x20 (g_attr s) else cells s i)"
  "g_row (vga_scroll s) = 24" "g_col (vga_scroll s) = g_col s" "g_vga (vga_scroll s) = g_vga s" "g_attr (vga_scroll s) = g_attr s"
proof -
  let ?f = "\<lambda>r t. fold (\<lambda>c t. set_cell ((r - 1) * 80 + c) (cells t (r * 80 + c)) t) [0..VGA_WIDTH - 1] t"
  define t where "t = fold ?f [1..VGA_HEIGHT - 1] s"
  define u where "u = fold (\<lambda>c t. set_cell ((VGA_HEIGHT - 1) * VGA_WIDTH + c) (vga_cell 0x20 (g_attr t)) t) [0..VGA_WIDTH - 1] t"
  have v: "vga_scroll s = u\<lparr>g_row := 24\<rparr>" by (simp add: vga_scroll_def u_def t_def Let_def)
  from copy_rows [where m = 24 and s = s] have t: "same_control s t" "\<And>i. cells t i = (if 0 \<le> i \<and> i < 1920 then cells s (i + 80) else cells s i)"
    by (simp_all add: t_def Let_def)
  from blank_row [of 1920 80 t] have u: "same_control t u" "\<And>i. cells u i = (if 1920 \<le> i \<and> i < 2000 then vga_cell 0x20 (g_attr t) else cells t i)"
    by (simp_all add: u_def Let_def)
  show "cells (vga_scroll s) i =
     (if 0 \<le> i \<and> i < 1920 then cells s (i + 80) else if 1920 \<le> i \<and> i < 2000 then vga_cell 0x20 (g_attr s) else cells s i)"
    using t(1) by (simp add: v u(2) t(2) same_control_def)
  show "g_row (vga_scroll s) = 24" "g_col (vga_scroll s) = g_col s" "g_vga (vga_scroll s) = g_vga s" "g_attr (vga_scroll s) = g_attr s"
    using t(1) u(1) by (simp_all add: v same_control_def)
qed

section \<open>The cursor\<close>

definition vga_inv :: "vga_state \<Rightarrow> bool" where
  "vga_inv s \<longleftrightarrow> 0 \<le> g_row s \<and> g_row s < 25 \<and> 0 \<le> g_col s \<and> g_col s < 80"

definition outside_same :: "vga_state \<Rightarrow> vga_state \<Rightarrow> bool" where
  "outside_same s t \<longleftrightarrow> (\<forall>i. i < 0 \<or> 2000 \<le> i \<longrightarrow> cells t i = cells s i)"

lemma tab_stop: "0 \<le> c \<Longrightarrow> c < 80 \<Longrightarrow> 0 \<le> ((c :: int) + 8) AND NOT 7"
  by simp

text \<open>The end of \<^verbatim>\<open>HalVgaPutChar\<close>, once the character has moved the cursor.\<close>

lemma put_char_end:
  assumes "0 \<le> g_row s" "g_row s < 26" "g_row s = 25 \<longrightarrow> g_col s < 80" "0 \<le> g_col s"
  defines "s2 \<equiv> (if g_col s \<ge> 80 then s\<lparr>g_col := 0, g_row := g_row s + 1\<rparr> else s)"
  defines "t \<equiv> vga_update_cursor (if g_row s2 \<ge> 25 then vga_scroll s2 else s2)"
  shows "vga_inv t" "outside_same s t" "g_vga t = g_vga s" "g_attr t = g_attr s"
  using assms(1-4) by (auto simp: t_def s2_def vga_inv_def outside_same_def scroll)

lemma put_char:
  assumes inv: "vga_inv s"
  shows "vga_inv (HalVgaPutChar c s)" "outside_same s (HalVgaPutChar c s)"
    "g_vga (HalVgaPutChar c s) = g_vga s" "g_attr (HalVgaPutChar c s) = g_attr s"
proof -
  define s1 where "s1 = (if c = 0x0A then s\<lparr>g_col := 0, g_row := g_row s + 1\<rparr>
                   else if c = 0x0D then s\<lparr>g_col := 0\<rparr>
                   else if c = 0x09 then s\<lparr>g_col := (g_col s + 8) AND NOT 7\<rparr>
                   else if c = 0x08 then (if g_col s > 0 then s\<lparr>g_col := g_col s - 1\<rparr> else s)
                   else (set_cell (g_row s * VGA_WIDTH + g_col s) (vga_cell c (g_attr s)) s)\<lparr>g_col := g_col s + 1\<rparr>)"
  have r: "0 \<le> g_row s1" "g_row s1 < 26" "g_row s1 = 25 \<longrightarrow> g_col s1 < 80" "0 \<le> g_col s1"
    using inv by (auto simp: s1_def vga_inv_def)
  have o: "outside_same s s1" "g_vga s1 = g_vga s" "g_attr s1 = g_attr s" using inv by (auto simp: s1_def outside_same_def vga_inv_def)
  have e: "HalVgaPutChar c s = (if g_vga s = 0 then s
      else let s2 = (if g_col s1 \<ge> 80 then s1\<lparr>g_col := 0, g_row := g_row s1 + 1\<rparr> else s1)
           in vga_update_cursor (if g_row s2 \<ge> 25 then vga_scroll s2 else s2))"
    unfolding HalVgaPutChar_def s1_def Let_def by (rule refl)
  show "vga_inv (HalVgaPutChar c s)" "outside_same s (HalVgaPutChar c s)"
    "g_vga (HalVgaPutChar c s) = g_vga s" "g_attr (HalVgaPutChar c s) = g_attr s"
    unfolding e Let_def using put_char_end [OF r] o inv by (auto simp: outside_same_def)
qed

section \<open>Properties\<close>

text \<open>(C31) Console output stays in video memory. After \<^verbatim>\<open>HalInitializeVga\<close> and any text, control characters included, the
  cursor is on the screen and no cell outside the 2000 of the screen has been written. A new line in the last row moves
  every row up by one, blanks the last and leaves the cursor at its start.\<close>

theorem vga_console:
  assumes "s = fold HalVgaPutChar msg (HalInitializeVga direct_map s0)"
  shows "0 \<le> g_row s \<and> g_row s < 25 \<and> 0 \<le> g_col s \<and> g_col s < 80 \<and> (\<forall>i. i < 0 \<or> 2000 \<le> i \<longrightarrow> cells s i = cells s0 i) \<and>
    (g_row s = 24 \<longrightarrow> direct_map \<noteq> - VGA_PHYS \<longrightarrow> (let t = HalVgaPutChar 0x0A s in g_row t = 24 \<and> g_col t = 0 \<and>
       (\<forall>i. 0 \<le> i \<and> i < 1920 \<longrightarrow> cells t i = cells s (i + 80)) \<and> (\<forall>i. 1920 \<le> i \<and> i < 2000 \<longrightarrow> cells t i = vga_cell 0x20 (g_attr s))))"
proof -
  let ?i = "HalInitializeVga direct_map s0"
  from blank_row [of 0 2000 "s0\<lparr>g_vga := VGA_PHYS + direct_map, g_attr := 0x07\<rparr>"]
  have i: "vga_inv ?i" "outside_same s0 ?i" "g_vga ?i = VGA_PHYS + direct_map"
    by (simp_all add: HalInitializeVga_def HalVgaClear_def Let_def vga_inv_def outside_same_def same_control_def)
  have "vga_inv (fold HalVgaPutChar msg x) \<and> outside_same x (fold HalVgaPutChar msg x) \<and> g_vga (fold HalVgaPutChar msg x) = g_vga x"
    if "vga_inv x" for x
    using that
  proof (induction msg arbitrary: x)
    case (Cons c cs)
    then show ?case using put_char [OF Cons.prems, of c] by (auto simp: outside_same_def)
  qed (simp add: outside_same_def)
  from this [OF i(1)] i assms have s: "vga_inv s" "outside_same s0 s" "g_vga s = VGA_PHYS + direct_map" by (auto simp: outside_same_def)
  have g: "g_vga s \<noteq> 0" if "direct_map \<noteq> - VGA_PHYS" using that s(3) by (metis add.inverse_unique add.inverse_inverse)
  show ?thesis using s g by (auto simp: vga_inv_def outside_same_def HalVgaPutChar_def Let_def scroll)
qed

theorem vga_console_witness:
  "\<exists>s s0. s = fold HalVgaPutChar [0x41, 0x0A] (HalInitializeVga 0 s0) \<and> g_row s < 25 \<and> cells s 2000 = cells s0 2000"
  using vga_console [OF refl, of "[0x41, 0x0A]" 0] by blast

end
