(* ===== verification/Io_Fat.thy ===== *)
theory Io_Fat
  imports Ob_Object
begin

text \<open>
  The block device and the file system: \<^verbatim>\<open>kernel/io/ata.c\<close> and \<^verbatim>\<open>kernel/io/fat.c\<close>.

  The drive is not part of the kernel. It is the parameter \<open>hw\<close>, a record of the three ways the driver touches it: reading
  a byte from a port, writing one, and \<^verbatim>\<open>rep insw\<close>, which transfers 512 bytes from the data port. Each acts on the drive's
  own state, of a type that the model leaves open. What the file system theorems assume of the drive is \<open>drive_ok\<close>, the
  protocol of a programmed read of an ATA drive that does not fail: it is busy for some time after a command and before each
  sector, raises DRQ only when a sector is ready and clears it when the last one is gone, accepts registers and commands
  when it is idle, and delivers the sectors from the logical block address in its registers when the command was given.

  \<open>AtaReadSectors\<close> returns the bytes of the caller's buffer, \<open>None\<close> for \<^verbatim>\<open>FALSE\<close> (no caller looks at the buffer then). Directory
  entries are lists of 32 bytes with the fields of \<^verbatim>\<open>FAT_DIRENT\<close> and \<^verbatim>\<open>FAT_LFN_ENTRY\<close> as projections. The loops along cluster
  chains are partial functions: a chain that runs into a cycle is never left, and then the result is \<open>None\<close>. \<open>io_data\<close> gives the
  bytes of a file buffer; a new buffer holds what the pool memory held before.
\<close>

section \<open>ATA\<close>

record 'd ata_ports =
  in_byte :: "u16 \<Rightarrow> 'd \<Rightarrow> u8 \<times> 'd"
  out_byte :: "u16 \<Rightarrow> u8 \<Rightarrow> 'd \<Rightarrow> 'd"
  in_sector :: "'d \<Rightarrow> u8 list \<times> 'd"

abbreviation "ATA_CTRL_BASE \<equiv> (0x3F6 :: u16)"
abbreviation "ATA_REG_SECCOUNT \<equiv> (0x1F2 :: u16)"
abbreviation "ATA_REG_LBA0 \<equiv> (0x1F3 :: u16)"
abbreviation "ATA_REG_LBA1 \<equiv> (0x1F4 :: u16)"
abbreviation "ATA_REG_LBA2 \<equiv> (0x1F5 :: u16)"
abbreviation "ATA_REG_DRIVE \<equiv> (0x1F6 :: u16)"
abbreviation "ATA_REG_COMMAND \<equiv> (0x1F7 :: u16)"
abbreviation "ATA_REG_STATUS \<equiv> (0x1F7 :: u16)"
abbreviation "ATA_SR_BSY \<equiv> (0x80 :: u8)"
abbreviation "ATA_SR_DRQ \<equiv> (0x08 :: u8)"
abbreviation "ATA_SR_ERR \<equiv> (0x01 :: u8)"
abbreviation "ATA_CMD_READ_PIO \<equiv> (0x20 :: u8)"

definition ata_io_wait :: "'d ata_ports \<Rightarrow> 'd \<Rightarrow> 'd" where
  "ata_io_wait hw d = fold (\<lambda>_ d. snd (in_byte hw ATA_CTRL_BASE d)) [0..<4] d"

fun not_busy_loop :: "'d ata_ports \<Rightarrow> nat \<Rightarrow> 'd \<Rightarrow> bool \<times> 'd" where
  "not_busy_loop hw 0 d = (False, d)"
| "not_busy_loop hw (Suc spin) d =
     (let (s, d1) = in_byte hw ATA_REG_STATUS d in if s AND ATA_SR_BSY = 0 then (True, d1) else not_busy_loop hw spin d1)"

definition ata_wait_not_busy :: "'d ata_ports \<Rightarrow> 'd \<Rightarrow> bool \<times> 'd" where
  "ata_wait_not_busy hw d = not_busy_loop hw 10000000 d"

fun drq_loop :: "'d ata_ports \<Rightarrow> nat \<Rightarrow> 'd \<Rightarrow> bool \<times> 'd" where
  "drq_loop hw 0 d = (False, d)"
| "drq_loop hw (Suc spin) d =
     (let (s, d1) = in_byte hw ATA_REG_STATUS d
      in if s AND ATA_SR_ERR \<noteq> 0 then (False, d1)
         else if s AND ATA_SR_BSY = 0 \<and> s AND ATA_SR_DRQ \<noteq> 0 then (True, d1)
         else drq_loop hw spin d1)"

definition ata_wait_drq :: "'d ata_ports \<Rightarrow> 'd \<Rightarrow> bool \<times> 'd" where
  "ata_wait_drq hw d = drq_loop hw 10000000 d"

text \<open>The transfer loop, with the number of sectors left and what is in the buffer so far.\<close>

fun transfer_loop :: "'d ata_ports \<Rightarrow> nat \<Rightarrow> u8 list \<Rightarrow> 'd \<Rightarrow> u8 list option \<times> 'd" where
  "transfer_loop hw 0 out d = (Some out, d)"
| "transfer_loop hw (Suc n) out d =
     (let (ok, d1) = ata_wait_drq hw d
      in if \<not> ok then (None, d1)
         else (let (bs, d2) = in_sector hw d1 in transfer_loop hw n (out @ bs) d2))"

definition AtaReadSectors :: "'d ata_ports \<Rightarrow> u32 \<Rightarrow> u8 \<Rightarrow> 'd \<Rightarrow> u8 list option \<times> 'd" where
  "AtaReadSectors hw lba count d =
     (if count = 0 then (None, d)
      else
        (let (ok, d1) = ata_wait_not_busy hw d
         in if \<not> ok then (None, d1)
            else
              (let d2 = out_byte hw ATA_REG_DRIVE (ucast (0xE0 OR (drop_bit 24 lba AND 0x0F))) d1;
                   d3 = ata_io_wait hw d2;
                   d4 = out_byte hw ATA_REG_SECCOUNT count d3;
                   d5 = out_byte hw ATA_REG_LBA0 (ucast (lba AND 0xFF)) d4;
                   d6 = out_byte hw ATA_REG_LBA1 (ucast (drop_bit 8 lba AND 0xFF)) d5;
                   d7 = out_byte hw ATA_REG_LBA2 (ucast (drop_bit 16 lba AND 0xFF)) d6;
                   d8 = out_byte hw ATA_REG_COMMAND ATA_CMD_READ_PIO d7
               in transfer_loop hw (unat count) [] d8)))"

definition AtaInitialize :: "'d ata_ports \<Rightarrow> 'd \<Rightarrow> bool \<times> 'd" where
  "AtaInitialize hw d = (let (status, d1) = in_byte hw ATA_REG_STATUS d in (status \<noteq> 0xFF, d1))"

section \<open>Volumes and directory entries\<close>

abbreviation "FAT_EOC \<equiv> (0x0FFFFFF8 :: u32)"
abbreviation "ATTR_LONG_NAME \<equiv> (0x0F :: u8)"

record FAT_VOLUME =
  Mounted :: bool
  FatStartLba :: u32
  DataStartLba :: u32
  SectorsPerCluster :: u32
  BytesPerCluster :: u32
  RootCluster :: u32

record 'd io_state = ob_state +
  dev :: 'd
  g_fat :: FAT_VOLUME
  io_data :: "u64 \<Rightarrow> u8 list"

record FAT_FIND_DATA =
  fd_Name :: cstring
  fd_Size :: u32
  fd_Attributes :: u32
  fd_WriteDate :: u16
  fd_WriteTime :: u16

definition u16_at :: "u8 list \<Rightarrow> nat \<Rightarrow> u16" where
  "u16_at bs i = ucast (bs ! i) OR push_bit 8 (ucast (bs ! (i + 1)))"

definition u32_at :: "u8 list \<Rightarrow> nat \<Rightarrow> u32" where
  "u32_at bs i = ucast (u16_at bs i) OR push_bit 16 (ucast (u16_at bs (i + 2)))"

text \<open>The fields of \<^verbatim>\<open>FAT_DIRENT\<close>.\<close>

definition de_Name :: "u8 list \<Rightarrow> u8 list" where "de_Name e = take 11 e"
definition de_Attr :: "u8 list \<Rightarrow> u8" where "de_Attr e = e ! 11"
definition de_FirstClusterHigh :: "u8 list \<Rightarrow> u16" where "de_FirstClusterHigh e = u16_at e 20"
definition de_WriteTime :: "u8 list \<Rightarrow> u16" where "de_WriteTime e = u16_at e 22"
definition de_WriteDate :: "u8 list \<Rightarrow> u16" where "de_WriteDate e = u16_at e 24"
definition de_FirstClusterLow :: "u8 list \<Rightarrow> u16" where "de_FirstClusterLow e = u16_at e 26"
definition de_FileSize :: "u8 list \<Rightarrow> u32" where "de_FileSize e = u32_at e 28"

definition cluster_to_lba :: "FAT_VOLUME \<Rightarrow> u32 \<Rightarrow> u32" where
  "cluster_to_lba g cluster = DataStartLba g + (cluster - 2) * SectorsPerCluster g"

definition fat_next_cluster :: "'d ata_ports \<Rightarrow> FAT_VOLUME \<Rightarrow> u32 \<Rightarrow> 'd \<Rightarrow> u32 \<times> 'd" where
  "fat_next_cluster hw g cluster d =
     (let fat_offset = cluster * 4;
          lba = FatStartLba g + fat_offset div 512;
          in_sec = fat_offset mod 512;
          (sector, d1) = AtaReadSectors hw lba 1 d
      in case sector of None \<Rightarrow> (FAT_EOC, d1) | Some bs \<Rightarrow> (u32_at bs (unat in_sec) AND 0x0FFFFFFF, d1))"

definition FatMount :: "'d ata_ports \<Rightarrow> ('d, 'z) io_state_scheme \<Rightarrow> ntstatus \<times> ('d, 'z) io_state_scheme" where
  "FatMount hw s =
     (let (r, d) = AtaReadSectors hw 0 1 (dev s); s1 = s\<lparr>dev := d\<rparr>
      in case r of
           None \<Rightarrow> (STATUS_DEVICE_NOT_READY, s1)
         | Some sector \<Rightarrow>
             if sector ! 510 \<noteq> 0x55 \<or> sector ! 511 \<noteq> 0xAA then (STATUS_UNSUCCESSFUL, s1)
             else if u16_at sector 0x0B \<noteq> 512 \<or> u16_at sector 0x16 \<noteq> 0 then (STATUS_NOT_SUPPORTED, s1)
             else
               (let spc = ucast (sector ! 0x0D); reserved = ucast (u16_at sector 0x0E)
                in (STATUS_SUCCESS, s1\<lparr>g_fat := \<lparr>Mounted = True, FatStartLba = reserved,
                      DataStartLba = reserved + ucast (sector ! 0x10) * u32_at sector 0x24,
                      SectorsPerCluster = spc, BytesPerCluster = spc * 512, RootCluster = u32_at sector 0x2C\<rparr>\<rparr>)))"

section \<open>Names\<close>

abbreviation "DOT \<equiv> (0x2E :: u8)"
abbreviation "BLANK \<equiv> (0x20 :: u8)"

definition up_char :: "u8 \<Rightarrow> u8" where
  "up_char c = (if 0x61 \<le> c \<and> c \<le> 0x7A then c - 32 else c)"

definition low_char :: "u8 \<Rightarrow> u8" where
  "low_char c = (if 0x41 \<le> c \<and> c \<le> 0x5A then c + 32 else c)"

definition pad_to :: "nat \<Rightarrow> u8 list \<Rightarrow> u8 list" where
  "pad_to n xs = xs @ replicate (n - length xs) BLANK"

definition to_83 :: "cstring \<Rightarrow> u8 list" where
  "to_83 name =
     (let base = takeWhile (\<lambda>c. c \<noteq> DOT) name; rest = dropWhile (\<lambda>c. c \<noteq> DOT) name
      in pad_to 8 (map up_char (take 8 base)) @ pad_to 3 (if rest = [] then [] else map up_char (take 3 (tl rest))))"

fun name_equal_ci :: "cstring \<Rightarrow> cstring \<Rightarrow> bool" where
  "name_equal_ci (a # as) (b # bs) = (if low_char a \<noteq> low_char b then False else name_equal_ci as bs)"
| "name_equal_ci as bs = (as = [] \<and> bs = [])"

text \<open>The thirteen characters of a long name entry.\<close>

definition lfn_chars :: "u8 list \<Rightarrow> u16 list" where
  "lfn_chars e = map (\<lambda>i. u16_at e (1 + 2 * i)) [0..<5] @ map (\<lambda>i. u16_at e (14 + 2 * i)) [0..<6] @ map (\<lambda>i. u16_at e (28 + 2 * i)) [0..<2]"

fun lfn_store :: "u8 list \<Rightarrow> nat \<Rightarrow> u16 list \<Rightarrow> u8 list" where
  "lfn_store out pos [] = out"
| "lfn_store out pos (c # cs) =
     (if \<not> pos < 259 then out
      else if c = 0 then out[pos := 0]
      else lfn_store (if c \<noteq> 0xFFFF then out[pos := if c \<le> 0x7F then ucast c else 0x3F] else out) (pos + 1) cs)"

definition lfn_put_fragment :: "u8 list \<Rightarrow> u8 list \<Rightarrow> u8 list" where
  "lfn_put_fragment out lfn =
     (let ordinal = unat (lfn ! 0 AND 0x1F)
      in if ordinal = 0 \<or> ordinal > 20 then out else lfn_store out ((ordinal - 1) * 13) (lfn_chars lfn))"

fun is_83_loop :: "cstring \<Rightarrow> nat \<Rightarrow> nat \<Rightarrow> bool \<Rightarrow> bool" where
  "is_83_loop [] base ext in_ext = (base \<noteq> 0)"
| "is_83_loop (c # cs) base ext in_ext =
     (if c = DOT then (if in_ext then False else is_83_loop cs base ext True)
      else if in_ext then (if ext + 1 > 3 then False else is_83_loop cs base (ext + 1) in_ext)
      else (if base + 1 > 8 then False else is_83_loop cs (base + 1) ext in_ext))"

definition name_is_83 :: "cstring \<Rightarrow> bool" where
  "name_is_83 name = is_83_loop name 0 0 False"

definition from_83 :: "u8 list \<Rightarrow> cstring" where
  "from_83 e = takeWhile (\<lambda>c. c \<noteq> BLANK) (take 8 e) @
     (if e ! 8 \<noteq> BLANK then DOT # takeWhile (\<lambda>c. c \<noteq> BLANK) (take 3 (drop 8 e)) else [])"

section \<open>Directories\<close>

text \<open>A C string in a character array, and an array of entries.\<close>

definition array_string :: "u8 list \<Rightarrow> cstring" where
  "array_string a = takeWhile (\<lambda>c. c \<noteq> 0) a"

definition entries_of :: "nat \<Rightarrow> u8 list \<Rightarrow> u8 list list" where
  "entries_of n buf = map (\<lambda>i. take 32 (drop (32 * i) buf)) [0..<n]"

text \<open>The long name collected so far and whether there is one.\<close>

type_synonym lfn_state = "bool \<times> u8 list"

definition no_lfn :: lfn_state where
  "no_lfn = (False, replicate 260 0)"

text \<open>An entry with \<^verbatim>\<open>ATTR_LONG_NAME\<close>.\<close>

definition lfn_step :: "u8 list \<Rightarrow> lfn_state \<Rightarrow> lfn_state" where
  "lfn_step e l =
     (let l1 = (if e ! 0 AND 0x40 \<noteq> 0 then (True, replicate 260 0) else l)
      in if fst l1 then (True, lfn_put_fragment (snd l1) e) else l1)"

text \<open>The loop over the entries of one cluster in \<^verbatim>\<open>fat_find\<close>: it meets the end of the directory, finds the name, or goes on to
  the next cluster.\<close>

datatype scan_result = ScanEnd | ScanFound "u8 list" | ScanMore lfn_state

fun find_scan :: "cstring \<Rightarrow> u8 list list \<Rightarrow> lfn_state \<Rightarrow> scan_result" where
  "find_scan name [] l = ScanMore l"
| "find_scan name (e # es) l =
     (if e ! 0 = 0 then ScanEnd
      else if e ! 0 = 0xE5 then find_scan name es (False, snd l)
      else if de_Attr e = ATTR_LONG_NAME then find_scan name es (lfn_step e l)
      else if fst l \<and> name_equal_ci (array_string (snd l)) name \<or> name_is_83 name \<and> de_Name e = to_83 name then ScanFound e
      else find_scan name es (False, snd l))"

definition read_cluster :: "'d ata_ports \<Rightarrow> FAT_VOLUME \<Rightarrow> u32 \<Rightarrow> 'd \<Rightarrow> u8 list option \<times> 'd" where
  "read_cluster hw g cluster d = AtaReadSectors hw (cluster_to_lba g cluster) (ucast (SectorsPerCluster g)) d"

partial_function (option) find_loop ::
    "'d ata_ports \<Rightarrow> FAT_VOLUME \<Rightarrow> cstring \<Rightarrow> u32 \<Rightarrow> lfn_state \<Rightarrow> 'd \<Rightarrow> (u8 list option \<times> 'd) option" where
  "find_loop hw g name cluster l d =
     (if cluster < FAT_EOC then
        (let (r, d1) = read_cluster hw g cluster d
         in case r of
              None \<Rightarrow> Some (None, d1)
            | Some buf \<Rightarrow>
                (case find_scan name (entries_of (unat (BytesPerCluster g div 32)) buf) l of
                   ScanEnd \<Rightarrow> Some (None, d1)
                 | ScanFound e \<Rightarrow> Some (Some e, snd (fat_next_cluster hw g cluster d1))
                 | ScanMore l' \<Rightarrow> (let (nxt, d2) = fat_next_cluster hw g cluster d1 in find_loop hw g name nxt l' d2)))
      else Some (None, d))"

definition fat_find :: "'d ata_ports \<Rightarrow> u32 \<Rightarrow> cstring \<Rightarrow> ('d, 'z) io_state_scheme \<Rightarrow> (u8 list option \<times> ('d, 'z) io_state_scheme) option" where
  "fat_find hw dir_cluster name s =
     do {
       (cluster_buf, p) \<leftarrow> ExAllocatePoolWithTag NonPagedPool (ucast (BytesPerCluster (g_fat s))) 0x746146 (pool s);
       let s1 = s\<lparr>pool := p\<rparr>;
       if cluster_buf = 0 then Some (None, s1)
       else do {
         (found, d) \<leftarrow> find_loop hw (g_fat s1) name dir_cluster no_lfn (dev s1);
         p' \<leftarrow> ExFreePool cluster_buf (pool s1);
         Some (found, s1\<lparr>dev := d, pool := p'\<rparr>)
       }
     }"

text \<open>The loop over the entries of one cluster in \<^verbatim>\<open>FatEnumerateRoot\<close>, with the number of files seen.\<close>

datatype enum_result = EnumEnd | EnumFound FAT_FIND_DATA | EnumMore lfn_state u32

definition entry_info :: "cstring \<Rightarrow> u8 list \<Rightarrow> FAT_FIND_DATA" where
  "entry_info name e = \<lparr>fd_Name = name, fd_Size = de_FileSize e, fd_Attributes = ucast (de_Attr e), fd_WriteDate = de_WriteDate e,
     fd_WriteTime = de_WriteTime e\<rparr>"

fun enum_scan :: "u32 \<Rightarrow> u8 list list \<Rightarrow> lfn_state \<Rightarrow> u32 \<Rightarrow> enum_result" where
  "enum_scan wanted [] l seen = EnumMore l seen"
| "enum_scan wanted (e # es) l seen =
     (if e ! 0 = 0 then EnumEnd
      else if e ! 0 = 0xE5 then enum_scan wanted es (False, snd l) seen
      else if de_Attr e = ATTR_LONG_NAME then enum_scan wanted es (lfn_step e l) seen
      else if de_Attr e AND 0x18 \<noteq> 0 then enum_scan wanted es (False, snd l) seen
      else if seen \<noteq> wanted then enum_scan wanted es (False, snd l) (seen + 1)
      else EnumFound (entry_info (if fst l then take 259 (array_string (snd l)) else from_83 (de_Name e)) e))"

partial_function (option) enum_loop ::
    "'d ata_ports \<Rightarrow> FAT_VOLUME \<Rightarrow> u32 \<Rightarrow> u32 \<Rightarrow> lfn_state \<Rightarrow> u32 \<Rightarrow> 'd \<Rightarrow> (ntstatus \<times> FAT_FIND_DATA option \<times> 'd) option" where
  "enum_loop hw g wanted cluster l seen d =
     (if cluster < FAT_EOC then
        (let (r, d1) = read_cluster hw g cluster d
         in case r of
              None \<Rightarrow> Some (STATUS_DEVICE_NOT_READY, None, d1)
            | Some buf \<Rightarrow>
                (case enum_scan wanted (entries_of (unat (BytesPerCluster g div 32)) buf) l seen of
                   EnumEnd \<Rightarrow> Some (STATUS_OBJECT_NAME_NOT_FOUND, None, d1)
                 | EnumFound i \<Rightarrow> Some (STATUS_SUCCESS, Some i, d1)
                 | EnumMore l' seen' \<Rightarrow> (let (nxt, d2) = fat_next_cluster hw g cluster d1 in enum_loop hw g wanted nxt l' seen' d2)))
      else Some (STATUS_OBJECT_NAME_NOT_FOUND, None, d))"

definition FatEnumerateRoot ::
    "'d ata_ports \<Rightarrow> u32 \<Rightarrow> ('d, 'z) io_state_scheme \<Rightarrow> (ntstatus \<times> FAT_FIND_DATA option \<times> ('d, 'z) io_state_scheme) option" where
  "FatEnumerateRoot hw wanted s =
     (if \<not> Mounted (g_fat s) then Some (STATUS_DEVICE_NOT_READY, None, s)
      else do {
        (buf, p) \<leftarrow> ExAllocatePoolWithTag NonPagedPool (ucast (BytesPerCluster (g_fat s))) 0x6E6546 (pool s);
        let s1 = s\<lparr>pool := p\<rparr>;
        if buf = 0 then Some (STATUS_NO_MEMORY, None, s1)
        else do {
          (st, i, d) \<leftarrow> enum_loop hw (g_fat s1) wanted (RootCluster (g_fat s1)) no_lfn 0 (dev s1);
          p' \<leftarrow> ExFreePool buf (pool s1);
          Some (st, i, s1\<lparr>dev := d, pool := p'\<rparr>)
        }
      })"

section \<open>Files\<close>

text \<open>The loop that copies a file's clusters into its buffer; it reports whether every read succeeded.\<close>

definition splice :: "nat \<Rightarrow> u8 list \<Rightarrow> u8 list \<Rightarrow> u8 list" where
  "splice pos xs buf = take pos buf @ xs @ drop (pos + length xs) buf"

partial_function (option) load_loop ::
    "'d ata_ports \<Rightarrow> FAT_VOLUME \<Rightarrow> u32 \<Rightarrow> u64 \<Rightarrow> u64 \<Rightarrow> u8 list \<Rightarrow> 'd \<Rightarrow> (bool \<times> u8 list \<times> 'd) option" where
  "load_loop hw g cluster pos remaining buffer d =
     (if cluster < FAT_EOC \<and> remaining > 0 then
        (let (r, d1) = read_cluster hw g cluster d
         in case r of
              None \<Rightarrow> Some (False, buffer, d1)
            | Some chunk \<Rightarrow>
                (let n = (if remaining < ucast (BytesPerCluster g) then remaining else ucast (BytesPerCluster g));
                     buffer1 = splice (unat pos) (take (unat n) chunk) buffer;
                     (nxt, d2) = fat_next_cluster hw g cluster d1
                 in load_loop hw g nxt (pos + n) (remaining - n) buffer1 d2))
      else Some (True, buffer, d))"

definition FatLoadFile ::
    "'d ata_ports \<Rightarrow> cstring \<Rightarrow> ('d, 'z) io_state_scheme \<Rightarrow>
     (ntstatus \<times> (u64 \<times> u64 \<times> FAT_FIND_DATA) option \<times> ('d, 'z) io_state_scheme) option" where
  "FatLoadFile hw name s =
     (if \<not> Mounted (g_fat s) then Some (STATUS_DEVICE_NOT_READY, None, s)
      else do {
        (r, s1) \<leftarrow> fat_find hw (RootCluster (g_fat s)) name s;
        case r of
          None \<Rightarrow> Some (STATUS_OBJECT_NAME_NOT_FOUND, None, s1)
        | Some entry \<Rightarrow>
            (let cluster = push_bit 16 (ucast (de_FirstClusterHigh entry)) OR ucast (de_FirstClusterLow entry); sz = de_FileSize entry
             in do {
               (buffer, p) \<leftarrow> ExAllocatePoolWithTag NonPagedPool (if sz \<noteq> 0 then ucast sz else 1) 0x6C6946 (pool s1);
               let s2 = s1\<lparr>pool := p\<rparr>;
               if buffer = 0 then Some (STATUS_NO_MEMORY, None, s2)
               else do {
                 (chunk, p) \<leftarrow> ExAllocatePoolWithTag NonPagedPool (ucast (BytesPerCluster (g_fat s2))) 0x746146 (pool s2);
                 let s3 = s2\<lparr>pool := p\<rparr>;
                 if chunk = 0 then do {
                   p \<leftarrow> ExFreePool buffer (pool s3);
                   Some (STATUS_NO_MEMORY, None, s3\<lparr>pool := p\<rparr>)
                 }
                 else do {
                   (ok, bytes, d) \<leftarrow> load_loop hw (g_fat s3) cluster 0 (ucast sz)
                      (map (\<lambda>i. payload (pool s3) (buffer + of_nat i)) [0..<unat sz]) (dev s3);
                   p \<leftarrow> ExFreePool chunk (pool s3);
                   let s4 = s3\<lparr>dev := d, pool := p\<rparr>;
                   if \<not> ok then do {
                     p \<leftarrow> ExFreePool buffer (pool s4);
                     Some (STATUS_DEVICE_NOT_READY, None, s4\<lparr>pool := p\<rparr>)
                   }
                   else Some (STATUS_SUCCESS, Some (buffer, ucast sz, entry_info (take 259 name) entry), s4\<lparr>io_data := (io_data s4)(buffer := bytes)\<rparr>)
                 }
               }
             })
      })"

section \<open>A working drive\<close>

text \<open>A view of the drive's state: the value last written to each port, the address of the sector delivered next, how many
  sectors of the running command are still to be transferred, and a bound on the number of status reads that still find
  the drive not ready.\<close>

record 'd drive_view =
  dv_regs :: "'d \<Rightarrow> u16 \<Rightarrow> u8"
  dv_pos :: "'d \<Rightarrow> u32"
  dv_left :: "'d \<Rightarrow> nat"
  dv_busy :: "'d \<Rightarrow> nat"

text \<open>The 28-bit address in the registers.\<close>

definition regs_lba :: "(u16 \<Rightarrow> u8) \<Rightarrow> u32" where
  "regs_lba r = ucast (r ATA_REG_LBA0) OR push_bit 8 (ucast (r ATA_REG_LBA1)) OR push_bit 16 (ucast (r ATA_REG_LBA2)) OR
     push_bit 24 (ucast (r ATA_REG_DRIVE AND 0x0F))"

text \<open>The status register. While the drive is not ready, a read of it shows BSY when no transfer is under way, and otherwise BSY or no
  DRQ; such reads come to an end. Once it is ready BSY is clear, and DRQ is set exactly when a sector waits to be
  transferred. ERR stays clear: this is a drive whose reads succeed. The driver looks at ERR in every poll, also while BSY is set.
  The alternate status port can be read at any time.\<close>

definition status_ok :: "'d ata_ports \<Rightarrow> ('d, 'z) drive_view_scheme \<Rightarrow> bool" where
  "status_ok hw v \<longleftrightarrow>
     (\<forall>d s d'. in_byte hw ATA_REG_STATUS d = (s, d') \<longrightarrow>
        dv_regs v d' = dv_regs v d \<and> dv_pos v d' = dv_pos v d \<and> dv_left v d' = dv_left v d \<and> s AND ATA_SR_ERR = 0 \<and>
        (if dv_busy v d > 0
         then dv_busy v d' < dv_busy v d \<and>
              (if dv_left v d = 0 then s AND ATA_SR_BSY \<noteq> 0 else s AND ATA_SR_BSY \<noteq> 0 \<or> s AND ATA_SR_DRQ = 0)
         else dv_busy v d' = 0 \<and> s AND ATA_SR_BSY = 0 \<and> (s AND ATA_SR_DRQ \<noteq> 0 \<longleftrightarrow> dv_left v d > 0))) \<and>
     (\<forall>d s d'. in_byte hw ATA_CTRL_BASE d = (s, d') \<longrightarrow>
        dv_regs v d' = dv_regs v d \<and> dv_pos v d' = dv_pos v d \<and> dv_left v d' = dv_left v d \<and> dv_busy v d' \<le> dv_busy v d)"

text \<open>A drive that is ready and has nothing to transfer takes the values written to its registers. The read command, with the
  drive register selecting the master drive and LBA mode, starts a transfer of as many sectors as the count register says, 256 for
  0, from the address in the registers. The drive is then ready with the first of them before the driver's ten million polls are
  over.\<close>

definition command_ok :: "'d ata_ports \<Rightarrow> ('d, 'z) drive_view_scheme \<Rightarrow> bool" where
  "command_ok hw v \<longleftrightarrow>
     (\<forall>d. dv_busy v d = 0 \<and> dv_left v d = 0 \<longrightarrow>
        (\<forall>p x. p \<in> {ATA_REG_SECCOUNT, ATA_REG_LBA0, ATA_REG_LBA1, ATA_REG_LBA2, ATA_REG_DRIVE} \<longrightarrow>
           dv_regs v (out_byte hw p x d) = (dv_regs v d)(p := x) \<and> dv_busy v (out_byte hw p x d) = 0 \<and> dv_left v (out_byte hw p x d) = 0) \<and>
        (dv_regs v d ATA_REG_DRIVE AND 0x50 = 0x40 \<longrightarrow>
           (let d' = out_byte hw ATA_REG_COMMAND ATA_CMD_READ_PIO d; n = unat (dv_regs v d ATA_REG_SECCOUNT)
            in dv_pos v d' = regs_lba (dv_regs v d) \<and> dv_left v d' = (if n = 0 then 256 else n) \<and> dv_busy v d' < 10000000)))"

text \<open>Transferring a sector that is ready delivers it and goes on to the next.\<close>

definition data_ok :: "'d ata_ports \<Rightarrow> ('d, 'z) drive_view_scheme \<Rightarrow> (u32 \<Rightarrow> u8 list) \<Rightarrow> bool" where
  "data_ok hw v content \<longleftrightarrow>
     (\<forall>d bs d'. dv_busy v d = 0 \<and> dv_left v d > 0 \<and> in_sector hw d = (bs, d') \<longrightarrow>
        bs = content (dv_pos v d) \<and> dv_pos v d' = dv_pos v d + 1 \<and> dv_left v d' = dv_left v d - 1 \<and> dv_busy v d' < 10000000) \<and>
     (\<forall>lba. length (content lba) = 512)"

definition drive_ok :: "'d ata_ports \<Rightarrow> ('d, 'z) drive_view_scheme \<Rightarrow> (u32 \<Rightarrow> u8 list) \<Rightarrow> bool" where
  "drive_ok hw v content \<longleftrightarrow> status_ok hw v \<and> command_ok hw v \<and> data_ok hw v content"

text \<open>Between commands the drive has nothing to transfer and is busy for a while at most.\<close>

definition idle :: "('d, 'z) drive_view_scheme \<Rightarrow> 'd \<Rightarrow> bool" where
  "idle v d \<longleftrightarrow> dv_left v d = 0 \<and> dv_busy v d < 10000000"

text \<open>The sectors from an address on.\<close>

definition sectors :: "(u32 \<Rightarrow> u8 list) \<Rightarrow> u32 \<Rightarrow> nat \<Rightarrow> u8 list" where
  "sectors content lba n = concat (map (\<lambda>i. content (lba + of_nat i)) [0..<n])"

lemma sectors_Suc: "sectors content lba (Suc n) = content lba @ sectors content (lba + 1) n"
  unfolding sectors_def by (subst map_upt_Suc) (simp add: algebra_simps)

lemma sectors_length: "(\<And>lba. length (content lba) = 512) \<Longrightarrow> length (sectors content lba n) = 512 * n"
  by (induction n arbitrary: lba) (simp_all add: sectors_Suc, simp add: sectors_def)

lemma high_bits: "lba < 2 ^ 28 \<Longrightarrow> 28 \<le> n \<Longrightarrow> \<not> bit (lba :: u32) n"
proof
  assume a: "lba < 2 ^ 28" "28 \<le> n" "bit lba n"
  have "take_bit 28 (unat lba) = unat lba" using a(1) by (intro take_bit_nat_eq_self) (simp add: word_less_nat_alt)
  then have "unat lba = unat (take_bit 28 lba)" by (simp add: unsigned_take_bit_eq)
  then have "lba = take_bit 28 lba" by (rule unsigned_word_eqI)
  then show False using a(2,3) by (metis bit_take_bit_iff not_less)
qed

lemma byte_bit: "bit (ucast (ucast (x AND 0xFF) :: u8) :: u32) k \<longleftrightarrow> k < 8 \<and> bit (x :: u32) k"
proof -
  have m: "(0xFF :: u32) = mask 8" by (simp add: mask_eq_exp_minus_1)
  show ?thesis unfolding m by (auto simp: bit_simps)
qed

lemma nibble_bit: "bit (ucast ((ucast (0xE0 OR (x AND 0x0F)) :: u8) AND 0x0F) :: u32) k \<longleftrightarrow> k < 4 \<and> bit (x :: u32) k"
proof -
  have m: "(0x0F :: u32) = mask 4" "(0x0F :: u8) = mask 4" "(0xE0 :: u32) = push_bit 5 (mask 3)"
    by (simp_all add: mask_eq_exp_minus_1 push_bit_eq_mult)
  show ?thesis unfolding m by (auto simp: bit_simps)
qed

lemma lba_bytes:
  assumes "lba < 2 ^ 28"
  shows "ucast (ucast (lba AND 0xFF) :: u8) OR push_bit 8 (ucast (ucast (drop_bit 8 lba AND 0xFF) :: u8)) OR
     push_bit 16 (ucast (ucast (drop_bit 16 lba AND 0xFF) :: u8)) OR
     push_bit 24 (ucast ((ucast (0xE0 OR (drop_bit 24 lba AND 0x0F)) :: u8) AND 0x0F)) = (lba :: u32)"
proof (rule bit_word_eqI)
  fix n assume n: "n < LENGTH(32)"
  consider "n < 8" | "8 \<le> n" "n < 16" | "16 \<le> n" "n < 24" | "24 \<le> n" "n < 28" | "28 \<le> n" by linarith
  then show "bit ((ucast (ucast (lba AND 0xFF) :: u8) OR push_bit 8 (ucast (ucast (drop_bit 8 lba AND 0xFF) :: u8)) OR
     push_bit 16 (ucast (ucast (drop_bit 16 lba AND 0xFF) :: u8)) OR
     push_bit 24 (ucast ((ucast (0xE0 OR (drop_bit 24 lba AND 0x0F)) :: u8) AND 0x0F))) :: u32) n = bit lba n"
    by cases (use n high_bits [OF assms] in \<open>auto simp: bit_or_iff bit_push_bit_iff byte_bit nibble_bit bit_drop_bit_eq\<close>)
qed

lemma drive_okD:
  assumes "drive_ok hw v content"
  shows "status_ok hw v" "command_ok hw v" "data_ok hw v content" "length (content lba) = 512"
  using assms by (auto simp: drive_ok_def data_ok_def)

lemma status_read:
  assumes "drive_ok hw v content" "in_byte hw ATA_REG_STATUS d = (s, d')"
  shows "dv_regs v d' = dv_regs v d" "dv_pos v d' = dv_pos v d" "dv_left v d' = dv_left v d" "s AND ATA_SR_ERR = 0"
    "dv_busy v d > 0 \<Longrightarrow> dv_busy v d' < dv_busy v d"
    "dv_busy v d > 0 \<Longrightarrow> dv_left v d = 0 \<Longrightarrow> s AND ATA_SR_BSY \<noteq> 0"
    "dv_busy v d > 0 \<Longrightarrow> dv_left v d > 0 \<Longrightarrow> \<not> (s AND ATA_SR_BSY = 0 \<and> s AND ATA_SR_DRQ \<noteq> 0)"
    "dv_busy v d = 0 \<Longrightarrow> dv_busy v d' = 0 \<and> s AND ATA_SR_BSY = 0 \<and> (s AND ATA_SR_DRQ \<noteq> 0 \<longleftrightarrow> dv_left v d > 0)"
  using drive_okD(1) [OF assms(1), unfolded status_ok_def, THEN conjunct1, rule_format, OF assms(2)] by (simp_all split: if_splits)

text \<open>Both polling loops end: each poll that finds the drive not ready brings it closer.\<close>

lemma not_busy_ends:
  assumes ok: "drive_ok hw v content"
  shows "dv_left v d = 0 \<Longrightarrow> dv_busy v d < n \<Longrightarrow> \<exists>d'. not_busy_loop hw n d = (True, d') \<and> dv_busy v d' = 0 \<and> dv_left v d' = 0"
proof (induction n arbitrary: d)
  case (Suc n)
  obtain s d' where s: "in_byte hw ATA_REG_STATUS d = (s, d')" by (cases "in_byte hw ATA_REG_STATUS d")
  note r = status_read [OF ok s]
  show ?case
  proof (cases "dv_busy v d = 0")
    case True
    then show ?thesis using r(3,8) Suc.prems(1) by (simp add: s)
  next
    case False
    then have "s AND ATA_SR_BSY \<noteq> 0" "dv_busy v d' < n" using r(5,6) Suc.prems by auto
    then show ?thesis using Suc.IH [of d'] r(3) Suc.prems(1) by (simp add: s)
  qed
qed simp

lemma drq_ends:
  assumes ok: "drive_ok hw v content"
  shows "dv_left v d > 0 \<Longrightarrow> dv_busy v d < n \<Longrightarrow>
    \<exists>d'. drq_loop hw n d = (True, d') \<and> dv_busy v d' = 0 \<and> dv_left v d' = dv_left v d \<and> dv_pos v d' = dv_pos v d"
proof (induction n arbitrary: d)
  case (Suc n)
  obtain s d' where s: "in_byte hw ATA_REG_STATUS d = (s, d')" by (cases "in_byte hw ATA_REG_STATUS d")
  note r = status_read [OF ok s]
  show ?case
  proof (cases "dv_busy v d = 0")
    case True
    then show ?thesis using r(2-4,8) Suc.prems(1) by (simp add: s)
  next
    case False
    then have "\<not> (s AND ATA_SR_BSY = 0 \<and> s AND ATA_SR_DRQ \<noteq> 0)" "dv_busy v d' < n" using r(5,7) Suc.prems by auto
    then show ?thesis using Suc.IH [of d'] r(2-4) Suc.prems(1) by (auto simp: s)
  qed
qed simp

lemma transfer:
  assumes ok: "drive_ok hw v content"
  shows "dv_left v d = n \<Longrightarrow> dv_busy v d < 10000000 \<Longrightarrow>
    \<exists>d'. transfer_loop hw n out d = (Some (out @ sectors content (dv_pos v d) n), d') \<and> idle v d'"
proof (induction n arbitrary: out d)
  case (Suc n)
  obtain d1 where w: "ata_wait_drq hw d = (True, d1)" "dv_busy v d1 = 0" "dv_left v d1 = Suc n" "dv_pos v d1 = dv_pos v d"
    using drq_ends [OF ok, of d 10000000] Suc.prems unfolding ata_wait_drq_def by auto
  obtain bs d2 where i: "in_sector hw d1 = (bs, d2)" by (cases "in_sector hw d1")
  have "bs = content (dv_pos v d) \<and> dv_pos v d2 = dv_pos v d + 1 \<and> dv_left v d2 = n \<and> dv_busy v d2 < 10000000"
    using drive_okD(3) [OF ok, unfolded data_ok_def, THEN conjunct1, rule_format, of d1 bs d2] w i by simp
  then show ?case using Suc.IH [of d2 "out @ bs"] w(1) by (simp add: i sectors_Suc)
qed (simp add: sectors_def idle_def)

text \<open>Writing the registers of a drive that is ready.\<close>

lemma write_reg:
  assumes "drive_ok hw v content" "dv_busy v d = 0 \<and> dv_left v d = 0"
    "p \<in> {ATA_REG_SECCOUNT, ATA_REG_LBA0, ATA_REG_LBA1, ATA_REG_LBA2, ATA_REG_DRIVE}"
  shows "dv_regs v (out_byte hw p x d) = (dv_regs v d)(p := x)"
    "dv_busy v (out_byte hw p x d) = 0 \<and> dv_left v (out_byte hw p x d) = 0"
  using drive_okD(2) [OF assms(1), unfolded command_ok_def, rule_format, OF assms(2), THEN conjunct1, rule_format, OF assms(3)] by simp_all

lemma alt_status:
  assumes "drive_ok hw v content" "dv_busy v d = 0 \<and> dv_left v d = 0"
  shows "dv_regs v (snd (in_byte hw ATA_CTRL_BASE d)) = dv_regs v d"
    "dv_busy v (snd (in_byte hw ATA_CTRL_BASE d)) = 0 \<and> dv_left v (snd (in_byte hw ATA_CTRL_BASE d)) = 0"
proof -
  obtain s d' where s: "in_byte hw ATA_CTRL_BASE d = (s, d')" by (cases "in_byte hw ATA_CTRL_BASE d")
  show "dv_regs v (snd (in_byte hw ATA_CTRL_BASE d)) = dv_regs v d"
    "dv_busy v (snd (in_byte hw ATA_CTRL_BASE d)) = 0 \<and> dv_left v (snd (in_byte hw ATA_CTRL_BASE d)) = 0"
    using drive_okD(1) [OF assms(1), unfolded status_ok_def, THEN conjunct2, rule_format, OF s] assms(2) by (simp_all add: s)
qed

lemma io_wait_idle:
  assumes ok: "drive_ok hw v content" and d: "dv_busy v d = 0 \<and> dv_left v d = 0"
  shows "dv_regs v (ata_io_wait hw d) = dv_regs v d" "dv_busy v (ata_io_wait hw d) = 0 \<and> dv_left v (ata_io_wait hw d) = 0"
proof -
  have "dv_regs v (fold (\<lambda>_ d. snd (in_byte hw ATA_CTRL_BASE d)) xs d) = dv_regs v d \<and>
     dv_busy v (fold (\<lambda>_ d. snd (in_byte hw ATA_CTRL_BASE d)) xs d) = 0 \<and> dv_left v (fold (\<lambda>_ d. snd (in_byte hw ATA_CTRL_BASE d)) xs d) = 0" for xs :: "nat list"
    using d
  proof (induction xs arbitrary: d)
    case (Cons x xs)
    show ?case using Cons.IH [OF alt_status(2) [OF ok Cons.prems]] alt_status(1) [OF ok Cons.prems] by simp
  qed simp
  then show "dv_regs v (ata_io_wait hw d) = dv_regs v d" "dv_busy v (ata_io_wait hw d) = 0 \<and> dv_left v (ata_io_wait hw d) = 0"
    unfolding ata_io_wait_def by blast+
qed

lemma lba_mode: "(ucast (0xE0 OR (x AND 0x0F) :: u32) :: u8) AND 0x50 = 0x40"
proof (rule bit_word_eqI)
  fix n assume "n < LENGTH(8)"
  then have "n \<in> {0, 1, 2, 3, 4, 5, 6, 7}" by auto
  then show "bit ((ucast (0xE0 OR (x AND 0x0F) :: u32) :: u8) AND 0x50) n = bit (0x40 :: u8) n" by (auto simp: bit_simps)
qed

text \<open>\<^verbatim>\<open>AtaReadSectors\<close> on a working drive returns the sectors at the address asked for and leaves the drive idle again.\<close>

lemma ata_read:
  assumes ok: "drive_ok hw v content" and lba: "lba < 2 ^ 28" and c: "count \<noteq> 0" and i: "idle v d"
  shows "\<exists>d'. AtaReadSectors hw lba count d = (Some (sectors content lba (unat count)), d') \<and> idle v d'"
proof -
  obtain d1 where w: "ata_wait_not_busy hw d = (True, d1)" "dv_busy v d1 = 0 \<and> dv_left v d1 = 0"
    using not_busy_ends [OF ok, of d 10000000] i unfolding ata_wait_not_busy_def idle_def by auto
  define d2 where "d2 = out_byte hw ATA_REG_DRIVE (ucast (0xE0 OR (drop_bit 24 lba AND 0x0F))) d1"
  define d3 where "d3 = ata_io_wait hw d2"
  define d4 where "d4 = out_byte hw ATA_REG_SECCOUNT count d3"
  define d5 where "d5 = out_byte hw ATA_REG_LBA0 (ucast (lba AND 0xFF)) d4"
  define d6 where "d6 = out_byte hw ATA_REG_LBA1 (ucast (drop_bit 8 lba AND 0xFF)) d5"
  define d7 where "d7 = out_byte hw ATA_REG_LBA2 (ucast (drop_bit 16 lba AND 0xFF)) d6"
  define d8 where "d8 = out_byte hw ATA_REG_COMMAND ATA_CMD_READ_PIO d7"
  note W = write_reg [OF ok]
  have q2: "dv_regs v d2 = (dv_regs v d1)(ATA_REG_DRIVE := ucast (0xE0 OR (drop_bit 24 lba AND 0x0F)))" "dv_busy v d2 = 0 \<and> dv_left v d2 = 0"
    unfolding d2_def by (rule W [OF w(2)]; simp)+
  note q3 = io_wait_idle [OF ok q2(2), folded d3_def]
  have q4: "dv_regs v d4 = (dv_regs v d3)(ATA_REG_SECCOUNT := count)" "dv_busy v d4 = 0 \<and> dv_left v d4 = 0"
    unfolding d4_def by (rule W [OF q3(2)]; simp)+
  have q5: "dv_regs v d5 = (dv_regs v d4)(ATA_REG_LBA0 := ucast (lba AND 0xFF))" "dv_busy v d5 = 0 \<and> dv_left v d5 = 0"
    unfolding d5_def by (rule W [OF q4(2)]; simp)+
  have q6: "dv_regs v d6 = (dv_regs v d5)(ATA_REG_LBA1 := ucast (drop_bit 8 lba AND 0xFF))" "dv_busy v d6 = 0 \<and> dv_left v d6 = 0"
    unfolding d6_def by (rule W [OF q5(2)]; simp)+
  have q7: "dv_regs v d7 = (dv_regs v d6)(ATA_REG_LBA2 := ucast (drop_bit 16 lba AND 0xFF))" "dv_busy v d7 = 0 \<and> dv_left v d7 = 0"
    unfolding d7_def by (rule W [OF q6(2)]; simp)+
  have r: "dv_regs v d7 ATA_REG_LBA0 = ucast (lba AND 0xFF)" "dv_regs v d7 ATA_REG_LBA1 = ucast (drop_bit 8 lba AND 0xFF)"
    "dv_regs v d7 ATA_REG_LBA2 = ucast (drop_bit 16 lba AND 0xFF)" "dv_regs v d7 ATA_REG_DRIVE = ucast (0xE0 OR (drop_bit 24 lba AND 0x0F))"
    "dv_regs v d7 ATA_REG_SECCOUNT = count" by (simp_all add: q2(1) q3(1) q4(1) q5(1) q6(1) q7(1))
  have l: "regs_lba (dv_regs v d7) = lba" unfolding regs_lba_def r by (rule lba_bytes [OF lba])
  have m: "dv_regs v d7 ATA_REG_DRIVE AND 0x50 = 0x40" unfolding r by (rule lba_mode)
  have "unat count \<noteq> 0" using c by (simp add: unat_eq_zero)
  then have "dv_pos v d8 = lba" "dv_left v d8 = unat count" "dv_busy v d8 < 10000000"
    using drive_okD(2) [OF ok, unfolded command_ok_def, rule_format, OF q7(2), THEN conjunct2, rule_format, OF m]
    by (simp_all only: d8_def [symmetric] Let_def l r(5) if_False simp_thms)
  then have "\<exists>d'. transfer_loop hw (unat count) [] d8 = (Some (sectors content lba (unat count)), d') \<and> idle v d'"
    using transfer [OF ok, of d8 "unat count" "[]"] by simp
  then show ?thesis using c w(1) unfolding d8_def d7_def d6_def d5_def d4_def d3_def d2_def by (simp add: AtaReadSectors_def Let_def)
qed

section \<open>Cluster chains\<close>

definition cluster_data :: "(u32 \<Rightarrow> u8 list) \<Rightarrow> FAT_VOLUME \<Rightarrow> u32 \<Rightarrow> u8 list" where
  "cluster_data content g c = sectors content (cluster_to_lba g c) (unat (SectorsPerCluster g))"

definition next_cluster :: "(u32 \<Rightarrow> u8 list) \<Rightarrow> FAT_VOLUME \<Rightarrow> u32 \<Rightarrow> u32" where
  "next_cluster content g c = u32_at (content (FatStartLba g + c * 4 div 512)) (unat (c * 4 mod 512)) AND 0x0FFFFFFF"

definition volume_ok :: "FAT_VOLUME \<Rightarrow> bool" where
  "volume_ok g \<longleftrightarrow> 0 < SectorsPerCluster g \<and> SectorsPerCluster g < 256 \<and> BytesPerCluster g = SectorsPerCluster g * 512"

text \<open>The chain from a cluster on, with the addresses of its clusters and of their table entries within 28 bits.\<close>

fun chain :: "(u32 \<Rightarrow> u8 list) \<Rightarrow> FAT_VOLUME \<Rightarrow> u32 \<Rightarrow> u32 list \<Rightarrow> bool" where
  "chain content g c [] \<longleftrightarrow> FAT_EOC \<le> c"
| "chain content g c (x # xs) \<longleftrightarrow> x = c \<and> c < FAT_EOC \<and> cluster_to_lba g c < 2 ^ 28 \<and> FatStartLba g + c * 4 div 512 < 2 ^ 28 \<and>
     chain content g (next_cluster content g c) xs"

lemma volume_sizes:
  assumes "volume_ok g"
  shows "(ucast (SectorsPerCluster g) :: u8) \<noteq> 0" "unat (ucast (SectorsPerCluster g) :: u8) = unat (SectorsPerCluster g)"
    "unat (BytesPerCluster g) = 512 * unat (SectorsPerCluster g)" "0 < unat (BytesPerCluster g)" "unat (BytesPerCluster g) < 2 ^ 17"
proof -
  have s: "0 < unat (SectorsPerCluster g)" "unat (SectorsPerCluster g) < 256" and b: "BytesPerCluster g = SectorsPerCluster g * 512"
    using assms by (auto simp: volume_ok_def word_less_nat_alt)
  show u: "unat (ucast (SectorsPerCluster g) :: u8) = unat (SectorsPerCluster g)"
    using s(2) by (simp add: unsigned_ucast_eq take_bit_nat_eq_self)
  show "(ucast (SectorsPerCluster g) :: u8) \<noteq> 0" using u s(1) by (metis less_irrefl unsigned_0)
  have "unat (SectorsPerCluster g * 512) = unat (SectorsPerCluster g) * 512"
    using s(2) by (subst unat_word_ariths(2)) simp
  then show "unat (BytesPerCluster g) = 512 * unat (SectorsPerCluster g)" "0 < unat (BytesPerCluster g)" "unat (BytesPerCluster g) < 2 ^ 17"
    using s by (simp_all add: b)
qed

lemma read_cluster_ok:
  assumes "drive_ok hw v content" "volume_ok g" "cluster_to_lba g c < 2 ^ 28" "idle v d"
  shows "\<exists>d'. read_cluster hw g c d = (Some (cluster_data content g c), d') \<and> idle v d'"
  using ata_read [OF assms(1,3) volume_sizes(1) [OF assms(2)] assms(4)] volume_sizes(2) [OF assms(2)]
  by (simp add: read_cluster_def cluster_data_def)

lemma next_cluster_ok:
  assumes "drive_ok hw v content" "FatStartLba g + c * 4 div 512 < 2 ^ 28" "idle v d"
  shows "\<exists>d'. fat_next_cluster hw g c d = (next_cluster content g c, d') \<and> idle v d'"
proof -
  have "sectors content (FatStartLba g + c * 4 div 512) (Suc 0) = content (FatStartLba g + c * 4 div 512)"
    unfolding sectors_Suc by (simp add: sectors_def)
  then show ?thesis using ata_read [OF assms(1,2) one_neq_zero assms(3)] by (auto simp: fat_next_cluster_def next_cluster_def Let_def)
qed

lemma cluster_length: "drive_ok hw v content \<Longrightarrow> volume_ok g \<Longrightarrow> length (cluster_data content g c) = unat (BytesPerCluster g)"
  by (simp add: cluster_data_def volume_sizes(3)) (rule sectors_length, rule drive_okD(4))

section \<open>Finding a name\<close>

definition dir_entries :: "(u32 \<Rightarrow> u8 list) \<Rightarrow> FAT_VOLUME \<Rightarrow> u32 list \<Rightarrow> u8 list list" where
  "dir_entries content g cs = concat (map (\<lambda>c. entries_of (unat (BytesPerCluster g div 32)) (cluster_data content g c)) cs)"

definition lookup :: "cstring \<Rightarrow> u8 list list \<Rightarrow> lfn_state \<Rightarrow> u8 list option" where
  "lookup name es l = (case find_scan name es l of ScanFound e \<Rightarrow> Some e | _ \<Rightarrow> None)"

lemma find_scan_append:
  "find_scan name (xs @ ys) l = (case find_scan name xs l of ScanMore l' \<Rightarrow> find_scan name ys l' | r \<Rightarrow> r)"
  by (induction xs arbitrary: l) simp_all

lemma find_loop_chain:
  assumes ok: "drive_ok hw v content" "volume_ok g"
  shows "chain content g c cs \<Longrightarrow> idle v d \<Longrightarrow> \<exists>d'. find_loop hw g name c l d = Some (lookup name (dir_entries content g cs) l, d') \<and> idle v d'"
proof (induction cs arbitrary: c l d)
  case Nil
  then show ?case by (subst find_loop.simps) (simp add: lookup_def dir_entries_def not_less [symmetric])
next
  case (Cons x xs)
  then have ch: "x = c" "c < FAT_EOC" "cluster_to_lba g c < 2 ^ 28" "FatStartLba g + c * 4 div 512 < 2 ^ 28" "chain content g (next_cluster content g c) xs"
    by simp_all
  obtain d1 where r: "read_cluster hw g c d = (Some (cluster_data content g c), d1)" "idle v d1"
    using read_cluster_ok [OF ok ch(3) Cons.prems(2)] by blast
  obtain d2 where n: "fat_next_cluster hw g c d1 = (next_cluster content g c, d2)" "idle v d2" using next_cluster_ok [OF ok(1) ch(4) r(2)] by blast
  let ?es = "entries_of (unat (BytesPerCluster g div 32)) (cluster_data content g c)"
  have e: "dir_entries content g (x # xs) = ?es @ dir_entries content g xs" using ch(1) by (simp add: dir_entries_def)
  have st: "find_loop hw g name c l d = (case find_scan name ?es l of ScanEnd \<Rightarrow> Some (None, d1) | ScanFound e \<Rightarrow> Some (Some e, d2)
      | ScanMore l' \<Rightarrow> find_loop hw g name (next_cluster content g c) l' d2)"
    by (subst find_loop.simps) (use ch(2) in \<open>simp add: r(1) n(1) Let_def split: scan_result.split\<close>)
  show ?case
    using Cons.IH [OF ch(5) n(2)] r(2) n(2) unfolding st lookup_def e find_scan_append by (auto split: scan_result.splits)
qed

section \<open>Reading a file\<close>

definition file_data_of :: "(u32 \<Rightarrow> u8 list) \<Rightarrow> FAT_VOLUME \<Rightarrow> u32 list \<Rightarrow> u8 list" where
  "file_data_of content g cs = concat (map (cluster_data content g) cs)"

lemma splice_next:
  assumes "length buf = p + r" "n \<le> r" "n \<le> length xs"
  shows "take (p + n) (splice p (take n xs) buf) = take p buf @ take n xs" "length (splice p (take n xs) buf) = length buf"
  using assms by (simp_all add: splice_def)

lemma load_loop_chain:
  assumes ok: "drive_ok hw v content" "volume_ok g"
  shows "chain content g c cs \<Longrightarrow> idle v d \<Longrightarrow> unat p + unat rem = length buf \<Longrightarrow> length buf < 2 ^ 63 \<Longrightarrow> unat rem \<le> length (file_data_of content g cs) \<Longrightarrow>
    \<exists>d'. load_loop hw g c p rem buf d = Some (True, take (unat p) buf @ take (unat rem) (file_data_of content g cs), d') \<and> idle v d'"
proof (induction cs arbitrary: c p rem buf d)
  case Nil
  then have "rem = 0" "length buf = unat p" by (simp_all add: file_data_of_def unat_eq_zero)
  then show ?case using Nil.prems(2) by (subst load_loop.simps) (simp add: file_data_of_def)
next
  case (Cons x xs)
  then have ch: "x = c" "c < FAT_EOC" "cluster_to_lba g c < 2 ^ 28" "FatStartLba g + c * 4 div 512 < 2 ^ 28" "chain content g (next_cluster content g c) xs"
    by simp_all
  show ?case
  proof (cases "rem = 0")
    case True
    then show ?thesis using Cons.prems(2,3) by (subst load_loop.simps) simp
  next
    case False
    obtain d1 where r: "read_cluster hw g c d = (Some (cluster_data content g c), d1)" "idle v d1" using read_cluster_ok [OF ok ch(3) Cons.prems(2)] by blast
    obtain d2 where nx: "fat_next_cluster hw g c d1 = (next_cluster content g c, d2)" "idle v d2" using next_cluster_ok [OF ok(1) ch(4) r(2)] by blast
    define bpc where "bpc = (ucast (BytesPerCluster g) :: u64)"
    define n where "n = (if rem < bpc then rem else bpc)"
    have ub: "unat bpc = unat (BytesPerCluster g)"
      using volume_sizes(5) [OF ok(2)] by (simp add: bpc_def unsigned_ucast_eq take_bit_nat_eq_self)
    have un: "unat n = min (unat rem) (unat (BytesPerCluster g))" using ub by (auto simp: n_def min_def word_less_nat_alt)
    have len: "length (cluster_data content g c) = unat (BytesPerCluster g)" by (rule cluster_length [OF ok])
    let ?buf = "splice (unat p) (take (unat n) (cluster_data content g c)) buf"
    have st: "load_loop hw g c p rem buf d = load_loop hw g (next_cluster content g c) (p + n) (rem - n) ?buf d2"
      by (subst load_loop.simps) (use ch(2) False in \<open>simp add: r(1) nx(1) Let_def n_def bpc_def word_gt_0\<close>)
    have nr: "unat n \<le> unat rem" "unat n \<le> length (cluster_data content g c)" using un len by simp_all
    have up: "unat (p + n) = unat p + unat n" using Cons.prems(3,4) nr(1) by (subst unat_word_ariths(1)) simp
    have ur: "unat (rem - n) = unat rem - unat n" using nr(1) by (simp add: unat_sub word_le_nat_alt)
    note sp = splice_next [OF Cons.prems(3) [symmetric] nr]
    have tot: "unat rem \<le> unat (BytesPerCluster g) + length (file_data_of content g xs)"
      using Cons.prems(5) len ch(1) by (simp add: file_data_of_def)
    have "unat (rem - n) \<le> length (file_data_of content g xs)" using tot un ur by simp
    moreover have "unat (p + n) + unat (rem - n) = length ?buf" using Cons.prems(3) nr(1) by (simp add: up ur sp(2))
    moreover have "length ?buf < 2 ^ 63" using Cons.prems(4) by (simp add: sp(2))
    ultimately obtain d' where l: "load_loop hw g (next_cluster content g c) (p + n) (rem - n) ?buf d2 =
        Some (True, take (unat (p + n)) ?buf @ take (unat (rem - n)) (file_data_of content g xs), d')" "idle v d'"
      using Cons.IH [OF ch(5) nx(2)] by blast
    have "take (unat rem) (file_data_of content g (x # xs)) = take (unat n) (cluster_data content g c) @ take (unat (rem - n)) (file_data_of content g xs)"
      using un len ch(1) by (auto simp: file_data_of_def ur min_def)
    then show ?thesis using l unfolding st up sp(1) by simp
  qed
qed

section \<open>Room in the pool\<close>

lemma last_free_list:
  assumes "ys \<noteq> []" "bfree (last ys)" "k \<le> bsize (last ys)"
  shows "free_list xs b ys \<noteq> []" "bfree (last (free_list xs b ys))" "k \<le> bsize (last (free_list xs b ys))"
proof -
  define ns where "ns = absorb_next (freed b) ys"
  have "ns \<noteq> [] \<and> bfree (last ns) \<and> k \<le> bsize (last ns)"
    using assms by (cases "tl ys") (auto simp: ns_def absorb_next_def join_def freed_def neq_Nil_conv)
  then have "absorb_prev xs (hd ns) (tl ns) \<noteq> [] \<and> bfree (last (absorb_prev xs (hd ns) (tl ns))) \<and> k \<le> bsize (last (absorb_prev xs (hd ns) (tl ns)))"
    by (cases ns; cases "tl ns") (auto simp: absorb_prev_def join_def)
  then show "free_list xs b ys \<noteq> []" "bfree (last (free_list xs b ys))" "k \<le> bsize (last (free_list xs b ys))"
    by (simp_all add: free_list_def ns_def [symmetric] Let_def)
qed

lemma pool_room_free:
  assumes room: "pool_room s L k" and l: "L p = Some r"
  shows "\<exists>s'. ExFreePool p s = Some s' \<and> pool_room s' (L(p := None)) k"
proof -
  from room obtain bs where bs: "pool_inv s bs" "L = live_from 0 bs" "bs \<noteq> []" "bfree (last bs)" "k \<le> bsize (last bs)" by (auto simp: pool_room_def)
  obtain xs b ys where b: "bs = xs @ b # ys" "\<not> bfree b" "p = A (extent xs + 48)" by (rule live_block [OF bs(1) l [unfolded bs(2)]])
  have ys: "ys \<noteq> []" using b bs(4) by auto
  then have "last bs = last ys" by (simp add: b(1))
  with last_free_list [OF ys, of k xs b] bs(4,5) ExFreePool_spec [OF bs(1) [unfolded b(1)] b(2)] show ?thesis
    unfolding pool_room_def b(1,3) bs(2) by (metis b(1))
qed

section \<open>Loading\<close>

lemma dev_pool: "s\<lparr>dev := d, pool := p\<rparr> = s\<lparr>pool := p, dev := d\<rparr>"
  by (cases s) simp

lemma fat_find_chain:
  assumes ok: "drive_ok hw v content" "volume_ok (g_fat s)" and ch: "chain content (g_fat s) c cs" and i: "idle v (dev s)"
    and room: "pool_room (pool s) L k" and k: "need_of (ucast (BytesPerCluster (g_fat s))) + 64 \<le> k"
  shows "\<exists>p d. fat_find hw c name s = Some (lookup name (dir_entries content (g_fat s) cs) no_lfn, s\<lparr>pool := p, dev := d\<rparr>) \<and>
    pool_room p L (k - need_of (ucast (BytesPerCluster (g_fat s))) - 48) \<and> idle v d"
proof -
  let ?b = "ucast (BytesPerCluster (g_fat s)) :: u64"
  have "unat ?b = unat (BytesPerCluster (g_fat s))"
    using volume_sizes(5) [OF ok(2)] by (simp add: unsigned_ucast_eq take_bit_nat_eq_self)
  then have b0: "?b \<noteq> 0" using volume_sizes(4) [OF ok(2)] by (metis less_irrefl unsigned_0)
  from pool_room_alloc [OF room b0 k, of "0x746146"] obtain buf p where
    a: "ExAllocatePoolWithTag NonPagedPool ?b 0x746146 (pool s) = Some (buf, p)" "buf \<noteq> 0" "L buf = None"
      "pool_room p (L(buf \<mapsto> unat ?b)) (k - need_of ?b - 48)" by blast
  from pool_room_free [OF a(4), of buf] obtain p' where
    f: "ExFreePool buf p = Some p'" "pool_room p' ((L(buf \<mapsto> unat ?b))(buf := None)) (k - need_of ?b - 48)" by auto
  have "(L(buf \<mapsto> unat ?b))(buf := None) = L" using a(3) by auto
  moreover obtain d where "find_loop hw (g_fat s) name c no_lfn (dev s) = Some (lookup name (dir_entries content (g_fat s) cs) no_lfn, d)" "idle v d"
    using find_loop_chain [OF ok ch i] by blast
  ultimately show ?thesis using a(1,2) f by (intro exI [of _ p'] exI [of _ d]) (simp add: fat_find_def Let_def dev_pool)
qed

text \<open>The pool that a load of a file of a given size needs: twice a cluster buffer, and the file's own.\<close>

definition load_room :: "FAT_VOLUME \<Rightarrow> u32 \<Rightarrow> nat" where
  "load_room g sz = 2 * (need_of (ucast (BytesPerCluster g)) + 48) + need_of (if sz \<noteq> 0 then ucast sz else 1) + 48 + 64"

definition first_cluster :: "u8 list \<Rightarrow> u32" where
  "first_cluster e = push_bit 16 (ucast (de_FirstClusterHigh e)) OR ucast (de_FirstClusterLow e)"

section \<open>Properties\<close>

text \<open>(C32) Loading a file. On a mounted volume of an idle drive that works, with a root directory whose cluster chain ends, a name that
  the directory has, a chain of the file's clusters that is long enough for its size, and room in the pool, \<^verbatim>\<open>FatLoadFile\<close>
  returns \<^verbatim>\<open>STATUS_SUCCESS\<close> with a new pool block that holds the first bytes of the clusters of that chain, as many as the
  directory entry says, and the entry's metadata; both cluster buffers have been released, so that the new block is the
  only change to the pool's live blocks. The entry is the first that matches across cluster boundaries, by its long name or,
  for names that fit 8.3, by its short one. The drive may be busy for fewer than ten million polls before every sector; it is
  idle again at the end.\<close>

theorem FatLoadFile_correct:
  assumes ok: "drive_ok hw v content" and i: "idle v (dev s)" and vol: "Mounted (g_fat s)" "volume_ok (g_fat s)"
    and dir: "chain content (g_fat s) (RootCluster (g_fat s)) ds"
    and entry: "lookup name (dir_entries content (g_fat s) ds) no_lfn = Some e"
    and fl: "chain content (g_fat s) (first_cluster e) cs" "unat (de_FileSize e) \<le> length (file_data_of content (g_fat s) cs)"
    and room: "pool_room (pool s) L (load_room (g_fat s) (de_FileSize e))"
  shows "\<exists>buffer s' d p. FatLoadFile hw name s =
      Some (STATUS_SUCCESS, Some (buffer, ucast (de_FileSize e), entry_info (take 259 name) e), s') \<and>
    L buffer = None \<and> pool_rel (pool s') (L(buffer \<mapsto> max 1 (unat (de_FileSize e)))) \<and> idle v d \<and>
    s' = s\<lparr>pool := p, dev := d, io_data := (io_data s)(buffer := take (unat (de_FileSize e)) (file_data_of content (g_fat s) cs))\<rparr>"
proof -
  let ?g = "g_fat s" and ?sz = "de_FileSize e"
  define n where "n = ((if ?sz \<noteq> 0 then ucast ?sz else 1) :: u64)"
  define b where "b = (ucast (BytesPerCluster ?g) :: u64)"
  have ub: "unat b = unat (BytesPerCluster ?g)" using volume_sizes(5) [OF vol(2)] by (simp add: b_def unsigned_ucast_eq take_bit_nat_eq_self)
  then have b0: "b \<noteq> 0" using volume_sizes(4) [OF vol(2)] by (metis less_irrefl unsigned_0)
  have us: "unat (ucast ?sz :: u64) = unat ?sz"
    using unsigned_less [of ?sz, where ?'a = nat] by (simp add: unsigned_ucast_eq take_bit_nat_eq_self)
  have un: "unat n = max 1 (unat ?sz)"
  proof (cases "?sz = 0")
    case False
    then have "0 < unat ?sz" by (simp add: unat_gt_0)
    then show ?thesis using us False by (simp add: n_def)
  qed (simp add: n_def)
  have n0: "n \<noteq> 0" using un by auto
  obtain p1 d1 where f: "fat_find hw (RootCluster ?g) name s = Some (Some e, s\<lparr>pool := p1, dev := d1\<rparr>)"
    "pool_room p1 L (load_room ?g ?sz - need_of b - 48)" "idle v d1"
    using fat_find_chain [OF ok vol(2) dir i room, of name] entry unfolding b_def by (auto simp: load_room_def)
  have k: "need_of n + 64 \<le> load_room ?g ?sz - need_of b - 48" by (simp add: load_room_def n_def b_def)
  from pool_room_alloc [OF f(2) n0 k, of "0x6C6946"] obtain buffer p2 where
    a: "ExAllocatePoolWithTag NonPagedPool n 0x6C6946 p1 = Some (buffer, p2)" "buffer \<noteq> 0" "L buffer = None"
      "pool_room p2 (L(buffer \<mapsto> unat n)) (load_room ?g ?sz - need_of b - 48 - need_of n - 48)" by blast
  have k2: "need_of b + 64 \<le> load_room ?g ?sz - need_of b - 48 - need_of n - 48" by (simp add: load_room_def n_def b_def)
  from pool_room_alloc [OF a(4) b0 k2, of "0x746146"] obtain chunk p3 where
    c: "ExAllocatePoolWithTag NonPagedPool b 0x746146 p2 = Some (chunk, p3)" "chunk \<noteq> 0" "(L(buffer \<mapsto> unat n)) chunk = None"
      "pool_room p3 (L(buffer \<mapsto> unat n, chunk \<mapsto> unat b)) (load_room ?g ?sz - need_of b - 48 - need_of n - 48 - need_of b - 48)" by blast
  from pool_room_free [OF c(4), of chunk] obtain p4 where
    r: "ExFreePool chunk p3 = Some p4" "pool_room p4 ((L(buffer \<mapsto> unat n, chunk \<mapsto> unat b))(chunk := None)) (load_room ?g ?sz - need_of b - 48 - need_of n - 48 - need_of b - 48)"
    by auto
  have "(L(buffer \<mapsto> unat n, chunk \<mapsto> unat b))(chunk := None) = L(buffer \<mapsto> unat n)" using c(3) by (auto simp: fun_eq_iff)
  then have rel: "pool_rel p4 (L(buffer \<mapsto> max 1 (unat ?sz)))" using pool_room_rel [OF r(2)] un by simp
  let ?junk = "map (\<lambda>i. payload p3 (buffer + of_nat i)) [0..<unat ?sz]"
  have "length ?junk < 2 ^ 63" using unsigned_less [of ?sz, where ?'a = nat] by simp
  then obtain d2 where l: "load_loop hw ?g (first_cluster e) 0 (ucast ?sz) ?junk d1 =
      Some (True, take (unat ?sz) (file_data_of content ?g cs), d2)" "idle v d2"
    using load_loop_chain [OF ok vol(2) fl(1) f(3), of 0 "ucast ?sz" ?junk] us fl(2) by auto
  let ?s' = "s\<lparr>pool := p4, dev := d2, io_data := (io_data s)(buffer := take (unat ?sz) (file_data_of content ?g cs))\<rparr>"
  have "FatLoadFile hw name s = Some (STATUS_SUCCESS, Some (buffer, ucast ?sz, entry_info (take 259 name) e), ?s')"
    unfolding FatLoadFile_def Let_def using vol(1) f(1) a(1,2) c(1,2) r(1) l(1)
    by (simp add: n_def [symmetric] b_def [symmetric] first_cluster_def [symmetric])
  then show ?thesis using a(3) rel l(2) by (intro exI [of _ buffer] exI [of _ ?s'] exI [of _ d2] exI [of _ p4]) simp
qed

section \<open>8.3 names\<close>

definition has_blank :: "cstring \<Rightarrow> bool" where
  "has_blank n \<longleftrightarrow> BLANK \<in> set n"

lemma is_83_ext: "is_83_loop cs b x True \<Longrightarrow> DOT \<notin> set cs \<and> x + length cs \<le> max x 3 \<and> b \<noteq> 0"
proof (induction cs arbitrary: x)
  case (Cons c cs)
  then show ?case using Cons.IH [of "x + 1"] by (auto split: if_splits)
qed simp

lemma is_83_base:
  "is_83_loop cs b 0 False \<Longrightarrow> b + length (takeWhile (\<lambda>c. c \<noteq> DOT) cs) \<le> max b 8 \<and> 0 < b + length (takeWhile (\<lambda>c. c \<noteq> DOT) cs) \<and>
     (let r = dropWhile (\<lambda>c. c \<noteq> DOT) cs in r = [] \<or> length (tl r) \<le> 3 \<and> DOT \<notin> set (tl r))"
proof (induction cs arbitrary: b)
  case (Cons c cs)
  show ?case
  proof (cases "c = DOT")
    case True
    then show ?thesis using Cons.prems is_83_ext [of cs b 0] by auto
  next
    case False
    then show ?thesis using Cons.prems Cons.IH [of "b + 1"] by (auto split: if_splits)
  qed
qed simp

lemma take_while_pad: "BLANK \<notin> set xs \<Longrightarrow> takeWhile (\<lambda>c. c \<noteq> BLANK) (pad_to n xs) = xs"
  unfolding pad_to_def by (subst takeWhile_append2) (auto simp: takeWhile_replicate)

lemma up_blank: "up_char c = BLANK \<longleftrightarrow> c = BLANK"
proof -
  have "c - 32 = BLANK \<longleftrightarrow> c = 64" by (simp add: diff_eq_eq)
  then show ?thesis by (auto simp: up_char_def)
qed

lemma pad_to_length: "length xs \<le> n \<Longrightarrow> length (pad_to n xs) = n"
  by (simp add: pad_to_def)

text \<open>Short names. A name that \<^verbatim>\<open>name_is_83\<close> accepts, with no blank in it and not ending in a dot, survives the packed form of a
  directory entry: \<^verbatim>\<open>from_83\<close> of \<^verbatim>\<open>to_83\<close> is the name in upper case. So two such names have the same packed form only if they
  are equal up to case, and the short name comparison of \<^verbatim>\<open>fat_find\<close> does not confuse different files.\<close>

theorem short_name_roundtrip:
  assumes ok: "name_is_83 n" and blank: "\<not> has_blank n" and dot: "last n \<noteq> DOT"
  shows "length (to_83 n) = 11 \<and> from_83 (to_83 n) = map up_char n"
proof -
  define base r where "base = takeWhile (\<lambda>c. c \<noteq> DOT) n" and "r = dropWhile (\<lambda>c. c \<noteq> DOT) n"
  have n: "n = base @ r" by (simp add: base_def r_def)
  from is_83_base [OF ok [unfolded name_is_83_def]] have b: "length base \<le> 8" "r = [] \<or> length (tl r) \<le> 3"
    by (auto simp: base_def r_def Let_def)
  have hd: "r \<noteq> [] \<Longrightarrow> hd r = DOT" unfolding r_def by (metis (mono_tags) hd_dropWhile)
  define ext where "ext = (if r = [] then [] else tl r)"
  have r: "r = [] \<and> ext = [] \<or> r = DOT # ext \<and> ext \<noteq> []"
  proof (cases r)
    case (Cons d x)
    then have "r = DOT # x" using hd by simp
    moreover have "x \<noteq> []" using dot n \<open>r = DOT # x\<close> by auto
    ultimately show ?thesis by (simp add: ext_def)
  qed (simp add: ext_def)
  have up: "BLANK \<notin> up_char ` set xs" if "BLANK \<notin> set xs" for xs using that up_blank by (metis image_iff)
  have nb: "BLANK \<notin> up_char ` set base" "BLANK \<notin> up_char ` set ext" using blank r by (auto simp: has_blank_def n intro!: up)
  have l: "length ext \<le> 3" using b(2) by (auto simp: ext_def)
  have t: "to_83 n = pad_to 8 (map up_char base) @ pad_to 3 (map up_char ext)"
    using b l by (auto simp: to_83_def base_def [symmetric] r_def [symmetric] ext_def Let_def)
  have len: "length (pad_to 8 (map up_char base)) = 8" "length (pad_to 3 (map up_char ext)) = 3" using b(1) l by (simp_all add: pad_to_length)
  have nth: "to_83 n ! 8 = BLANK \<longleftrightarrow> ext = []"
  proof -
    have "to_83 n ! 8 = pad_to 3 (map up_char ext) ! 0" unfolding t using len(1) by (simp add: nth_append)
    then show ?thesis using nb(2) by (cases ext) (auto simp: pad_to_def)
  qed
  have "from_83 (to_83 n) = map up_char base @ (if ext = [] then [] else DOT # map up_char ext)"
    unfolding from_83_def nth using nb len take_while_pad by (simp add: t)
  moreover have "up_char DOT = DOT" by (simp add: up_char_def)
  moreover have "length (to_83 n) = 11" unfolding t using len by simp
  moreover have "map up_char n = map up_char base @ (if ext = [] then [] else up_char DOT # map up_char ext)" using r by (auto simp: n)
  ultimately show ?thesis by simp
qed

theorem short_name_roundtrip_witness:
  "from_83 (to_83 [0x61, 0x2E, 0x62, 0x63]) = [0x41, 0x2E, 0x42, 0x43]"
  using short_name_roundtrip [of "[0x61, 0x2E, 0x62, 0x63]"] by (simp add: name_is_83_def has_blank_def up_char_def)

section \<open>A small disk\<close>

text \<open>A drive that is busy for three polls after a command and for two before each further sector, and shows DRQ only when a sector
  waits.\<close>

record sim_disk =
  sd_regs :: "u16 \<Rightarrow> u8"
  sd_pos :: u32
  sd_left :: nat
  sd_busy :: nat

definition sim_status :: "sim_disk \<Rightarrow> u8" where
  "sim_status d = (if sd_busy d > 0 then 0x80 else if sd_left d > 0 then 0x48 else 0x40)"

definition sim_drive :: "(u32 \<Rightarrow> u8 list) \<Rightarrow> sim_disk ata_ports" where
  "sim_drive content = \<lparr>in_byte = (\<lambda>p d. (sim_status d, if p = ATA_REG_STATUS then d\<lparr>sd_busy := sd_busy d - 1\<rparr> else d)),
     out_byte = (\<lambda>p x d. if sd_busy d > 0 \<or> sd_left d > 0 then d
        else if p = ATA_REG_COMMAND
        then d\<lparr>sd_pos := regs_lba (sd_regs d), sd_left := (let n = unat (sd_regs d ATA_REG_SECCOUNT) in if n = 0 then 256 else n), sd_busy := 3\<rparr>
        else d\<lparr>sd_regs := (sd_regs d)(p := x)\<rparr>),
     in_sector = (\<lambda>d. (content (sd_pos d), d\<lparr>sd_pos := sd_pos d + 1, sd_left := sd_left d - 1, sd_busy := 2\<rparr>))\<rparr>"

definition sim_view :: "sim_disk drive_view" where
  "sim_view = \<lparr>dv_regs = sd_regs, dv_pos = sd_pos, dv_left = sd_left, dv_busy = sd_busy\<rparr>"

lemma sim_drive_ok:
  assumes "\<And>lba. length (content lba) = 512"
  shows "drive_ok (sim_drive content) sim_view content"
proof -
  have "status_ok (sim_drive content) sim_view" by (auto simp: status_ok_def sim_drive_def sim_view_def sim_status_def)
  moreover have "command_ok (sim_drive content) sim_view" by (auto simp: command_ok_def sim_drive_def sim_view_def Let_def)
  moreover have "data_ok (sim_drive content) sim_view content" using assms by (auto simp: data_ok_def sim_drive_def sim_view_def)
  ultimately show ?thesis by (simp add: drive_ok_def)
qed

definition demo_entry :: "u8 list" where
  "demo_entry = [0x41, 0x20, 0x20, 0x20, 0x20, 0x20, 0x20, 0x20, 0x54, 0x58, 0x54, 0x20, 0, 0, 0, 0, 0, 0, 0, 0, 0, 0, 0, 0, 0, 0, 3, 0, 2, 0, 0, 0]"

definition demo_disk :: "u32 \<Rightarrow> u8 list" where
  "demo_disk lba =
     (if lba = 1 then [0, 0, 0, 0, 0, 0, 0, 0, 0xFF, 0xFF, 0xFF, 0x0F, 0xFF, 0xFF, 0xFF, 0x0F] @ replicate 496 0
      else if lba = 2 then demo_entry @ replicate 480 0
      else if lba = 3 then [0x48, 0x69] @ replicate 510 0
      else replicate 512 0)"

definition demo_volume :: FAT_VOLUME where
  "demo_volume = \<lparr>Mounted = True, FatStartLba = 1, DataStartLba = 2, SectorsPerCluster = 1, BytesPerCluster = 512, RootCluster = 2\<rparr>"

lemma demo_disk_length: "length (demo_disk lba) = 512"
  by (simp add: demo_disk_def demo_entry_def)

lemma demo_cluster: "cluster_data demo_disk demo_volume 2 = demo_disk 2" "cluster_data demo_disk demo_volume 3 = demo_disk 3"
  by (simp_all add: cluster_data_def cluster_to_lba_def demo_volume_def sectors_def)

lemma demo_next: "next_cluster demo_disk demo_volume 2 = 0x0FFFFFFF" "next_cluster demo_disk demo_volume 3 = 0x0FFFFFFF"
  by (simp_all add: next_cluster_def demo_volume_def demo_disk_def u32_at_def u16_at_def)

lemma demo_chain: "chain demo_disk demo_volume 2 [2]" "chain demo_disk demo_volume 3 [3]"
  by (simp_all add: demo_next) (simp_all add: cluster_to_lba_def demo_volume_def)

lemma demo_lookup: "lookup [0x61, 0x2E, 0x74, 0x78, 0x74] (dir_entries demo_disk demo_volume [2]) l = Some demo_entry"
proof -
  have "unat (BytesPerCluster demo_volume div 32) = 16" by (simp add: demo_volume_def)
  moreover have "[0..<16] = 0 # [1..<16]" by (simp add: upt_conv_Cons)
  ultimately have "dir_entries demo_disk demo_volume [2] = take 32 (demo_disk 2) # map (\<lambda>i. take 32 (drop (32 * i) (demo_disk 2))) [1..<16]"
    by (simp add: dir_entries_def demo_cluster entries_of_def)
  moreover have "take 32 (demo_disk 2) = demo_entry" by (simp add: demo_disk_def demo_entry_def)
  moreover have seven: "replicate 7 BLANK = [BLANK, BLANK, BLANK, BLANK, BLANK, BLANK, BLANK]" by (simp add: numeral_nat)
  moreover have "name_is_83 [0x61, 0x2E, 0x74, 0x78, 0x74]" "to_83 [0x61, 0x2E, 0x74, 0x78, 0x74] = de_Name demo_entry"
    by (simp_all add: name_is_83_def to_83_def de_Name_def demo_entry_def up_char_def pad_to_def seven)
  ultimately show ?thesis by (simp add: lookup_def demo_entry_def de_Attr_def)
qed

theorem FatLoadFile_correct_witness:
  "\<exists>(s :: (sim_disk, unit) io_state_scheme) i buffer s'.
     FatLoadFile (sim_drive demo_disk) [0x61, 0x2E, 0x74, 0x78, 0x74] s = Some (STATUS_SUCCESS, Some (buffer, 2, i), s') \<and> io_data s' buffer = [0x48, 0x69]"
proof -
  let ?z = "\<lparr>dev = \<lparr>sd_regs = (\<lambda>_. 0), sd_pos = 0, sd_left = 0, sd_busy = 5\<rparr>, g_fat = demo_volume, io_data = (\<lambda>_. []), \<dots> = ()\<rparr>"
  obtain s :: "(sim_disk, unit) io_state_scheme" and L where d: "pool_room (pool s) L 65000" "ob_state.more s = ?z"
    by (rule demo_object [where z = ?z]) blast
  have g: "g_fat s = demo_volume" and i: "idle sim_view (dev s)" using d(2) by (cases s, simp add: idle_def sim_view_def)+
  have v: "Mounted demo_volume" "volume_ok demo_volume" "RootCluster demo_volume = 2" by (simp_all add: demo_volume_def volume_ok_def)
  have e: "first_cluster demo_entry = 3" "de_FileSize demo_entry = 2"
    by (simp_all add: first_cluster_def de_FirstClusterHigh_def de_FirstClusterLow_def de_FileSize_def u16_at_def u32_at_def demo_entry_def)
  have len: "file_data_of demo_disk demo_volume [3] = demo_disk 3" by (simp add: file_data_of_def demo_cluster)
  have t: "take 2 (demo_disk 3) = [0x48, 0x69]" by (simp add: demo_disk_def)
  have room: "pool_room (pool s) L (load_room demo_volume 2)" using d(1) unfolding pool_room_def by (fastforce simp: load_room_def need_of_def demo_volume_def)
  from FatLoadFile_correct [OF sim_drive_ok [of demo_disk, OF demo_disk_length] i, where ds = "[2]" and name = "[0x61, 0x2E, 0x74, 0x78, 0x74]"
      and e = demo_entry and cs = "[3]" and L = L]
  show ?thesis using demo_chain demo_lookup v room by (fastforce simp: g e len demo_disk_length t)
qed

end
