(* ===== verification/Hal_Console.thy ===== *)
theory Hal_Console
  imports Hal_Vga Rtl_Print
begin

text \<open>
  The early console and the kernel log: \<^verbatim>\<open>kernel/hal/serial.c\<close>, \<^verbatim>\<open>kernel/hal/console.c\<close> and \<^verbatim>\<open>kernel/ke/log.c\<close>. A character goes to
  the serial port and to the VGA console. \<open>com1\<close> is the list of the writes to the registers of the UART, last first; the model is
  of a UART that drains its transmit register, so that the polling before each byte ends (with one that does not, the code
  waits for ever). A log line is formatted into a buffer of 512 bytes by \<open>RtlFormatV\<close> and written up to its NUL. \<open>KeBugCheck\<close> is
  what the console shows when the machine halts; masking of interrupts has no effect in a model of one caller.
\<close>

abbreviation "UART_DATA \<equiv> (0 :: u16)"
abbreviation "UART_IER \<equiv> (1 :: u16)"
abbreviation "UART_FCR \<equiv> (2 :: u16)"
abbreviation "UART_LCR \<equiv> (3 :: u16)"
abbreviation "UART_MCR \<equiv> (4 :: u16)"

record console_state =
  g_serial_ready :: bool
  com1 :: "(u16 \<times> u8) list"
  vga :: vga_state

definition uart_out :: "u16 \<Rightarrow> u8 \<Rightarrow> console_state \<Rightarrow> console_state" where
  "uart_out reg v s = s\<lparr>com1 := (reg, v) # com1 s\<rparr>"

definition HalInitializeSerial :: "console_state \<Rightarrow> console_state" where
  "HalInitializeSerial s =
     (let s1 = uart_out UART_IER 0x00 s;
          s2 = uart_out UART_LCR 0x80 s1;
          s3 = uart_out UART_DATA 0x01 s2;
          s4 = uart_out UART_IER 0x00 s3;
          s5 = uart_out UART_LCR 0x03 s4;
          s6 = uart_out UART_FCR 0xC7 s5;
          s7 = uart_out UART_MCR 0x0B s6
      in s7\<lparr>g_serial_ready := True\<rparr>)"

definition HalSerialPutChar :: "u8 \<Rightarrow> console_state \<Rightarrow> console_state" where
  "HalSerialPutChar c s =
     (if \<not> g_serial_ready s then s
      else
        (let s1 = (if c = 0x0A then uart_out UART_DATA 0x0D s else s)
         in uart_out UART_DATA c s1))"

definition HalInitializeConsole :: "u64 \<Rightarrow> console_state \<Rightarrow> console_state" where
  "HalInitializeConsole direct_map s = (let s1 = HalInitializeSerial s in s1\<lparr>vga := HalInitializeVga direct_map (vga s1)\<rparr>)"

definition HalConsolePutChar :: "u8 \<Rightarrow> console_state \<Rightarrow> console_state" where
  "HalConsolePutChar c s = (let s1 = HalSerialPutChar c s in s1\<lparr>vga := HalVgaPutChar c (vga s1)\<rparr>)"

definition HalConsoleWrite :: "u8 list \<Rightarrow> console_state \<Rightarrow> console_state" where
  "HalConsoleWrite str s = fold HalConsolePutChar str s"

definition KeLogInit :: "u64 \<Rightarrow> console_state \<Rightarrow> console_state" where
  "KeLogInit direct_map s = HalInitializeConsole direct_map s"

text \<open>A C string in a buffer of \<open>n\<close> bytes.\<close>

definition buffer_string :: "(u64 \<Rightarrow> u8) \<Rightarrow> nat \<Rightarrow> u8 list" where
  "buffer_string b n = takeWhile (\<lambda>c. c \<noteq> 0) (map (\<lambda>i. b (of_nat i)) [0..<n])"

definition KeVLog :: "u8 list \<Rightarrow> va_slot list \<Rightarrow> (u64 \<Rightarrow> u8) \<Rightarrow> console_state \<Rightarrow> (u32 \<times> console_state) option" where
  "KeVLog fmt ap buffer s =
     do {
       (n, b) \<leftarrow> RtlFormatV buffer 512 fmt ap;
       Some (n, HalConsoleWrite (buffer_string b 512) s)
     }"

definition KeLog :: "u8 list \<Rightarrow> va_slot list \<Rightarrow> (u64 \<Rightarrow> u8) \<Rightarrow> console_state \<Rightarrow> (u32 \<times> console_state) option" where
  "KeLog fmt ap buffer s = KeVLog fmt ap buffer s"

definition chars :: "string \<Rightarrow> u8 list" where
  "chars t = map (\<lambda>c. of_nat (of_char c)) t"

definition KeBugCheck :: "u32 \<Rightarrow> u8 list option \<Rightarrow> (u64 \<Rightarrow> u8) \<Rightarrow> console_state \<Rightarrow> console_state option" where
  "KeBugCheck code message buffer s =
     do {
       let s1 = s\<lparr>vga := HalVgaSetColor 0x1F (vga s)\<rparr>;
       (_, s2) \<leftarrow> KeLog (0x0A # chars ''*** STOP: 0x%08x'' @ [0x0A]) [VWord (ucast code)] buffer s1;
       s3 \<leftarrow> (case message of
                None \<Rightarrow> Some s2
              | Some m \<Rightarrow> do { (_, s') \<leftarrow> KeLog (chars ''*** %s'' @ [0x0A]) [VStr (Some m)] buffer s2; Some s' });
       (_, s4) \<leftarrow> KeLog (chars ''*** The system has halted.'' @ [0x0A]) [] buffer s3;
       Some s4
     }"

section \<open>What the console shows\<close>

text \<open>The serial line carries the text with a carriage return before each new line, and the screen what the VGA console makes of
  the same text.\<close>

definition crlf :: "u8 list \<Rightarrow> u8 list" where
  "crlf str = concat (map (\<lambda>c. if c = 0x0A then [0x0D, c] else [c]) str)"

lemma console_write:
  "HalConsoleWrite str s = s\<lparr>com1 := (if g_serial_ready s then rev (map (Pair UART_DATA) (crlf str)) @ com1 s else com1 s),
     vga := fold HalVgaPutChar str (vga s)\<rparr>"
proof (induction str arbitrary: s)
  case (Cons c str)
  have "HalConsoleWrite (c # str) s = HalConsoleWrite str (HalConsolePutChar c s)" by (simp add: HalConsoleWrite_def)
  then show ?case using Cons [of "HalConsolePutChar c s"]
    by (simp add: HalConsolePutChar_def HalSerialPutChar_def uart_out_def crlf_def Let_def)
qed (simp add: HalConsoleWrite_def crlf_def)

end
