(* ===== verification/Io_File.thy ===== *)
theory Io_File
  imports Io_Fat Nt_Service Hal_Console
begin

text \<open>
  File objects and the handle-based file services, \<^verbatim>\<open>kernel/io/file.c\<close>, with \<^verbatim>\<open>IoInitialize\<close> of \<^verbatim>\<open>kernel/io/fat.c\<close>. The services take
  the array of system call arguments; user memory is \<open>umem\<close> of the memory manager. The bodies of file objects are \<open>files\<close> of the
  object manager's state, the cached contents of a disk file the bytes \<open>io_data\<close> gives for its \<^verbatim>\<open>Data\<close> block. The log lines of the
  services are not modelled; what \<^verbatim>\<open>NtWriteFile\<close> sends to the console is. A bugcheck of the initialization is the result \<open>None\<close>.
\<close>

record 'd file_state = "'d io_state" +
  console :: console_state
  g_file_type :: u64
  g_console_file :: u64

abbreviation "SIZEOF_FILE_OBJECT \<equiv> (40 :: u64)"
abbreviation "FILE_OPENED \<equiv> (1 :: u64)"

text \<open>\<^verbatim>\<open>iosb->Status\<close> and \<^verbatim>\<open>iosb->Information\<close>.\<close>

definition set_iosb :: "u64 \<Rightarrow> ntstatus \<Rightarrow> u64 \<Rightarrow> 'z ob_state_scheme \<Rightarrow> 'z ob_state_scheme" where
  "set_iosb iosb status info s = (if iosb \<noteq> 0 then put_user (st64 (iosb + 8) info \<circ> st32 iosb status) s else s)"

definition IoInitializeObjects :: "('d, 'z) file_state_scheme \<Rightarrow> ('d, 'z) file_state_scheme option" where
  "IoInitializeObjects s =
     do {
       (ty, s1) \<leftarrow> ObCreateObjectType (cstr ''File'') IopFileDelete s;
       let s2 = s1\<lparr>g_file_type := ty\<rparr>;
       (st, devdir, s3) \<leftarrow> ObCreateDirectory (ObRootDirectory s2) (cstr ''Device'') s2;
       if \<not> NT_SUCCESS st then None
       else do {
         (st, obj, s4) \<leftarrow> ObCreateObject (g_file_type s3) SIZEOF_FILE_OBJECT s3;
         if \<not> NT_SUCCESS st then None
         else
           (let s5 = s4\<lparr>g_console_file := obj, files := (files s4)(obj := \<lparr>Kind = FileKindConsole, fo_Data = 0, fo_Size = 0,
                  Position = 0, FatWriteDate = 0, FatWriteTime = 0\<rparr>)\<rparr>;
                (_, s6) = ObInsertObjectByName devdir (cstr ''Console'') obj s5
            in ObDereferenceObject obj s6)
       }
     }"

definition IoInitialize :: "'d ata_ports \<Rightarrow> ('d, 'z) file_state_scheme \<Rightarrow> (ntstatus \<times> ('d, 'z) file_state_scheme) option" where
  "IoInitialize hw s =
     do {
       s1 \<leftarrow> IoInitializeObjects s;
       let (ok, d) = AtaInitialize hw (dev s1);
       let s2 = s1\<lparr>dev := d\<rparr>;
       if \<not> ok then Some (STATUS_NO_SUCH_DEVICE, s2) else Some (FatMount hw s2)
     }"

text \<open>The last component of a path.\<close>

fun last_component :: "cstring \<Rightarrow> cstring \<Rightarrow> cstring" where
  "last_component fname [] = fname"
| "last_component fname (c # cs) = (if c = BACKSLASH \<or> c = 0x2F then last_component cs cs else last_component fname cs)"

definition captured :: "u8 list \<Rightarrow> cstring" where
  "captured bs = takeWhile (\<lambda>c. c \<noteq> 0) bs"

text \<open>The part of \<^verbatim>\<open>NtCreateFile\<close> that opens a name: the status, the handle and the new state.\<close>

definition open_named :: "u64 \<Rightarrow> ('d, 'z) file_state_scheme \<Rightarrow> (ntstatus \<times> u64 \<times> ('d, 'z) file_state_scheme) option" where
  "open_named obj s =
     (let (status, h, s1) = ObCreateHandle obj GENERIC_ALL s
      in do { s2 \<leftarrow> ObDereferenceObject obj s1; Some (status, if NT_SUCCESS status then h else 0, s2) })"

definition open_file :: "'d ata_ports \<Rightarrow> cstring \<Rightarrow> ('d, 'z) file_state_scheme \<Rightarrow> (ntstatus \<times> u64 \<times> ('d, 'z) file_state_scheme) option" where
  "open_file hw name s =
     (let (st, named, s1) = ObLookupObjectByName name s
      in if NT_SUCCESS st then open_named named s1
         else do {
           (st, r, s2) \<leftarrow> FatLoadFile hw (last_component name name) s1;
           case r of
             None \<Rightarrow> Some (STATUS_OBJECT_NAME_NOT_FOUND, 0, s2)
           | Some (data, sz, info) \<Rightarrow>
               if \<not> NT_SUCCESS st then Some (STATUS_OBJECT_NAME_NOT_FOUND, 0, s2)
               else do {
                 (st, obj, s3) \<leftarrow> ObCreateObject (g_file_type s2) SIZEOF_FILE_OBJECT s2;
                 if \<not> NT_SUCCESS st then do {
                   p \<leftarrow> ExFreePool data (pool s3);
                   Some (STATUS_NO_MEMORY, 0, s3\<lparr>pool := p\<rparr>)
                 }
                 else open_named obj (s3\<lparr>files := (files s3)(obj := \<lparr>Kind = FileKindDisk, fo_Data = data, fo_Size = sz,
                        Position = 0, FatWriteDate = fd_WriteDate info, FatWriteTime = fd_WriteTime info\<rparr>)\<rparr>)
               }
         })"

definition NtCreateFile :: "'d ata_ports \<Rightarrow> (nat \<Rightarrow> u64) \<Rightarrow> ('d, 'z) file_state_scheme \<Rightarrow> (ntstatus \<times> ('d, 'z) file_state_scheme) option" where
  "NtCreateFile hw a s =
     do {
       ok1 \<leftarrow> MmProbeForWrite (mm (pool s)) (a 0) 8;
       ok2 \<leftarrow> (if ok1 then MmProbeForWrite (mm (pool s)) (a 3) 16 else Some False);
       ok3 \<leftarrow> (if ok2 then MmProbeForRead (mm (pool s)) (a 2) 48 else Some False);
       if \<not> ok3 then Some (STATUS_ACCESS_VIOLATION, s)
       else do {
         (ok, name) \<leftarrow> MmCaptureUnicodeName (mm (pool s)) (read64 (mm (pool s)) (a 2 + 0x10)) 128;
         if \<not> ok then Some (STATUS_ACCESS_VIOLATION, s)
         else do {
           (status, h, s1) \<leftarrow> open_file hw (captured name) s;
           let s2 = (if NT_SUCCESS status \<and> a 0 \<noteq> 0 then put_user (st64 (a 0) h) s1 else s1);
           Some (status, set_iosb (a 3) status (if NT_SUCCESS status then FILE_OPENED else 0) s2)
         }
       }
     }"

definition NtReadFile :: "(nat \<Rightarrow> u64) \<Rightarrow> ('d, 'z) file_state_scheme \<Rightarrow> (ntstatus \<times> ('d, 'z) file_state_scheme) option" where
  "NtReadFile a s =
     (let iosb = a 4; buffer = a 5; length = a 6
      in do {
        ok1 \<leftarrow> MmProbeForWrite (mm (pool s)) iosb 16;
        ok2 \<leftarrow> (if ok1 then MmProbeForWrite (mm (pool s)) buffer length else Some False);
        if \<not> ok2 then Some (STATUS_ACCESS_VIOLATION, s)
        else
          (let (st, obj, s1) = ObReferenceObjectByHandle (a 0) 0 (g_file_type s) s
           in if \<not> NT_SUCCESS st then Some (STATUS_INVALID_HANDLE, s1)
              else
                (let f = files s1 obj;
                     n = (if Kind f = FileKindDisk \<and> Position f < fo_Size f then
                            (let avail = fo_Size f - Position f in if length < avail then length else avail)
                          else 0);
                     s2 = (if Kind f = FileKindDisk \<and> Position f < fo_Size f then
                             put_user (store_bytes buffer (take (unat n) (drop (unat (Position f)) (io_data s1 (fo_Data f)))))
                               (s1\<lparr>files := (files s1)(obj := f\<lparr>Position := Position f + n\<rparr>)\<rparr>)
                           else s1)
                 in do {
                   s3 \<leftarrow> ObDereferenceObject obj s2;
                   Some (STATUS_SUCCESS, set_iosb iosb STATUS_SUCCESS n s3)
                 }))
      })"

definition NtWriteFile :: "(nat \<Rightarrow> u64) \<Rightarrow> ('d, 'z) file_state_scheme \<Rightarrow> (ntstatus \<times> ('d, 'z) file_state_scheme) option" where
  "NtWriteFile a s =
     (let iosb = a 4; buffer = a 5; length = a 6
      in do {
        ok1 \<leftarrow> MmProbeForWrite (mm (pool s)) iosb 16;
        ok2 \<leftarrow> (if ok1 then MmProbeForRead (mm (pool s)) buffer length else Some False);
        if \<not> ok2 then Some (STATUS_ACCESS_VIOLATION, s)
        else
          (let (st, obj, s1) = ObReferenceObjectByHandle (a 0) 0 (g_file_type s) s
           in if \<not> NT_SUCCESS st then Some (STATUS_INVALID_HANDLE, s1)
              else
                (let f = files s1 obj;
                     n = (if Kind f = FileKindConsole then length else 0);
                     s2 = (if Kind f = FileKindConsole then
                             s1\<lparr>console := fold HalConsolePutChar (read_bytes (umem (mm (pool s1))) buffer (unat length)) (console s1)\<rparr>
                           else s1)
                 in do {
                   s3 \<leftarrow> ObDereferenceObject obj s2;
                   Some (STATUS_SUCCESS, set_iosb iosb STATUS_SUCCESS n s3)
                 }))
      })"

definition NtClose :: "(nat \<Rightarrow> u64) \<Rightarrow> ('d, 'z) file_state_scheme \<Rightarrow> (ntstatus \<times> ('d, 'z) file_state_scheme) option" where
  "NtClose a s = ObCloseHandle (a 0) s"

text \<open>The fields of \<^verbatim>\<open>NTOS_FILE_INFO\<close> are adjacent: one store of all 32 bytes.\<close>

definition NtQueryFileInfo :: "(nat \<Rightarrow> u64) \<Rightarrow> ('d, 'z) file_state_scheme \<Rightarrow> (ntstatus \<times> ('d, 'z) file_state_scheme) option" where
  "NtQueryFileInfo a s =
     do {
       ok \<leftarrow> MmProbeForWrite (mm (pool s)) (a 1) 32;
       if \<not> ok then Some (STATUS_ACCESS_VIOLATION, s)
       else
         (let (status, obj, s1) = ObReferenceObjectByHandle (a 0) 0 (g_file_type s) s
          in if \<not> NT_SUCCESS status then Some (status, s1)
             else
               (let f = files s1 obj;
                    s2 = put_user (store_bytes (a 1) (le64 (fo_Size f) @ le64 (Position f) @ le32 (if Kind f = FileKindDisk then 0x20 else 0) @
                           le32 (if Kind f = FileKindConsole then 1 else 0) @ le16 (FatWriteDate f) @ le16 (FatWriteTime f) @ le32 0)) s1
                in do { s3 \<leftarrow> ObDereferenceObject obj s2; Some (STATUS_SUCCESS, s3) }))
     }"

definition NtSetFilePosition :: "(nat \<Rightarrow> u64) \<Rightarrow> ('d, 'z) file_state_scheme \<Rightarrow> (ntstatus \<times> ('d, 'z) file_state_scheme) option" where
  "NtSetFilePosition a s =
     (let new_position = a 2
      in do {
        ok \<leftarrow> (if new_position \<noteq> 0 then MmProbeForWrite (mm (pool s)) new_position 8 else Some True);
        if \<not> ok then Some (STATUS_ACCESS_VIOLATION, s)
        else
          (let (status, obj, s1) = ObReferenceObjectByHandle (a 0) 0 (g_file_type s) s
           in if \<not> NT_SUCCESS status then Some (status, s1)
              else if Kind (files s1 obj) \<noteq> FileKindDisk then do {
                s2 \<leftarrow> ObDereferenceObject obj s1;
                Some (STATUS_INVALID_PARAMETER, s2)
              }
              else
                (let s2 = s1\<lparr>files := (files s1)(obj := (files s1 obj)\<lparr>Position := a 1\<rparr>)\<rparr>;
                     s3 = (if new_position \<noteq> 0 then put_user (st64 new_position (Position (files s2 obj))) s2 else s2)
                 in do { s4 \<leftarrow> ObDereferenceObject obj s3; Some (STATUS_SUCCESS, s4) }))
      })"

text \<open>\<^verbatim>\<open>FAT_FIND_DATA\<close> in user memory: the name with its NUL at offset 0, the other fields from offset 260 on.\<close>

definition NtEnumerateRootFiles :: "'d ata_ports \<Rightarrow> (nat \<Rightarrow> u64) \<Rightarrow> ('d, 'z) file_state_scheme \<Rightarrow> (ntstatus \<times> ('d, 'z) file_state_scheme) option" where
  "NtEnumerateRootFiles hw a s =
     do {
       ok \<leftarrow> MmProbeForWrite (mm (pool s)) (a 1) 272;
       if \<not> ok then Some (STATUS_ACCESS_VIOLATION, s)
       else do {
         (status, r, s1) \<leftarrow> FatEnumerateRoot hw (ucast (a 0)) s;
         case r of
           None \<Rightarrow> Some (status, s1)
         | Some i \<Rightarrow> Some (status, put_user (store_bytes (a 1 + 260) (le32 (fd_Size i) @ le32 (fd_Attributes i) @ le16 (fd_WriteDate i) @
               le16 (fd_WriteTime i)) \<circ> store_bytes (a 1) (fd_Name i @ [0])) s1)
       }
     }"

section \<open>Reading\<close>

lemma put_user_files: "put_user f (ObReferenceObject ob s\<lparr>files := F\<rparr>) = ObReferenceObject ob (put_user f (s\<lparr>files := F\<rparr>))"
  by (simp add: put_user_def ObReferenceObject_def upd_header_def)

lemma put_user_header_ok: "header_ok (put_user f (s\<lparr>files := F\<rparr>)) held h = header_ok s held h"
  by (rule header_ok_cong) (simp_all add: put_user_def)

text \<open>What a read copies, and how the file object changes.\<close>

definition read_count :: "FILE_OBJECT \<Rightarrow> u64 \<Rightarrow> u64" where
  "read_count f len =
     (if Kind f = FileKindDisk \<and> Position f < fo_Size f then
        (let avail = fo_Size f - Position f in if len < avail then len else avail)
      else 0)"

definition read_data :: "('d, 'z) file_state_scheme \<Rightarrow> FILE_OBJECT \<Rightarrow> u64 \<Rightarrow> u8 list" where
  "read_data s f len = take (unat (read_count f len)) (drop (unat (Position f)) (io_data s (fo_Data f)))"

lemma read_count_le: "unat (read_count f len) \<le> unat len" "Position f \<le> fo_Size f \<Longrightarrow> unat (Position f) + unat (read_count f len) \<le> unat (fo_Size f)"
proof -
  show "unat (read_count f len) \<le> unat len"
    by (auto simp: read_count_def Let_def word_less_nat_alt word_le_nat_alt not_less)
  assume "Position f \<le> fo_Size f"
  then have "unat (fo_Size f - Position f) = unat (fo_Size f) - unat (Position f)" by (rule unat_sub)
  then show "unat (Position f) + unat (read_count f len) \<le> unat (fo_Size f)"
    using \<open>Position f \<le> fo_Size f\<close> by (auto simp: read_count_def Let_def word_less_nat_alt word_le_nat_alt not_less)
qed

lemma span_iosb: "span b 4 \<subseteq> span b 16" "span (b + 8) 8 \<subseteq> span b 16"
proof -
  show "span b 4 \<subseteq> span b 16" by (rule span_mono) simp
  show "span (b + 8) 8 \<subseteq> span b 16"
  proof
    fix x assume "x \<in> span (b + 8) 8"
    then obtain i where "i < 8" "x = b + 8 + of_nat i" by (auto simp: span_def)
    then have "8 + i < 16" "x = b + of_nat (8 + i)" by simp_all
    then show "x \<in> span b 16" unfolding span_def by blast
  qed
qed

lemma read_alt:
  fixes s :: "('d, 'z) file_state_scheme"
  shows "NtReadFile a s = (MmProbeForWrite (mm (pool s)) (a 4) 16 \<bind> (\<lambda>ok1. if ok1 then MmProbeForWrite (mm (pool s)) (a 5) (a 6) else Some False)) \<bind>
      (\<lambda>ok2. if \<not> ok2 then Some (STATUS_ACCESS_VIOLATION, s)
        else
          (let (st, obj, s1) = ObReferenceObjectByHandle (a 0) 0 (g_file_type s) s
           in if \<not> NT_SUCCESS st then Some (STATUS_INVALID_HANDLE, s1)
              else
                (let f = files s1 obj; n = read_count f (a 6);
                     s2 = (if Kind f = FileKindDisk \<and> Position f < fo_Size f then
                             put_user (store_bytes (a 5) (read_data s1 f (a 6))) (s1\<lparr>files := (files s1)(obj := f\<lparr>Position := Position f + n\<rparr>)\<rparr>)
                           else s1)
                 in do { s3 \<leftarrow> ObDereferenceObject obj s2; Some (STATUS_SUCCESS, set_iosb (a 4) STATUS_SUCCESS n s3) })))"
  unfolding NtReadFile_def read_count_def read_data_def Let_def by simp

text \<open>The two stores of a status block.\<close>

definition iosb_store :: "u64 \<Rightarrow> u64 \<Rightarrow> (u64 \<Rightarrow> u8) \<Rightarrow> u64 \<Rightarrow> u8" where
  "iosb_store b n m = (if b \<noteq> 0 then st64 (b + 8) n (st32 b STATUS_SUCCESS m) else m)"

lemma set_iosb_put: "set_iosb b STATUS_SUCCESS n (put_user g t) = put_user (iosb_store b n \<circ> g) t"
  by (simp add: set_iosb_def iosb_store_def put_user_comp comp_def fun_eq_iff)

lemma iosb_frame:
  assumes "x \<notin> span b 16"
  shows "iosb_store b n m x = m x"
proof -
  have "x \<notin> span b (length (le32 STATUS_SUCCESS))" "x \<notin> span (b + 8) (length (le64 n))"
    unfolding length_le using assms span_iosb [of b] by blast+
  from this [THEN store_frame] have "st64 (b + 8) n m' x = m' x" "st32 b STATUS_SUCCESS m' x = m' x" for m'
    unfolding st64_def st32_def by blast+
  then show ?thesis unfolding iosb_store_def by (cases "b = 0") simp_all
qed

text \<open>A read that passes the probes and finds its file object.\<close>

definition read_effect :: "(nat \<Rightarrow> u64) \<Rightarrow> ('d, 'z) file_state_scheme \<Rightarrow> FILE_OBJECT \<Rightarrow> (u64 \<Rightarrow> u8) \<Rightarrow> u64 \<Rightarrow> u8" where
  "read_effect a s f =
     iosb_store (a 4) (read_count f (a 6)) \<circ> (if Kind f = FileKindDisk \<and> Position f < fo_Size f then store_bytes (a 5) (read_data s f (a 6)) else (\<lambda>m. m))"

lemma read_good:
  fixes s :: "('d, 'z) file_state_scheme"
  assumes probes: "MmProbeForWrite (mm (pool s)) (a 4) 16 = Some True" "MmProbeForWrite (mm (pool s)) (a 5) (a 6) = Some True"
    and obj: "ObReferenceObjectByHandle (a 0) 0 (g_file_type s) s = (STATUS_SUCCESS, ob, ObReferenceObject ob s)"
    and ok: "header_ok s held (ObHeaderFromObject ob)"
  shows "NtReadFile a s = Some (STATUS_SUCCESS, put_user (read_effect a s (files s ob))
    (s\<lparr>files := (files s)(ob := (files s ob)\<lparr>Position := Position (files s ob) + read_count (files s ob) (a 6)\<rparr>)\<rparr>))"
proof -
  define n where "n = read_count (files s ob) (a 6)"
  define F where "F = (files s)(ob := (files s ob)\<lparr>Position := Position (files s ob) + n\<rparr>)"
  define bytes where "bytes = read_data s (files s ob) (a 6)"
  let ?disk = "Kind (files s ob) = FileKindDisk \<and> Position (files s ob) < fo_Size (files s ob)"
  define g where "g = (if ?disk then store_bytes (a 5) bytes else (\<lambda>m. m))"
  have fs: "files (ObReferenceObject ob s) = files s" "io_data (ObReferenceObject ob s) = io_data s"
    by (simp_all add: ObReferenceObject_def upd_header_def)
  have rd: "read_data (ObReferenceObject ob s) (files s ob) (a 6) = bytes" unfolding read_data_def bytes_def fs by (rule refl)
  have s2: "(if ?disk then put_user (store_bytes (a 5) bytes) (ObReferenceObject ob s\<lparr>files := F\<rparr>) else ObReferenceObject ob s) =
      ObReferenceObject ob (put_user g (s\<lparr>files := F\<rparr>))"
  proof (cases ?disk)
    case True
    then show ?thesis by (simp only: simp_thms if_True put_user_files g_def)
  next
    case False
    then have "n = 0" by (auto simp: n_def read_count_def)
    then have "s\<lparr>files := F\<rparr> = s" unfolding F_def by simp
    then show ?thesis using False by (simp only: if_False g_def put_user_id)
  qed
  have de: "ObDereferenceObject ob (ObReferenceObject ob (put_user g (s\<lparr>files := F\<rparr>))) = Some (put_user g (s\<lparr>files := F\<rparr>))"
    by (rule dereference_undoes [where held = held]) (use ok in \<open>simp add: put_user_header_ok\<close>)
  have eff: "read_effect a s (files s ob) = iosb_store (a 4) n \<circ> g" unfolding read_effect_def g_def n_def bytes_def by (rule refl)
  have sc: "NT_SUCCESS STATUS_SUCCESS" by (simp add: NT_SUCCESS_def)
  show ?thesis
    unfolding read_alt probes obj Let_def eff n_def [symmetric] F_def [symmetric]
    by (simp only: if_True not_True_eq_False if_False sc case_prod_conv Option.bind.simps fs rd n_def [symmetric] F_def [symmetric] s2 de set_iosb_put)
qed

text \<open>Where a read writes and what.\<close>

lemma length_read_data: "length (read_data s f len) \<le> unat (read_count f len)"
  by (simp add: read_data_def)

lemma read_effect_frame:
  assumes "x \<notin> span (a 5) (unat (read_count f (a 6)))" "x \<notin> span (a 4) 16"
  shows "read_effect a s f m x = m x"
  using assms span_mono [OF length_read_data, of "a 5" s f "a 6"]
  by (auto simp: read_effect_def iosb_frame intro: store_frame)

lemma read_effect_status: "a 4 \<noteq> 0 \<Longrightarrow> ld32 (read_effect a s f m) (a 4) = STATUS_SUCCESS"
proof -
  assume nz: "a 4 \<noteq> 0"
  let ?m = "(if Kind f = FileKindDisk \<and> Position f < fo_Size f then store_bytes (a 5) (read_data s f (a 6)) else (\<lambda>m. m)) m"
  have "ld32 (st64 (a 4 + 8) n (st32 (a 4) STATUS_SUCCESS m')) (a 4) = STATUS_SUCCESS" for n m'
  proof -
    have "ld32 (st64 (a 4 + 8) n (st32 (a 4) STATUS_SUCCESS m')) (a 4) = ld32 (st32 (a 4) STATUS_SUCCESS m') (a 4)"
      unfolding st64_def
    proof (rule ld_cong, rule store_frame)
      fix x assume "x \<in> span (a 4) 4"
      then have "x \<in> span (a 4) 8" using span_mono [of 4 8 "a 4"] by auto
      moreover have "8 \<le> unat (a 4 + 8 - a 4)" "8 \<le> unat (a 4 - (a 4 + 8))" by simp_all
      ultimately show "x \<notin> span (a 4 + 8) (length (le64 n))" using span_apart [of 8 "a 4 + 8" "a 4" x] by (simp add: length_le)
    qed
    then show ?thesis by simp
  qed
  then show ?thesis using nz by (simp add: read_effect_def iosb_store_def)
qed

lemma read_effect_information: "a 4 \<noteq> 0 \<Longrightarrow> ld64 (read_effect a s f m) (a 4 + 8) = read_count f (a 6)"
  by (simp add: read_effect_def iosb_store_def)

lemma read_effect_holds:
  assumes dis: "span (a 5) (unat (read_count f (a 6))) \<inter> span (a 4) 16 = {}"
  shows "mem_holds (read_effect a s f m) (a 5) (read_data s f (a 6))"
proof -
  let ?bs = "read_data s f (a 6)" and ?disk = "Kind f = FileKindDisk \<and> Position f < fo_Size f"
  let ?g = "if ?disk then store_bytes (a 5) ?bs else (\<lambda>m. m)"
  have "length ?bs < 2 ^ 64" using length_read_data [of s f "a 6"] unat_less_64 [of "read_count f (a 6)"] by linarith
  moreover have "\<not> ?disk \<Longrightarrow> ?bs = []" by (auto simp: read_data_def read_count_def)
  ultimately have g: "mem_holds (?g m) (a 5) ?bs" by (cases ?disk) (simp_all add: store_holds)
  show ?thesis unfolding mem_holds_def
  proof (intro allI impI)
    fix i assume i: "i < length ?bs"
    then have "a 5 + of_nat i \<in> span (a 5) (unat (read_count f (a 6)))"
      using length_read_data [of s f "a 6"] unfolding span_def by (auto intro!: exI [of _ i])
    then have "read_effect a s f m (a 5 + of_nat i) = ?g m (a 5 + of_nat i)"
      using dis unfolding read_effect_def by (auto intro: iosb_frame)
    then show "read_effect a s f m (a 5 + of_nat i) = ?bs ! i" using g i by (simp add: mem_holds_def)
  qed
qed

text \<open>The handle stands for a file object.\<close>

definition file_handle :: "('d, 'z) file_state_scheme \<Rightarrow> u64 \<Rightarrow> bool" where
  "file_handle s h \<longleftrightarrow> handle_object s h \<noteq> 0 \<and> (g_file_type s \<noteq> 0 \<longrightarrow> object_type s (handle_object s h) = g_file_type s)"

lemma file_handle_reference:
  "fst (ObReferenceObjectByHandle h 0 (g_file_type s) s) = STATUS_SUCCESS \<longleftrightarrow> file_handle s h"
  by (auto simp: file_handle_def ObReferenceObjectByHandle_def handle_object_def object_type_def Let_def split: option.split)

section \<open>Properties\<close>

text \<open>(C33) Reading through a handle. For every argument vector \<^verbatim>\<open>NtReadFile\<close> returns. If the probe refuses the status block or
  the buffer, it returns \<^verbatim>\<open>STATUS_ACCESS_VIOLATION\<close>, else if the handle does not stand for a file object,
  \<^verbatim>\<open>STATUS_INVALID_HANDLE\<close>, both with nothing changed. Otherwise it succeeds: it copies to the buffer as many bytes of the cached
  file from the current position on as there are, at most the length asked for, advances the position by that number
  and reports it, with the status, in the I/O status block; user memory changes only within the bytes copied and the status
  block, all of it mapped user memory; no position passes the end of the file; and the object's reference
  counts are as before the call. A console reads as empty. The cache holds as many bytes as the file's size says when
  the file was loaded by \<^verbatim>\<open>FatLoadFile\<close>; then that many bytes are really copied.\<close>

theorem NtReadFile_correct:
  fixes s :: "('d, 'z) file_state_scheme"
  assumes inv: "ob_inv s L B held" and b: "held (handle_object s (a 0)) < 2 ^ 30"
  defines "ob \<equiv> handle_object s (a 0)" and "n \<equiv> read_count (files s (handle_object s (a 0))) (a 6)"
    and "bytes \<equiv> read_data s (files s (handle_object s (a 0))) (a 6)"
  shows "if \<not> (probed s (a 4) 16 \<and> probed s (a 5) (a 6)) then NtReadFile a s = Some (STATUS_ACCESS_VIOLATION, s)
    else if \<not> file_handle s (a 0) then NtReadFile a s = Some (STATUS_INVALID_HANDLE, s)
    else \<exists>f. NtReadFile a s = Some (STATUS_SUCCESS, put_user f (s\<lparr>files := (files s)(ob := (files s ob)\<lparr>Position := Position (files s ob) + n\<rparr>)\<rparr>)) \<and>
       unat n \<le> unat (a 6) \<and> (Position (files s ob) \<le> fo_Size (files s ob) \<longrightarrow> unat (Position (files s ob)) + unat n \<le> unat (fo_Size (files s ob))) \<and>
       (\<forall>m x. x \<notin> span (a 5) (unat n) \<longrightarrow> x \<notin> span (a 4) 16 \<longrightarrow> f m x = m x) \<and>
       (user_small (mm (pool s)) \<longrightarrow> (\<forall>m x. f m x \<noteq> m x \<longrightarrow> x < MM_USER_MAX \<and> MmGetPhysicalAddress (mm (pool s)) x \<noteq> MM_INVALID_PHYS)) \<and>
       (a 4 \<noteq> 0 \<longrightarrow> (\<forall>m. ld32 (f m) (a 4) = STATUS_SUCCESS \<and> ld64 (f m) (a 4 + 8) = n)) \<and>
       (span (a 5) (unat n) \<inter> span (a 4) 16 = {} \<longrightarrow> (\<forall>m. mem_holds (f m) (a 5) bytes)) \<and>
       (length (io_data s (fo_Data (files s ob))) = unat (fo_Size (files s ob)) \<longrightarrow> length bytes = unat n)"
proof -
  obtain b1 b2 where tot: "MmProbeForWrite (mm (pool s)) (a 4) 16 = Some b1" "MmProbeForWrite (mm (pool s)) (a 5) (a 6) = Some b2"
    using MmProbeForWrite_total by blast
  then have pr: "probed s (a 4) 16 \<longleftrightarrow> b1" "probed s (a 5) (a 6) \<longleftrightarrow> b2" by (simp_all add: probed_def)
  show ?thesis
  proof (cases "b1 \<and> b2")
    case False
    then show ?thesis unfolding read_alt tot pr by auto
  next
    case True
    from inv b show ?thesis
    proof (cases rule: by_handle_cases [where ty = "g_file_type s"])
      case (bad st)
      then have "\<not> file_handle s (a 0)" using file_handle_reference [of "a 0" s] by (auto simp: NT_SUCCESS_def)
      then show ?thesis using True bad unfolding read_alt tot pr by simp
    next
      case good
      let ?f = "read_effect a s (files s (handle_object s (a 0)))"
      have fh: "file_handle s (a 0)" using file_handle_reference [of "a 0" s] good(1) by simp
      have e: "NtReadFile a s = Some (STATUS_SUCCESS, put_user ?f
          (s\<lparr>files := (files s)(ob := (files s ob)\<lparr>Position := Position (files s ob) + n\<rparr>)\<rparr>))"
        using read_good [where s = s and a = a, OF _ _ good(1,2)] tot True unfolding ob_def n_def by simp
      have le: "unat n \<le> unat (a 6)" unfolding n_def by (rule read_count_le(1))
      have fr: "x \<notin> span (a 5) (unat n) \<Longrightarrow> x \<notin> span (a 4) 16 \<Longrightarrow> ?f m x = m x" for m x
        unfolding n_def by (rule read_effect_frame)
      have mapped: "x < MM_USER_MAX \<and> MmGetPhysicalAddress (mm (pool s)) x \<noteq> MM_INVALID_PHYS"
        if us: "user_small (mm (pool s))" and ne: "?f m x \<noteq> m x" for m x
      proof (cases "x \<in> span (a 4) 16")
        case True
        then show ?thesis using probed_mapped [OF us, of "a 4" 16 x] pr \<open>b1 \<and> b2\<close> by simp
      next
        case False
        then have "x \<in> span (a 5) (unat n)" using fr [of x m] ne by blast
        then have "x \<in> span (a 5) (unat (a 6))" using span_mono [OF le, of "a 5"] by blast
        then show ?thesis using probed_mapped [OF us, of "a 5" "a 6" x] pr \<open>b1 \<and> b2\<close> by simp
      qed
      have len: "length bytes = unat n" if "length (io_data s (fo_Data (files s ob))) = unat (fo_Size (files s ob))"
      proof (cases "Position (files s ob) \<le> fo_Size (files s ob)")
        case True
        from read_count_le(2) [OF this, of "a 6"] that show ?thesis by (simp add: bytes_def n_def read_data_def ob_def)
      next
        case False
        then have "n = 0" unfolding n_def ob_def [symmetric] read_count_def by auto
        then show ?thesis by (simp add: bytes_def read_data_def n_def)
      qed
      have ok: "\<not> \<not> (probed s (a 4) 16 \<and> probed s (a 5) (a 6))" "\<not> \<not> file_handle s (a 0)" using True fh pr by simp_all
      have io: "a 4 \<noteq> 0 \<longrightarrow> (\<forall>m. ld32 (?f m) (a 4) = STATUS_SUCCESS \<and> ld64 (?f m) (a 4 + 8) = n)"
        unfolding n_def using read_effect_information [of a] read_effect_status [of a] by blast
      show ?thesis unfolding if_not_P [OF ok(1)] if_not_P [OF ok(2)]
        using e le fr mapped len read_count_le(2) [of "files s ob" "a 6"]
          io read_effect_holds [of a "files s ob" s]
        unfolding n_def bytes_def ob_def by (intro exI [of _ ?f] conjI) simp_all
    qed
  qed
qed

section \<open>An open file\<close>

text \<open>Giving a file object its cached data, a pool block of its own.\<close>

lemma ob_inv_file:
  assumes inv: "ob_inv s L B held" and d: "fo_Data f \<in> dom L - ob_own s B"
  shows "ob_inv (s\<lparr>files := (files s)(ob := f)\<rparr>) L B held"
proof -
  let ?s = "s\<lparr>files := (files s)(ob := f)\<rparr>"
  have fd: "file_data ?s h = (if h = ObHeaderFromObject ob \<and> DeleteProcedure (types s (oh_Type (headers s h))) = IopFileDelete then fo_Data f else file_data s h)" for h
    by (auto simp: file_data_def)
  have bo: "blocks_ok s L B" using inv by (simp add: ob_inv_def)
  have own: "fo_Data f \<notin> B" "fo_Data f \<notin> set (g_type_list s)" using d by (auto simp: ob_own_def)
  have own2: "file_data s h \<noteq> fo_Data f" if "h \<in> B" for h using d that unfolding ob_own_def by (metis DiffD2 UnI2 imageI)
  have "blocks_ok ?s L B"
  proof (rule blocks_okI)
    fix h assume h: "h \<in> B"
    show "\<exists>n \<ge> 48. L h = Some n" "oh_Type (headers ?s h) \<in> set (g_type_list ?s)" using blocks_okD(1,3) [OF bo h] by simp_all
    show "file_data ?s h \<in> dom L - B - set (g_type_list ?s)" if "file_data ?s h \<noteq> 0"
      using that blocks_okD(4) [OF bo h] d own unfolding fd by (simp split: if_splits)
    fix k assume k: "k \<in> B" "file_data ?s h = file_data ?s k" "file_data ?s h \<noteq> 0"
    then show "h = k" using blocks_okD(5) [OF bo h k(1)] own2 [OF h] own2 [OF k(1)] unfolding fd by (metis (full_types))
  next
    fix t assume "t \<in> set (g_type_list ?s)"
    then show "t \<in> dom L \<and> t \<notin> B" using blocks_okD(2) [OF bo, of t] by simp
  qed
  moreover have "header_ok ?s held h = header_ok s held h" for h by (rule header_ok_cong) simp_all
  moreover have "names_ok ?s B = names_ok s B" by (simp add: names_ok_def)
  ultimately show ?thesis using inv by (simp add: ob_inv_def)
qed

lemma demo_file:
  obtains s :: "unit file_state" and L B held h where "ob_inv s L B held" "user_page (mm (pool s))" "file_handle s h" "held (handle_object s h) < 2 ^ 30"
    "files s (handle_object s h) = \<lparr>Kind = FileKindDisk, fo_Data = fo_Data (files s (handle_object s h)), fo_Size = 5, Position = 1, FatWriteDate = 0, FatWriteTime = 0\<rparr>"
    "io_data s (fo_Data (files s (handle_object s h))) = [0x68, 0x65, 0x6C, 0x6C, 0x6F]"
proof -
  obtain s0 :: "unit file_state" and L B held where d0: "ob_inv s0 L B held" "pool_room (pool s0) L 65000" "user_page (mm (pool s0))"
    "\<forall>i. he_Object (g_handles s0 i) = 0" by (rule demo_object [where z = undefined]) blast
  from create_type_room [OF d0(2), of "cstr ''File''" IopFileDelete] obtain t s2 where
    c2: "ObCreateObjectType (cstr ''File'') IopFileDelete s0 = Some (t, s2)" "t \<noteq> 0" "pool_room (pool s2) (L(t \<mapsto> 48)) 64888"
      "mm (pool s2) = mm (pool s0)" by auto
  have s2: "ob_inv s2 (L(t \<mapsto> 48)) B held" "g_type_list s2 = g_type_list s0 @ [t]" "g_handles s2 = g_handles s0"
    using d0(1) c2(1) by (cases rule: ob_create_type; use c2(2) in simp)+
  have "need_of (OB_HDR + 40) + 64 \<le> 64888" by (simp add: need_of_def)
  from create_object_room [OF c2(3,2) this] obtain ob s3 where
    c3: "ObCreateObject t 40 s2 = Some (STATUS_SUCCESS, ob, s3)" "mm (pool s3) = mm (pool s2)"
      "pool_room (pool s3) (L(t \<mapsto> 48, ObHeaderFromObject ob \<mapsto> 88)) 64728" by (auto simp: need_of_def)
  let ?h = "ObHeaderFromObject ob" and ?L = "L(t \<mapsto> 48, ObHeaderFromObject ob \<mapsto> 88)"
  have tin: "t \<in> set (g_type_list s2)" and sz: "unat (40 :: u64) \<le> 2 ^ 60" using s2(2) by simp_all
  have s3: "ob_inv s3 ?L (insert ?h B) (held(ob := 1))" "g_handles s3 = g_handles s2" "oh_Type (headers s3 ?h) = t"
    using s2(1) tin sz c3(1) by (cases rule: ob_create; simp)+
  from pool_room_alloc [OF c3(3), of 5 "0x6C6946"] obtain d p where a: "d \<noteq> 0" "?L d = None" "pool_room p (?L(d \<mapsto> 5)) 64648" "mm p = mm (pool s3)"
    by (auto simp: need_of_def)
  have i4: "ob_inv (s3\<lparr>pool := p\<rparr>) (?L(d \<mapsto> 5)) (insert ?h B) (held(ob := 1))"
  proof (rule ob_inv_pool [OF s3(1)])
    have "unat (5 :: u64) = 5" by simp
    then show "pool_rel p (?L(d \<mapsto> 5))" using pool_room_rel [OF a(3)] by simp
    fix x assume "x \<in> ob_own s3 (insert ?h B)"
    then have "x \<noteq> d" using ob_own_dom [OF s3(1)] a(1,2) by (metis domIff)
    then show "(?L(d \<mapsto> 5)) x = ?L x" by simp
  qed
  have "ob_own (s3\<lparr>pool := p\<rparr>) (insert ?h B) = ob_own s3 (insert ?h B)" by (rule ob_own_cong) simp_all
  then have own: "d \<in> dom (?L(d \<mapsto> 5)) - ob_own (s3\<lparr>pool := p\<rparr>) (insert ?h B)" using ob_own_dom [OF s3(1), of d] a(1,2) by (metis DiffI domIff fun_upd_same option.discI)
  define f where "f = \<lparr>Kind = FileKindDisk, fo_Data = d, fo_Size = 5, Position = 1, FatWriteDate = 0, FatWriteTime = 0\<rparr>"
  have "ob_inv (s3\<lparr>pool := p, files := (files (s3\<lparr>pool := p\<rparr>))(ob := f)\<rparr>) (?L(d \<mapsto> 5)) (insert ?h B) (held(ob := 1))"
    using ob_inv_file [OF i4, of f ob] own by (simp add: f_def)
  define s5 where "s5 = s3\<lparr>pool := p, files := (files s3)(ob := f), io_data := (io_data s3)(d := [0x68, 0x65, 0x6C, 0x6C, 0x6F]), g_file_type := t\<rparr>"
  have i5: "ob_inv s5 (?L(d \<mapsto> 5)) (insert ?h B) (held(ob := 1))"
    using ob_inv_cong [of s5 "s3\<lparr>pool := p, files := (files (s3\<lparr>pool := p\<rparr>))(ob := f)\<rparr>"]
      \<open>ob_inv (s3\<lparr>pool := p, files := (files (s3\<lparr>pool := p\<rparr>))(ob := f)\<rparr>) (?L(d \<mapsto> 5)) (insert ?h B) (held(ob := 1))\<close> by (simp add: s5_def)
  obtain st h s6 where c6: "ObCreateHandle ob GENERIC_ALL s5 = (st, h, s6)" by (cases "ObCreateHandle ob GENERIC_ALL s5") auto
  have b1: "(held(ob := 1)) ob < 2 ^ 30" by simp
  note ch = ob_create_handle [OF i5 insertI1 b1 c6]
  have "he_Object (g_handles s5 0) = 0" "(0 :: u32) < OB_MAX_HANDLES" using d0(4) by (simp_all add: s5_def s3(2) s2(3))
  then obtain i where i: "st = STATUS_SUCCESS" "i < OB_MAX_HANDLES" "h = index_to_handle i"
    "g_handles s6 = (g_handles s5)(i := \<lparr>he_Object = ob, GrantedAccess = GENERIC_ALL\<rparr>)" using ch(2) by blast
  have ho: "handle_object s6 h = ob" using handle_object_update [OF i(2,4)] i(3) by simp
  have nz: "ob \<noteq> 0" using ob_live_nonzero [OF i5 insertI1] by simp
  have same: "pool s6 = p" "files s6 = files s5" "io_data s6 = io_data s5" "g_file_type s6 = t" "oh_Type (headers s6 ?h) = t"
    using c6 nz s3(3) by (auto simp: ObCreateHandle_def ObReferenceObject_def Let_def s5_def upd_type_def upd_header_def split: option.splits)
  show thesis
  proof (rule that [OF ch(1)])
    show "user_page (mm (pool s6))" using d0(3) c2(4) c3(2) a(4) same(1) by simp
    show "file_handle s6 h" using ho nz same by (simp add: file_handle_def object_type_def)
    show "(held(ob := 1)) (handle_object s6 h) < 2 ^ 30" by (simp add: ho)
    show "files s6 (handle_object s6 h) = \<lparr>Kind = FileKindDisk, fo_Data = fo_Data (files s6 (handle_object s6 h)), fo_Size = 5, Position = 1, FatWriteDate = 0, FatWriteTime = 0\<rparr>"
      "io_data s6 (fo_Data (files s6 (handle_object s6 h))) = [0x68, 0x65, 0x6C, 0x6C, 0x6F]"
      by (simp_all add: ho same s5_def f_def)
  qed
qed

theorem NtReadFile_correct_witness:
  "\<exists>(s :: unit file_state) h f s'. NtReadFile ((\<lambda>_. 0)(0 := h, 4 := 0x400000, 5 := 0x400100, 6 := 3)) s = Some (STATUS_SUCCESS, s') \<and>
     s' = put_user f (s\<lparr>files := files s'\<rparr>) \<and> Position (files s' (handle_object s h)) = 4 \<and>
     (\<forall>m. mem_holds (f m) 0x400100 [0x65, 0x6C, 0x6C] \<and> ld64 (f m) 0x400008 = 3)"
proof -
  obtain s :: "unit file_state" and L B held h where d: "ob_inv s L B held" "user_page (mm (pool s))" "file_handle s h" "held (handle_object s h) < 2 ^ 30"
    "files s (handle_object s h) = \<lparr>Kind = FileKindDisk, fo_Data = fo_Data (files s (handle_object s h)), fo_Size = 5, Position = 1, FatWriteDate = 0, FatWriteTime = 0\<rparr>"
    "io_data s (fo_Data (files s (handle_object s h))) = [0x68, 0x65, 0x6C, 0x6C, 0x6F]" by (rule demo_file)
  let ?a = "(\<lambda>_. 0)(0 := h, 4 := 0x400000, 5 := 0x400100, 6 := 3) :: nat \<Rightarrow> u64" and ?f = "files s (handle_object s h)"
  have ar: "?a 0 = h" "?a 4 = 0x400000" "?a 5 = 0x400100" "?a 6 = 3" by simp_all
  have p: "probed s 0x400000 16" "probed s 0x400100 3" unfolding probed_def by (rule user_page_probe [OF d(2)]; simp)+
  have fl: "Kind ?f = FileKindDisk" "fo_Size ?f = 5" "Position ?f = 1" by (simp_all add: d(5) [THEN arg_cong [where f = Kind]]
      d(5) [THEN arg_cong [where f = fo_Size]] d(5) [THEN arg_cong [where f = Position]])
  have n: "read_count ?f 3 = 3" by (simp add: read_count_def fl)
  have rb: "read_data s ?f 3 = [0x65, 0x6C, 0x6C]" unfolding read_data_def n d(6) fl by simp
  have dis: "span 0x400100 3 \<inter> span 0x400000 16 = {}"
  proof (rule equals0I)
    fix x :: u64 assume x: "x \<in> span 0x400100 3 \<inter> span 0x400000 16"
    then have "x \<in> span 0x400100 16" using span_mono [of 3 16 "0x400100"] by auto
    from span_apart [OF _ _ this, of "0x400000"] x show False by simp
  qed
  have u3: "unat (3 :: u64) = 3" by simp
  from NtReadFile_correct [where a = ?a, OF d(1), unfolded ar, OF d(4), unfolded n rb u3] p d(3) obtain f where
    e: "NtReadFile ?a s = Some (STATUS_SUCCESS, put_user f (s\<lparr>files := (files s)(handle_object s h := ?f\<lparr>Position := Position ?f + 3\<rparr>)\<rparr>))"
      "\<forall>m. ld32 (f m) 0x400000 = STATUS_SUCCESS \<and> ld64 (f m) (0x400000 + 8) = 3" "\<forall>m. mem_holds (f m) 0x400100 [0x65, 0x6C, 0x6C]"
    using dis by auto
  then show ?thesis using fl
    by (intro exI [of _ s] exI [of _ h] exI [of _ f] exI [of _ "put_user f (s\<lparr>files := (files s)(handle_object s h := ?f\<lparr>Position := Position ?f + 3\<rparr>)\<rparr>)"]) simp
qed

end
