(* ===== verification/Ps_Object.thy ===== *)
theory Ps_Object
  imports Ke_Thread Nt_Service
begin

text \<open>
  Event, semaphore and thread objects and their services, \<^verbatim>\<open>kernel/ps/psobj.c\<close>. A dispatcher object is an object of the object
  manager whose body starts with its dispatcher header, so one address names both. A wait service keeps a reference to each object
  it waits for; when the wait blocks, the objects stay in the local array of the call: \<open>wait_objects\<close> keeps them per thread, and
  \<open>NtResumeWait\<close> is what the call does once its thread runs again. \<open>frame_bytes\<close> is what a physical frame holds when it is allocated.
  Log lines, the tables that keep them from repeating, and the thread pointer in the body of a thread object, which nothing reads,
  are not modelled.

  \<open>ps_inv\<close> joins the invariants of the object manager and of the scheduler: the references the waits and the running threads hold
  are counted, so that no wait list is ever that of a freed object.
\<close>

section \<open>State\<close>

record ps_state = kernel +
  g_event_type :: u64
  g_thread_type :: u64
  g_semaphore_type :: u64
  g_thread_va :: u64
  wait_objects :: "u64 \<Rightarrow> u64 list"
  frame_bytes :: "u64 \<Rightarrow> u64 \<Rightarrow> u8"

abbreviation "SIZEOF_KEVENT \<equiv> (24 :: u64)"
abbreviation "SIZEOF_KSEMAPHORE \<equiv> (32 :: u64)"
abbreviation "SIZEOF_THREAD_OBJECT \<equiv> (32 :: u64)"
abbreviation "THREAD_STACK_PAGES \<equiv> (16 :: nat)"
abbreviation "PROCESS_CLIENT_ID \<equiv> (4 :: u64)"
abbreviation "PROCESS_PEB_VA \<equiv> (0x61000 :: u64)"
abbreviation "PROCESS_MAIN_TEB_VA \<equiv> (0x50000 :: u64)"
abbreviation "PROCESS_TEB_PAGES \<equiv> (2 :: nat)"

definition PsInitialize :: "'z ps_state_scheme \<Rightarrow> 'z ps_state_scheme option" where
  "PsInitialize s =
     do {
       (e, s1) \<leftarrow> ObCreateObjectType (cstr ''Event'') NoDelete s;
       (t, s2) \<leftarrow> ObCreateObjectType (cstr ''Thread'') NoDelete (s1\<lparr>g_event_type := e\<rparr>);
       (m, s3) \<leftarrow> ObCreateObjectType (cstr ''Semaphore'') NoDelete (s2\<lparr>g_thread_type := t\<rparr>);
       Some (s3\<lparr>g_semaphore_type := m\<rparr>)
     }"

section \<open>Events\<close>

definition NtCreateEvent :: "(nat \<Rightarrow> u64) \<Rightarrow> 'z ps_state_scheme \<Rightarrow> (ntstatus \<times> 'z ps_state_scheme) option" where
  "NtCreateEvent a s =
     do {
       ok \<leftarrow> MmProbeForWrite (mm (pool s)) (a 0) 8;
       if \<not> ok then Some (STATUS_ACCESS_VIOLATION, s)
       else do {
         (st, obj, s1) \<leftarrow> ObCreateObject (g_event_type s) SIZEOF_KEVENT s;
         if \<not> NT_SUCCESS st then Some (STATUS_NO_MEMORY, s1)
         else do {
           let s2 = s1\<lparr>ke := KeInitializeEvent obj (a 3 = 0) ((ucast (a 4) :: u8) \<noteq> 0) (ke s1)\<rparr>;
           let (st, h, s3) = ObCreateHandle obj GENERIC_ALL s2;
           s4 \<leftarrow> ObDereferenceObject obj s3;
           if \<not> NT_SUCCESS st then Some (STATUS_NO_MEMORY, s4)
           else Some (STATUS_SUCCESS, put_user (st64 (a 0) h) s4)
         }
       }
     }"

text \<open>The status and, on success, the event and the handle.\<close>

definition PsCreateNotificationEvent :: "'z ps_state_scheme \<Rightarrow> (ntstatus \<times> (u64 \<times> u64) option \<times> 'z ps_state_scheme) option" where
  "PsCreateNotificationEvent s =
     do {
       (st, obj, s1) \<leftarrow> ObCreateObject (g_event_type s) SIZEOF_KEVENT s;
       if \<not> NT_SUCCESS st then Some (STATUS_NO_MEMORY, None, s1)
       else do {
         let s2 = s1\<lparr>ke := KeInitializeEvent obj True False (ke s1)\<rparr>;
         let (st, h, s3) = ObCreateHandle obj GENERIC_ALL s2;
         s4 \<leftarrow> ObDereferenceObject obj s3;
         if \<not> NT_SUCCESS st then Some (STATUS_NO_MEMORY, None, s4)
         else Some (STATUS_SUCCESS, Some (obj, h), s4)
       }
     }"

text \<open>An optional 32-bit result: \<^verbatim>\<open>if (p && MmProbeForWrite(p, sizeof(LONG))) *p = v\<close>.\<close>

definition put_previous :: "u64 \<Rightarrow> u32 \<Rightarrow> 'z ps_state_scheme \<Rightarrow> 'z ps_state_scheme option" where
  "put_previous p v s =
     (if p = 0 then Some s
      else do {
        ok \<leftarrow> MmProbeForWrite (mm (pool s)) p 4;
        Some (if ok then put_user (st32 p v) s else s)
      })"

definition NtSetEvent :: "(nat \<Rightarrow> u64) \<Rightarrow> 'z ps_state_scheme \<Rightarrow> (ntstatus \<times> 'z ps_state_scheme) option" where
  "NtSetEvent a s =
     (let (st, obj, s1) = ObReferenceObjectByHandle (a 0) 0 (g_event_type s) s
      in if \<not> NT_SUCCESS st then Some (STATUS_INVALID_HANDLE, s1)
         else
           (let (previous, k) = KeSetEvent obj (ke s1)
            in do {
              s3 \<leftarrow> ObDereferenceObject obj (s1\<lparr>ke := k\<rparr>);
              s4 \<leftarrow> put_previous (a 1) previous s3;
              Some (STATUS_SUCCESS, s4)
            }))"

definition NtResetEvent :: "(nat \<Rightarrow> u64) \<Rightarrow> 'z ps_state_scheme \<Rightarrow> (ntstatus \<times> 'z ps_state_scheme) option" where
  "NtResetEvent a s =
     (let (st, obj, s1) = ObReferenceObjectByHandle (a 0) 0 (g_event_type s) s
      in if \<not> NT_SUCCESS st then Some (STATUS_INVALID_HANDLE, s1)
         else
           (let previous = SignalState (disp (ke s1) obj);
                s2 = s1\<lparr>ke := KeResetEvent obj (ke s1)\<rparr>
            in do {
              s3 \<leftarrow> put_previous (a 1) previous s2;
              s4 \<leftarrow> ObDereferenceObject obj s3;
              Some (STATUS_SUCCESS, s4)
            }))"

section \<open>Semaphores\<close>

definition NtCreateSemaphore :: "(nat \<Rightarrow> u64) \<Rightarrow> 'z ps_state_scheme \<Rightarrow> (ntstatus \<times> 'z ps_state_scheme) option" where
  "NtCreateSemaphore a s =
     (let initial = ucast (a 3) :: u32; limit = ucast (a 4) :: u32
      in do {
        ok \<leftarrow> MmProbeForWrite (mm (pool s)) (a 0) 8;
        if \<not> ok then Some (STATUS_ACCESS_VIOLATION, s)
        else if sint limit \<le> 0 \<or> sint initial < 0 \<or> sint limit < sint initial then Some (STATUS_INVALID_PARAMETER, s)
        else do {
          (st, obj, s1) \<leftarrow> ObCreateObject (g_semaphore_type s) SIZEOF_KSEMAPHORE s;
          if \<not> NT_SUCCESS st then Some (STATUS_NO_MEMORY, s1)
          else do {
            let s2 = s1\<lparr>ke := KeInitializeSemaphore obj initial limit (ke s1)\<rparr>;
            let (status, h, s3) = ObCreateHandle obj GENERIC_ALL s2;
            s4 \<leftarrow> ObDereferenceObject obj s3;
            if \<not> NT_SUCCESS status then Some (status, s4)
            else Some (STATUS_SUCCESS, put_user (st64 (a 0) h) s4)
          }
        }
      })"

definition NtReleaseSemaphore :: "(nat \<Rightarrow> u64) \<Rightarrow> 'z ps_state_scheme \<Rightarrow> (ntstatus \<times> 'z ps_state_scheme) option" where
  "NtReleaseSemaphore a s =
     (let release = ucast (a 1) :: u32
      in if sint release \<le> 0 then Some (STATUS_INVALID_PARAMETER, s)
         else
           (let (st, obj, s1) = ObReferenceObjectByHandle (a 0) 0 (g_semaphore_type s) s
            in if \<not> NT_SUCCESS st then Some (STATUS_INVALID_HANDLE, s1)
               else
                 (let d = disp (ke s1) obj
                  in if sint (Limit d - release) < sint (SignalState d) then do {
                       s2 \<leftarrow> ObDereferenceObject obj s1;
                       Some (STATUS_INVALID_PARAMETER, s2)
                     }
                     else
                       (let (previous, k) = KeReleaseSemaphore obj release (ke s1)
                        in do {
                          s3 \<leftarrow> put_previous (a 2) previous (s1\<lparr>ke := k\<rparr>);
                          s4 \<leftarrow> ObDereferenceObject obj s3;
                          Some (STATUS_SUCCESS, s4)
                        }))))"

section \<open>Waiting\<close>

definition timeout_to_ticks :: "u64 \<Rightarrow> 'z ps_state_scheme \<Rightarrow> u64 option" where
  "timeout_to_ticks timeout s =
     (if timeout = 0 then Some INFINITE_TICKS
      else do {
        ok \<leftarrow> MmProbeForRead (mm (pool s)) timeout 8;
        if \<not> ok then Some INFINITE_TICKS
        else
          (let v = read64 (mm (pool s)) timeout
           in if v = 0 then Some 0
              else if sint v < 0 then
                (let units = - (v + 1) + 1 in Some ((units + 99999) div 100000))
              else
                (let now = g_tick_count (ke s) * 100000
                 in if v \<le> now then Some 0 else Some ((v - now + 99999) div 100000)))
      })"

definition reference_waitable :: "u64 \<Rightarrow> 'z ps_state_scheme \<Rightarrow> (ntstatus \<times> u64 \<times> 'z ps_state_scheme) option" where
  "reference_waitable handle s =
     (let (status, obj, s1) = ObReferenceObjectByHandle handle 0 0 s
      in if \<not> NT_SUCCESS status then Some (STATUS_INVALID_HANDLE, 0, s1)
         else
           (let ty = oh_Type (headers s1 (ObHeaderFromObject obj))
            in if ty \<noteq> g_event_type s1 \<and> ty \<noteq> g_thread_type s1 \<and> ty \<noteq> g_semaphore_type s1 then do {
                 s2 \<leftarrow> ObDereferenceObject obj s1;
                 Some (STATUS_OBJECT_TYPE_MISMATCH, 0, s2)
               }
               else Some (STATUS_SUCCESS, obj, s1)))"

text \<open>\<^verbatim>\<open>while (referenced) ObDereferenceObject(objects[--referenced])\<close>.\<close>

fun drop_all :: "u64 list \<Rightarrow> 'z ob_state_scheme \<Rightarrow> 'z ob_state_scheme option" where
  "drop_all [] s = Some s"
| "drop_all (ob # obs) s = do { s1 \<leftarrow> ObDereferenceObject ob s; drop_all obs s1 }"

text \<open>The end of a wait service, given what the dispatcher's wait did: it either returns and drops its references, or its thread is
  switched away and the references stay in its frame.\<close>

definition wait_end :: "u64 \<Rightarrow> u64 list \<Rightarrow> wait_result \<times> sched_state \<Rightarrow> 'z ps_state_scheme \<Rightarrow> (wait_result \<times> 'z ps_state_scheme) option" where
  "wait_end thread objects r s =
     (case r of
        (Blocked, k) \<Rightarrow> Some (Blocked, s\<lparr>ke := k, wait_objects := (wait_objects s)(thread := objects)\<rparr>)
      | (Returned st, k) \<Rightarrow> do {
          s1 \<leftarrow> drop_all (rev objects) (s\<lparr>ke := k, wait_objects := (wait_objects s)(thread := [])\<rparr>);
          Some (Returned st, s1)
        })"

definition NtWaitForSingleObject :: "(nat \<Rightarrow> u64) \<Rightarrow> 'z ps_state_scheme \<Rightarrow> (wait_result \<times> 'z ps_state_scheme) option" where
  "NtWaitForSingleObject a s =
     do {
       (st, obj, s1) \<leftarrow> reference_waitable (a 0) s;
       if \<not> NT_SUCCESS st then Some (Returned st, s1)
       else do {
         ticks \<leftarrow> timeout_to_ticks (a 2) s1;
         wait_end (g_current_thread (ke s1)) [obj] (KeWaitForSingleObjectTimeout obj ticks (ke s1)) s1
       }
     }"

fun reference_handles :: "u64 list \<Rightarrow> u64 list \<Rightarrow> 'z ps_state_scheme \<Rightarrow> (ntstatus \<times> u64 list \<times> 'z ps_state_scheme) option" where
  "reference_handles [] objects s = Some (STATUS_SUCCESS, objects, s)"
| "reference_handles (h # hs) objects s =
     do {
       (status, obj, s1) \<leftarrow> reference_waitable h s;
       if \<not> NT_SUCCESS status then Some (status, objects, s1) else reference_handles hs (objects @ [obj]) s1
     }"

definition NtWaitForMultipleObjects :: "(nat \<Rightarrow> u64) \<Rightarrow> 'z ps_state_scheme \<Rightarrow> (wait_result \<times> 'z ps_state_scheme) option" where
  "NtWaitForMultipleObjects a s =
     (let count = ucast (a 0) :: u32; handles = a 1; wait_type = ucast (a 2) :: u32; timeout = a 4
      in if count = 0 \<or> of_nat KE_MAXIMUM_WAIT_OBJECTS < count \<or> 1 < wait_type then Some (Returned STATUS_INVALID_PARAMETER, s)
         else do {
           ok \<leftarrow> MmProbeForRead (mm (pool s)) handles (ucast count * 8);
           if \<not> ok then Some (Returned STATUS_ACCESS_VIOLATION, s)
           else do {
             (status, objects, s1) \<leftarrow>
               reference_handles (map (\<lambda>i. read64 (mm (pool s)) (handles + 8 * of_nat i)) [0..<unat count]) [] s;
             if \<not> NT_SUCCESS status then do {
               s2 \<leftarrow> drop_all (rev objects) s1;
               Some (Returned status, s2)
             }
             else do {
               ticks \<leftarrow> timeout_to_ticks timeout s1;
               wait_end (g_current_thread (ke s1)) objects (KeWaitForMultipleObjects objects (wait_type = 0) ticks (ke s1)) s1
             }
           }
         })"

definition NtResumeWait :: "wait_frame \<Rightarrow> 'z ps_state_scheme \<Rightarrow> (wait_result \<times> 'z ps_state_scheme) option" where
  "NtResumeWait f s =
     (let thread = g_current_thread (ke s) in wait_end thread (wait_objects s thread) (KiResumeWait f (ke s)) s)"

section \<open>Process information\<close>

definition NtQueryInformationProcess :: "(nat \<Rightarrow> u64) \<Rightarrow> 'z ps_state_scheme \<Rightarrow> (ntstatus \<times> 'z ps_state_scheme) option" where
  "NtQueryInformationProcess a s =
     (if (ucast (a 1) :: u32) \<noteq> 0 then Some (STATUS_INVALID_INFO_CLASS, s)
      else do {
        s1 \<leftarrow> put_previous (a 4) 48 s;
        if (ucast (a 3) :: u32) < 48 then Some (STATUS_INFO_LENGTH_MISMATCH, s1)
        else do {
          ok \<leftarrow> MmProbeForWrite (mm (pool s1)) (a 2) 48;
          if \<not> ok then Some (STATUS_ACCESS_VIOLATION, s1)
          else Some (STATUS_SUCCESS, put_user (store_bytes (a 2) (le32 STATUS_PENDING @ le32 0 @ le64 PROCESS_PEB_VA @ le64 1 @
                 le32 8 @ le32 0 @ le64 1 @ le64 0)) s1)
        }
      })"

section \<open>Thread creation\<close>

text \<open>Mapping one fresh frame: the page holds what the frame held.\<close>

definition map_user_page :: "u64 \<Rightarrow> 'z ps_state_scheme \<Rightarrow> (bool \<times> 'z ps_state_scheme) option" where
  "map_user_page va s =
     (let v = mm (pool s); (pa, pm) = MmAllocatePage (pmm v); v1 = v\<lparr>pmm := pm\<rparr>
      in if pa = MM_INVALID_PHYS then Some (False, s\<lparr>pool := (pool s)\<lparr>mm := v1\<rparr>\<rparr>)
         else do {
           (_, v2) \<leftarrow> MmMapPage va pa (PTE_USER OR PTE_WRITE) v1;
           Some (True, put_user (store_bytes va (map (\<lambda>i. frame_bytes s pa (of_nat i)) [0..<4096])) (s\<lparr>pool := (pool s)\<lparr>mm := v2\<rparr>\<rparr>))
         })"

fun map_pages_loop :: "u64 \<Rightarrow> nat list \<Rightarrow> 'z ps_state_scheme \<Rightarrow> (bool \<times> 'z ps_state_scheme) option" where
  "map_pages_loop base [] s = Some (True, s)"
| "map_pages_loop base (i # is) s =
     do {
       (ok, s1) \<leftarrow> map_user_page (base + of_nat i * PAGE_SIZE) s;
       if \<not> ok then Some (False, s1) else map_pages_loop base is s1
     }"

definition map_user_pages :: "nat \<Rightarrow> 'z ps_state_scheme \<Rightarrow> (u64 \<times> 'z ps_state_scheme) option" where
  "map_user_pages pages s =
     (let base = g_thread_va s
      in do {
        (ok, s1) \<leftarrow> map_pages_loop base [0..<pages] s;
        if \<not> ok then Some (0, s1)
        else Some (base, s1\<lparr>g_thread_va := g_thread_va s1 + of_nat pages * PAGE_SIZE\<rparr>)
      })"

text \<open>The stores to the new TEB.\<close>

definition fill_teb :: "u64 \<Rightarrow> u64 \<Rightarrow> u64 \<Rightarrow> (u64 \<Rightarrow> u8) \<Rightarrow> u64 \<Rightarrow> u8" where
  "fill_teb teb stack_base stack_top m =
     (let m1 = store_bytes teb (replicate 0x2000 0) m;
          m2 = store_bytes (teb + 0x800) (read_bytes m1 (PROCESS_MAIN_TEB_VA + 0x800) 0x1800) m1;
          m3 = st64 (teb + 0x30) teb m2;
          m4 = st64 (teb + 0x08) stack_top m3;
          m5 = st64 (teb + 0x10) stack_base m4;
          m6 = st64 (teb + 0x60) PROCESS_PEB_VA m5
      in st64 (teb + 0x40) PROCESS_CLIENT_ID m6)"

text \<open>The second half of \<^verbatim>\<open>NtCreateThreadEx\<close>: the thread object, the thread and the handle.\<close>

definition start_user_thread :: "(nat \<Rightarrow> u64) \<Rightarrow> u64 \<Rightarrow> u64 \<Rightarrow> 'z ps_state_scheme \<Rightarrow> (ntstatus \<times> 'z ps_state_scheme) option" where
  "start_user_thread a stack_top teb s =
     do {
       (st, obj, s1) \<leftarrow> ObCreateObject (g_thread_type s) SIZEOF_THREAD_OBJECT s;
       if \<not> NT_SUCCESS st then Some (STATUS_NO_MEMORY, s1)
       else do {
         let s2 = s1\<lparr>ke := upd_disp obj (\<lambda>d. d\<lparr>d_Type := ThreadObject, SignalState := 0, WaitListHead := []\<rparr>) (ke s1)\<rparr>;
         (kt, s3) \<leftarrow> KeCreateUserThread (cstr ''userthread'') (a 4) stack_top teb (a 5) 8 s2;
         if kt = 0 then do {
           s4 \<leftarrow> ObDereferenceObject obj s3;
           Some (STATUS_NO_MEMORY, s4)
         }
         else do {
           let s4 = ObReferenceObject obj s3;
           let s5 = s4\<lparr>ke := upd_thread kt (\<lambda>t. t\<lparr>TerminationObject := obj\<rparr>) (ke s4)\<rparr>;
           let (st, h, s6) = ObCreateHandle obj GENERIC_ALL s5;
           s7 \<leftarrow> ObDereferenceObject obj s6;
           if \<not> NT_SUCCESS st then Some (STATUS_NO_MEMORY, s7)
           else
             (let s8 = put_user (st64 (a 0) h) s7
              in Some (STATUS_SUCCESS, s8\<lparr>ke := KeYield (ke s8)\<rparr>))
         }
       }
     }"

definition NtCreateThreadEx :: "(nat \<Rightarrow> u64) \<Rightarrow> 'z ps_state_scheme \<Rightarrow> (ntstatus \<times> 'z ps_state_scheme) option" where
  "NtCreateThreadEx a s =
     do {
       ok \<leftarrow> MmProbeForWrite (mm (pool s)) (a 0) 8;
       if \<not> ok then Some (STATUS_ACCESS_VIOLATION, s)
       else do {
         (stack_base, s1) \<leftarrow> map_user_pages THREAD_STACK_PAGES s;
         (teb, s2) \<leftarrow> map_user_pages PROCESS_TEB_PAGES s1;
         if stack_base = 0 \<or> teb = 0 then Some (STATUS_NO_MEMORY, s2)
         else
           (let stack_top = stack_base + of_nat THREAD_STACK_PAGES * PAGE_SIZE
            in start_user_thread a stack_top teb (put_user (fill_teb teb stack_base stack_top) s2))
       }
     }"

section \<open>What the scheduler leaves alone\<close>

text \<open>The threads, their termination objects and the idle thread.\<close>

definition tkeeps :: "sched_state \<Rightarrow> sched_state \<Rightarrow> bool" where
  "tkeeps k k' \<longleftrightarrow> ThreadListHead k' = ThreadListHead k \<and> g_idle_thread k' = g_idle_thread k \<and>
     (\<forall>t \<in> set (ThreadListHead k). TerminationObject (threads k' t) = TerminationObject (threads k t))"

lemma tkeeps_refl [simp]: "tkeeps k k"
  by (simp add: tkeeps_def)

lemma tkeeps_trans: "tkeeps k k' \<Longrightarrow> tkeeps k' k'' \<Longrightarrow> tkeeps k k''"
  by (simp add: tkeeps_def)

lemma tkeeps_disp [simp]: "tkeeps k (upd_disp h f k)" "frames (upd_disp h f k) = frames k"
  by (simp_all add: tkeeps_def)

lemma tkeeps_thread: "(\<And>x. TerminationObject (f x) = TerminationObject x) \<Longrightarrow> tkeeps k (upd_thread t f k)"
  by (simp add: tkeeps_def)

lemma tkeeps_schedule [simp]: "tkeeps k (KiSchedule k)"
  by (cases "g_ready_queue k"; simp add: tkeeps_def KiSchedule_def KiSwitchContext_def Let_def)

lemma unlink_fields [simp]:
  "threads (fold (\<lambda>i. remove_wait_entry (t, i)) is k) = threads k" "frames (fold (\<lambda>i. remove_wait_entry (t, i)) is k) = frames k"
  "ThreadListHead (fold (\<lambda>i. remove_wait_entry (t, i)) is k) = ThreadListHead k"
  "g_idle_thread (fold (\<lambda>i. remove_wait_entry (t, i)) is k) = g_idle_thread k"
  "g_current_thread (fold (\<lambda>i. remove_wait_entry (t, i)) is k) = g_current_thread k"
  by (induction "is" arbitrary: k; simp add: remove_wait_entry_def)+

lemma tkeeps_wake [simp]: "tkeeps k (KiWakeWaitingThread t st k)" "frames (KiWakeWaitingThread t st k) = frames k"
  by (simp_all add: tkeeps_def KiWakeWaitingThread_def KiUnlinkThreadWait_def KiReadyThread_def Let_def)

lemma tkeeps_signal: "tkeeps k (KiSignalObject h k) \<and> frames (KiSignalObject h k) = frames k"
proof (induction h k rule: KiSignalObject.induct)
  case (1 h k)
  show ?case
  proof (cases "WaitListHead (disp k h)")
    case Nil
    then show ?thesis by (simp add: KiSignalObject.simps)
  next
    case (Cons e es)
    obtain t i where e: "e = (t, i)" by (cases e)
    let ?k = "upd_disp h (\<lambda>d. d\<lparr>WaitListHead := es\<rparr>) k"
    let ?w = "KiWakeWaitingThread (wb_Thread (WaitBlocks (threads ?k t) i)) STATUS_SUCCESS ?k"
    have "tkeeps ?w (KiSignalObject h ?w) \<and> frames (KiSignalObject h ?w) = frames ?w"
      by (rule 1 [OF Cons e [symmetric] refl])
    moreover have "tkeeps k ?w" using tkeeps_trans [OF tkeeps_disp(1) tkeeps_wake(1)] .
    moreover have "KiSignalObject h k = KiSignalObject h ?w" using Cons e by (subst KiSignalObject.simps) (simp add: Let_def)
    ultimately show ?thesis using tkeeps_trans by (auto simp: upd_disp_def)
  qed
qed

lemmas tkeeps_signal_disp = tkeeps_trans [OF tkeeps_disp(1) tkeeps_signal [THEN conjunct1]]

lemma tkeeps_signals [simp]:
  "tkeeps k (snd (KeSetEvent h k))" "frames (snd (KeSetEvent h k)) = frames k"
  "tkeeps k (snd (KeReleaseSemaphore h n k))" "frames (snd (KeReleaseSemaphore h n k)) = frames k"
  "tkeeps k (KeResetEvent h k)" "frames (KeResetEvent h k) = frames k"
proof -
  let ?lim = "\<lambda>d. let v = SignalState d + n in if Limit d \<noteq> 0 \<and> sint (Limit d) < sint v then Limit d else v"
  have r: "snd (KeReleaseSemaphore h n k) = KiSignalObject h (upd_disp h (\<lambda>d. d\<lparr>SignalState := ?lim d\<rparr>) k)"
    by (simp add: KeReleaseSemaphore_def Let_def upd_disp_def)
  show "tkeeps k (snd (KeReleaseSemaphore h n k))" "frames (snd (KeReleaseSemaphore h n k)) = frames k"
    unfolding r by (simp_all add: tkeeps_signal_disp tkeeps_signal)
qed (simp_all add: KeSetEvent_def KeResetEvent_def Let_def tkeeps_signal_disp tkeeps_signal)

lemma tkeeps_expire: "tkeeps k (fold expire_wait ts k) \<and> frames (fold expire_wait ts k) = frames k"
proof (induction ts arbitrary: k)
  case (Cons t ts)
  have "tkeeps k (expire_wait t k)" "frames (expire_wait t k) = frames k"
    by (simp_all add: expire_wait_def KiTimeoutThreadWait_def)
  then show ?case using Cons [of "expire_wait t k"] tkeeps_trans by auto
qed simp

lemma tkeeps_tick [simp]: "tkeeps k (KeClockTick k)" "frames (KeClockTick k) = frames k"
proof -
  define k2 where "k2 = KeUpdateSharedData (g_tick_count k + 1) (k\<lparr>g_tick_count := g_tick_count k + 1\<rparr>)"
  define k3 where "k3 = fold expire_wait (ThreadListHead k2) k2"
  define k4 where "k4 = (if 0 < sint (Quantum (threads k3 (g_current_thread k3)))
    then upd_thread (g_current_thread k3) (\<lambda>x. x\<lparr>Quantum := Quantum x - 1\<rparr>) k3 else k3)"
  have 2: "tkeeps k k2" "frames k2 = frames k" by (simp_all add: k2_def tkeeps_def)
  have 3: "tkeeps k2 k3" "frames k3 = frames k2" using tkeeps_expire [of k2 "ThreadListHead k2"] by (simp_all add: k3_def)
  have 4: "tkeeps k3 k4" "frames k4 = frames k3" by (simp_all add: k4_def tkeeps_thread)
  have e: "KeClockTick k = (if sint (Quantum (threads k4 (g_current_thread k4))) \<le> 0 then KiSchedule k4 else k4)"
    by (simp add: KeClockTick_split tick_wakes_def tick_quantum_def Let_def k2_def [symmetric]) (simp add: k4_def k3_def k2_def)
  have "tkeeps k k4" using tkeeps_trans [OF tkeeps_trans [OF 2(1) 3(1)] 4(1)] .
  then show "tkeeps k (KeClockTick k)" "frames (KeClockTick k) = frames k"
    unfolding e using tkeeps_trans [OF _ tkeeps_schedule] 2 3 4 by auto
qed

text \<open>A wait leaves its frame behind exactly when it blocks.\<close>

lemma tkeeps_acquire:
  assumes "try_acquire f k = Some (st, k')"
  shows "tkeeps k k' \<and> frames k' = frames k"
  using assms by (auto simp: try_acquire_def tkeeps_def split: if_splits option.splits)

lemma wait_iteration_frames:
  assumes "wait_iteration f k = (r, k')"
  shows "tkeeps k k'" "frames k' = (frames k)(g_current_thread k := (if r = Blocked then Some f else None))"
proof -
  have "tkeeps k k' \<and> frames k' = (frames k)(g_current_thread k := (if r = Blocked then Some f else None))"
  proof (cases "try_acquire f k")
    case (Some x)
    then obtain st k1 where x: "try_acquire f k = Some (st, k1)" by (cases x) auto
    from tkeeps_acquire [OF x] assms x show ?thesis by (auto simp: wait_iteration_def Let_def tkeeps_def)
  next
    case None
    let ?t = "g_current_thread k"
    define k3 where "k3 = (upd_thread ?t (\<lambda>x. x\<lparr>State := ThreadStateWaiting\<rparr>) (fold (queue_wait_block ?t) (enumerate 0 (wf_objects f))
      (upd_thread ?t (\<lambda>x. x\<lparr>WaitBlockCount := of_nat (length (wf_objects f)), WaitStatus := STATUS_PENDING, WaitDeadline := wf_deadline f\<rparr>) k)))
        \<lparr>frames := (frames k)(?t := Some f)\<rparr>"
    have 3: "tkeeps k k3" "frames k3 = (frames k)(?t := Some f)"
      by (simp_all add: k3_def tkeeps_def queue_blocks_threads)
    have "tkeeps k (KiSchedule k3)" using tkeeps_trans [OF 3(1) tkeeps_schedule] .
    then show ?thesis using assms None 3(2)
      by (auto simp: wait_iteration_def Let_def KiBlockCurrentThread_def k3_def [symmetric] tkeeps_def split: if_splits)
  qed
  then show "tkeeps k k'" "frames k' = (frames k)(g_current_thread k := (if r = Blocked then Some f else None))" by simp_all
qed

lemma wait_frames:
  assumes "KeWaitForMultipleObjects obs all ticks k = (r, k')" "frames k (g_current_thread k) = None"
  obtains f where "tkeeps k k'" "wf_objects f = obs" "frames k' = (frames k)(g_current_thread k := (if r = Blocked then Some f else None))"
proof (cases "obs = [] \<or> KE_MAXIMUM_WAIT_OBJECTS < length obs")
  case True
  then have "r \<noteq> Blocked" "k' = k" using assms(1) by (auto simp: KeWaitForMultipleObjects_def)
  moreover have "(frames k)(g_current_thread k := None) = frames k" using assms(2) by auto
  ultimately show thesis by (intro that [of "\<lparr>wf_objects = obs, wf_wait_all = all, wf_timeout_ticks = 0, wf_deadline = 0\<rparr>"]) simp_all
next
  case False
  define f where "f = \<lparr>wf_objects = obs, wf_wait_all = all, wf_timeout_ticks = ticks,
    wf_deadline = (if ticks = INFINITE_TICKS then 0 else g_tick_count k + ticks)\<rparr>"
  have "wait_iteration f k = (r, k')" using False assms(1) by (simp add: KeWaitForMultipleObjects_def Let_def f_def)
  from wait_iteration_frames [OF this] show thesis by (intro that [of f]) (simp_all add: f_def)
qed

lemma resume_frames:
  assumes "KiResumeWait f k = (r, k')"
  shows "tkeeps k k'" "frames k' = (frames k)(g_current_thread k := (if r = Blocked then Some f else None))"
proof -
  define k2 where "k2 = upd_thread (g_current_thread k) (\<lambda>x. x\<lparr>WaitBlockCount := 0\<rparr>) (KiUnlinkThreadWait (g_current_thread k) k)"
  have 2: "tkeeps k k2" "frames k2 = frames k" "g_current_thread k2 = g_current_thread k"
    by (simp_all add: k2_def tkeeps_def KiUnlinkThreadWait_def)
  have "tkeeps k k' \<and> frames k' = (frames k)(g_current_thread k := (if r = Blocked then Some f else None))"
  proof (cases "WaitStatus (threads (KiUnlinkThreadWait (g_current_thread k) k) (g_current_thread k)) = STATUS_TIMEOUT")
    case True
    then have "r = Returned STATUS_TIMEOUT" "k' = k2\<lparr>frames := (frames k2)(g_current_thread k := None)\<rparr>"
      using assms by (auto simp: KiResumeWait_def Let_def k2_def)
    then show ?thesis using 2 by (simp add: tkeeps_def)
  next
    case False
    then have "wait_iteration f k2 = (r, k')" using assms by (simp add: KiResumeWait_def Let_def k2_def)
    from wait_iteration_frames [OF this] 2 show ?thesis using tkeeps_trans by auto
  qed
  then show "tkeeps k k'" "frames k' = (frames k)(g_current_thread k := (if r = Blocked then Some f else None))" by simp_all
qed

section \<open>The references of the threads\<close>

text \<open>A thread holds a reference to each object of its blocked wait service and to its termination object.\<close>

definition thread_refs :: "'z ps_state_scheme \<Rightarrow> u64 \<Rightarrow> u64 \<Rightarrow> nat" where
  "thread_refs s t ob = count_list (wait_objects s t) ob + of_bool (TerminationObject (threads (ke s) t) = ob \<and> ob \<noteq> 0)"

definition ps_refs :: "'z ps_state_scheme \<Rightarrow> u64 \<Rightarrow> nat" where
  "ps_refs s ob = (\<Sum>t \<in> set (ThreadListHead (ke s)). thread_refs s t ob)"

definition ps_types :: "'z ps_state_scheme \<Rightarrow> u64 set" where
  "ps_types s = {g_event_type s, g_thread_type s, g_semaphore_type s}"

definition threads_ok :: "'z ps_state_scheme \<Rightarrow> (u64 \<rightharpoonup> nat) \<Rightarrow> u64 set \<Rightarrow> bool" where
  "threads_ok s L B \<longleftrightarrow> unat (g_idle_thread (ke s)) < 0xFFFFFFFFC0000000 \<and>
     (\<forall>t \<in> set (ThreadListHead (ke s)). t \<noteq> g_idle_thread (ke s) \<longrightarrow> t \<in> dom L \<and> t \<notin> ob_own s B)"

definition objects_ok :: "'z ps_state_scheme \<Rightarrow> u64 set \<Rightarrow> bool" where
  "objects_ok s B \<longleftrightarrow> ps_types s \<subseteq> set (g_type_list s) \<and>
     (\<forall>h \<in> B. oh_Type (headers s h) \<in> ps_types s \<longrightarrow> directories s (ObObjectFromHeader h) = []) \<and>
     (\<forall>ob. 0 < ps_refs s ob \<longrightarrow> directories s ob = [])"

definition waits_ok :: "'z ps_state_scheme \<Rightarrow> bool" where
  "waits_ok s \<longleftrightarrow> (\<forall>t. wait_objects s t = (case frames (ke s) t of None \<Rightarrow> [] | Some f \<Rightarrow> wf_objects f))"

text \<open>\<open>base\<close> are the references of the rest of the kernel, the running service included.\<close>

definition ps_inv :: "'z ps_state_scheme \<Rightarrow> (u64 \<rightharpoonup> nat) \<Rightarrow> u64 set \<Rightarrow> (u64 \<Rightarrow> nat) \<Rightarrow> bool" where
  "ps_inv s L B base \<longleftrightarrow> ob_inv s L B (\<lambda>ob. base ob + ps_refs s ob) \<and> ke_good (ke s) \<and> threads_ok s L B \<and> objects_ok s B \<and> waits_ok s"

lemma ps_more:
  assumes "ob_state.more s' = ob_state.more (s :: 'z ps_state_scheme)"
  shows "ke s' = ke s" "wait_objects s' = wait_objects s" "ps_types s' = ps_types s" "frame_bytes s' = frame_bytes s"
    "g_event_type s' = g_event_type s" "g_thread_type s' = g_thread_type s" "g_semaphore_type s' = g_semaphore_type s"
    "g_thread_va s' = g_thread_va s" "ps_refs s' = ps_refs s" "waits_ok s' = waits_ok s"
  using assms by (cases s rule: ps_state.cases_scheme; cases s' rule: ps_state.cases_scheme;
    simp add: ps_types_def ps_refs_def thread_refs_def waits_ok_def fun_eq_iff)+

text \<open>A change of the scheduler state that keeps the threads and the frames.\<close>

lemma ps_inv_ke:
  assumes "ps_inv s L B base" "ke_good k" "tkeeps (ke s) k" "frames k = frames (ke s)"
  shows "ps_inv (s\<lparr>ke := k\<rparr>) L B base"
proof -
  have "ps_refs (s\<lparr>ke := k\<rparr>) = ps_refs s" using assms(3) by (simp add: ps_refs_def thread_refs_def tkeeps_def fun_eq_iff)
  moreover have "ob_inv (s\<lparr>ke := k\<rparr>) L B held = ob_inv s L B held" for held by (rule ob_inv_cong) simp_all
  moreover have "ob_own (s\<lparr>ke := k\<rparr>) B = ob_own s B" by (rule ob_own_cong) simp_all
  ultimately show ?thesis using assms
    by (simp add: ps_inv_def threads_ok_def objects_ok_def waits_ok_def ps_types_def tkeeps_def)
qed

text \<open>A step of the object manager that neither adds objects nor frees blocks of others.\<close>

lemma ps_inv_ob:
  assumes inv: "ps_inv s L B base" and ob: "ob_inv s' L' B' (\<lambda>ob. base' ob + ps_refs s ob)"
    and more: "ob_state.more s' = ob_state.more s" and B: "B' \<subseteq> B" and L: "\<And>x. x \<notin> ob_own s B \<Longrightarrow> L' x = L x"
    and same: "directories s' = directories s" "g_type_list s' = g_type_list s" "files s' = files s"
      "\<And>k. oh_Type (headers s' k) = oh_Type (headers s k)" "\<And>t. DeleteProcedure (types s' t) = DeleteProcedure (types s t)"
  shows "ps_inv s' L' B' base'"
proof -
  note m = ps_more [OF more]
  have "file_data s' = file_data s" by (simp add: file_data_def same fun_eq_iff)
  then have own: "ob_own s' B' \<subseteq> ob_own s B" using B by (auto simp: ob_own_def same)
  have "threads_ok s' L' B'" using inv L own by (fastforce simp: ps_inv_def threads_ok_def m dom_def)
  moreover have "objects_ok s' B'" using inv B by (auto simp: ps_inv_def objects_ok_def m same)
  ultimately show ?thesis using inv ob by (simp add: ps_inv_def m)
qed

lemma ps_inv_user [simp]: "ps_inv (put_user f s) L B base = ps_inv s L B base"
proof -
  have more: "ob_state.more (put_user f s) = ob_state.more s" by simp
  have "ob_own (put_user f s) B = ob_own s B" by (rule ob_own_cong) simp_all
  then show ?thesis by (simp add: ps_inv_def threads_ok_def objects_ok_def ps_more [OF more])
qed

lemma ps_refs_live: "ps_inv s L B base \<Longrightarrow> 0 < base ob + ps_refs s ob \<Longrightarrow> ObHeaderFromObject ob \<in> B"
  by (auto simp: ps_inv_def ob_inv_def)

text \<open>No thread waits on a freed object.\<close>

lemma waited_refs:
  assumes inv: "ps_inv s L B base" and w: "(t, i) \<in> set (WaitListHead (disp (ke s) h))"
  shows "0 < ps_refs s h"
proof -
  have g: "ke_good (ke s)" using inv by (simp add: ps_inv_def)
  note d = ke_goodD [OF g]
  from lists_okD(1) [OF d(3)] w have wt: "waiting (ke s) t" "i < unat (WaitBlockCount (threads (ke s) t))" "wb_Object (WaitBlocks (threads (ke s) t) i) = h"
    by blast+
  then have "pending (ke s) {} {} t" using d(1) by (simp add: sched_inv_def)
  then obtain f where f: "frames (ke s) t = Some f"
    "wf_objects f = map (\<lambda>i. wb_Object (WaitBlocks (threads (ke s) t) i)) [0..<unat (WaitBlockCount (threads (ke s) t))]"
    by (auto simp: pending_def)
  have tl: "t \<in> set (ThreadListHead (ke s))" using wt(1) by (simp add: waiting_def)
  have "h \<in> set (wf_objects f)" using wt(2,3) by (auto simp: f(2))
  then have "h \<in> set (wait_objects s t)" using inv tl f(1) by (simp add: ps_inv_def waits_ok_def)
  then have "0 < thread_refs s t h" by (simp add: thread_refs_def count_list_0_iff zero_less_iff_neq_zero)
  also have "thread_refs s t h \<le> ps_refs s h" unfolding ps_refs_def by (rule member_le_sum [OF tl]) simp_all
  finally show ?thesis .
qed

section \<open>The primitive operations\<close>

lemma ps_reference:
  assumes inv: "ps_inv s L B base" and b: "base (handle_object s h) + ps_refs s (handle_object s h) < 2 ^ 30"
    and c: "ObReferenceObjectByHandle h 0 ty s = (st, ob, s1)"
  obtains (bad) "\<not> NT_SUCCESS st" "s1 = s"
  | (good) "st = STATUS_SUCCESS" "ob = handle_object s h" "ob \<noteq> 0" "s1 = ObReferenceObject ob s"
      "ps_inv s1 L B (base(ob := Suc (base ob)))" "ty \<noteq> 0 \<longrightarrow> oh_Type (headers s (ObHeaderFromObject ob)) = ty"
proof (cases "st = STATUS_SUCCESS")
  case True
  have oi: "ob_inv s L B (\<lambda>ob. base ob + ps_refs s ob)" using inv by (simp add: ps_inv_def)
  from ob_reference_by_handle [OF oi b c] True have o: "ob = handle_object s h" "ob \<noteq> 0" "s1 = ObReferenceObject ob s"
    "ob_inv s1 L B ((\<lambda>ob. base ob + ps_refs s ob)(ob := Suc (base ob + ps_refs s ob)))"
    "ty \<noteq> 0 \<longrightarrow> oh_Type (headers s (ObHeaderFromObject ob)) = ty" by auto
  have e: "(\<lambda>ob. base ob + ps_refs s ob)(ob := Suc (base ob + ps_refs s ob)) = (\<lambda>x. (base(ob := Suc (base ob))) x + ps_refs s x)" by auto
  have "ps_inv s1 L B (base(ob := Suc (base ob)))"
    by (rule ps_inv_ob [OF inv o(4) [unfolded e]]) (simp_all add: o(3) ObReferenceObject_def)
  then show thesis using True o by (intro good) simp_all
next
  case False
  have "\<not> NT_SUCCESS st" "s1 = s"
    using False c by (auto simp: ObReferenceObjectByHandle_def NT_SUCCESS_def Let_def split: option.splits if_splits)
  then show thesis by (rule bad)
qed

lemma ps_dereference:
  assumes inv: "ps_inv s L B base" and held: "0 < base ob" and dir: "directories s ob = []"
  obtains s' L' B' where "ObDereferenceObject ob s = Some s'" "ps_inv s' L' B' (base(ob := base ob - 1))"
    "ob_state.more s' = ob_state.more s" "directories s' = directories s"
proof -
  have oi: "ob_inv s L B (\<lambda>ob. base ob + ps_refs s ob)" using inv by (simp add: ps_inv_def)
  have e: "(\<lambda>ob. base ob + ps_refs s ob)(ob := base ob + ps_refs s ob - 1) = (\<lambda>x. (base(ob := base ob - 1)) x + ps_refs s x)"
    using held by auto
  show thesis
  proof (rule ob_dereference [OF oi, of ob, unfolded e])
    fix s' L' B'
    assume d: "ObDereferenceObject ob s = Some s'" "ob_inv s' L' B' (\<lambda>x. (base(ob := base ob - 1)) x + ps_refs s x)"
      "B' = (if nrefs s (\<lambda>ob. base ob + ps_refs s ob) ob = 1 then B - {ObHeaderFromObject ob} else B)" "ob_state.more s' = ob_state.more s"
      "directories s' = directories s" "g_type_list s' = g_type_list s" "files s' = files s"
      "\<And>t. DeleteProcedure (types s' t) = DeleteProcedure (types s t)"
      "\<And>k. oh_Type (headers s' k) = oh_Type (headers s k)" "\<And>x. x \<notin> ob_own s B \<Longrightarrow> L' x = L x"
    have "B' \<subseteq> B" unfolding d(3) by auto
    from ps_inv_ob [OF inv d(2,4) this d(10,5,6,7,9,8)] d show thesis by (intro that)
  qed (use held dir in simp_all)
qed

lemma ps_drop_all:
  assumes "ps_inv s L B (\<lambda>ob. base ob + count_list obs ob)" and "\<And>ob. ob \<in> set obs \<Longrightarrow> directories s ob = []"
  shows "\<exists>s' L' B'. drop_all obs s = Some s' \<and> ps_inv s' L' B' base \<and> ob_state.more s' = ob_state.more s \<and> directories s' = directories s"
  using assms
proof (induction obs arbitrary: s L B)
  case (Cons ob obs)
  let ?base = "\<lambda>x. base x + count_list (ob # obs) x"
  have "0 < ?base ob" "directories s ob = []" using Cons.prems(2) by simp_all
  from ps_dereference [OF Cons.prems(1) this] obtain s1 L1 B1 where d: "ObDereferenceObject ob s = Some s1"
    "ps_inv s1 L1 B1 (?base(ob := ?base ob - 1))" "ob_state.more s1 = ob_state.more s" "directories s1 = directories s" by blast
  have "?base(ob := ?base ob - 1) = (\<lambda>x. base x + count_list obs x)" by (auto simp: fun_eq_iff)
  with d(2) have i: "ps_inv s1 L1 B1 (\<lambda>x. base x + count_list obs x)" by metis
  have "directories s1 x = []" if "x \<in> set obs" for x using Cons.prems(2) [of x] that d(4) by simp
  from Cons.IH [OF i this] d show ?case by auto
qed auto

lemma ps_handle:
  assumes inv: "ps_inv s L B base" and held: "0 < base ob" and b: "base ob + ps_refs s ob < 2 ^ 30"
    and c: "ObCreateHandle ob acc s = (st, h, s')"
  shows "ps_inv s' L B base" "ob_state.more s' = ob_state.more s" "directories s' = directories s"
    "st = STATUS_SUCCESS \<or> \<not> NT_SUCCESS st"
proof -
  have oi: "ob_inv s L B (\<lambda>ob. base ob + ps_refs s ob)" using inv by (simp add: ps_inv_def)
  have hB: "ObHeaderFromObject ob \<in> B" using ps_refs_live [OF inv, of ob] held by simp
  have nz: "ob \<noteq> 0" using ob_live_nonzero [OF oi hB] by simp
  note ch = ob_create_handle [OF oi hB b c]
  have s: "ob_state.more s' = ob_state.more s" "directories s' = directories s" "g_type_list s' = g_type_list s" "files s' = files s"
    "\<And>k. oh_Type (headers s' k) = oh_Type (headers s k)" "\<And>t. DeleteProcedure (types s' t) = DeleteProcedure (types s t)"
    using c nz by (auto simp: ObCreateHandle_def ObReferenceObject_def Let_def split: option.splits)
  show "ps_inv s' L B base" by (rule ps_inv_ob [OF inv ch(1) s(1) _ _ s(2,3,4,5,6)]) simp_all
  show "ob_state.more s' = ob_state.more s" "directories s' = directories s" by (rule s)+
  show "st = STATUS_SUCCESS \<or> \<not> NT_SUCCESS st" using ch(2) by (auto simp: NT_SUCCESS_def)
qed

lemma ps_create:
  assumes inv: "ps_inv s L B base" and ty: "ty \<in> ps_types s" and n: "unat n \<le> 2 ^ 60"
    and c: "ObCreateObject ty n s = Some (st, ob, s1)"
  obtains (success) L' B' where "st = STATUS_SUCCESS" "ps_inv s1 L' B' (base(ob := 1))" "base ob = 0" "ps_refs s ob = 0"
      "directories s1 ob = []" "ob_state.more s1 = ob_state.more s" "directories s1 = directories s"
      "WaitListHead (disp (ke s1) ob) = []" "oh_Type (headers s1 (ObHeaderFromObject ob)) = ty"
  | (failure) "\<not> NT_SUCCESS st" "ps_inv s1 L B base" "ob_state.more s1 = ob_state.more s"
proof -
  have oi: "ob_inv s L B (\<lambda>ob. base ob + ps_refs s ob)" and ob: "objects_ok s B" and th: "threads_ok s L B" and wo: "waits_ok s" and kg: "ke_good (ke s)"
    using inv by (simp_all add: ps_inv_def)
  have ty': "ty \<in> set (g_type_list s)" using ty ob by (auto simp: objects_ok_def)
  from oi ty' n c show thesis
  proof (cases rule: ob_create)
    case success
    let ?h = "ObHeaderFromObject ob"
    note m = ps_more [OF success(8)]
    have r0: "base ob = 0" "ps_refs s ob = 0" using success(4) by simp_all
    have e: "(\<lambda>ob. base ob + ps_refs s ob)(ob := 1) = (\<lambda>x. (base(ob := 1)) x + ps_refs s1 x)" using r0 by (auto simp: m)
    have fd: "file_data s1 k = file_data s k" if "k \<noteq> ?h" for k
    proof -
      have "ObObjectFromHeader k \<noteq> ob" using that by (metis header_object(1))
      then show ?thesis using that success(10,12,16) by (simp add: file_data_def)
    qed
    have fdB: "file_data s1 k = file_data s k" if "k \<in> B" for k using that success(2) by (intro fd) auto
    have "file_data s1 ?h = 0" using success(12) by (simp add: file_data_def zero_file_def)
    then have own: "ob_own s1 (insert ?h B) \<subseteq> insert 0 (insert ?h (ob_own s B))"
      using fdB by (auto simp: ob_own_def success(13))
    have t1: "threads_ok s1 (L(?h \<mapsto> 48 + unat n)) (insert ?h B)"
      unfolding threads_ok_def m
    proof (intro conjI ballI impI)
      fix t assume t: "t \<in> set (ThreadListHead (ke s))" "t \<noteq> g_idle_thread (ke s)"
      then have d: "t \<in> dom L" "t \<notin> ob_own s B" using th by (simp_all add: threads_ok_def)
      have "t \<noteq> 0" using pool.live_nonzero d(1) oi by (auto simp: ob_inv_def)
      moreover have "t \<noteq> ?h" using d(1) success(3) by auto
      ultimately show "t \<in> dom (L(?h \<mapsto> 48 + unat n))" "t \<notin> ob_own s1 (insert ?h B)" using d own by auto
    qed (use th in \<open>simp add: threads_ok_def\<close>)
    have o1: "objects_ok s1 (insert ?h B)"
      unfolding objects_ok_def m
    proof (intro conjI ballI impI allI)
      show "ps_types s \<subseteq> set (g_type_list s1)" using ob success(13) by (simp add: objects_ok_def)
      show "directories s1 (ObObjectFromHeader k) = []" if "k \<in> insert ?h B" "oh_Type (headers s1 k) \<in> ps_types s" for k
        using that ob success(6,7,10) by (cases "k = ?h") (simp_all add: objects_ok_def)
      show "directories s1 x = []" if "0 < ps_refs s x" for x using that ob success(7) by (simp add: objects_ok_def)
    qed
    have "ps_inv s1 (L(?h \<mapsto> 48 + unat n)) (insert ?h B) (base(ob := 1))"
      using success(5) [unfolded e] t1 o1 kg wo by (simp add: ps_inv_def m)
    moreover have "WaitListHead (disp (ke s1) ob) = []"
      using waited_refs [OF inv, of _ _ ob] r0 unfolding m by (metis less_numeral_extra(3) list.set_intros(1) neq_Nil_conv surj_pair)
    ultimately show thesis using success r0 by (intro that(1)) (simp_all add: m)
  next
    case failure
    have "ps_inv s1 L B base"
      by (rule ps_inv_ob [OF inv failure(2,3)]) (simp_all add: failure(5-9))
    then show thesis using failure by (intro that(2)) (simp_all add: NT_SUCCESS_def)
  qed
qed

section \<open>The services keep the invariant\<close>

definition ps_rel :: "'z ps_state_scheme \<Rightarrow> (u64 \<Rightarrow> nat) \<Rightarrow> bool" where
  "ps_rel s base \<longleftrightarrow> (\<exists>L B. ps_inv s L B base)"

text \<open>Room for the references of one service: no reference count comes near the sign bit.\<close>

definition few :: "'z ps_state_scheme \<Rightarrow> (u64 \<Rightarrow> nat) \<Rightarrow> bool" where
  "few s base \<longleftrightarrow> (\<forall>ob. base ob + ps_refs s ob + 100 < 2 ^ 30)"

lemma fewD: "few s base \<Longrightarrow> base ob + ps_refs s ob + 100 < 2 ^ 30"
  by (simp add: few_def)

lemma ps_relI: "ps_inv s L B base \<Longrightarrow> ps_rel s base"
  by (auto simp: ps_rel_def)

lemma ps_rel_user [simp]: "ps_rel (put_user f s) base = ps_rel s base"
  by (simp add: ps_rel_def)

lemma ps_return:
  assumes "ps_inv s L B (base(ob := Suc (base ob)))" "directories s ob = []"
  obtains s' L' B' where "ObDereferenceObject ob s = Some s'" "ps_inv s' L' B' base" "ob_state.more s' = ob_state.more s"
proof -
  have "(base(ob := Suc (base ob)))(ob := (base(ob := Suc (base ob))) ob - 1) = base" by auto
  then show thesis using ps_dereference [OF assms(1) _ assms(2)] that by (metis fun_upd_same zero_less_Suc)
qed

lemma put_previous_user: "\<exists>f. put_previous p v s = Some (put_user f s)"
proof (cases "p = 0")
  case True
  then show ?thesis by (intro exI [of _ "\<lambda>m. m"]) (simp add: put_previous_def put_user_id)
next
  case False
  obtain ok where "MmProbeForWrite (mm (pool s)) p 4 = Some ok" using MmProbeForWrite_total by blast
  then show ?thesis using False by (intro exI [of _ "if ok then st32 p v else (\<lambda>m. m)"]) (simp add: put_previous_def put_user_id)
qed

lemma ps_type_nonzero:
  assumes inv: "ps_inv s L B base" and ty: "ty \<in> ps_types s"
  shows "ty \<noteq> 0"
proof -
  have "ty \<in> set (g_type_list s)" using inv ty by (auto simp: ps_inv_def objects_ok_def)
  then have "ty \<in> dom L" using inv by (auto simp: ps_inv_def ob_inv_def blocks_ok_def)
  then show ?thesis using pool.live_nonzero inv by (auto simp: ps_inv_def ob_inv_def)
qed

text \<open>Looking up a handle to an object of a given type: a failure changes nothing, and a success leaves a reference to give back.\<close>

lemma ps_borrow:
  assumes inv: "ps_inv s L B base" and few: "few s base" and ty: "ty \<in> ps_types s"
    and c: "ObReferenceObjectByHandle h 0 ty s = (st, ob, s1)"
  obtains (bad) "\<not> NT_SUCCESS st" "s1 = s"
  | (good) "st = STATUS_SUCCESS" "s1 = ObReferenceObject ob s" "ps_inv s1 L B (base(ob := Suc (base ob)))" "directories s1 ob = []"
proof -
  have "base (handle_object s h) + ps_refs s (handle_object s h) < 2 ^ 30" using fewD [OF few, of "handle_object s h"] by simp
  from inv this c show thesis
  proof (cases rule: ps_reference)
    case good
    have "ObHeaderFromObject ob \<in> B" using ps_refs_live [OF good(5), of ob] by simp
    then have "directories s ob = []"
      using inv good(6) ty ps_type_nonzero [OF inv ty] by (auto simp: ps_inv_def objects_ok_def)
    then show thesis using good by (intro that(2)) (simp_all add: ObReferenceObject_def)
  qed (rule that(1))
qed

lemma ke_updates [simp]:
  "directories (s\<lparr>ke := k\<rparr>) = directories s" "handle_object (s\<lparr>ke := k\<rparr>) = handle_object s" "pool (s\<lparr>ke := k\<rparr>) = pool s"
  by (simp_all add: handle_object_def fun_eq_iff split: option.split)

lemma set_event_inv:
  assumes inv: "ps_inv s L B base" and few: "few s base"
  shows "\<exists>st s'. NtSetEvent a s = Some (st, s') \<and> ps_rel s' base"
proof -
  obtain st ob s1 where c: "ObReferenceObjectByHandle (a 0) 0 (g_event_type s) s = (st, ob, s1)"
    by (cases "ObReferenceObjectByHandle (a 0) 0 (g_event_type s) s") auto
  have ty: "g_event_type s \<in> ps_types s" by (simp add: ps_types_def)
  from inv few ty c show ?thesis
  proof (cases rule: ps_borrow)
    case bad
    then show ?thesis using c inv by (auto simp: NtSetEvent_def intro: ps_relI)
  next
    case good
    obtain p k where k: "KeSetEvent ob (ke s1) = (p, k)" by (cases "KeSetEvent ob (ke s1)") auto
    have kg: "ke_good (ke s1)" using good(3) by (simp add: ps_inv_def)
    have "ke_good k" "tkeeps (ke s1) k" "frames k = frames (ke s1)"
      using signal_ops_good(1) [OF kg, of ob] tkeeps_signals(1,2) [where k = "ke s1" and h = ob] by (simp_all only: k snd_conv)
    note i2 = ps_inv_ke [OF good(3) this]
    obtain s3 L3 B3 where d: "ObDereferenceObject ob (s1\<lparr>ke := k\<rparr>) = Some s3" "ps_inv s3 L3 B3 base"
      by (rule ps_return [OF i2]) (use good(4) in auto)
    obtain f where f: "put_previous (a 1) p s3 = Some (put_user f s3)" using put_previous_user by blast
    have "NtSetEvent a s = Some (STATUS_SUCCESS, put_user f s3)" using c good(1) k d(1) f by (simp add: NtSetEvent_def NT_SUCCESS_def)
    then show ?thesis using d(2) by (auto intro: ps_relI)
  qed
qed

lemma reset_event_inv:
  assumes inv: "ps_inv s L B base" and few: "few s base"
  shows "\<exists>st s'. NtResetEvent a s = Some (st, s') \<and> ps_rel s' base"
proof -
  obtain st ob s1 where c: "ObReferenceObjectByHandle (a 0) 0 (g_event_type s) s = (st, ob, s1)"
    by (cases "ObReferenceObjectByHandle (a 0) 0 (g_event_type s) s") auto
  have ty: "g_event_type s \<in> ps_types s" by (simp add: ps_types_def)
  from inv few ty c show ?thesis
  proof (cases rule: ps_borrow)
    case bad
    then show ?thesis using c inv by (auto simp: NtResetEvent_def intro: ps_relI)
  next
    case good
    let ?k = "KeResetEvent ob (ke s1)" and ?p = "SignalState (disp (ke s1) ob)"
    have kg: "ke_good (ke s1)" using good(3) by (simp add: ps_inv_def)
    have i2: "ps_inv (s1\<lparr>ke := ?k\<rparr>) L B (base(ob := Suc (base ob)))"
      using ps_inv_ke [OF good(3), of ?k] reset_good [OF kg] by simp
    obtain f where f: "put_previous (a 1) ?p (s1\<lparr>ke := ?k\<rparr>) = Some (put_user f (s1\<lparr>ke := ?k\<rparr>))" using put_previous_user by blast
    obtain s3 L3 B3 where
      d: "ObDereferenceObject ob (put_user f (s1\<lparr>ke := ?k\<rparr>)) = Some s3" "ps_inv s3 L3 B3 base"
        by (rule ps_return [where s = "put_user f (s1\<lparr>ke := ?k\<rparr>)" and base = base and ob = ob and L = L and B = B]) (use i2 good(4) in auto)
    have "NtResetEvent a s = Some (STATUS_SUCCESS, s3)" using c good(1) d(1) f by (simp add: NtResetEvent_def NT_SUCCESS_def)
    then show ?thesis using d(2) by (auto intro: ps_relI)
  qed
qed

lemma release_semaphore_inv:
  assumes inv: "ps_inv s L B base" and few: "few s base"
  shows "\<exists>st s'. NtReleaseSemaphore a s = Some (st, s') \<and> ps_rel s' base"
proof (cases "sint (ucast (a 1) :: u32) \<le> 0")
  case True
  then show ?thesis using inv by (auto simp: NtReleaseSemaphore_def Let_def intro: ps_relI)
next
  case pos: False
  obtain st ob s1 where c: "ObReferenceObjectByHandle (a 0) 0 (g_semaphore_type s) s = (st, ob, s1)"
    by (cases "ObReferenceObjectByHandle (a 0) 0 (g_semaphore_type s) s") auto
  have ty: "g_semaphore_type s \<in> ps_types s" by (simp add: ps_types_def)
  from inv few ty c show ?thesis
  proof (cases rule: ps_borrow)
    case bad
    then show ?thesis using pos c inv by (auto simp: NtReleaseSemaphore_def Let_def intro: ps_relI)
  next
    case good
    let ?n = "ucast (a 1) :: u32" and ?d = "disp (ke s1) ob"
    show ?thesis
    proof (cases "sint (Limit ?d - ?n) < sint (SignalState ?d)")
      case True
      from ps_return [OF good(3,4)] obtain s2 L2 B2 where "ObDereferenceObject ob s1 = Some s2" "ps_inv s2 L2 B2 base" by blast
      then show ?thesis using pos c good(1) True by (auto simp: NtReleaseSemaphore_def Let_def NT_SUCCESS_def intro: ps_relI)
    next
      case False
      obtain p k where k: "KeReleaseSemaphore ob ?n (ke s1) = (p, k)" by (cases "KeReleaseSemaphore ob ?n (ke s1)") auto
      have kg: "ke_good (ke s1)" using good(3) by (simp add: ps_inv_def)
      have "ke_good k" "tkeeps (ke s1) k" "frames k = frames (ke s1)"
        using signal_ops_good(3) [OF kg, of ob ?n] tkeeps_signals(3,4) [where k = "ke s1" and h = ob and n = ?n] by (simp_all only: k snd_conv)
      note i2 = ps_inv_ke [OF good(3) this]
      obtain f where f: "put_previous (a 2) p (s1\<lparr>ke := k\<rparr>) = Some (put_user f (s1\<lparr>ke := k\<rparr>))" using put_previous_user by blast
      obtain s3 L3 B3 where
        d: "ObDereferenceObject ob (put_user f (s1\<lparr>ke := k\<rparr>)) = Some s3" "ps_inv s3 L3 B3 base"
        by (rule ps_return [where s = "put_user f (s1\<lparr>ke := k\<rparr>)" and base = base and ob = ob and L = L and B = B]) (use i2 good(4) in auto)
      have "NtReleaseSemaphore a s = Some (STATUS_SUCCESS, s3)"
        using pos c good(1) False k d(1) f by (simp add: NtReleaseSemaphore_def Let_def NT_SUCCESS_def)
      then show ?thesis using d(2) by (auto intro: ps_relI)
    qed
  qed
qed

text \<open>The end of every creating service.\<close>

lemma ps_publish:
  assumes inv: "ps_inv s L B (base(ob := 1))" and b: "base ob = 0" and few: "few s base" and dir: "directories s ob = []"
    and w: "WaitListHead (disp (ke s) ob) = []" and f: "\<And>d. WaitListHead (f d) = []"
    and c: "ObCreateHandle ob acc (s\<lparr>ke := upd_disp ob f (ke s)\<rparr>) = (st, h, s3)"
  obtains s4 where "ObDereferenceObject ob s3 = Some s4" "ps_rel s4 base"
proof -
  let ?s = "s\<lparr>ke := upd_disp ob f (ke s)\<rparr>"
  have "ke_good (ke s)" using inv by (simp add: ps_inv_def)
  from initialize_good [OF this w f] have i2: "ps_inv ?s L B (base(ob := 1))" by (intro ps_inv_ke [OF inv]) simp_all
  have "ps_refs ?s ob = ps_refs s ob" by (simp add: ps_refs_def thread_refs_def)
  then have "(base(ob := 1)) ob + ps_refs ?s ob < 2 ^ 30" using fewD [OF few, of ob] by simp
  note h = ps_handle [OF i2 _ this c]
  have e: "base(ob := 1) = base(ob := Suc (base ob))" using b by simp
  have "ps_inv s3 L B (base(ob := Suc (base ob)))" using h(1) e by (metis fun_upd_same zero_less_one)
  from ps_return [OF this] h(3) dir show thesis using that by (auto intro: ps_relI)
qed

lemma ps_types_intros [simp]: "g_event_type s \<in> ps_types s" "g_thread_type s \<in> ps_types s" "g_semaphore_type s \<in> ps_types s"
  by (simp_all add: ps_types_def)

lemma few_more:
  assumes "ob_state.more s' = ob_state.more (s :: 'z ps_state_scheme)"
  shows "few s' base = few s base"
  by (simp add: few_def ps_more [OF assms])

text \<open>Creating a dispatcher object and a handle to it.\<close>

lemma ps_create_publish:
  assumes inv: "ps_inv s L B base" and few: "few s base" and ty: "ty \<in> ps_types s" and n: "unat n \<le> 2 ^ 60"
    and c: "ObCreateObject ty n s = Some (st, ob, s1)" and f: "\<And>d. WaitListHead (f d) = []"
  shows "\<not> NT_SUCCESS st \<and> ps_rel s1 base \<or> NT_SUCCESS st \<and>
    (\<exists>st' h s3 s4. ObCreateHandle ob GENERIC_ALL (s1\<lparr>ke := upd_disp ob f (ke s1)\<rparr>) = (st', h, s3) \<and>
       ObDereferenceObject ob s3 = Some s4 \<and> ps_rel s4 base)"
  using inv ty n c
proof (cases rule: ps_create)
  case (success L' B')
  obtain st' h s3 where c3: "ObCreateHandle ob GENERIC_ALL (s1\<lparr>ke := upd_disp ob f (ke s1)\<rparr>) = (st', h, s3)"
    by (cases "ObCreateHandle ob GENERIC_ALL (s1\<lparr>ke := upd_disp ob f (ke s1)\<rparr>)") auto
  have "few s1 base" using few few_more [OF success(6)] by simp
  from ps_publish [OF success(2,3) this success(5,8) f c3] show ?thesis using success(1) c3 by (metis NT_SUCCESS_simps(1))
qed (auto intro: ps_relI)

lemma create_event_inv:
  assumes inv: "ps_inv s L B base" and few: "few s base" and c: "NtCreateEvent a s = Some (st, s')"
  shows "ps_rel s' base"
proof -
  obtain ok where ok: "MmProbeForWrite (mm (pool s)) (a 0) 8 = Some ok" using MmProbeForWrite_total by blast
  show ?thesis
  proof (cases ok)
    case True
    with c ok obtain st1 ob s1 where c1: "ObCreateObject (g_event_type s) SIZEOF_KEVENT s = Some (st1, ob, s1)"
      by (auto simp: NtCreateEvent_def split: bind_splits)
    let ?f = "\<lambda>d. d\<lparr>d_Type := (if a 3 = 0 then EventNotificationObject else EventSynchronizationObject),
       SignalState := (if (ucast (a 4) :: u8) \<noteq> 0 then 1 else 0), WaitListHead := []\<rparr>"
    have "unat SIZEOF_KEVENT \<le> 2 ^ 60" by simp
    from ps_create_publish [OF inv few ps_types_intros(1) this c1, of ?f] c ok True c1 show ?thesis
      by (auto simp: NtCreateEvent_def KeInitializeEvent_def split: if_splits)
  qed (use c ok inv in \<open>auto simp: NtCreateEvent_def intro: ps_relI\<close>)
qed

lemma create_notification_inv:
  assumes inv: "ps_inv s L B base" and few: "few s base" and c: "PsCreateNotificationEvent s = Some (st, r, s')"
  shows "ps_rel s' base"
proof -
  from c obtain st1 ob s1 where c1: "ObCreateObject (g_event_type s) SIZEOF_KEVENT s = Some (st1, ob, s1)"
    by (auto simp: PsCreateNotificationEvent_def split: bind_splits)
  let ?f = "\<lambda>d. d\<lparr>d_Type := EventNotificationObject, SignalState := 0, WaitListHead := []\<rparr>"
  have "unat SIZEOF_KEVENT \<le> 2 ^ 60" by simp
  from ps_create_publish [OF inv few ps_types_intros(1) this c1, of ?f] c c1 show ?thesis
    by (auto simp: PsCreateNotificationEvent_def KeInitializeEvent_def split: if_splits)
qed

lemma create_semaphore_inv:
  assumes inv: "ps_inv s L B base" and few: "few s base" and c: "NtCreateSemaphore a s = Some (st, s')"
  shows "ps_rel s' base"
proof -
  obtain ok where ok: "MmProbeForWrite (mm (pool s)) (a 0) 8 = Some ok" using MmProbeForWrite_total by blast
  let ?i = "ucast (a 3) :: u32" and ?l = "ucast (a 4) :: u32"
  show ?thesis
  proof (cases "ok \<and> \<not> (sint ?l \<le> 0 \<or> sint ?i < 0 \<or> sint ?l < sint ?i)")
    case True
    with c ok obtain st1 ob s1 where c1: "ObCreateObject (g_semaphore_type s) SIZEOF_KSEMAPHORE s = Some (st1, ob, s1)"
      by (auto simp: NtCreateSemaphore_def Let_def split: bind_splits)
    let ?f = "\<lambda>d. d\<lparr>d_Type := SemaphoreObject, SignalState := ?i, Limit := ?l, WaitListHead := []\<rparr>"
    have "unat SIZEOF_KSEMAPHORE \<le> 2 ^ 60" by simp
    from ps_create_publish [OF inv few ps_types_intros(3) this c1, of ?f] c ok True c1 show ?thesis
      by (auto simp: NtCreateSemaphore_def KeInitializeSemaphore_def Let_def split: if_splits)
  qed (use c ok inv in \<open>auto simp: NtCreateSemaphore_def Let_def intro: ps_relI split: if_splits\<close>)
qed

section \<open>Waiting\<close>

lemma waitable_inv:
  assumes inv: "ps_inv s L B base" and b: "base (handle_object s h) + ps_refs s (handle_object s h) < 2 ^ 30"
  shows "\<exists>st ob s1. reference_waitable h s = Some (st, ob, s1) \<and> (\<not> NT_SUCCESS st \<and> s1 = s \<or>
    st = STATUS_SUCCESS \<and> s1 = ObReferenceObject ob s \<and> ps_inv s1 L B (base(ob := Suc (base ob))) \<and> directories s ob = [])"
proof -
  obtain st ob s1 where c: "ObReferenceObjectByHandle h 0 0 s = (st, ob, s1)" by (cases "ObReferenceObjectByHandle h 0 0 s") auto
  from inv b c show ?thesis
  proof (cases rule: ps_reference)
    case bad
    then show ?thesis using c by (auto simp: reference_waitable_def NT_SUCCESS_def)
  next
    case good
    have oi: "ob_inv s L B (\<lambda>ob. base ob + ps_refs s ob)" using inv by (simp add: ps_inv_def)
    have hB: "ObHeaderFromObject ob \<in> B" using ps_refs_live [OF good(5), of ob] by simp
    have m: "ob_state.more s1 = ob_state.more s" "headers s1 (ObHeaderFromObject ob) = (headers s (ObHeaderFromObject ob))\<lparr>
        PointerCount := PointerCount (headers s (ObHeaderFromObject ob)) + 1\<rparr>"
      by (simp_all add: good(4) ObReferenceObject_def)
    have rw: "reference_waitable h s = (if oh_Type (headers s (ObHeaderFromObject ob)) \<in> ps_types s then Some (STATUS_SUCCESS, ob, s1)
        else do { s2 \<leftarrow> ObDereferenceObject ob s1; Some (STATUS_OBJECT_TYPE_MISMATCH, 0, s2) })"
      unfolding reference_waitable_def c by (simp add: good(1) ps_more [OF m(1)] m(2) ps_types_def)
    show ?thesis
    proof (cases "oh_Type (headers s (ObHeaderFromObject ob)) \<in> ps_types s")
      case True
      then have "directories s ob = []" using inv hB by (auto simp: ps_inv_def objects_ok_def)
      then show ?thesis unfolding rw using good(4,5) True by simp
    next
      case False
      have "ObDereferenceObject ob s1 = Some s" unfolding good(4) by (rule reference_dereference [OF oi hB])
      then show ?thesis unfolding rw using False by (simp add: NT_SUCCESS_def)
    qed
  qed
qed

lemma count_list_bound: "count_list xs x \<le> length xs"
  by (rule count_le_length)

lemma handles_inv:
  assumes "ps_inv s L B (\<lambda>ob. base ob + count_list objs ob)" "\<And>ob. ob \<in> set objs \<Longrightarrow> directories s ob = []" "few s base"
    "length objs + length hs \<le> 64"
  shows "\<exists>st objs' s1. reference_handles hs objs s = Some (st, objs', s1) \<and> ps_inv s1 L B (\<lambda>ob. base ob + count_list objs' ob) \<and>
    (\<forall>ob \<in> set objs'. directories s1 ob = []) \<and> ob_state.more s1 = ob_state.more s \<and>
    (NT_SUCCESS st \<longrightarrow> length objs' = length objs + length hs)"
  using assms
proof (induction hs arbitrary: objs s)
  case (Cons h hs)
  let ?x = "handle_object s h"
  have "base ?x + count_list objs ?x + ps_refs s ?x < 2 ^ 30"
    using fewD [OF Cons.prems(3), of ?x] count_list_bound [of objs ?x] Cons.prems(4) by simp
  from waitable_inv [OF Cons.prems(1), of h] this obtain st ob s1 where w: "reference_waitable h s = Some (st, ob, s1)"
    "\<not> NT_SUCCESS st \<and> s1 = s \<or> st = STATUS_SUCCESS \<and> s1 = ObReferenceObject ob s \<and>
     ps_inv s1 L B ((\<lambda>ob. base ob + count_list objs ob)(ob := Suc (base ob + count_list objs ob))) \<and> directories s ob = []" by auto
  show ?case
  proof (cases "NT_SUCCESS st")
    case False
    then show ?thesis using w Cons.prems(1,2) by auto
  next
    case True
    have s1: "ob_state.more s1 = ob_state.more s" "directories s1 = directories s" using True w(2) by (auto simp: ObReferenceObject_def)
    have "(\<lambda>ob. base ob + count_list objs ob)(ob := Suc (base ob + count_list objs ob)) = (\<lambda>x. base x + count_list (objs @ [ob]) x)"
      by (auto simp: fun_eq_iff)
    then have i: "ps_inv s1 L B (\<lambda>x. base x + count_list (objs @ [ob]) x)" using True w(2) by metis
    have d: "directories s1 x = []" if "x \<in> set (objs @ [ob])" for x using that True w(2) Cons.prems(2) s1(2) by auto
    have fw: "few s1 base" using Cons.prems(3) few_more [OF s1(1)] by simp
    have ln: "length (objs @ [ob]) + length hs \<le> 64" using Cons.prems(4) by simp
    from Cons.IH [OF i d fw ln] w(1) True s1 show ?thesis by auto
  qed
qed auto

lemma refs_set:
  assumes "t \<in> set (ThreadListHead (ke s))"
  shows "ps_refs (s\<lparr>wait_objects := (wait_objects s)(t := obs)\<rparr>) ob + count_list (wait_objects s t) ob = ps_refs s ob + count_list obs ob"
proof -
  let ?s = "s\<lparr>wait_objects := (wait_objects s)(t := obs)\<rparr>" and ?T = "set (ThreadListHead (ke s))"
  have "thread_refs ?s u ob = thread_refs s u ob" if "u \<in> ?T - {t}" for u using that by (simp add: thread_refs_def)
  then have "(\<Sum>u \<in> ?T - {t}. thread_refs ?s u ob) = (\<Sum>u \<in> ?T - {t}. thread_refs s u ob)" by (rule sum.cong [OF refl])
  moreover have "sum g ?T = g t + sum g (?T - {t})" for g :: "u64 \<Rightarrow> nat" by (rule sum.remove) (use assms in simp_all)
  then have "ps_refs ?s ob = thread_refs ?s t ob + (\<Sum>u \<in> ?T - {t}. thread_refs ?s u ob)"
    "ps_refs s ob = thread_refs s t ob + (\<Sum>u \<in> ?T - {t}. thread_refs s u ob)" by (simp_all only: ps_refs_def) simp_all
  moreover have "thread_refs ?s t ob + count_list (wait_objects s t) ob = thread_refs s t ob + count_list obs ob" by (simp add: thread_refs_def)
  ultimately show ?thesis by linarith
qed

text \<open>The end of a wait service. \<open>H\<close> are all references held, those to \<open>obs\<close> by the service among them.\<close>

lemma wait_end_inv:
  fixes s :: "'z ps_state_scheme"
  assumes ob: "ob_inv s L B H" and ok: "threads_ok s L B" "objects_ok s B" "waits_ok s"
    and t: "t \<in> set (ThreadListHead (ke s))"
    and H: "\<And>x. H x + count_list (wait_objects s t) x = base x + ps_refs s x + count_list obs x"
    and k: "ke_good k" "tkeeps (ke s) k" "frames k = (frames (ke s))(t := (if r = Blocked then Some f else None))" and f: "wf_objects f = obs"
    and dir: "\<And>x. x \<in> set obs \<Longrightarrow> directories s x = []"
  shows "\<exists>res s'. wait_end t obs (r, k) s = Some (res, s') \<and> ps_rel s' base"
proof -
  define W where "W xs = s\<lparr>ke := k, wait_objects := (wait_objects s)(t := xs)\<rparr>" for xs
  have refs: "ps_refs (W xs) x + count_list (wait_objects s t) x = ps_refs s x + count_list xs x" for xs x
    using refs_set [OF t, of xs x] k(2) by (simp add: W_def ps_refs_def thread_refs_def tkeeps_def)
  have own: "ob_own (W xs) B = ob_own s B" for xs by (rule ob_own_cong) (simp_all add: W_def)
  have obW: "ob_inv (W xs) L B held = ob_inv s L B held" for xs held by (rule ob_inv_cong) (simp_all add: W_def)
  have tW: "threads_ok (W xs) L B" for xs using ok(1) k(2) by (simp add: threads_ok_def own) (simp add: W_def tkeeps_def)
  have dW: "directories (W xs) = directories s" for xs by (simp add: W_def)
  have pos: "0 < ps_refs s x \<or> x \<in> set xs" if "0 < ps_refs (W xs) x" for x xs
    using refs [of xs x] that count_list_0_iff [of xs x] by (cases "x \<in> set xs") auto
  have oW: "objects_ok (W xs) B" if "set xs \<subseteq> set obs" for xs
  proof -
    have "directories s x = []" if "0 < ps_refs (W xs) x" for x
      using pos [OF that] dir \<open>set xs \<subseteq> set obs\<close> ok(2) by (auto simp: objects_ok_def)
    then show ?thesis using ok(2) by (simp add: objects_ok_def dW) (simp add: W_def ps_types_def)
  qed
  have wW: "waits_ok (W (if r = Blocked then obs else []))" using ok(3) k(2,3) f by (simp add: waits_ok_def W_def tkeeps_def)
  show ?thesis
  proof (cases r)
    case Blocked
    have "H = (\<lambda>x. base x + ps_refs (W obs) x)"
    proof
      fix x show "H x = base x + ps_refs (W obs) x" using H [of x] refs [of obs x] by simp
    qed
    then have "ps_inv (W obs) L B base" using ob k(1) tW oW wW Blocked by (simp add: ps_inv_def obW) (simp add: W_def)
    then show ?thesis using Blocked by (auto simp: wait_end_def W_def intro: ps_relI)
  next
    case (Returned st)
    have "H = (\<lambda>x. base x + count_list (rev obs) x + ps_refs (W []) x)"
    proof
      fix x show "H x = base x + count_list (rev obs) x + ps_refs (W []) x" using H [of x] refs [of "[]" x] by simp
    qed
    then have "ps_inv (W []) L B (\<lambda>x. base x + count_list (rev obs) x)"
      using ob k(1) tW oW [of "[]"] wW Returned by (simp add: ps_inv_def obW) (simp add: W_def)
    from ps_drop_all [OF this] dir obtain s' L' B' where "drop_all (rev obs) (W []) = Some s'" "ps_inv s' L' B' base" by (auto simp: dW)
    then show ?thesis using Returned by (auto simp: wait_end_def W_def intro: ps_relI)
  qed
qed

lemma timeout_total: "\<exists>n. timeout_to_ticks v s = Some n"
  using MmProbeForRead_total [of "mm (pool s)" v 8] by (auto simp: timeout_to_ticks_def Let_def)

text \<open>A new wait of the running thread.\<close>

lemma new_wait_inv:
  fixes s :: "'z ps_state_scheme"
  assumes inv: "ps_inv s L B (\<lambda>ob. base ob + count_list obs ob)" and dir: "\<And>x. x \<in> set obs \<Longrightarrow> directories s x = []"
    and fr: "frames (ke s) (g_current_thread (ke s)) = None" and idle: "g_current_thread (ke s) \<noteq> g_idle_thread (ke s)"
  shows "\<exists>res s'. wait_end (g_current_thread (ke s)) obs (KeWaitForMultipleObjects obs all ticks (ke s)) s = Some (res, s') \<and> ps_rel s' base"
proof -
  obtain r k where c: "KeWaitForMultipleObjects obs all ticks (ke s) = (r, k)" by (cases "KeWaitForMultipleObjects obs all ticks (ke s)") auto
  have g: "ke_good (ke s)" using inv by (simp add: ps_inv_def)
  have t: "g_current_thread (ke s) \<in> set (ThreadListHead (ke s))" using queue_okD(4) ke_goodD(2) [OF g] by blast
  have w0: "wait_objects s (g_current_thread (ke s)) = []" using inv t fr by (simp add: ps_inv_def waits_ok_def)
  from wait_frames [OF c fr] obtain f where f: "tkeeps (ke s) k" "wf_objects f = obs"
    "frames k = (frames (ke s))(g_current_thread (ke s) := (if r = Blocked then Some f else None))" by blast
  have "ke_good k" using wait_good [OF g idle, of obs all ticks] by (simp add: c)
  note we = wait_end_inv [OF _ _ _ _ t _ this f(1,3,2) dir, where base = base]
  show ?thesis unfolding c
    by (rule we [where H = "\<lambda>ob. base ob + count_list obs ob + ps_refs s ob"]) (use inv w0 in \<open>auto simp: ps_inv_def\<close>)
qed

lemma ps_more_reference:
  "ob_state.more (ObReferenceObject ob s) = ob_state.more s" "directories (ObReferenceObject ob s) = directories s"
  by (simp_all add: ObReferenceObject_def)

lemma wait_single_inv:
  fixes s :: "'z ps_state_scheme"
  assumes inv: "ps_inv s L B base" and few: "few s base"
    and fr: "frames (ke s) (g_current_thread (ke s)) = None" and idle: "g_current_thread (ke s) \<noteq> g_idle_thread (ke s)"
  shows "\<exists>r s'. NtWaitForSingleObject a s = Some (r, s') \<and> ps_rel s' base"
proof -
  have "base (handle_object s (a 0)) + ps_refs s (handle_object s (a 0)) < 2 ^ 30" using fewD [OF few, of "handle_object s (a 0)"] by simp
  from waitable_inv [OF inv this] obtain st ob s1 where w: "reference_waitable (a 0) s = Some (st, ob, s1)"
    "\<not> NT_SUCCESS st \<and> s1 = s \<or> st = STATUS_SUCCESS \<and> s1 = ObReferenceObject ob s \<and> ps_inv s1 L B (base(ob := Suc (base ob))) \<and> directories s ob = []"
    by blast
  show ?thesis
  proof (cases "NT_SUCCESS st")
    case False
    then show ?thesis using w inv by (auto simp: NtWaitForSingleObject_def intro: ps_relI)
  next
    case True
    then have s1: "s1 = ObReferenceObject ob s" "ps_inv s1 L B (base(ob := Suc (base ob)))" "directories s ob = []" using w(2) by auto
    have m: "ob_state.more s1 = ob_state.more s" "directories s1 = directories s" by (simp_all add: s1(1) ps_more_reference)
    obtain n where n: "timeout_to_ticks (a 2) s1 = Some n" using timeout_total by blast
    have "base(ob := Suc (base ob)) = (\<lambda>x. base x + count_list [ob] x)" by auto
    then have i: "ps_inv s1 L B (\<lambda>x. base x + count_list [ob] x)" using s1(2) by metis
    have d: "directories s1 x = []" if "x \<in> set [ob]" for x using that s1(3) m(2) by simp
    note nw = new_wait_inv [OF i d, of False n, unfolded ps_more [OF m(1)], OF _ fr idle]
    then show ?thesis using w(1) True n
      by (simp add: NtWaitForSingleObject_def KeWaitForSingleObjectTimeout_def ps_more [OF m(1)])
  qed
qed

lemma wait_multiple_inv:
  fixes s :: "'z ps_state_scheme"
  assumes inv: "ps_inv s L B base" and few: "few s base"
    and fr: "frames (ke s) (g_current_thread (ke s)) = None" and idle: "g_current_thread (ke s) \<noteq> g_idle_thread (ke s)"
  shows "\<exists>r s'. NtWaitForMultipleObjects a s = Some (r, s') \<and> ps_rel s' base"
proof -
  let ?n = "ucast (a 0) :: u32" and ?t = "ucast (a 2) :: u32"
  obtain ok where ok: "MmProbeForRead (mm (pool s)) (a 1) (ucast ?n * 8) = Some ok" using MmProbeForRead_total by blast
  show ?thesis
  proof (cases "\<not> (?n = 0 \<or> of_nat KE_MAXIMUM_WAIT_OBJECTS < ?n \<or> 1 < ?t) \<and> ok")
    case False
    then show ?thesis using inv ok by (auto simp: NtWaitForMultipleObjects_def Let_def intro: ps_relI)
  next
    case True
    define hs where "hs = map (\<lambda>i. read64 (mm (pool s)) (a 1 + 8 * of_nat i)) [0..<unat ?n]"
    have "unat ?n \<le> 64" using True by (simp add: not_less word_le_nat_alt)
    then have "length ([] :: u64 list) + length hs \<le> 64" by (simp add: hs_def)
    from handles_inv [of s L B base "[]" hs, OF _ _ few this] inv obtain st obs s1 where
      h: "reference_handles hs [] s = Some (st, obs, s1)" "ps_inv s1 L B (\<lambda>ob. base ob + count_list obs ob)"
        "\<forall>ob \<in> set obs. directories s1 ob = []" "ob_state.more s1 = ob_state.more s" by auto
    note m = ps_more [OF h(4)]
    have eq: "NtWaitForMultipleObjects a s = do {
        (status, objects, s1) \<leftarrow> reference_handles hs [] s;
        if \<not> NT_SUCCESS status then do { s2 \<leftarrow> drop_all (rev objects) s1; Some (Returned status, s2) }
        else do {
          ticks \<leftarrow> timeout_to_ticks (a 4) s1;
          wait_end (g_current_thread (ke s1)) objects (KeWaitForMultipleObjects objects (?t = 0) ticks (ke s1)) s1
        }
      }"
      using True ok unfolding NtWaitForMultipleObjects_def Let_def hs_def by simp
    show ?thesis
    proof (cases "NT_SUCCESS st")
      case False
      have "ps_inv s1 L B (\<lambda>ob. base ob + count_list (rev obs) ob)" using h(2) by simp
      from ps_drop_all [OF this] h(3) obtain s2 L2 B2 where "drop_all (rev obs) s1 = Some s2" "ps_inv s2 L2 B2 base" by auto
      then show ?thesis unfolding eq using h(1) False by (auto intro: ps_relI)
    next
      case sc: True
      obtain n where n: "timeout_to_ticks (a 4) s1 = Some n" using timeout_total by blast
      have d: "directories s1 x = []" if "x \<in> set obs" for x using that h(3) by simp
      from new_wait_inv [OF h(2) d, of "?t = 0" n, unfolded m, OF _ fr idle] h(1) sc n show ?thesis
        unfolding eq by (auto simp: m)
    qed
  qed
qed

lemma resume_inv:
  fixes s :: "'z ps_state_scheme"
  assumes inv: "ps_inv s L B base" and f: "frames (ke s) (g_current_thread (ke s)) = Some f"
  shows "\<exists>r s'. NtResumeWait f s = Some (r, s') \<and> ps_rel s' base"
proof -
  let ?t = "g_current_thread (ke s)"
  obtain r k where c: "KiResumeWait f (ke s) = (r, k)" by (cases "KiResumeWait f (ke s)") auto
  have g: "ke_good (ke s)" using inv by (simp add: ps_inv_def)
  have t: "?t \<in> set (ThreadListHead (ke s))" using queue_okD(4) ke_goodD(2) [OF g] by blast
  have w: "wait_objects s ?t = wf_objects f" using inv t f by (simp add: ps_inv_def waits_ok_def)
  have kg: "ke_good k" using resume_good [OF g f] by (simp add: c)
  have dir: "directories s x = []" if "x \<in> set (wf_objects f)" for x
  proof -
    have "0 < count_list (wait_objects s ?t) x" using that count_list_0_iff [of "wf_objects f" x] w by simp
    then have "0 < thread_refs s ?t x" by (simp add: thread_refs_def)
    also have "thread_refs s ?t x \<le> ps_refs s x" unfolding ps_refs_def by (rule member_le_sum [OF t]) simp_all
    finally show ?thesis using inv by (simp add: ps_inv_def objects_ok_def)
  qed
  note we = wait_end_inv [OF _ _ _ _ t _ kg resume_frames [OF c] refl dir, where base = base]
  show ?thesis unfolding NtResumeWait_def Let_def c w by (rule we) (use inv w in \<open>auto simp: ps_inv_def\<close>)
qed

section \<open>Mapping user pages\<close>

lemma arena_map:
  assumes ar: "arena_ok v e" and al: "MmAllocatePage (pmm v) = (pa, p)"
  shows "pa = MM_INVALID_PHYS \<Longrightarrow> arena_ok (v\<lparr>pmm := p\<rparr>) e"
    and "pa \<noteq> MM_INVALID_PHYS \<Longrightarrow> MmMapPage va pa (PTE_USER OR PTE_WRITE) (v\<lparr>pmm := p\<rparr>) = Some (b, v') \<Longrightarrow> arena_ok v' e"
proof -
  from ar obtain D where ok: "vmm_ok v D" by (auto simp: arena_ok_def vmm_inv_def)
  then have inv: "pmm_inv (pmm v)" by (simp add: vmm_ok_def frames_ok_def)
  from inv show "pa = MM_INVALID_PHYS \<Longrightarrow> arena_ok (v\<lparr>pmm := p\<rparr>) e"
  proof (cases rule: MmAllocatePage_cases)
    case none
    then have "v\<lparr>pmm := p\<rparr> = v" using al by simp
    then show ?thesis using ar by simp
  next
    case (some f p')
    then show "pa = MM_INVALID_PHYS \<Longrightarrow> ?thesis" using frame_addr(2) [OF free_frame_lt [OF inv some(2)]] al by simp
  qed
  assume nz: "pa \<noteq> MM_INVALID_PHYS" and mp: "MmMapPage va pa (PTE_USER OR PTE_WRITE) (v\<lparr>pmm := p\<rparr>) = Some (b, v')"
  from inv show "arena_ok v' e"
  proof (cases rule: MmAllocatePage_cases)
    case none
    then show ?thesis using nz al by simp
  next
    case (some f p')
    have p: "p' = p" "pa = push_bit 12 f" using al some(1) by simp_all
    have ok': "vmm_ok (v\<lparr>pmm := p\<rparr>) D" using ok some(4-6) p by (auto simp: vmm_ok_def frames_ok_def)
    have c: "card (free_frames (pmm v)) = Suc (card (free_frames p))" using pmm_frames.alloc_card [OF inv al nz] .
    have fl: "(PTE_USER OR PTE_WRITE) AND PTE_ADDR_MASK = 0" by simp
    from ok' fl show ?thesis
    proof (cases rule: MmMapPage_spec [where va = va and pa = pa])
      case none
      then show ?thesis using mp by simp
    next
      case m: (some b' w D')
      have w: "w = v'" "b' = b" using m(1) mp by simp_all
      have tot: "total_pages (pmm v') = total_pages (pmm v)" using m(9) some(6) p w by simp
      have tr: "MmGetPhysicalAddress v' (A k) \<noteq> MM_INVALID_PHYS" if "k < e" for k
      proof -
        have "MmGetPhysicalAddress v (A k) \<noteq> MM_INVALID_PHYS" using ar that by (simp add: arena_ok_def)
        then show ?thesis using m(6) [of "A k"] small_addr_valid [of pa "A k"] w by (auto simp: MmGetPhysicalAddress_translate addr_def)
      qed
      show ?thesis
        unfolding arena_ok_def
      proof (intro conjI)
        show "vmm_inv v'" using m(2) w by (auto simp: vmm_inv_def)
        show "e + 4096 * card (free_frames (pmm v')) \<le> 4096 * unat (total_pages (pmm v'))"
          using ar m(8) c w unfolding arena_ok_def tot by simp
        show "\<forall>k < 2 ^ 30. \<not> large_mapped (ptm v') (g_kernel_pml4_phys v') (A k)"
          using ar m(10) w by (simp add: arena_ok_def)
      qed (use ar tr tot in \<open>simp_all add: arena_ok_def\<close>)
    qed
  qed
qed

lemma pool_rel_mm:
  assumes "pool_rel p L" "\<And>e. arena_ok (mm p) e \<Longrightarrow> arena_ok v e"
  shows "pool_rel (p\<lparr>mm := v\<rparr>) L"
  using assms by (auto simp: pool_rel_def pool_inv_def pool_list_def)

lemma ps_inv_pool:
  assumes inv: "ps_inv s L B base" and rel: "pool_rel p L"
  shows "ps_inv (s\<lparr>pool := p\<rparr>) L B base"
proof -
  have "ob_inv (s\<lparr>pool := p\<rparr>) L B (\<lambda>ob. base ob + ps_refs s ob)"
    by (rule ob_inv_pool [where L = L]) (use inv rel in \<open>simp_all add: ps_inv_def\<close>)
  from ps_inv_ob [OF inv this] show ?thesis by simp
qed

lemma map_page_inv:
  assumes inv: "ps_inv s L B base" and c: "map_user_page va s = Some (ok, s')"
  shows "ps_inv s' L B base" "wait_objects s' = wait_objects s" "ke s' = ke s" "ps_types s' = ps_types s"
proof -
  obtain pa pm where al: "MmAllocatePage (pmm (mm (pool s))) = (pa, pm)" by (cases "MmAllocatePage (pmm (mm (pool s)))") auto
  have rel: "pool_rel (pool s) L" using inv by (simp add: ps_inv_def ob_inv_def)
  have "ps_inv s' L B base \<and> wait_objects s' = wait_objects s \<and> ke s' = ke s \<and> ps_types s' = ps_types s"
  proof (cases "pa = MM_INVALID_PHYS")
    case True
    then have s': "s' = s\<lparr>pool := (pool s)\<lparr>mm := (mm (pool s))\<lparr>pmm := pm\<rparr>\<rparr>\<rparr>" using c al by (simp add: map_user_page_def Let_def)
    have "ps_inv s' L B base" unfolding s' by (rule ps_inv_pool [OF inv pool_rel_mm [OF rel]]) (rule arena_map(1) [OF _ al True])
    then show ?thesis by (simp add: s' ps_types_def)
  next
    case False
    then obtain b v2 where m: "MmMapPage va pa (PTE_USER OR PTE_WRITE) ((mm (pool s))\<lparr>pmm := pm\<rparr>) = Some (b, v2)"
      using c al by (auto simp: map_user_page_def Let_def split: bind_splits)
    then obtain f where s': "s' = put_user f (s\<lparr>pool := (pool s)\<lparr>mm := v2\<rparr>\<rparr>)" using c al False by (auto simp: map_user_page_def Let_def)
    have "ps_inv (s\<lparr>pool := (pool s)\<lparr>mm := v2\<rparr>\<rparr>) L B base"
      by (rule ps_inv_pool [OF inv pool_rel_mm [OF rel]]) (rule arena_map(2) [OF _ al False m])
    then show ?thesis by (simp add: s') (simp add: put_user_def ps_types_def)
  qed
  then show "ps_inv s' L B base" "wait_objects s' = wait_objects s" "ke s' = ke s" "ps_types s' = ps_types s" by simp_all
qed

lemma map_loop_inv:
  assumes "ps_inv s L B base" "map_pages_loop va is s = Some (ok, s')"
  shows "ps_inv s' L B base \<and> wait_objects s' = wait_objects s \<and> ke s' = ke s \<and> ps_types s' = ps_types s"
  using assms
proof (induction "is" arbitrary: s)
  case (Cons i js)
  from Cons.prems(2) obtain b s1 where m: "map_user_page (va + of_nat i * PAGE_SIZE) s = Some (b, s1)" by (auto split: bind_splits)
  note i1 = map_page_inv [OF Cons.prems(1) m]
  show ?case
  proof (cases b)
    case True
    with Cons.prems(2) m have "map_pages_loop va js s1 = Some (ok, s')" by simp
    from Cons.IH [OF i1(1) this] i1 show ?thesis by simp
  next
    case False
    with Cons.prems(2) m have "s' = s1" by simp
    then show ?thesis using i1 by simp
  qed
qed simp

lemma ps_inv_va [simp]: "ps_inv (s\<lparr>g_thread_va := x\<rparr>) L B base = ps_inv s L B base"
proof -
  have "ob_inv (s\<lparr>g_thread_va := x\<rparr>) L B held = ob_inv s L B held" for held by (rule ob_inv_cong) simp_all
  moreover have "ob_own (s\<lparr>g_thread_va := x\<rparr>) B = ob_own s B" by (rule ob_own_cong) simp_all
  moreover have "ps_refs (s\<lparr>g_thread_va := x\<rparr>) = ps_refs s" by (simp add: ps_refs_def thread_refs_def fun_eq_iff)
  ultimately show ?thesis by (simp add: ps_inv_def threads_ok_def objects_ok_def waits_ok_def ps_types_def)
qed

lemma map_pages_inv:
  assumes inv: "ps_inv s L B base" and few: "few s base" and c: "map_user_pages n s = Some (va, s')"
  shows "ps_inv s' L B base" "few s' base"
proof -
  from c obtain ok s1 where m: "map_pages_loop (g_thread_va s) [0..<n] s = Some (ok, s1)" by (auto simp: map_user_pages_def Let_def split: bind_splits)
  note i = map_loop_inv [OF inv m]
  have s': "s' = s1 \<or> (\<exists>x. s' = s1\<lparr>g_thread_va := x\<rparr>)" using c m by (auto simp: map_user_pages_def Let_def split: if_splits)
  then show "ps_inv s' L B base" using i by auto
  have "ps_refs s' = ps_refs s" using s' i by (auto simp: ps_refs_def thread_refs_def fun_eq_iff)
  then show "few s' base" using few by (simp add: few_def)
qed

section \<open>Threads\<close>

lemma term_good:
  assumes g: "ke_good k"
  shows "ke_good (upd_thread t (\<lambda>x. x\<lparr>TerminationObject := v\<rparr>) k)"
proof -
  note d = ke_goodD [OF g]
  let ?k = "upd_thread t (\<lambda>x. x\<lparr>TerminationObject := v\<rparr>) k"
  have "same_waits k ?k" by (simp add: same_waits_def)
  moreover have "queue_ok ?k" by (rule queue_ok_cong [OF _ _ _ _ _ _ _ _ d(2)]) auto
  ultimately have "sched_inv ?k {} {}" by (rule sched_inv_frame [OF d(1)])
  moreover have "cpu_ok ?k" using d(4) by (auto simp: cpu_ok_def Let_def)
  ultimately show ?thesis using d(5) by (simp add: ke_good_def ke_inv_def wait_frames_ok_def)
qed

lemma ps_inv_term:
  assumes inv: "ps_inv s L B (base(ob := Suc (base ob)))" and t: "t \<in> set (ThreadListHead (ke s))"
    and z: "TerminationObject (threads (ke s) t) = 0" and ob: "ob \<noteq> 0" "directories s ob = []"
  shows "ps_inv (s\<lparr>ke := upd_thread t (\<lambda>x. x\<lparr>TerminationObject := ob\<rparr>) (ke s)\<rparr>) L B base"
    "ps_refs (s\<lparr>ke := upd_thread t (\<lambda>x. x\<lparr>TerminationObject := ob\<rparr>) (ke s)\<rparr>) x = ps_refs s x + of_bool (x = ob)"
proof -
  let ?k = "upd_thread t (\<lambda>x. x\<lparr>TerminationObject := ob\<rparr>) (ke s)" and ?T = "set (ThreadListHead (ke s))"
  let ?s = "s\<lparr>ke := ?k\<rparr>"
  have refs: "ps_refs ?s x = ps_refs s x + of_bool (x = ob)" for x
  proof -
    have "thread_refs ?s u x = thread_refs s u x" if "u \<in> ?T - {t}" for u using that by (simp add: thread_refs_def)
    then have "(\<Sum>u \<in> ?T - {t}. thread_refs ?s u x) = (\<Sum>u \<in> ?T - {t}. thread_refs s u x)" by (rule sum.cong [OF refl])
    moreover have "sum g ?T = g t + sum g (?T - {t})" for g :: "u64 \<Rightarrow> nat" by (rule sum.remove) (use t in simp_all)
    then have "ps_refs ?s x = thread_refs ?s t x + (\<Sum>u \<in> ?T - {t}. thread_refs ?s u x)"
      "ps_refs s x = thread_refs s t x + (\<Sum>u \<in> ?T - {t}. thread_refs s u x)" by (simp_all only: ps_refs_def) simp_all
    moreover have "thread_refs ?s t x = thread_refs s t x + of_bool (x = ob)" using z ob(1) by (auto simp: thread_refs_def)
    ultimately show ?thesis by linarith
  qed
  then show "ps_refs ?s x = ps_refs s x + of_bool (x = ob)" .
  have e: "(\<lambda>x. (base(ob := Suc (base ob))) x + ps_refs s x) = (\<lambda>x. base x + ps_refs ?s x)" by (auto simp: refs)
  have "ob_inv ?s L B held = ob_inv s L B held" for held by (rule ob_inv_cong) simp_all
  moreover have "ob_own ?s B = ob_own s B" by (rule ob_own_cong) simp_all
  moreover have "ke_good ?k" using inv by (intro term_good) (simp add: ps_inv_def)
  moreover have "objects_ok ?s B"
  proof -
    have "directories s x = []" if "0 < ps_refs ?s x" for x using that inv ob(2) unfolding refs
      by (cases "x = ob") (auto simp: ps_inv_def objects_ok_def)
    then show ?thesis using inv by (simp add: ps_inv_def objects_ok_def) (simp add: ps_types_def)
  qed
  ultimately show "ps_inv ?s L B base" using inv e by (simp add: ps_inv_def threads_ok_def waits_ok_def)
qed

lemma create_thread_inv:
  assumes inv: "ps_inv s L B base" and c: "KeCreateUserThread name entry stack gs arg prio s = Some (t, s')"
  obtains (none) "t = 0" "ps_inv s' L B base" "directories s' = directories s" "ps_types s' = ps_types s"
  | (some) L' where "t \<noteq> 0" "ps_inv s' L' B base" "t \<in> set (ThreadListHead (ke s'))" "TerminationObject (threads (ke s') t) = 0"
      "directories s' = directories s" "ps_types s' = ps_types s" "ps_refs s' = ps_refs s"
proof -
  have oi: "ob_inv s L B (\<lambda>ob. base ob + ps_refs s ob)" and g: "ke_good (ke s)" and th: "threads_ok s L B" and wo: "waits_ok s" and oo: "objects_ok s B"
    using inv by (simp_all add: ps_inv_def)
  have rel: "pool_rel (pool s) L" using oi by (simp add: ob_inv_def)
  have live: "threads_live (ke s) L" using th by (auto simp: threads_live_def threads_ok_def)
  from c obtain s1 where a: "KepAllocThread name prio s = Some (t, s1)"
    by (auto simp: KeCreateUserThread_def Let_def split: bind_splits if_splits)
  have rest: "headers s1 = headers s" "g_handles s1 = g_handles s" "directories s1 = directories s" "files s1 = files s"
    "g_type_list s1 = g_type_list s" "types s1 = types s" "wait_objects s1 = wait_objects s" "ps_types s1 = ps_types s"
    using a by (auto simp: KepAllocThread_def Let_def ps_types_def split: bind_splits if_splits)
  from rel a show thesis
  proof (cases rule: alloc_thread)
    case none
    have s': "s' = s1" using c a none(1) by (simp add: KeCreateUserThread_def)
    have k: "ke_good (ke s1) \<and> tkeeps (ke s) (ke s1) \<and> frames (ke s1) = frames (ke s)"
      using none(3)
    proof
      assume "\<exists>b. L b = None \<and> 0xFFFFFFFFC0000000 \<le> unat b \<and> ke s1 = upd_thread b (\<lambda>_. zero_thread) (ke s)"
      then obtain b where b: "L b = None" "0xFFFFFFFFC0000000 \<le> unat b" "ke s1 = upd_thread b (\<lambda>_. zero_thread) (ke s)" by blast
      have "b \<notin> set (ThreadListHead (ke s))" by (rule fresh_thread [OF rel live b(1,2)])
      moreover from this have "ke_good (ke s1)" by (intro ke_good_cong [OF g]) (auto simp: b(3))
      ultimately show ?thesis by (auto simp: b(3) tkeeps_def)
    qed (use g in simp)
    have "ob_inv (s\<lparr>pool := pool s1\<rparr>) L B (\<lambda>ob. base ob + ps_refs s ob)" by (rule ob_inv_pool [OF oi none(2)]) simp
    then have o1: "ob_inv s1 L B (\<lambda>ob. base ob + ps_refs s ob)" by (subst ob_inv_cong [of _ "s\<lparr>pool := pool s1\<rparr>"]) (simp_all add: rest)
    have own: "ob_own s1 B = ob_own s B" by (rule ob_own_cong) (simp_all add: rest)
    have refs: "ps_refs s1 = ps_refs s" using k by (simp add: ps_refs_def thread_refs_def rest tkeeps_def fun_eq_iff)
    have "ps_inv s1 L B base"
      using o1 k th oo wo by (simp add: ps_inv_def refs threads_ok_def objects_ok_def waits_ok_def own rest tkeeps_def)
    then show thesis using none(1) s' rest by (intro that(1)) simp_all
  next
    case (some st)
    define k1 where "k1 = upd_thread t (\<lambda>x. x\<lparr>UserMode := True, UserEntry := entry, UserStack := stack, UserGsBase := gs, UserArg := arg\<rparr>) (ke s1)"
    define p where "p = (if gs \<noteq> 0 then upd_umem (st64 (gs + 0x48) (ucast (ThreadId (threads k1 t)))) (pool s1) else pool s1)"
    have p: "s' = s1\<lparr>ke := KepEnqueueThread t k1, pool := p\<rparr>" "pool_rel p (L(t \<mapsto> 0xB40, st \<mapsto> 0x4000))"
    proof -
      show "s' = s1\<lparr>ke := KepEnqueueThread t k1, pool := p\<rparr>"
        unfolding k1_def p_def using c some(1)
        by (simp only: KeCreateUserThread_def a Let_def Option.bind.simps case_prod_conv if_False option.inject prod.inject simp_thms)
    qed (use some(7) in \<open>simp add: p_def\<close>)
    have fr: "t \<notin> set (ThreadListHead (ke s))" by (rule fresh_thread [OF rel live some(2,3)])
    obtain x where x: "threads (ke s1) = (threads (ke s))(t := x)" and xf: "State x = ThreadStateReady" "Quantum x = DEFAULT_QUANTUM"
      "KernelStackBase x = st" "TerminationObject x = 0" using some(8) by (fastforce simp: zero_thread_def)
    have ke1: "ke s1 = (ke s)\<lparr>threads := (threads (ke s))(t := x), kstack := kstack (ke s1), g_next_thread_id := g_next_thread_id (ke s) + 1\<rparr>"
      using some(9) unfolding x by simp
    have gd: "ke_good (KepEnqueueThread t k1)" unfolding k1_def by (rule enqueue_new_thread [OF g fr ke1]) (use xf some(4) in simp_all)
    have f1: "ThreadListHead (ke s1) = ThreadListHead (ke s)" "frames (ke s1) = frames (ke s)" "g_idle_thread (ke s1) = g_idle_thread (ke s)"
      by (subst ke1, simp)+
    have k1f: "ThreadListHead (KepEnqueueThread t k1) = ThreadListHead (ke s) @ [t]" "frames (KepEnqueueThread t k1) = frames (ke s)"
      "g_idle_thread (KepEnqueueThread t k1) = g_idle_thread (ke s)"
      "TerminationObject (threads (KepEnqueueThread t k1) u) = (if u = t then 0 else TerminationObject (threads (ke s) u))"
      "ThreadListHead k1 = ThreadListHead (ke s)" "frames k1 = frames (ke s)" "g_idle_thread k1 = g_idle_thread (ke s)"
      "TerminationObject (threads k1 u) = (if u = t then 0 else TerminationObject (threads (ke s) u))" for u
      using xf(4) by (simp_all add: KepEnqueueThread_def k1_def f1 x)
    have ft: "frames (ke s) t = None"
    proof (cases "frames (ke s) t")
      case (Some f)
      then show ?thesis using wait_frames_okD [OF ke_goodD(5) [OF g] Some] fr by simp
    qed
    have wt: "wait_objects s t = []" using wo ft by (simp add: waits_ok_def)
    have refs: "ps_refs s' = ps_refs s"
    proof
      fix ob
      have "ps_refs s' ob = thread_refs s' t ob + (\<Sum>u \<in> set (ThreadListHead (ke s)). thread_refs s' u ob)"
        using fr by (simp add: ps_refs_def p(1) k1f)
      also have "thread_refs s' t ob = 0" by (simp add: thread_refs_def p(1) k1f rest wt)
      also have "(\<Sum>u \<in> set (ThreadListHead (ke s)). thread_refs s' u ob) = ps_refs s ob"
        unfolding ps_refs_def by (rule sum.cong [OF refl]) (use fr in \<open>auto simp: thread_refs_def p(1) k1f rest\<close>)
      finally show "ps_refs s' ob = ps_refs s ob" by simp
    qed
    let ?L = "L(t \<mapsto> 0xB40, st \<mapsto> 0x4000)"
    have fresh: "y \<noteq> t \<and> y \<noteq> st" if "y \<in> ob_own s B" for y
      using that ob_own_dom [OF oi that] some(1,2,4,5) by (cases "y = 0") auto
    have "ob_inv (s\<lparr>pool := p\<rparr>) ?L B (\<lambda>ob. base ob + ps_refs s ob)"
      by (rule ob_inv_pool [OF oi p(2)]) (use fresh in auto)
    then have o1: "ob_inv s' ?L B (\<lambda>ob. base ob + ps_refs s ob)" by (subst ob_inv_cong [of _ "s\<lparr>pool := p\<rparr>"]) (simp_all add: rest p(1))
    have own: "ob_own s' B = ob_own s B" by (rule ob_own_cong) (simp_all add: rest p(1))
    have t1: "threads_ok s' ?L B"
      unfolding threads_ok_def own
    proof (intro conjI ballI impI)
      fix u assume u: "u \<in> set (ThreadListHead (ke s'))" "u \<noteq> g_idle_thread (ke s')"
      show "u \<in> dom ?L" "u \<notin> ob_own s B"
        using u th fresh [of t] by (auto simp: threads_ok_def p(1) k1f)
    qed (use th in \<open>simp add: threads_ok_def p(1) k1f\<close>)
    have "ps_types s' = ps_types s" by (simp add: p(1) ps_types_def rest(8) [unfolded ps_types_def])
    moreover from this have "objects_ok s' B" using oo by (simp add: objects_ok_def refs) (simp add: p(1) rest)
    moreover have "waits_ok s'" using wo by (simp add: waits_ok_def p(1) k1f rest)
    ultimately have "ps_inv s' ?L B base" "ps_types s' = ps_types s" using o1 t1 gd by (simp_all add: ps_inv_def refs) (simp add: p(1))
    then show thesis using some(1) refs rest(3) by (intro that(2) [of ?L]) (simp_all add: p(1) k1f)
  qed
qed

lemma ps_ref:
  assumes inv: "ps_inv s L B base" and held: "0 < base ob" and b: "base ob + ps_refs s ob < 2 ^ 30"
  shows "ps_inv (ObReferenceObject ob s) L B (base(ob := Suc (base ob)))"
proof -
  have oi: "ob_inv s L B (\<lambda>ob. base ob + ps_refs s ob)" using inv by (simp add: ps_inv_def)
  have hB: "ObHeaderFromObject ob \<in> B" using ps_refs_live [OF inv, of ob] held by simp
  have e: "(\<lambda>ob. base ob + ps_refs s ob)(ob := Suc (base ob + ps_refs s ob)) = (\<lambda>x. (base(ob := Suc (base ob))) x + ps_refs s x)" by auto
  from ob_reference [OF oi hB b] have "ob_inv (ObReferenceObject ob s) L B (\<lambda>x. (base(ob := Suc (base ob))) x + ps_refs s x)" unfolding e .
  from inv this show ?thesis by (rule ps_inv_ob) (simp_all add: ObReferenceObject_def)
qed

text \<open>A new thread takes a reference to its termination object; then the object is published.\<close>

lemma thread_publish:
  assumes inv: "ps_inv s L B (base(ob := 1))" and b: "base ob = 0" and few: "few s base" and ob: "ob \<noteq> 0" "directories s ob = []"
    and t: "t \<in> set (ThreadListHead (ke s))" "TerminationObject (threads (ke s) t) = 0"
    and c: "ObCreateHandle ob GENERIC_ALL ((ObReferenceObject ob s)\<lparr>ke := upd_thread t (\<lambda>x. x\<lparr>TerminationObject := ob\<rparr>) (ke (ObReferenceObject ob s))\<rparr>) = (st, h, s9)"
  shows "\<exists>s10 L' B'. ObDereferenceObject ob s9 = Some s10 \<and> ps_inv s10 L' B' base"
proof -
  let ?s7 = "ObReferenceObject ob s"
  let ?s8 = "?s7\<lparr>ke := upd_thread t (\<lambda>x. x\<lparr>TerminationObject := ob\<rparr>) (ke ?s7)\<rparr>"
  note m = ps_more [OF ps_more_reference(1), of ob s]
  have bd: "base ob + ps_refs s ob + 100 < 2 ^ 30" by (rule fewD [OF few])
  have "ps_inv ?s7 L B ((base(ob := 1))(ob := Suc ((base(ob := 1)) ob)))" by (rule ps_ref [OF inv]) (use bd in simp_all)
  note i8 = ps_inv_term [OF this, of t, unfolded m ps_more_reference, OF t ob]
  have "(base(ob := 1)) ob + ps_refs ?s8 ob < 2 ^ 30" using bd i8(2) [of ob] unfolding m by simp
  note h = ps_handle [OF i8(1) _ this [unfolded m] c [unfolded m]]
  have e: "base(ob := 1) = base(ob := Suc (base ob))" using b by simp
  have i9: "ps_inv s9 L B (base(ob := Suc (base ob)))" using h(1) e by (metis fun_upd_same zero_less_one)
  have "directories s9 ob = []" using h(3) ob(2) by (simp add: ps_more_reference)
  from ps_return [OF i9 this] show ?thesis by blast
qed

lemma start_thread_inv:
  fixes s :: "'z ps_state_scheme"
  assumes inv: "ps_inv s L B base" and few: "few s base" and c: "start_user_thread a stk teb s = Some (st, s')"
  shows "ps_rel s' base"
proof -
  from c obtain st1 ob s1 where c1: "ObCreateObject (g_thread_type s) SIZEOF_THREAD_OBJECT s = Some (st1, ob, s1)"
    by (auto simp: start_user_thread_def split: bind_splits)
  have sz: "unat SIZEOF_THREAD_OBJECT \<le> 2 ^ 60" by simp
  from inv ps_types_intros(2) sz c1 show ?thesis
  proof (cases rule: ps_create)
    case failure
    then show ?thesis using c c1 by (auto simp: start_user_thread_def intro: ps_relI)
  next
    case (success L1 B1)
    define s2 where "s2 = s1\<lparr>ke := upd_disp ob (\<lambda>d. d\<lparr>d_Type := ThreadObject, SignalState := 0, WaitListHead := []\<rparr>) (ke s1)\<rparr>"
    have "ke_good (ke s1)" using success(2) by (simp add: ps_inv_def)
    from initialize_good [OF this success(8)] have i2: "ps_inv s2 L1 B1 (base(ob := 1))"
      unfolding s2_def by (intro ps_inv_ke [OF success(2)]) simp_all
    have "ob_inv s2 L1 B1 (\<lambda>x. (base(ob := 1)) x + ps_refs s2 x)" using i2 unfolding ps_inv_def by (rule conjunct1)
    from held_zero [OF this] have ob0: "ob \<noteq> 0" by (cases "ob = 0") auto
    have r2: "ps_refs s2 = ps_refs s" using ps_more(9) [OF success(6)] by (simp add: s2_def ps_refs_def thread_refs_def fun_eq_iff)
    have d2: "directories s2 ob = []" using success(5) by (simp add: s2_def)
    from c c1 success(1) obtain kt s3 where c3: "KeCreateUserThread (cstr ''userthread'') (a 4) stk teb (a 5) 8 s2 = Some (kt, s3)"
      by (auto simp: start_user_thread_def s2_def split: bind_splits)
    have c': "(if kt = 0 then do { s4 \<leftarrow> ObDereferenceObject ob s3; Some (STATUS_NO_MEMORY, s4) }
        else do {
          let s4 = ObReferenceObject ob s3;
          let s5 = s4\<lparr>ke := upd_thread kt (\<lambda>t. t\<lparr>TerminationObject := ob\<rparr>) (ke s4)\<rparr>;
          let (st, h, s6) = ObCreateHandle ob GENERIC_ALL s5;
          s7 \<leftarrow> ObDereferenceObject ob s6;
          if \<not> NT_SUCCESS st then Some (STATUS_NO_MEMORY, s7)
          else (let s8 = put_user (st64 (a 0) h) s7 in Some (STATUS_SUCCESS, s8\<lparr>ke := KeYield (ke s8)\<rparr>))
        }) = Some (st, s')"
      using c c1 success(1) c3 by (simp add: start_user_thread_def s2_def)
    have e: "base(ob := 1) = base(ob := Suc (base ob))" using success(3) by simp
    from i2 c3 show ?thesis
    proof (cases rule: create_thread_inv)
      case none
      have "ps_inv s3 L1 B1 (base(ob := Suc (base ob)))" using none(2) e by metis
      moreover have "directories s3 ob = []" using none(3) d2 by simp
      ultimately obtain s4 L4 B4 where "ObDereferenceObject ob s3 = Some s4" "ps_inv s4 L4 B4 base" by (rule ps_return)
      then show ?thesis using c' none(1) by (auto intro: ps_relI)
    next
      case (some L3)
      define s5 where "s5 = (ObReferenceObject ob s3)\<lparr>ke := upd_thread kt (\<lambda>x. x\<lparr>TerminationObject := ob\<rparr>) (ke (ObReferenceObject ob s3))\<rparr>"
      obtain st6 h s6 where c6: "ObCreateHandle ob GENERIC_ALL s5 = (st6, h, s6)" by (cases "ObCreateHandle ob GENERIC_ALL s5") auto
      have "few s3 base" using few by (simp add: few_def some(7) r2)
      moreover have "directories s3 ob = []" using some(5) d2 by simp
      ultimately obtain s7 L7 B7 where d: "ObDereferenceObject ob s6 = Some s7" "ps_inv s7 L7 B7 base"
        using thread_publish [OF some(2) success(3) _ ob0 _ some(3,4) c6 [unfolded s5_def]] by blast
      have "ke_good (ke s7)" using d(2) by (simp add: ps_inv_def)
      then have y: "ps_inv (s7\<lparr>ke := KeYield (ke s7)\<rparr>) L7 B7 base"
        by (intro ps_inv_ke [OF d(2)]) (simp_all add: yield_good, simp_all add: KeYield_def)
      have pu: "(put_user f s7)\<lparr>ke := k\<rparr> = put_user f (s7\<lparr>ke := k\<rparr>)" "ke (put_user f s7) = ke s7" for f k by (simp_all add: put_user_def)
      show ?thesis
        using c' some(1) c6 d y unfolding Let_def s5_def [symmetric] by (auto simp: pu intro: ps_relI split: if_splits)
    qed
  qed
qed

lemma create_thread_ex_inv:
  fixes s :: "'z ps_state_scheme"
  assumes inv: "ps_inv s L B base" and few: "few s base" and c: "NtCreateThreadEx a s = Some (st, s')"
  shows "ps_rel s' base"
proof -
  obtain ok where ok: "MmProbeForWrite (mm (pool s)) (a 0) 8 = Some ok" using MmProbeForWrite_total by blast
  show ?thesis
  proof (cases ok)
    case False
    then show ?thesis using c ok inv by (auto simp: NtCreateThreadEx_def intro: ps_relI)
  next
    case True
    with c ok obtain sb s1 where m1: "map_user_pages THREAD_STACK_PAGES s = Some (sb, s1)" by (auto simp: NtCreateThreadEx_def split: bind_splits)
    with c ok True obtain teb s2 where m2: "map_user_pages PROCESS_TEB_PAGES s1 = Some (teb, s2)" by (auto simp: NtCreateThreadEx_def split: bind_splits)
    note i1 = map_pages_inv [OF inv few m1]
    note i2 = map_pages_inv [OF i1 m2]
    show ?thesis
    proof (cases "sb = 0 \<or> teb = 0")
      case nz: True
      then show ?thesis using c ok True m1 m2 i2(1) by (auto simp: NtCreateThreadEx_def intro: ps_relI)
    next
      case nz: False
      define s3 where "s3 = put_user (fill_teb teb sb (sb + of_nat THREAD_STACK_PAGES * PAGE_SIZE)) s2"
      have i3: "ps_inv s3 L B base" "few s3 base" using i2 few_more [of s3 s2] by (simp_all add: s3_def)
      have "start_user_thread a (sb + of_nat THREAD_STACK_PAGES * PAGE_SIZE) teb s3 = Some (st, s')"
        using c ok True m1 m2 nz by (simp add: NtCreateThreadEx_def s3_def Let_def)
      from start_thread_inv [OF i3 this] show ?thesis .
    qed
  qed
qed

section \<open>Closing handles and ending threads\<close>

lemma close_inv:
  fixes s :: "'z ps_state_scheme"
  assumes inv: "ps_inv s L B base" and few: "few s base"
    and dir: "ObGetReferenceCount s (handle_object s h) = 1 \<longrightarrow> directories s (handle_object s h) = []"
  shows "\<exists>st s'. ObCloseHandle h s = Some (st, s') \<and> ps_rel s' base"
proof (cases "handle_object s h = 0")
  case True
  then have "\<exists>st. ObCloseHandle h s = Some (st, s)" by (auto simp: ObCloseHandle_def handle_object_def split: option.splits)
  then show ?thesis using inv by (auto intro: ps_relI)
next
  case False
  let ?H = "\<lambda>ob. base ob + ps_refs s ob" and ?ob = "handle_object s h"
  have oi: "ob_inv s L B ?H" using inv by (simp add: ps_inv_def)
  have hB: "ObHeaderFromObject ?ob \<in> B" using handle_object_live [OF oi False] .
  have b: "?H ?ob < 2 ^ 30" using fewD [OF few, of ?ob] by simp
  have d1: "nrefs s ?H ?ob = 1 \<Longrightarrow> directories s ?ob = []" using dir refcount_one(2) [OF oi hB] by blast
  show ?thesis
  proof (rule ob_close [OF oi b refl False d1])
    fix s' L' B'
    assume d: "ObCloseHandle h s = Some (STATUS_SUCCESS, s')" "ob_inv s' L' B' ?H"
      "B' = (if nrefs s ?H ?ob = 1 then B - {ObHeaderFromObject ?ob} else B)" "ob_state.more s' = ob_state.more s"
      "\<And>k. oh_Type (headers s' k) = oh_Type (headers s k)" "directories s' = directories s" "g_type_list s' = g_type_list s"
      "files s' = files s" "\<And>t. DeleteProcedure (types s' t) = DeleteProcedure (types s t)" "\<And>x. x \<notin> ob_own s B \<Longrightarrow> L' x = L x"
    have "B' \<subseteq> B" unfolding d(3) by auto
    from ps_inv_ob [OF inv d(2,4) this d(10,6,7,8,5,9)] d(1) show ?thesis by (auto intro: ps_relI)
  qed
qed

text \<open>The object manager does not look at the scheduler.\<close>

lemma dereference_ke: "ObDereferenceObject ob (s\<lparr>ke := k\<rparr>) = map_option (\<lambda>t. t\<lparr>ke := k\<rparr>) (ObDereferenceObject ob s)"
  by (auto simp: ObDereferenceObject_def ObpDeleteObject_def call_delete_def IopFileDelete_proc_def upd_header_def upd_type_def Let_def
      map_option_bind comp_def split: OB_DELETE_METHOD.split option.split bind_split)

lemma ended_fields:
  "ThreadListHead (ended k) = ThreadListHead k" "g_idle_thread (ended k) = g_idle_thread k" "frames (ended k) = frames k"
  "u \<in> set (ThreadListHead k) \<Longrightarrow>
     TerminationObject (threads (ended k) u) = (if u = g_current_thread k then 0 else TerminationObject (threads k u))"
proof -
  let ?t = "g_current_thread k"
  let ?h = "TerminationObject (threads k ?t)"
  define k1 where "k1 = upd_thread ?t (\<lambda>x. x\<lparr>State := ThreadStateTerminated\<rparr>) k"
  define k3 where "k3 = KiSignalObject ?h (upd_disp ?h (\<lambda>d. d\<lparr>SignalState := 1\<rparr>) k1)"
  have e: "ended k = (if ?h \<noteq> 0 then upd_thread ?t (\<lambda>x. x\<lparr>TerminationObject := 0\<rparr>) k3 else k1)"
    by (simp add: ended_def Let_def k3_def k1_def)
  have 1: "tkeeps k k1" "frames k1 = frames k" by (simp_all add: k1_def tkeeps_thread)
  have 3: "tkeeps k1 k3" "frames k3 = frames k1" unfolding k3_def by (simp_all add: tkeeps_signal_disp tkeeps_signal)
  have t3: "tkeeps k k3" by (rule tkeeps_trans [OF 1(1) 3(1)])
  show "ThreadListHead (ended k) = ThreadListHead k" "g_idle_thread (ended k) = g_idle_thread k" "frames (ended k) = frames k"
    using 1 3 t3 by (simp_all add: e tkeeps_def)
  show "TerminationObject (threads (ended k) u) = (if u = ?t then 0 else TerminationObject (threads k u))" if "u \<in> set (ThreadListHead k)"
    using 1(1) t3 that by (auto simp: e tkeeps_def)
qed

lemma terminate_inv:
  fixes s :: "'z ps_state_scheme"
  assumes inv: "ps_inv s L B base" and idle: "g_current_thread (ke s) \<noteq> g_idle_thread (ke s)"
  shows "\<exists>s'. KeTerminateThread s = Some s' \<and> ps_rel s' base"
proof -
  let ?t = "g_current_thread (ke s)"
  let ?h = "TerminationObject (threads (ke s) ?t)" and ?T = "set (ThreadListHead (ke s))"
  define k where "k = KiSchedule (ended (ke s))"
  define F where "F = s\<lparr>ke := k\<rparr>"
  have g: "ke_good (ke s)" using inv by (simp add: ps_inv_def)
  have t: "?t \<in> ?T" using queue_okD(4) ke_goodD(2) [OF g] by blast
  have kg: "ke_good k" using terminate_good [OF g idle] by (simp add: k_def end_thread_def)
  have te: "TerminationObject (threads k u) = (if u = ?t then 0 else TerminationObject (threads (ke s) u))" if "u \<in> ?T" for u
    using that ended_fields(1,4) [where k = "ke s"] tkeeps_schedule [of "ended (ke s)"] by (simp add: k_def tkeeps_def)
  have kf: "ThreadListHead k = ThreadListHead (ke s)" "g_idle_thread k = g_idle_thread (ke s)" "frames k = frames (ke s)"
    by (simp_all add: k_def ended_fields)
  let ?base = "if ?h = 0 then base else base(?h := Suc (base ?h))"
  have refs: "ps_refs F x + of_bool (x = ?h \<and> x \<noteq> 0) = ps_refs s x" for x
  proof -
    have "thread_refs F u x = thread_refs s u x" if "u \<in> ?T - {?t}" for u using that te [of u] by (simp add: thread_refs_def F_def)
    then have "(\<Sum>u \<in> ?T - {?t}. thread_refs F u x) = (\<Sum>u \<in> ?T - {?t}. thread_refs s u x)" by (rule sum.cong [OF refl])
    moreover have "sum g ?T = g ?t + sum g (?T - {?t})" for g :: "u64 \<Rightarrow> nat" by (rule sum.remove) (use t in simp_all)
    then have "ps_refs F x = thread_refs F ?t x + (\<Sum>u \<in> ?T - {?t}. thread_refs F u x)"
      "ps_refs s x = thread_refs s ?t x + (\<Sum>u \<in> ?T - {?t}. thread_refs s u x)" by (simp_all only: ps_refs_def F_def) (simp_all add: kf)
    moreover have "thread_refs F ?t x + of_bool (x = ?h \<and> x \<noteq> 0) = thread_refs s ?t x" using te [OF t] by (auto simp: thread_refs_def F_def)
    ultimately show ?thesis by linarith
  qed
  have e: "(\<lambda>x. base x + ps_refs s x) = (\<lambda>x. ?base x + ps_refs F x)"
  proof
    fix x show "base x + ps_refs s x = ?base x + ps_refs F x" using refs [of x] by auto
  qed
  have dirs: "directories s x = []" if "0 < ps_refs F x" for x using that refs [of x] inv by (auto simp: ps_inv_def objects_ok_def)
  have oF: "ob_inv F L B held = ob_inv s L B held" for held by (rule ob_inv_cong) (simp_all add: F_def)
  have own: "ob_own F B = ob_own s B" by (rule ob_own_cong) (simp_all add: F_def)
  have "ob_inv F L B (\<lambda>x. ?base x + ps_refs F x)" using inv unfolding oF e [symmetric] ps_inv_def by (rule conjunct1)
  moreover have "objects_ok F B" using inv dirs by (simp add: ps_inv_def objects_ok_def) (simp add: F_def ps_types_def)
  moreover have "threads_ok F L B" "waits_ok F" using inv by (simp_all add: ps_inv_def threads_ok_def waits_ok_def own) (simp_all add: F_def kf)
  moreover have "ke_good (ke F)" using kg by (simp add: F_def)
  ultimately have iF: "ps_inv F L B ?base" unfolding ps_inv_def by (intro conjI)
  show ?thesis
  proof (cases "?h = 0")
    case True
    then have "KeTerminateThread s = Some F" by (simp add: KeTerminateThread_def Let_def F_def k_def ended_def)
    then show ?thesis using iF True by (auto intro: ps_relI)
  next
    case False
    have "0 < ps_refs s ?h" using refs [of ?h] False by simp
    then have "directories F ?h = []" using inv by (simp add: ps_inv_def objects_ok_def F_def)
    moreover have "ps_inv F L B (base(?h := Suc (base ?h)))" using iF by (simp only: False if_False)
    ultimately obtain s' L' B' where d: "ObDereferenceObject ?h F = Some s'" "ps_inv s' L' B' base" using ps_return by blast
    have "map_option (\<lambda>t. t\<lparr>ke := k\<rparr>) (ObDereferenceObject ?h s) = Some s'" using d(1) unfolding F_def dereference_ke .
    then obtain s0 where s0: "ObDereferenceObject ?h s = Some s0" "s' = s0\<lparr>ke := k\<rparr>" by auto
    have "ObDereferenceObject ?h (s\<lparr>ke := ended (ke s)\<rparr>) = Some (s0\<lparr>ke := ended (ke s)\<rparr>)" by (simp add: dereference_ke s0(1))
    then have "KeTerminateThread s = Some s'" using False s0(2) by (simp add: KeTerminateThread_def Let_def k_def ended_def)
    then show ?thesis using d(2) by (auto intro: ps_relI)
  qed
qed

section \<open>Initialization\<close>



text \<open>A new object type: its block is new, so no object has it yet.\<close>

lemma type_inv:
  fixes s :: "'z ps_state_scheme"
  assumes inv: "ob_inv s L B held" and c: "ObCreateObjectType name NoDelete s = Some (ty, s')" and nz: "ty \<noteq> 0" and th: "threads_ok s L B"
  obtains L' where "ob_inv s' L' B held" "threads_ok s' L' B" "g_type_list s' = g_type_list s @ [ty]" "ob_state.more s' = ob_state.more s"
    "headers s' = headers s" "directories s' = directories s" "\<forall>h \<in> B. oh_Type (headers s h) \<noteq> ty"
  using inv c
proof (cases rule: ob_create_type)
  case success
  have bl: "\<forall>h \<in> B. oh_Type (headers s h) \<in> dom L" using inv by (auto simp: ob_inv_def blocks_ok_def)
  have ne: "\<forall>h \<in> B. oh_Type (headers s h) \<noteq> ty" using bl success(10) by auto
  have ty: "x \<noteq> ty \<Longrightarrow> types s' x = types s x" for x using c nz by (auto simp: ObCreateObjectType_def Let_def split: bind_splits if_splits)
  have "file_data s' h = file_data s h" if "h \<in> B" for h using that ne ty success(5,9) by (simp add: file_data_def)
  then have own: "ob_own s' B = insert ty (ob_own s B)" by (auto simp: ob_own_def success(3))
  have "threads_ok s' (L(ty \<mapsto> 48)) B"
    using th success(10) by (auto simp: threads_ok_def own ps_more [OF success(8)])
  then show thesis using success ne by (intro that)
qed (use nz in simp)

text \<open>The state before \<^verbatim>\<open>PsInitialize\<close>: the object manager and the scheduler are set up and no thread waits or has a termination
  object.\<close>

definition ps_boot :: "'z ps_state_scheme \<Rightarrow> (u64 \<Rightarrow> nat) \<Rightarrow> bool" where
  "ps_boot s base \<longleftrightarrow> (\<exists>L B. ob_inv s L B base \<and> threads_ok s L B) \<and> ke_good (ke s) \<and> frames (ke s) = (\<lambda>_. None) \<and>
     wait_objects s = (\<lambda>_. []) \<and> (\<forall>t \<in> set (ThreadListHead (ke s)). TerminationObject (threads (ke s) t) = 0)"

lemma ps_fields [simp]:
  "ob_inv (s\<lparr>g_event_type := x\<rparr>) L B held = ob_inv s L B held" "ob_inv (s\<lparr>g_thread_type := x\<rparr>) L B held = ob_inv s L B held"
  "ob_inv (s\<lparr>g_semaphore_type := x\<rparr>) L B held = ob_inv s L B held" "threads_ok (s\<lparr>g_event_type := x\<rparr>) L B = threads_ok s L B"
  "threads_ok (s\<lparr>g_thread_type := x\<rparr>) L B = threads_ok s L B" "threads_ok (s\<lparr>g_semaphore_type := x\<rparr>) L B = threads_ok s L B"
proof -
  have "ob_own (s\<lparr>g_event_type := x\<rparr>) B = ob_own s B" "ob_own (s\<lparr>g_thread_type := x\<rparr>) B = ob_own s B"
    "ob_own (s\<lparr>g_semaphore_type := x\<rparr>) B = ob_own s B" by (rule ob_own_cong; simp)+
  then show "threads_ok (s\<lparr>g_event_type := x\<rparr>) L B = threads_ok s L B" "threads_ok (s\<lparr>g_thread_type := x\<rparr>) L B = threads_ok s L B"
    "threads_ok (s\<lparr>g_semaphore_type := x\<rparr>) L B = threads_ok s L B" by (simp_all add: threads_ok_def)
qed (rule ob_inv_cong; simp)+

lemma initialize_inv:
  fixes s :: "'z ps_state_scheme"
  assumes boot: "ps_boot s base" and c: "PsInitialize s = Some s'" and nz: "0 \<notin> ps_types s'"
  shows "ps_rel s' base"
proof -
  from boot obtain L B where i: "ob_inv s L B base" "threads_ok s L B" by (auto simp: ps_boot_def)
  from c obtain e s1 t s2 m s3 where c1: "ObCreateObjectType (cstr ''Event'') NoDelete s = Some (e, s1)"
    and c2: "ObCreateObjectType (cstr ''Thread'') NoDelete (s1\<lparr>g_event_type := e\<rparr>) = Some (t, s2)"
    and c3: "ObCreateObjectType (cstr ''Semaphore'') NoDelete (s2\<lparr>g_thread_type := t\<rparr>) = Some (m, s3)"
    and s': "s' = s3\<lparr>g_semaphore_type := m\<rparr>" by (auto simp: PsInitialize_def split: bind_splits)
  have "ps_types s' = {e, t, m}"
    using c2 c3 by (auto simp: s' ps_types_def ObCreateObjectType_def Let_def split: bind_splits if_splits)
  then have nz: "e \<noteq> 0" "t \<noteq> 0" "m \<noteq> 0" "ps_types s' = {e, t, m}" using nz by auto
  from i(1) c1 nz(1) i(2) obtain L1 where j1: "ob_inv s1 L1 B base" "threads_ok s1 L1 B" "g_type_list s1 = g_type_list s @ [e]"
    "ob_state.more s1 = ob_state.more s" "headers s1 = headers s" "directories s1 = directories s" "\<forall>h \<in> B. oh_Type (headers s h) \<noteq> e"
    by (rule type_inv)
  let ?s1 = "s1\<lparr>g_event_type := e\<rparr>"
  have k1: "ob_inv ?s1 L1 B base" "threads_ok ?s1 L1 B" using j1(1,2) by simp_all
  from k1(1) c2 nz(2) k1(2) obtain L2 where j2: "ob_inv s2 L2 B base" "threads_ok s2 L2 B" "g_type_list s2 = g_type_list ?s1 @ [t]"
    "ob_state.more s2 = ob_state.more ?s1" "headers s2 = headers ?s1" "directories s2 = directories ?s1" "\<forall>h \<in> B. oh_Type (headers ?s1 h) \<noteq> t"
    by (rule type_inv)
  let ?s2 = "s2\<lparr>g_thread_type := t\<rparr>"
  have k2: "ob_inv ?s2 L2 B base" "threads_ok ?s2 L2 B" using j2(1,2) by simp_all
  from k2(1) c3 nz(3) k2(2) obtain L3 where j3: "ob_inv s3 L3 B base" "threads_ok s3 L3 B" "g_type_list s3 = g_type_list ?s2 @ [m]"
    "ob_state.more s3 = ob_state.more ?s2" "headers s3 = headers ?s2" "directories s3 = directories ?s2" "\<forall>h \<in> B. oh_Type (headers ?s2 h) \<noteq> m"
    by (rule type_inv)
  have more: "ke s3 = ke s" "wait_objects s3 = wait_objects s"
    using ps_more(1,2) [OF j1(4)] ps_more(1,2) [OF j2(4)] ps_more(1,2) [OF j3(4)] by simp_all
  have b: "ke_good (ke s)" "frames (ke s) = (\<lambda>_. None)" "wait_objects s = (\<lambda>_. [])"
    "\<forall>t \<in> set (ThreadListHead (ke s)). TerminationObject (threads (ke s) t) = 0" using boot by (simp_all add: ps_boot_def)
  have refs: "ps_refs s' ob = 0" for ob using b(4) by (simp add: ps_refs_def thread_refs_def s' more b(3))
  have "objects_ok s' B"
    unfolding objects_ok_def nz(4) refs using j1(7) j2(7) j3(7) by (auto simp: s' j3(3,5) j2(3,5) j1(3,5))
  moreover have "waits_ok s'" by (simp add: waits_ok_def s' more b(2,3))
  moreover have "ob_inv s' L3 B (\<lambda>ob. base ob + ps_refs s' ob)" using j3(1) by (simp add: refs) (simp add: s')
  ultimately have "ps_inv s' L3 B base" using b(1) j3(2) by (simp add: ps_inv_def) (simp add: s' more)
  then show ?thesis by (rule ps_relI)
qed

section \<open>The machine\<close>

text \<open>A thread in user or kernel mode, not in the middle of a blocked wait.\<close>

definition running :: "'z ps_state_scheme \<Rightarrow> bool" where
  "running s \<longleftrightarrow> frames (ke s) (g_current_thread (ke s)) = None \<and> g_current_thread (ke s) \<noteq> g_idle_thread (ke s)"

text \<open>The steps: a service called by the running thread, a blocked wait that goes on, the end of the running thread, a yield, the
  clock interrupt, and user code writing its memory. A handle is not closed when it is the last reference to a directory with
  entries (the code only logs a warning there).\<close>

inductive ps_step :: "(u64 \<Rightarrow> nat) \<Rightarrow> 'z ps_state_scheme \<Rightarrow> 'z ps_state_scheme \<Rightarrow> bool" for base where
  create_event: "running s \<Longrightarrow> few s base \<Longrightarrow> NtCreateEvent a s = Some (st, s') \<Longrightarrow> ps_step base s s'"
| create_notification: "running s \<Longrightarrow> few s base \<Longrightarrow> PsCreateNotificationEvent s = Some (st, r, s') \<Longrightarrow> ps_step base s s'"
| set_event: "running s \<Longrightarrow> few s base \<Longrightarrow> NtSetEvent a s = Some (st, s') \<Longrightarrow> ps_step base s s'"
| reset_event: "running s \<Longrightarrow> few s base \<Longrightarrow> NtResetEvent a s = Some (st, s') \<Longrightarrow> ps_step base s s'"
| create_semaphore: "running s \<Longrightarrow> few s base \<Longrightarrow> NtCreateSemaphore a s = Some (st, s') \<Longrightarrow> ps_step base s s'"
| release_semaphore: "running s \<Longrightarrow> few s base \<Longrightarrow> NtReleaseSemaphore a s = Some (st, s') \<Longrightarrow> ps_step base s s'"
| wait_single: "running s \<Longrightarrow> few s base \<Longrightarrow> NtWaitForSingleObject a s = Some (r, s') \<Longrightarrow> ps_step base s s'"
| wait_multiple: "running s \<Longrightarrow> few s base \<Longrightarrow> NtWaitForMultipleObjects a s = Some (r, s') \<Longrightarrow> ps_step base s s'"
| resume: "frames (ke s) (g_current_thread (ke s)) = Some f \<Longrightarrow> NtResumeWait f s = Some (r, s') \<Longrightarrow> ps_step base s s'"
| create_thread: "running s \<Longrightarrow> few s base \<Longrightarrow> NtCreateThreadEx a s = Some (st, s') \<Longrightarrow> ps_step base s s'"
| close: "running s \<Longrightarrow> few s base \<Longrightarrow> (ObGetReferenceCount s (handle_object s h) = 1 \<longrightarrow> directories s (handle_object s h) = []) \<Longrightarrow>
    ObCloseHandle h s = Some (st, s') \<Longrightarrow> ps_step base s s'"
| terminate: "running s \<Longrightarrow> KeTerminateThread s = Some s' \<Longrightarrow> ps_step base s s'"
| yield: "ps_step base s (s\<lparr>ke := KeYield (ke s)\<rparr>)"
| tick: "ps_step base s (s\<lparr>ke := KeClockTick (ke s)\<rparr>)"
| user: "ps_step base s (put_user f s)"

lemma ps_step_inv: "ps_step base s s' \<Longrightarrow> ps_rel s base \<Longrightarrow> ps_rel s' base"
proof (induction rule: ps_step.induct)
  case (set_event s a st s')
  then obtain L B where "ps_inv s L B base" by (auto simp: ps_rel_def)
  from set_event_inv [OF this set_event(2), of a] set_event(3) show ?case by auto
next
  case (reset_event s a st s')
  then obtain L B where "ps_inv s L B base" by (auto simp: ps_rel_def)
  from reset_event_inv [OF this reset_event(2), of a] reset_event(3) show ?case by auto
next
  case (release_semaphore s a st s')
  then obtain L B where "ps_inv s L B base" by (auto simp: ps_rel_def)
  from release_semaphore_inv [OF this release_semaphore(2), of a] release_semaphore(3) show ?case by auto
next
  case (wait_single s a r s')
  then obtain L B where "ps_inv s L B base" by (auto simp: ps_rel_def)
  from wait_single_inv [OF this wait_single(2), of a] wait_single(1,3) show ?case by (auto simp: running_def)
next
  case (wait_multiple s a r s')
  then obtain L B where "ps_inv s L B base" by (auto simp: ps_rel_def)
  from wait_multiple_inv [OF this wait_multiple(2), of a] wait_multiple(1,3) show ?case by (auto simp: running_def)
next
  case (resume s f r s')
  then obtain L B where "ps_inv s L B base" by (auto simp: ps_rel_def)
  from resume_inv [OF this resume(1)] resume(2) show ?case by auto
next
  case (close s h st s')
  then obtain L B where "ps_inv s L B base" by (auto simp: ps_rel_def)
  from close_inv [OF this close(2,3)] close(4) show ?case by auto
next
  case (terminate s s')
  then obtain L B where "ps_inv s L B base" by (auto simp: ps_rel_def)
  from terminate_inv [OF this] terminate(1,2) show ?case by (auto simp: running_def)
next
  case (yield s)
  then obtain L B where i: "ps_inv s L B base" by (auto simp: ps_rel_def)
  then have "ke_good (ke s)" by (simp add: ps_inv_def)
  then show ?case by (intro ps_relI [of _ L B] ps_inv_ke [OF i]) (simp_all add: yield_good, simp_all add: KeYield_def)
next
  case (tick s)
  then obtain L B where i: "ps_inv s L B base" by (auto simp: ps_rel_def)
  then have "ke_good (ke s)" by (simp add: ps_inv_def)
  then show ?case by (intro ps_relI [of _ L B] ps_inv_ke [OF i]) (simp_all add: tick_good)
next
  case (user s f)
  then show ?case by simp
qed (metis ps_rel_def create_event_inv create_notification_inv create_semaphore_inv create_thread_ex_inv)+

interpretation ps_machine: transition_system "ps_step base" "\<lambda>s. ps_rel s base"
  by unfold_locales (rule ps_step_inv)

section \<open>Properties\<close>

text \<open>With room in the pool the services that create events and semaphores return, too.\<close>

lemma create_event_returns:
  assumes inv: "ps_inv s L B base" and few: "few s base" and room: "pool_room (pool s) L' 300"
  shows "NtCreateEvent a s \<noteq> None" "PsCreateNotificationEvent s \<noteq> None"
proof -
  have "need_of (OB_HDR + SIZEOF_KEVENT) + 64 \<le> 300" by (simp add: need_of_def)
  from create_object_room [OF room ps_type_nonzero [OF inv ps_types_intros(1)] this] obtain ob s1 where
    c1: "ObCreateObject (g_event_type s) SIZEOF_KEVENT s = Some (STATUS_SUCCESS, ob, s1)" by auto
  have n: "unat SIZEOF_KEVENT \<le> 2 ^ 60" by simp
  have p: "\<exists>st h s3 s4. ObCreateHandle ob GENERIC_ALL (s1\<lparr>ke := upd_disp ob f (ke s1)\<rparr>) = (st, h, s3) \<and> ObDereferenceObject ob s3 = Some s4"
    if "\<And>d. WaitListHead (f d) = []" for f
    using ps_create_publish [OF inv few ps_types_intros(1) n c1, of f] that by auto
  obtain ok where ok: "MmProbeForWrite (mm (pool s)) (a 0) 8 = Some ok" using MmProbeForWrite_total by blast
  from p [of "\<lambda>d. d\<lparr>d_Type := (if a 3 = 0 then EventNotificationObject else EventSynchronizationObject),
       SignalState := (if (ucast (a 4) :: u8) \<noteq> 0 then 1 else 0), WaitListHead := []\<rparr>"] ok c1
  show "NtCreateEvent a s \<noteq> None" by (cases ok) (auto simp: NtCreateEvent_def KeInitializeEvent_def)
  from p [of "\<lambda>d. d\<lparr>d_Type := EventNotificationObject, SignalState := 0, WaitListHead := []\<rparr>"] c1
  show "PsCreateNotificationEvent s \<noteq> None" by (auto simp: PsCreateNotificationEvent_def KeInitializeEvent_def)
qed

lemma create_semaphore_returns:
  assumes inv: "ps_inv s L B base" and few: "few s base" and room: "pool_room (pool s) L' 300"
  shows "NtCreateSemaphore a s \<noteq> None"
proof -
  have "need_of (OB_HDR + SIZEOF_KSEMAPHORE) + 64 \<le> 300" by (simp add: need_of_def)
  from create_object_room [OF room ps_type_nonzero [OF inv ps_types_intros(3)] this] obtain ob s1 where
    c1: "ObCreateObject (g_semaphore_type s) SIZEOF_KSEMAPHORE s = Some (STATUS_SUCCESS, ob, s1)" by auto
  have n: "unat SIZEOF_KSEMAPHORE \<le> 2 ^ 60" by simp
  let ?f = "\<lambda>d. d\<lparr>d_Type := SemaphoreObject, SignalState := ucast (a 3), Limit := ucast (a 4), WaitListHead := []\<rparr>"
  have p: "\<exists>st h s3 s4. ObCreateHandle ob GENERIC_ALL (s1\<lparr>ke := upd_disp ob ?f (ke s1)\<rparr>) = (st, h, s3) \<and> ObDereferenceObject ob s3 = Some s4"
    using ps_create_publish [OF inv few ps_types_intros(3) n c1, of ?f] by auto
  obtain ok where ok: "MmProbeForWrite (mm (pool s)) (a 0) 8 = Some ok" using MmProbeForWrite_total by blast
  from p ok c1 show ?thesis by (cases ok) (auto simp: NtCreateSemaphore_def KeInitializeSemaphore_def Let_def)
qed

text \<open>(C34) Dispatcher objects outlive their waits. After \<^verbatim>\<open>PsInitialize\<close> and any sequence of event, semaphore, wait, thread and close
  services, thread ends, yields and clock ticks: an object on whose wait list a thread is, and the termination object of a
  thread that has not ended, is a live pool block, and its reference count is at least the number of references the
  blocked waits and the threads hold on it, which is positive. In every such state a blocked wait that goes on returns; and where
  the reference counts leave room for one service more, setting, resetting and releasing, both waits, closing a handle (other than the last
  reference to a directory with entries) and ending the thread return for every argument vector, and with 300 bytes of room in
  the pool the creation of events and semaphores returns as well: none runs into a bugcheck of the object manager or the pool.
  That \<^verbatim>\<open>NtCreateThreadEx\<close> returns is not claimed: it maps pages, and the kernel bugchecks when no frame is left for a page table.\<close>

theorem dispatcher_objects_live:
  fixes s0 :: "'z ps_state_scheme"
  assumes boot: "ps_boot s0 base" and init: "PsInitialize s0 = Some s1" "0 \<notin> ps_types s1" and run: "(ps_step base)\<^sup>*\<^sup>* s1 s"
  shows "(\<exists>L. pool_rel (pool s) L \<and>
      (\<forall>t i h. (t, i) \<in> set (WaitListHead (disp (ke s) h)) \<longrightarrow>
         ObHeaderFromObject h \<in> dom L \<and> 0 < ps_refs s h \<and> ps_refs s h \<le> unat (ObGetReferenceCount s h)) \<and>
      (\<forall>t \<in> set (ThreadListHead (ke s)). TerminationObject (threads (ke s) t) \<noteq> 0 \<longrightarrow>
         ObHeaderFromObject (TerminationObject (threads (ke s) t)) \<in> dom L \<and>
         0 < ps_refs s (TerminationObject (threads (ke s) t)) \<and>
         ps_refs s (TerminationObject (threads (ke s) t)) \<le> unat (ObGetReferenceCount s (TerminationObject (threads (ke s) t))))) \<and>
    (\<forall>f. frames (ke s) (g_current_thread (ke s)) = Some f \<longrightarrow> NtResumeWait f s \<noteq> None) \<and>
    (running s \<and> few s base \<longrightarrow> (\<forall>a. NtSetEvent a s \<noteq> None \<and> NtResetEvent a s \<noteq> None \<and> NtReleaseSemaphore a s \<noteq> None \<and>
       NtWaitForSingleObject a s \<noteq> None \<and> NtWaitForMultipleObjects a s \<noteq> None) \<and> KeTerminateThread s \<noteq> None \<and>
       (\<forall>h. (ObGetReferenceCount s (handle_object s h) = 1 \<longrightarrow> directories s (handle_object s h) = []) \<longrightarrow> ObCloseHandle h s \<noteq> None) \<and>
       ((\<exists>L. pool_room (pool s) L 300) \<longrightarrow>
          PsCreateNotificationEvent s \<noteq> None \<and> (\<forall>a. NtCreateEvent a s \<noteq> None \<and> NtCreateSemaphore a s \<noteq> None)))"
proof (intro conjI impI)
  have "ps_rel s base" using ps_machine.steps_inv [OF run] initialize_inv [OF boot init] by blast
  then obtain L B where inv: "ps_inv s L B base" by (auto simp: ps_rel_def)
  let ?H = "\<lambda>ob. base ob + ps_refs s ob"
  have oi: "ob_inv s L B ?H" using inv by (simp add: ps_inv_def)
  have live: "ObHeaderFromObject h \<in> dom L" "ps_refs s h \<le> unat (ObGetReferenceCount s h)" if "0 < ps_refs s h" for h
  proof -
    have hB: "ObHeaderFromObject h \<in> B" using ps_refs_live [OF inv, of h] that by simp
    then show "ObHeaderFromObject h \<in> dom L" using oi by (fastforce simp: ob_inv_def blocks_ok_def)
    show "ps_refs s h \<le> unat (ObGetReferenceCount s h)" unfolding refcount_one(1) [OF oi hB] by (simp add: nrefs_def)
  qed
  have tref: "0 < ps_refs s (TerminationObject (threads (ke s) t))"
    if "t \<in> set (ThreadListHead (ke s))" "TerminationObject (threads (ke s) t) \<noteq> 0" for t
  proof -
    have "0 < thread_refs s t (TerminationObject (threads (ke s) t))" using that(2) by (simp add: thread_refs_def)
    also have "\<dots> \<le> ps_refs s (TerminationObject (threads (ke s) t))" unfolding ps_refs_def by (rule member_le_sum [OF that(1)]) simp_all
    finally show ?thesis .
  qed
  show "\<exists>L. pool_rel (pool s) L \<and>
      (\<forall>t i h. (t, i) \<in> set (WaitListHead (disp (ke s) h)) \<longrightarrow>
         ObHeaderFromObject h \<in> dom L \<and> 0 < ps_refs s h \<and> ps_refs s h \<le> unat (ObGetReferenceCount s h)) \<and>
      (\<forall>t \<in> set (ThreadListHead (ke s)). TerminationObject (threads (ke s) t) \<noteq> 0 \<longrightarrow>
         ObHeaderFromObject (TerminationObject (threads (ke s) t)) \<in> dom L \<and>
         0 < ps_refs s (TerminationObject (threads (ke s) t)) \<and>
         ps_refs s (TerminationObject (threads (ke s) t)) \<le> unat (ObGetReferenceCount s (TerminationObject (threads (ke s) t))))"
    using oi live waited_refs [OF inv] tref by (intro exI [of _ L]) (auto simp: ob_inv_def)
  show "\<forall>f. frames (ke s) (g_current_thread (ke s)) = Some f \<longrightarrow> NtResumeWait f s \<noteq> None"
    using resume_inv [OF inv] by (metis option.distinct(1))
  assume r: "running s \<and> few s base"
  then have f: "few s base" and fr: "frames (ke s) (g_current_thread (ke s)) = None" "g_current_thread (ke s) \<noteq> g_idle_thread (ke s)"
    by (simp_all add: running_def)
  show "\<forall>a. NtSetEvent a s \<noteq> None \<and> NtResetEvent a s \<noteq> None \<and> NtReleaseSemaphore a s \<noteq> None \<and>
       NtWaitForSingleObject a s \<noteq> None \<and> NtWaitForMultipleObjects a s \<noteq> None"
    using set_event_inv [OF inv f] reset_event_inv [OF inv f] release_semaphore_inv [OF inv f] wait_single_inv [OF inv f fr]
      wait_multiple_inv [OF inv f fr] by (metis option.distinct(1))
  show "KeTerminateThread s \<noteq> None" using terminate_inv [OF inv fr(2)] by auto
  show "\<forall>h. (ObGetReferenceCount s (handle_object s h) = 1 \<longrightarrow> directories s (handle_object s h) = []) \<longrightarrow> ObCloseHandle h s \<noteq> None"
    using close_inv [OF inv f] by (metis option.distinct(1))
  assume "\<exists>L. pool_room (pool s) L 300"
  then obtain L' where room: "pool_room (pool s) L' 300" by blast
  show "PsCreateNotificationEvent s \<noteq> None" by (rule create_event_returns(2) [OF inv f room])
  show "\<forall>a. NtCreateEvent a s \<noteq> None \<and> NtCreateSemaphore a s \<noteq> None"
    using create_event_returns(1) [OF inv f room] create_semaphore_returns [OF inv f room] by blast
qed

lemma ceiling_div:
  fixes d :: nat
  shows "d \<le> (d + 99999) div 100000 * 100000" "(d + 99999) div 100000 * 100000 < d + 100000"
  by linarith+

lemma ticks_ceiling:
  assumes "unat (x :: u64) \<le> 2 ^ 63"
  shows "unat ((x + 99999) div 100000) = (unat x + 99999) div 100000"
proof -
  have "unat (x + 99999) = unat x + 99999" using assms by (subst unat_add_lem [THEN iffD1]) simp_all
  then show ?thesis by (simp add: unat_div)
qed

lemma int_unat_sint: "0 \<le> sint (v :: u64) \<Longrightarrow> int (unat v) = sint v"
proof -
  assume n: "0 \<le> sint v"
  have "sint v < 2 ^ 63" using sint_less [of v] by simp
  moreover have "uint v = sint v mod 2 ^ 64" using uint_sint [of v] by (simp only: take_bit_eq_mod len_num0 len_bit0 len_of_numeral_defs) simp
  ultimately show ?thesis using n by simp
qed

lemma neg_mod: "(x :: int) < 0 \<Longrightarrow> - (2 ^ 63) \<le> x \<Longrightarrow> (- (x mod 2 ^ 64)) mod 2 ^ 64 = - x"
  by (simp add: mod_minus_eq)

lemma int_unat_neg_sint: "sint (v :: u64) < 0 \<Longrightarrow> int (unat (- v)) = - sint v"
proof -
  assume n: "sint v < 0"
  have r: "- (2 ^ 63) \<le> sint v" using sint_greater_eq [of v] by simp
  have "uint v = sint v mod 2 ^ 64" using uint_sint [of v] by (simp add: take_bit_eq_mod)
  moreover have "uint (- v) = (- uint v) mod 2 ^ 64" using uint_word_ariths(4) [of v] by simp
  ultimately have "uint (- v) = (- (sint v mod 2 ^ 64)) mod 2 ^ 64" by (simp only:)
  also have "\<dots> = - sint v" by (rule neg_mod [OF n r])
  finally show ?thesis by (simp only: unat_eq_nat_uint int_nat_eq) (use n in simp)
qed

lemma infinite_large: "\<not> unat INFINITE_TICKS < 2 ^ 63"
  by simp

text \<open>(C35) The ticks of a timeout. A null pointer, or one that cannot be read, means no limit. Otherwise the result is never the value
  that means no limit, and it is exact: the interval (a negative value counts from now, a positive one is a deadline on the
  since-boot clock, in units of 100 ns) is covered by that many ticks of 10 ms and not by fewer; a deadline that has passed
  gives 0.\<close>

theorem timeout_to_ticks_exact:
  "\<exists>n. timeout_to_ticks timeout s = Some n \<and>
     (if timeout = 0 \<or> MmProbeForRead (mm (pool s)) timeout 8 = Some False then n = INFINITE_TICKS
      else n \<noteq> INFINITE_TICKS \<and>
        (let v = sint (read64 (mm (pool s)) timeout); now = int (unat (g_tick_count (ke s) * 100000));
             interval = (if v < 0 then - v else if v \<le> now then 0 else v - now)
         in interval \<le> int (unat n) * 100000 \<and> int (unat n) * 100000 < interval + 100000))"
proof -
  define v where "v = read64 (mm (pool s)) timeout"
  define now where "now = g_tick_count (ke s) * 100000"
  obtain ok where ok: "MmProbeForRead (mm (pool s)) timeout 8 = Some ok" using MmProbeForRead_total by blast
  show ?thesis
  proof (cases "timeout = 0 \<or> \<not> ok")
    case True
    then show ?thesis using ok by (auto simp: timeout_to_ticks_def)
  next
    case False
    define d where "d = (if sint v < 0 then - v else if v \<le> now then 0 else v - now)"
    have eq: "timeout_to_ticks timeout s = Some ((d + 99999) div 100000)"
      using False ok by (auto simp: timeout_to_ticks_def Let_def d_def v_def [symmetric] now_def [symmetric])
    have dn: "int (unat d) = (if sint v < 0 then - sint v else if sint v \<le> int (unat now) then 0 else sint v - int (unat now))"
    proof (cases "sint v < 0")
      case True
      then show ?thesis using int_unat_neg_sint [OF True] by (simp only: d_def if_True)
    next
      case f: False
      then have u: "int (unat v) = sint v" using int_unat_sint [of v] by linarith
      have l: "v \<le> now \<longleftrightarrow> sint v \<le> int (unat now)" unfolding word_le_nat_alt u [symmetric] by (rule of_nat_le_iff [symmetric])
      show ?thesis
      proof (cases "v \<le> now")
        case t: True
        then show ?thesis using f l by (simp only: d_def if_True if_False) simp
      next
        case g: False
        then have "unat (v - now) = unat v - unat now" "unat now \<le> unat v" by (simp_all add: unat_sub word_le_nat_alt)
        then have "int (unat (v - now)) = sint v - int (unat now)" using u by linarith
        then show ?thesis using f l g by (simp only: d_def if_False)
      qed
    qed
    have "sint v < 2 ^ 63" "- (2 ^ 63) \<le> sint v" using sint_less [of v] sint_greater_eq [of v] by simp_all
    then have "int (unat d) \<le> 2 ^ 63" unfolding dn
      by (cases "sint v < 0"; cases "sint v \<le> int (unat now)"; simp only: if_True if_False; linarith)
    then have b: "unat d \<le> 2 ^ 63"
      using of_nat_le_iff [where 'a = int, of "unat d" "2 ^ 63"] by (simp only: of_nat_power of_nat_numeral)
    let ?n = "(d + 99999) div 100000"
    note c = ticks_ceiling [OF b] ceiling_div [of "unat d"]
    have "unat ?n < 2 ^ 63" unfolding c(1) using b by (simp add: div_less_iff_less_mult)
    then have "?n \<noteq> INFINITE_TICKS" by (metis (no_types) infinite_large)
    moreover have "int (unat d) \<le> int (unat ?n) * 100000" "int (unat ?n) * 100000 < int (unat d) + 100000"
      using c by linarith+
    moreover have "\<not> (timeout = 0 \<or> MmProbeForRead (mm (pool s)) timeout 8 = Some False)" using False ok by simp
    ultimately show ?thesis unfolding eq v_def [symmetric] now_def [symmetric] Let_def dn [symmetric]
      by (intro exI [of _ ?n]) (simp only: if_False simp_thms)
  qed
qed

definition demo_ps :: "unit ps_state_ext kernel_ext" where
  "demo_ps = kernel_ext (KeInitializeScheduler demo_sched) (ps_state.fields 0 0 0 0x30000000 (\<lambda>_. []) (\<lambda>_ _. 0))"

lemma demo_ps_more: "ob_state.more s = demo_ps \<Longrightarrow> ke s = KeInitializeScheduler demo_sched \<and> wait_objects s = (\<lambda>_. [])"
  by (cases s rule: ps_state.cases_scheme) (simp add: demo_ps_def ps_state.defs)

lemma demo_ps_boot:
  assumes "ob_inv s L B held" "ob_state.more s = demo_ps"
  shows "ps_boot (s :: ps_state) held"
proof -
  have k: "ke s = KeInitializeScheduler demo_sched" "wait_objects s = (\<lambda>_. [])" using demo_ps_more [OF assms(2)] by simp_all
  have f: "g_idle_thread (ke s) = 0x1000" "ThreadListHead (ke s) = [0x1000]" "frames (ke s) = (\<lambda>_. None)"
    "TerminationObject (threads (ke s) 0x1000) = 0"
    by (simp_all add: k demo_sched_def) (simp add: KeInitializeScheduler_def Let_def zero_thread_def)
  have "threads_ok s L B" by (simp add: threads_ok_def f)
  moreover have "ke_good (ke s)" using demo_init_good k by simp
  ultimately show ?thesis using assms(1) k(2) f by (auto simp: ps_boot_def)
qed

theorem dispatcher_objects_live_witness:
  "\<exists>(s0 :: ps_state) s1. PsInitialize s0 = Some s1 \<and> (\<exists>base. ps_step base s1 (s1\<lparr>ke := KeClockTick (ke s1)\<rparr>)) \<and> (\<exists>L. pool_rel (pool s1) L \<and>
      (\<forall>t i h. (t, i) \<in> set (WaitListHead (disp (KeClockTick (ke s1)) h)) \<longrightarrow> ObHeaderFromObject h \<in> dom L))"
proof -
  obtain s :: ps_state and L B held ob where d: "ob_inv s L B held" "pool_room (pool s) L 65000" "ob_state.more s = demo_ps"
    by (rule demo_object [where z = demo_ps])
  from create_type_room [OF d(2), of "cstr ''Event''" NoDelete] obtain e s1 where
    e: "ObCreateObjectType (cstr ''Event'') NoDelete s = Some (e, s1)" "e \<noteq> 0" "pool_room (pool s1) (L(e \<mapsto> 48)) 64888" by auto
  then have "pool_room (pool (s1\<lparr>g_event_type := e\<rparr>)) (L(e \<mapsto> 48)) 64888" by simp
  from create_type_room [OF this, of "cstr ''Thread''" NoDelete] obtain t s2 L2 where
    t: "ObCreateObjectType (cstr ''Thread'') NoDelete (s1\<lparr>g_event_type := e\<rparr>) = Some (t, s2)" "t \<noteq> 0" "pool_room (pool s2) L2 64776" by auto
  then have "pool_room (pool (s2\<lparr>g_thread_type := t\<rparr>)) L2 64776" by simp
  from create_type_room [OF this, of "cstr ''Semaphore''" NoDelete] obtain m s3 where
    m: "ObCreateObjectType (cstr ''Semaphore'') NoDelete (s2\<lparr>g_thread_type := t\<rparr>) = Some (m, s3)" "m \<noteq> 0" by auto
  let ?s = "s3\<lparr>g_semaphore_type := m\<rparr>"
  have i: "PsInitialize s = Some ?s" using e t m by (simp add: PsInitialize_def)
  have "0 \<notin> ps_types ?s"
    using e(2) t m by (auto simp: ps_types_def ObCreateObjectType_def Let_def split: bind_splits if_splits)
  note ty = this
  have st: "ps_step held ?s (?s\<lparr>ke := KeClockTick (ke ?s)\<rparr>)" by (rule ps_step.tick)
  from dispatcher_objects_live [OF demo_ps_boot [OF d(1,3)] i ty r_into_rtranclp [where r = "ps_step held", OF st], THEN conjunct1]
  show ?thesis
  proof (elim exE conjE, goal_cases)
    case (1 L')
    have "pool_rel (pool ?s) L'" using 1(1) by simp
    moreover have "\<forall>t i h. (t, i) \<in> set (WaitListHead (disp (KeClockTick (ke ?s)) h)) \<longrightarrow> ObHeaderFromObject h \<in> dom L'" using 1(2) by auto
    ultimately show ?case using i st by blast
  qed
qed

end
