(* ===== verification/Nt_Message.thy ===== *)
theory Nt_Message
  imports Ps_Object Rtl_Ring
begin

text \<open>
  The window-message side of the system services, \<^verbatim>\<open>kernel/ke/syscall.c\<close>: one ring of posted messages per thread, the windows that owe a
  \<^verbatim>\<open>WM_PAINT\<close>, and the input event of a thread, which user code waits on. A queue is named by its index in
  \<^verbatim>\<open>g_user_thread_queues\<close>, a window by its slot. The code works on a queue with interrupts masked, so each operation is one step.
  Painting to the framebuffer and log lines are left out.

  \<open>msg_queue\<close> is the list of messages a ring stands for; \<open>user_inv\<close> says that the input event of every thread with work is set, over all
  sequences of these services.
\<close>

section \<open>State\<close>

record USER_MSG =
  m_Hwnd :: u64
  m_Message :: u32
  m_WParam :: u64
  m_LParam :: u64
  m_Time :: u32
  m_PtX :: u32
  m_PtY :: u32

record USER_MSG_QUEUE =
  Msgs :: "u32 \<Rightarrow> USER_MSG"
  q_Head :: u32
  q_Tail :: u32
  InputEvent :: u64
  InputEventHandle :: u64

record user_state = ps_state +
  g_user_thread_queues :: "u32 \<Rightarrow> USER_MSG_QUEUE"
  g_window_owner :: "u16 \<Rightarrow> u32"
  g_window_update :: "u16 \<Rightarrow> u8"
  g_user_active_hwnd :: u64
  g_user_mouse_buttons :: u8
  g_win_kind :: "u16 \<Rightarrow> u8"
  g_win_w :: "u16 \<Rightarrow> u32"
  g_win_h :: "u16 \<Rightarrow> u32"

abbreviation "USER_MESSAGE_QUEUE_CAPACITY \<equiv> (64 :: u32)"
abbreviation "USER_MAX_THREAD_QUEUES \<equiv> (64 :: u32)"
abbreviation "USER_PAINT_SLOTS \<equiv> (128 :: u16)"
abbreviation "USER_PAINT_REDELIVERY \<equiv> (4 :: u8)"
abbreviation "WM_PAINT \<equiv> (0x000F :: u32)"
abbreviation "WM_QUIT \<equiv> (0x0012 :: u32)"
abbreviation "WM_CHAR \<equiv> (0x0102 :: u32)"
abbreviation "WM_MOUSEMOVE \<equiv> (0x0200 :: u32)"
abbreviation "WM_LBUTTONDOWN \<equiv> (0x0201 :: u32)"
abbreviation "WM_LBUTTONUP \<equiv> (0x0202 :: u32)"
abbreviation "WM_RBUTTONDOWN \<equiv> (0x0204 :: u32)"
abbreviation "WM_RBUTTONUP \<equiv> (0x0205 :: u32)"
abbreviation "ONEPARAM_GETINPUTEVENT \<equiv> (0x32 :: u64)"

definition upd_queue :: "u32 \<Rightarrow> (USER_MSG_QUEUE \<Rightarrow> USER_MSG_QUEUE) \<Rightarrow> 'z user_state_scheme \<Rightarrow> 'z user_state_scheme" where
  "upd_queue q f s = s\<lparr>g_user_thread_queues := (g_user_thread_queues s)(q := f (g_user_thread_queues s q))\<rparr>"

text \<open>The thread id of the running thread, 0 when there is none.\<close>

definition current_tid :: "'z kernel_scheme \<Rightarrow> u32" where
  "current_tid s = (let thread = g_current_thread (ke s) in if thread = 0 then 0 else ThreadId (threads (ke s) thread))"

section \<open>Queues and the input event\<close>

definition KiUserQueueForThread :: "u32 \<Rightarrow> u32 option" where
  "KiUserQueueForThread thread_id = (if thread_id = 0 \<or> USER_MAX_THREAD_QUEUES < thread_id then None else Some (thread_id - 1))"

definition KiUserWindowOwner :: "u64 \<Rightarrow> 'z user_state_scheme \<Rightarrow> u32" where
  "KiUserWindowOwner hwnd s =
     (let win = ucast (hwnd AND 0xFFFF) :: u16 in if win = 0 \<or> 128 \<le> win then 0 else g_window_owner s win)"

text \<open>The slots that the paint loop visits, in its order.\<close>

definition paint_slots :: "u16 list" where
  "paint_slots = map of_nat [1..<128]"

definition KiUserNextUpdateWindow :: "u32 \<Rightarrow> 'z user_state_scheme \<Rightarrow> u16" where
  "KiUserNextUpdateWindow tid s =
     (if tid = 0 then 0
      else case find (\<lambda>win. g_window_update s win \<noteq> 0 \<and> g_window_owner s win = tid) paint_slots of
        None \<Rightarrow> 0 | Some win \<Rightarrow> win)"

definition KiUserSyncInputEvent :: "u32 \<Rightarrow> 'z user_state_scheme \<Rightarrow> 'z user_state_scheme" where
  "KiUserSyncInputEvent q s =
     (let queue = g_user_thread_queues s q; event = InputEvent queue
      in if event = 0 then s
         else if q_Head queue \<noteq> q_Tail queue \<or> KiUserNextUpdateWindow (q + 1) s \<noteq> 0
         then s\<lparr>ke := snd (KeSetEvent event (ke s))\<rparr>
         else s\<lparr>ke := KeResetEvent event (ke s)\<rparr>)"

section \<open>Posting\<close>

text \<open>The common tail of the two functions that post: store at the head unless the ring is full.\<close>

definition queue_put :: "u32 \<Rightarrow> USER_MSG \<Rightarrow> 'z user_state_scheme \<Rightarrow> bool \<times> 'z user_state_scheme" where
  "queue_put q msg s =
     (let queue = g_user_thread_queues s q; nxt = (q_Head queue + 1) mod USER_MESSAGE_QUEUE_CAPACITY
      in if nxt = q_Tail queue then (False, s)
         else (True, KiUserSyncInputEvent q
           (upd_queue q (\<lambda>x. x\<lparr>Msgs := (Msgs x)(q_Head x := msg), q_Head := nxt\<rparr>) s)))"

definition message_time :: "'z kernel_scheme \<Rightarrow> u32" where
  "message_time s = ucast (g_tick_count (ke s) * 10)"

definition KiUserEnqueueMessage ::
    "u64 \<Rightarrow> u32 \<Rightarrow> u64 \<Rightarrow> u64 \<Rightarrow> u32 \<Rightarrow> u32 \<Rightarrow> 'z user_state_scheme \<Rightarrow> bool \<times> 'z user_state_scheme" where
  "KiUserEnqueueMessage hwnd message wparam lparam x y s =
     (let owner = (if hwnd \<noteq> 0 then KiUserWindowOwner hwnd s else 0);
          tid = (if owner = 0 then current_tid s else owner)
      in case KiUserQueueForThread tid of
           None \<Rightarrow> (False, s)
         | Some q \<Rightarrow> queue_put q \<lparr>m_Hwnd = hwnd, m_Message = message, m_WParam = wparam, m_LParam = lparam,
             m_Time = message_time s, m_PtX = x, m_PtY = y\<rparr> s)"

definition KiUserEnqueueThreadMessage ::
    "u32 \<Rightarrow> u32 \<Rightarrow> u64 \<Rightarrow> u64 \<Rightarrow> 'z user_state_scheme \<Rightarrow> bool \<times> 'z user_state_scheme" where
  "KiUserEnqueueThreadMessage target_tid message wparam lparam s =
     (case KiUserQueueForThread target_tid of
        None \<Rightarrow> (False, s)
      | Some q \<Rightarrow> queue_put q \<lparr>m_Hwnd = 0, m_Message = message, m_WParam = wparam, m_LParam = lparam,
          m_Time = message_time s, m_PtX = 0, m_PtY = 0\<rparr> s)"

definition KiUserQueueCharacter :: "u16 \<Rightarrow> 'z user_state_scheme \<Rightarrow> 'z user_state_scheme" where
  "KiUserQueueCharacter character s =
     (if g_user_active_hwnd s = 0 then s
      else snd (KiUserEnqueueMessage (g_user_active_hwnd s) WM_CHAR (ucast character) 1 0 0 s))"

definition KiUserQueueMouse :: "u32 \<Rightarrow> u32 \<Rightarrow> u8 \<Rightarrow> 'z user_state_scheme \<Rightarrow> 'z user_state_scheme" where
  "KiUserQueueMouse x y buttons s =
     (if g_user_active_hwnd s = 0 then s\<lparr>g_user_mouse_buttons := buttons\<rparr>
      else
        (let hwnd = g_user_active_hwnd s; changed = buttons XOR g_user_mouse_buttons s;
             wparam = (if buttons AND 1 \<noteq> 0 then 1 else 0) OR (if buttons AND 2 \<noteq> 0 then 2 else 0);
             lparam = ucast ((push_bit 16 (ucast (ucast y :: u16)) OR ucast (ucast x :: u16)) :: u32);
             s1 = snd (KiUserEnqueueMessage hwnd WM_MOUSEMOVE wparam lparam x y s);
             s2 = (if changed AND 1 \<noteq> 0 then snd (KiUserEnqueueMessage hwnd (if buttons AND 1 \<noteq> 0 then WM_LBUTTONDOWN else WM_LBUTTONUP)
                     wparam lparam x y s1) else s1);
             s3 = (if changed AND 2 \<noteq> 0 then snd (KiUserEnqueueMessage hwnd (if buttons AND 2 \<noteq> 0 then WM_RBUTTONDOWN else WM_RBUTTONUP)
                     wparam lparam x y s2) else s2)
         in s3\<lparr>g_user_mouse_buttons := buttons\<rparr>))"

section \<open>Update regions\<close>

definition sync_owner :: "u16 \<Rightarrow> 'z user_state_scheme \<Rightarrow> 'z user_state_scheme" where
  "sync_owner win s = (case KiUserQueueForThread (g_window_owner s win) of None \<Rightarrow> s | Some q \<Rightarrow> KiUserSyncInputEvent q s)"

definition KiUserInvalidateWindow :: "u16 \<Rightarrow> 'z user_state_scheme \<Rightarrow> 'z user_state_scheme" where
  "KiUserInvalidateWindow win s =
     (if win = 0 \<or> USER_PAINT_SLOTS \<le> win then s
      else sync_owner win (s\<lparr>g_window_update := (g_window_update s)(win := USER_PAINT_REDELIVERY)\<rparr>))"

definition KiUserValidateWindow :: "u16 \<Rightarrow> 'z user_state_scheme \<Rightarrow> 'z user_state_scheme" where
  "KiUserValidateWindow win s =
     (if win = 0 \<or> USER_PAINT_SLOTS \<le> win then s
      else sync_owner win (s\<lparr>g_window_update := (g_window_update s)(win := 0)\<rparr>))"

section \<open>Taking a message\<close>

definition paint_message :: "u16 \<Rightarrow> 'z kernel_scheme \<Rightarrow> USER_MSG" where
  "paint_message win s = \<lparr>m_Hwnd = 0x10000 OR ucast win, m_Message = WM_PAINT, m_WParam = 0, m_LParam = 0,
     m_Time = message_time s, m_PtX = 0, m_PtY = 0\<rparr>"

definition KiUserTakeMessage :: "bool \<Rightarrow> 'z user_state_scheme \<Rightarrow> USER_MSG option \<times> 'z user_state_scheme" where
  "KiUserTakeMessage remove s =
     (let tid = current_tid s
      in case KiUserQueueForThread tid of
           None \<Rightarrow> (None, s)
         | Some q \<Rightarrow>
             (let queue = g_user_thread_queues s q
              in if q_Tail queue = q_Head queue then
                   (let win = KiUserNextUpdateWindow tid s
                    in if win = 0 then (None, s)
                       else
                         (let msg = paint_message win s; count = g_window_update s win;
                              s1 = s\<lparr>g_window_update := (g_window_update s)(win := count - 1)\<rparr>
                          in if count = 0 then (Some msg, s)
                             else (Some msg, if count - 1 = 0 then KiUserSyncInputEvent q s1 else s1)))
                 else
                   (let msg = Msgs queue (q_Tail queue)
                    in (Some msg,
                        if remove then KiUserSyncInputEvent q
                          (upd_queue q (\<lambda>x. x\<lparr>q_Tail := (q_Tail x + 1) mod USER_MESSAGE_QUEUE_CAPACITY\<rparr>) s)
                        else s))))"

section \<open>Services\<close>

text \<open>The bytes of a \<^verbatim>\<open>USER_MSG_LOCAL\<close>; its padding and private fields are 0.\<close>

definition msg_bytes :: "USER_MSG \<Rightarrow> u8 list" where
  "msg_bytes m = le64 (m_Hwnd m) @ le32 (m_Message m) @ le32 0 @ le64 (m_WParam m) @ le64 (m_LParam m) @ le32 (m_Time m) @
     le32 (m_PtX m) @ le32 (m_PtY m) @ le32 0"

definition NtUserPeekMessage :: "(nat \<Rightarrow> u64) \<Rightarrow> 'z user_state_scheme \<Rightarrow> (u64 \<times> 'z user_state_scheme) option" where
  "NtUserPeekMessage a s =
     (if a 0 = 0 then Some (0, s)
      else do {
        ok \<leftarrow> MmProbeForWrite (mm (pool s)) (a 0) 48;
        if \<not> ok then Some (0, s)
        else
          (case KiUserTakeMessage ((ucast (a 4) :: u32) AND 1 \<noteq> 0) s of
             (None, s1) \<Rightarrow> Some (0, s1)
           | (Some msg, s1) \<Rightarrow> Some (1, put_user (store_bytes (a 0) (msg_bytes msg)) s1))
      })"

text \<open>\<^verbatim>\<open>NtUserGetMessage\<close> yields until there is a message: one turn of its loop either returns or gives up the processor, and the call
  goes on with another turn when its thread runs again. The buffer is probed only on entry, so that a later turn that finds it gone is
  undefined.\<close>

definition get_message_turn :: "(nat \<Rightarrow> u64) \<Rightarrow> 'z user_state_scheme \<Rightarrow> (u64 option \<times> 'z user_state_scheme) option" where
  "get_message_turn a s =
     (case KiUserTakeMessage True s of
        (None, s1) \<Rightarrow> Some (None, s1\<lparr>ke := KeYield (ke s1)\<rparr>)
      | (Some msg, s1) \<Rightarrow>
          do {
            ok \<leftarrow> MmProbeForWrite (mm (pool s1)) (a 0) 48;
            if \<not> ok then None
            else Some (Some (if m_Message msg = WM_QUIT then 0 else 1), put_user (store_bytes (a 0) (msg_bytes msg)) s1)
          })"

definition NtUserGetMessage :: "(nat \<Rightarrow> u64) \<Rightarrow> 'z user_state_scheme \<Rightarrow> (u64 option \<times> 'z user_state_scheme) option" where
  "NtUserGetMessage a s =
     (if a 0 = 0 then Some (Some (- 1), s)
      else do {
        ok \<leftarrow> MmProbeForWrite (mm (pool s)) (a 0) 48;
        if \<not> ok then Some (Some (- 1), s) else get_message_turn a s
      })"

definition NtUserWaitMessage :: "'z user_state_scheme \<Rightarrow> u64 option \<times> 'z user_state_scheme" where
  "NtUserWaitMessage s =
     (case KiUserTakeMessage False s of
        (None, s1) \<Rightarrow> (None, s1\<lparr>ke := KeYield (ke s1)\<rparr>)
      | (Some msg, s1) \<Rightarrow> (Some 0, s1))"

definition NtUserPostThreadMessage :: "(nat \<Rightarrow> u64) \<Rightarrow> 'z user_state_scheme \<Rightarrow> u64 \<times> 'z user_state_scheme" where
  "NtUserPostThreadMessage a s =
     (case KiUserEnqueueThreadMessage (ucast (a 0)) (ucast (a 1)) (a 2) (a 3) s of (ok, s1) \<Rightarrow> (of_bool ok, s1))"

definition NtUserPostMessage :: "(nat \<Rightarrow> u64) \<Rightarrow> 'z user_state_scheme \<Rightarrow> u64 \<times> 'z user_state_scheme" where
  "NtUserPostMessage a s =
     (case KiUserEnqueueMessage (a 0) (ucast (a 1)) (a 2) (a 3) 0 0 s of (ok, s1) \<Rightarrow> (of_bool ok, s1))"

definition KiUserGetInputEvent :: "'z user_state_scheme \<Rightarrow> (u64 \<times> 'z user_state_scheme) option" where
  "KiUserGetInputEvent s =
     (case KiUserQueueForThread (current_tid s) of
        None \<Rightarrow> Some (0, s)
      | Some q \<Rightarrow>
          if InputEvent (g_user_thread_queues s q) \<noteq> 0
          then Some (InputEventHandle (g_user_thread_queues s q), KiUserSyncInputEvent q s)
          else do {
            (st, r, s1) \<leftarrow> PsCreateNotificationEvent s;
            case r of
              None \<Rightarrow> Some (0, s1)
            | Some (event, handle) \<Rightarrow>
                if \<not> NT_SUCCESS st then Some (0, s1)
                else Some (handle, KiUserSyncInputEvent q (upd_queue q (\<lambda>x. x\<lparr>InputEvent := event, InputEventHandle := handle\<rparr>) s1))
          })"

definition NtUserCallOneParam :: "(nat \<Rightarrow> u64) \<Rightarrow> 'z user_state_scheme \<Rightarrow> (u64 \<times> 'z user_state_scheme) option" where
  "NtUserCallOneParam a s = (if a 1 = ONEPARAM_GETINPUTEVENT then KiUserGetInputEvent s else Some (0, s))"

definition NtUserInvalidateRect :: "(nat \<Rightarrow> u64) \<Rightarrow> 'z user_state_scheme \<Rightarrow> u64 \<times> 'z user_state_scheme" where
  "NtUserInvalidateRect a s = (1, KiUserInvalidateWindow (ucast (a 0 AND 0xFFFF)) s)"

definition NtUserValidateRect :: "(nat \<Rightarrow> u64) \<Rightarrow> 'z user_state_scheme \<Rightarrow> u64 \<times> 'z user_state_scheme" where
  "NtUserValidateRect a s = (1, KiUserValidateWindow (ucast (a 0 AND 0xFFFF)) s)"

definition NtUserRedrawWindow :: "(nat \<Rightarrow> u64) \<Rightarrow> 'z user_state_scheme \<Rightarrow> u64 \<times> 'z user_state_scheme" where
  "NtUserRedrawWindow a s =
     (let flags = ucast (a 3) :: u32; win = ucast (a 0 AND 0xFFFF)
      in (1, if flags AND 8 \<noteq> 0 then KiUserValidateWindow win s
             else if flags AND 1 \<noteq> 0 then KiUserInvalidateWindow win s else s))"

definition NtUserGetUpdateRect :: "(nat \<Rightarrow> u64) \<Rightarrow> 'z user_state_scheme \<Rightarrow> (u64 \<times> 'z user_state_scheme) option" where
  "NtUserGetUpdateRect a s =
     (let win = ucast (a 0 AND 0xFFFF) :: u16;
          dirty = win \<noteq> 0 \<and> win < USER_PAINT_SLOTS \<and> g_window_update s win \<noteq> 0;
          rect = le32 0 @ le32 0 @ le32 (if dirty then g_win_w s win else 0) @ le32 (if dirty then g_win_h s win else 0)
      in if a 1 = 0 then Some (of_bool dirty, s)
         else do {
           ok \<leftarrow> MmProbeForWrite (mm (pool s)) (a 1) 16;
           Some (of_bool dirty, if ok then put_user (store_bytes (a 1) rect) s else s)
         })"

text \<open>The window is no longer owned and no longer the active one; its update count stays as it is.\<close>

definition NtUserDestroyWindow :: "(nat \<Rightarrow> u64) \<Rightarrow> 'z user_state_scheme \<Rightarrow> u64 \<times> 'z user_state_scheme" where
  "NtUserDestroyWindow a s =
     (let win = ucast (a 0 AND 0xFFFF) :: u16
      in (1, if win \<noteq> 0 \<and> win < 128
             then s\<lparr>g_window_owner := (g_window_owner s)(win := 0), g_win_kind := (g_win_kind s)(win := 0),
               g_user_active_hwnd := (if g_user_active_hwnd s = a 0 then 0 else g_user_active_hwnd s)\<rparr>
             else s))"

definition NtUserGetForegroundWindow :: "'z user_state_scheme \<Rightarrow> u64" where
  "NtUserGetForegroundWindow s = g_user_active_hwnd s"

section \<open>Signals\<close>

text \<open>The scheduler and the wake-ups of the dispatcher change wait lists, never the type or the signal of an object.\<close>

definition same_signals :: "sched_state \<Rightarrow> sched_state \<Rightarrow> bool" where
  "same_signals k k' \<longleftrightarrow> (\<forall>h. d_Type (disp k' h) = d_Type (disp k h) \<and> SignalState (disp k' h) = SignalState (disp k h))"

lemma same_signals_refl [simp]: "same_signals k k"
  by (simp add: same_signals_def)

lemma same_signals_trans: "same_signals k k' \<Longrightarrow> same_signals k' k'' \<Longrightarrow> same_signals k k''"
  by (simp add: same_signals_def)

lemma same_signals_unlink: "same_signals k (fold (\<lambda>i. remove_wait_entry (t, i)) is k)"
proof (induction "is" arbitrary: k)
  case (Cons i js)
  have "same_signals k (remove_wait_entry (t, i) k)" by (simp add: same_signals_def remove_wait_entry_def)
  then show ?case using same_signals_trans Cons by simp
qed simp

lemma same_signals_disp: "disp k' = disp k \<Longrightarrow> same_signals k k'"
  by (simp add: same_signals_def)

lemma same_signals_wake: "same_signals k (KiWakeWaitingThread t st k)"
proof (cases "State (threads k t) = ThreadStateWaiting")
  case True
  have "disp (KiWakeWaitingThread t st k) = disp (KiUnlinkThreadWait t k)"
    using True by (simp add: KiWakeWaitingThread_def KiReadyThread_def upd_thread_def Let_def)
  then show ?thesis using same_signals_unlink [of k t] by (simp add: same_signals_def KiUnlinkThreadWait_def)
qed (simp add: KiWakeWaitingThread_def)

lemma same_signals_signal: "same_signals k (KiSignalObject h k)"
proof (induction h k rule: KiSignalObject.induct)
  case (1 h k)
  show ?case
  proof (cases "WaitListHead (disp k h)")
    case Nil
    then show ?thesis by (simp add: KiSignalObject.simps)
  next
    case (Cons e es)
    obtain t i where e: "e = (t, i)" by (cases e)
    let ?k = "upd_disp h (\<lambda>d. d\<lparr>WaitListHead := es\<rparr>) k"
    let ?w = "KiWakeWaitingThread (wb_Thread (WaitBlocks (threads ?k t) i)) STATUS_SUCCESS ?k"
    have "same_signals k ?k" by (simp add: same_signals_def upd_disp_def)
    moreover have "same_signals ?k ?w" by (rule same_signals_wake)
    moreover have "same_signals ?w (KiSignalObject h ?w)" using 1 [OF Cons e [symmetric] refl] by simp
    ultimately have "same_signals k (KiSignalObject h ?w)" using same_signals_trans by blast
    then show ?thesis using Cons e by (subst KiSignalObject.simps) (simp add: Let_def)
  qed
qed

lemma disp_schedule [simp]: "disp (KiSchedule k) = disp k"
  by (cases "g_ready_queue k"; simp add: KiSchedule_def KiSwitchContext_def KeSetCurrentThread_def KeSetKernelStack_def KeSetUserGsBase_def
      upd_thread_def Let_def)

lemma same_signals_yield [simp]: "same_signals k (KeYield k)"
  by (simp add: KeYield_def same_signals_disp)

lemma same_signals_expire: "same_signals k (fold expire_wait ts k)"
proof (induction ts arbitrary: k)
  case (Cons t ts)
  have "same_signals k (expire_wait t k)" by (simp add: expire_wait_def KiTimeoutThreadWait_def same_signals_wake)
  then show ?case using same_signals_trans Cons by simp
qed simp

lemma same_signals_tick [simp]: "same_signals k (KeClockTick k)"
proof -
  define k2 where "k2 = KeUpdateSharedData (g_tick_count (k\<lparr>g_tick_count := g_tick_count k + 1\<rparr>)) (k\<lparr>g_tick_count := g_tick_count k + 1\<rparr>)"
  have "disp k2 = disp k" by (simp add: k2_def)
  then have "same_signals k (fold expire_wait (ThreadListHead k2) k2)"
    using same_signals_expire [of k2 "ThreadListHead k2"] by (simp add: same_signals_def)
  then show ?thesis unfolding KeClockTick_def Let_def k2_def [symmetric] by (simp add: same_signals_def upd_thread_def)
qed

text \<open>What setting and resetting an event does to the signals.\<close>

lemma set_event_signals:
  "d_Type (disp (snd (KeSetEvent e k)) h) = d_Type (disp k h)"
  "SignalState (disp (snd (KeSetEvent e k)) h) = (if h = e then 1 else SignalState (disp k h))"
  using same_signals_signal [of "upd_disp e (\<lambda>d. d\<lparr>SignalState := 1\<rparr>) k" e]
  by (auto simp: KeSetEvent_def Let_def same_signals_def upd_disp_def)

lemma reset_event_signals:
  "d_Type (disp (KeResetEvent e k) h) = d_Type (disp k h)"
  "SignalState (disp (KeResetEvent e k) h) = (if h = e then 0 else SignalState (disp k h))"
  by (simp_all add: KeResetEvent_def upd_disp_def)

section \<open>Queues as lists\<close>

definition msg_queue :: "'z user_state_scheme \<Rightarrow> u32 \<Rightarrow> USER_MSG list" where
  "msg_queue s q = (let x = g_user_thread_queues s q in ring_view (Msgs x) (q_Head x) (q_Tail x))"

definition rings_ok :: "'z user_state_scheme \<Rightarrow> bool" where
  "rings_ok s \<longleftrightarrow> (\<forall>q. q_Head (g_user_thread_queues s q) < 64 \<and> q_Tail (g_user_thread_queues s q) < 64)"

text \<open>The window and queue state, without the input events.\<close>

lemma sync_user [simp]:
  "g_user_thread_queues (KiUserSyncInputEvent q s) = g_user_thread_queues s"
  "g_window_owner (KiUserSyncInputEvent q s) = g_window_owner s" "g_window_update (KiUserSyncInputEvent q s) = g_window_update s"
  "KiUserNextUpdateWindow tid (KiUserSyncInputEvent q s) = KiUserNextUpdateWindow tid s"
  "ob_state.truncate (KiUserSyncInputEvent q s) = ob_state.truncate s" "g_event_type (KiUserSyncInputEvent q s) = g_event_type s"
  "msg_queue (KiUserSyncInputEvent q s) = msg_queue s"
  by (simp_all add: KiUserSyncInputEvent_def KiUserNextUpdateWindow_def msg_queue_def ob_state.truncate_def Let_def fun_eq_iff)

lemma upd_queue_user [simp]:
  "g_user_thread_queues (upd_queue q f s) = (g_user_thread_queues s)(q := f (g_user_thread_queues s q))"
  "g_window_owner (upd_queue q f s) = g_window_owner s" "g_window_update (upd_queue q f s) = g_window_update s"
  "KiUserNextUpdateWindow tid (upd_queue q f s) = KiUserNextUpdateWindow tid s"
  "ob_state.truncate (upd_queue q f s) = ob_state.truncate s" "g_event_type (upd_queue q f s) = g_event_type s" "ke (upd_queue q f s) = ke s"
  by (simp_all add: upd_queue_def KiUserNextUpdateWindow_def ob_state.truncate_def)

lemma msg_queue_upd:
  "msg_queue (upd_queue q f s) = (msg_queue s)(q := (let x = f (g_user_thread_queues s q) in ring_view (Msgs x) (q_Head x) (q_Tail x)))"
  by (simp add: msg_queue_def fun_eq_iff)

lemma msg_queue_empty: "rings_ok s \<Longrightarrow> msg_queue s q = [] \<longleftrightarrow> q_Head (g_user_thread_queues s q) = q_Tail (g_user_thread_queues s q)"
  using ring_view_empty [of "q_Head (g_user_thread_queues s q)" "q_Tail (g_user_thread_queues s q)"] by (simp add: msg_queue_def rings_ok_def Let_def)

lemma queue_put_view:
  assumes "rings_ok s" "queue_put q msg s = (ok, s')"
  shows "ok \<longleftrightarrow> length (msg_queue s q) < 63" "msg_queue s' = (if ok then (msg_queue s)(q := msg_queue s q @ [msg]) else msg_queue s)"
    "rings_ok s'" "\<not> ok \<Longrightarrow> s' = s"
proof -
  let ?x = "g_user_thread_queues s q"
  have l: "q_Head ?x < 64" "q_Tail ?x < 64" using assms(1) by (auto simp: rings_ok_def)
  have full: "(q_Head ?x + 1) mod 64 = q_Tail ?x \<longleftrightarrow> \<not> length (msg_queue s q) < 63"
    using ring_full [OF l] ring_count_less [of "q_Head ?x" "q_Tail ?x"] by (auto simp: msg_queue_def Let_def)
  show ok: "ok \<longleftrightarrow> length (msg_queue s q) < 63" using assms(2) full by (auto simp: queue_put_def Let_def split: if_splits)
  show "\<not> ok \<Longrightarrow> s' = s" using assms(2) by (auto simp: queue_put_def Let_def split: if_splits)
  have s': "s' = KiUserSyncInputEvent q (upd_queue q (\<lambda>x. x\<lparr>Msgs := (Msgs x)(q_Head x := msg), q_Head := (q_Head ?x + 1) mod 64\<rparr>) s)" if ok
    using assms(2) that by (auto simp: queue_put_def Let_def split: if_splits)
  show "rings_ok s'" using assms s' ring_next_less [OF l(1)] \<open>\<not> ok \<Longrightarrow> s' = s\<close> by (cases ok) (auto simp: rings_ok_def)
  show "msg_queue s' = (if ok then (msg_queue s)(q := msg_queue s q @ [msg]) else msg_queue s)"
  proof (cases ok)
    case True
    then have "(q_Head ?x + 1) mod 64 \<noteq> q_Tail ?x" using ok full by blast
    from ring_put [OF l this, of "Msgs ?x" msg] True show ?thesis by (simp add: s' msg_queue_upd) (simp add: msg_queue_def Let_def)
  qed (use \<open>\<not> ok \<Longrightarrow> s' = s\<close> in simp)
qed

lemma next_window:
  "KiUserNextUpdateWindow tid s \<noteq> 0 \<longleftrightarrow> tid \<noteq> 0 \<and> (\<exists>win \<in> set paint_slots. g_window_update s win \<noteq> 0 \<and> g_window_owner s win = tid)"
proof -
  have nz: "win \<noteq> 0" if "win \<in> set paint_slots" for win
  proof -
    obtain n where n: "win = of_nat n" "1 \<le> n" "n < 128" using \<open>win \<in> set paint_slots\<close> by (auto simp: paint_slots_def)
    then have "unat win = n" by (simp add: unat_of_nat)
    then show ?thesis using n by auto
  qed
  let ?P = "\<lambda>win. g_window_update s win \<noteq> 0 \<and> g_window_owner s win = tid"
  show ?thesis
  proof (cases "find ?P paint_slots")
    case None
    then have "\<forall>win \<in> set paint_slots. \<not> ?P win" by (auto simp: find_None_iff)
    then show ?thesis using None by (auto simp: KiUserNextUpdateWindow_def)
  next
    case (Some win)
    then have "win \<in> set paint_slots" "?P win" by (auto simp: find_Some_iff)
    then show ?thesis using nz Some by (auto simp: KiUserNextUpdateWindow_def)
  qed
qed

section \<open>The input event of a thread with work is set\<close>

definition busy :: "'z user_state_scheme \<Rightarrow> u32 \<Rightarrow> bool" where
  "busy s q \<longleftrightarrow> q_Head (g_user_thread_queues s q) \<noteq> q_Tail (g_user_thread_queues s q) \<or> KiUserNextUpdateWindow (q + 1) s \<noteq> 0"

abbreviation event_of :: "'z user_state_scheme \<Rightarrow> u32 \<Rightarrow> u64" where
  "event_of s q \<equiv> InputEvent (g_user_thread_queues s q)"

text \<open>The input events, except that those of the queues in \<open>X\<close> may be behind.\<close>

definition synced :: "'z user_state_scheme \<Rightarrow> u32 set \<Rightarrow> bool" where
  "synced s X \<longleftrightarrow> (\<forall>q. event_of s q \<noteq> 0 \<longrightarrow> q < 64 \<and> handle_object s (InputEventHandle (g_user_thread_queues s q)) = event_of s q \<and>
       d_Type (disp (ke s) (event_of s q)) = EventNotificationObject \<and>
       (q \<notin> X \<and> busy s q \<longrightarrow> SignalState (disp (ke s) (event_of s q)) = 1)) \<and>
     (\<forall>q q'. event_of s q = event_of s q' \<and> event_of s q \<noteq> 0 \<longrightarrow> q = q')"

definition user_inv :: "'z user_state_scheme \<Rightarrow> bool" where
  "user_inv s \<longleftrightarrow> (\<exists>held. ob_rel s held) \<and> g_event_type s \<in> set (g_type_list s) \<and> rings_ok s \<and> synced s {}"

lemma sync_objects [simp]:
  "ob_rel (KiUserSyncInputEvent q s) held = ob_rel s held" "g_type_list (KiUserSyncInputEvent q s) = g_type_list s"
  "handle_object (KiUserSyncInputEvent q s) = handle_object s"
  "ob_rel (upd_queue q f s) held = ob_rel s held" "g_type_list (upd_queue q f s) = g_type_list s" "handle_object (upd_queue q f s) = handle_object s"
proof -
  have o: "pool s' = pool s" "headers s' = headers s" "g_handles s' = g_handles s" "directories s' = directories s"
    "files s' = files s" "g_type_list s' = g_type_list s" "types s' = types s" if "s' = KiUserSyncInputEvent q s \<or> s' = upd_queue q f s" for s'
    using that by (auto simp: KiUserSyncInputEvent_def upd_queue_def Let_def)
  show "ob_rel (KiUserSyncInputEvent q s) held = ob_rel s held" "ob_rel (upd_queue q f s) held = ob_rel s held"
    by (rule ob_rel_cong; rule o; simp)+
  show "g_type_list (KiUserSyncInputEvent q s) = g_type_list s" "g_type_list (upd_queue q f s) = g_type_list s" by (rule o; simp)+
  show "handle_object (KiUserSyncInputEvent q s) = handle_object s" "handle_object (upd_queue q f s) = handle_object s"
    by (rule handle_object_cong; rule o; simp)+
qed

lemma busy_sync [simp]: "busy (KiUserSyncInputEvent q s) q' = busy s q'"
  by (simp add: busy_def)

lemma sync_step:
  assumes "synced s X"
  shows "synced (KiUserSyncInputEvent q s) (X - {q})"
proof (cases "event_of s q = 0")
  case True
  then show ?thesis using assms by (auto simp: KiUserSyncInputEvent_def synced_def)
next
  case False
  let ?e = "event_of s q"
  have k: "KiUserSyncInputEvent q s = s\<lparr>ke := if busy s q then snd (KeSetEvent ?e (ke s)) else KeResetEvent ?e (ke s)\<rparr>"
    using False by (simp add: KiUserSyncInputEvent_def busy_def Let_def)
  have d: "d_Type (disp (ke (KiUserSyncInputEvent q s)) h) = d_Type (disp (ke s) h)" for h
    by (simp add: k set_event_signals reset_event_signals)
  have g: "SignalState (disp (ke (KiUserSyncInputEvent q s)) h) = (if h = ?e then of_bool (busy s q) else SignalState (disp (ke s) h))" for h
    by (simp add: k set_event_signals reset_event_signals)
  have u: "event_of s q' = ?e \<longleftrightarrow> q' = q" for q' using assms False by (auto simp: synced_def)
  show ?thesis using assms unfolding synced_def by (simp add: d g u) blast
qed

text \<open>An operation that changes only one queue, or makes less work.\<close>

lemma synced_frame:
  assumes "synced s X" "\<And>q. event_of s' q = event_of s q" "\<And>q. InputEventHandle (g_user_thread_queues s' q) = InputEventHandle (g_user_thread_queues s q)"
    "\<And>q. event_of s q \<noteq> 0 \<Longrightarrow> handle_object s' (InputEventHandle (g_user_thread_queues s q)) = event_of s q"
    "\<And>q. event_of s q \<noteq> 0 \<Longrightarrow> d_Type (disp (ke s') (event_of s q)) = d_Type (disp (ke s) (event_of s q)) \<and>
        SignalState (disp (ke s') (event_of s q)) = SignalState (disp (ke s) (event_of s q))"
    "\<And>q. event_of s q \<noteq> 0 \<Longrightarrow> q \<notin> Y \<Longrightarrow> busy s' q \<Longrightarrow> q \<notin> X \<and> busy s q"
  shows "synced s' Y"
  using assms unfolding synced_def by (auto; blast)

lemma synced_queue:
  assumes "synced s {}" "\<And>x. InputEvent (f x) = InputEvent x" "\<And>x. InputEventHandle (f x) = InputEventHandle x"
  shows "synced (KiUserSyncInputEvent q (upd_queue q f s)) {}"
proof -
  have "synced (upd_queue q f s) {q}" by (rule synced_frame [OF assms(1)]) (use assms in \<open>auto simp: synced_def busy_def\<close>)
  from sync_step [OF this, of q] show ?thesis by simp
qed

lemma user_inv_queue:
  assumes "user_inv s" "\<And>x. InputEvent (f x) = InputEvent x" "\<And>x. InputEventHandle (f x) = InputEventHandle x"
    "q_Head (f (g_user_thread_queues s q)) < 64" "q_Tail (f (g_user_thread_queues s q)) < 64"
  shows "user_inv (KiUserSyncInputEvent q (upd_queue q f s))"
  using assms synced_queue [of s f q] by (auto simp: user_inv_def rings_ok_def)

lemma queue_put_inv:
  assumes "user_inv s" "queue_put q msg s = (ok, s')"
  shows "user_inv s'"
proof (cases ok)
  case True
  let ?x = "g_user_thread_queues s q"
  have r: "q_Head ?x < 64" "q_Tail ?x < 64" using assms(1) by (auto simp: user_inv_def rings_ok_def)
  have "s' = KiUserSyncInputEvent q (upd_queue q (\<lambda>x. x\<lparr>Msgs := (Msgs x)(q_Head x := msg), q_Head := (q_Head ?x + 1) mod 64\<rparr>) s)"
    using assms(2) True by (auto simp: queue_put_def Let_def split: if_splits)
  then show ?thesis using user_inv_queue [OF assms(1)] r ring_next_less [OF r(1)] by simp
qed (use assms in \<open>auto simp: queue_put_def Let_def split: if_splits\<close>)

lemma queue_put_snd: "user_inv s \<Longrightarrow> user_inv (snd (queue_put q msg s))"
  by (cases "queue_put q msg s") (simp add: queue_put_inv)

lemma enqueue_inv:
  assumes "user_inv s"
  shows "user_inv (snd (KiUserEnqueueMessage hwnd message wparam lparam x y s))"
    "user_inv (snd (KiUserEnqueueThreadMessage tid message wparam lparam s))"
  using assms by (simp_all add: KiUserEnqueueMessage_def KiUserEnqueueThreadMessage_def Let_def queue_put_snd split: option.split)

lemma user_inv_cong:
  assumes "user_inv s" "g_user_thread_queues s' = g_user_thread_queues s" "\<And>tid. KiUserNextUpdateWindow tid s' \<noteq> 0 \<Longrightarrow> KiUserNextUpdateWindow tid s \<noteq> 0"
    "\<exists>held. ob_rel s' held" "g_event_type s' = g_event_type s" "set (g_type_list s) \<subseteq> set (g_type_list s')"
    "\<And>q. event_of s q \<noteq> 0 \<Longrightarrow> handle_object s' (InputEventHandle (g_user_thread_queues s q)) = event_of s q"
    "\<And>q. event_of s q \<noteq> 0 \<Longrightarrow> d_Type (disp (ke s') (event_of s q)) = d_Type (disp (ke s) (event_of s q)) \<and>
        SignalState (disp (ke s') (event_of s q)) = SignalState (disp (ke s) (event_of s q))"
  shows "user_inv s'"
proof -
  have "synced s' {}" by (rule synced_frame [of s "{}"]) (use assms in \<open>auto simp: user_inv_def busy_def\<close>)
  then show ?thesis using assms by (auto simp: user_inv_def rings_ok_def)
qed

lemma user_inv_updates:
  assumes "user_inv s" "\<And>tid. KiUserNextUpdateWindow tid (s\<lparr>g_window_update := u\<rparr>) \<noteq> 0 \<Longrightarrow> KiUserNextUpdateWindow tid s \<noteq> 0"
  shows "user_inv (s\<lparr>g_window_update := u\<rparr>)"
proof (rule user_inv_cong [OF assms(1)])
  show "\<exists>held. ob_rel (s\<lparr>g_window_update := u\<rparr>) held" using assms(1) by (auto simp: user_inv_def ob_rel_cong [of "s\<lparr>g_window_update := u\<rparr>" s])
  have "handle_object (s\<lparr>g_window_update := u\<rparr>) = handle_object s" by (rule handle_object_cong) simp
  then show "handle_object (s\<lparr>g_window_update := u\<rparr>) (InputEventHandle (g_user_thread_queues s q)) = event_of s q" if "event_of s q \<noteq> 0" for q
    using assms(1) that by (simp add: user_inv_def synced_def)
qed (use assms(2) in simp_all)

lemma less_work:
  "KiUserNextUpdateWindow tid (s\<lparr>g_window_update := (g_window_update s)(win := c)\<rparr>) \<noteq> 0 \<Longrightarrow> g_window_update s win \<noteq> 0 \<or> c = 0 \<Longrightarrow>
    KiUserNextUpdateWindow tid s \<noteq> 0"
  by (auto simp: next_window split: if_splits)

lemma user_inv_sync: "user_inv s \<Longrightarrow> user_inv (KiUserSyncInputEvent q s)"
  using sync_step [of s "{}" q] by (simp add: user_inv_def rings_ok_def)

lemma take_inv:
  assumes "user_inv s"
  shows "user_inv (snd (KiUserTakeMessage remove s))"
proof (cases "KiUserQueueForThread (current_tid s)")
  case None
  then show ?thesis using assms by (simp add: KiUserTakeMessage_def)
next
  case (Some q)
  let ?x = "g_user_thread_queues s q" and ?win = "KiUserNextUpdateWindow (current_tid s) s"
  have r: "q_Head ?x < 64" "q_Tail ?x < 64" using assms by (auto simp: user_inv_def rings_ok_def)
  show ?thesis
  proof (cases "q_Tail ?x = q_Head ?x")
    case True
    let ?s = "s\<lparr>g_window_update := (g_window_update s)(?win := g_window_update s ?win - 1)\<rparr>"
    have "user_inv ?s" if "g_window_update s ?win \<noteq> 0" by (rule user_inv_updates [OF assms]) (use less_work that in blast)
    then show ?thesis using Some True assms by (auto simp: KiUserTakeMessage_def Let_def intro: user_inv_sync)
  next
    case False
    have "user_inv (KiUserSyncInputEvent q (upd_queue q (\<lambda>x. x\<lparr>q_Tail := (q_Tail x + 1) mod 64\<rparr>) s))"
      by (rule user_inv_queue [OF assms]) (use r ring_next_less in simp_all)
    then show ?thesis using Some False assms by (simp add: KiUserTakeMessage_def Let_def)
  qed
qed

lemma queue_of_thread: "KiUserQueueForThread tid = Some q \<longleftrightarrow> tid = q + 1 \<and> q < 64"
proof -
  have "tid - 1 < 64 \<longleftrightarrow> tid \<noteq> 0 \<and> \<not> 64 < tid"
  proof (cases "tid = 0")
    case False
    then have "unat (tid - 1) = unat tid - 1" "unat tid \<noteq> 0" by (simp_all add: unat_minus_one unat_eq_zero)
    then show ?thesis using False by (auto simp: word_less_nat_alt)
  qed simp
  moreover have "tid = q + 1 \<longleftrightarrow> q = tid - 1" by (metis add_diff_cancel diff_add_cancel)
  ultimately show ?thesis by (auto simp: KiUserQueueForThread_def)
qed

lemma paint_inv:
  assumes "user_inv s"
  shows "user_inv (KiUserInvalidateWindow win s)" "user_inv (KiUserValidateWindow win s)"
proof -
  have ok: "user_inv (sync_owner win (s\<lparr>g_window_update := (g_window_update s)(win := c)\<rparr>))" for c
  proof -
    let ?s = "s\<lparr>g_window_update := (g_window_update s)(win := c)\<rparr>" and ?q = "g_window_owner s win - 1"
    have n: "KiUserNextUpdateWindow tid s \<noteq> 0" if "KiUserNextUpdateWindow tid ?s \<noteq> 0" "tid \<noteq> g_window_owner s win" for tid
      using that by (auto simp: next_window split: if_splits)
    have h: "handle_object ?s = handle_object s" by (rule handle_object_cong) simp
    have "synced ?s {?q}"
    proof (rule synced_frame [of s "{}"])
      show "synced s {}" using assms by (simp add: user_inv_def)
      then show "handle_object ?s (InputEventHandle (g_user_thread_queues s q)) = event_of s q" if "event_of s q \<noteq> 0" for q
        using that h by (simp add: synced_def)
      show "q \<notin> {} \<and> busy s q" if "event_of s q \<noteq> 0" "q \<notin> {?q}" "busy ?s q" for q
      proof -
        have "q + 1 \<noteq> g_window_owner s win" using that(2) by (metis add_diff_cancel singletonI)
        then show ?thesis using that n [of "q + 1"] by (auto simp: busy_def)
      qed
    qed simp_all
    note sy = sync_step [OF this, of ?q]
    have o: "\<exists>held. ob_rel ?s held" using assms by (auto simp: user_inv_def ob_rel_cong [of ?s s])
    have r: "rings_ok ?s" "g_event_type ?s \<in> set (g_type_list ?s)" using assms by (simp_all add: user_inv_def rings_ok_def)
    show ?thesis
    proof (cases "KiUserQueueForThread (g_window_owner s win)")
      case None
      have "event_of s ?q = 0"
      proof (rule ccontr)
        assume "event_of s ?q \<noteq> 0"
        then have "?q < 64" using assms by (simp add: user_inv_def synced_def)
        then show False using None queue_of_thread [of "g_window_owner s win" ?q] by simp
      qed
      then have "synced ?s {}" using \<open>synced ?s {?q}\<close> by (auto simp: synced_def)
      then show ?thesis using None o r by (simp add: sync_owner_def user_inv_def)
    next
      case (Some q)
      then have "q = ?q" using queue_of_thread [of "g_window_owner s win" q] by simp
      then show ?thesis using Some o r sy by (simp add: sync_owner_def user_inv_def rings_ok_def)
    qed
  qed
  show "user_inv (KiUserInvalidateWindow win s)" "user_inv (KiUserValidateWindow win s)"
    using assms ok by (simp_all add: KiUserInvalidateWindow_def KiUserValidateWindow_def)
qed

lemma user_more:
  assumes "ob_state.more s' = ob_state.more (s :: 'z user_state_scheme)"
  shows "ke s' = ke s" "g_user_thread_queues s' = g_user_thread_queues s" "g_window_owner s' = g_window_owner s" "g_event_type s' = g_event_type s"
    "g_window_update s' = g_window_update s" "KiUserNextUpdateWindow tid s' = KiUserNextUpdateWindow tid s"
  using assms by (cases s rule: user_state.cases_scheme; cases s' rule: user_state.cases_scheme; simp add: KiUserNextUpdateWindow_def)+

lemma deref_more: "ObDereferenceObject ob s = Some s' \<Longrightarrow> ob_state.more s' = ob_state.more s"
  by (auto simp: ObDereferenceObject_def ObpDeleteObject_def call_delete_def IopFileDelete_proc_def Let_def split: bind_splits if_splits
      OB_DELETE_METHOD.splits option.splits)

text \<open>The event that \<^verbatim>\<open>PsCreateNotificationEvent\<close> makes is none that a handle stands for already.\<close>

lemma create_notification_cases:
  fixes s :: "'z user_state_scheme"
  assumes inv: "ob_inv s L B held" and ty: "g_event_type s \<in> set (g_type_list s)" and c: "PsCreateNotificationEvent s = Some (st, r, s')"
  obtains ob h k where "ob_rel s' held" "set (g_type_list s') = set (g_type_list s)" "ob_state.more s' = ob_state.more (s\<lparr>ke := k\<rparr>)"
      "\<And>x. handle_object s x \<noteq> ob \<or> ob = 0" "k = ke s \<or> k = KeInitializeEvent ob True False (ke s)"
      "r = Some (ob, h) \<and> NT_SUCCESS st \<and> ob \<noteq> 0 \<and> handle_object s h = 0 \<and> handle_object s' = (handle_object s)(h := ob) \<and>
         k = KeInitializeEvent ob True False (ke s) \<or>
       r = None \<and> handle_object s' = handle_object s"
proof -
  from c obtain st1 ob s1 where c1: "ObCreateObject (g_event_type s) SIZEOF_KEVENT s = Some (st1, ob, s1)"
    by (auto simp: PsCreateNotificationEvent_def split: bind_splits)
  have sz: "unat SIZEOF_KEVENT \<le> 2 ^ 60" by simp
  have rel: "ob_rel s held" using inv by (auto simp: ob_rel_def)
  from inv ty sz c1 show thesis
  proof (cases rule: ob_create)
    case failure
    then have "st1 = STATUS_NO_MEMORY" "s' = s1" "r = None" using c c1 by (auto simp: PsCreateNotificationEvent_def NT_SUCCESS_def)
    then show thesis using failure handle_object_cong [of s1 s] by (intro that [of "ke s" 0]) (auto simp: ob_rel_def)
  next
    case success
    let ?k = "KeInitializeEvent ob True False (ke s)"
    have k1: "ke s1 = ke s" using user_more [OF success(8)] by simp
    let ?s2 = "s1\<lparr>ke := ?k\<rparr>"
    obtain st2 h s3 where h: "ObCreateHandle ob GENERIC_ALL ?s2 = (st2, h, s3)" by (cases "ObCreateHandle ob GENERIC_ALL ?s2") auto
    have same: "\<And>held. ob_rel ?s2 held = ob_rel s1 held" "set (g_type_list ?s2) = set (g_type_list s1)" "directories ?s2 = directories s1"
      "object_type ?s2 = object_type s1" "handle_object ?s2 = handle_object s1"
      by (simp_all add: ob_rel_cong [of ?s2 s1] object_type_def fun_eq_iff handle_object_cong [of ?s2 s1])
    note pub = om.publish [OF rel ty sz c1 [unfolded success(1)] same h]
    from pub obtain s4 where s4: "ObDereferenceObject ob s3 = Some s4" "ob_rel s4 held" "set (g_type_list s4) = set (g_type_list s)"
      "st2 = STATUS_SUCCESS \<and> h \<noteq> 0 \<and> handle_object s h = 0 \<and> ob \<noteq> 0 \<and> handle_object s4 = (handle_object s)(h := ob) \<or>
       st2 = STATUS_INSUFFICIENT_RESOURCES \<and> handle_object s4 = handle_object s" by auto
    have fresh: "handle_object s x \<noteq> ob \<or> ob = 0" for x using handle_object_live [OF inv, of x] success(2) by auto
    have m3: "ob_state.more s3 = ob_state.more ?s2" using h
      by (auto simp: ObCreateHandle_def ObReferenceObject_def upd_header_def upd_type_def Let_def split: if_splits option.splits)
    have m4: "ob_state.more s4 = ob_state.more s3" using s4(1) by (rule deref_more)
    have s1m: "ob_state.more ?s2 = ob_state.more (s\<lparr>ke := ?k\<rparr>)" using success(8)
      by (cases s rule: kernel.cases_scheme; cases s1 rule: kernel.cases_scheme; simp)
    have st: "s' = s4" "st2 = STATUS_SUCCESS \<Longrightarrow> r = Some (ob, h) \<and> st = STATUS_SUCCESS" "st2 = STATUS_INSUFFICIENT_RESOURCES \<Longrightarrow> r = None"
      using c c1 success(1) h s4(1) k1 by (auto simp: PsCreateNotificationEvent_def NT_SUCCESS_def Let_def split: if_splits)
    show thesis using s4 m3 m4 s1m fresh st by (intro that [of ?k ob h]) (auto simp: NT_SUCCESS_def)
  qed
qed

lemma initialize_event_signals:
  "h \<noteq> e \<Longrightarrow> disp (KeInitializeEvent e n f k) h = disp k h"
  "d_Type (disp (KeInitializeEvent e True False k) e) = EventNotificationObject"
  by (simp_all add: KeInitializeEvent_def upd_disp_def)

lemma next_window_ke [simp]: "KiUserNextUpdateWindow tid (s\<lparr>ke := k\<rparr>) = KiUserNextUpdateWindow tid s"
  by (simp add: KiUserNextUpdateWindow_def)

lemma input_event_inv:
  fixes s :: "'z user_state_scheme"
  assumes inv: "user_inv s" and c: "KiUserGetInputEvent s = Some (r, s')"
  shows "user_inv s'"
proof (cases "KiUserQueueForThread (current_tid s)")
  case None
  then show ?thesis using assms by (simp add: KiUserGetInputEvent_def)
next
  case (Some q)
  then have q: "q < 64" by (simp add: queue_of_thread)
  show ?thesis
  proof (cases "event_of s q = 0")
    case False
    then show ?thesis using assms Some by (auto simp: KiUserGetInputEvent_def user_inv_sync)
  next
    case True
    with c Some obtain st rr s1 where c1: "PsCreateNotificationEvent s = Some (st, rr, s1)"
      by (auto simp: KiUserGetInputEvent_def split: bind_splits)
    from inv obtain held L B where o: "ob_inv s L B held" "g_event_type s \<in> set (g_type_list s)" "synced s {}" "rings_ok s"
      by (auto simp: user_inv_def ob_rel_def)
    from o(1,2) c1 show ?thesis
    proof (cases rule: create_notification_cases)
      case (1 ob h k)
      note m = user_more [OF 1(3)]
      have live: "event_of s x \<noteq> ob \<or> ob = 0" if "event_of s x \<noteq> 0" for x
        using that o(3) 1(4) [of "InputEventHandle (g_user_thread_queues s x)"] by (simp add: synced_def)
      have dk: "disp (ke s1) (event_of s x) = disp (ke s) (event_of s x)" if "event_of s x \<noteq> 0" for x
        using 1(5) live [OF that] m(1) that initialize_event_signals(1) by auto
      have ho: "handle_object s1 (InputEventHandle (g_user_thread_queues s x)) = event_of s x" if "event_of s x \<noteq> 0" for x
        using that o(3) 1(6) by (auto simp: synced_def)
      have s1: "user_inv s1"
        using 1(1,2) m ho dk by (intro user_inv_cong [OF inv]) auto
      show ?thesis
      proof (cases rr)
        case None
        then show ?thesis using c Some True c1 s1 by (simp add: KiUserGetInputEvent_def)
      next
        case rr: (Some eh)
        with 1(6) have e: "eh = (ob, h)" "NT_SUCCESS st" "ob \<noteq> 0" "handle_object s1 h = ob" "k = KeInitializeEvent ob True False (ke s)" by auto
        let ?f = "\<lambda>x. x\<lparr>InputEvent := ob, InputEventHandle := h\<rparr>"
        have s': "s' = KiUserSyncInputEvent q (upd_queue q ?f s1)"
          using c Some True c1 rr e(1,2) by (auto simp: KiUserGetInputEvent_def)
        have ne: "event_of s x \<noteq> ob" "ob \<noteq> event_of s x" for x using live [of x] e(3) by auto
        have "synced (upd_queue q ?f s1) {q}"
          using s1 q e(3,4) m(1,2) ne initialize_event_signals(2) [of ob "ke s"] e(5)
          unfolding synced_def user_inv_def by (auto simp: busy_def split: if_splits)
        from sync_step [OF this, of q] show ?thesis using s1 by (simp add: s' user_inv_def rings_ok_def)
      qed
    qed
  qed
qed

lemma put_user_inv [simp]: "user_inv s \<Longrightarrow> user_inv (put_user f s)"
proof -
  assume i: "user_inv s"
  have "ob_state.more (put_user f s) = ob_state.more s" by simp
  note m = user_more [OF this]
  have h: "handle_object (put_user f s) = handle_object s" by (rule handle_object_cong) simp
  show ?thesis
    by (rule user_inv_cong [OF i]) (use i m h in \<open>auto simp: user_inv_def ob_rel_def synced_def\<close>)
qed

text \<open>What the rest of the system may do: anything that leaves the queues, the input events and their handles alone and makes no window
  owe a paint without telling its owner.\<close>

definition leaves_events :: "'z user_state_scheme \<Rightarrow> 'z user_state_scheme \<Rightarrow> bool" where
  "leaves_events s s' \<longleftrightarrow> g_user_thread_queues s' = g_user_thread_queues s \<and>
     (\<forall>tid. KiUserNextUpdateWindow tid s' \<noteq> 0 \<longrightarrow> KiUserNextUpdateWindow tid s \<noteq> 0) \<and>
     (\<exists>held. ob_rel s' held) \<and> g_event_type s' = g_event_type s \<and> set (g_type_list s) \<subseteq> set (g_type_list s') \<and>
     (\<forall>q. event_of s q \<noteq> 0 \<longrightarrow> handle_object s' (InputEventHandle (g_user_thread_queues s q)) = event_of s q \<and>
        d_Type (disp (ke s') (event_of s q)) = d_Type (disp (ke s) (event_of s q)) \<and>
        SignalState (disp (ke s') (event_of s q)) = SignalState (disp (ke s) (event_of s q)))"

lemma leaves_inv: "user_inv s \<Longrightarrow> leaves_events s s' \<Longrightarrow> user_inv s'"
  by (rule user_inv_cong [of s]) (auto simp: leaves_events_def)

lemma scheduler_leaves:
  assumes "user_inv s" "same_signals (ke s) k"
  shows "leaves_events s (s\<lparr>ke := k\<rparr>)"
proof -
  have "handle_object (s\<lparr>ke := k\<rparr>) = handle_object s" by (rule handle_object_cong) simp
  moreover have "ob_rel (s\<lparr>ke := k\<rparr>) held = ob_rel s held" for held by (rule ob_rel_cong) simp_all
  ultimately show ?thesis using assms by (auto simp: leaves_events_def user_inv_def synced_def same_signals_def)
qed

lemma destroy_leaves:
  assumes "user_inv s"
  shows "leaves_events s (snd (NtUserDestroyWindow a s))"
proof -
  let ?s = "snd (NtUserDestroyWindow a s)"
  have f: "g_user_thread_queues ?s = g_user_thread_queues s" "ke ?s = ke s" "g_event_type ?s = g_event_type s" "g_type_list ?s = g_type_list s"
    by (simp_all add: NtUserDestroyWindow_def Let_def)
  have "handle_object ?s = handle_object s" by (rule handle_object_cong) (simp add: NtUserDestroyWindow_def Let_def)
  moreover have "ob_rel ?s held = ob_rel s held" for held by (rule ob_rel_cong) (simp_all add: NtUserDestroyWindow_def Let_def)
  moreover have "KiUserNextUpdateWindow tid s \<noteq> 0" if "KiUserNextUpdateWindow tid ?s \<noteq> 0" for tid
    using that unfolding next_window by (auto simp: NtUserDestroyWindow_def Let_def split: if_splits)
  ultimately show ?thesis using assms f by (auto simp: leaves_events_def user_inv_def synced_def)
qed

section \<open>The services as steps\<close>

inductive user_step :: "'z user_state_scheme \<Rightarrow> 'z user_state_scheme \<Rightarrow> bool" where
  post: "NtUserPostMessage a s = (r, s') \<Longrightarrow> user_step s s'"
| post_thread: "NtUserPostThreadMessage a s = (r, s') \<Longrightarrow> user_step s s'"
| character: "user_step s (KiUserQueueCharacter c s)"
| mouse: "user_step s (KiUserQueueMouse x y b s)"
| peek: "NtUserPeekMessage a s = Some (r, s') \<Longrightarrow> user_step s s'"
| get_message: "NtUserGetMessage a s = Some (res, s') \<Longrightarrow> user_step s s'"
| get_message_again: "get_message_turn a s = Some (res, s') \<Longrightarrow> user_step s s'"
| wait_message: "NtUserWaitMessage s = (res, s') \<Longrightarrow> user_step s s'"
| one_param: "NtUserCallOneParam a s = Some (r, s') \<Longrightarrow> user_step s s'"
| invalidate: "NtUserInvalidateRect a s = (r, s') \<Longrightarrow> user_step s s'"
| validate: "NtUserValidateRect a s = (r, s') \<Longrightarrow> user_step s s'"
| redraw: "NtUserRedrawWindow a s = (r, s') \<Longrightarrow> user_step s s'"
| update_rect: "NtUserGetUpdateRect a s = Some (r, s') \<Longrightarrow> user_step s s'"
| destroy: "NtUserDestroyWindow a s = (r, s') \<Longrightarrow> user_step s s'"
| rest: "leaves_events s s' \<Longrightarrow> user_step s s'"

lemma yield_inv: "user_inv s \<Longrightarrow> user_inv (s\<lparr>ke := KeYield (ke s)\<rparr>)"
  using leaves_inv scheduler_leaves same_signals_yield by blast

lemma mouse_buttons_inv: "user_inv s \<Longrightarrow> user_inv (s\<lparr>g_user_mouse_buttons := b\<rparr>)"
proof (rule leaves_inv, assumption)
  assume i: "user_inv s"
  have "handle_object (s\<lparr>g_user_mouse_buttons := b\<rparr>) = handle_object s" by (rule handle_object_cong) simp
  moreover have "ob_rel (s\<lparr>g_user_mouse_buttons := b\<rparr>) held = ob_rel s held" for held by (rule ob_rel_cong) simp_all
  moreover have "KiUserNextUpdateWindow tid (s\<lparr>g_user_mouse_buttons := b\<rparr>) = KiUserNextUpdateWindow tid s" for tid
    by (simp add: KiUserNextUpdateWindow_def)
  ultimately show "leaves_events s (s\<lparr>g_user_mouse_buttons := b\<rparr>)" using i by (auto simp: leaves_events_def user_inv_def synced_def)
qed

lemmas service_inv = enqueue_inv take_inv paint_inv input_event_inv yield_inv mouse_buttons_inv put_user_inv

lemma taken_inv: "user_inv s \<Longrightarrow> KiUserTakeMessage b s = (m, s') \<Longrightarrow> user_inv s'"
  using take_inv [of s b] by simp

lemma turn_inv: "user_inv s \<Longrightarrow> get_message_turn a s = Some (res, s') \<Longrightarrow> user_inv s'"
  using taken_inv yield_inv by (fastforce simp: get_message_turn_def split: if_splits bind_splits option.splits prod.splits)

lemma user_step_inv: "user_step s s' \<Longrightarrow> user_inv s \<Longrightarrow> user_inv s'"
proof (induction rule: user_step.induct)
  case (mouse s x y b)
  then show ?case by (simp add: KiUserQueueMouse_def Let_def service_inv)
next
  case (peek a s r s')
  then show ?case using taken_inv by (auto simp: NtUserPeekMessage_def split: if_splits bind_splits option.splits prod.splits)
next
  case (get_message a s r s')
  then show ?case using turn_inv by (auto simp: NtUserGetMessage_def split: if_splits bind_splits)
next
  case (get_message_again a s r s')
  then show ?case using turn_inv by blast
next
  case (wait_message s r s')
  then show ?case using taken_inv yield_inv by (fastforce simp: NtUserWaitMessage_def split: option.splits prod.splits)
next
  case (destroy a s r s')
  then have "s' = snd (NtUserDestroyWindow a s)" by simp
  then show ?case using destroy destroy_leaves leaves_inv by blast
next
  case (rest s s')
  then show ?case using leaves_inv by blast
next
  case (one_param a s r s')
  then show ?case using input_event_inv by (auto simp: NtUserCallOneParam_def split: if_splits)
next
  case (post a s r s')
  then have "s' = snd (KiUserEnqueueMessage (a 0) (ucast (a 1)) (a 2) (a 3) 0 0 s)" by (auto simp: NtUserPostMessage_def split: prod.splits)
  then show ?case using post enqueue_inv(1) by simp
next
  case (post_thread a s r s')
  then have "s' = snd (KiUserEnqueueThreadMessage (ucast (a 0)) (ucast (a 1)) (a 2) (a 3) s)" by (auto simp: NtUserPostThreadMessage_def split: prod.splits)
  then show ?case using post_thread enqueue_inv(2) by simp
qed (auto simp: KiUserQueueCharacter_def NtUserInvalidateRect_def NtUserValidateRect_def NtUserRedrawWindow_def NtUserGetUpdateRect_def Let_def
     service_inv split: if_splits bind_splits)

interpretation user_machine: transition_system user_step user_inv
  by unfold_locales (rule user_step_inv)

text \<open>Before any USER call: no queue has a message or an input event.\<close>

definition user_boot :: "'z user_state_scheme \<Rightarrow> bool" where
  "user_boot s \<longleftrightarrow> (\<exists>held. ob_rel s held) \<and> g_event_type s \<in> set (g_type_list s) \<and>
     (\<forall>q. q_Head (g_user_thread_queues s q) = 0 \<and> q_Tail (g_user_thread_queues s q) = 0 \<and> event_of s q = 0)"

lemma boot_inv: "user_boot s \<Longrightarrow> user_inv s"
  by (auto simp: user_boot_def user_inv_def rings_ok_def synced_def)

lemma notification_wait:
  assumes "d_Type (disp k e) = EventNotificationObject" "SignalState (disp k e) = 1"
  shows "fst (KeWaitForSingleObjectTimeout e ticks k) = Returned STATUS_WAIT_0"
  using assms by (simp add: KeWaitForSingleObjectTimeout_def KeWaitForMultipleObjects_def wait_iteration_def try_acquire_def KiCanAcquire_def
      KiConsumeSignal_def Let_def)

lemma next_window_owes:
  assumes "KiUserNextUpdateWindow tid s \<noteq> 0"
  shows "g_window_update s (KiUserNextUpdateWindow tid s) \<noteq> 0 \<and> g_window_owner s (KiUserNextUpdateWindow tid s) = tid"
proof -
  let ?P = "\<lambda>win. g_window_update s win \<noteq> 0 \<and> g_window_owner s win = tid"
  obtain win where "find ?P paint_slots = Some win" "KiUserNextUpdateWindow tid s = win"
    using assms by (auto simp: KiUserNextUpdateWindow_def split: if_splits option.splits)
  then show ?thesis using find_Some_iff [of ?P paint_slots win] by auto
qed

lemma take_view:
  assumes "rings_ok s"
  shows "let (m, s') = KiUserTakeMessage remove s; win = KiUserNextUpdateWindow (current_tid s) s
     in case KiUserQueueForThread (current_tid s) of None \<Rightarrow> m = None \<and> s' = s
        | Some q \<Rightarrow>
            (case msg_queue s q of
               x # xs \<Rightarrow> m = Some x \<and> msg_queue s' = (if remove then (msg_queue s)(q := xs) else msg_queue s) \<and> g_window_update s' = g_window_update s
             | [] \<Rightarrow> msg_queue s' = msg_queue s \<and>
                 (if win = 0 then m = None \<and> s' = s
                  else m = Some (paint_message win s) \<and> g_window_update s win \<noteq> 0 \<and> g_window_owner s win = current_tid s \<and>
                    g_window_update s' = (g_window_update s)(win := g_window_update s win - 1)))"
proof (cases "KiUserQueueForThread (current_tid s)")
  case None
  then show ?thesis by (simp add: KiUserTakeMessage_def)
next
  case (Some q)
  let ?x = "g_user_thread_queues s q" and ?win = "KiUserNextUpdateWindow (current_tid s) s"
  have l: "q_Head ?x < 64" "q_Tail ?x < 64" using assms by (auto simp: rings_ok_def)
  show ?thesis
  proof (cases "msg_queue s q")
    case Nil
    then have e: "q_Tail ?x = q_Head ?x" using msg_queue_empty [OF assms] by simp
    have w: "g_window_update s ?win \<noteq> 0 \<and> g_window_owner s ?win = current_tid s" if "?win \<noteq> 0"
      using next_window_owes that by blast
    have "msg_queue (s\<lparr>g_window_update := u\<rparr>) = msg_queue s" for u by (simp add: msg_queue_def fun_eq_iff)
    then show ?thesis using Some Nil e w by (simp add: KiUserTakeMessage_def Let_def)
  next
    case (Cons m ms)
    then have ne: "q_Tail ?x \<noteq> q_Head ?x" using msg_queue_empty [OF assms, of q] by auto
    have v: "m # ms = Msgs ?x (q_Tail ?x) # ring_view (Msgs ?x) (q_Head ?x) ((q_Tail ?x + 1) mod 64)"
      using ring_get [OF l, of "Msgs ?x"] ne Cons by (simp add: msg_queue_def Let_def)
    then show ?thesis using Some Cons ne by (simp add: KiUserTakeMessage_def Let_def msg_queue_upd)
  qed
qed

section \<open>Properties\<close>

text \<open>(C36) No lost wake-up. After any sequence of posts, character and mouse input, message retrieval, paint requests, window destruction and
  input-event requests, interleaved with anything else the system does that leaves the input events alone: if a thread has asked for its
  input event, then while its queue holds a message or a window of its owes a \<^verbatim>\<open>WM_PAINT\<close>, the event is set, the handle the thread was
  given stands for it, and a wait on it returns at once.\<close>

theorem input_event_no_lost_wakeup:
  assumes "user_boot s0" "user_step\<^sup>*\<^sup>* s0 s" "KiUserQueueForThread tid = Some q" "InputEvent (g_user_thread_queues s q) \<noteq> 0"
    "msg_queue s q \<noteq> [] \<or> KiUserNextUpdateWindow tid s \<noteq> 0"
  shows "SignalState (disp (ke s) (InputEvent (g_user_thread_queues s q))) = 1 \<and>
    handle_object s (InputEventHandle (g_user_thread_queues s q)) = InputEvent (g_user_thread_queues s q) \<and>
    fst (KeWaitForSingleObjectTimeout (InputEvent (g_user_thread_queues s q)) ticks (ke s)) = Returned STATUS_WAIT_0"
proof -
  have i: "user_inv s" using user_machine.steps_inv [OF assms(2) boot_inv [OF assms(1)]] .
  then have "busy s q" using assms(3,5) msg_queue_empty [of s q] by (auto simp: busy_def queue_of_thread user_inv_def)
  then have "SignalState (disp (ke s) (event_of s q)) = 1" "d_Type (disp (ke s) (event_of s q)) = EventNotificationObject"
    "handle_object s (InputEventHandle (g_user_thread_queues s q)) = event_of s q"
    using i assms(4) by (simp_all add: user_inv_def synced_def)
  then show ?thesis using notification_wait by simp
qed

text \<open>(C37) The message queues. In every state of such a run, posting to a thread appends the message to that thread's queue and to no other,
  unless 63 messages are waiting, and then it is refused and nothing changes; taking returns the oldest message of the running thread's own
  queue and removes it exactly when asked to; with nothing posted, the first window of the thread that owes a \<^verbatim>\<open>WM_PAINT\<close> gets one, and its
  count goes down by one.\<close>

theorem message_queues_fifo:
  assumes "user_boot s0" "user_step\<^sup>*\<^sup>* s0 s"
  shows "length (msg_queue s q) \<le> 63 \<and>
    (let (ok, s') = KiUserEnqueueThreadMessage tid message wparam lparam s
     in case KiUserQueueForThread tid of None \<Rightarrow> \<not> ok \<and> s' = s
        | Some q \<Rightarrow> (ok \<longleftrightarrow> length (msg_queue s q) < 63) \<and> (\<not> ok \<longrightarrow> s' = s) \<and>
            (ok \<longrightarrow> msg_queue s' = (msg_queue s)(q := msg_queue s q @ [\<lparr>m_Hwnd = 0, m_Message = message, m_WParam = wparam, m_LParam = lparam,
               m_Time = message_time s, m_PtX = 0, m_PtY = 0\<rparr>]))) \<and>
    (let (m, s') = KiUserTakeMessage remove s; win = KiUserNextUpdateWindow (current_tid s) s
     in case KiUserQueueForThread (current_tid s) of None \<Rightarrow> m = None \<and> s' = s
        | Some q \<Rightarrow>
            (case msg_queue s q of
               x # xs \<Rightarrow> m = Some x \<and> msg_queue s' = (if remove then (msg_queue s)(q := xs) else msg_queue s) \<and> g_window_update s' = g_window_update s
             | [] \<Rightarrow> msg_queue s' = msg_queue s \<and>
                 (if win = 0 then m = None \<and> s' = s
                  else m = Some (paint_message win s) \<and> g_window_update s win \<noteq> 0 \<and> g_window_owner s win = current_tid s \<and>
                    g_window_update s' = (g_window_update s)(win := g_window_update s win - 1))))"
proof -
  have i: "user_inv s" using user_machine.steps_inv [OF assms(2) boot_inv [OF assms(1)]] .
  then have r: "rings_ok s" by (simp add: user_inv_def)
  have "length (msg_queue s q) \<le> 63"
    using ring_count_less [of "q_Head (g_user_thread_queues s q)" "q_Tail (g_user_thread_queues s q)"] by (simp add: msg_queue_def Let_def)
  moreover have "let (ok, s') = KiUserEnqueueThreadMessage tid message wparam lparam s
     in case KiUserQueueForThread tid of None \<Rightarrow> \<not> ok \<and> s' = s
        | Some q \<Rightarrow> (ok \<longleftrightarrow> length (msg_queue s q) < 63) \<and> (\<not> ok \<longrightarrow> s' = s) \<and>
            (ok \<longrightarrow> msg_queue s' = (msg_queue s)(q := msg_queue s q @ [\<lparr>m_Hwnd = 0, m_Message = message, m_WParam = wparam, m_LParam = lparam,
               m_Time = message_time s, m_PtX = 0, m_PtY = 0\<rparr>]))"
    using queue_put_view [OF r] by (auto simp: KiUserEnqueueThreadMessage_def split: option.split prod.split)
  ultimately show ?thesis using take_view [OF r, of remove] by blast
qed

definition demo_user :: "unit user_state_ext ps_state_ext kernel_ext" where
  "demo_user = kernel_ext (demo_sched\<lparr>g_current_thread := 0x1000, threads := (\<lambda>_. zero_thread\<lparr>ThreadId := 1\<rparr>)\<rparr>)
     (ps_state_ext 0 0 0 0x30000000 (\<lambda>_. []) (\<lambda>_ _. 0)
       (user_state.fields (\<lambda>_. \<lparr>Msgs = (\<lambda>_. undefined), q_Head = 0, q_Tail = 0, InputEvent = 0, InputEventHandle = 0\<rparr>)
         (\<lambda>_. 0) (\<lambda>_. 0) 0 0 (\<lambda>_. 0) (\<lambda>_. 0) (\<lambda>_. 0)))"

lemma demo_user_more:
  fixes s :: user_state
  assumes "ob_state.more s = demo_user"
  shows "g_user_thread_queues s = (\<lambda>_. \<lparr>Msgs = (\<lambda>_. undefined), q_Head = 0, q_Tail = 0, InputEvent = 0, InputEventHandle = 0\<rparr>)" "current_tid s = 1"
  using assms by (cases s rule: user_state.cases_scheme; simp add: demo_user_def user_state.defs current_tid_def zero_thread_def Let_def)+

text \<open>A system with room, an event type and a running thread with id 1.\<close>

lemma demo_user_state:
  obtains s :: user_state and L B held where "ob_inv s L B held" "user_boot s" "current_tid s = 1" "pool_room (pool s) L 65000"
    "\<forall>i. he_Object (g_handles s i) = 0" "g_event_type s \<noteq> 0"
proof -
  obtain s :: user_state and L B held ob where d: "ob_inv s L B held" "0 < held ob" "pool_room (pool s) L 65000" "\<forall>i. he_Object (g_handles s i) = 0"
    "ob_state.more s = demo_user" by (rule demo_object [where z = demo_user])
  define t where "t = oh_Type (headers s (ObHeaderFromObject ob))"
  have hB: "ObHeaderFromObject ob \<in> B" using d(1,2) by (simp add: ob_inv_def)
  have bl: "blocks_ok s L B" "pool_rel (pool s) L" using d(1) by (simp_all add: ob_inv_def)
  have t: "t \<in> set (g_type_list s)" using blocks_okD(3) [OF bl(1) hB] by (simp add: t_def)
  moreover have "t \<noteq> 0" using blocks_okD(2) [OF bl(1) t] pool.live_nonzero [OF bl(2)] by auto
  ultimately have t: "t \<in> set (g_type_list s)" "t \<noteq> 0" by simp_all
  let ?s = "s\<lparr>g_event_type := t\<rparr>"
  have i: "ob_inv ?s L B held" using d(1) by simp
  have "current_tid ?s = 1" using demo_user_more(2) [OF d(5)] by (auto simp: current_tid_def Let_def split: if_splits)
  moreover have "user_boot ?s" using i t demo_user_more(1) [OF d(5)] by (auto simp: user_boot_def ob_rel_def)
  ultimately show thesis using that [of ?s L B held] i t d(3,4) by simp
qed

lemma demo_input_event:
  obtains s0 s1 :: user_state where "user_boot s0" "user_step s0 s1" "InputEvent (g_user_thread_queues s1 0) \<noteq> 0" "current_tid s0 = 1"
    "KiUserNextUpdateWindow tid s1 = KiUserNextUpdateWindow tid s0" "msg_queue s1 = msg_queue s0"
proof -
  obtain s :: user_state and L B held where d: "ob_inv s L B held" "user_boot s" "current_tid s = 1" "pool_room (pool s) L 65000"
    "\<forall>i. he_Object (g_handles s i) = 0" "g_event_type s \<noteq> 0" by (rule demo_user_state)
  have ty: "g_event_type s \<in> set (g_type_list s)" using d(2) by (simp add: user_boot_def)
  obtain ob s1 where c: "ObCreateObject (g_event_type s) SIZEOF_KEVENT s = Some (STATUS_SUCCESS, ob, s1)"
    using create_object_room [OF d(4,6), of SIZEOF_KEVENT] by (auto simp: need_of_def)
  obtain st r s2 where p: "PsCreateNotificationEvent s = Some (st, r, s2)" and r: "r \<noteq> None"
  proof -
    have sz: "unat SIZEOF_KEVENT \<le> 2 ^ 60" by simp
    have rel: "ob_rel s held" using d(1) by (auto simp: ob_rel_def)
    from d(1) ty sz c show thesis
    proof (cases rule: ob_create)
      case success
      let ?s2 = "s1\<lparr>ke := KeInitializeEvent ob True False (ke s1)\<rparr>"
      obtain st2 h s3 where h: "ObCreateHandle ob GENERIC_ALL ?s2 = (st2, h, s3)" by (cases "ObCreateHandle ob GENERIC_ALL ?s2") auto
      have same: "\<And>held. ob_rel ?s2 held = ob_rel s1 held" "set (g_type_list ?s2) = set (g_type_list s1)" "directories ?s2 = directories s1"
        "object_type ?s2 = object_type s1" "handle_object ?s2 = handle_object s1"
        by (simp_all add: ob_rel_cong [of ?s2 s1] object_type_def fun_eq_iff handle_object_cong [of ?s2 s1])
      from om.publish [OF rel ty sz c same h] obtain s4 where s4: "ObDereferenceObject ob s3 = Some s4" by blast
      have "ob_inv ?s2 (L(ObHeaderFromObject ob \<mapsto> 48 + unat SIZEOF_KEVENT)) (insert (ObHeaderFromObject ob) B) (held(ob := 1))"
        using success(5) by (subst ob_inv_cong [of _ s1]) simp_all
      from ob_create_handle(2) [OF this _ _ h] d(5) success(9) have "st2 = STATUS_SUCCESS" by (auto dest: spec [of _ 0])
      then show thesis using that c h s4 by (auto simp: PsCreateNotificationEvent_def NT_SUCCESS_def)
    qed simp
  qed
  from d(1) ty p show thesis
  proof (cases rule: create_notification_cases)
    case (1 ob' h k)
    with r have e: "r = Some (ob', h)" "NT_SUCCESS st" "ob' \<noteq> 0" by auto
    note m = user_more [OF 1(3)]
    let ?s = "KiUserSyncInputEvent 0 (upd_queue 0 (\<lambda>x. x\<lparr>InputEvent := ob', InputEventHandle := h\<rparr>) s2)"
    have "KiUserGetInputEvent s = Some (h, ?s)"
      using d(2,3) p e by (simp add: KiUserGetInputEvent_def KiUserQueueForThread_def user_boot_def)
    then have "user_step s ?s" using one_param [of "\<lambda>_. 0x32" s h ?s] by (simp add: NtUserCallOneParam_def)
    moreover have "msg_queue ?s = msg_queue s" using m(2) by (simp add: msg_queue_upd) (simp add: msg_queue_def fun_eq_iff Let_def)
    ultimately show thesis using that [of s ?s] d e(3) m(6) by simp
  qed
qed

theorem input_event_no_lost_wakeup_witness:
  "\<exists>(s0 :: user_state) s. user_step\<^sup>*\<^sup>* s0 s \<and> SignalState (disp (ke s) (InputEvent (g_user_thread_queues s 0))) = 1"
proof -
  obtain s0 s1 :: user_state where d: "user_boot s0" "user_step s0 s1" "InputEvent (g_user_thread_queues s1 0) \<noteq> 0"
    "msg_queue s1 = msg_queue s0" by (rule demo_input_event)
  have "user_inv s1" using user_step_inv [OF d(2) boot_inv [OF d(1)]] .
  then have r: "rings_ok s1" by (simp add: user_inv_def)
  have "msg_queue s0 0 = []" using d(1) by (simp add: msg_queue_def user_boot_def ring_view_def ring_count_def)
  then have e: "msg_queue s1 0 = []" using d(4) by simp
  obtain ok s where p: "KiUserEnqueueThreadMessage 1 7 0 0 s1 = (ok, s)" by (cases "KiUserEnqueueThreadMessage 1 7 0 0 s1")
  let ?m = "\<lparr>m_Hwnd = 0, m_Message = 7, m_WParam = 0, m_LParam = 0, m_Time = message_time s1, m_PtX = 0, m_PtY = 0\<rparr>"
  have q: "queue_put 0 ?m s1 = (ok, s)" using p by (simp add: KiUserEnqueueThreadMessage_def KiUserQueueForThread_def)
  from queue_put_view [OF r q] e have v: "ok" "msg_queue s 0 = [?m]" by simp_all
  then have ev: "InputEvent (g_user_thread_queues s 0) \<noteq> 0" using q d(3) by (auto simp: queue_put_def Let_def split: if_splits)
  have "NtUserPostThreadMessage (\<lambda>i. if i = 0 then 1 else if i = 1 then 7 else 0) s1 = (of_bool ok, s)"
    using p by (simp add: NtUserPostThreadMessage_def)
  then have st: "user_step\<^sup>*\<^sup>* s0 s" using d(2) post_thread by (metis (no_types) rtranclp.rtrancl_refl rtranclp.rtrancl_into_rtrancl)
  have "KiUserQueueForThread 1 = Some 0" by (simp add: KiUserQueueForThread_def)
  from input_event_no_lost_wakeup [OF d(1) st this ev] v st show ?thesis by auto
qed

theorem message_queues_fifo_witness:
  "\<exists>(s :: user_state) s'. KiUserEnqueueThreadMessage 1 7 0 0 s = (True, s') \<and> map m_Message (msg_queue s' 0) = [7]"
proof -
  obtain s :: user_state where d: "user_boot s" by (rule demo_user_state)
  have e: "msg_queue s 0 = []" using d by (simp add: msg_queue_def user_boot_def ring_view_def ring_count_def)
  obtain ok s' where p: "KiUserEnqueueThreadMessage 1 7 0 0 s = (ok, s')" by (cases "KiUserEnqueueThreadMessage 1 7 0 0 s")
  have "KiUserQueueForThread 1 = Some 0" by (simp add: KiUserQueueForThread_def)
  with message_queues_fifo [OF d rtranclp.rtrancl_refl, of 0 1 7 0 0 True] p e have "ok" "map m_Message (msg_queue s' 0) = [7]" by auto
  then show ?thesis using p by (intro exI [of _ s] exI [of _ s']) simp
qed

end
