(* ===== verification/Nt_Atom.thy ===== *)
theory Nt_Atom
  imports Ps_Object
begin

text \<open>
  The USER name tables of \<^verbatim>\<open>kernel/ke/syscall.c\<close>: the atom table, window classes and window properties, with the capture of names
  from user memory. A wide string in a kernel buffer is the list of its characters, with \<open>wstr\<close> what a reader that stops at the NUL
  sees. The tables are the arrays of the code with their counts. A service that reads a user pointer without probing it, or a buffer that
  nothing was stored in, is undefined (\<open>None\<close>) there. Log lines are left out.

  \<open>name_inv\<close> joins the invariants of the three tables and is kept by every service: an atom stands for one name, a class name for one
  class, a window and property name for one value.
\<close>

section \<open>State\<close>

record USER_ATOM_ENTRY =
  ae_Name :: "u16 list"
  ae_Atom :: u16

record USER_CLASS =
  c_Name :: "u16 list"
  c_WndProc :: u64
  c_Instance :: u64
  c_Style :: u32
  c_WndExtra :: u32
  c_Atom :: u16
  c_Used :: bool

record USER_PROP =
  p_Hwnd :: u64
  p_Name :: u64
  p_Value :: u64
  p_Used :: bool

record name_state = ps_state +
  g_user_atoms :: "u32 \<Rightarrow> USER_ATOM_ENTRY"
  g_user_atom_count :: u32
  g_user_classes :: "nat \<Rightarrow> USER_CLASS"
  g_user_props :: "nat \<Rightarrow> USER_PROP"

abbreviation "USER_MAX_ATOMS \<equiv> (192 :: u32)"
abbreviation "USER_ATOM_CHARS \<equiv> (64 :: nat)"
abbreviation "USER_ATOM_FIRST \<equiv> (0xC000 :: u32)"
abbreviation "USER_MAX_CLASSES \<equiv> (64 :: nat)"
abbreviation "USER_MAX_PROPS \<equiv> (128 :: nat)"
abbreviation "WNDCLASSEX_STYLE \<equiv> (0x04 :: u64)"
abbreviation "WNDCLASSEX_WNDPROC \<equiv> (0x08 :: u64)"
abbreviation "WNDCLASSEX_HINSTANCE \<equiv> (0x18 :: u64)"
abbreviation "WNDCLASSEX_CLASSNAME \<equiv> (0x40 :: u64)"

abbreviation zero_class :: USER_CLASS where
  "zero_class \<equiv> \<lparr>c_Name = [], c_WndProc = 0, c_Instance = 0, c_Style = 0, c_WndExtra = 0, c_Atom = 0, c_Used = False\<rparr>"

abbreviation zero_prop :: USER_PROP where
  "zero_prop \<equiv> \<lparr>p_Hwnd = 0, p_Name = 0, p_Value = 0, p_Used = False\<rparr>"

section \<open>Names from user memory\<close>

abbreviation user_vm :: "'z ob_state_scheme \<Rightarrow> vmm_state" where
  "user_vm s \<equiv> mm (pool s)"

definition wstr :: "u16 list \<Rightarrow> u16 list" where
  "wstr xs = takeWhile (\<lambda>c. c \<noteq> 0) xs"

text \<open>The copy loop at index \<open>i\<close>, with \<open>fuel\<close> characters of room left: the characters before the terminator.\<close>

fun copy_wide :: "u64 \<Rightarrow> nat \<Rightarrow> nat \<Rightarrow> 'z ob_state_scheme \<Rightarrow> u16 list option" where
  "copy_wide src i 0 s = Some []"
| "copy_wide src i (Suc room) s =
     do {
       ok \<leftarrow> MmProbeForRead (user_vm s) (src + of_nat (2 * i)) 2;
       if \<not> ok then Some []
       else
         (let c = read16 (user_vm s) (src + of_nat (2 * i))
          in if c = 0 then Some [] else do { cs \<leftarrow> copy_wide src (Suc i) room s; Some (c # cs) })
     }"

text \<open>The string stored in the destination, or \<open>None\<close> inside when nothing is stored. The result of the C function is its length, 0 when
  nothing is stored.\<close>

definition KiCopyWideFromUser :: "u64 \<Rightarrow> nat \<Rightarrow> 'z ob_state_scheme \<Rightarrow> u16 list option option" where
  "KiCopyWideFromUser src cap s =
     (if src = 0 then Some None
      else do {
        ok \<leftarrow> MmProbeForRead (user_vm s) src 2;
        if \<not> ok then Some None else do { cs \<leftarrow> copy_wide src 0 (cap - 1) s; Some (Some cs) }
      })"

definition read_wide :: "u64 \<Rightarrow> nat \<Rightarrow> 'z ob_state_scheme \<Rightarrow> u16 list" where
  "read_wide src n s = map (\<lambda>i. read16 (user_vm s) (src + of_nat (2 * i))) [0..<n]"

definition KiCaptureAtomName :: "u64 \<Rightarrow> nat \<Rightarrow> 'z ob_state_scheme \<Rightarrow> u16 list option option" where
  "KiCaptureAtomName arg cap s =
     (if arg = 0 then Some None
      else do {
        ok \<leftarrow> MmProbeForRead (user_vm s) arg 16;
        if \<not> ok then KiCopyWideFromUser arg cap s
        else
          (let len = read16 (user_vm s) arg; maximum = read16 (user_vm s) (arg + 2); buffer = read64 (user_vm s) (arg + 8);
               chars = unat len div 2
           in if chars \<noteq> 0 \<and> chars < cap \<and> len \<le> maximum \<and> buffer \<noteq> 0 then do {
                ok2 \<leftarrow> MmProbeForRead (user_vm s) buffer (of_nat (2 * chars));
                if ok2 then Some (Some (read_wide buffer chars s)) else KiCopyWideFromUser arg cap s
              }
              else KiCopyWideFromUser arg cap s)
      })"

definition low_wide :: "u16 \<Rightarrow> u16" where
  "low_wide c = (if 0x41 \<le> c \<and> c \<le> 0x5A then c + 32 else c)"

fun KiWideEqual :: "u16 list \<Rightarrow> u16 list \<Rightarrow> bool" where
  "KiWideEqual (x # xs) (y # ys) = (if low_wide x \<noteq> low_wide y then False else KiWideEqual xs ys)"
| "KiWideEqual xs ys = (xs = [] \<and> ys = [])"

section \<open>Atoms\<close>

definition find_atom :: "(USER_ATOM_ENTRY \<Rightarrow> bool) \<Rightarrow> 'z name_state_scheme \<Rightarrow> USER_ATOM_ENTRY option" where
  "find_atom P s = find P (map (\<lambda>i. g_user_atoms s (of_nat i)) [0..<unat (g_user_atom_count s)])"

definition KiUserAddAtom :: "u16 list \<Rightarrow> 'z name_state_scheme \<Rightarrow> u16 \<times> 'z name_state_scheme" where
  "KiUserAddAtom name s =
     (if name = [] then (0, s)
      else case find_atom (\<lambda>e. KiWideEqual (ae_Name e) name) s of
        Some e \<Rightarrow> (ae_Atom e, s)
      | None \<Rightarrow>
          (let n = g_user_atom_count s; atom = ucast (USER_ATOM_FIRST + n)
           in if USER_MAX_ATOMS \<le> n then (0, s)
              else (atom, s\<lparr>g_user_atoms := (g_user_atoms s)(n := \<lparr>ae_Name = take (USER_ATOM_CHARS - 1) name, ae_Atom = atom\<rparr>),
                      g_user_atom_count := n + 1\<rparr>)))"

definition KiUserAtomName :: "u16 \<Rightarrow> 'z name_state_scheme \<Rightarrow> u16 list option" where
  "KiUserAtomName atom s = map_option ae_Name (find_atom (\<lambda>e. ae_Atom e = atom) s)"

definition NtUserRegisterWindowMessage :: "(nat \<Rightarrow> u64) \<Rightarrow> 'z name_state_scheme \<Rightarrow> (u64 \<times> 'z name_state_scheme) option" where
  "NtUserRegisterWindowMessage a s =
     do {
       r \<leftarrow> KiCaptureAtomName (a 0) USER_ATOM_CHARS s;
       case r of
         None \<Rightarrow> Some (0, s)
       | Some name \<Rightarrow>
           if name = [] then Some (0, s)
           else (case KiUserAddAtom (wstr name) s of (atom, s1) \<Rightarrow> Some (ucast atom, s1))
     }"

text \<open>How many characters go to a buffer with room for \<open>room\<close> of them, the terminator included.\<close>

definition fit_chars :: "nat \<Rightarrow> u16 list \<Rightarrow> nat" where
  "fit_chars room name = (if room < length name + 1 then room - 1 else length name)"

text \<open>The copy through a counted string reads the buffer pointer of the descriptor again for every character.\<close>

definition put_counted :: "u64 \<Rightarrow> u16 list \<Rightarrow> (u64 \<Rightarrow> u8) \<Rightarrow> u64 \<Rightarrow> u8" where
  "put_counted ustr cs m =
     store_bytes ustr (le16 (of_nat (2 * (length cs))))
       (fold (\<lambda>(i, c) m. store_bytes (ld64 m (ustr + 8) + of_nat (2 * i)) (le16 c) m) (enumerate 0 (cs @ [0])) m)"

definition get_name_counted :: "u64 \<Rightarrow> u16 list \<Rightarrow> 'z name_state_scheme \<Rightarrow> (u64 \<times> 'z name_state_scheme) option" where
  "get_name_counted ustr name s =
     (let n = fit_chars (unat (read16 (user_vm s) (ustr + 2)) div 2) name
      in do {
        ok \<leftarrow> MmProbeForWrite (user_vm s) (read64 (user_vm s) (ustr + 8)) (of_nat (2 * (n + 1)));
        Some (if ok then (of_nat n, put_user (put_counted ustr (take n name)) s) else (0, s))
      })"

definition get_name_plain :: "u64 \<Rightarrow> u32 \<Rightarrow> u16 list \<Rightarrow> 'z name_state_scheme \<Rightarrow> (u64 \<times> 'z name_state_scheme) option" where
  "get_name_plain buffer capacity name s =
     (if buffer = 0 \<or> capacity = 0 then Some (0, s)
      else
        (let n = fit_chars (unat capacity) name
         in do {
           ok \<leftarrow> MmProbeForWrite (user_vm s) buffer (of_nat (2 * (n + 1)));
           Some (if ok then (of_nat n, put_user (store_bytes buffer (concat (map le16 (take n name @ [0])))) s) else (0, s))
         }))"

definition NtUserGetAtomName :: "(nat \<Rightarrow> u64) \<Rightarrow> 'z name_state_scheme \<Rightarrow> (u64 \<times> 'z name_state_scheme) option" where
  "NtUserGetAtomName a s =
     (case KiUserAtomName (ucast (a 0)) s of
        None \<Rightarrow> Some (0, s)
      | Some name \<Rightarrow>
          if a 1 \<noteq> 0 \<and> (ucast (a 2) :: u32) = 0 then do {
            ok \<leftarrow> MmProbeForRead (user_vm s) (a 1) 16;
            ok2 \<leftarrow> MmProbeForWrite (user_vm s) (a 1) 16;
            if ok \<and> read64 (user_vm s) (a 1 + 8) \<noteq> 0 \<and> 2 \<le> read16 (user_vm s) (a 1 + 2) \<and> ok2
            then get_name_counted (a 1) name s else get_name_plain (a 1) (ucast (a 2)) name s
          }
          else get_name_plain (a 1) (ucast (a 2)) name s)"

section \<open>Window classes\<close>

definition find_class :: "(USER_CLASS \<Rightarrow> bool) \<Rightarrow> 'z name_state_scheme \<Rightarrow> nat option" where
  "find_class P s = find (\<lambda>i. P (g_user_classes s i)) [0..<USER_MAX_CLASSES]"

text \<open>The class name of a registration: the counted string, or else the string the class structure points to.\<close>

definition class_name :: "u64 \<Rightarrow> u64 \<Rightarrow> 'z name_state_scheme \<Rightarrow> u16 list option" where
  "class_name wcex ustr s =
     do {
       counted \<leftarrow> (if ustr = 0 then Some [] else do {
         ok \<leftarrow> MmProbeForRead (user_vm s) ustr 16;
         if \<not> ok then Some []
         else
           (let chars = min (unat (read16 (user_vm s) ustr) div 2) 31; buffer = read64 (user_vm s) (ustr + 8)
            in if chars = 0 \<or> buffer = 0 then Some []
               else do {
                 ok2 \<leftarrow> MmProbeForRead (user_vm s) buffer (of_nat (2 * chars));
                 Some (if ok2 then read_wide buffer chars s else [])
               })
       });
       if counted \<noteq> [] \<or> wcex = 0 then Some counted
       else do {
         ok \<leftarrow> MmProbeForRead (user_vm s) wcex 80;
         if \<not> ok then Some []
         else do {
           r \<leftarrow> KiCopyWideFromUser (read64 (user_vm s) (wcex + WNDCLASSEX_CLASSNAME)) 32 s;
           Some (case r of None \<Rightarrow> [] | Some cs \<Rightarrow> cs)
         }
       }
     }"

text \<open>Filling a free slot. Only the window-extra word is probed; the other fields are undefined unless the structure is readable.\<close>

definition fill_class :: "nat \<Rightarrow> u64 \<Rightarrow> u16 list \<Rightarrow> 'z name_state_scheme \<Rightarrow> (u64 \<times> 'z name_state_scheme) option" where
  "fill_class i wcex name s =
     do {
       ok \<leftarrow> MmProbeForRead (user_vm s) (wcex + WNDCLASSEX_STYLE) 0x1C;
       ok2 \<leftarrow> MmProbeForRead (user_vm s) (wcex + 0x14) 4;
       if \<not> ok then None
       else
         (let old = g_user_classes s i;
              (atom, s1) = KiUserAddAtom (wstr name) s;
              c = \<lparr>c_Name = wstr name, c_WndProc = read64 (user_vm s) (wcex + WNDCLASSEX_WNDPROC),
                   c_Instance = read64 (user_vm s) (wcex + WNDCLASSEX_HINSTANCE), c_Style = ucast (read64 (user_vm s) (wcex + WNDCLASSEX_STYLE)),
                   c_WndExtra = (if ok2 then ucast (read64 (user_vm s) (wcex + 0x14)) else c_WndExtra old), c_Atom = atom, c_Used = True\<rparr>
          in Some (ucast atom, s1\<lparr>g_user_classes := (g_user_classes s1)(i := c)\<rparr>))
     }"

definition NtUserRegisterClassExWOW :: "(nat \<Rightarrow> u64) \<Rightarrow> 'z name_state_scheme \<Rightarrow> (u64 \<times> 'z name_state_scheme) option" where
  "NtUserRegisterClassExWOW a s =
     do {
       name \<leftarrow> class_name (a 0) (a 1) s;
       if name = [] then Some (0, s)
       else case find_class (\<lambda>c. c_Used c \<and> KiWideEqual (c_Name c) (wstr name)) s of
         Some i \<Rightarrow> Some (ucast (c_Atom (g_user_classes s i)), s)
       | None \<Rightarrow>
           (case find_class (\<lambda>c. \<not> c_Used c) s of
              None \<Rightarrow> Some (0, s)
            | Some i \<Rightarrow> fill_class i (a 0) name s)
     }"

definition NtUserUnregisterClass :: "(nat \<Rightarrow> u64) \<Rightarrow> 'z name_state_scheme \<Rightarrow> (u64 \<times> 'z name_state_scheme) option" where
  "NtUserUnregisterClass a s =
     do {
       ok \<leftarrow> MmProbeForRead (user_vm s) (a 1) 8;
       if \<not> ok then None
       else do {
         r \<leftarrow> KiCopyWideFromUser (read64 (user_vm s) (a 1)) 32 s;
         case r of
           None \<Rightarrow> None
         | Some name \<Rightarrow>
             (case find_class (\<lambda>c. c_Used c \<and> KiWideEqual (c_Name c) name) s of
                None \<Rightarrow> Some (0, s)
              | Some i \<Rightarrow> Some (1, s\<lparr>g_user_classes := (g_user_classes s)(i := zero_class)\<rparr>))
       }
     }"

text \<open>\<^verbatim>\<open>NtUserGetClassInfoEx\<close> probes the name one character at a time.\<close>

fun probe_chars :: "u64 \<Rightarrow> nat list \<Rightarrow> 'z name_state_scheme \<Rightarrow> bool option" where
  "probe_chars buffer [] s = Some True"
| "probe_chars buffer (i # is) s =
     do {
       ok \<leftarrow> MmProbeForRead (user_vm s) (buffer + of_nat (2 * i)) 2;
       if ok then probe_chars buffer is s else Some False
     }"

definition NtUserGetClassInfoEx :: "(nat \<Rightarrow> u64) \<Rightarrow> 'z name_state_scheme \<Rightarrow> (u64 \<times> 'z name_state_scheme) option" where
  "NtUserGetClassInfoEx a s =
     do {
       ok \<leftarrow> MmProbeForRead (user_vm s) (a 1) 16;
       ok2 \<leftarrow> MmProbeForWrite (user_vm s) (a 2) 80;
       if a 1 = 0 \<or> \<not> ok \<or> a 2 = 0 \<or> \<not> ok2 then Some (0, s)
       else
         (let chars = min (unat (read16 (user_vm s) (a 1)) div 2) 31; buffer = read64 (user_vm s) (a 1 + 8)
          in do {
            ok3 \<leftarrow> probe_chars buffer [0..<chars] s;
            if \<not> ok3 then Some (0, s)
            else case find_class (\<lambda>c. c_Used c \<and> KiWideEqual (c_Name c) (wstr (read_wide buffer chars s))) s of
              None \<Rightarrow> Some (0, s)
            | Some i \<Rightarrow>
                (let c = g_user_classes s i
                 in Some (ucast (c_Atom c), put_user (\<lambda>m.
                      let m1 = store_bytes (a 2) (replicate 80 0) m;
                          m2 = st32 (a 2 + WNDCLASSEX_STYLE) (c_Style c) m1;
                          m3 = st64 (a 2 + WNDCLASSEX_WNDPROC) (c_WndProc c) m2;
                          m4 = st64 (a 2 + WNDCLASSEX_HINSTANCE) (c_Instance c) m3
                      in st64 (a 2 + WNDCLASSEX_CLASSNAME) (ld64 m4 (a 1 + 8)) m4) s))
          })
     }"

text \<open>The class of a new window, by an atom in the argument or in the buffer field of the string, or by name. \<open>None\<close> inside: no such class.\<close>

definition class_by_atom :: "u16 \<Rightarrow> 'z name_state_scheme \<Rightarrow> nat option" where
  "class_by_atom atom s = (if atom = 0 then None else find_class (\<lambda>c. c_Used c \<and> c_Atom c = atom) s)"

definition read_ansi :: "u64 \<Rightarrow> nat \<Rightarrow> 'z name_state_scheme \<Rightarrow> u16 list" where
  "read_ansi src n s = map (\<lambda>i. ucast (umem (user_vm s) (src + of_nat i))) [0..<n]"

definition class_by_string :: "u64 \<Rightarrow> u32 \<Rightarrow> bool \<Rightarrow> 'z name_state_scheme \<Rightarrow> nat option option" where
  "class_by_string buffer len ansi s =
     (let n = (if ansi then min (unat len) 31 else min (unat len div 2) 31)
      in do {
        ok \<leftarrow> MmProbeForRead (user_vm s) buffer (of_nat (if ansi then n else 2 * n));
        Some (if \<not> ok then None
              else find_class (\<lambda>c. c_Used c \<and> KiWideEqual (c_Name c) (wstr (if ansi then read_ansi buffer n s else read_wide buffer n s))) s)
      })"

definition KiClassForCreate :: "u64 \<Rightarrow> 'z name_state_scheme \<Rightarrow> nat option option" where
  "KiClassForCreate class_arg s =
     (if class_arg = 0 then Some None
      else if class_arg AND NOT 0xFFFF = 0 then Some (class_by_atom (ucast class_arg) s)
      else do {
        ok \<leftarrow> MmProbeForRead (user_vm s) class_arg 16;
        if \<not> ok then Some None
        else
          (let len = ucast (read64 (user_vm s) class_arg) :: u32; buffer = read64 (user_vm s) (class_arg + 8);
               ansi = drop_bit 31 (ucast (read64 (user_vm s) (class_arg + 4)) :: u32) \<noteq> 0
           in if buffer \<noteq> 0 \<and> buffer AND NOT 0xFFFF = 0 then Some (class_by_atom (ucast buffer) s)
              else if len \<noteq> 0 \<and> buffer \<noteq> 0 then class_by_string buffer len ansi s
              else Some None)
      })"

section \<open>Window properties\<close>

definition prop_is :: "u64 \<Rightarrow> u64 \<Rightarrow> USER_PROP \<Rightarrow> bool" where
  "prop_is hwnd name p \<longleftrightarrow> p_Used p \<and> p_Hwnd p = hwnd \<and> p_Name p = name"

definition find_prop :: "(USER_PROP \<Rightarrow> bool) \<Rightarrow> 'z name_state_scheme \<Rightarrow> nat option" where
  "find_prop P s = find (\<lambda>i. P (g_user_props s i)) [0..<USER_MAX_PROPS]"

definition upd_prop :: "nat \<Rightarrow> (USER_PROP \<Rightarrow> USER_PROP) \<Rightarrow> 'z name_state_scheme \<Rightarrow> 'z name_state_scheme" where
  "upd_prop i f s = s\<lparr>g_user_props := (g_user_props s)(i := f (g_user_props s i))\<rparr>"

definition NtUserSetProp :: "(nat \<Rightarrow> u64) \<Rightarrow> 'z name_state_scheme \<Rightarrow> u64 \<times> 'z name_state_scheme" where
  "NtUserSetProp a s =
     (case find_prop (prop_is (a 0) (a 1)) s of
        Some i \<Rightarrow> (1, upd_prop i (\<lambda>p. p\<lparr>p_Value := a 2\<rparr>) s)
      | None \<Rightarrow>
          (case find_prop (\<lambda>p. \<not> p_Used p) s of
             Some i \<Rightarrow> (1, upd_prop i (\<lambda>_. \<lparr>p_Hwnd = a 0, p_Name = a 1, p_Value = a 2, p_Used = True\<rparr>) s)
           | None \<Rightarrow> (0, s)))"

definition NtUserGetProp :: "(nat \<Rightarrow> u64) \<Rightarrow> 'z name_state_scheme \<Rightarrow> u64" where
  "NtUserGetProp a s = (case find_prop (prop_is (a 0) (a 1)) s of Some i \<Rightarrow> p_Value (g_user_props s i) | None \<Rightarrow> 0)"

definition NtUserRemoveProp :: "(nat \<Rightarrow> u64) \<Rightarrow> 'z name_state_scheme \<Rightarrow> u64 \<times> 'z name_state_scheme" where
  "NtUserRemoveProp a s =
     (case find_prop (prop_is (a 0) (a 1)) s of
        Some i \<Rightarrow> (1, upd_prop i (\<lambda>_. zero_prop) s)
      | None \<Rightarrow> (0, s))"

section \<open>Interning\<close>

lemma wide_equal: "KiWideEqual xs ys \<longleftrightarrow> map low_wide xs = map low_wide ys"
  by (induction xs ys rule: KiWideEqual.induct) auto

lemma find_upt_Some: "find P [0..<n] = Some i \<Longrightarrow> i < n \<and> P i"
  by (auto simp: find_Some_iff)

lemma find_upt_None: "find P [0..<n] = None \<longleftrightarrow> (\<forall>i < n. \<not> P i)"
  by (auto simp: find_None_iff)

lemma find_upt_least: "i < n \<Longrightarrow> P i \<Longrightarrow> (\<And>j. j < n \<Longrightarrow> P j \<Longrightarrow> j = i) \<Longrightarrow> find P [0..<n] = Some i"
proof (cases "find P [0..<n]")
  case (Some j)
  moreover assume "\<And>j. j < n \<Longrightarrow> P j \<Longrightarrow> j = i"
  ultimately show ?thesis using find_upt_Some [OF Some] by blast
qed (use find_upt_None [of P n] in blast)

lemma find_map: "find P (map f xs) = map_option f (find (\<lambda>x. P (f x)) xs)"
  by (induction xs) auto

definition atom_at :: "'z name_state_scheme \<Rightarrow> nat \<Rightarrow> USER_ATOM_ENTRY" where
  "atom_at s i = g_user_atoms s (of_nat i)"

abbreviation atom_count :: "'z name_state_scheme \<Rightarrow> nat" where
  "atom_count s \<equiv> unat (g_user_atom_count s)"

definition atoms_ok :: "'z name_state_scheme \<Rightarrow> bool" where
  "atoms_ok s \<longleftrightarrow> atom_count s \<le> 192 \<and> (\<forall>i < atom_count s. ae_Atom (atom_at s i) = of_nat (0xC000 + i)) \<and>
     (\<forall>i < atom_count s. \<forall>j < atom_count s. i \<noteq> j \<longrightarrow> \<not> KiWideEqual (ae_Name (atom_at s i)) (ae_Name (atom_at s j)))"

lemma find_atom_alt: "find_atom P s = map_option (atom_at s) (find (\<lambda>i. P (atom_at s i)) [0..<atom_count s])"
  by (simp add: find_atom_def find_map atom_at_def [abs_def])

lemma atom_number:
  assumes "i < 192"
  shows "unat (of_nat (0xC000 + i) :: u16) = 0xC000 + i"
  using assms by (intro unat_of_nat_id) simp

lemma atom_number_inj: "i < 192 \<Longrightarrow> j < 192 \<Longrightarrow> (of_nat (0xC000 + i) :: u16) = of_nat (0xC000 + j) \<Longrightarrow> i = j"
  using atom_number [of i] atom_number [of j] by (metis add_left_cancel)

lemma atom_number_nonzero: "i < 192 \<Longrightarrow> (of_nat (0xC000 + i) :: u16) \<noteq> 0"
  using atom_number [of i] by (metis add_eq_0_iff_both_eq_0 unat_0 zero_neq_numeral)

lemma atom_word:
  assumes "atom_count s < 192"
  shows "ucast (USER_ATOM_FIRST + g_user_atom_count s) = (of_nat (0xC000 + atom_count s) :: u16)"
proof (rule unsigned_word_eqI)
  have "unat (USER_ATOM_FIRST + g_user_atom_count s) = 0xC000 + atom_count s" using assms by (subst unat_add_lem [THEN iffD1]) simp_all
  then show "unat (ucast (USER_ATOM_FIRST + g_user_atom_count s) :: u16) = unat (of_nat (0xC000 + atom_count s) :: u16)"
    using assms by (simp only: unsigned_ucast_eq atom_number) (simp add: take_bit_nat_eq_self)
qed

text \<open>The table only grows.\<close>

definition extends :: "'z name_state_scheme \<Rightarrow> 'z name_state_scheme \<Rightarrow> bool" where
  "extends s s' \<longleftrightarrow> atom_count s \<le> atom_count s' \<and> (\<forall>i < atom_count s. atom_at s' i = atom_at s i)"

lemma extends_refl [simp]: "extends s s"
  by (simp add: extends_def)

lemma extends_trans: "extends s s' \<Longrightarrow> extends s' s'' \<Longrightarrow> extends s s''"
  by (auto simp: extends_def)

lemma add_atom_cases:
  assumes ok: "atoms_ok s" and len: "length name \<le> 63" and c: "KiUserAddAtom name s = (t, s')"
  obtains (known) i where "i < atom_count s" "KiWideEqual (ae_Name (atom_at s i)) name" "t = of_nat (0xC000 + i)" "s' = s"
  | (new) "name \<noteq> []" "atom_count s < 192" "t = of_nat (0xC000 + atom_count s)" "atom_count s' = Suc (atom_count s)" "extends s s'"
      "atom_at s' (atom_count s) = \<lparr>ae_Name = name, ae_Atom = t\<rparr>" "\<forall>i < atom_count s. \<not> KiWideEqual (ae_Name (atom_at s i)) name"
      "g_user_classes s' = g_user_classes s" "g_user_props s' = g_user_props s" "pool s' = pool s"
  | (none) "name = [] \<or> atom_count s = 192 \<and> (\<forall>i < atom_count s. \<not> KiWideEqual (ae_Name (atom_at s i)) name)" "t = 0" "s' = s"
proof (cases "name = []")
  case True
  then have "t = 0" "s' = s" using c by (simp_all add: KiUserAddAtom_def)
  then show thesis using True none by blast
next
  case nz: False
  let ?f = "find (\<lambda>i. KiWideEqual (ae_Name (atom_at s i)) name) [0..<atom_count s]"
  have le: "atom_count s \<le> 192" using ok by (simp add: atoms_ok_def)
  have "KiUserAddAtom name s = (case map_option (atom_at s) ?f of Some e \<Rightarrow> (ae_Atom e, s)
      | None \<Rightarrow> (let n = g_user_atom_count s; atom = ucast (USER_ATOM_FIRST + n)
           in if USER_MAX_ATOMS \<le> n then (0, s)
              else (atom, s\<lparr>g_user_atoms := (g_user_atoms s)(n := \<lparr>ae_Name = take (USER_ATOM_CHARS - 1) name, ae_Atom = atom\<rparr>), g_user_atom_count := n + 1\<rparr>)))"
    using nz by (simp add: KiUserAddAtom_def find_atom_alt)
  note c' = trans [OF c [symmetric] this]
  show thesis
  proof (cases ?f)
    case (Some i)
    then have i: "i < atom_count s" "KiWideEqual (ae_Name (atom_at s i)) name" using find_upt_Some [OF Some] by simp_all
    moreover have "t = ae_Atom (atom_at s i)" "s' = s" using c' Some by (simp_all only: option.map option.case prod.inject)
    moreover have "ae_Atom (atom_at s i) = of_nat (0xC000 + i)" using ok i(1) unfolding atoms_ok_def by blast
    ultimately show thesis using known [OF i] by (simp only:)
  next
    case None
    then have d: "\<forall>i < atom_count s. \<not> KiWideEqual (ae_Name (atom_at s i)) name" unfolding find_upt_None .
    show thesis
    proof (cases "USER_MAX_ATOMS \<le> g_user_atom_count s")
      case True
      then have "t = 0" "s' = s" using c' None by (simp_all only: option.map option.case Let_def if_True prod.inject)
      moreover have "atom_count s = 192" using True le by (simp add: word_le_nat_alt)
      ultimately show thesis using none d by blast
    next
      case False
      then have lt: "atom_count s < 192" by (simp add: word_le_nat_alt)
      then have n: "unat (g_user_atom_count s + 1) = Suc (atom_count s)" by (subst unat_add_lem [THEN iffD1]) simp_all
      have tk: "take (USER_ATOM_CHARS - 1) name = name" using len by simp
      have s': "t = of_nat (0xC000 + atom_count s)" "s' = s\<lparr>g_user_atoms := (g_user_atoms s)(g_user_atom_count s :=
          \<lparr>ae_Name = name, ae_Atom = t\<rparr>), g_user_atom_count := g_user_atom_count s + 1\<rparr>"
        using c' None False by (simp_all only: tk option.map option.case Let_def if_False prod.inject atom_word [OF lt])
      have "atom_at s' i = atom_at s i" if "i < atom_count s" for i
      proof -
        have "unat (of_nat i :: u32) = i" using that lt by (intro unat_of_nat_id) simp
        then have "of_nat i \<noteq> g_user_atom_count s" using that by auto
        then show ?thesis by (simp add: s'(2) atom_at_def)
      qed
      moreover have n': "atom_count s' = Suc (atom_count s)" using n by (simp add: s'(2))
      ultimately have x: "extends s s'" unfolding extends_def by simp
      have y: "atom_at s' (atom_count s) = \<lparr>ae_Name = name, ae_Atom = t\<rparr>" by (simp add: s'(2) atom_at_def)
      show thesis using new [OF nz lt s'(1) n' x y d] by (simp add: s'(2))
    qed
  qed
qed

lemma add_atom_ok:
  assumes ok: "atoms_ok s" and len: "length name \<le> 63" and c: "KiUserAddAtom name s = (t, s')"
  shows "atoms_ok s'" "extends s s'"
    "t \<noteq> 0 \<Longrightarrow> \<exists>i < atom_count s'. t = of_nat (0xC000 + i) \<and> KiWideEqual (ae_Name (atom_at s' i)) name"
proof -
  have *: "atoms_ok s' \<and> extends s s' \<and> (t \<noteq> 0 \<longrightarrow> (\<exists>i < atom_count s'. t = of_nat (0xC000 + i) \<and> KiWideEqual (ae_Name (atom_at s' i)) name))"
    using ok len c
  proof (cases rule: add_atom_cases)
    case (known i)
    then show ?thesis using ok by auto
  next
    case new
    have "atoms_ok s'" unfolding atoms_ok_def new(4)
    proof (intro conjI allI impI)
      fix i j assume i: "i < Suc (atom_count s)" and j: "j < Suc (atom_count s)" and e: "i \<noteq> j"
      have o: "atom_at s' x = atom_at s x" if "x < atom_count s" for x using new(5) that by (simp add: extends_def)
      show "\<not> KiWideEqual (ae_Name (atom_at s' i)) (ae_Name (atom_at s' j))"
      proof (cases "i = atom_count s \<or> j = atom_count s")
        case True
        then show ?thesis using i j e o new(6,7) by (auto simp: less_Suc_eq wide_equal)
      next
        case False
        then show ?thesis using i j e o ok by (auto simp: less_Suc_eq atoms_ok_def)
      qed
    qed (use new ok in \<open>auto simp: atoms_ok_def extends_def less_Suc_eq\<close>)
    then show ?thesis using new by (auto intro!: exI [of _ "atom_count s"] simp: wide_equal)
  qed (use ok in simp)
  then show "atoms_ok s'" "extends s s'"
    "t \<noteq> 0 \<Longrightarrow> \<exists>i < atom_count s'. t = of_nat (0xC000 + i) \<and> KiWideEqual (ae_Name (atom_at s' i)) name" by blast+
qed

lemma atom_name_at:
  assumes "atoms_ok s" "i < atom_count s"
  shows "KiUserAtomName (of_nat (0xC000 + i)) s = Some (ae_Name (atom_at s i))"
proof -
  have "atom_count s \<le> 192" using assms(1) by (simp add: atoms_ok_def)
  then have "find (\<lambda>j. ae_Atom (atom_at s j) = of_nat (0xC000 + i)) [0..<atom_count s] = Some i"
    using assms atom_number_inj by (intro find_upt_least) (auto simp: atoms_ok_def)
  then show ?thesis by (simp add: KiUserAtomName_def find_atom_alt)
qed

section \<open>Lengths of captured names\<close>

lemma wstr_length: "length (wstr xs) \<le> length xs"
  by (simp add: wstr_def length_takeWhile_le)

lemma copy_wide_length: "copy_wide src i room s = Some cs \<Longrightarrow> length cs \<le> room"
proof (induction room arbitrary: i cs)
  case (Suc room)
  then show ?case by (fastforce simp: Let_def split: bind_splits if_splits)
qed simp

lemma copy_wide_from_user_length: "KiCopyWideFromUser src cap s = Some (Some cs) \<Longrightarrow> length cs \<le> cap - 1"
  using copy_wide_length by (auto simp: KiCopyWideFromUser_def split: bind_splits if_splits)

lemma capture_length: "KiCaptureAtomName arg cap s = Some (Some cs) \<Longrightarrow> length cs \<le> cap - 1"
  using copy_wide_from_user_length
  by (fastforce simp: KiCaptureAtomName_def read_wide_def Let_def split: bind_splits if_splits)

lemma class_name_length: "class_name wcex ustr s = Some cs \<Longrightarrow> length cs \<le> 31"
  using copy_wide_from_user_length [of _ 32 s]
  by (fastforce simp: class_name_def read_wide_def Let_def split: bind_splits if_splits option.splits)

section \<open>Classes\<close>

definition classes_ok :: "'z name_state_scheme \<Rightarrow> bool" where
  "classes_ok s \<longleftrightarrow>
     (\<forall>i < 64. c_Used (g_user_classes s i) \<and> c_Atom (g_user_classes s i) \<noteq> 0 \<longrightarrow>
        (\<exists>k < atom_count s. c_Atom (g_user_classes s i) = of_nat (0xC000 + k) \<and> KiWideEqual (ae_Name (atom_at s k)) (c_Name (g_user_classes s i)))) \<and>
     (\<forall>i < 64. \<forall>j < 64. i \<noteq> j \<and> c_Used (g_user_classes s i) \<and> c_Used (g_user_classes s j) \<longrightarrow>
        \<not> KiWideEqual (c_Name (g_user_classes s i)) (c_Name (g_user_classes s j)))"

lemma classes_ok_extends:
  assumes "classes_ok s" "extends s s'" "g_user_classes s' = g_user_classes s"
  shows "classes_ok s'"
proof -
  have "\<exists>k < atom_count s'. c_Atom (g_user_classes s i) = of_nat (0xC000 + k) \<and> KiWideEqual (ae_Name (atom_at s' k)) (c_Name (g_user_classes s i))"
    if i: "i < 64" "c_Used (g_user_classes s i)" "c_Atom (g_user_classes s i) \<noteq> 0" for i
  proof -
    obtain k where "k < atom_count s" "c_Atom (g_user_classes s i) = of_nat (0xC000 + k)" "KiWideEqual (ae_Name (atom_at s k)) (c_Name (g_user_classes s i))"
      using assms(1) i unfolding classes_ok_def by blast
    then show ?thesis using assms(2) by (intro exI [of _ k]) (auto simp: extends_def)
  qed
  then show ?thesis using assms(1,3) unfolding classes_ok_def by simp
qed

lemma find_class_Some: "find_class P s = Some i \<Longrightarrow> i < 64 \<and> P (g_user_classes s i)"
  unfolding find_class_def by (rule find_upt_Some)

lemma find_class_None: "find_class P s = None \<longleftrightarrow> (\<forall>i < 64. \<not> P (g_user_classes s i))"
  unfolding find_class_def by (rule find_upt_None)

lemma fill_class_ok:
  assumes ok: "atoms_ok s" "classes_ok s" and i: "i < 64" and len: "length name \<le> 31"
    and free: "\<forall>j < 64. \<not> (c_Used (g_user_classes s j) \<and> KiWideEqual (c_Name (g_user_classes s j)) (wstr name))"
    and c: "fill_class i wcex name s = Some (t, s')"
  shows "atoms_ok s' \<and> classes_ok s' \<and> extends s s' \<and> g_user_props s' = g_user_props s \<and> c_Used (g_user_classes s' i) \<and>
    c_Name (g_user_classes s' i) = wstr name \<and> t = ucast (c_Atom (g_user_classes s' i)) \<and>
    c_WndProc (g_user_classes s' i) = read64 (user_vm s) (wcex + 8)"
proof -
  obtain at s1 where a: "KiUserAddAtom (wstr name) s = (at, s1)" by (cases "KiUserAddAtom (wstr name) s")
  have wl: "length (wstr name) \<le> 63" using wstr_length [of name] len by simp
  note ad = add_atom_ok [OF ok(1) wl a]
  have g1: "g_user_classes s1 = g_user_classes s" "g_user_props s1 = g_user_props s"
    using a by (auto simp: KiUserAddAtom_def Let_def split: if_splits option.splits)
  from c a obtain cl where s': "s' = s1\<lparr>g_user_classes := (g_user_classes s1)(i := cl)\<rparr>" "t = ucast at" "c_Name cl = wstr name" "c_Atom cl = at" "c_Used cl"
    "c_WndProc cl = read64 (user_vm s) (wcex + 8)" by (auto simp: fill_class_def Let_def split: bind_splits if_splits)
  have at: "atom_at s' = atom_at s1" "atom_count s' = atom_count s1" by (simp_all add: s'(1) atom_at_def fun_eq_iff)
  have "atoms_ok s'" using ad(1) by (simp add: atoms_ok_def at)
  moreover have "extends s s'" using ad(2) by (simp add: extends_def at)
  moreover have "classes_ok s'" unfolding classes_ok_def at
  proof (intro conjI allI impI)
    have o: "classes_ok s1" using classes_ok_extends [OF ok(2) ad(2) g1(1)] .
    fix x assume x: "x < 64" "c_Used (g_user_classes s' x) \<and> c_Atom (g_user_classes s' x) \<noteq> 0"
    show "\<exists>k < atom_count s1. c_Atom (g_user_classes s' x) = of_nat (0xC000 + k) \<and> KiWideEqual (ae_Name (atom_at s1 k)) (c_Name (g_user_classes s' x))"
    proof (cases "x = i")
      case True
      then show ?thesis using ad(3) x(2) by (auto simp: s')
    next
      case False
      then show ?thesis using o x unfolding classes_ok_def by (simp add: s')
    qed
  next
    fix x y assume xy: "x < 64" "y < 64" "x \<noteq> y \<and> c_Used (g_user_classes s' x) \<and> c_Used (g_user_classes s' y)"
    show "\<not> KiWideEqual (c_Name (g_user_classes s' x)) (c_Name (g_user_classes s' y))"
      using xy free ok(2) g1(1) by (auto simp: s' classes_ok_def wide_equal split: if_splits)
  qed
  ultimately show ?thesis using s' g1 i by simp
qed

lemma class_by_atom_at:
  assumes ok: "atoms_ok s" "classes_ok s" and i: "i < 64" "c_Used (g_user_classes s i)" "c_Atom (g_user_classes s i) \<noteq> 0"
  shows "class_by_atom (c_Atom (g_user_classes s i)) s = Some i"
    "\<exists>x. KiUserAtomName (c_Atom (g_user_classes s i)) s = Some x \<and> KiWideEqual x (c_Name (g_user_classes s i))"
proof -
  obtain k where k: "k < atom_count s" "c_Atom (g_user_classes s i) = of_nat (0xC000 + k)" "KiWideEqual (ae_Name (atom_at s k)) (c_Name (g_user_classes s i))"
    using ok(2) i unfolding classes_ok_def by blast
  then show "\<exists>x. KiUserAtomName (c_Atom (g_user_classes s i)) s = Some x \<and> KiWideEqual x (c_Name (g_user_classes s i))"
    using atom_name_at [OF ok(1) k(1)] by simp
  have cnt: "atom_count s \<le> 192" using ok(1) by (simp add: atoms_ok_def)
  have "j = i" if j: "j < 64" "c_Used (g_user_classes s j)" "c_Atom (g_user_classes s j) = c_Atom (g_user_classes s i)" for j
  proof (rule ccontr)
    assume "j \<noteq> i"
    obtain l where l: "l < atom_count s" "c_Atom (g_user_classes s j) = of_nat (0xC000 + l)" "KiWideEqual (ae_Name (atom_at s l)) (c_Name (g_user_classes s j))"
      using ok(2) i(3) j unfolding classes_ok_def by metis
    have "l = k" by (rule atom_number_inj) (use l(1,2) k(1,2) j(3) cnt in simp_all)
    then have "KiWideEqual (c_Name (g_user_classes s j)) (c_Name (g_user_classes s i))" using l(3) k(3) by (simp add: wide_equal)
    then show False using ok(2) i j \<open>j \<noteq> i\<close> unfolding classes_ok_def by blast
  qed
  then show "class_by_atom (c_Atom (g_user_classes s i)) s = Some i"
    using i unfolding class_by_atom_def find_class_def by (auto intro!: find_upt_least)
qed

section \<open>Properties of windows as a map\<close>

definition props_ok :: "'z name_state_scheme \<Rightarrow> bool" where
  "props_ok s \<longleftrightarrow> (\<forall>i < 128. \<forall>j < 128. i \<noteq> j \<and> p_Used (g_user_props s i) \<and> p_Used (g_user_props s j) \<longrightarrow>
     (p_Hwnd (g_user_props s i), p_Name (g_user_props s i)) \<noteq> (p_Hwnd (g_user_props s j), p_Name (g_user_props s j)))"

definition prop_map :: "'z name_state_scheme \<Rightarrow> u64 \<times> u64 \<rightharpoonup> u64" where
  "prop_map s k = map_option (\<lambda>i. p_Value (g_user_props s i)) (find_prop (prop_is (fst k) (snd k)) s)"

lemma find_prop_Some: "find_prop P s = Some i \<Longrightarrow> i < 128 \<and> P (g_user_props s i)"
  unfolding find_prop_def by (rule find_upt_Some)

lemma find_prop_None: "find_prop P s = None \<longleftrightarrow> (\<forall>i < 128. \<not> P (g_user_props s i))"
  unfolding find_prop_def by (rule find_upt_None)

lemma props_unique:
  assumes "props_ok s" "i < 128" "j < 128" "prop_is h n (g_user_props s i)" "prop_is h n (g_user_props s j)"
  shows "j = i"
proof (rule ccontr)
  assume "j \<noteq> i"
  moreover have "p_Used (g_user_props s i)" "p_Used (g_user_props s j)" "p_Hwnd (g_user_props s i) = p_Hwnd (g_user_props s j)"
    "p_Name (g_user_props s i) = p_Name (g_user_props s j)" using assms(4,5) by (simp_all add: prop_is_def)
  ultimately show False using assms(1-3) unfolding props_ok_def by (metis (no_types))
qed

text \<open>The lookup of a key is decided by the one used slot with that key.\<close>

lemma prop_map_at:
  assumes "props_ok s" "i < 128" "prop_is h n (g_user_props s i)"
  shows "prop_map s (h, n) = Some (p_Value (g_user_props s i))"
proof -
  have "j = i" if "j < 128" "prop_is h n (g_user_props s j)" for j
    using props_unique [OF assms(1,2) that(1) assms(3) that(2)] .
  then have "find (\<lambda>j. prop_is h n (g_user_props s j)) [0..<128] = Some i" by (intro find_upt_least) (rule assms(2), rule assms(3), blast)
  then have "find_prop (prop_is h n) s = Some i" unfolding find_prop_def .
  then show ?thesis by (simp add: prop_map_def)
qed

lemma prop_map_none: "(\<forall>i < 128. \<not> prop_is h n (g_user_props s i)) \<longleftrightarrow> prop_map s (h, n) = None"
  using find_prop_None [of "prop_is h n" s] by (simp add: prop_map_def)

text \<open>Changing the value at a slot that holds the key, or at a free one for a new key.\<close>

lemma prop_map_upd:
  assumes ok: "props_ok s" and i: "i < 128" and p: "p_Used p" "p_Hwnd p = h" "p_Name p = n"
    and old: "prop_is h n (g_user_props s i) \<or> \<not> p_Used (g_user_props s i) \<and> prop_map s (h, n) = None"
  shows "props_ok (upd_prop i (\<lambda>_. p) s) \<and> prop_map (upd_prop i (\<lambda>_. p) s) = (prop_map s)((h, n) \<mapsto> p_Value p)"
proof
  let ?s = "upd_prop i (\<lambda>_. p) s"
  have g: "g_user_props ?s j = (if j = i then p else g_user_props s j)" for j by (simp add: upd_prop_def)
  have others: "\<not> prop_is h n (g_user_props s j)" if "j < 128" "j \<noteq> i" for j
    using old
  proof
    assume "prop_is h n (g_user_props s i)"
    then show ?thesis using props_unique [OF ok i that(1)] that(2) by blast
  next
    assume "\<not> p_Used (g_user_props s i) \<and> prop_map s (h, n) = None"
    then show ?thesis using prop_map_none that by blast
  qed
  show ok': "props_ok ?s" unfolding props_ok_def
  proof (intro allI impI)
    fix j k assume jk: "j < 128" "k < 128" "j \<noteq> k \<and> p_Used (g_user_props ?s j) \<and> p_Used (g_user_props ?s k)"
    consider "j = i" | "k = i" | "j \<noteq> i" "k \<noteq> i" by blast
    then show "(p_Hwnd (g_user_props ?s j), p_Name (g_user_props ?s j)) \<noteq> (p_Hwnd (g_user_props ?s k), p_Name (g_user_props ?s k))"
    proof cases
      case 1
      then show ?thesis using jk others [of k] p by (auto simp: g prop_is_def)
    next
      case 2
      then show ?thesis using jk others [of j] p by (auto simp: g prop_is_def)
    next
      case 3
      then show ?thesis using jk ok unfolding props_ok_def by (simp add: g)
    qed
  qed
  show "prop_map ?s = (prop_map s)((h, n) \<mapsto> p_Value p)"
  proof
    fix k :: "u64 \<times> u64"
    obtain h' n' where k: "k = (h', n')" by (cases k)
    show "prop_map ?s k = ((prop_map s)((h, n) \<mapsto> p_Value p)) k"
    proof (cases "k = (h, n)")
      case True
      have "prop_is h n (g_user_props ?s i)" using p by (simp add: g prop_is_def)
      from prop_map_at [OF ok' i this] True show ?thesis by (simp add: g)
    next
      case False
      have same: "prop_is h' n' (g_user_props ?s j) \<longleftrightarrow> j \<noteq> i \<and> prop_is h' n' (g_user_props s j)" for j
        using False k p by (auto simp: g prop_is_def)
      have ni: "\<not> prop_is h' n' (g_user_props s i)" using False k old by (auto simp: prop_is_def)
      show ?thesis
      proof (cases "\<exists>j < 128. prop_is h' n' (g_user_props s j)")
        case True
        then obtain j where j: "j < 128" "prop_is h' n' (g_user_props s j)" by blast
        with ni have ji: "j \<noteq> i" by metis
        then have "prop_is h' n' (g_user_props ?s j)" using same j by simp
        from prop_map_at [OF ok' j(1) this] prop_map_at [OF ok j] ji have "prop_map ?s k = prop_map s k" by (simp add: g k)
        then show ?thesis using False by simp
      next
        case none: False
        then have "prop_map s (h', n') = None" "prop_map ?s (h', n') = None"
          using prop_map_none [of h' n' s] prop_map_none [of h' n' ?s] same by auto
        then show ?thesis using False k by simp
      qed
    qed
  qed
qed

lemma prop_map_drop:
  assumes ok: "props_ok s" and i: "i < 128" "prop_is h n (g_user_props s i)"
  shows "props_ok (upd_prop i (\<lambda>_. zero_prop) s) \<and> prop_map (upd_prop i (\<lambda>_. zero_prop) s) = (prop_map s)((h, n) := None)"
proof
  let ?s = "upd_prop i (\<lambda>_. zero_prop) s"
  have g: "g_user_props ?s j = (if j = i then zero_prop else g_user_props s j)" for j by (simp add: upd_prop_def)
  show ok': "props_ok ?s" unfolding props_ok_def g using ok unfolding props_ok_def by auto
  have same: "prop_is h' n' (g_user_props ?s j) \<longleftrightarrow> j \<noteq> i \<and> prop_is h' n' (g_user_props s j)" for j h' n' by (simp add: g prop_is_def)
  have uniq: "\<not> prop_is h n (g_user_props s j)" if "j < 128" "j \<noteq> i" for j
    using props_unique [OF ok i(1) that(1) i(2)] that(2) by blast
  show "prop_map ?s = (prop_map s)((h, n) := None)"
  proof
    fix k :: "u64 \<times> u64"
    obtain h' n' where k: "k = (h', n')" by (cases k)
    show "prop_map ?s k = ((prop_map s)((h, n) := None)) k"
    proof (cases "\<exists>j < 128. prop_is h' n' (g_user_props ?s j)")
      case True
      then obtain j where j: "j < 128" "prop_is h' n' (g_user_props ?s j)" by blast
      then have "j \<noteq> i" "prop_is h' n' (g_user_props s j)" "(h', n') \<noteq> (h, n)" using same uniq by auto
      with prop_map_at [OF ok' j] prop_map_at [OF ok j(1)] k show ?thesis by (simp add: g)
    next
      case none: False
      then have "prop_map ?s (h', n') = None" using prop_map_none by blast
      moreover have "prop_map s (h', n') = None" if "(h', n') \<noteq> (h, n)"
      proof -
        have "\<not> prop_is h' n' (g_user_props s i)" using that i(2) by (auto simp: prop_is_def)
        then have "\<forall>j < 128. \<not> prop_is h' n' (g_user_props s j)" using none same by metis
        then show ?thesis using prop_map_none by blast
      qed
      ultimately show ?thesis using k by simp
    qed
  qed
qed

lemma set_prop_map:
  assumes ok: "props_ok s" and c: "NtUserSetProp a s = (r, s')"
  shows "props_ok s'" "r = 1 \<and> prop_map s' = (prop_map s)((a 0, a 1) \<mapsto> a 2) \<or>
    r = 0 \<and> s' = s \<and> prop_map s (a 0, a 1) = None \<and> (\<forall>i < 128. p_Used (g_user_props s i))"
proof -
  have "props_ok s' \<and> (r = 1 \<and> prop_map s' = (prop_map s)((a 0, a 1) \<mapsto> a 2) \<or>
    r = 0 \<and> s' = s \<and> prop_map s (a 0, a 1) = None \<and> (\<forall>i < 128. p_Used (g_user_props s i)))"
  proof (cases "find_prop (prop_is (a 0) (a 1)) s")
    case (Some i)
    let ?p = "(g_user_props s i)\<lparr>p_Value := a 2\<rparr>"
    note fi = find_prop_Some [OF Some]
    have "s' = upd_prop i (\<lambda>_. ?p) s" "r = 1" using c Some by (auto simp: NtUserSetProp_def upd_prop_def)
    then show ?thesis using prop_map_upd [OF ok, of i ?p "a 0" "a 1"] fi by (auto simp: prop_is_def)
  next
    case None
    then have n: "prop_map s (a 0, a 1) = None" by (simp add: prop_map_def)
    show ?thesis
    proof (cases "find_prop (\<lambda>p. \<not> p_Used p) s")
      case (Some i)
      let ?p = "\<lparr>p_Hwnd = a 0, p_Name = a 1, p_Value = a 2, p_Used = True\<rparr>"
      have "s' = upd_prop i (\<lambda>_. ?p) s" "r = 1" using c None Some by (auto simp: NtUserSetProp_def)
      then show ?thesis using prop_map_upd [OF ok, of i ?p "a 0" "a 1"] find_prop_Some [OF Some] n by auto
    next
      case full: None
      then have "\<forall>i < 128. p_Used (g_user_props s i)" unfolding find_prop_None by blast
      then show ?thesis using c None full n ok by (auto simp: NtUserSetProp_def)
    qed
  qed
  then show "props_ok s'" "r = 1 \<and> prop_map s' = (prop_map s)((a 0, a 1) \<mapsto> a 2) \<or>
    r = 0 \<and> s' = s \<and> prop_map s (a 0, a 1) = None \<and> (\<forall>i < 128. p_Used (g_user_props s i))" by blast+
qed

lemma remove_prop_map:
  assumes ok: "props_ok s" and c: "NtUserRemoveProp a s = (r, s')"
  shows "props_ok s'" "prop_map s' = (prop_map s)((a 0, a 1) := None)" "r = (if prop_map s (a 0, a 1) = None then 0 else 1)"
proof -
  have "props_ok s' \<and> prop_map s' = (prop_map s)((a 0, a 1) := None) \<and> r = (if prop_map s (a 0, a 1) = None then 0 else 1)"
  proof (cases "find_prop (prop_is (a 0) (a 1)) s")
    case (Some i)
    then have "s' = upd_prop i (\<lambda>_. zero_prop) s" "r = 1" "prop_map s (a 0, a 1) \<noteq> None" using c by (auto simp: NtUserRemoveProp_def prop_map_def)
    then show ?thesis using prop_map_drop [OF ok conjunct1 conjunct2, OF find_prop_Some [OF Some] find_prop_Some [OF Some]] by simp
  next
    case None
    then have "prop_map s (a 0, a 1) = None" "r = 0" "s' = s" using c by (auto simp: NtUserRemoveProp_def prop_map_def)
    then show ?thesis using ok by (simp add: fun_upd_idem)
  qed
  then show "props_ok s'" "prop_map s' = (prop_map s)((a 0, a 1) := None)" "r = (if prop_map s (a 0, a 1) = None then 0 else 1)" by blast+
qed

section \<open>The tables under all services\<close>

definition name_inv :: "'z name_state_scheme \<Rightarrow> bool" where
  "name_inv s \<longleftrightarrow> atoms_ok s \<and> classes_ok s \<and> props_ok s"

definition name_boot :: "'z name_state_scheme \<Rightarrow> bool" where
  "name_boot s \<longleftrightarrow> g_user_atom_count s = 0 \<and> (\<forall>i < 64. \<not> c_Used (g_user_classes s i)) \<and> (\<forall>i < 128. \<not> p_Used (g_user_props s i))"

definition same_tables :: "'z name_state_scheme \<Rightarrow> 'z name_state_scheme \<Rightarrow> bool" where
  "same_tables s s' \<longleftrightarrow> g_user_atoms s' = g_user_atoms s \<and> g_user_atom_count s' = g_user_atom_count s \<and>
     g_user_classes s' = g_user_classes s \<and> g_user_props s' = g_user_props s"

text \<open>The services that change the tables, and everything else the system does.\<close>

inductive name_step :: "name_state \<Rightarrow> name_state \<Rightarrow> bool" where
  register_message: "NtUserRegisterWindowMessage a s = Some (r, s') \<Longrightarrow> name_step s s'"
| register_class: "NtUserRegisterClassExWOW a s = Some (r, s') \<Longrightarrow> name_step s s'"
| unregister_class: "NtUserUnregisterClass a s = Some (r, s') \<Longrightarrow> name_step s s'"
| set_prop: "NtUserSetProp a s = (r, s') \<Longrightarrow> name_step s s'"
| remove_prop: "NtUserRemoveProp a s = (r, s') \<Longrightarrow> name_step s s'"
| other: "same_tables s s' \<Longrightarrow> name_step s s'"

lemma boot_name_inv: "name_boot s \<Longrightarrow> name_inv s"
  by (simp add: name_boot_def name_inv_def atoms_ok_def classes_ok_def props_ok_def)

lemma add_atom_frame: "KiUserAddAtom n s = (t, s') \<Longrightarrow> g_user_classes s' = g_user_classes s \<and> g_user_props s' = g_user_props s"
  by (auto simp: KiUserAddAtom_def Let_def split: if_splits option.splits)

lemma props_ok_cong: "g_user_props s' = g_user_props s \<Longrightarrow> props_ok s' = props_ok s"
  by (simp add: props_ok_def)

lemma atoms_cong:
  assumes "g_user_atoms s' = g_user_atoms s" "g_user_atom_count s' = g_user_atom_count s"
  shows "atoms_ok s' = atoms_ok s" "extends s s'"
  using assms by (simp_all add: atoms_ok_def extends_def atom_at_def)

lemma upd_prop_frame: "g_user_atoms (upd_prop i f s) = g_user_atoms s" "g_user_atom_count (upd_prop i f s) = g_user_atom_count s"
  "g_user_classes (upd_prop i f s) = g_user_classes s"
  by (simp_all add: upd_prop_def)

lemma add_atom_name_inv:
  assumes i: "name_inv s" and l: "length n \<le> 63" and c: "KiUserAddAtom n s = (t, s')"
  shows "name_inv s'"
proof -
  have i': "atoms_ok s" "classes_ok s" "props_ok s" using i unfolding name_inv_def by blast+
  note ad = add_atom_ok(1,2) [OF i'(1) l c]
  have f: "g_user_classes s' = g_user_classes s" "g_user_props s' = g_user_props s" using add_atom_frame [OF c] by blast+
  show ?thesis unfolding name_inv_def using ad(1) classes_ok_extends [OF i'(2) ad(2) f(1)] props_ok_cong [OF f(2)] i'(3) by blast
qed

lemma register_message_inv:
  assumes c: "NtUserRegisterWindowMessage a s = Some (r, s')" and i: "name_inv s"
  shows "name_inv s' \<and> extends s s'"
proof -
  obtain x where x: "KiCaptureAtomName (a 0) 64 s = Some x" using c by (auto simp: NtUserRegisterWindowMessage_def split: bind_splits)
  show ?thesis
  proof (cases "x = None \<or> x = Some []")
    case True
    then have "s' = s" using c x by (auto simp: NtUserRegisterWindowMessage_def)
    then show ?thesis using i by simp
  next
    case False
    then obtain n where n: "x = Some n" "n \<noteq> []" by auto
    obtain t s1 where k: "KiUserAddAtom (wstr n) s = (t, s1)" by (cases "KiUserAddAtom (wstr n) s")
    have s1: "s' = s1" using c x n k by (simp add: NtUserRegisterWindowMessage_def)
    have "KiCaptureAtomName (a 0) 64 s = Some (Some n)" using x unfolding n(1) .
    from capture_length [OF this] wstr_length [of n] have "length (wstr n) \<le> 63" by linarith
    note l = this
    have "atoms_ok s" using i unfolding name_inv_def by blast
    from add_atom_name_inv [OF i l k] add_atom_ok(2) [OF this l k] show ?thesis unfolding s1 by blast
  qed
qed

lemma register_class_cases:
  assumes c: "NtUserRegisterClassExWOW a s = Some (t, s')"
  obtains (none) "t = 0" "s' = s"
  | (known) name i where "class_name (a 0) (a 1) s = Some name" "i < 64" "c_Used (g_user_classes s i)" "KiWideEqual (c_Name (g_user_classes s i)) (wstr name)"
      "t = ucast (c_Atom (g_user_classes s i))" "s' = s"
  | (new) name i where "class_name (a 0) (a 1) s = Some name" "i < 64"
      "\<forall>j < 64. \<not> (c_Used (g_user_classes s j) \<and> KiWideEqual (c_Name (g_user_classes s j)) (wstr name))"
      "fill_class i (a 0) name s = Some (t, s')"
proof -
  obtain name where n: "class_name (a 0) (a 1) s = Some name" using c by (auto simp: NtUserRegisterClassExWOW_def split: bind_splits)
  let ?P = "\<lambda>c. c_Used c \<and> KiWideEqual (c_Name c) (wstr name)"
  show thesis
  proof (cases "name = []")
    case True
    then show thesis using c n none by (simp add: NtUserRegisterClassExWOW_def)
  next
    case nz: False
    show thesis
    proof (cases "find_class ?P s")
      case (Some i)
      have i: "i < 64" "c_Used (g_user_classes s i)" "KiWideEqual (c_Name (g_user_classes s i)) (wstr name)" using find_class_Some [OF Some] by blast+
      have "t = ucast (c_Atom (g_user_classes s i))" "s' = s" using c n nz Some by (auto simp: NtUserRegisterClassExWOW_def)
      then show thesis by (rule known [OF n i])
    next
      case nk: None
      then have f: "\<forall>j < 64. \<not> ?P (g_user_classes s j)" unfolding find_class_None .
      show thesis
      proof (cases "find_class (\<lambda>c. \<not> c_Used c) s")
        case None
        then show thesis using c n nz nk none by (simp add: NtUserRegisterClassExWOW_def)
      next
        case (Some i)
        have i: "i < 64" using find_class_Some [OF Some] by blast
        have "fill_class i (a 0) name s = Some (t, s')" using c n nz nk Some by (simp add: NtUserRegisterClassExWOW_def)
        then show thesis by (rule new [OF n i f])
      qed
    qed
  qed
qed

lemma register_class_inv:
  assumes c: "NtUserRegisterClassExWOW a s = Some (r, s')" and i: "name_inv s"
  shows "name_inv s' \<and> extends s s'"
  using c
proof (cases rule: register_class_cases)
  case (new name k)
  have i': "atoms_ok s" "classes_ok s" "props_ok s" using i by (simp_all add: name_inv_def)
  from fill_class_ok [OF i'(1,2) new(2) class_name_length [OF new(1)] new(3,4)] i'(3) props_ok_cong [of s' s] show ?thesis by (simp add: name_inv_def)
qed (use i in simp_all)

lemma unregister_class_inv:
  assumes c: "NtUserUnregisterClass a s = Some (r, s')" and i: "name_inv s"
  shows "name_inv s' \<and> extends s s'"
proof -
  have "s' = s \<or> (\<exists>k. s' = s\<lparr>g_user_classes := (g_user_classes s)(k := zero_class)\<rparr>)"
    using c by (auto simp: NtUserUnregisterClass_def split: bind_splits if_splits option.splits)
  then show ?thesis
  proof
    assume "\<exists>k. s' = s\<lparr>g_user_classes := (g_user_classes s)(k := zero_class)\<rparr>"
    then obtain k where s': "s' = s\<lparr>g_user_classes := (g_user_classes s)(k := zero_class)\<rparr>" by blast
    have "classes_ok s'" using i unfolding name_inv_def classes_ok_def by (auto simp: s' atom_at_def)
    then show ?thesis using i atoms_cong [of s' s] props_ok_cong [of s' s] by (simp add: s' name_inv_def)
  qed (use i in simp)
qed

lemma prop_service_frame:
  assumes "NtUserSetProp a s = (r, s') \<or> NtUserRemoveProp a s = (r, s')"
  shows "g_user_atoms s' = g_user_atoms s" "g_user_atom_count s' = g_user_atom_count s" "g_user_classes s' = g_user_classes s"
  using assms by (auto simp: NtUserSetProp_def NtUserRemoveProp_def upd_prop_frame split: option.splits)

lemma same_rest_inv:
  assumes "g_user_atoms s' = g_user_atoms s" "g_user_atom_count s' = g_user_atom_count s" "g_user_classes s' = g_user_classes s" "props_ok s'" "name_inv s"
  shows "name_inv s' \<and> extends s s'"
  using assms atoms_cong [of s' s] classes_ok_extends [of s s'] by (simp add: name_inv_def)

lemma name_step_inv: "name_step s s' \<Longrightarrow> name_inv s \<Longrightarrow> name_inv s' \<and> extends s s'"
proof (induction rule: name_step.induct)
  case (set_prop a s r s')
  then have "props_ok s'" using set_prop_map(1) by (auto simp: name_inv_def)
  then show ?case using same_rest_inv prop_service_frame [of a s r s'] set_prop by blast
next
  case (remove_prop a s r s')
  then have "props_ok s'" using remove_prop_map(1) by (auto simp: name_inv_def)
  then show ?case using same_rest_inv prop_service_frame [of a s r s'] remove_prop by blast
next
  case (other s s')
  then have "props_ok s'" using props_ok_cong [of s' s] by (simp add: name_inv_def same_tables_def)
  then show ?case using same_rest_inv [of s' s] other by (simp add: same_tables_def)
qed (use register_message_inv register_class_inv unregister_class_inv in blast)+

interpretation name_machine: transition_system name_step name_inv
  by unfold_locales (use name_step_inv in blast)

lemma name_steps_extend: "name_step\<^sup>*\<^sup>* s s' \<Longrightarrow> name_inv s \<Longrightarrow> extends s s'"
proof (induction rule: rtranclp_induct)
  case (step t u)
  then show ?case using name_step_inv name_machine.steps_inv extends_trans by blast
qed simp

lemma add_atom_again:
  assumes ok: "atoms_ok s" and k: "k < atom_count s" "KiWideEqual (ae_Name (atom_at s k)) m" "m \<noteq> []" and len: "length n \<le> 63"
  shows "fst (KiUserAddAtom n s) = of_nat (0xC000 + k) \<longleftrightarrow> KiWideEqual m n"
proof -
  obtain t s' where a: "KiUserAddAtom n s = (t, s')" by (cases "KiUserAddAtom n s")
  have cnt: "atom_count s \<le> 192" using ok by (simp add: atoms_ok_def)
  have "t = of_nat (0xC000 + k) \<longleftrightarrow> KiWideEqual m n" using ok len a
  proof (cases rule: add_atom_cases)
    case (known i)
    have "t = of_nat (0xC000 + k) \<longleftrightarrow> i = k" using atom_number_inj [of i k] known(1,3) k(1) cnt by auto
    also have "\<dots> \<longleftrightarrow> KiWideEqual m n"
    proof
      assume "KiWideEqual m n"
      then have "KiWideEqual (ae_Name (atom_at s i)) (ae_Name (atom_at s k))" using known(2) k(2) by (simp add: wide_equal)
      then show "i = k" using ok known(1) k(1) unfolding atoms_ok_def by blast
    qed (use known(2) k(2) in \<open>simp add: wide_equal\<close>)
    finally show ?thesis .
  next
    case new
    have "t \<noteq> of_nat (0xC000 + k)" using atom_number_inj [of "atom_count s" k] new(2,3) k(1) by auto
    moreover have "\<not> KiWideEqual m n" using new(7) k(1,2) by (auto simp: wide_equal)
    ultimately show ?thesis by simp
  next
    case none
    have "t \<noteq> of_nat (0xC000 + k)" using atom_number_nonzero [of k] none(2) k(1) cnt by auto
    moreover have "\<not> KiWideEqual m n" using none(1) k by (auto simp: wide_equal)
    ultimately show ?thesis by simp
  qed
  then show ?thesis by (simp add: a)
qed

text \<open>(C38) An atom stands for one name for ever. When \<^verbatim>\<open>KiUserAddAtom\<close> returns an atom for a name then, whatever the USER services do
  afterwards, the atom still has a name that equals it up to case, and adding a name returns that same atom exactly for the names that equal
  the first up to case.\<close>

theorem atoms_intern_names:
  assumes "name_boot s0" "name_step\<^sup>*\<^sup>* s0 s" "length m \<le> 63" "length n \<le> 63"
    and "KiUserAddAtom m s = (t, s1)" "t \<noteq> 0" "name_step\<^sup>*\<^sup>* s1 s2"
  shows "(\<exists>x. KiUserAtomName t s2 = Some x \<and> KiWideEqual x m) \<and> (fst (KiUserAddAtom n s2) = t \<longleftrightarrow> KiWideEqual m n)"
proof -
  have i: "name_inv s" using name_machine.steps_inv [OF assms(2) boot_name_inv [OF assms(1)]] .
  have i1: "name_inv s1" using add_atom_name_inv [OF i assms(3,5)] .
  have i2: "name_inv s2" using name_machine.steps_inv [OF assms(7) i1] .
  have a: "atoms_ok s" "atoms_ok s2" using i i2 by (simp_all add: name_inv_def)
  from add_atom_ok(3) [OF a(1) assms(3,5,6)] obtain k where
    k: "k < atom_count s1" "t = of_nat (0xC000 + k)" "KiWideEqual (ae_Name (atom_at s1 k)) m" by blast
  have k2: "k < atom_count s2" "KiWideEqual (ae_Name (atom_at s2 k)) m" using name_steps_extend [OF assms(7) i1] k by (auto simp: extends_def)
  have "m \<noteq> []" using assms(5,6) by (auto simp: KiUserAddAtom_def)
  from add_atom_again [OF a(2) k2 this assms(4)] atom_name_at [OF a(2) k2(1)] k2(2) show ?thesis by (simp add: k(2))
qed

text \<open>A state in which every user page is mapped and nothing is registered. Memory holds the counted string \<^verbatim>\<open>A\<close> at 0x1000.\<close>

definition demo_names :: "name_state \<Rightarrow> name_state" where
  "demo_names s = s\<lparr>pool := (pool s)\<lparr>mm := (mm (pool s))\<lparr>ptm := (\<lambda>_ _. 7), umem := (\<lambda>a. if a = 0x1000 then 2 else if a = 0x1009 then 0x20
     else if a = 0x2000 then 0x41 else 0)\<rparr>\<rparr>, g_user_atom_count := 0, g_user_classes := (\<lambda>_. zero_class), g_user_props := (\<lambda>_. zero_prop)\<rparr>"

lemma demo_names_boot: "name_boot (demo_names s)"
  by (simp add: name_boot_def demo_names_def)

theorem atoms_intern_names_witness:
  "\<exists>(s1 :: name_state) x. fst (KiUserAddAtom [0x41] s1) = 0xC000 \<and> KiUserAtomName 0xC000 s1 = Some x \<and> KiWideEqual x [0x61] \<and>
     fst (KiUserAddAtom [0x62] s1) \<noteq> 0xC000"
proof -
  let ?s = "demo_names undefined"
  obtain t s1 where a: "KiUserAddAtom [0x61] ?s = (t, s1)" by (cases "KiUserAddAtom [0x61] ?s")
  then have t: "t = 0xC000" by (simp add: KiUserAddAtom_def find_atom_def demo_names_def Let_def)
  then have "t \<noteq> 0" by simp
  note ai = atoms_intern_names [OF demo_names_boot rtranclp.rtrancl_refl _ _ a this rtranclp.rtrancl_refl]
  from ai [of "[0x41]"] ai [of "[0x62]"] show ?thesis by (intro exI [of _ s1]) (auto simp: t low_wide_def)
qed

section \<open>Registering and finding a class\<close>

lemma ucast_atom: "(ucast (x :: u16) :: u64) AND NOT 0xFFFF = 0"
proof -
  have "bit x n \<Longrightarrow> n < 16" for n using bit_imp_le_length [of x n] by simp
  then have "(ucast x :: u64) AND NOT (mask 16) = 0" by (intro bit_word_eqI) (auto simp: bit_simps)
  moreover have "(mask 16 :: u64) = 0xFFFF" by (simp add: mask_eq_exp_minus_1)
  ultimately show ?thesis by (simp only:)
qed

lemma atom_ucast: "(ucast (ucast (x :: u16) :: u64) :: u16) = x"
  by (rule bit_word_eqI) (simp add: bit_simps)

lemma create_by_atom:
  assumes "x \<noteq> 0"
  shows "KiClassForCreate (ucast (x :: u16)) s = Some (class_by_atom x s)"
proof -
  have "(ucast x :: u64) \<noteq> 0" using assms atom_ucast [of x] by auto
  then show ?thesis unfolding KiClassForCreate_def by (simp only: ucast_atom atom_ucast if_False if_True simp_thms)
qed

text \<open>(C39) A registered class is found by its atom. When \<^verbatim>\<open>NtUserRegisterClassExWOW\<close> returns an atom, creating a window with that atom
  resolves to a used class whose name equals the captured one up to case and whose atom has such a name too; if no such class existed,
  it carries the window procedure of the caller's structure.\<close>

theorem registered_class_found:
  assumes "name_boot s0" "name_step\<^sup>*\<^sup>* s0 s" "NtUserRegisterClassExWOW a s = Some (t, s')" "t \<noteq> 0"
  shows "\<exists>name i. class_name (a 0) (a 1) s = Some name \<and> KiClassForCreate t s' = Some (Some i) \<and> i < USER_MAX_CLASSES \<and>
    c_Used (g_user_classes s' i) \<and> KiWideEqual (c_Name (g_user_classes s' i)) (wstr name) \<and>
    (\<exists>x. KiUserAtomName (ucast t) s' = Some x \<and> KiWideEqual x (wstr name)) \<and>
    ((\<forall>j < USER_MAX_CLASSES. \<not> (c_Used (g_user_classes s j) \<and> KiWideEqual (c_Name (g_user_classes s j)) (wstr name))) \<longrightarrow>
       c_WndProc (g_user_classes s' i) = read64 (user_vm s) (a 0 + WNDCLASSEX_WNDPROC))"
proof -
  have i: "name_inv s" using name_machine.steps_inv [OF assms(2) boot_name_inv [OF assms(1)]] .
  have i': "name_inv s'" using register_class_inv [OF assms(3) i] by blast
  have ok: "atoms_ok s" "classes_ok s" "atoms_ok s'" "classes_ok s'" using i i' unfolding name_inv_def by blast+
  from assms(3) obtain name k where k: "class_name (a 0) (a 1) s = Some name" "k < 64" "c_Used (g_user_classes s' k)"
    "KiWideEqual (c_Name (g_user_classes s' k)) (wstr name)" "t = ucast (c_Atom (g_user_classes s' k))"
    "(\<forall>j < 64. \<not> (c_Used (g_user_classes s j) \<and> KiWideEqual (c_Name (g_user_classes s j)) (wstr name))) \<longrightarrow>
       c_WndProc (g_user_classes s' k) = read64 (user_vm s) (a 0 + 8)"
  proof (cases rule: register_class_cases)
    case none
    then show thesis using assms(4) by blast
  next
    case (known name k)
    then show thesis by (intro that [of name k]) auto
  next
    case (new name k)
    from fill_class_ok [OF ok(1,2) new(2) class_name_length [OF new(1)] new(3,4)] show thesis
      by (intro that [OF new(1,2)]) (auto simp: wide_equal)
  qed
  have nz: "c_Atom (g_user_classes s' k) \<noteq> 0" using k(5) assms(4) by auto
  note f = class_by_atom_at [OF ok(3,4) k(2,3) nz]
  obtain x where x: "KiUserAtomName (c_Atom (g_user_classes s' k)) s' = Some x" "KiWideEqual x (c_Name (g_user_classes s' k))" using f(2) by blast
  have "KiWideEqual x (wstr name)" using x(2) k(4) by (simp add: wide_equal)
  moreover have "KiUserAtomName (ucast t) s' = Some x" using x(1) k(5) by (simp only: atom_ucast)
  moreover have "KiClassForCreate t s' = Some (Some k)" using trans [OF create_by_atom [OF nz] arg_cong [OF f(1), of Some]] k(5) by (simp only:)
  ultimately show ?thesis using k by blast
qed

lemma demo_names_probe:
  assumes "unat va + unat len \<le> 2 ^ 47"
  shows "MmProbeForRead (user_vm (demo_names s)) va len = Some True"
proof -
  have "user_small (user_vm (demo_names s))" by (auto simp: user_small_def large_mapped_def large_def demo_names_def Let_def)
  moreover have "MmGetPhysicalAddress (user_vm (demo_names s)) b \<noteq> MM_INVALID_PHYS" for b
  proof -
    have "(b AND PAGE_MASK) \<noteq> MM_INVALID_PHYS" using word_and_le1 [of b PAGE_MASK] by (auto simp: word_le_nat_alt)
    then show ?thesis by (simp add: MmGetPhysicalAddress_def demo_names_def present_def large_def Let_def)
  qed
  ultimately show ?thesis using assms MmProbeForRead_iff by simp
qed


theorem registered_class_found_witness:
  "\<exists>(s :: name_state) t s' i. NtUserRegisterClassExWOW (\<lambda>i. if i = 0 then 0x3000 else 0x1000) s = Some (t, s') \<and> t = 0xC000 \<and>
     KiClassForCreate 0xC000 s' = Some (Some i) \<and> KiWideEqual (c_Name (g_user_classes s' i)) [0x61]"
proof -
  let ?s = "demo_names undefined" and ?a = "\<lambda>i :: nat. if i = 0 then 0x3000 else 0x1000 :: u64"
  have r: "read16 (user_vm ?s) 0x1000 = 2" "read64 (user_vm ?s) 0x1008 = 0x2000" "read16 (user_vm ?s) 0x2000 = 0x41"
    by (simp_all add: read16_def read64_def demo_names_def upt_rec)
  have n: "class_name 0x3000 0x1000 ?s = Some [0x41]"
    by (simp add: class_name_def demo_names_probe r read_wide_def Let_def)
  have f: "find_class (\<lambda>c. c_Used c \<and> KiWideEqual (c_Name c) (wstr [0x41])) ?s = None"
    "find_class (\<lambda>c. \<not> c_Used c) ?s = Some 0"
    by (simp_all add: find_class_def demo_names_def find_None_iff upt_rec)
  obtain at s1 where k: "KiUserAddAtom (wstr [0x41]) ?s = (at, s1)" by (cases "KiUserAddAtom (wstr [0x41]) ?s")
  then have at: "at = 0xC000" by (simp add: KiUserAddAtom_def find_atom_def demo_names_def Let_def wstr_def)
  obtain s' where c: "NtUserRegisterClassExWOW ?a ?s = Some (0xC000, s')"
    using n f k by (simp add: NtUserRegisterClassExWOW_def fill_class_def demo_names_probe at)
  have nz: "(0xC000 :: u64) \<noteq> 0" by simp
  have n': "class_name (?a 0) (?a 1) ?s = Some [0x41]" using n by simp
  from registered_class_found [OF demo_names_boot rtranclp.rtrancl_refl c nz] obtain i where
    i: "KiClassForCreate 0xC000 s' = Some (Some i)" "KiWideEqual (c_Name (g_user_classes s' i)) (wstr [0x41])"
    unfolding n' option.inject by blast
  have "KiWideEqual (c_Name (g_user_classes s' i)) [0x61]" using i(2) by (simp add: wide_equal wstr_def) (simp add: low_wide_def)
  with c i(1) show ?thesis by blast
qed

section \<open>Properties as a map\<close>

lemma prop_map_dom: "dom (prop_map s) = (\<lambda>i. (p_Hwnd (g_user_props s i), p_Name (g_user_props s i))) ` {i. i < 128 \<and> p_Used (g_user_props s i)}"
proof -
  have "k \<in> dom (prop_map s) \<longleftrightarrow> (\<exists>i < 128. prop_is (fst k) (snd k) (g_user_props s i))" for k
    using prop_map_none [of "fst k" "snd k" s] by auto
  then show ?thesis by (intro set_eqI) (auto simp: prop_is_def image_iff simp del: domIff)
qed

lemma prop_map_card: "props_ok s \<Longrightarrow> card (dom (prop_map s)) = card {i. i < 128 \<and> p_Used (g_user_props s i)}"
  unfolding prop_map_dom by (intro card_image inj_onI) (auto simp: props_ok_def)

lemma prop_map_full:
  assumes "props_ok s" "\<forall>i < 128. p_Used (g_user_props s i)"
  shows "card (dom (prop_map s)) = 128"
proof -
  have "{i. i < 128 \<and> p_Used (g_user_props s i)} = {..<128}" using assms(2) by blast
  then show ?thesis unfolding prop_map_card [OF assms(1)] by (simp only: card_lessThan)
qed

text \<open>(C40) Window properties are a finite map. After any services, \<^verbatim>\<open>NtUserGetProp\<close> reads the map from window and property name to
  value that \<open>prop_map\<close> gives for the table, 0 where there is none; \<^verbatim>\<open>NtUserSetProp\<close> updates it at one key, and fails, changing nothing,
  only for a new key when 128 keys are taken; \<^verbatim>\<open>NtUserRemoveProp\<close> removes one key and reports whether it was there.\<close>

theorem window_properties_refine_map:
  assumes "name_boot s0" "name_step\<^sup>*\<^sup>* s0 s"
  shows "NtUserGetProp a s = (case prop_map s (a 0, a 1) of Some v \<Rightarrow> v | None \<Rightarrow> 0) \<and>
    (case NtUserSetProp a s of (r, s') \<Rightarrow>
       r = 1 \<and> prop_map s' = (prop_map s)((a 0, a 1) \<mapsto> a 2) \<or>
       r = 0 \<and> s' = s \<and> (a 0, a 1) \<notin> dom (prop_map s) \<and> card (dom (prop_map s)) = USER_MAX_PROPS) \<and>
    (case NtUserRemoveProp a s of (r, s') \<Rightarrow>
       prop_map s' = (prop_map s)((a 0, a 1) := None) \<and> r = (if (a 0, a 1) \<in> dom (prop_map s) then 1 else 0))"
proof -
  have ok: "props_ok s" using name_machine.steps_inv [OF assms(2) boot_name_inv [OF assms(1)]] unfolding name_inv_def by blast
  have g: "NtUserGetProp a s = (case prop_map s (a 0, a 1) of Some v \<Rightarrow> v | None \<Rightarrow> 0)"
    by (simp add: NtUserGetProp_def prop_map_def split: option.split)
  obtain r1 s1 where s: "NtUserSetProp a s = (r1, s1)" by (cases "NtUserSetProp a s")
  obtain r2 s2 where r: "NtUserRemoveProp a s = (r2, s2)" by (cases "NtUserRemoveProp a s")
  from set_prop_map(2) [OF ok s] prop_map_full [OF ok]
  have s': "r1 = 1 \<and> prop_map s1 = (prop_map s)((a 0, a 1) \<mapsto> a 2) \<or>
       r1 = 0 \<and> s1 = s \<and> (a 0, a 1) \<notin> dom (prop_map s) \<and> card (dom (prop_map s)) = 128" by (auto simp only: domIff)
  have r': "prop_map s2 = (prop_map s)((a 0, a 1) := None) \<and> r2 = (if (a 0, a 1) \<in> dom (prop_map s) then 1 else 0)"
    using remove_prop_map(2,3) [OF ok r] by (simp only: domIff) simp
  show ?thesis unfolding s r case_prod_conv using g s' r' by blast
qed

theorem window_properties_refine_map_witness:
  "\<exists>(s :: name_state) s'. NtUserSetProp (\<lambda>_. 5) s = (1, s') \<and> prop_map s' (5, 5) = Some 5"
proof -
  let ?s = "demo_names undefined" and ?a = "\<lambda>_ :: nat. 5 :: u64"
  have "prop_map ?s (h, n) = None" for h n using prop_map_none [of h n ?s] by (simp add: demo_names_def prop_is_def)
  then have d: "dom (prop_map ?s) = {}" by auto
  obtain r s' where s: "NtUserSetProp ?a ?s = (r, s')" by (cases "NtUserSetProp ?a ?s")
  from window_properties_refine_map [OF demo_names_boot [of undefined] rtranclp.rtrancl_refl, of ?a] d
  have "r = 1" "prop_map s' = (prop_map ?s)((5, 5) \<mapsto> 5)" unfolding s case_prod_conv by auto
  then show ?thesis using s by (intro exI [of _ ?s] exI [of _ s']) simp
qed

end
