(* ===== verification/Spec2Isabelle.thy ===== *)
theory Spec2Isabelle
  imports Mm_Multiboot Rtl_List Rtl_Memory Ob_Object Ke_Thread Cm_Registry Rtl_Print Hal_Input Hal_Vga Io_Fat Io_File Ps_Object Nt_Message Nt_Atom
begin

text \<open>
  Svindows is a kernel for x86-64 that offers the system services of Windows NT to unmodified Windows programs. This library models the
  parts of the kernel that keep state, from the boot information to the system services, and proves what makes them correct. File names
  are relative to \<^verbatim>\<open>src/\<close>; definitions have the names of the functions, types and globals they model wherever HOL allows it.

  \<^bold>\<open>How the parts fit together.\<close> The boot loader's information block is parsed into a memory map; the physical memory manager builds its
  frame bitmap from it; the virtual memory manager builds page tables from frames; the pool is a heap over mapped frames; the object
  manager allocates its objects from the pool. Above it stand the registry, the file system with its file objects, and the dispatcher
  objects of the process manager, whose waits run in the scheduler. The window services use the process manager's events. The state of
  a component contains that of the components it calls, so one state runs through a whole call: \<open>vmm_state\<close> has a \<open>pmm_state\<close>,
  \<open>pool_state\<close> a \<open>vmm_state\<close>, and \<open>ob_state\<close> a \<open>pool_state\<close>. From there on states are extensible records: the registry's, the file
  system's (\<open>io_state\<close>, \<open>file_state\<close>), the kernel's (\<open>kernel\<close>, with the scheduler in the field \<open>ke\<close>), the process manager's (\<open>ps_state\<close>) and
  those of the window services (\<open>user_state\<close>, \<open>name_state\<close>) extend it, so that the object manager's lemmas apply to them as they are.

  \<^bold>\<open>Theories and sources.\<close>
  \<^item> \<open>Prelude\<close>: machine types, status codes, page geometry, shared lemmas and the locale \<open>transition_system\<close>, in which an invariant of
    a step relation is carried along its runs; every component with a step relation interprets it.
  \<^item> \<open>Mm_Pmm\<close>: \<^verbatim>\<open>kernel/mm/pmm.c\<close>. The bitmap agrees with the counters, a frame is owned by one client at a time, the
    searches are sound and complete. The locale \<open>frame_allocator\<close> is what the page tables rely on.
  \<^item> \<open>Mm_Vmm\<close>: \<^verbatim>\<open>kernel/mm/vmm.c\<close>. The tables form a tree; mapping, unmapping and protecting change the translations they should and no
    other; the probes of user pointers accept exactly the mapped user ranges; captured names stay within their buffers.
  \<^item> \<open>Ex_Pool\<close>: \<^verbatim>\<open>kernel/ex/pool.c\<close>. The headers tile the arena; allocated blocks are disjoint and keep their contents; a second free with
    no allocation in between is detected. The locale \<open>pool_contract\<close> is what the clients of the pool rely on.
  \<^item> \<open>Mm_Multiboot\<close>: \<^verbatim>\<open>kernel/mm/multiboot.c\<close> and \<^verbatim>\<open>mm_init.c\<close>. The parser inverts an encoder of the format, and memory bring-up
    composes it with both memory managers.
  \<^item> \<open>Rtl_List\<close>: the intrusive lists of \<^verbatim>\<open>kernel/include/ntos/rtl.h\<close> refine HOL lists (locale \<open>entry_lists\<close>). \<open>Rtl_Memory\<close>:
    \<^verbatim>\<open>kernel/rtl/memory.c\<close> and \<^verbatim>\<open>string.c\<close>. \<open>Rtl_Print\<close>: \<^verbatim>\<open>kernel/rtl/print.c\<close>, the contract of the formatter. \<open>Rtl_Bytes\<close>: loads and stores of
    little-endian words. \<open>Rtl_Ring\<close>: rings of 64 cells as bounded queues (locale \<open>bounded_queue\<close>).
  \<^item> \<open>Ob_Object\<close>: \<^verbatim>\<open>kernel/ob/\<close>. Reference counts are the number of references there are, so that an object is freed exactly with
    its last reference; handles and names round-trip. The locale \<open>object_manager\<close> is what the components with objects of their own rely on.
  \<^item> \<open>Ke_Thread\<close>: \<^verbatim>\<open>kernel/ke/thread.c\<close>, \<^verbatim>\<open>dispatcher.c\<close>, \<^verbatim>\<open>shared.c\<close>. The scheduler's invariant, what waits and releases do, that a ready
    thread runs after a bounded number of ticks, and that the shared page is consistent.
  \<^item> \<open>Cm_Registry\<close>: \<^verbatim>\<open>kernel/cm/registry.c\<close>. Paths and values round-trip, and queries write only to probed user memory.
  \<^item> \<open>Io_Fat\<close>, \<open>Io_File\<close>: \<^verbatim>\<open>kernel/io/ata.c\<close>, \<^verbatim>\<open>fat.c\<close>, \<^verbatim>\<open>file.c\<close>. A file on a well-formed volume is loaded byte for byte, and reading a file
    object returns the right slice of it. The drive is a parameter; what is assumed of it is \<open>drive_ok\<close>, the protocol of polled reads, under
    which the polling loops are proved to end.
  \<^item> \<open>Hal_Input\<close>, \<open>Hal_Vga\<close>, \<open>Hal_Console\<close>: \<^verbatim>\<open>kernel/hal/keyboard.c\<close>, \<^verbatim>\<open>mouse.c\<close>, \<^verbatim>\<open>vga.c\<close>, \<^verbatim>\<open>serial.c\<close>, \<^verbatim>\<open>console.c\<close> and \<^verbatim>\<open>kernel/ke/log.c\<close>.
  \<^item> \<open>Nt_Service\<close>, \<open>Ps_Object\<close>: what services share, and \<^verbatim>\<open>kernel/ps/psobj.c\<close>. The references that waits and threads hold keep every object
    that is waited for alive, over all interleavings of the services with thread switches and ticks.
  \<^item> \<open>Nt_Message\<close>, \<open>Nt_Atom\<close>: the window messages, atoms, classes and properties of \<^verbatim>\<open>kernel/ke/syscall.c\<close>. Messages are queued in
    order and no wake-up is lost; atoms name one string for ever; classes are found by their atoms; properties are a finite map.

  \<^bold>\<open>Errors and endless loops.\<close> A status code is a value of the model, on every path the code has. \<open>None\<close> stands for the three ways of not
  returning: \<^verbatim>\<open>KeBugCheck\<close>, a loop that never ends, and an access the C code leaves undefined. Loops bounded by a counter are total
  functions with the measure the counter gives; loops along data that may be malformed (boot tags, cluster chains, pool lists, strings)
  are partial functions, and the theorems prove that they return in the states the invariants allow. There is no fuel. Where the bound
  of a table matters (4096 handles, 63 messages, 192 atoms, 64 classes, 128 properties) it is the code's own.

  \<^bold>\<open>Concurrency.\<close> The machine has one processor and kernel code works on shared state with interrupts masked, so an operation is one step;
  a call that blocks is split where the thread gives up the processor. Invariants are proved over all sequences of such steps.

  \<^bold>\<open>Not modelled.\<close> Assembly and descriptor tables (\<^verbatim>\<open>kernel/arch/\<close>), the interrupt controller, timer and PS/2 ports, pixel output, and the
  start-up sequence in \<^verbatim>\<open>kernel/ke/ke_main.c\<close> are machine glue around the modelled operations. In \<^verbatim>\<open>kernel/ke/syscall.c\<close>, the service table, the
  information services, and window creation with its calls into user code are left out: they depend on rewritten trap frames and on
  the private layouts of one build of \<^verbatim>\<open>user32\<close>. The same holds of \<^verbatim>\<open>kernel/win32k/\<close> and \<^verbatim>\<open>kernel/ps/process.c\<close>. The image loader
  \<^verbatim>\<open>kernel/ldr/pe.c\<close> and the user-mode libraries under \<^verbatim>\<open>user/\<close> are not covered. Log lines, the TLB and FPU state have no counterpart.
\<close>

end
